(* ===== verification/Hi_Prelude.thy ===== *)
theory Hi_Prelude
  imports Main "HOL-Library.Word"
begin

text \<open>
  The vocabulary the component theories share: bytes, the characters of the Redis
  protocol, the character classes of \<^verbatim>\<open>ctype.h\<close> in the C locale, C strings, the decimal
  notation that \<^verbatim>\<open>sprintf("%d")\<close> and \<^verbatim>\<open>sprintf("%zu")\<close> print, and the fixed-width integers of
  an LP64 platform (\<^verbatim>\<open>int\<close> 32 bits, \<^verbatim>\<open>long\<close>, \<^verbatim>\<open>long long\<close> and \<^verbatim>\<open>size_t\<close> 64 bits).
  The lemma collections \<open>dec_simps\<close> (decimal notation) and \<open>chr_simps\<close> (character classes)
  carry the arithmetic of the component proofs.
\<close>

unbundle bit_operations_syntax

named_theorems dec_simps \<open>decimal notation: printing, reading, lengths\<close>
named_theorems chr_simps \<open>character classes on concrete and decimal characters\<close>

type_synonym bytes = "char list"
type_synonym u16 = "16 word"
type_synonym u32 = "32 word"
type_synonym u64 = "64 word"

abbreviation NUL :: char where "NUL \<equiv> CHR 0x00"
abbreviation CR :: char where "CR \<equiv> CHR 0x0D"
abbreviation LF :: char where "LF \<equiv> CHR 0x0A"
abbreviation CRLF :: bytes where "CRLF \<equiv> [CR, LF]"

section \<open>Characters\<close>

definition char_code :: "char \<Rightarrow> nat" where
  "char_code c = of_char c"

definition isdigit :: "char \<Rightarrow> bool" where
  "isdigit c \<longleftrightarrow> 48 \<le> char_code c \<and> char_code c \<le> 57"

definition isspace :: "char \<Rightarrow> bool" where
  "isspace c \<longleftrightarrow> char_code c = 32 \<or> 9 \<le> char_code c \<and> char_code c \<le> 13"

definition isprint :: "char \<Rightarrow> bool" where
  "isprint c \<longleftrightarrow> 32 \<le> char_code c \<and> char_code c \<le> 126"

definition tolower :: "char \<Rightarrow> char" where
  "tolower c = (if 65 \<le> char_code c \<and> char_code c \<le> 90 then char_of (char_code c + 32) else c)"

definition toupper :: "char \<Rightarrow> char" where
  "toupper c = (if 97 \<le> char_code c \<and> char_code c \<le> 122 then char_of (char_code c - 32) else c)"

definition digit_val :: "char \<Rightarrow> nat" where
  "digit_val c = char_code c - 48"

definition digit_char :: "nat \<Rightarrow> char" where
  "digit_char d = char_of (48 + d)"

text \<open>The bytes of a C string: everything before the first NUL.\<close>

definition cstr :: "bytes \<Rightarrow> bytes" where
  "cstr s = takeWhile (\<lambda>c. c \<noteq> NUL) s"

lemma char_code_less: "char_code c < 256"
  by (simp add: char_code_def)

lemma char_code_char_of [chr_simps]: "n < 256 \<Longrightarrow> char_code (char_of n) = n"
  by (simp add: char_code_def)

lemma char_code_digit_char [chr_simps]: "d < 10 \<Longrightarrow> char_code (digit_char d) = 48 + d"
  by (simp add: digit_char_def char_code_char_of)

lemma isdigit_digit_char [simp]: "d < 10 \<Longrightarrow> isdigit (digit_char d)"
  by (simp add: isdigit_def chr_simps)

lemma digit_val_digit_char [simp, dec_simps]: "d < 10 \<Longrightarrow> digit_val (digit_char d) = d"
  by (simp add: digit_val_def chr_simps)

lemma digit_val_less: "isdigit c \<Longrightarrow> digit_val c < 10"
  by (auto simp: isdigit_def digit_val_def)

lemma char_code_inj: "char_code a = char_code b \<Longrightarrow> a = b"
  by (simp add: char_code_def)

lemma not_isdigit_CR [simp, chr_simps]: "\<not> isdigit CR"
  and not_isdigit_LF [simp, chr_simps]: "\<not> isdigit LF"
  and not_isdigit_dollar [simp, chr_simps]: "\<not> isdigit CHR ''$''"
  and not_isdigit_minus [simp, chr_simps]: "\<not> isdigit CHR ''-''"
  and not_isdigit_plus [simp, chr_simps]: "\<not> isdigit CHR ''+''"
  and not_isdigit_star [simp, chr_simps]: "\<not> isdigit CHR ''*''"
  and not_isdigit_NUL [simp, chr_simps]: "\<not> isdigit NUL"
  by (simp_all add: isdigit_def char_code_def)

lemma cstr_append_NUL [simp]: "NUL \<notin> set s \<Longrightarrow> cstr (s @ NUL # t) = s"
  unfolding cstr_def by (induction s) auto

section \<open>Decimal notation\<close>

fun dec :: "nat \<Rightarrow> bytes" where
  "dec n = (if n < 10 then [digit_char n] else dec (n div 10) @ [digit_char (n mod 10)])"

declare dec.simps [simp del]

definition undec :: "nat \<Rightarrow> bytes \<Rightarrow> nat" where
  "undec a s = foldl (\<lambda>v c. v * 10 + digit_val c) a s"

definition dec_int :: "int \<Rightarrow> bytes" where
  "dec_int i = (if i < 0 then CHR ''-'' # dec (nat (- i)) else dec (nat i))"

lemma dec_small [dec_simps]: "n < 10 \<Longrightarrow> dec n = [digit_char n]"
  by (simp add: dec.simps [of n])

lemma dec_big [dec_simps]:
  "10 \<le> n \<Longrightarrow> dec n = dec (n div 10) @ [digit_char (n mod 10)]"
  by (simp add: dec.simps [of n])

lemma dec_not_Nil [simp]: "dec n \<noteq> []"
  by (simp add: dec.simps [of n])

lemma length_dec_pos [simp]: "0 < length (dec n)"
  by simp

lemma dec_isdigit: "c \<in> set (dec n) \<Longrightarrow> isdigit c"
proof (induction n rule: dec.induct)
  case (1 n)
  then show ?case by (cases "n < 10") (auto simp: dec_small dec_big)
qed

lemma dec_list_all_isdigit [simp]: "list_all isdigit (dec n)"
  by (simp add: list_all_iff dec_isdigit)

lemma undec_Nil [simp]: "undec a [] = a"
  and undec_Cons [simp]: "undec a (c # s) = undec (a * 10 + digit_val c) s"
  and undec_append [simp]: "undec a (s @ t) = undec (undec a s) t"
  by (simp_all add: undec_def)

lemma undec_shift: "undec a s = a * 10 ^ length s + undec 0 s"
proof (induction s arbitrary: a)
  case (Cons c s)
  show ?case
    using Cons [of "a * 10 + digit_val c"] Cons [of "digit_val c"] by (simp add: algebra_simps)
qed simp

lemma undec_0_dec [simp, dec_simps]: "undec 0 (dec n) = n"
proof (induction n rule: dec.induct)
  case (1 n)
  then show ?case by (cases "n < 10") (simp_all add: dec_small dec_big)
qed

lemma undec_dec [dec_simps]: "undec a (dec n) = a * 10 ^ length (dec n) + n"
  using undec_shift [of a "dec n"] by simp

lemma length_dec_mono_lower: "10 ^ (length (dec n) - 1) \<le> n \<or> n < 10"
proof (induction n rule: dec.induct)
  case (1 n)
  show ?case
  proof (cases "n < 10")
    case False
    with 1 have IH: "10 ^ (length (dec (n div 10)) - 1) \<le> n div 10 \<or> n div 10 < 10" by blast
    have len: "length (dec n) - 1 = Suc (length (dec (n div 10)) - 1)"
      using False length_dec_pos [of "n div 10"] by (simp add: dec_big del: length_dec_pos)
    have "10 ^ (length (dec (n div 10)) - 1) \<le> n div 10"
      using IH False by (auto simp: dec_small)
    then have "10 * 10 ^ (length (dec (n div 10)) - 1) \<le> n"
      by (metis (no_types) mult.commute div_times_less_eq_dividend mult_le_mono2 order_trans)
    then show ?thesis by (simp only: len power_Suc simp_thms)
  qed simp
qed

lemma length_dec_upper: "n < 10 ^ length (dec n)"
proof (induction n rule: dec.induct)
  case (1 n)
  show ?case
  proof (cases "n < 10")
    case True
    then show ?thesis by (simp add: dec_small)
  next
    case False
    with 1 have "n div 10 < 10 ^ length (dec (n div 10))" by blast
    then have "n < 10 * 10 ^ length (dec (n div 10))" by linarith
    with False show ?thesis by (simp add: dec_big)
  qed
qed

lemma dec_inj: "dec m = dec n \<Longrightarrow> m = n"
  by (metis undec_0_dec)

lemma dec_hd_digit [simp]: "isdigit (hd (dec n))"
  by (metis dec_isdigit dec_not_Nil list.set_sel(1))

lemma CR_notin_dec [simp]: "CR \<notin> set (dec n)"
  and LF_notin_dec [simp]: "LF \<notin> set (dec n)"
  and NUL_notin_dec [simp]: "NUL \<notin> set (dec n)"
  and minus_notin_dec [simp]: "CHR ''-'' \<notin> set (dec n)"
  using dec_isdigit not_isdigit_CR not_isdigit_LF not_isdigit_NUL not_isdigit_minus by blast+

section \<open>Fixed-width integers\<close>

text \<open>
  A signed value of \<^verbatim>\<open>n\<close> bits is an \<^typ>\<open>int\<close>; \<open>int32\<close> and \<open>int64\<close> are the
  conversions of C on two's complement machines.
\<close>

definition int32 :: "int \<Rightarrow> int" where
  "int32 x = signed_take_bit 31 x"

definition int64 :: "int \<Rightarrow> int" where
  "int64 x = signed_take_bit 63 x"

definition uint32 :: "int \<Rightarrow> nat" where
  "uint32 x = nat (take_bit 32 x)"

definition size64 :: "int \<Rightarrow> nat" where
  "size64 x = nat (take_bit 64 x)"

lemma int32_id: "- (2 ^ 31) \<le> x \<Longrightarrow> x < 2 ^ 31 \<Longrightarrow> int32 x = x"
  by (simp add: int32_def signed_take_bit_int_eq_self)

lemma int64_id: "- (2 ^ 63) \<le> x \<Longrightarrow> x < 2 ^ 63 \<Longrightarrow> int64 x = x"
  by (simp add: int64_def signed_take_bit_int_eq_self)

lemma uint32_id: "0 \<le> x \<Longrightarrow> x < 2 ^ 32 \<Longrightarrow> uint32 x = nat x"
  by (simp add: uint32_def take_bit_int_eq_self)

lemma size64_id: "0 \<le> x \<Longrightarrow> x < 2 ^ 64 \<Longrightarrow> size64 x = nat x"
  by (simp add: size64_def take_bit_int_eq_self)

lemma int32_bounds: "- (2 ^ 31) \<le> int32 x" "int32 x < 2 ^ 31"
  using signed_take_bit_int_greater_eq_minus_exp [of 31 x]
    signed_take_bit_int_less_exp [of 31 x]
  by (simp_all add: int32_def)

lemma uint32_less: "uint32 x < 2 ^ 32"
  using take_bit_int_less_exp [of 32 x] by (simp add: uint32_def)

lemma size64_less: "size64 x < 2 ^ 64"
  using take_bit_int_less_exp [of 64 x] by (simp add: size64_def)

lemma size64_nat [simp]: "n < 2 ^ 64 \<Longrightarrow> size64 (int n) = n"
  by (simp add: size64_id)

section \<open>Memory and undefined behaviour\<close>

text \<open>
  Code that would step outside an allocated object, dereference NULL or fail an
  \<^verbatim>\<open>assert\<close> returns \<open>Inl\<close> of a fault; \<open>bind_c\<close> passes the fault on. An allocator is two
  functions: which requests \<^verbatim>\<open>malloc\<close>/\<^verbatim>\<open>realloc\<close> grant, and what the fresh bytes hold.
  Lemmas hold for every allocator.
\<close>

datatype c_fault = OutOfBounds | AssertFailed | NullDeref | UseAfterFree | BadVarArg | Uninit | Diverged

type_synonym 'a c_res = "c_fault + 'a"

definition bind_c :: "'a c_res \<Rightarrow> ('a \<Rightarrow> 'b c_res) \<Rightarrow> 'b c_res" where
  "bind_c m f = (case m of Inl e \<Rightarrow> Inl e | Inr x \<Rightarrow> f x)"

definition assert_c :: "bool \<Rightarrow> unit c_res" where
  "assert_c b = (if b then Inr () else Inl AssertFailed)"

record mem =
  mem_ok :: "nat \<Rightarrow> bool"
  mem_junk :: "nat \<Rightarrow> char"

text \<open>The allocator that refuses nothing, for the concrete runs.\<close>

abbreviation granting :: mem where
  "granting \<equiv> \<lparr>mem_ok = (\<lambda>_. True), mem_junk = (\<lambda>_. CHR ''?'')\<rparr>"

text \<open>\<^verbatim>\<open>memcpy\<close> of a block to an offset of an allocated buffer, and one indexed read.\<close>

definition memcpy :: "'a list \<Rightarrow> nat \<Rightarrow> 'a list \<Rightarrow> 'a list c_res" where
  "memcpy b off t =
     (if off + length t \<le> length b then Inr (take off b @ t @ drop (off + length t) b)
      else Inl OutOfBounds)"

definition rd :: "'a list \<Rightarrow> nat \<Rightarrow> 'a c_res" where
  "rd b i = (if i < length b then Inr (b ! i) else Inl OutOfBounds)"

definition realloc_buf :: "mem \<Rightarrow> bytes \<Rightarrow> nat \<Rightarrow> bytes" where
  "realloc_buf M b n = take n b @ map (mem_junk M) [length b..<n]"

lemma bind_c_simps [simp]:
  "bind_c (Inl e) f = Inl e"
  "bind_c (Inr x) f = f x"
  by (simp_all add: bind_c_def)

lemma bind_c_cong [fundef_cong]:
  assumes "m = m'" and "\<And>x. m' = Inr x \<Longrightarrow> f x = g x"
  shows "bind_c m f = bind_c m' g"
  using assms by (cases m') auto

lemma bind_c_Inr_iff: "bind_c m f = Inr y \<longleftrightarrow> (\<exists>x. m = Inr x \<and> f x = Inr y)"
  by (cases m) auto

lemma bind_c_Inr_cases [elim]:
  assumes "bind_c m f = Inr y"
  obtains x where "m = Inr x" and "f x = Inr y"
  using assms by (cases m) auto

lemma assert_c_simps [simp]:
  "b \<Longrightarrow> assert_c b = Inr ()"
  "\<not> b \<Longrightarrow> assert_c b = Inl AssertFailed"
  "assert_c b = Inr u \<longleftrightarrow> b"
  by (simp_all add: assert_c_def)

lemma memcpy_ok [simp]:
  "off + length t \<le> length b \<Longrightarrow> memcpy b off t = Inr (take off b @ t @ drop (off + length t) b)"
  by (simp add: memcpy_def)

lemma memcpy_InrD:
  assumes "memcpy b off t = Inr b'"
  shows "off + length t \<le> length b" "length b' = length b"
    "b' = take off b @ t @ drop (off + length t) b"
  using assms by (auto simp: memcpy_def split: if_splits)

lemma rd_ok [simp]: "i < length b \<Longrightarrow> rd b i = Inr (b ! i)"
  by (simp add: rd_def)

lemma rd_Inr_iff: "rd b i = Inr x \<longleftrightarrow> i < length b \<and> x = b ! i"
  by (auto simp: rd_def)

lemma length_realloc_buf [simp]: "length b \<le> n \<Longrightarrow> length (realloc_buf M b n) = n"
  by (simp add: realloc_buf_def)

lemma take_realloc_buf: "k \<le> length b \<Longrightarrow> k \<le> n \<Longrightarrow> take k (realloc_buf M b n) = take k b"
  by (simp add: realloc_buf_def)

lemma nth_realloc_buf: "k < length b \<Longrightarrow> k < n \<Longrightarrow> realloc_buf M b n ! k = b ! k"
  by (simp add: realloc_buf_def nth_append)

end
