(* ===== verification/Sds.thy ===== *)
theory Sds
  imports Hi_Prelude
begin

text \<open>
  The dynamic strings of \<^verbatim>\<open>src/sds.c\<close>: the header \<^verbatim>\<open>struct sdshdr\<close> with its two 32-bit
  \<^verbatim>\<open>int\<close> fields and the bytes allocated behind it, and the operations that read or change
  one string. \<open>sh_buf\<close> holds every allocated byte, the terminating NUL and the free tail
  included, so a write that left the allocation would be a fault. \<^verbatim>\<open>NULL\<close> results are
  \<open>None\<close>. The abstraction \<open>content\<close> is the string a user sees; \<open>sds_ok\<close> is the invariant
  between header and allocation. The operations on text (splitting, numbers, quoting) are in
  \<open>Sds_Text\<close>.
\<close>

section \<open>The header and its allocation\<close>

record sdshdr =
  sh_len :: int
  sh_free :: int
  sh_buf :: bytes

abbreviation SDS_MAX_PREALLOC :: nat where "SDS_MAX_PREALLOC \<equiv> 1048576"
abbreviation sizeof_sdshdr :: nat where "sizeof_sdshdr \<equiv> 8"

definition sdslen :: "sdshdr \<Rightarrow> nat" where
  "sdslen s = size64 (sh_len s)"

definition sdsavail :: "sdshdr \<Rightarrow> nat" where
  "sdsavail s = size64 (sh_free s)"

definition sdsnewlen :: "mem \<Rightarrow> bytes option \<Rightarrow> nat \<Rightarrow> sdshdr option c_res" where
  "sdsnewlen M init initlen =
     (if \<not> mem_ok M (sizeof_sdshdr + initlen + 1) then Inr None
      else
        (let fresh = (case init of
               Some _ \<Rightarrow> map (mem_junk M) [0..<initlen + 1]
             | None \<Rightarrow> replicate (initlen + 1) NUL)
         in bind_c
              (case init of
                 Some t \<Rightarrow> (if initlen \<noteq> 0 then
                     (if initlen \<le> length t then memcpy fresh 0 (take initlen t) else Inl OutOfBounds)
                   else Inr fresh)
               | None \<Rightarrow> Inr fresh)
              (\<lambda>b. bind_c (memcpy b initlen [NUL])
                 (\<lambda>b'. Inr (Some \<lparr>sh_len = int32 (int initlen), sh_free = 0, sh_buf = b'\<rparr>)))))"

definition sdsempty :: "mem \<Rightarrow> sdshdr option c_res" where
  "sdsempty M = sdsnewlen M (Some '''') 0"

definition sdsnew :: "mem \<Rightarrow> bytes option \<Rightarrow> sdshdr option c_res" where
  "sdsnew M init =
     (let initlen = (case init of None \<Rightarrow> 0 | Some t \<Rightarrow> length (cstr t))
      in sdsnewlen M init initlen)"

definition sdsdup :: "mem \<Rightarrow> sdshdr \<Rightarrow> sdshdr option c_res" where
  "sdsdup M s = sdsnewlen M (Some (sh_buf s)) (sdslen s)"

definition sdsupdatelen :: "sdshdr \<Rightarrow> sdshdr" where
  "sdsupdatelen s =
     (let reallen = int32 (int (length (cstr (sh_buf s))))
      in s\<lparr>sh_free := int32 (sh_free s + (sh_len s - reallen)), sh_len := reallen\<rparr>)"

definition sdsclear :: "sdshdr \<Rightarrow> sdshdr c_res" where
  "sdsclear s =
     bind_c (memcpy (sh_buf s) 0 [NUL])
       (\<lambda>b. Inr (s\<lparr>sh_free := int32 (sh_free s + sh_len s), sh_len := 0, sh_buf := b\<rparr>))"

section \<open>Room\<close>

definition sdsMakeRoomFor :: "mem \<Rightarrow> sdshdr \<Rightarrow> nat \<Rightarrow> sdshdr option" where
  "sdsMakeRoomFor M s addlen =
     (if addlen \<le> sdsavail s then Some s
      else
        (let len = sdslen s;
             newlen = size64 (int (len + addlen));
             newlen = (if newlen < SDS_MAX_PREALLOC then size64 (int (newlen * 2))
                       else size64 (int (newlen + SDS_MAX_PREALLOC)))
         in if \<not> mem_ok M (size64 (int (sizeof_sdshdr + newlen + 1))) then None
            else Some (s\<lparr>sh_free := int32 (int newlen - int len),
                         sh_buf := realloc_buf M (sh_buf s)
                           (size64 (int (sizeof_sdshdr + newlen + 1)) - sizeof_sdshdr)\<rparr>)))"

definition sdsRemoveFreeSpace :: "mem \<Rightarrow> sdshdr \<Rightarrow> sdshdr c_res" where
  "sdsRemoveFreeSpace M s =
     (if \<not> mem_ok M (size64 (int sizeof_sdshdr + sh_len s + 1)) then Inl NullDeref
      else Inr (s\<lparr>sh_free := 0, sh_buf := realloc_buf M (sh_buf s) (size64 (sh_len s + 1))\<rparr>))"

definition sdsAllocSize :: "sdshdr \<Rightarrow> nat" where
  "sdsAllocSize s = size64 (int sizeof_sdshdr + sh_len s + sh_free s + 1)"

definition sdsIncrLen :: "sdshdr \<Rightarrow> int \<Rightarrow> sdshdr c_res" where
  "sdsIncrLen s incr =
     bind_c (assert_c (sh_free s \<ge> incr)) (\<lambda>_.
       (let len = int32 (sh_len s + incr); free = int32 (sh_free s - incr)
        in bind_c (assert_c (free \<ge> 0)) (\<lambda>_.
             if len < 0 then Inl OutOfBounds
             else bind_c (memcpy (sh_buf s) (nat len) [NUL])
                    (\<lambda>b. Inr (s\<lparr>sh_len := len, sh_free := free, sh_buf := b\<rparr>)))))"

definition sdsgrowzero :: "mem \<Rightarrow> sdshdr \<Rightarrow> nat \<Rightarrow> sdshdr option c_res" where
  "sdsgrowzero M s len =
     (let curlen = sdslen s in
      if len \<le> curlen then Inr (Some s)
      else
        (case sdsMakeRoomFor M s (len - curlen) of
           None \<Rightarrow> Inr None
         | Some s' \<Rightarrow>
             bind_c (memcpy (sh_buf s') curlen (replicate (len - curlen + 1) NUL))
               (\<lambda>b. let totlen = sh_len s' + sh_free s'; l = int32 (int len)
                     in Inr (Some (s'\<lparr>sh_buf := b, sh_len := l, sh_free := int32 (totlen - l)\<rparr>)))))"

section \<open>Concatenation and copying\<close>

definition sdscatlen :: "mem \<Rightarrow> sdshdr \<Rightarrow> bytes \<Rightarrow> sdshdr option c_res" where
  "sdscatlen M s t =
     (let curlen = sdslen s; len = length t in
      case sdsMakeRoomFor M s len of
        None \<Rightarrow> Inr None
      | Some s' \<Rightarrow>
          bind_c (memcpy (sh_buf s') curlen t) (\<lambda>b.
            bind_c (memcpy b (curlen + len) [NUL]) (\<lambda>b'.
              Inr (Some (s'\<lparr>sh_buf := b',
                            sh_len := int32 (int (curlen + len)),
                            sh_free := int32 (sh_free s' - int len)\<rparr>)))))"

definition sdscat :: "mem \<Rightarrow> sdshdr \<Rightarrow> bytes \<Rightarrow> sdshdr option c_res" where
  "sdscat M s t = sdscatlen M s (cstr t)"

definition sdscatsds :: "mem \<Rightarrow> sdshdr \<Rightarrow> sdshdr \<Rightarrow> sdshdr option c_res" where
  "sdscatsds M s t =
     (if sdslen t \<le> length (sh_buf t) then sdscatlen M s (take (sdslen t) (sh_buf t))
      else Inl OutOfBounds)"

definition sdscpylen :: "mem \<Rightarrow> sdshdr \<Rightarrow> bytes \<Rightarrow> sdshdr option c_res" where
  "sdscpylen M s t =
     (let len = length t; totlen = size64 (sh_free s + sh_len s) in
      case (if totlen < len then sdsMakeRoomFor M s (size64 (int len - sh_len s)) else Some s) of
        None \<Rightarrow> Inr None
      | Some s' \<Rightarrow>
          (let totlen' = (if totlen < len then size64 (sh_free s' + sh_len s') else totlen)
           in bind_c (memcpy (sh_buf s') 0 t) (\<lambda>b.
                bind_c (memcpy b len [NUL]) (\<lambda>b'.
                  Inr (Some (s'\<lparr>sh_buf := b', sh_len := int32 (int len),
                                sh_free := int32 (int totlen' - int len)\<rparr>))))))"

definition sdscpy :: "mem \<Rightarrow> sdshdr \<Rightarrow> bytes \<Rightarrow> sdshdr option c_res" where
  "sdscpy M s t = sdscpylen M s (cstr t)"

section \<open>Trimming, ranges, case, comparison\<close>

text \<open>
  \<^verbatim>\<open>strchr(cset, c)\<close> also finds the terminating NUL of \<^verbatim>\<open>cset\<close>; \<open>trim_fwd\<close> and \<open>trim_bwd\<close>
  are the two loops, over the positions \<^verbatim>\<open>sp\<close> and \<^verbatim>\<open>ep\<close>.
\<close>

definition in_cset :: "bytes \<Rightarrow> char \<Rightarrow> bool" where
  "in_cset cset c \<longleftrightarrow> c \<in> set (cstr cset) \<or> c = NUL"

function trim_fwd :: "bytes \<Rightarrow> bytes \<Rightarrow> nat \<Rightarrow> nat \<Rightarrow> nat" where
  "trim_fwd cset b n sp =
     (if sp < n \<and> in_cset cset (b ! sp) then trim_fwd cset b n (Suc sp) else sp)"
  by pat_completeness auto
termination
  by (relation "measure (\<lambda>(cset, b, n, sp). n - sp)") auto

fun trim_bwd :: "bytes \<Rightarrow> bytes \<Rightarrow> nat \<Rightarrow> nat" where
  "trim_bwd cset b 0 = 0"
| "trim_bwd cset b (Suc k) =
     (if 0 < k \<and> in_cset cset (b ! k) then trim_bwd cset b k else Suc k)"

text \<open>
  \<open>trim_bwd\<close> counts \<^verbatim>\<open>ep - start + 1\<close>, so that the \<^verbatim>\<open>ep\<close> of the empty string (one before
  \<^verbatim>\<open>start\<close>) is 0.
\<close>

definition sdstrim :: "sdshdr \<Rightarrow> bytes \<Rightarrow> sdshdr c_res" where
  "sdstrim s cset =
     (let n = sdslen s in
      if length (sh_buf s) < n then Inl OutOfBounds
      else
        (let sp = trim_fwd cset (sh_buf s) n 0;
             ep1 = trim_bwd cset (sh_buf s) n;
             len = (if ep1 \<le> sp then 0 else ep1 - sp)
         in bind_c (memcpy (sh_buf s) 0 (take len (drop sp (sh_buf s)))) (\<lambda>b.
              bind_c (memcpy b len [NUL]) (\<lambda>b'.
                Inr (s\<lparr>sh_buf := b', sh_free := int32 (sh_free s + (sh_len s - int len)),
                       sh_len := int32 (int len)\<rparr>)))))"

text \<open>\<open>sdsrange_bounds\<close> is the arithmetic on \<^verbatim>\<open>start\<close>, \<^verbatim>\<open>end\<close> and \<^verbatim>\<open>newlen\<close>; \<^verbatim>\<open>(signed)len\<close> is a
  cast to \<^verbatim>\<open>int\<close>, and \<^verbatim>\<open>int\<close> arithmetic wraps.\<close>

definition sdsrange_bounds :: "nat \<Rightarrow> int \<Rightarrow> int \<Rightarrow> int \<times> nat" where
  "sdsrange_bounds len start end =
     (let start = (if start < 0 then
                     (let t = int32 (int len + start) in if t < 0 then 0 else t) else start);
          end = (if end < 0 then
                   (let t = int32 (int len + end) in if t < 0 then 0 else t) else end);
          newlen = (if start > end then 0 else size64 (int32 (int32 (end - start) + 1)))
      in if newlen \<noteq> 0 then
           (if start \<ge> int32 (int len) then (start, 0)
            else if end \<ge> int32 (int len) then
              (let end = int32 (int len - 1)
               in (start, if start > end then 0 else size64 (int32 (int32 (end - start) + 1))))
            else (start, newlen))
         else (0, newlen))"

definition sdsrange :: "sdshdr \<Rightarrow> int \<Rightarrow> int \<Rightarrow> sdshdr c_res" where
  "sdsrange s start end =
     (let len = sdslen s in
      if len = 0 then Inr s
      else
        (let (start, newlen) = sdsrange_bounds len start end
         in bind_c
              (if start \<noteq> 0 \<and> newlen \<noteq> 0 then
                 (if nat start + newlen \<le> length (sh_buf s) then
                    memcpy (sh_buf s) 0 (take newlen (drop (nat start) (sh_buf s)))
                  else Inl OutOfBounds)
               else Inr (sh_buf s))
              (\<lambda>b. bind_c (memcpy b newlen [NUL]) (\<lambda>b'.
                 Inr (s\<lparr>sh_buf := b', sh_free := int32 (sh_free s + (sh_len s - int newlen)),
                        sh_len := int32 (int newlen)\<rparr>)))))"

definition sds_map :: "(char \<Rightarrow> char) \<Rightarrow> sdshdr \<Rightarrow> sdshdr c_res" where
  "sds_map f s =
     (let len = int32 (int (sdslen s)) in
      if int (length (sh_buf s)) < len then Inl OutOfBounds
      else Inr (s\<lparr>sh_buf := map f (take (nat len) (sh_buf s)) @ drop (nat len) (sh_buf s)\<rparr>))"

definition sdstolower :: "sdshdr \<Rightarrow> sdshdr c_res" where
  "sdstolower s = sds_map tolower s"

definition sdstoupper :: "sdshdr \<Rightarrow> sdshdr c_res" where
  "sdstoupper s = sds_map toupper s"

fun memcmp :: "bytes \<Rightarrow> bytes \<Rightarrow> int" where
  "memcmp (a # as) (b # bs) =
     (if char_code a < char_code b then - 1
      else if char_code b < char_code a then 1 else memcmp as bs)"
| "memcmp _ _ = 0"

definition sdscmp :: "sdshdr \<Rightarrow> sdshdr \<Rightarrow> int" where
  "sdscmp s1 s2 =
     (let l1 = sdslen s1; l2 = sdslen s2; minlen = min l1 l2;
          cmp = memcmp (take minlen (sh_buf s1)) (take minlen (sh_buf s2))
      in if cmp = 0 then int32 (int l1 - int l2) else cmp)"

fun mapchar_of :: "bytes \<Rightarrow> bytes \<Rightarrow> char \<Rightarrow> char" where
  "mapchar_of (f # from) (t # to) c = (if c = f then t else mapchar_of from to c)"
| "mapchar_of _ _ c = c"

definition sdsmapchars :: "sdshdr \<Rightarrow> bytes \<Rightarrow> bytes \<Rightarrow> nat \<Rightarrow> sdshdr c_res" where
  "sdsmapchars s from to setlen =
     (if length from < setlen \<or> length to < setlen \<or> length (sh_buf s) < sdslen s then Inl OutOfBounds
      else Inr (s\<lparr>sh_buf := map (mapchar_of (take setlen from) (take setlen to))
                              (take (sdslen s) (sh_buf s)) @ drop (sdslen s) (sh_buf s)\<rparr>))"


section \<open>The invariant and the abstraction\<close>

definition content :: "sdshdr \<Rightarrow> bytes" where
  "content s = take (nat (sh_len s)) (sh_buf s)"

definition sds_ok :: "sdshdr \<Rightarrow> bool" where
  "sds_ok s \<longleftrightarrow> 0 \<le> sh_len s \<and> 0 \<le> sh_free s \<and> sh_len s + sh_free s < 2 ^ 31 \<and>
     length (sh_buf s) = nat (sh_len s + sh_free s) + 1 \<and> sh_buf s ! nat (sh_len s) = NUL"

lemma sds_okD:
  assumes "sds_ok s"
  shows "0 \<le> sh_len s" "0 \<le> sh_free s" "sh_len s + sh_free s < 2 ^ 31" "sh_len s < 2 ^ 31"
    "sh_free s < 2 ^ 31" "length (sh_buf s) = nat (sh_len s) + nat (sh_free s) + 1"
    "sh_buf s ! nat (sh_len s) = NUL"
  using assms by (auto simp: sds_ok_def nat_add_distrib)

lemma sdslen_ok: "sds_ok s \<Longrightarrow> sdslen s = nat (sh_len s)"
  using sds_okD [of s] by (simp add: sdslen_def size64_id)

lemma sdsavail_ok: "sds_ok s \<Longrightarrow> sdsavail s = nat (sh_free s)"
  using sds_okD [of s] by (simp add: sdsavail_def size64_id)

lemma length_content: "sds_ok s \<Longrightarrow> length (content s) = sdslen s"
  using sds_okD [of s] by (simp add: content_def sdslen_ok)

lemma sh_len_content: "sds_ok s \<Longrightarrow> sh_len s = int (length (content s))"
  using sds_okD [of s] by (simp add: length_content sdslen_ok)

lemma buf_decomp:
  assumes "sds_ok s"
  shows "sh_buf s = content s @ NUL # drop (Suc (nat (sh_len s))) (sh_buf s)"
  using sds_okD [OF assms] unfolding content_def
  by (metis id_take_nth_drop less_add_one trans_less_add1 add.commute add.left_commute)

text \<open>The canonical form of an invariant state: a content, a NUL, and a free tail.\<close>

definition sds_of :: "bytes \<Rightarrow> bytes \<Rightarrow> sdshdr" where
  "sds_of c z = \<lparr>sh_len = int (length c), sh_free = int (length z), sh_buf = c @ NUL # z\<rparr>"

lemma sds_of_sel [simp]:
  "sh_len (sds_of c z) = int (length c)"
  "sh_free (sds_of c z) = int (length z)"
  "sh_buf (sds_of c z) = c @ NUL # z"
  "content (sds_of c z) = c"
  by (simp_all add: sds_of_def content_def)

lemma sds_ok_of [simp]: "sds_ok (sds_of c z) \<longleftrightarrow> length c + length z < 2 ^ 31"
  by (simp add: sds_ok_def nat_add_distrib) linarith

lemma sdslen_of [simp]: "length c < 2 ^ 64 \<Longrightarrow> sdslen (sds_of c z) = length c"
  and sdsavail_of [simp]: "length z < 2 ^ 64 \<Longrightarrow> sdsavail (sds_of c z) = length z"
  by (simp_all add: sdslen_def sdsavail_def)

lemma sds_eq_of:
  assumes "sh_len s = int (length c)" "sh_free s = int (length z)" "sh_buf s = c @ NUL # z"
  shows "s = sds_of c z"
  using assms by (cases s) (simp add: sds_of_def)

lemma sds_ok_cases:
  assumes "sds_ok s"
  obtains c z where "s = sds_of c z" "length c + length z < 2 ^ 31" "content s = c"
proof -
  let ?c = "content s" and ?z = "drop (Suc (nat (sh_len s))) (sh_buf s)"
  have len: "sh_len s = int (length ?c)" and free: "sh_free s = int (length ?z)"
    using sds_okD [OF assms] by (simp_all add: content_def)
  have eq: "s = sds_of ?c ?z"
    by (rule sds_eq_of [OF len free buf_decomp [OF assms]])
  show thesis
  proof (rule that [OF eq _ refl])
    show "length ?c + length ?z < 2 ^ 31"
      using assms by (subst (asm) eq) (simp only: sds_ok_of)
  qed
qed

section \<open>Every operation keeps the invariant\<close>

text \<open>A block and its terminating NUL written at an offset: the last two stores of most
  operations.\<close>

lemma store_terminated:
  assumes "off + length t < length b"
  shows "bind_c (memcpy b off t) (\<lambda>b1. bind_c (memcpy b1 (off + length t) [NUL]) f) =
    f (take off b @ t @ NUL # drop (Suc (off + length t)) b)"
proof -
  have "memcpy (take off b @ t @ drop (off + length t) b) (off + length t) [NUL] =
      Inr (take off b @ t @ NUL # drop (Suc (off + length t)) b)"
    using assms by simp
  with assms show ?thesis by simp
qed

text \<open>
  \<open>sds_raw c w\<close> is a string in the middle of an update: \<open>c\<close> is written, \<open>w\<close> is the rest of
  the allocation, whose first byte need not be the terminator yet (\<^verbatim>\<open>sdscatfmt\<close> only writes it
  at the end).
\<close>

definition sds_raw :: "bytes \<Rightarrow> bytes \<Rightarrow> sdshdr" where
  "sds_raw c w = \<lparr>sh_len = int (length c), sh_free = int (length w) - 1, sh_buf = c @ w\<rparr>"

lemma sds_raw_sel [simp]:
  "sh_len (sds_raw c w) = int (length c)"
  "sh_free (sds_raw c w) = int (length w) - 1"
  "sh_buf (sds_raw c w) = c @ w"
  by (simp_all add: sds_raw_def)

lemma sds_of_raw: "sds_of c z = sds_raw c (NUL # z)"
  by (simp add: sds_of_def sds_raw_def)

lemma sdslen_raw [simp]: "length c < 2 ^ 64 \<Longrightarrow> sdslen (sds_raw c w) = length c"
  by (simp add: sdslen_def)

lemma sdsavail_raw [simp]:
  "w \<noteq> [] \<Longrightarrow> length w < 2 ^ 64 \<Longrightarrow> sdsavail (sds_raw c w) = length w - 1"
  by (cases w) (simp_all add: sdsavail_def)

text \<open>\<^verbatim>\<open>sdsMakeRoomFor\<close>: the content stays, and the requested room is there.\<close>

lemma sdsMakeRoomFor_raw:
  assumes "w \<noteq> []" "length c + length w \<le> 2 ^ 31" and "length c + n + SDS_MAX_PREALLOC < 2 ^ 31"
  shows "sdsMakeRoomFor M (sds_raw c w) n = None \<and> (\<exists>k. \<not> mem_ok M k) \<or>
    (\<exists>w'. sdsMakeRoomFor M (sds_raw c w) n = Some (sds_raw c w') \<and> n < length w' \<and>
          length c + length w' \<le> 2 ^ 31 \<and> hd w' = hd w)"
proof (cases "n < length w")
  case True
  then show ?thesis using assms by (auto simp: sdsMakeRoomFor_def)
next
  case False
  define m where "m = (if length c + n < SDS_MAX_PREALLOC then (length c + n) * 2
    else length c + n + SDS_MAX_PREALLOC)"
  have m: "length c + n \<le> m" "m < 2 ^ 31"
    using assms False by (auto simp: m_def)
  let ?b = "realloc_buf M (c @ w) (m + 1)"
  let ?w = "drop (length c) ?b"
  have w: "0 < length w" using assms by simp
  have lb: "length ?b = m + 1"
    using m False by simp
  have b: "?b = c @ ?w"
    using m False take_realloc_buf [of "length c" "c @ w" "m + 1" M]
    by (metis append_take_drop_id append_eq_conv_conj add_leD1 le_add1 length_append trans_le_add1)
  have hd: "hd ?w = hd w"
    using m False w nth_realloc_buf [of "length c" "c @ w" "m + 1" M]
    by (simp add: hd_drop_conv_nth lb nth_append hd_conv_nth)
  have s: "(sds_raw c w)\<lparr>sh_free := int m - int (length c), sh_buf := ?b\<rparr> = sds_raw c ?w"
    using m b lb by (simp add: sds_raw_def del: length_append)
  have "\<not> n \<le> length w - 1" using False w by linarith
  then have "sdsMakeRoomFor M (sds_raw c w) n =
      (if mem_ok M (8 + m + 1) then Some (sds_raw c ?w) else None)"
    using assms False m w unfolding s [symmetric]
    by (simp add: sdsMakeRoomFor_def m_def Let_def int32_id del: of_nat_add of_nat_mult)
  moreover have "n < length ?w" "length c + length ?w \<le> 2 ^ 31"
    using m lb by simp_all
  ultimately show ?thesis using hd by auto
qed

lemma sdsMakeRoomFor_of:
  assumes "length c + length z < 2 ^ 31" and "length c + n + SDS_MAX_PREALLOC < 2 ^ 31"
  shows "sdsMakeRoomFor M (sds_of c z) n = None \<and> (\<exists>k. \<not> mem_ok M k) \<or>
    (\<exists>z'. sdsMakeRoomFor M (sds_of c z) n = Some (sds_of c z') \<and> n \<le> length z' \<and>
          length c + length z' < 2 ^ 31)"
proof -
  have "length c + length (NUL # z) \<le> 2 ^ 31" using assms by simp
  from sdsMakeRoomFor_raw [OF _ this assms (2), of M]
  consider "sdsMakeRoomFor M (sds_of c z) n = None" "\<exists>k. \<not> mem_ok M k"
    | w where "sdsMakeRoomFor M (sds_of c z) n = Some (sds_raw c w)" "n < length w"
      "length c + length w \<le> 2 ^ 31" "hd w = NUL"
    by (auto simp: sds_of_raw)
  then show ?thesis
  proof cases
    case (2 w)
    then show ?thesis by (cases w) (auto simp: sds_of_raw)
  qed blast
qed

lemma sdscatlen_of:
  assumes "length c + length z < 2 ^ 31" and "length c + length t + SDS_MAX_PREALLOC < 2 ^ 31"
  shows "sdscatlen M (sds_of c z) t = Inr None \<and> (\<exists>k. \<not> mem_ok M k) \<or>
    (\<exists>z'. sdscatlen M (sds_of c z) t = Inr (Some (sds_of (c @ t) z')) \<and>
          length (c @ t) + length z' < 2 ^ 31)"
  using sdsMakeRoomFor_of [OF assms, of M]
proof (elim disjE exE conjE)
  fix z' assume z': "sdsMakeRoomFor M (sds_of c z) (length t) = Some (sds_of c z')"
    "length t \<le> length z'" "length c + length z' < 2 ^ 31"
  have cat: "sdscatlen M (sds_of c z) t = Inr (Some (sds_of (c @ t) (drop (length t) z')))"
    using z' assms
    by (simp add: sdscatlen_def Let_def int32_id store_terminated del: memcpy_ok)
  then show ?thesis using z' by auto
qed (auto simp: sdscatlen_def Let_def)

lemma sdsnewlen_of:
  assumes "n \<le> length t" "n < 2 ^ 31"
  shows "sdsnewlen M (Some t) n =
    Inr (if mem_ok M (n + 9) then Some (sds_of (take n t) []) else None)"
  using assms by (auto simp: sdsnewlen_def sds_of_def Let_def int32_id add.commute)

lemma sdsnewlen_zero:
  assumes "n < 2 ^ 31"
  shows "sdsnewlen M None n =
    Inr (if mem_ok M (n + 9) then Some (sds_of (replicate n NUL) []) else None)"
  using assms
  by (simp add: sdsnewlen_def sds_of_def Let_def int32_id add.commute
      flip: replicate_Suc)

lemma sdscpylen_of:
  assumes "length c + length z < 2 ^ 31" and "length t + SDS_MAX_PREALLOC < 2 ^ 31"
  shows "sdscpylen M (sds_of c z) t = Inr None \<and> (\<exists>k. \<not> mem_ok M k) \<or>
    (\<exists>z'. sdscpylen M (sds_of c z) t = Inr (Some (sds_of t z')) \<and> length t + length z' < 2 ^ 31)"
proof -
  have tot: "size64 (int (length u) + int (length c)) = length u + length c"
    if "length c + length u < 2 ^ 31" for u :: bytes
    using that by (simp add: size64_id nat_add_distrib)
  have copy: "bind_c (memcpy (c @ NUL # u) 0 t) (\<lambda>b. bind_c (memcpy b (length t) [NUL])
        (\<lambda>b'. Inr (Some ((sds_of c u)\<lparr>sh_buf := b', sh_len := int32 (int (length t)),
           sh_free := int32 (int (length u + length c) - int (length t))\<rparr>)))) =
      Inr (Some (sds_of t (drop (Suc (length t)) (c @ NUL # u))))"
    if "length t \<le> length c + length u" "length c + length u < 2 ^ 31" for u
  proof -
    have "0 + length t < length (c @ NUL # u)" using that by simp
    note st = store_terminated [OF this, unfolded add_0 take_0 append_Nil]
    show ?thesis unfolding st sum.inject option.inject
      by (rule sds_eq_of) (use that in \<open>auto simp: int32_id simp flip: of_nat_diff\<close>)
  qed
  show ?thesis
  proof (cases "length t \<le> length c + length z")
    case True
    then show ?thesis using copy [of z] tot [of z] assms
      by (simp add: sdscpylen_def Let_def del: memcpy_ok) auto
  next
    case False
    then have n: "size64 (int (length t) - int (length c)) = length t - length c"
      using assms by (simp add: size64_id nat_diff_distrib')
    have "length c + (length t - length c) + SDS_MAX_PREALLOC < 2 ^ 31" using assms False by simp
    from sdsMakeRoomFor_of [OF assms(1) this, of M] show ?thesis
    proof (elim disjE exE conjE)
      fix u assume "sdsMakeRoomFor M (sds_of c z) (length t - length c) = Some (sds_of c u)"
        "length t - length c \<le> length u" "length c + length u < 2 ^ 31"
      then show ?thesis using False copy [of u] tot [of u] tot [of z] n assms
        by (simp add: sdscpylen_def Let_def del: memcpy_ok) auto
    qed (use False tot [of z] n assms in \<open>auto simp: sdscpylen_def Let_def\<close>)
  qed
qed

lemma sdsclear_of:
  assumes "length c + length z < 2 ^ 31"
  shows "\<exists>z'. sdsclear (sds_of c z) = Inr (sds_of [] z') \<and> length z' = length c + length z"
  using assms
  apply (cases c) apply (simp_all add: sdsclear_def sds_of_def int32_id)
  done

lemma sdsRemoveFreeSpace_of:
  assumes "length c + length z < 2 ^ 31" "mem_ok M (length c + 9)"
  shows "sdsRemoveFreeSpace M (sds_of c z) = Inr (sds_of c [])"
  using assms by (simp add: sdsRemoveFreeSpace_def sds_of_def realloc_buf_def size64_id
    nat_add_distrib add.commute)

lemma sdsIncrLen_of:
  assumes "length c + length z < 2 ^ 31" "n \<le> length z"
  shows "sdsIncrLen (sds_of c z) (int n) = Inr (sds_of (c @ take n (NUL # z)) (drop n z))"
  using assms
  by (simp add: sdsIncrLen_def sds_of_def Let_def int32_id nat_add_distrib Suc_diff_le)

lemma sdsgrowzero_of:
  assumes "length c + length z < 2 ^ 31" and "n + SDS_MAX_PREALLOC < 2 ^ 31"
  shows "sdsgrowzero M (sds_of c z) n = Inr None \<and> (\<exists>k. \<not> mem_ok M k) \<or>
    (\<exists>z'. sdsgrowzero M (sds_of c z) n = Inr (Some (sds_of (c @ replicate (n - length c) NUL) z')) \<and>
          length (c @ replicate (n - length c) NUL) + length z' < 2 ^ 31)"
proof (cases "n \<le> length c")
  case True
  then show ?thesis using assms by (auto simp: sdsgrowzero_def Let_def)
next
  case False
  have "length c + (n - length c) + SDS_MAX_PREALLOC < 2 ^ 31" using assms False by simp
  from sdsMakeRoomFor_of [OF assms(1) this, of M] show ?thesis
  proof (elim disjE exE conjE)
    fix z' assume z': "sdsMakeRoomFor M (sds_of c z) (n - length c) = Some (sds_of c z')"
      "n - length c \<le> length z'" "length c + length z' < 2 ^ 31"
    have "sdsgrowzero M (sds_of c z) n =
        Inr (Some (sds_of (c @ replicate (n - length c) NUL) (drop (n - length c) z')))"
      using z' assms False
      by (simp add: sdsgrowzero_def Let_def int32_id) (simp add: sds_of_def replicate_app_Cons_same Suc_diff_le)
    then show ?thesis using z' by auto
  qed (use False assms in \<open>auto simp: sdsgrowzero_def Let_def\<close>)
qed

section \<open>Trimming\<close>

declare trim_fwd.simps [simp del]

definition trim_spec :: "bytes \<Rightarrow> bytes \<Rightarrow> bytes" where
  "trim_spec cset c = rev (dropWhile (in_cset cset) (rev (dropWhile (in_cset cset) c)))"

lemma trim_fwd_dropWhile:
  assumes "n \<le> length b" "sp \<le> n"
  shows "trim_fwd cset b n sp = n - length (dropWhile (in_cset cset) (drop sp (take n b)))"
  using assms
proof (induction "n - sp" arbitrary: sp)
  case (Suc k)
  then have sp: "sp < n" "drop sp (take n b) = b ! sp # drop (Suc sp) (take n b)"
    by (auto simp: Cons_nth_drop_Suc [symmetric])
  show ?case
    using Suc sp by (subst trim_fwd.simps) auto
qed (simp add: trim_fwd.simps)

lemma trim_bwd_dropWhile:
  assumes "n \<le> length b" "n \<noteq> 0" 
  shows "trim_bwd cset b n = max 1 (length (dropWhile (in_cset cset) (rev (take n b))))"
  using assms
proof (induction n)
  case (Suc k)
  have len: "length (dropWhile (in_cset cset) (rev (take (Suc 0) b))) \<le> Suc 0"
    by (rule order_trans [OF length_dropWhile_le]) simp
  from Suc show ?case
    using len by (cases k) (auto simp: take_Suc_conv_app_nth)
qed simp

lemma trim_spec_cases:
  obtains (all) "list_all (in_cset cset) c" "trim_spec cset c = []"
  | (some) a m b where "c = a @ m @ b" "list_all (in_cset cset) a" "list_all (in_cset cset) b"
      "m \<noteq> []" "\<not> in_cset cset (hd m)" "\<not> in_cset cset (last m)" "trim_spec cset c = m"
proof (cases "list_all (in_cset cset) c")
  case True
  then have "dropWhile (in_cset cset) c = []" by (simp add: list_all_iff)
  with True show thesis by (intro all) (simp_all only: trim_spec_def rev.simps dropWhile.simps)
next
  case False
  let ?P = "in_cset cset"
  let ?d = "dropWhile ?P c"
  let ?m = "rev (dropWhile ?P (rev ?d))" and ?b = "rev (takeWhile ?P (rev ?d))"
  have d: "?d \<noteq> []" using False by (auto simp: list_all_iff)
  then have hd: "\<not> ?P (hd ?d)" by (rule hd_dropWhile)
  have dm: "?d = ?m @ ?b"
    by (metis rev_append rev_rev_ident takeWhile_dropWhile_id)
  have ex: "\<exists>x\<in>set (rev ?d). \<not> ?P x" using d hd by (metis hd_in_set set_rev)
  then have m: "?m \<noteq> []" by (simp add: dropWhile_eq_Nil_conv)
  show thesis
  proof (rule some [of "takeWhile ?P c" ?m ?b])
    show "c = takeWhile ?P c @ ?m @ ?b" using dm by (metis takeWhile_dropWhile_id)
    show "list_all ?P (takeWhile ?P c)" "list_all ?P ?b"
      by (auto simp: list_all_iff dest: set_takeWhileD)
    show "\<not> ?P (hd ?m)" using hd dm m by (metis hd_append2)
    show "\<not> ?P (last ?m)" using m hd_dropWhile [of ?P "rev ?d"] by (simp add: last_rev)
  qed (use m in \<open>simp_all add: trim_spec_def\<close>)
qed

lemma dropWhile_middle:
  assumes "list_all P a" "m \<noteq> []" "\<not> P (hd m)"
  shows "dropWhile P (a @ m @ b) = m @ b"
proof -
  have "dropWhile P (a @ (m @ b)) = dropWhile P (m @ b)"
    using assms by (intro dropWhile_append2) (auto simp: list_all_iff)
  with assms show ?thesis by (cases m) auto
qed

lemma trim_bounds:
  fixes cset c rest
  defines "sp \<equiv> trim_fwd cset (c @ rest) (length c) 0"
    and "ep \<equiv> trim_bwd cset (c @ rest) (length c)"
  shows "take (length (trim_spec cset c)) (drop sp (c @ rest)) = trim_spec cset c \<and>
    (if ep \<le> sp then 0 else ep - sp) = length (trim_spec cset c)"
proof (cases cset c rule: trim_spec_cases)
  case all
  then have "dropWhile (in_cset cset) c = []" "dropWhile (in_cset cset) (rev c) = []"
    by (simp_all add: list_all_iff)
  then have "sp = length c" "c \<noteq> [] \<Longrightarrow> ep = 1"
    by (simp_all add: sp_def ep_def trim_fwd_dropWhile trim_bwd_dropWhile
        del: dropWhile_eq_Nil_conv)
  with all show ?thesis by (cases c) (auto simp: ep_def)
next
  case (some a m b)
  have "dropWhile (in_cset cset) c = m @ b"
    using some by (simp add: dropWhile_middle)
  moreover have "dropWhile (in_cset cset) (rev c) = rev m @ rev a"
    using some dropWhile_middle [of "in_cset cset" "rev b" "rev m" "rev a"] by (simp add: hd_rev)
  moreover have "1 \<le> length m" using some by (simp add: Suc_le_eq)
  ultimately have "sp = length a" "ep = length a + length m"
    using some by (simp_all add: sp_def ep_def trim_fwd_dropWhile trim_bwd_dropWhile max_def)
  with some show ?thesis by simp
qed

lemma length_trim_spec: "length (trim_spec cset c) \<le> length c"
  unfolding trim_spec_def
  by (metis (no_types) length_dropWhile_le length_rev order_trans)

lemma sdstrim_of:
  assumes "length c + length z < 2 ^ 31"
  shows "\<exists>z'. sdstrim (sds_of c z) cset = Inr (sds_of (trim_spec cset c) z') \<and>
    length (trim_spec cset c) + length z' = length c + length z"
proof -
  let ?t = "trim_spec cset c" and ?b = "c @ NUL # z"
  let ?z = "drop (Suc (length ?t)) ?b"
  have len: "0 + length ?t < length ?b" using length_trim_spec [of cset c] by simp
  note st = store_terminated [OF len, unfolded add_0 take_0 append_Nil]
  have "sdstrim (sds_of c z) cset =
     Inr ((sds_of c z)\<lparr>sh_buf := ?t @ NUL # ?z,
       sh_free := int32 (int (length z) + (int (length c) - int (length ?t))),
       sh_len := int32 (int (length ?t))\<rparr>)"
    using assms trim_bounds [of cset c "NUL # z"]
    by (simp add: sdstrim_def Let_def st del: memcpy_ok drop_append take_append)
  also have "\<dots> = Inr (sds_of ?t ?z)"
    unfolding sum.inject using assms length_trim_spec [of cset c]
    by (intro sds_eq_of) (auto simp: int32_id simp flip: of_nat_diff)
  finally show ?thesis using length_trim_spec [of cset c] by auto
qed

section \<open>Ranges\<close>

definition range_spec :: "int \<Rightarrow> int \<Rightarrow> bytes \<Rightarrow> bytes" where
  "range_spec start end c =
     (let clip = (\<lambda>i. if i < 0 then max 0 (int (length c) + i) else i)
      in take (nat (clip end + 1 - clip start)) (drop (nat (clip start)) c))"

lemma length_range_spec: "length (range_spec start end c) \<le> length c"
  by (simp add: range_spec_def Let_def)

lemma range_newlen:
  assumes "0 \<le> d" "d < 2 ^ 31"
  shows "size64 (int32 (int32 d + 1)) \<noteq> 0"
    and "d < 2 ^ 31 - 1 \<Longrightarrow> size64 (int32 (int32 d + 1)) = nat (d + 1)"
proof -
  show small: "size64 (int32 (int32 d + 1)) = nat (d + 1)" if "d < 2 ^ 31 - 1"
    using that assms by (simp add: int32_id size64_id)
  show "size64 (int32 (int32 d + 1)) \<noteq> 0"
  proof (cases "d < 2 ^ 31 - 1")
    case False
    then have "d = 2147483647" using assms by simp
    then show ?thesis by (simp add: int32_def size64_def signed_take_bit_eq_take_bit_shift take_bit_int_def)
  qed (use small assms in simp)
qed

lemma sdsrange_bounds_spec:
  assumes "c \<noteq> []" "length c < 2 ^ 31" "- (2 ^ 31) \<le> start" "start < 2 ^ 31"
    "- (2 ^ 31) \<le> end" "end < 2 ^ 31"
  shows "\<exists>lo. sdsrange_bounds (length c) start end = (int lo, length (range_spec start end c)) \<and>
     take (length (range_spec start end c)) (drop lo c) = range_spec start end c \<and>
     (range_spec start end c \<noteq> [] \<longrightarrow> lo + length (range_spec start end c) \<le> length c)"
proof -
  define lo where "lo = (if start < 0 then max 0 (int (length c) + start) else start)"
  define hi where "hi = (if end < 0 then max 0 (int (length c) + end) else end)"
  have lohi: "0 \<le> lo" "lo < 2 ^ 31" "0 \<le> hi" "hi < 2 ^ 31"
    using assms by (auto simp: lo_def hi_def)
  have conv: "(if start < 0 then if int32 (int (length c) + start) < 0 then 0
      else int32 (int (length c) + start) else start) = lo"
    "(if end < 0 then if int32 (int (length c) + end) < 0 then 0
      else int32 (int (length c) + end) else end) = hi"
    using assms by (auto simp: lo_def hi_def int32_id Let_def)
  have n: "0 < length c" using assms by simp
  have spec: "range_spec start end c = take (nat (hi + 1 - lo)) (drop (nat lo) c)"
    by (simp add: range_spec_def lo_def hi_def Let_def)
  have len: "int32 (int (length c)) = int (length c)"
    "int32 (int (length c) - 1) = int (length c) - 1"
    using assms n by (simp_all add: int32_id)
  note b = sdsrange_bounds_def [of "length c" start "end", unfolded Let_def conv len]
  consider "hi < lo" | "lo \<le> hi" "int (length c) \<le> lo" | "lo \<le> hi" "lo < int (length c)" "int (length c) \<le> hi"
    | "lo \<le> hi" "hi < int (length c)" by linarith
  then show ?thesis
  proof cases
    case 1
    then show ?thesis by (intro exI [of _ 0]) (simp add: b spec)
  next
    case 2
    then show ?thesis using range_newlen (1) [of "hi - lo"] lohi
      by (intro exI [of _ "nat lo"]) (simp add: b spec)
  next
    case 3
    then show ?thesis
      using range_newlen [of "hi - lo"] range_newlen (2) [of "int (length c) - 1 - lo"] lohi assms(2)
      by (intro exI [of _ "nat lo"]) (simp add: b spec min_def nat_diff_distrib nat_le_iff, linarith?)
  next
    case 4
    then show ?thesis
      using range_newlen [of "hi - lo"] lohi assms(2)
      by (intro exI [of _ "nat lo"]) (simp add: b spec min_def nat_diff_distrib nat_le_iff, linarith?)
  qed
qed

lemma sdsrange_of:
  assumes "length c + length z < 2 ^ 31" "- (2 ^ 31) \<le> start" "start < 2 ^ 31"
    "- (2 ^ 31) \<le> end" "end < 2 ^ 31"
  shows "\<exists>z'. sdsrange (sds_of c z) start end = Inr (sds_of (range_spec start end c) z') \<and>
    length (range_spec start end c) + length z' = length c + length z"
proof (cases "c = []")
  case False
  let ?t = "range_spec start end c" and ?b = "c @ NUL # z"
  let ?z = "drop (Suc (length ?t)) ?b"
  have len: "length c < 2 ^ 31" using assms by simp
  obtain lo where lo: "sdsrange_bounds (length c) start end = (int lo, length ?t)"
    "take (length ?t) (drop lo c) = ?t" "?t \<noteq> [] \<Longrightarrow> lo + length ?t \<le> length c"
    using sdsrange_bounds_spec [OF False len assms (2-5)] by blast
  have lt: "0 + length ?t < length ?b" using length_range_spec [of start "end" c] by simp
  note st = store_terminated [OF lt, unfolded add_0 take_0 append_Nil]
  have eq: "bind_c (if int lo \<noteq> 0 \<and> length ?t \<noteq> 0 then
           if nat (int lo) + length ?t \<le> length ?b
           then memcpy ?b 0 (take (length ?t) (drop (nat (int lo)) ?b)) else Inl OutOfBounds
         else Inr ?b) (\<lambda>b. bind_c (memcpy b (length ?t) [NUL]) f) = f (?t @ NUL # ?z)" for f :: "_ \<Rightarrow> sdshdr c_res"
  proof (cases "lo \<noteq> 0 \<and> ?t \<noteq> []")
    case True
    then have "take (length ?t) (drop lo ?b) = ?t" using lo by simp
    with True lo st [of f] show ?thesis by (simp del: memcpy_ok drop_append take_append)
  next
    case False
    then have "take (length ?t) ?b = ?t" using lo(2) length_range_spec [of start "end" c] by auto
    with False lt show ?thesis by (auto simp del: take_append drop_append)
  qed
  have "sdsrange (sds_of c z) start end =
     Inr ((sds_of c z)\<lparr>sh_buf := ?t @ NUL # ?z,
       sh_free := int32 (int (length z) + (int (length c) - int (length ?t))),
       sh_len := int32 (int (length ?t))\<rparr>)"
    using False len lo(1) unfolding sdsrange_def sds_of_sel Let_def
    by (subst eq [symmetric]) simp
  also have "\<dots> = Inr (sds_of ?t ?z)"
    unfolding sum.inject using assms length_range_spec [of start "end" c]
    by (intro sds_eq_of) (auto simp: int32_id simp flip: of_nat_diff)
  finally show ?thesis using length_range_spec [of start "end" c] by auto
qed (use assms in \<open>auto simp: sdsrange_def range_spec_def Let_def\<close>)

section \<open>Comparison and mapping\<close>

abbreviation char_less :: "(char \<times> char) set" where
  "char_less \<equiv> {(a, b). char_code a < char_code b}"

lemma memcmp_eq_0: "length a = length b \<Longrightarrow> memcmp a b = 0 \<longleftrightarrow> a = b"
  by (induction a b rule: memcmp.induct) (auto dest: char_code_inj)

lemma memcmp_less:
  "length a = length b \<Longrightarrow> memcmp a b < 0 \<longleftrightarrow> (a, b) \<in> lexord char_less"
  by (induction a b rule: memcmp.induct) (auto dest: char_code_inj)

lemma lexord_char_less_prefix:
  assumes "length a = length b"
  shows "(a @ c, b @ d) \<in> lexord char_less \<longleftrightarrow>
    (a, b) \<in> lexord char_less \<or> a = b \<and> (c, d) \<in> lexord char_less"
  using assms by (induction a b rule: list_induct2) auto

lemma lexord_char_less_length:
  assumes "c = [] \<or> d = []"
  shows "(c, d) \<in> lexord char_less \<longleftrightarrow> length c < length d"
  using assms by (cases c; cases d) auto

lemma sdscmp_of:
  assumes "length a + length y < 2 ^ 31" "length b + length z < 2 ^ 31"
  shows "sdscmp (sds_of a y) (sds_of b z) = 0 \<longleftrightarrow> a = b"
    and "sdscmp (sds_of a y) (sds_of b z) < 0 \<longleftrightarrow> (a, b) \<in> lexord char_less"
proof -
  let ?n = "min (length a) (length b)"
  let ?m = "memcmp (take ?n a) (take ?n b)"
  have c: "sdscmp (sds_of a y) (sds_of b z) = (if ?m = 0 then int (length a) - int (length b) else ?m)"
    using assms by (simp add: sdscmp_def Let_def int32_id)
  have len: "length (take ?n a) = length (take ?n b)" by simp
  note m = memcmp_eq_0 [OF len] memcmp_less [OF len]
  show "sdscmp (sds_of a y) (sds_of b z) = 0 \<longleftrightarrow> a = b"
    using m (1) unfolding c by (auto simp: min_def split: if_splits)
  have "(a, b) \<in> lexord char_less \<longleftrightarrow> (take ?n a, take ?n b) \<in> lexord char_less \<or>
      take ?n a = take ?n b \<and> (drop ?n a, drop ?n b) \<in> lexord char_less"
    using lexord_char_less_prefix [OF len, of "drop ?n a" "drop ?n b"] by simp
  also have "(drop ?n a, drop ?n b) \<in> lexord char_less \<longleftrightarrow> length a < length b"
    by (subst lexord_char_less_length) (auto simp: min_def)
  finally show "sdscmp (sds_of a y) (sds_of b z) < 0 \<longleftrightarrow> (a, b) \<in> lexord char_less"
    using m unfolding c by auto
qed

lemma sds_map_of:
  assumes "length c + length z < 2 ^ 31"
  shows "sds_map f (sds_of c z) = Inr (sds_of (map f c) z)"
  using assms by (simp add: sds_map_def Let_def int32_id sds_of_def sdslen_def size64_id)

lemma sdsmapchars_of:
  assumes "length c + length z < 2 ^ 31" "n \<le> length from" "n \<le> length to"
  shows "sdsmapchars (sds_of c z) from to n =
    Inr (sds_of (map (mapchar_of (take n from) (take n to)) c) z)"
  using assms by (simp add: sdsmapchars_def sds_of_def sdslen_def size64_id)

section \<open>The interface of an appendable string\<close>

text \<open>
  What the clients of \<^verbatim>\<open>sdscatlen\<close> rely on: an invariant, a view of the content, and a
  capacity below which an append either adds exactly the given bytes or returns NULL because
  the allocator refused. \<open>cat_pieces\<close> is the common client: a chain of appends in which a
  NULL from one call is dereferenced by the next.
\<close>

fun cat_pieces :: "('s \<Rightarrow> bytes \<Rightarrow> 's option c_res) \<Rightarrow> 's option \<Rightarrow> bytes list \<Rightarrow> 's option c_res"
  where
  "cat_pieces cat so [] = Inr so"
| "cat_pieces cat None (t # ts) = Inl NullDeref"
| "cat_pieces cat (Some s) (t # ts) = bind_c (cat s t) (\<lambda>so. cat_pieces cat so ts)"

locale append_buffer =
  fixes inv :: "'s \<Rightarrow> bool" and view :: "'s \<Rightarrow> bytes"
    and cat :: "'s \<Rightarrow> bytes \<Rightarrow> 's option c_res" and cap :: nat and grants :: bool
  assumes cat_law: "inv s \<Longrightarrow> length (view s) + length t < cap \<Longrightarrow>
      cat s t = Inr None \<and> \<not> grants \<or>
      (\<exists>s'. cat s t = Inr (Some s') \<and> inv s' \<and> view s' = view s @ t)"
begin

lemma cat_cases:
  assumes "inv s" "length (view s) + length t < cap"
  obtains (null) "cat s t = Inr None" "\<not> grants"
  | (ok) s' where "cat s t = Inr (Some s')" "inv s'" "view s' = view s @ t"
  using cat_law [OF assms] by blast

lemma cat_pieces_None: "cat_pieces cat None ts \<in> {Inl NullDeref, Inr None}"
  by (cases ts) auto

lemma cat_pieces_result:
  assumes "inv s" "length (view s) + length (concat ts) < cap"
  shows "cat_pieces cat (Some s) ts \<in> {Inl NullDeref, Inr None} \<and> \<not> grants \<or>
    (\<exists>s'. cat_pieces cat (Some s) ts = Inr (Some s') \<and> inv s' \<and> view s' = view s @ concat ts)"
  using assms
proof (induction ts arbitrary: s)
  case (Cons t ts)
  then have "length (view s) + length t < cap" by simp
  with Cons.prems(1) show ?case
  proof (cases rule: cat_cases)
    case null
    then show ?thesis using cat_pieces_None [of ts] by simp
  next
    case (ok s')
    then show ?thesis using Cons.IH [of s'] Cons.prems by simp
  qed
qed simp

corollary cat_pieces_grants:
  assumes "inv s" "length (view s) + length (concat ts) < cap" grants
  shows "\<exists>s'. cat_pieces cat (Some s) ts = Inr (Some s') \<and> inv s' \<and> view s' = view s @ concat ts"
  using cat_pieces_result [OF assms (1,2)] assms (3) by blast

end

abbreviation sds_cap :: nat where "sds_cap \<equiv> 2 ^ 31 - SDS_MAX_PREALLOC"

interpretation sdsbuf: append_buffer sds_ok content "sdscatlen M" sds_cap "\<forall>n. mem_ok M n" for M
proof
  fix s :: sdshdr and t :: bytes
  assume ok: "sds_ok s" and cap: "length (content s) + length t < sds_cap"
  from ok obtain c z where s: "s = sds_of c z" "length c + length z < 2 ^ 31"
    by (rule sds_ok_cases)
  have "length c + length t + SDS_MAX_PREALLOC < 2 ^ 31" using cap s by simp
  from sdscatlen_of [OF s (2) this, of M]
  show "sdscatlen M s t = Inr None \<and> \<not> (\<forall>n. mem_ok M n) \<or>
      (\<exists>s'. sdscatlen M s t = Inr (Some s') \<and> sds_ok s' \<and> content s' = content s @ t)"
    unfolding s by (elim disjE exE conjE) auto
qed

section \<open>Properties\<close>

text \<open>
  C28: \<^verbatim>\<open>sdscatlen\<close> on a well-formed string never writes outside the allocation; it returns NULL
  only when the allocator refuses, and otherwise a well-formed string whose content is the old
  content followed by the given bytes.
\<close>

theorem sdscatlen_correct:
  assumes "sds_ok s" and "length (content s) + length t < sds_cap"
  shows "sdscatlen M s t = Inr None \<and> (\<exists>n. \<not> mem_ok M n) \<or>
    (\<exists>s'. sdscatlen M s t = Inr (Some s') \<and> sds_ok s' \<and> content s' = content s @ t)"
  using sdsbuf.cat_law [OF assms] by blast

theorem sdscatlen_correct_witness:
  "sdscatlen \<lparr>mem_ok = (\<lambda>_. True), mem_junk = (\<lambda>_. CHR ''?'')\<rparr> (sds_of ''foo'' []) ''bar'' \<noteq> Inr None \<and>
   (\<exists>s'. sdscatlen \<lparr>mem_ok = (\<lambda>_. True), mem_junk = (\<lambda>_. CHR ''?'')\<rparr> (sds_of ''foo'' []) ''bar''
          = Inr (Some s') \<and> content s' = ''foobar'')"
  using sdscatlen_correct [of "sds_of ''foo'' []" "''bar''" "\<lparr>mem_ok = (\<lambda>_. True), mem_junk = (\<lambda>_. CHR ''?'')\<rparr>"]
  by auto



text \<open>
  \<^verbatim>\<open>sdscmp\<close> is the lexicographic order of unsigned bytes on the contents: it is 0 exactly
  for equal contents and negative exactly when the first comes first, whatever the free space.
\<close>

theorem sdscmp_lexicographic:
  assumes "sds_ok s1" "sds_ok s2"
  shows "(sdscmp s1 s2 = 0 \<longleftrightarrow> content s1 = content s2) \<and>
    (sdscmp s1 s2 < 0 \<longleftrightarrow> (content s1, content s2) \<in> lexord char_less)"
  using assms sdscmp_of by (elim sds_ok_cases) simp

theorem sdscmp_lexicographic_witness:
  "sdscmp (sds_of ''foo'' ''??'') (sds_of ''foo'' []) = 0 \<and> sdscmp (sds_of ''aar'' []) (sds_of ''bar'' ''?'') < 0"
  using sdscmp_lexicographic [of "sds_of ''foo'' ''??''" "sds_of ''foo'' []"]
    sdscmp_lexicographic [of "sds_of ''aar'' []" "sds_of ''bar'' ''?''"]
  by (simp add: char_code_def)

text \<open>
  \<^verbatim>\<open>sdscpylen\<close> and \<^verbatim>\<open>sdsgrowzero\<close> never write outside the allocation; unless the allocator
  refuses, the first replaces the content by the given bytes and the second pads it with zero
  bytes up to the requested length, and the result is well formed.
\<close>

theorem sds_resize_correct:
  assumes "sds_ok s" "length t < sds_cap" "n < sds_cap"
  shows "(sdscpylen M s t = Inr None \<and> (\<exists>k. \<not> mem_ok M k) \<or>
      (\<exists>s'. sdscpylen M s t = Inr (Some s') \<and> sds_ok s' \<and> content s' = t)) \<and>
    (sdsgrowzero M s n = Inr None \<and> (\<exists>k. \<not> mem_ok M k) \<or>
      (\<exists>s'. sdsgrowzero M s n = Inr (Some s') \<and> sds_ok s' \<and>
        content s' = content s @ replicate (n - length (content s)) NUL))"
proof -
  obtain c z where s: "s = sds_of c z" "length c + length z < 2 ^ 31"
    using assms (1) by (rule sds_ok_cases)
  have "length t + SDS_MAX_PREALLOC < 2 ^ 31" "n + SDS_MAX_PREALLOC < 2 ^ 31"
    using assms by simp_all
  with sdscpylen_of [OF s (2), of t M] sdsgrowzero_of [OF s (2), of n M] show ?thesis
    unfolding s (1) sds_of_sel by (metis sds_ok_of sds_of_sel (4))
qed

theorem sds_resize_correct_witness:
  "\<exists>s1 s2. sdscpylen \<lparr>mem_ok = (\<lambda>_. True), mem_junk = (\<lambda>_. NUL)\<rparr> (sds_of ''foo'' []) ''longer'' = Inr (Some s1) \<and>
     content s1 = ''longer'' \<and>
     sdsgrowzero \<lparr>mem_ok = (\<lambda>_. True), mem_junk = (\<lambda>_. NUL)\<rparr> (sds_of ''foo'' []) 4 = Inr (Some s2) \<and>
     content s2 = ''foo'' @ [NUL]"
  using sds_resize_correct [of "sds_of ''foo'' []" "''longer''" 4
      "\<lparr>mem_ok = (\<lambda>_. True), mem_junk = (\<lambda>_. NUL)\<rparr>"]
  by auto
end
