(* ===== verification/Reply.thy ===== *)
theory Reply
  imports Sds
begin

text \<open>
  The reply objects of \<^verbatim>\<open>src/hiredis.c\<close>: \<^verbatim>\<open>redisReply\<close> cells on a heap, the default
  object functions \<^verbatim>\<open>createStringObject\<close>, \<^verbatim>\<open>createArrayObject\<close>, \<^verbatim>\<open>createIntegerObject\<close>,
  \<^verbatim>\<open>createNilObject\<close>, which the reader calls once per item and which store the new object in the
  array of the parent task, and \<^verbatim>\<open>freeReplyObject\<close>. A pointer is the 1-based index of a cell, 0 is
  \<^verbatim>\<open>NULL\<close>; a released cell is \<open>None\<close> and is never given out again, so that a use after free
  or a double free is a fault.

  \<open>reply\<close> is the tree a user sees, with \<open>Absent\<close> for an element that is still \<^verbatim>\<open>NULL\<close>, and
  \<open>layout\<close> the cells that hold a tree. The locale \<open>reply_builder\<close> is what the reader relies on; it is
  interpreted on the default functions.
\<close>

section \<open>Cells, tasks and object functions\<close>

type_synonym ptr = nat

abbreviation (input) REDIS_REPLY_STRING :: int where "REDIS_REPLY_STRING \<equiv> 1"
abbreviation (input) REDIS_REPLY_ARRAY :: int where "REDIS_REPLY_ARRAY \<equiv> 2"
abbreviation (input) REDIS_REPLY_INTEGER :: int where "REDIS_REPLY_INTEGER \<equiv> 3"
abbreviation (input) REDIS_REPLY_NIL :: int where "REDIS_REPLY_NIL \<equiv> 4"
abbreviation (input) REDIS_REPLY_STATUS :: int where "REDIS_REPLY_STATUS \<equiv> 5"
abbreviation (input) REDIS_REPLY_ERROR :: int where "REDIS_REPLY_ERROR \<equiv> 6"

abbreviation sizeof_redisReply :: nat where "sizeof_redisReply \<equiv> 48"

record redisReply =
  rr_type :: int
  rr_integer :: int
  rr_len :: int
  rr_str :: "bytes option"
  rr_elements :: nat
  rr_element :: "ptr list option"

text \<open>\<^verbatim>\<open>parent\<close> points into the task stack of the reader: it is an index.\<close>

record redisReadTask =
  rt_type :: int
  rt_elements :: int
  rt_idx :: int
  rt_obj :: ptr
  rt_parent :: "nat option"
  rt_privdata :: ptr

text \<open>
  The table of callbacks. A callback that gets a task may follow its parent pointer, so it gets the
  stack and the index of the task; \<open>'h\<close> is the state it works on. A string argument is the memory
  from the pointer on.
\<close>

record 'h redisReplyObjectFunctions =
  fn_createString :: "(redisReadTask list \<Rightarrow> nat \<Rightarrow> bytes \<Rightarrow> nat \<Rightarrow> 'h \<Rightarrow> (ptr \<times> 'h) c_res) option"
  fn_createArray :: "(redisReadTask list \<Rightarrow> nat \<Rightarrow> int \<Rightarrow> 'h \<Rightarrow> (ptr \<times> 'h) c_res) option"
  fn_createInteger :: "(redisReadTask list \<Rightarrow> nat \<Rightarrow> int \<Rightarrow> 'h \<Rightarrow> (ptr \<times> 'h) c_res) option"
  fn_createNil :: "(redisReadTask list \<Rightarrow> nat \<Rightarrow> 'h \<Rightarrow> (ptr \<times> 'h) c_res) option"
  fn_freeObject :: "(ptr \<Rightarrow> 'h \<Rightarrow> 'h c_res) option"

type_synonym rheap = "redisReply option list"

definition obj_at :: "rheap \<Rightarrow> ptr \<Rightarrow> redisReply c_res" where
  "obj_at h p =
     (if p = 0 then Inl NullDeref
      else if length h < p then Inl OutOfBounds
      else case h ! (p - 1) of None \<Rightarrow> Inl UseAfterFree | Some r \<Rightarrow> Inr r)"

definition obj_set :: "rheap \<Rightarrow> ptr \<Rightarrow> redisReply option \<Rightarrow> rheap" where
  "obj_set h p r = h[p - 1 := r]"

definition createReplyObject :: "mem \<Rightarrow> int \<Rightarrow> rheap \<Rightarrow> ptr \<times> rheap" where
  "createReplyObject M ty h =
     (if \<not> mem_ok M sizeof_redisReply then (0, h)
      else (length h + 1,
            h @ [Some \<lparr>rr_type = ty, rr_integer = 0, rr_len = 0, rr_str = None, rr_elements = 0,
                       rr_element = None\<rparr>]))"

text \<open>
  \<^verbatim>\<open>freeReplyObject\<close> recurses through the element arrays. The depth of a recursion that ends is at
  most the number of cells, so running out of \<open>fuel\<close> means that the code would not end either.
\<close>

fun free_obj :: "nat \<Rightarrow> ptr \<Rightarrow> rheap \<Rightarrow> rheap c_res"
  and free_elements :: "nat \<Rightarrow> ptr list \<Rightarrow> nat \<Rightarrow> rheap \<Rightarrow> rheap c_res" where
  "free_obj 0 p h = Inl Diverged"
| "free_obj (Suc fuel) p h =
     (if p = 0 then Inr h
      else
        bind_c (obj_at h p) (\<lambda>r.
          bind_c
            (if rr_type r = REDIS_REPLY_ARRAY then
               (case rr_element r of
                  None \<Rightarrow> Inr h
                | Some es \<Rightarrow> free_elements fuel es (rr_elements r) h)
             else Inr h)
            (\<lambda>h. Inr (obj_set h p None))))"
| "free_elements fuel es 0 h = Inr h"
| "free_elements fuel [] (Suc n) h = Inl OutOfBounds"
| "free_elements fuel (e # es) (Suc n) h =
     bind_c (if e \<noteq> 0 then free_obj fuel e h else Inr h) (free_elements fuel es n)"

definition freeReplyObject :: "ptr \<Rightarrow> rheap \<Rightarrow> rheap c_res" where
  "freeReplyObject p h = free_obj (length h + 1) p h"

text \<open>\<^verbatim>\<open>if (task->parent) ... parent->element[task->idx] = r\<close>\<close>

definition link_parent :: "redisReadTask list \<Rightarrow> nat \<Rightarrow> ptr \<Rightarrow> rheap \<Rightarrow> (ptr \<times> rheap) c_res" where
  "link_parent stack t r h =
     (case rt_parent (stack ! t) of
        None \<Rightarrow> Inr (r, h)
      | Some j \<Rightarrow>
          (let p = rt_obj (stack ! j); idx = rt_idx (stack ! t) in
           bind_c (obj_at h p) (\<lambda>parent.
             bind_c (assert_c (rr_type parent = REDIS_REPLY_ARRAY)) (\<lambda>_.
               case rr_element parent of
                 None \<Rightarrow> Inl NullDeref
               | Some es \<Rightarrow>
                   (if 0 \<le> idx \<and> idx < int (length es) then
                      Inr (r, obj_set h p (Some (parent\<lparr>rr_element := Some (es[nat idx := r])\<rparr>)))
                    else Inl OutOfBounds)))))"

definition createStringObject ::
    "mem \<Rightarrow> redisReadTask list \<Rightarrow> nat \<Rightarrow> bytes \<Rightarrow> nat \<Rightarrow> rheap \<Rightarrow> (ptr \<times> rheap) c_res" where
  "createStringObject M stack t str len h =
     (let ty = rt_type (stack ! t); (r, h) = createReplyObject M ty h in
      if r = 0 then Inr (0, h)
      else if \<not> mem_ok M (size64 (int len + 1)) then
        bind_c (freeReplyObject r h) (\<lambda>h. Inr (0, h))
      else
        bind_c (assert_c (ty = REDIS_REPLY_ERROR \<or> ty = REDIS_REPLY_STATUS \<or> ty = REDIS_REPLY_STRING)) (\<lambda>_.
          if length str < len then Inl OutOfBounds
          else
            bind_c (obj_at h r) (\<lambda>obj.
              link_parent stack t r
                (obj_set h r (Some (obj\<lparr>rr_str := Some (take len str @ [NUL]), rr_len := int32 (int len)\<rparr>))))))"

definition createArrayObject ::
    "mem \<Rightarrow> redisReadTask list \<Rightarrow> nat \<Rightarrow> int \<Rightarrow> rheap \<Rightarrow> (ptr \<times> rheap) c_res" where
  "createArrayObject M stack t elements h =
     (let (r, h) = createReplyObject M REDIS_REPLY_ARRAY h in
      if r = 0 then Inr (0, h)
      else if 0 < elements \<and> \<not> mem_ok M (nat elements * 8) then
        bind_c (freeReplyObject r h) (\<lambda>h. Inr (0, h))
      else
        bind_c (obj_at h r) (\<lambda>obj.
          link_parent stack t r
            (obj_set h r
              (Some (obj\<lparr>rr_element := (if 0 < elements then Some (replicate (nat elements) 0) else None),
                         rr_elements := size64 elements\<rparr>)))))"

definition createIntegerObject ::
    "mem \<Rightarrow> redisReadTask list \<Rightarrow> nat \<Rightarrow> int \<Rightarrow> rheap \<Rightarrow> (ptr \<times> rheap) c_res" where
  "createIntegerObject M stack t v h =
     (let (r, h) = createReplyObject M REDIS_REPLY_INTEGER h in
      if r = 0 then Inr (0, h)
      else
        bind_c (obj_at h r) (\<lambda>obj. link_parent stack t r (obj_set h r (Some (obj\<lparr>rr_integer := v\<rparr>)))))"

definition createNilObject :: "mem \<Rightarrow> redisReadTask list \<Rightarrow> nat \<Rightarrow> rheap \<Rightarrow> (ptr \<times> rheap) c_res" where
  "createNilObject M stack t h =
     (let (r, h) = createReplyObject M REDIS_REPLY_NIL h in
      if r = 0 then Inr (0, h) else link_parent stack t r h)"

definition defaultFunctions :: "mem \<Rightarrow> rheap redisReplyObjectFunctions" where
  "defaultFunctions M =
     \<lparr>fn_createString = Some (createStringObject M), fn_createArray = Some (createArrayObject M),
      fn_createInteger = Some (createIntegerObject M), fn_createNil = Some (createNilObject M),
      fn_freeObject = Some freeReplyObject\<rparr>"

section \<open>Reply trees and the cells that hold them\<close>

datatype reply = RStr bytes | RStatus bytes | RErr bytes | RInt int | RNil | RArr "reply list" | Absent

fun nodes :: "reply \<Rightarrow> nat" where
  "nodes (RArr ts) = Suc (sum_list (map nodes ts))"
| "nodes Absent = 0"
| "nodes _ = 1"

definition root :: "nat \<Rightarrow> reply \<Rightarrow> ptr" where
  "root a t = (if t = Absent then 0 else a)"

fun roots :: "nat \<Rightarrow> reply list \<Rightarrow> ptr list" where
  "roots a [] = []"
| "roots a (t # ts) = root a t # roots (a + nodes t) ts"

definition str_cell :: "int \<Rightarrow> bytes \<Rightarrow> redisReply" where
  "str_cell ty s = \<lparr>rr_type = ty, rr_integer = 0, rr_len = int32 (int (length s)),
     rr_str = Some (s @ [NUL]), rr_elements = 0, rr_element = None\<rparr>"

definition arr_cell :: "ptr list \<Rightarrow> redisReply" where
  "arr_cell es = \<lparr>rr_type = REDIS_REPLY_ARRAY, rr_integer = 0, rr_len = 0, rr_str = None,
     rr_elements = length es, rr_element = (if es = [] then None else Some es)\<rparr>"

fun layout :: "nat \<Rightarrow> reply \<Rightarrow> redisReply list"
  and layouts :: "nat \<Rightarrow> reply list \<Rightarrow> redisReply list" where
  "layout a (RStr s) = [str_cell REDIS_REPLY_STRING s]"
| "layout a (RStatus s) = [str_cell REDIS_REPLY_STATUS s]"
| "layout a (RErr s) = [str_cell REDIS_REPLY_ERROR s]"
| "layout a (RInt i) =
     [\<lparr>rr_type = REDIS_REPLY_INTEGER, rr_integer = i, rr_len = 0, rr_str = None, rr_elements = 0, rr_element = None\<rparr>]"
| "layout a RNil =
     [\<lparr>rr_type = REDIS_REPLY_NIL, rr_integer = 0, rr_len = 0, rr_str = None, rr_elements = 0, rr_element = None\<rparr>]"
| "layout a (RArr ts) = arr_cell (roots (a + 1) ts) # layouts (a + 1) ts"
| "layout a Absent = []"
| "layouts a [] = []"
| "layouts a (t # ts) = layout a t @ layouts (a + nodes t) ts"

lemma length_layout [simp]:
  "length (layout a t) = nodes t"
  "length (layouts a ts) = sum_list (map nodes ts)"
  by (induction a t and a ts rule: layout_layouts.induct) auto

lemma length_roots [simp]: "length (roots a ts) = length ts"
  by (induction ts arbitrary: a) auto

lemma layouts_append: "layouts a (ts @ us) = layouts a ts @ layouts (a + sum_list (map nodes ts)) us"
  by (induction ts arbitrary: a) (auto simp: add.assoc)

lemma roots_append: "roots a (ts @ us) = roots a ts @ roots (a + sum_list (map nodes ts)) us"
  by (induction ts arbitrary: a) (auto simp: add.assoc)

lemma roots_Absent [simp]: "roots a (replicate n Absent) = replicate n 0"
  by (induction n arbitrary: a) (auto simp: root_def)

lemma layouts_Absent [simp]: "layouts a (replicate n Absent) = []"
  by (induction n arbitrary: a) auto


lemma nth_layout_front: "(H @ x # K) ! length H = x" "(H @ x # K)[length H := y] = H @ y # K"
  by (simp_all add: nth_append list_update_append)

lemma obj_at_front [simp]: "obj_at (H @ Some r # K) (Suc (length H)) = Inr r"
  by (simp add: obj_at_def)

lemma obj_set_front [simp]: "obj_set (H @ x # K) (Suc (length H)) y = H @ y # K"
  by (simp add: obj_set_def)

section \<open>Releasing a tree\<close>

lemma free_layout:
  shows "a = Suc (length H) \<Longrightarrow> nodes t \<le> fuel \<Longrightarrow>
    free_obj (Suc fuel) (root a t) (H @ map Some (layout a t) @ K) = Inr (H @ replicate (nodes t) None @ K)"
  and "a = Suc (length H) \<Longrightarrow> sum_list (map nodes ts) \<le> fuel \<Longrightarrow>
    free_elements (Suc fuel) (roots a ts) (length ts) (H @ map Some (layouts a ts) @ K) =
      Inr (H @ replicate (sum_list (map nodes ts)) None @ K)"
proof (induction a t and a ts arbitrary: H K fuel and H K fuel rule: layout_layouts.induct)
  case (6 a ts)
  obtain f where f: "fuel = Suc f" "sum_list (map nodes ts) \<le> f" using 6 by (cases fuel) auto
  show ?case
  proof (cases "ts = []")
    case True
    then show ?thesis using 6 f by (simp add: root_def arr_cell_def)
  next
    case False
    then have ne: "roots (a + 1) ts \<noteq> []" by (metis length_roots length_0_conv)
    let ?H = "H @ [Some (arr_cell (roots (a + 1) ts))]"
    have "free_elements fuel (roots (a + 1) ts) (length ts) (?H @ map Some (layouts (a + 1) ts) @ K) =
        Inr (?H @ replicate (sum_list (map nodes ts)) None @ K)"
      unfolding f(1) using 6 f by (intro 6(1)) simp_all
    then show ?thesis using 6(2) ne by (simp add: root_def arr_cell_def)
  qed
next
  case (9 a t ts)
  have 1: "free_obj (Suc fuel) (root a t) (H @ map Some (layout a t) @ map Some (layouts (a + nodes t) ts) @ K) =
      Inr (H @ replicate (nodes t) None @ map Some (layouts (a + nodes t) ts) @ K)"
    using 9 by (intro 9(1)) auto
  have 2: "free_elements (Suc fuel) (roots (a + nodes t) ts) (length ts)
        ((H @ replicate (nodes t) None) @ map Some (layouts (a + nodes t) ts) @ K) =
      Inr ((H @ replicate (nodes t) None) @ replicate (sum_list (map nodes ts)) None @ K)"
    using 9 by (intro 9(2)) auto
  show ?case using 1 2 9(3)
    by (cases "t = Absent") (simp_all add: root_def replicate_add del: free_obj.simps)
qed (simp_all add: root_def str_cell_def)

section \<open>Trees under construction\<close>

text \<open>
  The arrays that are still open, outermost first: the number of elements announced and the elements
  already read. \<open>plug fs t\<close> is the tree with \<open>t\<close> as the next element of the innermost one.
\<close>

type_synonym frame = "nat \<times> reply list"

fun plug :: "frame list \<Rightarrow> reply \<Rightarrow> reply" where
  "plug [] t = t"
| "plug ((n, ts) # fs) t = RArr (ts @ plug fs t # replicate (n - length ts - 1) Absent)"

definition frames_ok :: "frame list \<Rightarrow> bool" where
  "frames_ok fs \<longleftrightarrow> list_all (\<lambda>(n, ts). length ts < n) fs"

fun frame_addr :: "nat \<Rightarrow> frame list \<Rightarrow> ptr" where
  "frame_addr a [] = 0"
| "frame_addr a ((n, ts) # fs) = (if fs = [] then a else frame_addr (a + 1 + sum_list (map nodes ts)) fs)"

lemma frames_ok_simps [simp]:
  "frames_ok []" "frames_ok ((n, ts) # fs) \<longleftrightarrow> length ts < n \<and> frames_ok fs"
  "frames_ok (fs @ gs) \<longleftrightarrow> frames_ok fs \<and> frames_ok gs"
  by (auto simp: frames_ok_def)

lemma plug_append [simp]: "plug (fs @ gs) t = plug fs (plug gs t)"
  by (induction fs arbitrary: t) auto

lemma plug_eq_Absent [simp]: "plug fs t = Absent \<longleftrightarrow> fs = [] \<and> t = Absent"
  by (cases fs) auto

lemma nodes_plug: "nodes (plug fs t) = nodes (plug fs Absent) + nodes t"
  by (induction fs) auto

lemma frame_addr_snoc: "frame_addr a (fs @ [(n, ts)]) = a + nodes (plug fs Absent)"
  by (induction fs arbitrary: a) auto

text \<open>Storing an element touches the innermost open array and adds the cells of the element.\<close>

lemma layout_plug:
  assumes "t \<noteq> Absent" "length ts < n"
  shows "layout a (plug fs (plug [(n, ts)] t)) =
      (layout a (plug fs (plug [(n, ts)] Absent)))
        [nodes (plug fs Absent) := arr_cell ((roots (a + nodes (plug fs Absent) + 1) (ts @ replicate (n - length ts) Absent))
          [length ts := a + nodes (plug fs (plug [(n, ts)] Absent))])]
      @ layout (a + nodes (plug fs (plug [(n, ts)] Absent))) t" (is "?l a fs")
    and "layout a (plug fs (plug [(n, ts)] Absent)) ! nodes (plug fs Absent) =
      arr_cell (roots (a + nodes (plug fs Absent) + 1) (ts @ replicate (n - length ts) Absent))" (is "?n a fs")
    and "nodes (plug fs Absent) < nodes (plug fs (plug [(n, ts)] Absent))" (is "?d fs")
proof -
  show d: "?d fs" for fs by (subst (2) nodes_plug) simp
  obtain m where m: "n - length ts = Suc m" using assms(2) by (metis Suc_diff_Suc)
  have "?l a fs \<and> ?n a fs"
  proof (induction fs arbitrary: a)
    case Nil
    show ?case using assms(1) m
      by (simp add: roots_append layouts_append root_def list_update_append sum_list_replicate)
  next
    case (Cons f fs)
    obtain k us where f: "f = (k, us)" by fastforce
    show ?case using Cons [of "a + 1 + sum_list (map nodes us)"] d [of fs]
      by (simp add: f root_def layouts_append roots_append list_update_append nth_append add.assoc
          sum_list_replicate)
  qed
  then show "?l a fs" "?n a fs" by auto
qed

section \<open>The interface of the object functions\<close>

text \<open>
  \<open>fits ad fs stack t\<close>: task \<open>t\<close> stands for the next element of the innermost open array, whose
  object is \<open>ad fs\<close>. \<open>created\<close>: a callback has stored the element \<open>v\<close> and returned its pointer, or
  has returned \<^verbatim>\<open>NULL\<close> because memory was refused and has left the tree as it was.
\<close>

definition fits :: "(frame list \<Rightarrow> ptr) \<Rightarrow> frame list \<Rightarrow> redisReadTask list \<Rightarrow> nat \<Rightarrow> bool" where
  "fits ad fs stack t \<longleftrightarrow>
     (if fs = [] then rt_parent (stack ! t) = None
      else \<exists>j. rt_parent (stack ! t) = Some j \<and> rt_obj (stack ! j) = ad fs \<and>
        rt_idx (stack ! t) = int (length (snd (last fs))))"

definition created :: "(reply \<Rightarrow> 'h \<Rightarrow> bool) \<Rightarrow> (reply \<Rightarrow> 'h \<Rightarrow> bool) \<Rightarrow> bool \<Rightarrow> (frame list \<Rightarrow> ptr) \<Rightarrow>
    frame list \<Rightarrow> reply \<Rightarrow> (ptr \<times> 'h) c_res \<Rightarrow> bool" where
  "created holds torn grants ad fs v res \<longleftrightarrow>
     (\<exists>h. res = Inr (ad (fs @ [(0, [])]), h) \<and> ad (fs @ [(0, [])]) \<noteq> 0 \<and> holds (plug fs v) h) \<or>
     \<not> grants \<and> (\<exists>h. res = Inr (0, h) \<and> torn (plug fs Absent) h)"

definition str_reply :: "int \<Rightarrow> bytes \<Rightarrow> reply" where
  "str_reply ty s = (if ty = REDIS_REPLY_STATUS then RStatus s else if ty = REDIS_REPLY_ERROR then RErr s
     else RStr s)"

locale reply_builder =
  fixes cs :: "redisReadTask list \<Rightarrow> nat \<Rightarrow> bytes \<Rightarrow> nat \<Rightarrow> 'h \<Rightarrow> (ptr \<times> 'h) c_res"
    and ca :: "redisReadTask list \<Rightarrow> nat \<Rightarrow> int \<Rightarrow> 'h \<Rightarrow> (ptr \<times> 'h) c_res"
    and ci :: "redisReadTask list \<Rightarrow> nat \<Rightarrow> int \<Rightarrow> 'h \<Rightarrow> (ptr \<times> 'h) c_res"
    and cn :: "redisReadTask list \<Rightarrow> nat \<Rightarrow> 'h \<Rightarrow> (ptr \<times> 'h) c_res"
    and fr :: "ptr \<Rightarrow> 'h \<Rightarrow> 'h c_res"
    and holds torn :: "'h \<Rightarrow> reply \<Rightarrow> 'h \<Rightarrow> bool" and gone :: "'h \<Rightarrow> 'h \<Rightarrow> bool"
    and addr :: "'h \<Rightarrow> frame list \<Rightarrow> ptr" and grants :: bool
  assumes addr_law: "addr h0 (fs @ [(n, ts)]) = addr h0 (fs @ [(m, us)])"
    and addr_nonzero: "addr h0 (fs @ [f]) \<noteq> 0"
    and holds_self: "holds h Absent h"
    and holds_torn: "holds h0 x h \<Longrightarrow> torn h0 x h"
    and torn_gone: "torn h0 Absent h \<Longrightarrow> gone h0 h"
    and cs_law: "frames_ok fs \<Longrightarrow> holds h0 (plug fs Absent) h \<Longrightarrow> fits (addr h0) fs stack t \<Longrightarrow>
      rt_type (stack ! t) \<in> {REDIS_REPLY_STATUS, REDIS_REPLY_ERROR, REDIS_REPLY_STRING} \<Longrightarrow> len \<le> length str \<Longrightarrow>
      created (holds h0) (torn h0) grants (addr h0) fs (str_reply (rt_type (stack ! t)) (take len str))
        (cs stack t str len h)"
    and ca_law: "frames_ok fs \<Longrightarrow> holds h0 (plug fs Absent) h \<Longrightarrow> fits (addr h0) fs stack t \<Longrightarrow>
      n < 2 ^ 31 \<Longrightarrow>
      created (holds h0) (torn h0) grants (addr h0) fs (RArr (replicate n Absent)) (ca stack t (int n) h)"
    and ci_law: "frames_ok fs \<Longrightarrow> holds h0 (plug fs Absent) h \<Longrightarrow> fits (addr h0) fs stack t \<Longrightarrow>
      created (holds h0) (torn h0) grants (addr h0) fs (RInt v) (ci stack t v h)"
    and cn_law: "frames_ok fs \<Longrightarrow> holds h0 (plug fs Absent) h \<Longrightarrow> fits (addr h0) fs stack t \<Longrightarrow>
      created (holds h0) (torn h0) grants (addr h0) fs RNil (cn stack t h)"
    and fr_law: "torn h0 x h \<Longrightarrow> x \<noteq> Absent \<Longrightarrow> \<exists>h'. fr (addr h0 [(0, [])]) h = Inr h' \<and> gone h0 h'"

section \<open>The default functions keep it\<close>

definition heap_holds :: "rheap \<Rightarrow> reply \<Rightarrow> rheap \<Rightarrow> bool" where
  "heap_holds h0 t h \<longleftrightarrow> h = h0 @ map Some (layout (length h0 + 1) t)"

definition heap_torn :: "rheap \<Rightarrow> reply \<Rightarrow> rheap \<Rightarrow> bool" where
  "heap_torn h0 t h \<longleftrightarrow> (\<exists>k. h = h0 @ map Some (layout (length h0 + 1) t) @ replicate k None)"

definition heap_gone :: "rheap \<Rightarrow> rheap \<Rightarrow> bool" where
  "heap_gone h0 h \<longleftrightarrow> (\<exists>k. h = h0 @ replicate k None)"

definition heap_addr :: "rheap \<Rightarrow> frame list \<Rightarrow> ptr" where
  "heap_addr h0 fs = frame_addr (length h0 + 1) fs"

lemma link_parent_holds:
  assumes "frames_ok fs" "fits (heap_addr h0) fs stack t" "\<And>a. layout a v = [cell]" "v \<noteq> Absent"
    "a = length h0 + 1" "k = nodes (plug fs Absent)"
  shows "link_parent stack t (a + k) (h0 @ map Some (layout a (plug fs Absent)) @ [Some cell]) =
    Inr (a + k, h0 @ map Some (layout a (plug fs v)))"
proof (cases fs rule: rev_cases)
  case Nil
  then show ?thesis using assms by (simp add: link_parent_def fits_def)
next
  case (snoc gs f)
  obtain n ts where f: "f = (n, ts)" by fastforce
  let ?L = "layout a (plug gs (plug [(n, ts)] Absent))" and ?d = "nodes (plug gs Absent)"
  let ?es = "roots (a + ?d + 1) (ts @ replicate (n - length ts) Absent)"
  obtain j where j: "rt_parent (stack ! t) = Some j" "rt_obj (stack ! j) = a + ?d" "rt_idx (stack ! t) = int (length ts)"
    using assms(2,5) snoc f by (auto simp: fits_def heap_addr_def frame_addr_snoc)
  have n: "length ts < n" using assms(1) snoc f by simp
  note lp = layout_plug [OF assms(4) n]
  have es: "?es \<noteq> []" using n by (simp add: roots_append)
  have len: "length ?es = n" using n by simp
  have k: "k = nodes (plug gs (plug [(n, ts)] Absent))" using assms(6) snoc f by simp
  have L: "?d < length ?L" using lp(3) [of gs] by simp
  have at: "obj_at (h0 @ map Some ?L @ [Some cell]) (a + ?d) = Inr (arr_cell ?es)"
    using lp(2) [of a gs] L assms(5) by (simp add: obj_at_def nth_append)
  have set: "obj_set (h0 @ map Some ?L @ [Some cell]) (a + ?d) (Some x) = h0 @ map Some (?L[?d := x] @ [cell])" for x
    using L assms(5) by (simp add: obj_set_def list_update_append map_update)
  have "layout a (plug fs v) = ?L[?d := arr_cell (?es[length ts := a + k])] @ [cell]"
    using lp(1) [of a gs] snoc f k assms(3) by simp
  moreover have "link_parent stack t (a + k) (h0 @ map Some ?L @ [Some cell]) =
      Inr (a + k, h0 @ map Some (?L[?d := arr_cell (?es[length ts := a + k])] @ [cell]))"
    unfolding link_parent_def using j at es n len set
    by (simp add: arr_cell_def del: roots_Absent map_append)
  ultimately show ?thesis using snoc f by simp
qed

lemma obj_last [simp]:
  "obj_at (h @ [Some r]) (Suc (length h)) = Inr r"
  "obj_set (h @ [x]) (Suc (length h)) y = h @ [y]"
  by (simp_all add: obj_at_def obj_set_def)

lemma free_fresh [simp]:
  "rr_element r = None \<Longrightarrow> freeReplyObject (Suc (length h)) (h @ [Some r]) = Inr (h @ [None])"
  by (simp add: freeReplyObject_def)

abbreviation heap_created :: "mem \<Rightarrow> rheap \<Rightarrow> frame list \<Rightarrow> reply \<Rightarrow> (ptr \<times> rheap) c_res \<Rightarrow> bool" where
  "heap_created M h0 \<equiv> created (heap_holds h0) (heap_torn h0) (\<forall>n. mem_ok M n) (heap_addr h0)"

lemma created_by_link:
  assumes "frames_ok fs" "heap_holds h0 (plug fs Absent) h" "fits (heap_addr h0) fs stack t"
    "\<And>a. layout a v = [cell]" "v \<noteq> Absent"
  shows "heap_created M h0 fs v (link_parent stack t (Suc (length h)) (h @ [Some cell]))"
  using link_parent_holds [OF assms(1,3,4,5) refl refl] assms(2)
  by (simp add: created_def heap_holds_def heap_addr_def frame_addr_snoc)

lemma created_null:
  assumes "heap_holds h0 (plug fs Absent) h" "\<not> mem_ok M n"
  shows "heap_created M h0 fs v (Inr (0, h))" "heap_created M h0 fs v (Inr (0, h @ [None]))"
proof -
  have "heap_torn h0 (plug fs Absent) h" "heap_torn h0 (plug fs Absent) (h @ [None])"
    using assms(1) unfolding heap_torn_def heap_holds_def
    by (auto intro: exI [of _ 0] exI [of _ "Suc 0"])
  then show "heap_created M h0 fs v (Inr (0, h))" "heap_created M h0 fs v (Inr (0, h @ [None]))"
    using assms(2) by (auto simp: created_def)
qed

lemma freeReplyObject_torn:
  assumes "heap_torn h0 t h" "t \<noteq> Absent"
  shows "\<exists>h'. freeReplyObject (heap_addr h0 [(0, [])]) h = Inr h' \<and> heap_gone h0 h'"
proof -
  obtain k where h: "h = h0 @ map Some (layout (length h0 + 1) t) @ replicate k None"
    using assms(1) by (auto simp: heap_torn_def)
  have "free_obj (Suc (length h)) (root (length h0 + 1) t) h = Inr (h0 @ replicate (nodes t) None @ replicate k None)"
    unfolding h by (rule free_layout(1)) simp_all
  then have "freeReplyObject (length h0 + 1) h = Inr (h0 @ replicate (nodes t + k) None)"
    using assms(2) by (simp add: freeReplyObject_def root_def replicate_add)
  then show ?thesis by (auto simp: heap_addr_def heap_gone_def)
qed

interpretation dflt: reply_builder "createStringObject M" "createArrayObject M" "createIntegerObject M"
  "createNilObject M" freeReplyObject heap_holds heap_torn heap_gone heap_addr "\<forall>n. mem_ok M n" for M
proof unfold_locales
  fix fs h0 h stack t and str :: bytes and len
  assume a: "frames_ok fs" "heap_holds h0 (plug fs Absent) h" "fits (heap_addr h0) fs stack t"
  note mk = created_by_link [OF a] and null = created_null [OF a(2)]
  show "heap_created M h0 fs (RInt v) (createIntegerObject M stack t v h)" for v
    using mk [of "RInt v"] null by (auto simp: createIntegerObject_def createReplyObject_def)
  show "heap_created M h0 fs RNil (createNilObject M stack t h)"
    using mk [of RNil] null by (auto simp: createNilObject_def createReplyObject_def)
  { fix n :: nat assume n: "n < 2 ^ 31"
    have l: "layout a (RArr (replicate n Absent)) =
        [\<lparr>rr_type = REDIS_REPLY_ARRAY, rr_integer = 0, rr_len = 0, rr_str = None, rr_elements = size64 (int n),
          rr_element = if 0 < int n then Some (replicate n 0) else None\<rparr>]" for a
      using n by (simp add: arr_cell_def)
    show "heap_created M h0 fs (RArr (replicate n Absent)) (createArrayObject M stack t (int n) h)"
      using mk [OF l] null by (auto simp: createArrayObject_def createReplyObject_def Let_def) }
  { assume ty: "rt_type (stack ! t) \<in> {REDIS_REPLY_STATUS, REDIS_REPLY_ERROR, REDIS_REPLY_STRING}" "len \<le> length str"
    have l: "layout a (str_reply (rt_type (stack ! t)) (take len str)) =
        [\<lparr>rr_type = rt_type (stack ! t), rr_integer = 0, rr_len = int32 (int len), rr_str = Some (take len str @ [NUL]),
          rr_elements = 0, rr_element = None\<rparr>]" for a
      using ty by (auto simp: str_reply_def str_cell_def)
    show "heap_created M h0 fs (str_reply (rt_type (stack ! t)) (take len str)) (createStringObject M stack t str len h)"
      using mk [OF l] null ty
      by (auto simp: createStringObject_def createReplyObject_def Let_def str_reply_def) }
next
  fix h0 t h assume "heap_torn h0 t h" "t \<noteq> Absent"
  then show "\<exists>h'. freeReplyObject (heap_addr h0 [(0, [])]) h = Inr h' \<and> heap_gone h0 h'" by (rule freeReplyObject_torn)
next
  fix h0 fs and f :: frame
  show "heap_addr h0 (fs @ [f]) \<noteq> 0" by (cases f) (simp add: heap_addr_def frame_addr_snoc)
qed (auto simp: heap_addr_def frame_addr_snoc heap_holds_def heap_torn_def heap_gone_def intro: exI [of _ 0])

section \<open>Properties\<close>

text \<open>
  C26: \<^verbatim>\<open>freeReplyObject\<close> ends on every reply tree, also on one whose arrays are still being filled,
  releases each of its cells exactly once and touches no other cell.
\<close>

theorem freeReplyObject_correct:
  "freeReplyObject (root (length h0 + 1) t) (h0 @ map Some (layout (length h0 + 1) t) @ rest) =
    Inr (h0 @ replicate (nodes t) None @ rest)"
  unfolding freeReplyObject_def Suc_eq_plus1 [symmetric] by (rule free_layout(1)) simp_all

end
