(* ===== verification/Reader.thy ===== *)
theory Reader
  imports Reply
begin

text \<open>
  The incremental protocol parser of \<^verbatim>\<open>src/read.c\<close>. The reader keeps an sds buffer with a cursor
  and a stack of nine read tasks; \<^verbatim>\<open>redisReaderFeed\<close> appends bytes and \<^verbatim>\<open>redisReaderGetReply\<close>
  consumes items until a reply is complete or bytes are missing. The object functions are a table of
  callbacks on a state of type \<open>'h\<close>, threaded through every call. Reads are checked against the
  allocation of the buffer, so a read outside it is a fault.
\<close>

section \<open>State\<close>

abbreviation (input) REDIS_ERR :: int where "REDIS_ERR \<equiv> -1"
abbreviation (input) REDIS_OK :: int where "REDIS_OK \<equiv> 0"
abbreviation (input) REDIS_ERR_IO :: int where "REDIS_ERR_IO \<equiv> 1"
abbreviation (input) REDIS_ERR_OTHER :: int where "REDIS_ERR_OTHER \<equiv> 2"
abbreviation (input) REDIS_ERR_EOF :: int where "REDIS_ERR_EOF \<equiv> 3"
abbreviation (input) REDIS_ERR_PROTOCOL :: int where "REDIS_ERR_PROTOCOL \<equiv> 4"
abbreviation (input) REDIS_ERR_OOM :: int where "REDIS_ERR_OOM \<equiv> 5"

abbreviation (input) REDIS_READER_MAX_BUF :: nat where "REDIS_READER_MAX_BUF \<equiv> 16384"
abbreviation sizeof_redisReader :: nat where "sizeof_redisReader \<equiv> 560"

record 'h redisReader =
  r_err :: int
  r_errstr :: bytes
  r_buf :: "sdshdr option"
  r_pos :: nat
  r_len :: nat
  r_maxbuf :: nat
  r_rstack :: "redisReadTask list"
  r_ridx :: int
  r_reply :: ptr
  r_fn :: "'h redisReplyObjectFunctions option"
  r_privdata :: ptr

section \<open>Errors\<close>

definition redisReaderSetError :: "'h redisReader \<Rightarrow> int \<Rightarrow> bytes \<Rightarrow> 'h \<Rightarrow> ('h redisReader \<times> 'h) c_res" where
  "redisReaderSetError r ty str h =
     bind_c
       (case r_fn r of
          None \<Rightarrow> Inr (r, h)
        | Some fn \<Rightarrow>
            (case fn_freeObject fn of
               None \<Rightarrow> Inr (r, h)
             | Some free \<Rightarrow>
                 (if r_reply r \<noteq> 0 then bind_c (free (r_reply r) h) (\<lambda>h. Inr (r\<lparr>r_reply := 0\<rparr>, h))
                  else Inr (r, h))))
       (\<lambda>(r, h).
         (let r = (if r_buf r \<noteq> None then r\<lparr>r_buf := None, r_pos := 0, r_len := 0\<rparr> else r)
          in Inr (r\<lparr>r_ridx := -1, r_err := ty, r_errstr := take 127 (cstr str)\<rparr>, h)))"

definition hex2 :: "char \<Rightarrow> bytes" where
  "hex2 c = (let d = (\<lambda>n. ''0123456789abcdef'' ! n) in [d (char_code c div 16), d (char_code c mod 16)])"

text \<open>The target has eight bytes.\<close>

definition chrtos :: "char \<Rightarrow> bytes" where
  "chrtos byte = take 7
     (let q = CHR 0x22; b = CHR 0x5C in
      if byte = b \<or> byte = q then [q, b, byte, q]
      else if byte = CHR 0x0A then [q, b, CHR ''n'', q]
      else if byte = CHR 0x0D then [q, b, CHR ''r'', q]
      else if byte = CHR 0x09 then [q, b, CHR ''t'', q]
      else if byte = CHR 0x07 then [q, b, CHR ''a'', q]
      else if byte = CHR 0x08 then [q, b, CHR ''b'', q]
      else if isprint byte then [q, byte, q]
      else [q, b, CHR ''x''] @ hex2 byte @ [q])"

definition redisReaderSetErrorProtocolByte :: "'h redisReader \<Rightarrow> char \<Rightarrow> 'h \<Rightarrow> ('h redisReader \<times> 'h) c_res" where
  "redisReaderSetErrorProtocolByte r byte h =
     redisReaderSetError r REDIS_ERR_PROTOCOL
       (take 127 (''Protocol error, got '' @ cstr (chrtos byte) @ '' as reply type byte'')) h"

definition redisReaderSetErrorOOM :: "'h redisReader \<Rightarrow> 'h \<Rightarrow> ('h redisReader \<times> 'h) c_res" where
  "redisReaderSetErrorOOM r h = redisReaderSetError r REDIS_ERR_OOM ''Out of memory'' h"

section \<open>Bytes, lines and numbers\<close>

text \<open>A pointer into the buffer is an offset of its allocation.\<close>

definition buf_of :: "'h redisReader \<Rightarrow> bytes c_res" where
  "buf_of r = (case r_buf r of None \<Rightarrow> Inl NullDeref | Some s \<Rightarrow> Inr (sh_buf s))"

definition readBytes :: "'h redisReader \<Rightarrow> nat \<Rightarrow> nat option \<times> 'h redisReader" where
  "readBytes r n =
     (if n \<le> size64 (int (r_len r) - int (r_pos r)) then (Some (r_pos r), r\<lparr>r_pos := size64 (int (r_pos r + n))\<rparr>)
      else (None, r))"

text \<open>\<^verbatim>\<open>s\<close> is the offset \<open>s\<close> of the memory \<open>b\<close>; the result is relative to it.\<close>

function seek_cr :: "bytes \<Rightarrow> nat \<Rightarrow> int \<Rightarrow> nat \<Rightarrow> nat c_res" where
  "seek_cr b s len pos =
     (if int pos < len then bind_c (rd b (s + pos)) (\<lambda>c. if c \<noteq> CR then seek_cr b s len (pos + 1) else Inr pos)
      else Inr pos)"
  by auto
termination by (relation "measure (\<lambda>(b, s, len, pos). nat (len - int pos))") auto

declare seek_cr.simps [simp del]

lemma seek_cr_ge: "seek_cr b s len pos = Inr q \<Longrightarrow> pos \<le> q"
proof (induction b s len pos rule: seek_cr.induct)
  case (1 b s len pos)
  then show ?case by (subst (asm) seek_cr.simps) (fastforce simp: rd_def split: if_splits)
qed

function seek_loop :: "bytes \<Rightarrow> nat \<Rightarrow> int \<Rightarrow> nat \<Rightarrow> nat option c_res" where
  "seek_loop b s len pos =
     (if int pos < len then
        (case seek_cr b s len pos of
           Inl e \<Rightarrow> Inl e
         | Inr q \<Rightarrow>
             bind_c (rd b (s + q)) (\<lambda>c.
               if c \<noteq> CR then Inr None
               else bind_c (rd b (s + q + 1)) (\<lambda>c. if c = LF then Inr (Some q) else seek_loop b s len (q + 1))))
      else Inr None)"
  by auto
termination
  by (relation "measure (\<lambda>(b, s, len, pos). nat (len - int pos))") (auto dest: seek_cr_ge)

declare seek_loop.simps [simp del]

definition seekNewline :: "bytes \<Rightarrow> nat \<Rightarrow> nat \<Rightarrow> nat option c_res" where
  "seekNewline b s len = seek_loop b s (int32 (int (size64 (int len - 1)))) 0"

fun digits_loop :: "int \<Rightarrow> int \<Rightarrow> bytes \<Rightarrow> int c_res" where
  "digits_loop mult v [] = Inl OutOfBounds"
| "digits_loop mult v (c # cs) =
     (if c = CR then Inr (int64 (mult * v))
      else if isdigit c then digits_loop mult (int64 (int64 (v * 10) + int (digit_val c))) cs
      else Inr (-1))"

definition readLongLong :: "bytes \<Rightarrow> nat \<Rightarrow> int c_res" where
  "readLongLong b s =
     bind_c (rd b s) (\<lambda>c.
       if c = CHR ''-'' then digits_loop (-1) 0 (drop (s + 1) b)
       else if c = CHR ''+'' then digits_loop 1 0 (drop (s + 1) b)
       else digits_loop 1 0 (drop s b))"

text \<open>The line starts at the old cursor; \<open>None\<close> when there is no newline yet.\<close>

definition readLine :: "'h redisReader \<Rightarrow> (int option \<times> 'h redisReader) c_res" where
  "readLine r =
     bind_c (buf_of r) (\<lambda>b.
       bind_c (seekNewline b (r_pos r) (size64 (int (r_len r) - int (r_pos r)))) (\<lambda>s.
         case s of
           None \<Rightarrow> Inr (None, r)
         | Some q \<Rightarrow>
             (let len = int32 (int q)
              in Inr (Some len, r\<lparr>r_pos := size64 (int (r_pos r) + int32 (len + 2))\<rparr>))))"

section \<open>Tasks\<close>

fun move_loop :: "nat \<Rightarrow> 'h redisReader \<Rightarrow> 'h redisReader c_res" where
  "move_loop 0 r = Inr (r\<lparr>r_ridx := -1\<rparr>)"
| "move_loop (Suc k) r =
     bind_c (rd (r_rstack r) (Suc k)) (\<lambda>cur.
       bind_c (rd (r_rstack r) k) (\<lambda>prv.
         bind_c (assert_c (rt_type prv = REDIS_REPLY_ARRAY)) (\<lambda>_.
           if rt_idx cur = rt_elements prv - 1 then move_loop k (r\<lparr>r_ridx := int k\<rparr>)
           else
             bind_c (assert_c (rt_idx cur < rt_elements prv)) (\<lambda>_.
               Inr (r\<lparr>r_rstack := (r_rstack r)
                       [Suc k := cur\<lparr>rt_type := -1, rt_elements := -1, rt_idx := rt_idx cur + 1\<rparr>]\<rparr>)))))"

definition moveToNextTask :: "'h redisReader \<Rightarrow> 'h redisReader c_res" where
  "moveToNextTask r = (if 0 \<le> r_ridx r then move_loop (nat (r_ridx r)) r else Inr r)"

text \<open>A callback of the table, or the stand-in value that is used when there is none.\<close>

definition call_fn :: "'h redisReader \<Rightarrow> ('h redisReplyObjectFunctions \<Rightarrow> 'f option) \<Rightarrow>
    ('f \<Rightarrow> (ptr \<times> 'h) c_res) \<Rightarrow> ptr \<Rightarrow> 'h \<Rightarrow> (ptr \<times> 'h) c_res" where
  "call_fn r sel call tag h =
     (case r_fn r of
        None \<Rightarrow> Inr (tag, h)
      | Some fn \<Rightarrow> (case sel fn of None \<Rightarrow> Inr (tag, h) | Some f \<Rightarrow> call f))"

text \<open>What every item does with its object: out of memory, or the root, then the next task.\<close>

definition item_done :: "'h redisReader \<Rightarrow> ptr \<Rightarrow> 'h \<Rightarrow> (int \<times> 'h redisReader \<times> 'h) c_res" where
  "item_done r obj h =
     (if obj = 0 then bind_c (redisReaderSetErrorOOM r h) (\<lambda>(r, h). Inr (REDIS_ERR, r, h))
      else
        (let r = (if r_ridx r = 0 then r\<lparr>r_reply := obj\<rparr> else r)
         in bind_c (moveToNextTask r) (\<lambda>r. Inr (REDIS_OK, r, h))))"

definition processLineItem :: "'h redisReader \<Rightarrow> 'h \<Rightarrow> (int \<times> 'h redisReader \<times> 'h) c_res" where
  "processLineItem r h =
     (let i = nat (r_ridx r); start = r_pos r in
      bind_c (rd (r_rstack r) i) (\<lambda>cur.
        bind_c (buf_of r) (\<lambda>b.
          bind_c (readLine r) (\<lambda>(line, r).
            case line of
              None \<Rightarrow> Inr (REDIS_ERR, r, h)
            | Some len \<Rightarrow>
                bind_c
                  (if rt_type cur = REDIS_REPLY_INTEGER then
                     bind_c (readLongLong b start) (\<lambda>v.
                       call_fn r fn_createInteger (\<lambda>f. f (r_rstack r) i v h) (nat REDIS_REPLY_INTEGER) h)
                   else
                     call_fn r fn_createString (\<lambda>f. f (r_rstack r) i (drop start b) (size64 len) h) (nat (rt_type cur)) h)
                  (\<lambda>(obj, h). item_done r obj h)))))"

definition processBulkItem :: "'h redisReader \<Rightarrow> 'h \<Rightarrow> (int \<times> 'h redisReader \<times> 'h) c_res" where
  "processBulkItem r h =
     (let i = nat (r_ridx r) in
      bind_c (buf_of r) (\<lambda>b.
        bind_c (seekNewline b (r_pos r) (size64 (int (r_len r) - int (r_pos r)))) (\<lambda>s.
          case s of
            None \<Rightarrow> Inr (REDIS_ERR, r, h)
          | Some q \<Rightarrow>
              bind_c (readLongLong b (r_pos r)) (\<lambda>len.
                if len < 0 then
                  bind_c (call_fn r fn_createNil (\<lambda>f. f (r_rstack r) i h) (nat REDIS_REPLY_NIL) h)
                    (\<lambda>(obj, h).
                      if obj = 0 then item_done r obj h
                      else item_done (r\<lparr>r_pos := size64 (int (r_pos r + (q + 2)))\<rparr>) obj h)
                else
                  (let bytelen = size64 (int (q + 2) + int64 (len + 2)) in
                   if size64 (int (r_pos r + bytelen)) \<le> r_len r then
                     bind_c
                       (call_fn r fn_createString (\<lambda>f. f (r_rstack r) i (drop (r_pos r + q + 2) b) (nat len) h)
                         (nat REDIS_REPLY_STRING) h)
                       (\<lambda>(obj, h).
                         if obj = 0 then item_done r obj h
                         else item_done (r\<lparr>r_pos := size64 (int (r_pos r + bytelen))\<rparr>) obj h)
                   else Inr (REDIS_ERR, r, h))))))"

definition push_task :: "'h redisReader \<Rightarrow> nat \<Rightarrow> int \<Rightarrow> ptr \<Rightarrow> 'h redisReader c_res" where
  "push_task r i elements obj =
     bind_c (rd (r_rstack r) i) (\<lambda>cur.
       if i + 1 < length (r_rstack r) then
         Inr (r\<lparr>r_rstack := (r_rstack r)
                 [i := cur\<lparr>rt_elements := int32 elements, rt_obj := obj\<rparr>,
                  i + 1 := \<lparr>rt_type = -1, rt_elements = -1, rt_idx = 0, rt_obj = 0, rt_parent = Some i,
                            rt_privdata = r_privdata r\<rparr>],
               r_ridx := r_ridx r + 1\<rparr>)
       else Inl OutOfBounds)"

definition processMultiBulkItem :: "'h redisReader \<Rightarrow> 'h \<Rightarrow> (int \<times> 'h redisReader \<times> 'h) c_res" where
  "processMultiBulkItem r h =
     (let i = nat (r_ridx r); start = r_pos r; root = (r_ridx r = 0);
          finish = (\<lambda>r obj h. Inr (REDIS_OK, (if root then r\<lparr>r_reply := obj\<rparr> else r), h));
          oom = (\<lambda>r h. bind_c (redisReaderSetErrorOOM r h) (\<lambda>(r, h). Inr (REDIS_ERR, r, h))) in
      if r_ridx r = 8 then
        bind_c (redisReaderSetError r REDIS_ERR_PROTOCOL
            ''No support for nested multi bulk replies with depth > 7'' h) (\<lambda>(r, h). Inr (REDIS_ERR, r, h))
      else
        bind_c (buf_of r) (\<lambda>b.
          bind_c (readLine r) (\<lambda>(line, r).
            case line of
              None \<Rightarrow> Inr (REDIS_ERR, r, h)
            | Some _ \<Rightarrow>
                bind_c (readLongLong b start) (\<lambda>elements.
                  if elements = -1 then
                    bind_c (call_fn r fn_createNil (\<lambda>f. f (r_rstack r) i h) (nat REDIS_REPLY_NIL) h) (\<lambda>(obj, h).
                      if obj = 0 then oom r h
                      else bind_c (moveToNextTask r) (\<lambda>r. finish r obj h))
                  else
                    bind_c (call_fn r fn_createArray (\<lambda>f. f (r_rstack r) i (int32 elements) h) (nat REDIS_REPLY_ARRAY) h)
                      (\<lambda>(obj, h).
                        if obj = 0 then oom r h
                        else if 0 < elements then bind_c (push_task r i elements obj) (\<lambda>r. finish r obj h)
                        else bind_c (moveToNextTask r) (\<lambda>r. finish r obj h))))))"

definition type_of_byte :: "char \<Rightarrow> int option" where
  "type_of_byte c =
     (if c = CHR ''-'' then Some REDIS_REPLY_ERROR
      else if c = CHR ''+'' then Some REDIS_REPLY_STATUS
      else if c = CHR '':'' then Some REDIS_REPLY_INTEGER
      else if c = CHR ''$'' then Some REDIS_REPLY_STRING
      else if c = CHR ''*'' then Some REDIS_REPLY_ARRAY
      else None)"

definition process_typed :: "int \<Rightarrow> 'h redisReader \<Rightarrow> 'h \<Rightarrow> (int \<times> 'h redisReader \<times> 'h) c_res" where
  "process_typed ty r h =
     (if ty = REDIS_REPLY_ERROR \<or> ty = REDIS_REPLY_STATUS \<or> ty = REDIS_REPLY_INTEGER then processLineItem r h
      else if ty = REDIS_REPLY_STRING then processBulkItem r h
      else if ty = REDIS_REPLY_ARRAY then processMultiBulkItem r h
      else Inl AssertFailed)"

definition processItem :: "'h redisReader \<Rightarrow> 'h \<Rightarrow> (int \<times> 'h redisReader \<times> 'h) c_res" where
  "processItem r h =
     (let i = nat (r_ridx r) in
      bind_c (rd (r_rstack r) i) (\<lambda>cur.
        if rt_type cur < 0 then
          (case readBytes r 1 of
             (None, r) \<Rightarrow> Inr (REDIS_ERR, r, h)
           | (Some p, r) \<Rightarrow>
               bind_c (buf_of r) (\<lambda>b.
                 bind_c (rd b p) (\<lambda>c.
                   case type_of_byte c of
                     None \<Rightarrow>
                       bind_c (redisReaderSetErrorProtocolByte r c h) (\<lambda>(r, h). Inr (REDIS_ERR, r, h))
                   | Some ty \<Rightarrow>
                       process_typed ty (r\<lparr>r_rstack := (r_rstack r)[i := cur\<lparr>rt_type := ty\<rparr>]\<rparr>) h)))
        else process_typed (rt_type cur) r h))"

section \<open>The public operations\<close>

definition task0 :: redisReadTask where
  "task0 = \<lparr>rt_type = 0, rt_elements = 0, rt_idx = 0, rt_obj = 0, rt_parent = None, rt_privdata = 0\<rparr>"

definition redisReaderCreateWithFunctions ::
    "mem \<Rightarrow> 'h redisReplyObjectFunctions option \<Rightarrow> 'h redisReader option c_res" where
  "redisReaderCreateWithFunctions M fn =
     (if \<not> mem_ok M sizeof_redisReader then Inr None
      else
        bind_c (sdsempty M) (\<lambda>buf.
          case buf of
            None \<Rightarrow> Inr None
          | Some s \<Rightarrow>
              Inr (Some \<lparr>r_err = 0, r_errstr = [], r_buf = Some s, r_pos = 0, r_len = 0,
                         r_maxbuf = REDIS_READER_MAX_BUF, r_rstack = replicate 9 task0, r_ridx = -1,
                         r_reply = 0, r_fn = fn, r_privdata = 0\<rparr>)))"

definition redisReaderFeed :: "mem \<Rightarrow> 'h redisReader \<Rightarrow> bytes option \<Rightarrow> 'h \<Rightarrow> (int \<times> 'h redisReader \<times> 'h) c_res" where
  "redisReaderFeed M r buf h =
     (if r_err r \<noteq> 0 then Inr (REDIS_ERR, r, h)
      else
        (case buf of
           None \<Rightarrow> Inr (REDIS_OK, r, h)
         | Some t \<Rightarrow>
             (if t = [] then Inr (REDIS_OK, r, h)
              else
                (case r_buf r of
                   None \<Rightarrow> Inl NullDeref
                 | Some s \<Rightarrow>
                     bind_c
                       (if r_len r = 0 \<and> r_maxbuf r \<noteq> 0 \<and> r_maxbuf r < sdsavail s then
                          bind_c (sdsempty M) (\<lambda>e.
                            case e of
                              None \<Rightarrow> Inl AssertFailed
                            | Some s \<Rightarrow> Inr (r\<lparr>r_buf := Some s, r_pos := 0\<rparr>, s))
                        else Inr (r, s))
                       (\<lambda>(r, s).
                         bind_c (sdscatlen M s t) (\<lambda>newbuf.
                           case newbuf of
                             None \<Rightarrow> bind_c (redisReaderSetErrorOOM r h) (\<lambda>(r, h). Inr (REDIS_ERR, r, h))
                           | Some s \<Rightarrow> Inr (REDIS_OK, r\<lparr>r_buf := Some s, r_len := sdslen s\<rparr>, h)))))))"

text \<open>
  The loop of \<^verbatim>\<open>redisReaderGetReply\<close>. Every successful item consumes a byte of the buffer, so one
  more iteration than there are bytes left is enough; running out of fuel is \<open>Diverged\<close>.
\<close>

fun item_loop :: "nat \<Rightarrow> 'h redisReader \<Rightarrow> 'h \<Rightarrow> ('h redisReader \<times> 'h) c_res" where
  "item_loop 0 r h = Inl Diverged"
| "item_loop (Suc fuel) r h =
     (if 0 \<le> r_ridx r then
        bind_c (processItem r h) (\<lambda>(ok, r, h). if ok \<noteq> REDIS_OK then Inr (r, h) else item_loop fuel r h)
      else Inr (r, h))"

definition first_task :: "'h redisReader \<Rightarrow> 'h redisReader" where
  "first_task r =
     (if r_ridx r = -1 then
        r\<lparr>r_rstack := (r_rstack r)[0 := \<lparr>rt_type = -1, rt_elements = -1, rt_idx = -1, rt_obj = 0, rt_parent = None,
             rt_privdata = r_privdata r\<rparr>], r_ridx := 0\<rparr>
      else r)"

text \<open>The result has the reply, \<^verbatim>\<open>NULL\<close> when there is none.\<close>

definition redisReaderGetReply :: "'h redisReader \<Rightarrow> 'h \<Rightarrow> (int \<times> ptr \<times> 'h redisReader \<times> 'h) c_res" where
  "redisReaderGetReply r h =
     (if r_err r \<noteq> 0 then Inr (REDIS_ERR, 0, r, h)
      else if r_len r = 0 then Inr (REDIS_OK, 0, r, h)
      else
        bind_c (item_loop (r_len r - r_pos r + 2) (first_task r) h) (\<lambda>(r, h).
          if r_err r \<noteq> 0 then Inr (REDIS_ERR, 0, r, h)
          else
            bind_c
              (if 1024 \<le> r_pos r then
                 (case r_buf r of
                    None \<Rightarrow> Inl NullDeref
                  | Some s \<Rightarrow>
                      bind_c (sdsrange s (int32 (int (r_pos r))) (-1)) (\<lambda>s.
                        Inr (r\<lparr>r_buf := Some s, r_pos := 0, r_len := sdslen s\<rparr>)))
               else Inr r)
              (\<lambda>r. if r_ridx r = -1 then Inr (REDIS_OK, r_reply r, r\<lparr>r_reply := 0\<rparr>, h)
                   else Inr (REDIS_OK, 0, r, h))))"

definition redisReaderFree :: "'h redisReader \<Rightarrow> 'h \<Rightarrow> 'h c_res" where
  "redisReaderFree r h =
     (case r_fn r of
        None \<Rightarrow> Inr h
      | Some fn \<Rightarrow>
          (case fn_freeObject fn of
             None \<Rightarrow> Inr h
           | Some free \<Rightarrow> (if r_reply r \<noteq> 0 then free (r_reply r) h else Inr h)))"

end
