(* ===== verification/Reader_Spec.thy ===== *)
theory Reader_Spec
  imports Reader
begin

text \<open>
  What the reader computes, without buffers, tasks and cells: \<open>parse\<close> consumes the items of a byte
  string, with the arrays that are still open (innermost first) and the type byte that was read before
  the bytes ran out as its state. Its two main facts are that stopping and going on with more bytes is the
  same as parsing all of them at once (\<open>parse_append\<close>) and that it reads the notation \<open>enc\<close> of a
  reply back (\<open>parse_enc\<close>).
\<close>

section \<open>Lines and numbers\<close>

fun split_crlf :: "bytes \<Rightarrow> (bytes \<times> bytes) option" where
  "split_crlf (c # d # cs) =
     (if c = CR \<and> d = LF then Some ([], cs) else map_option (\<lambda>(l, r). (c # l, r)) (split_crlf (d # cs)))"
| "split_crlf _ = None"

fun num_loop :: "int \<Rightarrow> int \<Rightarrow> bytes \<Rightarrow> int" where
  "num_loop mult v [] = int64 (mult * v)"
| "num_loop mult v (c # cs) =
     (if c = CR then int64 (mult * v)
      else if isdigit c then num_loop mult (int64 (int64 (v * 10) + int (digit_val c))) cs
      else -1)"

fun num :: "bytes \<Rightarrow> int" where
  "num [] = 0"
| "num (c # cs) =
     (if c = CHR ''-'' then num_loop (-1) 0 cs else if c = CHR ''+'' then num_loop 1 0 cs
      else num_loop 1 0 (c # cs))"

lemma split_crlf_append: "split_crlf b = Some (l, r) \<Longrightarrow> split_crlf (b @ c) = Some (l, r @ c)"
  by (induction b arbitrary: l rule: split_crlf.induct) (auto split: if_splits)

lemma split_crlf_eq: "split_crlf b = Some (l, r) \<Longrightarrow> b = l @ CRLF @ r"
  by (induction b arbitrary: l rule: split_crlf.induct) (auto split: if_splits)

lemma split_crlf_line: "CR \<notin> set l \<Longrightarrow> split_crlf (l @ CRLF @ r) = Some (l, r)"
proof (induction l)
  case (Cons c l)
  then show ?case by (cases l) auto
qed simp

lemma int64_simps [simp]:
  "int64 (int64 x) = int64 x" "int64 (int64 x * y) = int64 (x * y)" "int64 (x * int64 y) = int64 (x * y)"
  "int64 (int64 x + y) = int64 (x + y)" "int64 (x + int64 y) = int64 (x + y)"
proof -
  have t: "take_bit 64 (int64 x) = take_bit 64 x" for x
    by (simp add: int64_def take_bit_signed_take_bit)
  have e: "int64 x = int64 y \<longleftrightarrow> take_bit 64 x = take_bit 64 y" for x y
    by (simp add: int64_def signed_take_bit_eq_iff_take_bit_eq)
  show "int64 (int64 x) = int64 x" by (simp add: e t)
  show "int64 (int64 x * y) = int64 (x * y)" unfolding e by (metis t take_bit_mult)
  show "int64 (x * int64 y) = int64 (x * y)" unfolding e by (metis t take_bit_mult)
  show "int64 (int64 x + y) = int64 (x + y)" unfolding e by (metis t take_bit_add)
  show "int64 (x + int64 y) = int64 (x + y)" unfolding e by (metis t take_bit_add)
qed

lemma num_loop_undec: "list_all isdigit ds \<Longrightarrow> num_loop m (int64 (int a)) ds = int64 (m * int (undec a ds))"
proof (induction ds arbitrary: a)
  case (Cons d ds)
  have "int64 (int64 (int64 (int a) * 10) + int (digit_val d)) = int64 (int (a * 10 + digit_val d))" by simp
  with Cons.prems Cons.IH [of "a * 10 + digit_val d"] show ?case by auto
qed simp

lemma num_dec_int: "- (2 ^ 63) \<le> i \<Longrightarrow> i < 2 ^ 63 \<Longrightarrow> num (dec_int i) = i"
proof -
  assume b: "- (2 ^ 63) \<le> i" "i < 2 ^ 63"
  have z: "int64 0 = 0" by (simp add: int64_id)
  have n: "num_loop m 0 (dec k) = int64 (m * int k)" for m k
    using num_loop_undec [of "dec k" m 0] z by simp
  show ?thesis
  proof (cases "i < 0")
    case True
    then show ?thesis using n [of "-1" "nat (- i)"] b by (simp add: dec_int_def int64_id)
  next
    case False
    obtain c cs where c: "dec (nat i) = c # cs" by (meson dec_not_Nil neq_Nil_conv)
    then have "isdigit c" using dec_hd_digit [of "nat i"] by simp
    then have "c \<noteq> CHR ''-''" "c \<noteq> CHR ''+''" by auto
    then show ?thesis using False n [of 1 "nat i"] b c by (simp add: dec_int_def int64_id)
  qed
qed

section \<open>Items\<close>

datatype item = Leaf reply bytes | Open nat bytes | Wait | Deep | Weird

text \<open>
  The item of type \<open>ty\<close> at the front of the bytes, below \<open>d\<close> open arrays. \<open>Weird\<close> is an array whose
  number of elements is neither \<open>-1\<close> nor a non-negative \<^verbatim>\<open>int\<close>.
\<close>

definition item_of :: "nat \<Rightarrow> int \<Rightarrow> bytes \<Rightarrow> item" where
  "item_of d ty b =
     (if ty = REDIS_REPLY_ARRAY \<and> d = 8 then Deep
      else
        (case split_crlf b of
           None \<Rightarrow> Wait
         | Some (l, rest) \<Rightarrow>
             (let n = num l in
              if ty = REDIS_REPLY_INTEGER then Leaf (RInt n) rest
              else if ty = REDIS_REPLY_STATUS \<or> ty = REDIS_REPLY_ERROR then Leaf (str_reply ty l) rest
              else if ty = REDIS_REPLY_STRING then
                (if n < 0 then Leaf RNil rest
                 else if nat n + 2 \<le> length rest then Leaf (RStr (take (nat n) rest)) (drop (nat n + 2) rest)
                 else Wait)
              else if n = -1 then Leaf RNil rest
              else if n < -1 \<or> 2 ^ 31 \<le> n then Weird
              else if n = 0 then Leaf (RArr []) rest
              else Open (nat n) rest)))"

lemma item_of_append:
  "item_of d ty b = Leaf t r \<Longrightarrow> item_of d ty (b @ c) = Leaf t (r @ c)"
  "item_of d ty b = Open n r \<Longrightarrow> item_of d ty (b @ c) = Open n (r @ c)"
  "item_of d ty b = Deep \<Longrightarrow> item_of d ty (b @ c) = Deep"
  "item_of d ty b = Weird \<Longrightarrow> item_of d ty (b @ c) = Weird"
  by (auto simp: item_of_def Let_def split_crlf_append split: if_splits option.splits)

lemma item_of_shorter:
  "item_of d ty b = Leaf t r \<Longrightarrow> length r < length b"
  "item_of d ty b = Open n r \<Longrightarrow> length r < length b"
  by (auto simp: item_of_def Let_def split: if_splits option.splits dest!: split_crlf_eq)

section \<open>Parsing\<close>

text \<open>A finished element closes the arrays it completes.\<close>

fun add_in :: "frame list \<Rightarrow> reply \<Rightarrow> frame list \<times> reply option" where
  "add_in [] t = ([], Some t)"
| "add_in ((n, ts) # rs) t =
     (if Suc (length ts) = n then add_in rs (RArr (ts @ [t])) else ((n, ts @ [t]) # rs, None))"

datatype parsed = Need "frame list" "int option" bytes | Got reply bytes | Refused | Unspecified

function parse :: "frame list \<Rightarrow> int option \<Rightarrow> bytes \<Rightarrow> parsed" where
  "parse rs None [] = Need rs None []"
| "parse rs None (c # b) = (case type_of_byte c of None \<Rightarrow> Refused | Some ty \<Rightarrow> parse rs (Some ty) b)"
| "parse rs (Some ty) b =
     (case item_of (length rs) ty b of
        Wait \<Rightarrow> Need rs (Some ty) b
      | Deep \<Rightarrow> Refused
      | Weird \<Rightarrow> Unspecified
      | Open n r \<Rightarrow> parse ((n, []) # rs) None r
      | Leaf t r \<Rightarrow>
          (case add_in rs t of
             (rs', None) \<Rightarrow> parse rs' None r
           | (rs', Some t') \<Rightarrow> Got t' r))"
  by pat_completeness auto
termination
  by (relation "measure (\<lambda>(rs, ty, b). 2 * length b + (if ty = None then 1 else 0))")
    (auto dest: item_of_shorter)

lemma parse_append:
  "parse rs ty (b @ c) =
     (case parse rs ty b of
        Need rs' ty' b' \<Rightarrow> parse rs' ty' (b' @ c)
      | Got t r \<Rightarrow> Got t (r @ c)
      | Refused \<Rightarrow> Refused
      | Unspecified \<Rightarrow> Unspecified)"
proof (induction rs ty b rule: parse.induct)
  case (2 rs c b)
  then show ?case by (cases "type_of_byte c") simp_all
next
  case (3 rs ty b)
  show ?case
  proof (cases "item_of (length rs) ty b")
    case (Leaf t r)
    obtain rs' t' where a: "add_in rs t = (rs', t')" by fastforce
    show ?thesis using 3(1) [OF Leaf a [symmetric]] Leaf a
      by (cases t') (simp_all add: item_of_append)
  next
    case (Open n r)
    then show ?thesis using 3(2) [OF Open] by (simp add: item_of_append)
  qed (simp_all add: item_of_append)
qed simp

text \<open>What is left pending when the bytes run out can go on.\<close>

definition pending_ok :: "frame list \<Rightarrow> int option \<Rightarrow> bool" where
  "pending_ok rs ty \<longleftrightarrow> \<not> (ty = Some REDIS_REPLY_ARRAY \<and> length rs = 8)"

lemma parse_Need_pending: "parse rs ty b = Need rs' ty' b' \<Longrightarrow> pending_ok rs' ty'"
proof (induction rs ty b rule: parse.induct)
  case (3 rs ty b)
  then show ?case
    by (cases "item_of (length rs) ty b")
      (auto simp: pending_ok_def item_of_def split: prod.splits option.splits if_splits)
qed (auto simp: pending_ok_def split: option.splits)

lemma parse_Nil: "pending_ok rs ty \<Longrightarrow> parse rs ty [] = Need rs ty []"
  by (cases ty) (auto simp: pending_ok_def item_of_def)

section \<open>The notation of a reply\<close>

fun enc :: "reply \<Rightarrow> bytes" where
  "enc (RStr s) = CHR ''$'' # dec (length s) @ CRLF @ s @ CRLF"
| "enc (RStatus s) = CHR ''+'' # s @ CRLF"
| "enc (RErr s) = CHR ''-'' # s @ CRLF"
| "enc (RInt i) = CHR '':'' # dec_int i @ CRLF"
| "enc RNil = ''$-1'' @ CRLF"
| "enc (RArr ts) = CHR ''*'' # dec (length ts) @ CRLF @ concat (map enc ts)"
| "enc Absent = []"

text \<open>The replies that have a notation, below \<open>d\<close> open arrays.\<close>

fun reply_ok :: "nat \<Rightarrow> reply \<Rightarrow> bool" where
  "reply_ok d (RStr s) = (length s < 2 ^ 63)"
| "reply_ok d (RStatus s) = (CR \<notin> set s)"
| "reply_ok d (RErr s) = (CR \<notin> set s)"
| "reply_ok d (RInt i) = (- (2 ^ 63) \<le> i \<and> i < 2 ^ 63)"
| "reply_ok d RNil = True"
| "reply_ok d (RArr ts) = (d < 8 \<and> length ts < 2 ^ 31 \<and> (\<forall>t \<in> set ts. reply_ok (Suc d) t))"
| "reply_ok d Absent = False"

definition continue :: "frame list \<Rightarrow> reply \<Rightarrow> bytes \<Rightarrow> parsed" where
  "continue rs t b = (case add_in rs t of (rs', None) \<Rightarrow> parse rs' None b | (rs', Some t') \<Rightarrow> Got t' b)"

lemma CR_notin_dec_int [simp]: "CR \<notin> set (dec_int i)"
  by (simp add: dec_int_def)

lemma num_dec: "n < 2 ^ 63 \<Longrightarrow> num (dec n) = int n"
  using num_dec_int [of "int n"] by (simp add: dec_int_def)

lemma type_bytes [simp]:
  "type_of_byte CHR ''$'' = Some REDIS_REPLY_STRING" "type_of_byte CHR ''+'' = Some REDIS_REPLY_STATUS"
  "type_of_byte CHR ''-'' = Some REDIS_REPLY_ERROR" "type_of_byte CHR '':'' = Some REDIS_REPLY_INTEGER"
  "type_of_byte CHR ''*'' = Some REDIS_REPLY_ARRAY"
  by (simp_all add: type_of_byte_def)

lemma split_line [simp]: "CR \<notin> set l \<Longrightarrow> split_crlf (l @ CR # LF # r) = Some (l, r)"
  using split_crlf_line [of l r] by simp

lemma parse_enc:
  "reply_ok (length rs) t \<Longrightarrow> parse rs None (enc t @ b) = continue rs t b"
proof (induction t arbitrary: rs b)
  case RNil
  have "num ''-1'' = -1" "split_crlf (CHR ''-'' # CHR ''1'' # CR # LF # b) = Some (''-1'', b)"
    using split_crlf_line [of "''-1''" b] by (simp_all add: isdigit_def digit_val_def char_code_def int64_id)
  then show ?case by (simp add: item_of_def continue_def)
next
  case (RArr ts)
  have elems: "parse ((n, us) # rs) None (concat (map enc vs) @ b) = continue rs (RArr (us @ vs)) b"
    if "set vs \<subseteq> set ts" "vs \<noteq> []" "n = length us + length vs" for us vs n
    using that
  proof (induction vs arbitrary: us)
    case (Cons v vs)
    have v: "parse ((n, us) # rs) None (enc v @ concat (map enc vs) @ b) =
        continue ((n, us) # rs) v (concat (map enc vs) @ b)"
      using Cons.prems RArr.prems by (intro RArr.IH) auto
    show ?case
    proof (cases "vs = []")
      case False
      then have "Suc (length us) \<noteq> n" using Cons.prems by auto
      then show ?thesis using v Cons.IH [of "us @ [v]"] Cons.prems False by (simp add: continue_def)
    qed (use v Cons.prems in \<open>simp add: continue_def\<close>)
  qed simp
  have d: "length rs \<noteq> 8" "length ts < 2 ^ 31" using RArr.prems by auto
  show ?case
  proof (cases "ts = []")
    case False
    then show ?thesis using elems [of ts "length ts" "[]"] d by (simp add: item_of_def num_dec Let_def)
  qed (use d in \<open>simp add: item_of_def num_dec continue_def\<close>)
qed (simp_all add: item_of_def continue_def num_dec num_dec_int str_reply_def)

corollary parse_reply: "reply_ok 0 t \<Longrightarrow> parse [] None (enc t @ b) = Got t b"
  using parse_enc [of "[]" t b] by (simp add: continue_def)

end
