(* ===== verification/Reader_Refine.thy ===== *)
theory Reader_Refine
  imports Reader_Spec
begin

text \<open>
  The reader of \<open>Reader\<close> implements the parser of \<open>Reader_Spec\<close>: \<open>reading\<close> relates the buffer, the task
  stack and the object heap to the open arrays, the pending type and the unread bytes, and every item,
  the loop over the items, \<^verbatim>\<open>redisReaderGetReply\<close> and \<^verbatim>\<open>redisReaderFeed\<close> are simulated, up to
  memory that is refused. The lemmas hold for all object functions with the laws of \<open>reply_builder\<close>.
\<close>

section \<open>Lines and numbers in the buffer\<close>

lemma seek_cr_step:
  assumes "int pos < n"
  shows "rd b (s + pos) = Inr CR \<Longrightarrow> seek_cr b s n pos = Inr pos"
    and "rd b (s + pos) = Inr c \<Longrightarrow> c \<noteq> CR \<Longrightarrow> seek_cr b s n pos = seek_cr b s n (Suc pos)"
  using assms by (simp_all add: seek_cr.simps [of b s n pos])

lemma seek_cr_end: "n \<le> int pos \<Longrightarrow> seek_cr b s n pos = Inr pos"
  by (simp add: seek_cr.simps)

lemma seek_loop_spec:
  assumes "b = pre @ rest @ NUL # z" "s = length pre" "pos \<le> length rest"
  shows "seek_loop b s (int (length rest) - 1) pos = Inr (map_option (\<lambda>(l, r). pos + length l) (split_crlf (drop pos rest)))"
  using assms(3)
proof (induction "length rest - pos" arbitrary: pos rule: less_induct)
  case less
  let ?n = "int (length rest) - 1"
  have rd: "rd b (s + i) = Inr (rest ! i)" if "i < length rest" for i
    using that assms by (simp add: nth_append)
  have last: "rd b (s + length rest) = Inr NUL" using assms by (simp add: nth_append)
  show ?case
  proof (cases "int pos < ?n")
    case False
    then have "length (drop pos rest) \<le> 1" by auto
    then have "split_crlf (drop pos rest) = None"
      by (cases "drop pos rest" rule: split_crlf.cases) auto
    then show ?thesis using False by (simp add: seek_loop.simps)
  next
    case True
    then have p: "Suc pos < length rest" by auto
    have d: "drop pos rest = rest ! pos # rest ! Suc pos # drop (Suc (Suc pos)) rest" using p by (simp add: Cons_nth_drop_Suc)
    have d': "drop (Suc pos) rest = rest ! Suc pos # drop (Suc (Suc pos)) rest" using p by (simp add: Cons_nth_drop_Suc)
    have IH: "seek_loop b s ?n (Suc pos) = Inr (map_option (\<lambda>(l, r). Suc pos + length l) (split_crlf (drop (Suc pos) rest)))"
      using p by (intro less) auto
    show ?thesis
    proof (cases "rest ! pos = CR")
      case True
      then have "seek_loop b s ?n pos = (if rest ! Suc pos = LF then Inr (Some pos) else seek_loop b s ?n (Suc pos))"
        using p \<open>int pos < ?n\<close> rd [of pos] rd [of "Suc pos"]
        by (subst seek_loop.simps) (simp add: seek_cr_step)
      then show ?thesis using True IH unfolding d d' by (auto simp: option.map_comp comp_def split_def)
    next
      case False
      have cr: "seek_cr b s ?n pos = seek_cr b s ?n (Suc pos)"
        using seek_cr_step(2) [OF \<open>int pos < ?n\<close>] rd [of pos] p False by auto
      have "seek_loop b s ?n pos = seek_loop b s ?n (Suc pos)"
      proof (cases "int (Suc pos) < ?n")
        case True
        then show ?thesis using \<open>int pos < ?n\<close> cr by (subst (1 2) seek_loop.simps) simp
      next
        case False
        then have "length rest = Suc (Suc pos)" using p by auto
        note last [unfolded this]
        then show ?thesis using \<open>int pos < ?n\<close> cr rd [of "Suc pos"] p False
          by (subst (1 2) seek_loop.simps) (simp add: seek_cr_end seek_loop.simps)
      qed
      then show ?thesis using False IH unfolding d d' by (auto simp: option.map_comp comp_def split_def)
    qed
  qed
qed

lemma seekNewline_spec:
  assumes "b = pre @ rest @ NUL # z" "s = length pre" "length rest < 2 ^ 31"
  shows "seekNewline b s (length rest) = Inr (map_option (\<lambda>(l, r). length l) (split_crlf rest))"
proof -
  have "int32 (int (size64 (int (length rest) - 1))) = int (length rest) - 1"
  proof (cases "rest = []")
    case True
    then show ?thesis by (simp add: int32_def size64_def take_bit_minus_one_eq_mask mask_eq_exp_minus_1
        signed_take_bit_eq_take_bit_shift take_bit_int_def)
  next
    case False
    then show ?thesis using assms(3) by (simp add: int32_id size64_id Suc_le_eq)
  qed
  then show ?thesis using seek_loop_spec [OF assms(1,2), of 0] by (simp add: seekNewline_def)
qed

lemma digits_loop_spec: "digits_loop m v (l @ CR # r) = Inr (num_loop m v l)"
  by (induction l arbitrary: v) auto

lemma readLongLong_spec: "readLongLong (pre @ l @ CR # r) (length pre) = Inr (num l)"
proof (cases l)
  case Nil
  then show ?thesis by (simp add: readLongLong_def nth_append int64_id)
next
  case (Cons c cs)
  then show ?thesis using digits_loop_spec [of _ _ cs r] digits_loop_spec [of 1 0 l r]
    by (simp add: readLongLong_def nth_append)
qed

section \<open>The relation\<close>

definition buffer_at :: "'h redisReader \<Rightarrow> bytes \<Rightarrow> bool" where
  "buffer_at r b \<longleftrightarrow> r_err r = 0 \<and> length (r_rstack r) = 9 \<and>
     (\<exists>c z. r_buf r = Some (sds_of c z) \<and> length c + length z < 2 ^ 31 \<and> r_len r = length c \<and>
        r_pos r \<le> length c \<and> b = drop (r_pos r) c)"

text \<open>The tasks below and at the current one, innermost array first.\<close>

fun tasks_ok :: "(frame list \<Rightarrow> ptr) \<Rightarrow> redisReadTask list \<Rightarrow> frame list \<Rightarrow> bool" where
  "tasks_ok ad st [] \<longleftrightarrow> rt_parent (st ! 0) = None"
| "tasks_ok ad st ((n, ts) # rs) \<longleftrightarrow>
     rt_type (st ! length rs) = REDIS_REPLY_ARRAY \<and> rt_elements (st ! length rs) = int n \<and>
     rt_obj (st ! length rs) = ad (rev rs @ [(n, ts)]) \<and>
     rt_parent (st ! Suc (length rs)) = Some (length rs) \<and> rt_idx (st ! Suc (length rs)) = int (length ts) \<and>
     length ts < n \<and> n < 2 ^ 31 \<and> tasks_ok ad st rs"

definition reading_core :: "(frame list \<Rightarrow> ptr) \<Rightarrow> (reply \<Rightarrow> 'h \<Rightarrow> bool) \<Rightarrow> 'h redisReplyObjectFunctions \<Rightarrow>
    frame list \<Rightarrow> int option \<Rightarrow> bytes \<Rightarrow> 'h redisReader \<Rightarrow> 'h \<Rightarrow> bool" where
  "reading_core ad holds F rs ty b r h \<longleftrightarrow>
     buffer_at r b \<and> r_fn r = Some F \<and> r_ridx r = int (length rs) \<and> length rs \<le> 8 \<and>
     tasks_ok ad (r_rstack r) rs \<and> rt_type (r_rstack r ! length rs) = (case ty of None \<Rightarrow> -1 | Some t \<Rightarrow> t) \<and>
     (ty \<noteq> None \<longrightarrow> ty \<in> Some ` {REDIS_REPLY_ERROR, REDIS_REPLY_STATUS, REDIS_REPLY_INTEGER, REDIS_REPLY_STRING,
        REDIS_REPLY_ARRAY}) \<and>
     holds (plug (rev rs) Absent) h"

definition reading :: "(frame list \<Rightarrow> ptr) \<Rightarrow> (reply \<Rightarrow> 'h \<Rightarrow> bool) \<Rightarrow> 'h redisReplyObjectFunctions \<Rightarrow>
    frame list \<Rightarrow> int option \<Rightarrow> bytes \<Rightarrow> 'h redisReader \<Rightarrow> 'h \<Rightarrow> bool" where
  "reading ad holds F rs ty b r h \<longleftrightarrow>
     reading_core ad holds F rs ty b r h \<and> r_reply r = (if rs = [] then 0 else ad [(0, [])])"

definition finished_core :: "(reply \<Rightarrow> 'h \<Rightarrow> bool) \<Rightarrow> 'h redisReplyObjectFunctions \<Rightarrow>
    reply \<Rightarrow> bytes \<Rightarrow> 'h redisReader \<Rightarrow> 'h \<Rightarrow> bool" where
  "finished_core holds F t b r h \<longleftrightarrow> buffer_at r b \<and> r_fn r = Some F \<and> r_ridx r = -1 \<and> holds t h"

definition failed :: "('h \<Rightarrow> bool) \<Rightarrow> int \<Rightarrow> 'h redisReader \<Rightarrow> 'h \<Rightarrow> bool" where
  "failed gone e r h \<longleftrightarrow> r_err r = e \<and> r_buf r = None \<and> r_ridx r = -1 \<and> r_reply r = 0 \<and> gone h"

text \<open>After an element: the next one of an open array, or the whole reply.\<close>

definition placed_core :: "(frame list \<Rightarrow> ptr) \<Rightarrow> (reply \<Rightarrow> 'h \<Rightarrow> bool) \<Rightarrow> 'h redisReplyObjectFunctions \<Rightarrow>
    frame list \<times> reply option \<Rightarrow> bytes \<Rightarrow> 'h redisReader \<Rightarrow> 'h \<Rightarrow> bool" where
  "placed_core ad holds F p b r h \<longleftrightarrow>
     (case p of
        (rs, None) \<Rightarrow> rs \<noteq> [] \<and> reading_core ad holds F rs None b r h
      | (rs, Some t) \<Rightarrow> finished_core holds F t b r h)"

lemma core_reply [simp]:
  "buffer_at (r\<lparr>r_reply := q\<rparr>) b = buffer_at r b"
  "reading_core ad holds F rs ty b (r\<lparr>r_reply := q\<rparr>) h = reading_core ad holds F rs ty b r h"
  "finished_core holds F t b (r\<lparr>r_reply := q\<rparr>) h = finished_core holds F t b r h"
  "placed_core ad holds F p b (r\<lparr>r_reply := q\<rparr>) h = placed_core ad holds F p b r h"
  by (auto simp: buffer_at_def reading_core_def finished_core_def placed_core_def split: prod.split option.split)

lemma buffer_at_ridx [simp]: "buffer_at (r\<lparr>r_ridx := i\<rparr>) b = buffer_at r b"
  by (simp add: buffer_at_def)

lemma buffer_at_rstack: "length st = 9 \<Longrightarrow> buffer_at r b \<Longrightarrow> buffer_at (r\<lparr>r_rstack := st\<rparr>) b"
  by (simp add: buffer_at_def)

section \<open>Reading from the buffer\<close>

lemma buffer_split:
  assumes "buffer_at r b"
  obtains c z where "r_buf r = Some (sds_of c z)" "buf_of r = Inr (take (r_pos r) c @ b @ NUL # z)" "r_pos r \<le> length c"
    "length (take (r_pos r) c) = r_pos r" "length c + length z < 2 ^ 31" "r_len r = r_pos r + length b"
    "c = take (r_pos r) c @ b"
proof -
  obtain c z where c: "r_buf r = Some (sds_of c z)" "length c + length z < 2 ^ 31" "r_len r = length c"
    "r_pos r \<le> length c" "b = drop (r_pos r) c" using assms by (auto simp: buffer_at_def)
  show thesis by (rule that [of c z]) (use c in \<open>auto simp: buf_of_def\<close>)
qed

lemma buffer_advance:
  assumes "buffer_at r b" "k \<le> length b"
  shows "buffer_at (r\<lparr>r_pos := r_pos r + k\<rparr>) (drop k b)" "r_pos r + length b < 2 ^ 31"
proof -
  obtain c z where c: "r_err r = 0" "length (r_rstack r) = 9" "r_buf r = Some (sds_of c z)"
    "length c + length z < 2 ^ 31" "r_len r = length c" "r_pos r \<le> length c" "b = drop (r_pos r) c"
    using assms(1) by (auto simp: buffer_at_def)
  show "r_pos r + length b < 2 ^ 31" using c by simp
  show "buffer_at (r\<lparr>r_pos := r_pos r + k\<rparr>) (drop k b)"
    unfolding buffer_at_def using c assms(2)
    by (intro conjI exI [of _ c] exI [of _ z]) (simp_all add: add.commute)
qed

lemma available: "buffer_at r b \<Longrightarrow> size64 (int (r_len r) - int (r_pos r)) = length b"
  using buffer_advance(2) [of r b 0] by (auto elim!: buffer_split simp: size64_id)

lemma seek_buffer:
  assumes "buffer_at r b" "buf_of r = Inr buf"
  shows "seekNewline buf (r_pos r) (length b) = Inr (map_option (\<lambda>(l, r). length l) (split_crlf b))"
  using assms(1)
proof (rule buffer_split)
  fix c z assume "buf_of r = Inr (take (r_pos r) c @ b @ NUL # z)" "length (take (r_pos r) c) = r_pos r"
    "length c + length z < 2 ^ 31" "c = take (r_pos r) c @ b"
  moreover from this(4) have "length b \<le> length c" by (metis length_append le_add2)
  ultimately show ?thesis using assms(2) by (intro seekNewline_spec [of _ "take (r_pos r) c" b z]) auto
qed

lemma line_in_buffer:
  assumes "buffer_at r b" "buf_of r = Inr buf" "split_crlf b = Some (l, rest)"
  shows "readLongLong buf (r_pos r) = Inr (num l)"
    and "\<exists>w. drop (r_pos r) buf = l @ CRLF @ rest @ w"
proof -
  obtain c z where c: "buf_of r = Inr (take (r_pos r) c @ b @ NUL # z)" "length (take (r_pos r) c) = r_pos r"
    using buffer_split [OF assms(1)] by blast
  have b: "b = l @ CRLF @ rest" by (rule split_crlf_eq [OF assms(3)])
  show "readLongLong buf (r_pos r) = Inr (num l)"
    using readLongLong_spec [of "take (r_pos r) c" l "LF # rest @ NUL # z"] c assms(2) b by simp
  show "\<exists>w. drop (r_pos r) buf = l @ CRLF @ rest @ w" using c assms(2) b by (intro exI [of _ "NUL # z"]) auto
qed

lemma read_byte:
  assumes "buffer_at r (c # b)" "buf_of r = Inr bs"
  shows "rd bs (r_pos r) = Inr c" "buffer_at (r\<lparr>r_pos := r_pos r + 1\<rparr>) b"
    "readBytes r 1 = (Some (r_pos r), r\<lparr>r_pos := r_pos r + 1\<rparr>)" "buf_of (r\<lparr>r_pos := r_pos r + 1\<rparr>) = Inr bs"
proof -
  obtain d z where d: "buf_of r = Inr (take (r_pos r) d @ (c # b) @ NUL # z)" "length (take (r_pos r) d) = r_pos r"
    using buffer_split [OF assms(1)] by blast
  then show "rd bs (r_pos r) = Inr c" using assms(2) nth_append_length [of "take (r_pos r) d" c] by (auto simp: rd_def)
  show "buffer_at (r\<lparr>r_pos := r_pos r + 1\<rparr>) b" using buffer_advance(1) [OF assms(1), of 1] by simp
  have sz: "size64 (int (r_pos r + 1)) = r_pos r + 1"
    using buffer_advance(2) [OF assms(1), of 0] by (intro size64_nat) simp
  show "readBytes r 1 = (Some (r_pos r), r\<lparr>r_pos := r_pos r + 1\<rparr>)"
    using available [OF assms(1)] unfolding readBytes_def sz by simp
  show "buf_of (r\<lparr>r_pos := r_pos r + 1\<rparr>) = Inr bs" using assms(2) by (simp add: buf_of_def)
qed

lemma readLine_spec:
  assumes "buffer_at r b"
  shows "split_crlf b = None \<Longrightarrow> readLine r = Inr (None, r)"
    and "split_crlf b = Some (l, rest) \<Longrightarrow>
      readLine r = Inr (Some (int (length l)), r\<lparr>r_pos := r_pos r + (length l + 2)\<rparr>) \<and>
      buffer_at (r\<lparr>r_pos := r_pos r + (length l + 2)\<rparr>) rest"
proof -
  obtain buf where buf: "buf_of r = Inr buf" using buffer_split [OF assms] by blast
  note seek = seek_buffer [OF assms buf]
  show "split_crlf b = None \<Longrightarrow> readLine r = Inr (None, r)"
    by (simp add: readLine_def buf available [OF assms] seek)
  assume s: "split_crlf b = Some (l, rest)"
  then have b: "b = l @ CRLF @ rest" by (rule split_crlf_eq)
  have lt: "r_pos r + length b < 2 ^ 31" "length l + 2 \<le> length b"
    using buffer_advance [OF assms, of 0] b by auto
  have "seekNewline buf (r_pos r) (length b) = Inr (Some (length l))" using seek s by simp
  then have "readLine r = Inr (Some (int (length l)), r\<lparr>r_pos := r_pos r + (length l + 2)\<rparr>)"
    using lt by (simp add: readLine_def buf available [OF assms] int32_id size64_id nat_add_distrib)
  moreover have "drop (length l + 2) b = rest" using b by simp
  ultimately show "readLine r = Inr (Some (int (length l)), r\<lparr>r_pos := r_pos r + (length l + 2)\<rparr>) \<and>
      buffer_at (r\<lparr>r_pos := r_pos r + (length l + 2)\<rparr>) rest"
    using buffer_advance(1) [OF assms lt(2)] by metis
qed

section \<open>The next task\<close>

lemma tasks_ok_above: "length rs < i \<Longrightarrow> tasks_ok ad (st[i := x]) rs = tasks_ok ad st rs"
  by (induction rs rule: tasks_ok.induct [of _ ad st]) auto

lemma tasks_ok_top:
  assumes "tasks_ok ad st rs" "rt_parent x = rt_parent (st ! length rs)" "rt_idx x = rt_idx (st ! length rs)"
    "length rs < length st"
  shows "tasks_ok ad (st[length rs := x]) rs"
proof (cases rs)
  case (Cons f rs')
  then show ?thesis using assms by (cases f) (simp add: tasks_ok_above)
qed (use assms in simp)

lemma tasks_ok_frames: "tasks_ok ad st rs \<Longrightarrow> frames_ok (rev rs)"
  by (induction rs rule: tasks_ok.induct [of _ ad st]) auto

lemma tasks_ok_fits: "tasks_ok ad st rs \<Longrightarrow> fits ad (rev rs) st (length rs)"
  by (cases rs) (auto simp: fits_def)

lemma move_loop_ok:
  assumes "tasks_ok ad (r_rstack r) rs" "length rs < length (r_rstack r)"
    "\<And>fs n ts m us. ad (fs @ [(n, ts)]) = ad (fs @ [(m, us)])" "r_ridx r = int (length rs)"
  shows "case add_in rs t of
      (rs', Some t') \<Rightarrow> move_loop (length rs) r = Inr (r\<lparr>r_ridx := -1\<rparr>) \<and> plug (rev rs) t = t'
    | (rs', None) \<Rightarrow> rs' \<noteq> [] \<and> length rs' \<le> length rs \<and> plug (rev rs) t = plug (rev rs') Absent \<and>
        (\<exists>st. move_loop (length rs) r = Inr (r\<lparr>r_rstack := st, r_ridx := int (length rs')\<rparr>) \<and>
          length st = length (r_rstack r) \<and> tasks_ok ad st rs' \<and> rt_type (st ! length rs') = -1)"
  using assms(1,2,4)
proof (induction rs arbitrary: r t)
  case (Cons f rs)
  obtain n ts where f: "f = (n, ts)" by fastforce
  note p = Cons.prems [unfolded f tasks_ok.simps]
  show ?case
  proof (cases "Suc (length ts) = n")
    case True
    have "move_loop (Suc (length rs)) r = move_loop (length rs) (r\<lparr>r_ridx := int (length rs)\<rparr>)"
      using p True by (auto simp: rd_def)
    moreover have "n - Suc (length ts) = 0" using True by simp
    ultimately show ?thesis
      using Cons.IH [of "r\<lparr>r_ridx := int (length rs)\<rparr>" "RArr (ts @ [t])"] p True f
      by (auto split: prod.splits option.splits)
  next
    case False
    let ?cur = "r_rstack r ! Suc (length rs)"
    let ?st = "(r_rstack r)[Suc (length rs) := ?cur\<lparr>rt_type := -1, rt_elements := -1, rt_idx := rt_idx ?cur + 1\<rparr>]"
    have m: "move_loop (Suc (length rs)) r = Inr (r\<lparr>r_rstack := ?st\<rparr>)"
      using p False by (auto simp: rd_def)
    have "tasks_ok ad ?st ((n, ts @ [t]) # rs)"
      using p False assms(3) [of "rev rs" n ts n "ts @ [t]"] by (simp add: tasks_ok_above)
    moreover have "n - Suc (length ts) = Suc (n - Suc (Suc (length ts)))" using p False by auto
    ultimately show ?thesis using False f m p(2,3)
      by (auto simp: intro!: exI [of _ ?st])
  qed
qed simp

section \<open>Items\<close>

definition functions_of ::
    "(redisReadTask list \<Rightarrow> nat \<Rightarrow> bytes \<Rightarrow> nat \<Rightarrow> 'h \<Rightarrow> (ptr \<times> 'h) c_res) \<Rightarrow>
     (redisReadTask list \<Rightarrow> nat \<Rightarrow> int \<Rightarrow> 'h \<Rightarrow> (ptr \<times> 'h) c_res) \<Rightarrow>
     (redisReadTask list \<Rightarrow> nat \<Rightarrow> int \<Rightarrow> 'h \<Rightarrow> (ptr \<times> 'h) c_res) \<Rightarrow>
     (redisReadTask list \<Rightarrow> nat \<Rightarrow> 'h \<Rightarrow> (ptr \<times> 'h) c_res) \<Rightarrow>
     (ptr \<Rightarrow> 'h \<Rightarrow> 'h c_res) \<Rightarrow> 'h redisReplyObjectFunctions" where
  "functions_of cs ca ci cn fr =
     \<lparr>fn_createString = Some cs, fn_createArray = Some ca, fn_createInteger = Some ci, fn_createNil = Some cn,
      fn_freeObject = Some fr\<rparr>"

definition placed :: "(frame list \<Rightarrow> ptr) \<Rightarrow> (reply \<Rightarrow> 'h \<Rightarrow> bool) \<Rightarrow> 'h redisReplyObjectFunctions \<Rightarrow>
    frame list \<times> reply option \<Rightarrow> bytes \<Rightarrow> 'h redisReader \<Rightarrow> 'h \<Rightarrow> bool" where
  "placed ad holds F p b r h \<longleftrightarrow> placed_core ad holds F p b r h \<and> r_reply r = ad [(0, [])]"

definition oom :: "bool \<Rightarrow> ('h \<Rightarrow> bool) \<Rightarrow> (int \<times> 'h redisReader \<times> 'h) c_res \<Rightarrow> bool" where
  "oom grants gone res \<longleftrightarrow> \<not> grants \<and> (\<exists>r h. res = Inr (REDIS_ERR, r, h) \<and> failed gone REDIS_ERR_OOM r h)"

definition item_sim :: "(frame list \<Rightarrow> ptr) \<Rightarrow> (reply \<Rightarrow> 'h \<Rightarrow> bool) \<Rightarrow> ('h \<Rightarrow> bool) \<Rightarrow> bool \<Rightarrow> 'h redisReplyObjectFunctions \<Rightarrow>
    frame list \<Rightarrow> item \<Rightarrow> 'h redisReader \<Rightarrow> 'h \<Rightarrow> (int \<times> 'h redisReader \<times> 'h) c_res \<Rightarrow> bool" where
  "item_sim ad holds gone grants F rs i r h res \<longleftrightarrow>
     (case i of
        Wait \<Rightarrow> res = Inr (REDIS_ERR, r, h)
      | Weird \<Rightarrow> True
      | Deep \<Rightarrow> (\<exists>r' h'. res = Inr (REDIS_ERR, r', h') \<and> failed gone REDIS_ERR_PROTOCOL r' h')
      | Open n b \<Rightarrow> (\<exists>r' h'. res = Inr (REDIS_OK, r', h') \<and> reading ad holds F ((n, []) # rs) None b r' h')
      | Leaf t b \<Rightarrow> (\<exists>r' h'. res = Inr (REDIS_OK, r', h') \<and> placed ad holds F (add_in rs t) b r' h'))
     \<or> oom grants gone res"

lemma num_loop_bounds: "- (2 ^ 63) \<le> num_loop m v l" "num_loop m v l < 2 ^ 63"
proof -
  have b: "- (2 ^ 63) \<le> int64 x" "int64 x < 2 ^ 63" for x
    using signed_take_bit_int_greater_eq_minus_exp [of 63 x] signed_take_bit_int_less_exp [of 63 x]
    by (simp_all add: int64_def)
  have "- (2 ^ 63) \<le> num_loop m v l \<and> num_loop m v l < 2 ^ 63"
    by (induction l arbitrary: v) (use b in auto)
  then show "- (2 ^ 63) \<le> num_loop m v l" "num_loop m v l < 2 ^ 63" by auto
qed

lemma num_bound: "num l < 2 ^ 63"
  using num_loop_bounds(2) by (cases l) (simp_all del: num_loop.simps)

lemma bulk_room:
  assumes "p + q + 2 < 2 ^ 31" "0 \<le> n" "n < 2 ^ 63"
  shows "size64 (int (q + 2) + int64 (n + 2)) = q + 2 + (nat n + 2)"
    "size64 (int (p + (q + 2 + (nat n + 2)))) = p + (q + 2 + (nat n + 2))"
proof -
  have "take_bit 64 (int (q + 2) + int64 (n + 2)) = take_bit 64 (int (q + 2) + (n + 2))"
    by (metis int64_def take_bit_add take_bit_signed_take_bit eval_nat_numeral(2) order_refl semiring_norm(26,27,28))
  also have "\<dots> = int (q + 2) + (n + 2)" using assms by (intro take_bit_int_eq_self) auto
  finally show "size64 (int (q + 2) + int64 (n + 2)) = q + 2 + (nat n + 2)" using assms(2) by (simp add: size64_def)
  show "size64 (int (p + (q + 2 + (nat n + 2)))) = p + (q + 2 + (nat n + 2))"
    using assms by (intro size64_nat) simp
qed

text \<open>The states between calls, and what the loop over the items leads to.\<close>

definition at_rest :: "(frame list \<Rightarrow> ptr) \<Rightarrow> (reply \<Rightarrow> 'h \<Rightarrow> bool) \<Rightarrow> 'h redisReplyObjectFunctions \<Rightarrow>
    frame list \<Rightarrow> int option \<Rightarrow> bytes \<Rightarrow> 'h redisReader \<Rightarrow> 'h \<Rightarrow> bool" where
  "at_rest ad holds F rs ty b r h \<longleftrightarrow> pending_ok rs ty \<and> r_pos r < 1024 \<and>
     (rs = [] \<and> ty = None \<and> buffer_at r b \<and> r_fn r = Some F \<and> r_ridx r = -1 \<and> r_reply r = 0 \<and> holds Absent h \<or>
      reading ad holds F rs ty b r h)"

definition loop_sim :: "(frame list \<Rightarrow> ptr) \<Rightarrow> (reply \<Rightarrow> 'h \<Rightarrow> bool) \<Rightarrow> ('h \<Rightarrow> bool) \<Rightarrow> bool \<Rightarrow> 'h redisReplyObjectFunctions \<Rightarrow>
    parsed \<Rightarrow> ('h redisReader \<times> 'h) c_res \<Rightarrow> bool" where
  "loop_sim ad holds gone grants F out res \<longleftrightarrow>
     (case out of
        Need rs ty b \<Rightarrow> (\<exists>r h. res = Inr (r, h) \<and> reading ad holds F rs ty b r h)
      | Got t b \<Rightarrow> (\<exists>r h. res = Inr (r, h) \<and> finished_core holds F t b r h \<and> r_reply r = ad [(0, [])])
      | Refused \<Rightarrow> (\<exists>r h. res = Inr (r, h) \<and> failed gone REDIS_ERR_PROTOCOL r h)
      | Unspecified \<Rightarrow> True)
     \<or> \<not> grants \<and> (\<exists>r h. res = Inr (r, h) \<and> failed gone REDIS_ERR_OOM r h)"

lemma reading_buffer:
  assumes "reading ad holds F rs ty b r h" "buffer_at r' b'" "r_fn r' = r_fn r" "r_ridx r' = r_ridx r"
    "r_rstack r' = r_rstack r" "r_reply r' = r_reply r"
  shows "reading ad holds F rs ty b' r' h"
  using assms by (simp add: reading_def reading_core_def)

lemma trim_buffer:
  assumes "buffer_at r b"
  shows "\<exists>r'. (if 1024 \<le> r_pos r then
        (case r_buf r of
           None \<Rightarrow> Inl NullDeref
         | Some s \<Rightarrow> bind_c (sdsrange s (int32 (int (r_pos r))) (-1)) (\<lambda>s.
             Inr (r\<lparr>r_buf := Some s, r_pos := 0, r_len := sdslen s\<rparr>)))
      else Inr r) = Inr r' \<and> buffer_at r' b \<and> r_pos r' < 1024 \<and> r_fn r' = r_fn r \<and> r_ridx r' = r_ridx r \<and>
      r_rstack r' = r_rstack r \<and> r_reply r' = r_reply r"
proof (cases "1024 \<le> r_pos r")
  case True
  obtain c z where c: "r_buf r = Some (sds_of c z)" "length c + length z < 2 ^ 31" "r_len r = length c"
    "r_pos r \<le> length c" "b = drop (r_pos r) c" "r_err r = 0" "length (r_rstack r) = 9"
    using assms by (auto simp: buffer_at_def)
  have rs: "range_spec (int (r_pos r)) (-1) c = b"
    using c(4,5) True by (auto simp: range_spec_def Let_def max_def nat_diff_distrib)
  have i: "int32 (int (r_pos r)) = int (r_pos r)" using c by (intro int32_id) auto
  obtain z' where z': "sdsrange (sds_of c z) (int (r_pos r)) (-1) = Inr (sds_of b z')" "length b + length z' = length c + length z"
    using sdsrange_of [OF c(2), of "int (r_pos r)" "-1"] c rs by auto
  let ?r = "r\<lparr>r_buf := Some (sds_of b z'), r_pos := 0, r_len := length b\<rparr>"
  have "buffer_at ?r b" unfolding buffer_at_def using c z' by auto
  moreover have "sdslen (sds_of b z') = length b" using z' c by (intro sdslen_of) auto
  ultimately show ?thesis using True c(1) z'(1) i by auto
qed (use assms in simp)

context reply_builder
begin

lemmas laws = addr_law addr_nonzero

lemma next_ok:
  assumes "reading_core (addr h0) (holds h0) F rs (Some ty) b r h" "holds h0 (plug (rev rs) t) h'"
    "buffer_at r' b'" "r_rstack r' = r_rstack r" "r_ridx r' = r_ridx r" "r_fn r' = r_fn r"
  shows "\<exists>r''. moveToNextTask r' = Inr r'' \<and> r_reply r'' = r_reply r' \<and>
    placed_core (addr h0) (holds h0) F (add_in rs t) b' r'' h'"
proof -
  have c: "tasks_ok (addr h0) (r_rstack r') rs" "length rs < length (r_rstack r')" "r_ridx r' = int (length rs)"
    "r_fn r' = Some F" "length rs \<le> 8" "length (r_rstack r') = 9"
    using assms by (auto simp: reading_core_def buffer_at_def)
  obtain rs' o' where a: "add_in rs t = (rs', o')" by fastforce
  note m = move_loop_ok [OF c(1,2) addr_law c(3), of t, unfolded a]
  show ?thesis
  proof (cases o')
    case None
    with m obtain st where st: "rs' \<noteq> []" "length rs' \<le> length rs" "plug (rev rs) t = plug (rev rs') Absent"
      "move_loop (length rs) r' = Inr (r'\<lparr>r_rstack := st, r_ridx := int (length rs')\<rparr>)"
      "length st = 9" "tasks_ok (addr h0) st rs'" "rt_type (st ! length rs') = -1"
      using c(6) by auto
    then have "reading_core (addr h0) (holds h0) F rs' None b' (r'\<lparr>r_rstack := st, r_ridx := int (length rs')\<rparr>) h'"
      using assms(2,3) c buffer_at_rstack [of st r' b'] by (simp add: reading_core_def)
    with st(1,4) None a show ?thesis using c(3) by (simp add: moveToNextTask_def placed_core_def)
  next
    case (Some t')
    with m assms(2,3) c(3,4) a show ?thesis
      by (simp add: moveToNextTask_def placed_core_def finished_core_def)
  qed
qed

lemma set_error_ok:
  assumes "r_fn r = Some F" "fn_freeObject F = Some fr" "r_reply r = (if rs = [] then 0 else addr h0 [(0, [])])"
    "torn h0 (plug (rev rs) Absent) h" "r_buf r \<noteq> None"
  shows "\<exists>r' h'. redisReaderSetError r e str h = Inr (r', h') \<and> failed (gone h0) e r' h'"
proof (cases "rs = []")
  case True
  then show ?thesis using assms torn_gone [of h0 h] by (simp add: redisReaderSetError_def failed_def)
next
  case False
  then have "plug (rev rs) Absent \<noteq> Absent" by simp
  from fr_law [OF assms(4) this] obtain h' where "fr (addr h0 [(0, [])]) h = Inr h'" "gone h0 h'" by blast
  then show ?thesis using assms False addr_nonzero [of h0 "[]" "(0, [])"]
    by (simp add: redisReaderSetError_def failed_def)
qed

lemma item_done_ok:
  assumes "reading (addr h0) (holds h0) F rs (Some ty) b r h" "fn_freeObject F = Some fr"
    "created (holds h0) (torn h0) grants (addr h0) (rev rs) t res"
    "buffer_at (r\<lparr>r_pos := p\<rparr>) b'"
    "\<And>h'. k (0, h') = item_done (r\<lparr>r_pos := q\<rparr>) 0 h'"
    "\<And>obj h'. obj \<noteq> 0 \<Longrightarrow> k (obj, h') = item_done (r\<lparr>r_pos := p\<rparr>) obj h'"
  shows "item_sim (addr h0) (holds h0) (gone h0) grants F rs (Leaf t b') r h (bind_c res k)"
  using assms(3) unfolding created_def
proof (elim disjE exE conjE)
  have core: "reading_core (addr h0) (holds h0) F rs (Some ty) b r h"
    and reply: "r_reply r = (if rs = [] then 0 else addr h0 [(0, [])])" and fn: "r_fn r = Some F"
    and ridx: "r_ridx r = int (length rs)" and buf: "r_buf r \<noteq> None"
    using assms(1) by (auto simp: reading_def reading_core_def buffer_at_def)
  { fix h' assume h': "res = Inr (addr h0 (rev rs @ [(0, [])]), h')" "holds h0 (plug (rev rs) t) h'"
      "addr h0 (rev rs @ [(0, [])]) \<noteq> 0"
    define r1 where "r1 = (if r_ridx r = 0 then r\<lparr>r_pos := p, r_reply := addr h0 (rev rs @ [(0, [])])\<rparr> else r\<lparr>r_pos := p\<rparr>)"
    have r1: "buffer_at r1 b'" "r_rstack r1 = r_rstack r" "r_ridx r1 = r_ridx r" "r_fn r1 = r_fn r"
      "r_reply r1 = addr h0 [(0, [])]"
      using assms(4) reply ridx by (auto simp: r1_def)
    from next_ok [OF core h'(2) r1(1-4)] obtain r'' where r'': "moveToNextTask r1 = Inr r''" "r_reply r'' = r_reply r1"
      "placed_core (addr h0) (holds h0) F (add_in rs t) b' r'' h'" by auto
    have "k (addr h0 (rev rs @ [(0, [])]), h') = bind_c (moveToNextTask r1) (\<lambda>r. Inr (REDIS_OK, r, h'))"
      using assms(6) [OF h'(3), of h'] h'(3) by (simp add: item_done_def r1_def)
    then show ?thesis using r'' r1(5) h'(1) by (simp add: item_sim_def placed_def) }
  { fix h' assume h': "\<not> grants" "res = Inr (0, h')" "torn h0 (plug (rev rs) Absent) h'"
    from set_error_ok [of "r\<lparr>r_pos := q\<rparr>" F rs h0 h' REDIS_ERR_OOM "''Out of memory''"] fn assms(2) reply h'(3) buf
    show ?thesis using h'(1,2) assms(5) [of h']
      by (auto simp: item_sim_def oom_def item_done_def redisReaderSetErrorOOM_def) }
qed

lemma callback_ready:
  assumes "reading ad holds' F rs (Some ty) b r h"
  shows "frames_ok (rev rs)" "holds' (plug (rev rs) Absent) h" "fits ad (rev rs) (r_rstack r) (length rs)"
    "rt_type (r_rstack r ! length rs) = ty" "r_fn r = Some F" "nat (r_ridx r) = length rs" "length rs < length (r_rstack r)"
    "buffer_at r b"
  using assms tasks_ok_frames tasks_ok_fits by (auto simp: reading_def reading_core_def buffer_at_def)

abbreviation "F \<equiv> functions_of cs ca ci cn fr"

lemma processLineItem_sim:
  assumes R: "reading (addr h0) (holds h0) F rs (Some ty) b r h"
    and ty: "ty \<in> {REDIS_REPLY_ERROR, REDIS_REPLY_STATUS, REDIS_REPLY_INTEGER}"
  shows "item_sim (addr h0) (holds h0) (gone h0) grants F rs (item_of (length rs) ty b) r h (processLineItem r h)"
proof -
  note c = callback_ready [OF R]
  obtain buf where buf: "buf_of r = Inr buf" using buffer_split [OF c(8)] by blast
  show ?thesis
  proof (cases "split_crlf b")
    case None
    then show ?thesis using ty c buf readLine_spec(1) [OF c(8) None]
      by (auto simp: item_sim_def item_of_def processLineItem_def)
  next
    case (Some lr)
    obtain l rest where s: "split_crlf b = Some (l, rest)" using Some by (cases lr) auto
    note line = readLine_spec(2) [OF c(8) s] and num = line_in_buffer(1) [OF c(8) buf s]
    obtain w where w: "drop (r_pos r) buf = l @ CRLF @ rest @ w" using line_in_buffer(2) [OF c(8) buf s] by blast
    have len: "size64 (int (length l)) = length l"
      using buffer_advance(2) [OF c(8), of 0] split_crlf_eq [OF s] by auto
    let ?p = "r_pos r + (length l + 2)"
    show ?thesis
    proof (cases "ty = REDIS_REPLY_INTEGER")
      case True
      have "created (holds h0) (torn h0) grants (addr h0) (rev rs) (RInt (num l)) (ci (r_rstack r) (length rs) (num l) h)"
        using c by (intro ci_law) auto
      from item_done_ok [OF R _ this conjunct2 [OF line], of "\<lambda>(obj, h). item_done (r\<lparr>r_pos := ?p\<rparr>) obj h" ?p]
      show ?thesis using True c buf conjunct1 [OF line] num s
        by (simp add: processLineItem_def call_fn_def functions_of_def item_of_def Let_def)
    next
      case False
      have "created (holds h0) (torn h0) grants (addr h0) (rev rs) (str_reply (rt_type (r_rstack r ! length rs)) (take (length l) (drop (r_pos r) buf)))
          (cs (r_rstack r) (length rs) (drop (r_pos r) buf) (length l) h)"
        using c ty False by (intro cs_law) (auto simp: w)
      then have "created (holds h0) (torn h0) grants (addr h0) (rev rs) (str_reply ty l)
          (cs (r_rstack r) (length rs) (drop (r_pos r) buf) (length l) h)" using c by (simp add: w)
      from item_done_ok [OF R _ this conjunct2 [OF line], of "\<lambda>(obj, h). item_done (r\<lparr>r_pos := ?p\<rparr>) obj h" ?p]
      show ?thesis using False ty c buf conjunct1 [OF line] s len
        by (auto simp: processLineItem_def call_fn_def functions_of_def item_of_def Let_def)
    qed
  qed
qed

lemma processBulkItem_sim:
  assumes R: "reading (addr h0) (holds h0) F rs (Some REDIS_REPLY_STRING) b r h"
  shows "item_sim (addr h0) (holds h0) (gone h0) grants F rs (item_of (length rs) REDIS_REPLY_STRING b) r h (processBulkItem r h)"
proof -
  note c = callback_ready [OF R]
  obtain buf where buf: "buf_of r = Inr buf" using buffer_split [OF c(8)] by blast
  note seek = seek_buffer [OF c(8) buf] and av = available [OF c(8)]
  show ?thesis
  proof (cases "split_crlf b")
    case None
    then show ?thesis using c buf seek av by (simp add: item_sim_def item_of_def processBulkItem_def)
  next
    case (Some lr)
    obtain l rest where s: "split_crlf b = Some (l, rest)" using Some by (cases lr) auto
    note num = line_in_buffer(1) [OF c(8) buf s]
    obtain w where w: "drop (r_pos r) buf = l @ CRLF @ rest @ w" using line_in_buffer(2) [OF c(8) buf s] by blast
    have b: "b = l @ CRLF @ rest" by (rule split_crlf_eq [OF s])
    have lt: "r_pos r + length l + 2 + length rest < 2 ^ 31" using buffer_advance(2) [OF c(8), of 0] b by simp
    have rl: "r_len r = r_pos r + (length l + 2 + length rest)" using buffer_split [OF c(8)] b by (metis add.assoc length_append length_Cons list.size(3) One_nat_def add_Suc_right numeral_2_eq_2 add_0_right)
    let ?bl = "length l + 2 + (nat (num l) + 2)" and ?p = "r_pos r + (length l + 2)"
    have seek': "seekNewline buf (r_pos r) (length b) = Inr (Some (length l))" using seek s by simp
    show ?thesis
    proof (cases "num l < 0")
      case True
      let ?k = "\<lambda>(obj, h). if obj = 0 then item_done r obj h else item_done (r\<lparr>r_pos := ?p\<rparr>) obj h"
      have 1: "created (holds h0) (torn h0) grants (addr h0) (rev rs) RNil (cn (r_rstack r) (length rs) h)"
        using c by (intro cn_law) auto
      have 2: "buffer_at (r\<lparr>r_pos := ?p\<rparr>) rest" using buffer_advance(1) [OF c(8), of "length l + 2"] b by simp
      have sz: "size64 (int ?p) = ?p" using lt by (intro size64_nat) simp
      have "processBulkItem r h = bind_c (cn (r_rstack r) (length rs) h) ?k"
        unfolding processBulkItem_def buf bind_c_simps av seek' Let_def num option.case sz using True c
        by (simp add: call_fn_def functions_of_def)
      moreover have "item_of (length rs) REDIS_REPLY_STRING b = Leaf RNil rest" using True s by (simp add: item_of_def)
      ultimately show ?thesis using item_done_ok [OF R _ 1 2, of ?k "r_pos r"] by (simp add: functions_of_def)
    next
      case False
      note room = bulk_room [of "r_pos r" "length l" "num l"]
      have r1: "size64 (int (length l + 2) + int64 (num l + 2)) = ?bl" "size64 (int (r_pos r + ?bl)) = r_pos r + ?bl"
        using False lt num_bound [of l] by (intro room; simp)+
      show ?thesis
      proof (cases "nat (num l) + 2 \<le> length rest")
        case True
        let ?k = "\<lambda>(obj, h). if obj = 0 then item_done r obj h else item_done (r\<lparr>r_pos := r_pos r + ?bl\<rparr>) obj h"
        have d: "drop (r_pos r + length l + 2) buf = rest @ w"
        proof -
          have "drop (r_pos r + length l + 2) buf = drop (length l + 2) (drop (r_pos r) buf)" by (simp add: add_ac)
          then show ?thesis using w by simp
        qed
        have "created (holds h0) (torn h0) grants (addr h0) (rev rs)
            (str_reply (rt_type (r_rstack r ! length rs)) (take (nat (num l)) (drop (r_pos r + length l + 2) buf)))
            (cs (r_rstack r) (length rs) (drop (r_pos r + length l + 2) buf) (nat (num l)) h)"
          using c True d by (intro cs_law) auto
        then have 1: "created (holds h0) (torn h0) grants (addr h0) (rev rs) (RStr (take (nat (num l)) rest))
            (cs (r_rstack r) (length rs) (drop (r_pos r + length l + 2) buf) (nat (num l)) h)"
          using c(4) True d by (simp add: str_reply_def)
        have 2: "buffer_at (r\<lparr>r_pos := r_pos r + ?bl\<rparr>) (drop (nat (num l) + 2) rest)"
        proof -
          have "drop ?bl b = drop (nat (num l) + 2) (drop (length l + 2) b)" by (simp add: add_ac)
          also have "\<dots> = drop (nat (num l) + 2) rest" using b by simp
          finally show ?thesis using buffer_advance(1) [OF c(8), of ?bl] True b by simp
        qed
        have "processBulkItem r h = bind_c (cs (r_rstack r) (length rs) (drop (r_pos r + length l + 2) buf) (nat (num l)) h) ?k"
          unfolding processBulkItem_def buf bind_c_simps av seek' Let_def num option.case r1 unfolding rl r1
          using False True c by (simp add: call_fn_def functions_of_def)
        moreover have "item_of (length rs) REDIS_REPLY_STRING b = Leaf (RStr (take (nat (num l)) rest)) (drop (nat (num l) + 2) rest)"
          using False True s by (simp add: item_of_def Let_def)
        ultimately show ?thesis using item_done_ok [OF R _ 1 2, of ?k "r_pos r"] by (simp add: functions_of_def)
      next
        case no_room: False
        have "processBulkItem r h = Inr (REDIS_ERR, r, h)"
          unfolding processBulkItem_def buf bind_c_simps av seek' Let_def num option.case r1 unfolding rl r1
          using False no_room by simp
        then show ?thesis using False no_room s by (simp add: item_sim_def item_of_def Let_def)
      qed
    qed
  qed
qed

text \<open>In \<^verbatim>\<open>processMultiBulkItem\<close> the root is stored after the next task has been found.\<close>

lemma multi_done_ok:
  assumes "reading (addr h0) (holds h0) F rs (Some ty) b r h" "fn_freeObject F = Some fr"
    "created (holds h0) (torn h0) grants (addr h0) (rev rs) t res"
    "buffer_at (r\<lparr>r_pos := p\<rparr>) b'"
    "\<And>h'. k (0, h') = bind_c (redisReaderSetErrorOOM (r\<lparr>r_pos := p\<rparr>) h') (\<lambda>(r, h). Inr (REDIS_ERR, r, h))"
    "\<And>obj h'. obj \<noteq> 0 \<Longrightarrow> k (obj, h') = bind_c (moveToNextTask (r\<lparr>r_pos := p\<rparr>))
       (\<lambda>r'. Inr (REDIS_OK, (if r_ridx r = 0 then r'\<lparr>r_reply := obj\<rparr> else r'), h'))"
  shows "item_sim (addr h0) (holds h0) (gone h0) grants F rs (Leaf t b') r h (bind_c res k)"
  using assms(3) unfolding created_def
proof (elim disjE exE conjE)
  have core: "reading_core (addr h0) (holds h0) F rs (Some ty) b r h"
    and reply: "r_reply r = (if rs = [] then 0 else addr h0 [(0, [])])" and fn: "r_fn r = Some F"
    and ridx: "r_ridx r = int (length rs)" and buf: "r_buf r \<noteq> None"
    using assms(1) by (auto simp: reading_def reading_core_def buffer_at_def)
  { fix h' assume h': "res = Inr (addr h0 (rev rs @ [(0, [])]), h')" "holds h0 (plug (rev rs) t) h'"
      "addr h0 (rev rs @ [(0, [])]) \<noteq> 0"
    from next_ok [OF core h'(2) assms(4)] obtain r'' where r'': "moveToNextTask (r\<lparr>r_pos := p\<rparr>) = Inr r''" "r_reply r'' = r_reply r"
      "placed_core (addr h0) (holds h0) F (add_in rs t) b' r'' h'" by auto
    then show ?thesis using assms(6) [OF h'(3), of h'] h'(1) reply ridx
      by (auto simp: item_sim_def placed_def) }
  { fix h' assume h': "\<not> grants" "res = Inr (0, h')" "torn h0 (plug (rev rs) Absent) h'"
    from set_error_ok [of "r\<lparr>r_pos := p\<rparr>" F rs h0 h' REDIS_ERR_OOM "''Out of memory''"] fn assms(2) reply h'(3) buf
    show ?thesis using h'(1,2) assms(5) [of h']
      by (auto simp: item_sim_def oom_def redisReaderSetErrorOOM_def) }
qed

lemma open_ok:
  assumes R: "reading (addr h0) (holds h0) F rs (Some REDIS_REPLY_ARRAY) b r h" and n: "0 < n" "n < 2 ^ 31"
    and d: "length rs \<noteq> 8" and b: "buffer_at (r\<lparr>r_pos := p\<rparr>) b'"
    and h': "holds h0 (plug (rev rs) (RArr (replicate n Absent))) h'"
  shows "\<exists>r'. push_task (r\<lparr>r_pos := p\<rparr>) (length rs) (int n) (addr h0 (rev rs @ [(0, [])])) = Inr r' \<and>
    reading (addr h0) (holds h0) F ((n, []) # rs) None b'
      (if r_ridx r = 0 then r'\<lparr>r_reply := addr h0 (rev rs @ [(0, [])])\<rparr> else r') h'"
proof -
  let ?obj = "addr h0 (rev rs @ [(0, [])])" and ?cur = "r_rstack r ! length rs"
  let ?new = "\<lparr>rt_type = -1, rt_elements = -1, rt_idx = 0, rt_obj = 0, rt_parent = Some (length rs), rt_privdata = r_privdata r\<rparr>"
  define st where "st = (r_rstack r)[length rs := ?cur\<lparr>rt_elements := int n, rt_obj := ?obj\<rparr>, Suc (length rs) := ?new]"
  let ?r = "r\<lparr>r_pos := p, r_rstack := st, r_ridx := r_ridx r + 1\<rparr>"
  have c: "tasks_ok (addr h0) (r_rstack r) rs" "length (r_rstack r) = 9" "r_ridx r = int (length rs)" "length rs < 8"
    "r_fn r = Some F" "rt_type ?cur = REDIS_REPLY_ARRAY" "r_reply r = (if rs = [] then 0 else addr h0 [(0, [])])"
    using R d by (auto simp: reading_def reading_core_def buffer_at_def)
  have push: "push_task (r\<lparr>r_pos := p\<rparr>) (length rs) (int n) ?obj = Inr ?r"
    using c n by (simp add: push_task_def int32_id st_def)
  have t: "tasks_ok (addr h0) st ((n, []) # rs)"
    using c n addr_law [of h0 "rev rs" 0 "[]" n "[]"] tasks_ok_top [OF c(1), of "?cur\<lparr>rt_elements := int n, rt_obj := ?obj\<rparr>"]
    by (simp add: tasks_ok_above st_def)
  have st: "length st = 9" "rt_type (st ! Suc (length rs)) = -1" using c by (simp_all add: st_def)
  have "RArr (replicate n Absent) = plug [(n, [])] Absent" using n by (cases n) simp_all
  then have "holds h0 (plug (rev ((n, []) # rs)) Absent) h'" using h' by simp
  then have "reading_core (addr h0) (holds h0) F ((n, []) # rs) None b' ?r h'"
    using b c t st buffer_at_rstack [of st "r\<lparr>r_pos := p\<rparr>" b'] by (simp add: reading_core_def del: tasks_ok.simps)
  then show ?thesis using push c by (auto simp: reading_def)
qed

lemma processMultiBulkItem_sim:
  assumes R: "reading (addr h0) (holds h0) F rs (Some REDIS_REPLY_ARRAY) b r h"
  shows "item_sim (addr h0) (holds h0) (gone h0) grants F rs (item_of (length rs) REDIS_REPLY_ARRAY b) r h (processMultiBulkItem r h)"
proof (cases "length rs = 8")
  case True
  note c = callback_ready [OF R]
  have r: "r_ridx r = 8" "r_reply r = (if rs = [] then 0 else addr h0 [(0, [])])" "r_buf r \<noteq> None"
    using R True by (auto simp: reading_def reading_core_def buffer_at_def)
  have "fn_freeObject F = Some fr" by (simp add: functions_of_def)
  from set_error_ok [OF c(5) this r(2) holds_torn [OF c(2)] r(3)] obtain r' h' where
    "redisReaderSetError r REDIS_ERR_PROTOCOL ''No support for nested multi bulk replies with depth > 7'' h = Inr (r', h')"
    "failed (gone h0) REDIS_ERR_PROTOCOL r' h'" by blast
  then show ?thesis using True r(1) by (auto simp: item_sim_def item_of_def processMultiBulkItem_def)
next
  case False
  note c = callback_ready [OF R]
  have ridx: "r_ridx r \<noteq> 8" using R False by (auto simp: reading_def reading_core_def)
  obtain buf where buf: "buf_of r = Inr buf" using buffer_split [OF c(8)] by blast
  show ?thesis
  proof (cases "split_crlf b")
    case None
    then show ?thesis using False ridx c buf readLine_spec(1) [OF c(8) None]
      by (auto simp: item_sim_def item_of_def processMultiBulkItem_def)
  next
    case (Some lr)
    obtain l rest where s: "split_crlf b = Some (l, rest)" using Some by (cases lr) auto
    note line = readLine_spec(2) [OF c(8) s] and num = line_in_buffer(1) [OF c(8) buf s]
    let ?p = "r_pos r + (length l + 2)" and ?n = "nat (num l)"
    let ?r = "r\<lparr>r_pos := ?p\<rparr>"
    let ?fin = "\<lambda>r' obj h. Inr (REDIS_OK, (if r_ridx r = 0 then r'\<lparr>r_reply := obj\<rparr> else r'), h)"
    let ?oom = "\<lambda>h. bind_c (redisReaderSetErrorOOM ?r h) (\<lambda>(r, h). Inr (REDIS_ERR, r, h))"
    note unf = processMultiBulkItem_def Let_def if_not_P [OF ridx] buf bind_c_simps conjunct1 [OF line] prod.case option.case num
    consider (nil) "num l = -1" | (weird) "num l < -1 \<or> 2 ^ 31 \<le> num l" | (empty) "num l = 0" | (full) "0 < num l" "num l < 2 ^ 31"
      by linarith
    then show ?thesis
    proof cases
      case nil
      let ?k = "\<lambda>(obj, h). if obj = 0 then ?oom h else bind_c (moveToNextTask ?r) (\<lambda>r. ?fin r obj h)"
      have 1: "created (holds h0) (torn h0) grants (addr h0) (rev rs) RNil (cn (r_rstack r) (length rs) h)"
        using c by (intro cn_law) auto
      have "processMultiBulkItem r h = bind_c (cn (r_rstack r) (length rs) h) ?k"
        unfolding unf using nil c by (simp add: call_fn_def functions_of_def)
      moreover have "item_of (length rs) REDIS_REPLY_ARRAY b = Leaf RNil rest" using nil False s by (simp add: item_of_def)
      ultimately show ?thesis using multi_done_ok [OF R _ 1 conjunct2 [OF line], of ?k] by (simp add: functions_of_def)
    next
      case weird
      then show ?thesis using False s by (auto simp: item_sim_def item_of_def Let_def)
    next
      case empty
      let ?k = "\<lambda>(obj, h). if obj = 0 then ?oom h else bind_c (moveToNextTask ?r) (\<lambda>r. ?fin r obj h)"
      have "created (holds h0) (torn h0) grants (addr h0) (rev rs) (RArr (replicate 0 Absent)) (ca (r_rstack r) (length rs) (int 0) h)"
        using c by (intro ca_law) auto
      then have 1: "created (holds h0) (torn h0) grants (addr h0) (rev rs) (RArr []) (ca (r_rstack r) (length rs) 0 h)" by simp
      have "processMultiBulkItem r h = bind_c (ca (r_rstack r) (length rs) 0 h) ?k"
        unfolding unf empty c(6) if_not_P [OF less_irrefl] using c by (simp add: call_fn_def functions_of_def int32_id)
      moreover have "item_of (length rs) REDIS_REPLY_ARRAY b = Leaf (RArr []) rest" using empty False s by (simp add: item_of_def)
      ultimately show ?thesis using multi_done_ok [OF R _ 1 conjunct2 [OF line], of ?k] by (simp add: functions_of_def)
    next
      case full
      let ?k = "\<lambda>(obj, h). if obj = 0 then ?oom h else bind_c (push_task ?r (length rs) (num l) obj) (\<lambda>r. ?fin r obj h)"
      have n: "0 < ?n" "?n < 2 ^ 31" "int ?n = num l" using full by auto
      have "created (holds h0) (torn h0) grants (addr h0) (rev rs) (RArr (replicate ?n Absent)) (ca (r_rstack r) (length rs) (int ?n) h)"
        using c n by (intro ca_law) auto
      then have 1: "created (holds h0) (torn h0) grants (addr h0) (rev rs) (RArr (replicate ?n Absent)) (ca (r_rstack r) (length rs) (num l) h)"
        using n by simp
      have 2: "processMultiBulkItem r h = bind_c (ca (r_rstack r) (length rs) (num l) h) ?k"
        unfolding unf if_P [OF full(1)] c(6) using full c by (simp add: call_fn_def functions_of_def int32_id)
      have 3: "item_of (length rs) REDIS_REPLY_ARRAY b = Open ?n rest" using full False s by (simp add: item_of_def Let_def)
      from 1 show ?thesis unfolding created_def 2 3
      proof (elim disjE exE conjE)
        fix h' assume h': "ca (r_rstack r) (length rs) (num l) h = Inr (addr h0 (rev rs @ [(0, [])]), h')"
          "holds h0 (plug (rev rs) (RArr (replicate ?n Absent))) h'" "addr h0 (rev rs @ [(0, [])]) \<noteq> 0"
        from open_ok [OF R n(1,2) False conjunct2 [OF line] h'(2)]
        show "item_sim (addr h0) (holds h0) (gone h0) grants F rs (Open ?n rest) r h (bind_c (ca (r_rstack r) (length rs) (num l) h) ?k)"
          using h' n(3) by (auto simp: item_sim_def)
      next
        fix h' assume h': "\<not> grants" "ca (r_rstack r) (length rs) (num l) h = Inr (0, h')" "torn h0 (plug (rev rs) Absent) h'"
        have "r_reply ?r = (if rs = [] then 0 else addr h0 [(0, [])])" "r_buf ?r \<noteq> None"
          using R by (auto simp: reading_def reading_core_def buffer_at_def)
        moreover have "r_fn ?r = Some F" "fn_freeObject F = Some fr" using c(5) by (simp_all add: functions_of_def)
        ultimately obtain r' h'' where "redisReaderSetErrorOOM ?r h' = Inr (r', h'')" "failed (gone h0) REDIS_ERR_OOM r' h''"
          unfolding redisReaderSetErrorOOM_def using set_error_ok [OF _ _ _ h'(3)] by blast
        then show "item_sim (addr h0) (holds h0) (gone h0) grants F rs (Open ?n rest) r h (bind_c (ca (r_rstack r) (length rs) (num l) h) ?k)"
          using h'(1,2) by (simp add: item_sim_def oom_def)
      qed
    qed
  qed
qed

text \<open>One item: the type byte, if it has not been read yet, and the rest.\<close>

lemma process_typed_sim:
  assumes "reading (addr h0) (holds h0) F rs (Some ty) b r h"
  shows "item_sim (addr h0) (holds h0) (gone h0) grants F rs (item_of (length rs) ty b) r h (process_typed ty r h)"
proof -
  have "ty \<in> {REDIS_REPLY_ERROR, REDIS_REPLY_STATUS, REDIS_REPLY_INTEGER, REDIS_REPLY_STRING, REDIS_REPLY_ARRAY}"
    using assms by (auto simp: reading_def reading_core_def)
  then show ?thesis
    using assms processLineItem_sim [of h0 rs ty b r h] processBulkItem_sim [of h0 rs b r h]
      processMultiBulkItem_sim [of h0 rs b r h]
    by (auto simp: process_typed_def)
qed

lemma processItem_pending:
  assumes "reading (addr h0) (holds h0) F rs (Some ty) b r h"
  shows "processItem r h = process_typed ty r h"
  using callback_ready [OF assms] assms by (auto simp: processItem_def reading_def reading_core_def)

lemma processItem_fresh:
  assumes R: "reading (addr h0) (holds h0) F rs None b r h"
  shows "b = [] \<Longrightarrow> processItem r h = Inr (REDIS_ERR, r, h)"
    and "b = c # b' \<Longrightarrow> type_of_byte c = None \<Longrightarrow>
      \<exists>r' h'. processItem r h = Inr (REDIS_ERR, r', h') \<and> failed (gone h0) REDIS_ERR_PROTOCOL r' h'"
    and "b = c # b' \<Longrightarrow> type_of_byte c = Some ty \<Longrightarrow>
      \<exists>r'. processItem r h = process_typed ty r' h \<and> reading (addr h0) (holds h0) F rs (Some ty) b' r' h"
proof -
  let ?cur = "r_rstack r ! length rs"
  have buf: "buffer_at r b" and fn: "r_fn r = Some F" and ridx: "r_ridx r = int (length rs)" and len: "length rs \<le> 8"
    "length (r_rstack r) = 9" and tasks: "tasks_ok (addr h0) (r_rstack r) rs" and ty: "rt_type ?cur = -1"
    and h: "holds h0 (plug (rev rs) Absent) h" and reply: "r_reply r = (if rs = [] then 0 else addr h0 [(0, [])])"
    using R by (auto simp: reading_def reading_core_def buffer_at_def)
  obtain bs where bs: "buf_of r = Inr bs" using buffer_split [OF buf] by blast
  show "processItem r h = Inr (REDIS_ERR, r, h)" if "b = []"
    using that ty len ridx available [OF buf] by (simp add: processItem_def readBytes_def)
  { fix c b' assume b: "b = c # b'"
    let ?r = "r\<lparr>r_pos := r_pos r + 1\<rparr>"
    note byte = read_byte [OF buf [unfolded b] bs]
    note at = byte(1) and adv = byte(2) and rb = byte(3) and bs' = byte(4)
    { assume none: "type_of_byte c = None"
      have "r_buf r \<noteq> None" using buf by (auto simp: buffer_at_def)
      then have "\<exists>r' h'. redisReaderSetErrorProtocolByte ?r c h = Inr (r', h') \<and> failed (gone h0) REDIS_ERR_PROTOCOL r' h'"
        unfolding redisReaderSetErrorProtocolByte_def
        using fn reply by (intro set_error_ok [of _ F rs] holds_torn [OF h]) (simp_all add: functions_of_def)
      then show "\<exists>r' h'. processItem r h = Inr (REDIS_ERR, r', h') \<and> failed (gone h0) REDIS_ERR_PROTOCOL r' h'"
        using ty len ridx rb bs' at none by (auto simp: processItem_def) }
    { fix ty' assume ty': "type_of_byte c = Some ty'"
      let ?r' = "?r\<lparr>r_rstack := (r_rstack r)[length rs := ?cur\<lparr>rt_type := ty'\<rparr>]\<rparr>"
      have "processItem r h = process_typed ty' ?r' h"
        using ty len ridx rb bs' at ty' by (simp add: processItem_def Let_def)
      moreover have "reading (addr h0) (holds h0) F rs (Some ty') b' ?r' h"
        using tasks_ok_top [OF tasks, of "?cur\<lparr>rt_type := ty'\<rparr>"] len adv buffer_at_rstack [OF _ adv] fn ridx h reply ty'
        by (auto simp: reading_def reading_core_def type_of_byte_def split: if_splits)
      ultimately show "\<exists>r'. processItem r h = process_typed ty' r' h \<and> reading (addr h0) (holds h0) F rs (Some ty') b' r' h"
        by blast } }
qed

section \<open>The loop and the public operations\<close>

lemma item_loop_typed:
  assumes IH: "\<And>rs b' r h. length b' < length b \<Longrightarrow> reading (addr h0) (holds h0) F rs None b' r h \<Longrightarrow>
      loop_sim (addr h0) (holds h0) (gone h0) grants F (parse rs None b') (item_loop f r h)"
    and f: "f = Suc f'" and R: "reading (addr h0) (holds h0) F rs (Some ty) b r h"
    and p: "processItem r0 h = process_typed ty r h" "0 \<le> r_ridx r0"
  shows "loop_sim (addr h0) (holds h0) (gone h0) grants F (parse rs (Some ty) b) (item_loop (Suc f) r0 h)"
proof -
  have sim: "item_sim (addr h0) (holds h0) (gone h0) grants F rs (item_of (length rs) ty b) r h (processItem r0 h)"
    unfolding p(1) by (rule process_typed_sim [OF R])
  show ?thesis
  proof (cases "oom grants (gone h0) (processItem r0 h)")
    case True
    then show ?thesis using p(2) by (auto simp: oom_def loop_sim_def)
  next
    case False
    show ?thesis
    proof (cases "item_of (length rs) ty b")
      case (Leaf t b')
      obtain rs' o' where a: "add_in rs t = (rs', o')" by fastforce
      obtain r' h' where r': "processItem r0 h = Inr (REDIS_OK, r', h')" "placed (addr h0) (holds h0) F (rs', o') b' r' h'"
        using sim False Leaf a by (auto simp: item_sim_def)
      show ?thesis
      proof (cases o')
        case None
        then have "reading (addr h0) (holds h0) F rs' None b' r' h'"
          using r'(2) by (simp add: placed_def placed_core_def reading_def)
        from IH [OF _ this] show ?thesis using Leaf a None p(2) r'(1) item_of_shorter(1) [OF Leaf] by simp
      next
        case (Some t')
        then show ?thesis using Leaf a p(2) r' f
          by (auto simp: placed_def placed_core_def finished_core_def loop_sim_def)
      qed
    next
      case (Open n b')
      obtain r' h' where r': "processItem r0 h = Inr (REDIS_OK, r', h')" "reading (addr h0) (holds h0) F ((n, []) # rs) None b' r' h'"
        using sim False Open by (auto simp: item_sim_def)
      from IH [OF _ r'(2)] show ?thesis using Open p(2) r'(1) item_of_shorter(2) [OF Open] by simp
    next
      case Wait
      then show ?thesis using sim False p(2) R by (simp add: item_sim_def loop_sim_def)
    next
      case Deep
      then show ?thesis using sim False p(2) by (auto simp: item_sim_def loop_sim_def)
    next
      case Weird
      then show ?thesis by (simp add: loop_sim_def)
    qed
  qed
qed

lemma item_loop_sim:
  assumes "reading (addr h0) (holds h0) F rs ty b r h" "length b + 2 \<le> fuel"
  shows "loop_sim (addr h0) (holds h0) (gone h0) grants F (parse rs ty b) (item_loop fuel r h)"
  using assms
proof (induction "length b" arbitrary: rs ty b r h fuel rule: less_induct)
  case less
  define f where "f = fuel - 1"
  have f: "fuel = Suc f" "f = Suc (fuel - 2)" using less.prems(2) by (auto simp: f_def)
  have ridx: "0 \<le> r_ridx r" using less.prems(1) by (simp add: reading_def reading_core_def)
  have IH: "loop_sim (addr h0) (holds h0) (gone h0) grants F (parse rs' None b') (item_loop f r' h')"
    if "length b' < length b" "reading (addr h0) (holds h0) F rs' None b' r' h'" for rs' b' r' h'
    using less.prems(2) f(1) that(1) by (intro less.hyps [OF that]) linarith
  show ?case
  proof (cases ty)
    case (Some t)
    note R = less.prems(1) [unfolded Some]
    show ?thesis unfolding Some f(1)
      by (rule item_loop_typed [OF IH f(2) R processItem_pending [OF R] ridx])
  next
    case None
    note R = less.prems(1) [unfolded None]
    show ?thesis
    proof (cases b)
      case Nil
      then show ?thesis using processItem_fresh(1) [OF R] ridx R f(1) None by (simp add: loop_sim_def)
    next
      case (Cons c b')
      show ?thesis
      proof (cases "type_of_byte c")
        case none: None
        then show ?thesis using processItem_fresh(2) [OF R Cons] ridx f(1) None Cons by (auto simp: loop_sim_def)
      next
        case (Some t)
        obtain r' where r': "processItem r h = process_typed t r' h" "reading (addr h0) (holds h0) F rs (Some t) b' r' h"
          using processItem_fresh(3) [OF R Cons Some] by blast
        have "loop_sim (addr h0) (holds h0) (gone h0) grants F (parse rs (Some t) b') (item_loop (Suc f) r h)"
          using Cons by (intro item_loop_typed [OF IH f(2) r'(2,1) ridx]) auto
        then show ?thesis using Some Cons None f(1) by simp
      qed
    qed
  qed
qed

lemma first_task_reading:
  assumes "at_rest (addr h0) (holds h0) F rs ty b r h"
  shows "reading (addr h0) (holds h0) F rs ty b (first_task r) h" "r_len (first_task r) = r_len r" "r_pos (first_task r) = r_pos r"
proof -
  show "r_len (first_task r) = r_len r" "r_pos (first_task r) = r_pos r" by (simp_all add: first_task_def)
  show "reading (addr h0) (holds h0) F rs ty b (first_task r) h"
  proof (cases "reading (addr h0) (holds h0) F rs ty b r h")
    case True
    then have "r_ridx r \<noteq> -1" by (simp add: reading_def reading_core_def)
    with True show ?thesis by (simp add: first_task_def)
  next
    case False
    then have i: "rs = []" "ty = None" "buffer_at r b" "r_fn r = Some F" "r_ridx r = -1" "r_reply r = 0" "holds h0 Absent h"
      using assms by (auto simp: at_rest_def)
    have "length (r_rstack r) = 9" using i(3) by (simp add: buffer_at_def)
    then show ?thesis using i buffer_at_rstack [OF _ i(3)]
      by (simp add: first_task_def reading_def reading_core_def)
  qed
qed

lemma redisReaderGetReply_sim:
  assumes R: "at_rest (addr h0) (holds h0) F rs ty b r h"
  shows "(case parse rs ty b of
      Need rs' ty' b' \<Rightarrow> \<exists>r' h'. redisReaderGetReply r h = Inr (REDIS_OK, 0, r', h') \<and>
        at_rest (addr h0) (holds h0) F rs' ty' b' r' h'
    | Got t b' \<Rightarrow> \<exists>r' h'. redisReaderGetReply r h = Inr (REDIS_OK, addr h0 [(0, [])], r', h') \<and> holds h0 t h' \<and>
        at_rest (addr h') (holds h') F [] None b' r' h'
    | Refused \<Rightarrow> \<exists>r' h'. redisReaderGetReply r h = Inr (REDIS_ERR, 0, r', h') \<and> failed (gone h0) REDIS_ERR_PROTOCOL r' h'
    | Unspecified \<Rightarrow> True)
    \<or> \<not> grants \<and> (\<exists>r' h'. redisReaderGetReply r h = Inr (REDIS_ERR, 0, r', h') \<and> failed (gone h0) REDIS_ERR_OOM r' h')"
proof -
  note first = first_task_reading [OF R]
  have buf: "buffer_at r b" and err: "r_err r = 0" using R by (auto simp: at_rest_def reading_def reading_core_def buffer_at_def)
  have pend: "pending_ok rs ty" using R by (simp add: at_rest_def)
  have rl: "r_len r = r_pos r + length b" using buffer_split [OF buf] by blast
  show ?thesis
  proof (cases "r_len r = 0")
    case True
    then show ?thesis using rl R err parse_Nil [OF pend] by (simp add: redisReaderGetReply_def)
  next
    case False
    let ?fuel = "r_len r - r_pos r + 2"
    let ?post = "\<lambda>(r, h). if r_err r \<noteq> 0 then Inr (REDIS_ERR, 0, r, h)
      else bind_c (if 1024 \<le> r_pos r then
                 (case r_buf r of
                    None \<Rightarrow> Inl NullDeref
                  | Some s \<Rightarrow>
                      bind_c (sdsrange s (int32 (int (r_pos r))) (-1)) (\<lambda>s.
                        Inr (r\<lparr>r_buf := Some s, r_pos := 0, r_len := sdslen s\<rparr>)))
               else Inr r)
              (\<lambda>r. if r_ridx r = -1 then Inr (REDIS_OK, r_reply r, r\<lparr>r_reply := 0\<rparr>, h) else Inr (REDIS_OK, 0, r, h))"
    have get: "redisReaderGetReply r h = bind_c (item_loop ?fuel (first_task r) h) ?post"
      using False err by (simp add: redisReaderGetReply_def)
    have sim: "loop_sim (addr h0) (holds h0) (gone h0) grants F (parse rs ty b) (item_loop ?fuel (first_task r) h)"
      using rl by (intro item_loop_sim [OF first(1)]) simp
    have fail: "?post (r', h') = Inr (REDIS_ERR, 0, r', h')" if "failed (gone h0) e r' h'" "e \<noteq> 0" for r' h' e
      using that by (simp add: failed_def)
    have rest: "\<exists>r2. ?post (r', h') = Inr (if r_ridx r' = -1 then (REDIS_OK, r_reply r', r2\<lparr>r_reply := 0\<rparr>, h') else (REDIS_OK, 0, r2, h')) \<and>
        buffer_at r2 b' \<and> r_pos r2 < 1024 \<and> r_fn r2 = r_fn r' \<and> r_ridx r2 = r_ridx r' \<and> r_rstack r2 = r_rstack r' \<and> r_reply r2 = r_reply r'"
      if buf': "buffer_at r' b'" for r' h' b'
    proof -
      have "r_err r' = 0" using buf' by (simp add: buffer_at_def)
      with trim_buffer [OF buf'] show ?thesis by (elim exE conjE) auto
    qed
    show ?thesis
    proof (cases "\<not> grants \<and> (\<exists>r' h'. item_loop ?fuel (first_task r) h = Inr (r', h') \<and> failed (gone h0) REDIS_ERR_OOM r' h')")
      case True
      then obtain r' h' where "\<not> grants" "item_loop ?fuel (first_task r) h = Inr (r', h')" "failed (gone h0) REDIS_ERR_OOM r' h'" by blast
      then show ?thesis using fail unfolding get by simp
    next
      case no_oom: False
      show ?thesis
      proof (cases "parse rs ty b")
        case (Need rs' ty' b')
        then obtain r' h' where r': "item_loop ?fuel (first_task r) h = Inr (r', h')" "reading (addr h0) (holds h0) F rs' ty' b' r' h'"
          using sim no_oom unfolding loop_sim_def by auto
        then have ridx: "r_ridx r' \<noteq> -1" and buf': "buffer_at r' b'" by (auto simp: reading_def reading_core_def)
        obtain r2 where r2: "?post (r', h') = Inr (REDIS_OK, 0, r2, h')" "buffer_at r2 b'" "r_pos r2 < 1024"
          "r_fn r2 = r_fn r'" "r_ridx r2 = r_ridx r'" "r_rstack r2 = r_rstack r'" "r_reply r2 = r_reply r'"
          using rest [OF buf', of h'] ridx by auto
        have "at_rest (addr h0) (holds h0) F rs' ty' b' r2 h'"
          using reading_buffer [OF r'(2) r2(2,4-)] r2(3) parse_Need_pending [OF Need] by (simp add: at_rest_def)
        then show ?thesis using Need r2(1) unfolding get r'(1) bind_c_simps by auto
      next
        case (Got t b')
        then obtain r' h' where r': "item_loop ?fuel (first_task r) h = Inr (r', h')" "finished_core (holds h0) F t b' r' h'"
          "r_reply r' = addr h0 [(0, [])]"
          using sim no_oom unfolding loop_sim_def by auto
        then have ridx: "r_ridx r' = -1" and buf': "buffer_at r' b'" and h': "holds h0 t h'" and fn: "r_fn r' = Some F"
          by (auto simp: finished_core_def)
        obtain r2 where r2: "?post (r', h') = Inr (REDIS_OK, r_reply r', r2\<lparr>r_reply := 0\<rparr>, h')" "buffer_at r2 b'" "r_pos r2 < 1024"
          "r_fn r2 = r_fn r'" "r_ridx r2 = r_ridx r'"
          using rest [OF buf', of h'] ridx by auto
        have "at_rest (addr h') (holds h') F [] None b' (r2\<lparr>r_reply := 0\<rparr>) h'"
          using r2 ridx fn holds_self by (simp add: at_rest_def pending_ok_def)
        then show ?thesis using Got r'(3) r2(1) h' unfolding get r'(1) bind_c_simps by auto
      next
        case Refused
        then obtain r' h' where r': "item_loop ?fuel (first_task r) h = Inr (r', h')" "failed (gone h0) REDIS_ERR_PROTOCOL r' h'"
          using sim no_oom unfolding loop_sim_def by auto
        then show ?thesis using Refused fail [OF r'(2)] unfolding get by simp
      qed simp
    qed
  qed
qed

lemma redisReaderFeed_sim:
  assumes R: "at_rest (addr h0) (holds h0) F rs ty b r h" and cap: "1024 + length b + length t < sds_cap"
  shows "(\<exists>r'. redisReaderFeed M r (Some t) h = Inr (REDIS_OK, r', h) \<and> at_rest (addr h0) (holds h0) F rs ty (b @ t) r' h)
    \<or> (\<exists>n. \<not> mem_ok M n) \<and> (redisReaderFeed M r (Some t) h = Inl AssertFailed \<or>
        (\<exists>r' h'. redisReaderFeed M r (Some t) h = Inr (REDIS_ERR, r', h') \<and> failed (gone h0) REDIS_ERR_OOM r' h'))"
proof (cases "t = []")
  case True
  then show ?thesis using R by (auto simp: redisReaderFeed_def at_rest_def reading_def reading_core_def buffer_at_def)
next
  case False
  have buf: "buffer_at r b" and pos: "r_pos r < 1024" and fn: "r_fn r = Some F"
    and reply: "r_reply r = (if rs = [] then 0 else addr h0 [(0, [])])" and h: "holds h0 (plug (rev rs) Absent) h"
    using R by (auto simp: at_rest_def reading_def reading_core_def)
  obtain c z where c: "r_err r = 0" "length (r_rstack r) = 9" "r_buf r = Some (sds_of c z)"
    "length c + length z < 2 ^ 31" "r_len r = length c" "r_pos r \<le> length c" "b = drop (r_pos r) c"
    using buf by (auto simp: buffer_at_def)
  have room: "length c + length t + SDS_MAX_PREALLOC < 2 ^ 31" using cap c(6,7) pos by auto
  define fresh where "fresh \<longleftrightarrow> r_len r = 0 \<and> r_maxbuf r \<noteq> 0 \<and> r_maxbuf r < sdsavail (sds_of c z)"
  let ?cat = "\<lambda>(r, s). bind_c (sdscatlen M s t) (\<lambda>newbuf.
      case newbuf of
        None \<Rightarrow> bind_c (redisReaderSetErrorOOM r h) (\<lambda>(r, h). Inr (REDIS_ERR, r, h))
      | Some s \<Rightarrow> Inr (REDIS_OK, r\<lparr>r_buf := Some s, r_len := sdslen s\<rparr>, h))"
  have cat: "(\<exists>r2. ?cat (r1, sds_of c z1) = Inr (REDIS_OK, r2, h) \<and> at_rest (addr h0) (holds h0) F rs ty (b @ t) r2 h)
      \<or> (\<exists>n. \<not> mem_ok M n) \<and> (\<exists>r' h'. ?cat (r1, sds_of c z1) = Inr (REDIS_ERR, r', h') \<and> failed (gone h0) REDIS_ERR_OOM r' h')"
    if r1: "r1 = r\<lparr>r_buf := Some (sds_of c z1), r_pos := r_pos r\<rparr>" and z1: "length c + length z1 < 2 ^ 31" for r1 z1
    using sdscatlen_of [OF z1 room, of M]
  proof (elim disjE exE conjE)
    fix z' assume z': "sdscatlen M (sds_of c z1) t = Inr (Some (sds_of (c @ t) z'))" "length (c @ t) + length z' < 2 ^ 31"
    let ?r2 = "r1\<lparr>r_buf := Some (sds_of (c @ t) z'), r_len := length (c @ t)\<rparr>"
    have buf2: "buffer_at ?r2 (b @ t)"
      unfolding buffer_at_def using c z' r1 by (intro conjI exI [of _ "c @ t"] exI [of _ z']) auto
    then have "at_rest (addr h0) (holds h0) F rs ty (b @ t) ?r2 h"
      using R reading_buffer [OF _ buf2, of "addr h0" "holds h0" F rs ty b r h] r1 by (auto simp: at_rest_def)
    moreover have "sdslen (sds_of (c @ t) z') = length (c @ t)" using z'(2) by (intro sdslen_of) simp
    ultimately show ?thesis using z'(1) by auto
  next
    fix k assume k: "sdscatlen M (sds_of c z1) t = Inr None" "\<not> mem_ok M k"
    have "\<exists>r' h'. redisReaderSetErrorOOM r1 h = Inr (r', h') \<and> failed (gone h0) REDIS_ERR_OOM r' h'"
      unfolding redisReaderSetErrorOOM_def
      using fn reply r1 by (intro set_error_ok [of _ F rs] holds_torn [OF h]) (simp_all add: functions_of_def)
    then show ?thesis using k by auto
  qed
  have feed: "redisReaderFeed M r (Some t) h = bind_c
      (if fresh then bind_c (sdsempty M) (\<lambda>e. case e of None \<Rightarrow> Inl AssertFailed | Some s \<Rightarrow> Inr (r\<lparr>r_buf := Some s, r_pos := 0\<rparr>, s))
       else Inr (r, sds_of c z)) ?cat"
    unfolding redisReaderFeed_def fresh_def using False c(1,3) by simp
  show ?thesis
  proof (cases fresh)
    case True
    then have e: "c = []" "r_pos r = 0" using c by (auto simp: fresh_def)
    have "sdsempty M = Inr (if mem_ok M 9 then Some (sds_of [] []) else None)"
      using sdsnewlen_of [of 0 "[]" M] by (simp add: sdsempty_def)
    then show ?thesis unfolding feed using True e cat [OF refl, of "[]"] by (cases "mem_ok M 9") auto
  next
    case no: False
    have "r = r\<lparr>r_buf := Some (sds_of c z), r_pos := r_pos r\<rparr>" using c(3) by simp
    from cat [OF this c(4)] show ?thesis unfolding feed using no by auto
  qed
qed

end

end
