(* ===== verification/Reader_Stream.thy ===== *)
theory Reader_Stream
  imports Reader_Refine
begin

text \<open>
  The reader with the default object functions, as its users drive it: feed what arrives, then ask for
  replies until there is none. The main result is that the replies do not depend on how the bytes are cut
  into pieces.
\<close>

section \<open>Driving the reader\<close>

fun drain :: "nat \<Rightarrow> 'h redisReader \<Rightarrow> 'h \<Rightarrow> (ptr list \<times> 'h redisReader \<times> 'h) c_res" where
  "drain 0 r h = Inl Diverged"
| "drain (Suc fuel) r h =
     bind_c (redisReaderGetReply r h) (\<lambda>(ok, p, r, h).
       if ok \<noteq> REDIS_OK \<or> p = 0 then Inr ([], r, h)
       else bind_c (drain fuel r h) (\<lambda>(ps, r, h). Inr (p # ps, r, h)))"

fun stream :: "mem \<Rightarrow> 'h redisReader \<Rightarrow> 'h \<Rightarrow> bytes list \<Rightarrow> (ptr list \<times> 'h redisReader \<times> 'h) c_res" where
  "stream M r h [] = Inr ([], r, h)"
| "stream M r h (t # ts) =
     bind_c (redisReaderFeed M r (Some t) h) (\<lambda>(ok, r, h).
       if ok \<noteq> REDIS_OK then Inr ([], r, h)
       else
         bind_c (drain (r_len r + 1) r h) (\<lambda>(ps, r, h).
           bind_c (stream M r h ts) (\<lambda>(qs, r, h). Inr (ps @ qs, r, h))))"

text \<open>The replies still to come from a state of the parser and the bytes ahead.\<close>

definition expects :: "frame list \<Rightarrow> int option \<Rightarrow> bytes \<Rightarrow> reply list \<Rightarrow> bool" where
  "expects rs ty b ts \<longleftrightarrow>
     (case ts of
        [] \<Rightarrow> rs = [] \<and> ty = None \<and> b = []
      | t # ts' \<Rightarrow> parse rs ty b = Got t (concat (map enc ts')) \<and> list_all (reply_ok 0) ts')"

lemma expects_start: "list_all (reply_ok 0) ts \<Longrightarrow> expects [] None (concat (map enc ts)) ts"
  by (cases ts) (simp_all add: expects_def parse_reply)

lemma parse_Got_shorter: "parse rs ty b = Got t r \<Longrightarrow> length r < length b"
proof (induction rs ty b rule: parse.induct)
  case (3 rs ty b)
  then show ?case
    by (cases "item_of (length rs) ty b")
      (fastforce dest: item_of_shorter split: prod.splits option.splits)+
qed (auto split: option.splits)

lemma parse_Need_shorter: "parse rs ty b = Need rs' ty' b' \<Longrightarrow> length b' \<le> length b"
proof (induction rs ty b rule: parse.induct)
  case (3 rs ty b)
  then show ?case
    by (cases "item_of (length rs) ty b")
      (fastforce dest: item_of_shorter split: prod.splits option.splits)+
qed (auto split: option.splits)

lemma parse_Need_again: "parse rs ty b = Need rs' ty' b' \<Longrightarrow> parse rs' ty' b' = Need rs' ty' b'"
  using parse_append [of rs ty b "[]"] by simp

lemma expects_Need:
  assumes "expects rs ty (b @ s) ts" "parse rs ty b = Need rs' ty' b'"
  shows "expects rs' ty' (b' @ s) ts"
proof (cases ts)
  case Nil
  then show ?thesis using assms by (auto simp: expects_def)
next
  case (Cons t ts')
  then show ?thesis using assms parse_append [of rs ty b s] by (simp add: expects_def)
qed

lemma expects_Got:
  assumes "expects rs ty (b @ s) ts" "parse rs ty b = Got t r"
  shows "\<exists>ts'. ts = t # ts' \<and> expects [] None (r @ s) ts'"
proof (cases ts)
  case Nil
  then show ?thesis using assms by (auto simp: expects_def)
next
  case (Cons u ts')
  then show ?thesis using assms parse_append [of rs ty b s] expects_start [of ts'] by (simp add: expects_def)
qed

lemma expects_not_bad:
  assumes "expects rs ty (b @ s) ts"
  shows "parse rs ty b \<noteq> Refused" "parse rs ty b \<noteq> Unspecified"
  using assms parse_append [of rs ty b s] by (auto simp: expects_def split: list.splits)

text \<open>A sequence of replies, each built on the state the one before left.\<close>

fun chain :: "('h \<Rightarrow> reply \<Rightarrow> 'h \<Rightarrow> bool) \<Rightarrow> ('h \<Rightarrow> frame list \<Rightarrow> ptr) \<Rightarrow> 'h \<Rightarrow> reply list \<Rightarrow> ptr list \<Rightarrow> 'h \<Rightarrow> bool" where
  "chain holds addr h0 [] [] h \<longleftrightarrow> h = h0"
| "chain holds addr h0 (t # ts) (p # ps) h \<longleftrightarrow>
     p = addr h0 [(0, [])] \<and> (\<exists>h1. holds h0 t h1 \<and> chain holds addr h1 ts ps h)"
| "chain _ _ _ _ _ _ \<longleftrightarrow> False"

lemma chain_append:
  "chain holds addr h0 ts ps h1 \<Longrightarrow> chain holds addr h1 us qs h \<Longrightarrow> chain holds addr h0 (ts @ us) (ps @ qs) h"
  by (induction holds addr h0 ts ps h1 rule: chain.induct) auto

context reply_builder
begin

lemma drain_ok:
  assumes "at_rest (addr h0) (holds h0) F rs ty b r h" "expects rs ty (b @ s) ts" grants "length b < fuel"
  shows "\<exists>ps ts1 ts2 rs' ty' b' r' h1 h'. drain fuel r h = Inr (ps, r', h') \<and> ts = ts1 @ ts2 \<and>
    chain holds addr h0 ts1 ps h1 \<and> at_rest (addr h1) (holds h1) F rs' ty' b' r' h' \<and>
    expects rs' ty' (b' @ s) ts2 \<and> length b' \<le> length b \<and> parse rs' ty' b' = Need rs' ty' b'"
  using assms
proof (induction fuel arbitrary: h0 rs ty b r h ts)
  case (Suc fuel)
  note sim = redisReaderGetReply_sim [OF Suc.prems(1)]
  show ?case
  proof (cases "parse rs ty b")
    case (Need rs' ty' b')
    obtain r' h' where g: "redisReaderGetReply r h = Inr (REDIS_OK, 0, r', h')" "at_rest (addr h0) (holds h0) F rs' ty' b' r' h'"
      using sim Need Suc.prems(3) by auto
    have "length b' \<le> length b" using parse_Need_shorter [OF Need] .
    then show ?thesis using g expects_Need [OF Suc.prems(2) Need] parse_Need_again [OF Need]
      by (intro exI [of _ "[]"] exI [of _ ts] exI [of _ rs'] exI [of _ ty'] exI [of _ b'] exI [of _ r'] exI [of _ h0] exI [of _ h']) simp
  next
    case (Got t b')
    obtain r' h' where g: "redisReaderGetReply r h = Inr (REDIS_OK, addr h0 [(0, [])], r', h')" "holds h0 t h'"
      "at_rest (addr h') (holds h') F [] None b' r' h'"
      using sim Got Suc.prems(3) by auto
    obtain ts' where ts': "ts = t # ts'" "expects [] None (b' @ s) ts'" using expects_Got [OF Suc.prems(2) Got] by blast
    have len: "length b' < fuel" "length b' < length b" using parse_Got_shorter [OF Got] Suc.prems(4) by auto
    from Suc.IH [OF g(3) ts'(2) Suc.prems(3) len(1)] obtain ps ts1 ts2 rs2 ty2 b2 r2 h1 h2 where
      d: "drain fuel r' h' = Inr (ps, r2, h2)" "ts' = ts1 @ ts2" "chain holds addr h' ts1 ps h1"
        "at_rest (addr h1) (holds h1) F rs2 ty2 b2 r2 h2" "expects rs2 ty2 (b2 @ s) ts2" "length b2 \<le> length b'"
        "parse rs2 ty2 b2 = Need rs2 ty2 b2"
      by blast
    have "drain (Suc fuel) r h = Inr (addr h0 [(0, [])] # ps, r2, h2)"
      using g(1) d(1) addr_nonzero [of h0 "[]" "(0, [])"] by simp
    moreover have "chain holds addr h0 (t # ts1) (addr h0 [(0, [])] # ps) h1" using g(2) d(3) by auto
    moreover have "ts = (t # ts1) @ ts2" using ts'(1) d(2) by simp
    ultimately show ?thesis using d(4-) len(2)
      by (intro exI [of _ "addr h0 [(0, [])] # ps"] exI [of _ "t # ts1"] exI [of _ ts2] exI [of _ rs2] exI [of _ ty2]
          exI [of _ b2] exI [of _ r2] exI [of _ h1] exI [of _ h2]) (simp del: drain.simps chain.simps)
  qed (use expects_not_bad [OF Suc.prems(2)] in auto)
qed simp

lemma stream_ok:
  assumes "at_rest (addr h0) (holds h0) F rs ty b r h" "expects rs ty (b @ concat xs) ts" grants "\<forall>n. mem_ok M n"
    "1024 + length b + length (concat xs) < sds_cap" "parse rs ty b = Need rs ty b"
  shows "\<exists>ps h1 r' h'. stream M r h xs = Inr (ps, r', h') \<and> at_rest (addr h1) (holds h1) F [] None [] r' h' \<and>
    chain holds addr h0 ts ps h1"
  using assms
proof (induction xs arbitrary: h0 rs ty b r h ts)
  case Nil
  then have "ts = []" "rs = []" "ty = None" "b = []" by (auto simp: expects_def split: list.splits)
  then show ?case using Nil by auto
next
  case (Cons x xs)
  have "1024 + length b + length x < sds_cap" using Cons.prems(5) by simp
  from redisReaderFeed_sim [OF Cons.prems(1) this, of M] obtain r1 where
    r1: "redisReaderFeed M r (Some x) h = Inr (REDIS_OK, r1, h)" "at_rest (addr h0) (holds h0) F rs ty (b @ x) r1 h"
    using Cons.prems(4) by blast
  have "buffer_at r1 (b @ x)" using r1(2) by (auto simp: at_rest_def reading_def reading_core_def)
  then have len: "length (b @ x) < r_len r1 + 1" by (rule buffer_split) simp
  have e: "expects rs ty ((b @ x) @ concat xs) ts" using Cons.prems(2) by simp
  from drain_ok [OF r1(2) e Cons.prems(3) len] obtain ps ts1 ts2 rs2 ty2 b2 r2 h1 h2 where
    d: "drain (r_len r1 + 1) r1 h = Inr (ps, r2, h2)" "ts = ts1 @ ts2" "chain holds addr h0 ts1 ps h1"
      "at_rest (addr h1) (holds h1) F rs2 ty2 b2 r2 h2" "expects rs2 ty2 (b2 @ concat xs) ts2"
      "length b2 \<le> length (b @ x)" "parse rs2 ty2 b2 = Need rs2 ty2 b2" by blast
  have "1024 + length b2 + length (concat xs) < sds_cap" using Cons.prems(5) d(6) by simp
  from Cons.IH [OF d(4,5) Cons.prems(3,4) this d(7)] obtain qs h3 r3 h4 where
    q: "stream M r2 h2 xs = Inr (qs, r3, h4)" "at_rest (addr h3) (holds h3) F [] None [] r3 h4" "chain holds addr h1 ts2 qs h3"
    by blast
  have "stream M r h (x # xs) = Inr (ps @ qs, r3, h4)" using r1(1) d(1) q(1) by (simp del: drain.simps)
  then show ?case using q(2) chain_append [OF d(3) q(3)] d(2) by blast
qed

end

section \<open>The default object functions\<close>

lemma defaultFunctions_eq:
  "defaultFunctions M = functions_of (createStringObject M) (createArrayObject M) (createIntegerObject M) (createNilObject M) freeReplyObject"
  by (simp add: defaultFunctions_def functions_of_def)

lemma chain_heap:
  "chain heap_holds heap_addr h0 ts ps h \<Longrightarrow>
    list_all (\<lambda>t. t \<noteq> Absent) ts \<Longrightarrow>
    h = h0 @ map Some (layouts (length h0 + 1) ts) \<and> ps = roots (length h0 + 1) ts"
proof (induction heap_holds heap_addr h0 ts ps h rule: chain.induct)
  case (2 h0 t ts p ps h)
  let ?h1 = "h0 @ map Some (layout (length h0 + 1) t)"
  have c: "chain heap_holds heap_addr ?h1 ts ps h" "p = heap_addr h0 [(0, [])]" using 2 by (auto simp: heap_holds_def)
  show ?case using 2(1) [OF c(1)] 2(3) c(2) by (simp add: heap_addr_def root_def add.commute)
qed simp_all

lemma reply_ok_not_Absent: "reply_ok d t \<Longrightarrow> t \<noteq> Absent"
  by auto

lemma created_at_rest:
  assumes "redisReaderCreateWithFunctions M (Some F) = Inr (Some r)"
  shows "at_rest ad (heap_holds h) F [] None [] r h"
proof -
  have "sdsempty M = Inr (if mem_ok M 9 then Some (sds_of [] []) else None)"
    using sdsnewlen_of [of 0 "[]" M] by (simp add: sdsempty_def)
  then show ?thesis using assms
    by (auto simp: redisReaderCreateWithFunctions_def at_rest_def pending_ok_def buffer_at_def heap_holds_def
        intro!: exI [of _ "[]"] split: if_splits)
qed

section \<open>Properties\<close>

text \<open>
  C2: whatever way the bytes of a sequence of replies are cut into pieces, a fresh reader that is fed the
  pieces one by one returns exactly these replies, in order, each as soon as it is complete: the heap
  holds their cells and nothing else is allocated, all bytes are consumed and no error is set. Replies nest up to eight arrays deep.
\<close>

theorem reader_stream_roundtrip:
  assumes "list_all (reply_ok 0) ts" "concat chunks = concat (map enc ts)" "length (concat chunks) + 1024 < sds_cap"
    "\<forall>n. mem_ok M n" "redisReaderCreateWithFunctions M (Some (defaultFunctions M)) = Inr (Some r)"
  shows "\<exists>r'. stream M r h chunks = Inr (roots (length h + 1) ts, r', h @ map Some (layouts (length h + 1) ts)) \<and>
    r_err r' = 0 \<and> r_pos r' = r_len r'"
proof -
  have R: "at_rest (heap_addr h) (heap_holds h) (defaultFunctions M) [] None [] r h" by (rule created_at_rest [OF assms(5)])
  have e: "expects [] None ([] @ concat chunks) ts" using assms(2) expects_start [OF assms(1)] by simp
  obtain ps h1 r' h' where s: "stream M r h chunks = Inr (ps, r', h')"
    "at_rest (heap_addr h1) (heap_holds h1) (defaultFunctions M) [] None [] r' h'" "chain heap_holds heap_addr h ts ps h1"
    using dflt.stream_ok [OF R [unfolded defaultFunctions_eq] e assms(4,4)] assms(3) unfolding defaultFunctions_eq by auto
  have "list_all (\<lambda>t. t \<noteq> Absent) ts" using assms(1) reply_ok_not_Absent by (auto simp: list_all_iff)
  note h1 = chain_heap [OF s(3) this]
  have "h' = h1" and b: "buffer_at r' []"
    using s(2) by (auto simp: at_rest_def reading_def reading_core_def heap_holds_def)
  moreover from b have "r_err r' = 0" "r_pos r' = r_len r'" by (auto simp: buffer_at_def)
  ultimately show ?thesis using s(1) h1 by simp
qed

lemma digit_chars: "digit_char 3 = CHR ''3''" "digit_char 1 = CHR ''1''"
  by code_simp+

theorem reader_stream_roundtrip_witness:
  "\<exists>r r'. redisReaderCreateWithFunctions granting (Some (defaultFunctions granting)) = Inr (Some r) \<and>
    stream granting r [] [''*3'', CRLF @ '':1'' @ [CR], [LF] @ ''$1'' @ CRLF, ''a'' @ CRLF @ ''$-'', ''1'' @ CRLF @ ''+OK'' @ CRLF] =
      Inr ([1, 5], r', map Some (layouts 1 [RArr [RInt 1, RStr ''a'', RNil], RStatus ''OK'']))"
proof -
  let ?ts = "[RArr [RInt 1, RStr ''a'', RNil], RStatus ''OK'']"
  let ?cs = "[''*3'', CRLF @ '':1'' @ [CR], [LF] @ ''$1'' @ CRLF, ''a'' @ CRLF @ ''$-'', ''1'' @ CRLF @ ''+OK'' @ CRLF]"
  obtain r where r: "redisReaderCreateWithFunctions granting (Some (defaultFunctions granting)) = Inr (Some r)"
    using sdsnewlen_of [of 0 "[]" granting] by (auto simp: redisReaderCreateWithFunctions_def sdsempty_def)
  have d: "dec (Suc (Suc (Suc 0))) = ''3''" "dec (Suc 0) = ''1''"
    using dec_small [of 3] dec_small [of 1] digit_chars by (simp_all add: numeral_3_eq_3)
  have "list_all (reply_ok 0) ?ts" by simp
  moreover have "concat ?cs = concat (map enc ?ts)" by (simp add: d dec_int_def)
  ultimately show ?thesis
    using reader_stream_roundtrip [OF _ _ _ _ r, of ?ts ?cs "[]"] r by (auto simp: root_def)
qed

text \<open>
  C3: \<^verbatim>\<open>redisReaderGetReply\<close> implements the parser: in every state of the reader, for every
  allocator and all bytes, it ends without a fault and returns the next reply with its cells built and the
  rest of the bytes kept, or no reply and the state to go on from, or the protocol error, or the
  out-of-memory error when memory was refused; after an error every cell of the unfinished reply is
  released. The one exception is an array whose length is not an \<^verbatim>\<open>int\<close>.
\<close>

theorem redisReaderGetReply_refines:
  assumes "at_rest (heap_addr h0) (heap_holds h0) (defaultFunctions M) rs ty b r h"
  shows "(case parse rs ty b of
      Need rs' ty' b' \<Rightarrow> \<exists>r' h'. redisReaderGetReply r h = Inr (REDIS_OK, 0, r', h') \<and>
        at_rest (heap_addr h0) (heap_holds h0) (defaultFunctions M) rs' ty' b' r' h'
    | Got t b' \<Rightarrow> \<exists>r' h'. redisReaderGetReply r h = Inr (REDIS_OK, length h0 + 1, r', h') \<and>
        h' = h0 @ map Some (layout (length h0 + 1) t) \<and>
        at_rest (heap_addr h') (heap_holds h') (defaultFunctions M) [] None b' r' h'
    | Refused \<Rightarrow> \<exists>r' k. redisReaderGetReply r h = Inr (REDIS_ERR, 0, r', h0 @ replicate k None) \<and> r_err r' = REDIS_ERR_PROTOCOL
    | Unspecified \<Rightarrow> True)
    \<or> (\<exists>n. \<not> mem_ok M n) \<and>
      (\<exists>r' k. redisReaderGetReply r h = Inr (REDIS_ERR, 0, r', h0 @ replicate k None) \<and> r_err r' = REDIS_ERR_OOM)"
proof -
  have a: "heap_addr h0 [(0, [])] = length h0 + 1" by (simp add: heap_addr_def)
  note sim = dflt.redisReaderGetReply_sim [OF assms [unfolded defaultFunctions_eq], folded defaultFunctions_eq, unfolded a]
  show ?thesis
  proof (cases "parse rs ty b")
    case (Need rs' ty' b')
    then show ?thesis using sim by (auto simp: failed_def heap_gone_def)
  next
    case (Got t b')
    then show ?thesis using sim by (auto simp: failed_def heap_gone_def heap_holds_def)
  next
    case Refused
    then show ?thesis using sim by (auto simp: failed_def heap_gone_def)
  qed simp
qed

theorem redisReaderGetReply_refines_witness:
  "\<exists>r1 r r'. redisReaderCreateWithFunctions granting (Some (defaultFunctions granting)) = Inr (Some r1) \<and>
    redisReaderFeed granting r1 (Some ('':1'' @ CRLF)) [] = Inr (REDIS_OK, r, []) \<and>
    redisReaderGetReply r [] = Inr (REDIS_OK, 1, r', map Some (layout 1 (RInt 1)))"
proof -
  obtain r1 where r1: "redisReaderCreateWithFunctions granting (Some (defaultFunctions granting)) = Inr (Some r1)"
    using sdsnewlen_of [of 0 "[]" granting] by (auto simp: redisReaderCreateWithFunctions_def sdsempty_def)
  have R: "at_rest (heap_addr []) (heap_holds []) (defaultFunctions granting) [] None [] r1 []" by (rule created_at_rest [OF r1])
  obtain r where r: "redisReaderFeed granting r1 (Some ('':1'' @ CRLF)) [] = Inr (REDIS_OK, r, [])"
    "at_rest (heap_addr []) (heap_holds []) (defaultFunctions granting) [] None ('':1'' @ CRLF) r []"
    using dflt.redisReaderFeed_sim [OF R [unfolded defaultFunctions_eq], of "'':1'' @ CRLF" granting]
    unfolding defaultFunctions_eq by auto
  have "parse [] None (enc (RInt 1) @ []) = Got (RInt 1) []" by (rule parse_reply) simp
  moreover have "enc (RInt 1) @ [] = '':1'' @ CRLF" using dec_small [of 1] digit_chars by (simp add: dec_int_def)
  ultimately have "parse [] None ('':1'' @ CRLF) = Got (RInt 1) []" by (simp only:)
  with redisReaderGetReply_refines [OF r(2)] r1 r(1) show ?thesis by auto
qed

text \<open>
  bytes that are no reply (a wrong type byte, or arrays nested too deep) put the reader in an error
  state for good: the call that meets them returns \<^verbatim>\<open>REDIS_ERR\<close>, the unfinished reply is released, and
  every later call returns \<^verbatim>\<open>REDIS_ERR\<close> and changes nothing.
\<close>

theorem reader_error_sticky:
  assumes "at_rest (heap_addr h0) (heap_holds h0) (defaultFunctions M) rs ty b r h" "parse rs ty b = Refused" "\<forall>n. mem_ok M n"
  shows "\<exists>r' k. redisReaderGetReply r h = Inr (REDIS_ERR, 0, r', h0 @ replicate k None) \<and> r_err r' = REDIS_ERR_PROTOCOL \<and>
    redisReaderGetReply r' h' = Inr (REDIS_ERR, 0, r', h') \<and> redisReaderFeed M' r' buf h' = Inr (REDIS_ERR, r', h')"
proof -
  obtain r' h1 where "redisReaderGetReply r h = Inr (REDIS_ERR, 0, r', h1)" "failed (heap_gone h0) REDIS_ERR_PROTOCOL r' h1"
    using dflt.redisReaderGetReply_sim [OF assms(1) [unfolded defaultFunctions_eq]] assms(2,3) by auto
  then show ?thesis by (auto simp: failed_def heap_gone_def redisReaderGetReply_def redisReaderFeed_def)
qed

theorem reader_error_sticky_witness:
  "\<exists>r1 r r' h'. redisReaderCreateWithFunctions granting (Some (defaultFunctions granting)) = Inr (Some r1) \<and>
    redisReaderFeed granting r1 (Some ''x'') [] = Inr (REDIS_OK, r, []) \<and>
    redisReaderGetReply r [] = Inr (REDIS_ERR, 0, r', h') \<and>
    redisReaderFeed granting r' (Some ''+OK'') [] = Inr (REDIS_ERR, r', [])"
proof -
  obtain r1 where r1: "redisReaderCreateWithFunctions granting (Some (defaultFunctions granting)) = Inr (Some r1)"
    using sdsnewlen_of [of 0 "[]" granting] by (auto simp: redisReaderCreateWithFunctions_def sdsempty_def)
  have R: "at_rest (heap_addr []) (heap_holds []) (defaultFunctions granting) [] None [] r1 []" by (rule created_at_rest [OF r1])
  obtain r where r: "redisReaderFeed granting r1 (Some ''x'') [] = Inr (REDIS_OK, r, [])"
    "at_rest (heap_addr []) (heap_holds []) (defaultFunctions granting) [] None ''x'' r []"
    using dflt.redisReaderFeed_sim [OF R [unfolded defaultFunctions_eq], of "''x''" granting]
    unfolding defaultFunctions_eq by auto
  have "parse [] None ''x'' = Refused" by (simp add: type_of_byte_def)
  from reader_error_sticky [OF r(2) this, of "[]" granting "Some ''+OK''"] show ?thesis using r1 r(1) by auto
qed

section \<open>A length that is not an int\<close>

lemma huge_array_opens:
  assumes R: "reading (heap_addr h0) (heap_holds h0) (defaultFunctions M) [] (Some REDIS_REPLY_ARRAY) b r h"
    and l: "split_crlf b = Some (l, b')" "0 < num l" "int32 (num l) \<le> 0" and M: "\<forall>n. mem_ok M n"
  shows "\<exists>r' h'. processMultiBulkItem r h = Inr (REDIS_OK, r', h') \<and> buffer_at r' b' \<and> r_ridx r' = 1 \<and>
    r_fn r' = Some (defaultFunctions M) \<and>
    rt_type (r_rstack r' ! 1) = -1 \<and> rt_parent (r_rstack r' ! 1) = Some 0 \<and>
    obj_at h' (rt_obj (r_rstack r' ! 0)) =
      Inr \<lparr>rr_type = REDIS_REPLY_ARRAY, rr_integer = 0, rr_len = 0, rr_str = None, rr_elements = size64 (int32 (num l)),
           rr_element = None\<rparr> \<and> rt_obj (r_rstack r' ! 0) \<le> length h' \<and> 0 < rt_obj (r_rstack r' ! 0)"
proof -
  have c: "buffer_at r b" "r_ridx r = 0" "r_fn r = Some (defaultFunctions M)" "length (r_rstack r) = 9"
    "rt_parent (r_rstack r ! 0) = None"
    using R by (auto simp: reading_def reading_core_def buffer_at_def)
  obtain buf where buf: "buf_of r = Inr buf" using buffer_split [OF c(1)] by blast
  note line = readLine_spec(2) [OF c(1) l(1)] and num = line_in_buffer(1) [OF c(1) buf l(1)]
  let ?cell = "\<lparr>rr_type = REDIS_REPLY_ARRAY, rr_integer = 0, rr_len = 0, rr_str = None, rr_elements = size64 (int32 (num l)),
           rr_element = None\<rparr>"
  have create: "createArrayObject M (r_rstack r) 0 (int32 (num l)) h = Inr (Suc (length h), h @ [Some ?cell])"
    using M l(3) c(5) by (simp add: createArrayObject_def createReplyObject_def link_parent_def)
  define st where "st = (r_rstack r)[0 := (r_rstack r ! 0)\<lparr>rt_elements := int32 (num l), rt_obj := Suc (length h)\<rparr>,
    1 := \<lparr>rt_type = -1, rt_elements = -1, rt_idx = 0, rt_obj = 0, rt_parent = Some 0, rt_privdata = r_privdata r\<rparr>]"
  let ?r = "r\<lparr>r_pos := r_pos r + (length l + 2), r_rstack := st, r_ridx := 1, r_reply := Suc (length h)\<rparr>"
  have st: "length st = 9" "rt_obj (st ! 0) = Suc (length h)" "rt_type (st ! 1) = -1" "rt_parent (st ! 1) = Some 0"
    using c(4) by (simp_all add: st_def)
  have "processMultiBulkItem r h = Inr (REDIS_OK, ?r, h @ [Some ?cell])"
    unfolding processMultiBulkItem_def
    using l c create buf conjunct1 [OF line] num
    by (auto simp: Let_def call_fn_def defaultFunctions_def push_task_def st_def)
  moreover have "buffer_at ?r b'" using buffer_at_rstack [OF st(1) conjunct2 [OF line]] by simp
  ultimately show ?thesis using st c(3)
    by (intro exI [of _ ?r] exI [of _ "h @ [Some ?cell]"]) simp
qed

text \<open>
  C38: an array whose announced length is positive but is zero or negative as an \<^verbatim>\<open>int\<close>, such as
  4294967296, crashes the client: the array object gets no element vector, but its elements are read
  and the first integer among them is stored through the \<^verbatim>\<open>NULL\<close> vector.
\<close>

theorem reader_huge_array_crash:
  assumes "at_rest (heap_addr h) (heap_holds h) (defaultFunctions M) [] None (CHR ''*'' # l @ CRLF @ CHR '':'' # v @ CRLF) r h"
    "CR \<notin> set l" "CR \<notin> set v" "0 < num l" "int32 (num l) \<le> 0" "\<forall>n. mem_ok M n"
  shows "redisReaderGetReply r h = Inl NullDeref"
proof -
  let ?b = "CHR '':'' # v @ CRLF"
  note first = dflt.first_task_reading [OF assms(1) [unfolded defaultFunctions_eq]]
  obtain r1 where r1: "processItem (first_task r) h = process_typed REDIS_REPLY_ARRAY r1 h"
    "reading (heap_addr h) (heap_holds h) (defaultFunctions M) [] (Some REDIS_REPLY_ARRAY) (l @ CRLF @ ?b) r1 h"
    using dflt.processItem_fresh(3) [OF first(1) refl, of REDIS_REPLY_ARRAY] unfolding defaultFunctions_eq by auto
  have s: "split_crlf (l @ CRLF @ ?b) = Some (l, ?b)" using assms(2) by (rule split_crlf_line)
  from huge_array_opens [OF r1(2) s assms(4-6)] obtain r2 h2 where
    r2: "processMultiBulkItem r1 h = Inr (REDIS_OK, r2, h2)" "buffer_at r2 ?b" "r_ridx r2 = 1"
      "r_fn r2 = Some (defaultFunctions M)" "rt_type (r_rstack r2 ! 1) = -1" "rt_parent (r_rstack r2 ! 1) = Some 0"
      "obj_at h2 (rt_obj (r_rstack r2 ! 0)) =
        Inr \<lparr>rr_type = REDIS_REPLY_ARRAY, rr_integer = 0, rr_len = 0, rr_str = None, rr_elements = size64 (int32 (num l)),
           rr_element = None\<rparr>" "rt_obj (r_rstack r2 ! 0) \<le> length h2" "0 < rt_obj (r_rstack r2 ! 0)" by blast
  have 1: "processItem (first_task r) h = Inr (REDIS_OK, r2, h2)" using r1(1) r2(1) by (simp add: process_typed_def)
  obtain bs where bs: "buf_of r2 = Inr bs" using buffer_split [OF r2(2)] by blast
  note byte = read_byte [OF r2(2) bs]
  let ?r = "r2\<lparr>r_pos := r_pos r2 + 1, r_rstack := (r_rstack r2)[1 := (r_rstack r2 ! 1)\<lparr>rt_type := REDIS_REPLY_INTEGER\<rparr>]\<rparr>"
  have len: "length (r_rstack r2) = 9" using r2(2) by (simp add: buffer_at_def)
  have 2: "processItem r2 h2 = processLineItem ?r h2"
    using r2(3,5) byte len by (simp add: processItem_def process_typed_def Let_def)
  have buf: "buffer_at ?r (v @ CRLF @ [])" using buffer_at_rstack [OF _ byte(2)] len by simp
  have sv: "split_crlf (v @ CRLF @ []) = Some (v, [])" using assms(3) by (rule split_crlf_line)
  have bs': "buf_of ?r = Inr bs" using byte(4) by (simp add: buf_of_def)
  note line = conjunct1 [OF readLine_spec(2) [OF buf sv]] and num = line_in_buffer(1) [OF buf bs' sv]
  have at: "obj_at (h2 @ [x]) (rt_obj (r_rstack r2 ! 0)) = obj_at h2 (rt_obj (r_rstack r2 ! 0))" for x
  proof -
    have "rt_obj (r_rstack r2 ! 0) - 1 < length h2" using r2(8,9) by linarith
    then show ?thesis using r2(8) by (simp add: obj_at_def nth_append)
  qed
  have "createIntegerObject M (r_rstack ?r) 1 (num v) h2 = Inl NullDeref"
    using assms(6) r2(6,7) len at
    by (simp add: createIntegerObject_def createReplyObject_def link_parent_def)
  then have 3: "processLineItem ?r h2 = Inl NullDeref"
    using r2(3,4) len bs' line num
    by (simp add: processLineItem_def call_fn_def defaultFunctions_def Let_def)
  have ridx: "0 \<le> r_ridx (first_task r)" "r_err r = 0"
    using first(1) assms(1) by (auto simp: reading_def reading_core_def at_rest_def buffer_at_def)
  have "item_loop (Suc (Suc f)) (first_task r) h = Inl NullDeref" for f using 1 2 3 ridx r2(3) by simp
  moreover have "r_len r \<noteq> 0" using assms(1) by (auto simp: at_rest_def reading_def reading_core_def buffer_at_def)
  ultimately show ?thesis using ridx(2) by (simp add: redisReaderGetReply_def)
qed

theorem reader_huge_array_crash_witness:
  "\<exists>r1 r. redisReaderCreateWithFunctions granting (Some (defaultFunctions granting)) = Inr (Some r1) \<and>
    redisReaderFeed granting r1 (Some (''*4294967296'' @ CRLF @ '':1'' @ CRLF)) [] = Inr (REDIS_OK, r, []) \<and>
    redisReaderGetReply r [] = Inl NullDeref"
proof -
  let ?b = "''*4294967296'' @ CRLF @ '':1'' @ CRLF"
  obtain r1 where r1: "redisReaderCreateWithFunctions granting (Some (defaultFunctions granting)) = Inr (Some r1)"
    using sdsnewlen_of [of 0 "[]" granting] by (auto simp: redisReaderCreateWithFunctions_def sdsempty_def)
  have R: "at_rest (heap_addr []) (heap_holds []) (defaultFunctions granting) [] None [] r1 []" by (rule created_at_rest [OF r1])
  obtain r where r: "redisReaderFeed granting r1 (Some ?b) [] = Inr (REDIS_OK, r, [])"
    "at_rest (heap_addr []) (heap_holds []) (defaultFunctions granting) [] None ?b r []"
    using dflt.redisReaderFeed_sim [OF R [unfolded defaultFunctions_eq], of ?b granting]
    unfolding defaultFunctions_eq by auto
  have n: "num ''4294967296'' = 4294967296"
    by (simp add: isdigit_def digit_val_def char_code_def int64_id)
  have "int32 4294967296 = 0" by (simp add: int32_def signed_take_bit_eq_take_bit_shift take_bit_int_def)
  with reader_huge_array_crash [of "[]" granting "''4294967296''" "''1''" r] n r r1 show ?thesis by auto
qed

end
