(* ===== verification/Sds_Text.thy ===== *)
theory Sds_Text
  imports Sds
begin

text \<open>
  The operations of \<^verbatim>\<open>src/sds.c\<close> on text: numbers to decimal, formatted appends, splitting and
  joining, quoting and the parser of quoted arguments. They are clients of the appendable
  string of \<open>Sds\<close>: their lemmas rest on the facts of the interface \<open>append_buffer\<close>.
\<close>

section \<open>Numbers\<close>

text \<open>The \<^verbatim>\<open>do ... while(v)\<close> loop that writes the digits, least significant first, and the loop
  that reverses them in place.\<close>

fun rev_digits :: "nat \<Rightarrow> bytes" where
  "rev_digits v = digit_char (v mod 10) # (if v div 10 \<noteq> 0 then rev_digits (v div 10) else [])"

declare rev_digits.simps [simp del]

function swap_loop :: "bytes \<Rightarrow> nat \<Rightarrow> nat \<Rightarrow> bytes" where
  "swap_loop b s p = (if s < p then swap_loop (b[s := b ! p, p := b ! s]) (s + 1) (p - 1) else b)"
  by pat_completeness auto
termination
  by (relation "measure (\<lambda>(b, s, p). p - s)") auto

declare swap_loop.simps [simp del]

abbreviation SDS_LLSTR_SIZE :: nat where "SDS_LLSTR_SIZE \<equiv> 21"

text \<open>The result is the buffer written, terminator included, and the length returned; \<open>room\<close>
  is the size of the caller's buffer.\<close>

definition ll2str_store :: "nat \<Rightarrow> bytes \<Rightarrow> (bytes \<times> nat) c_res" where
  "ll2str_store room out =
     (let l = length out in
      if room < l + 1 then Inl OutOfBounds
      else Inr (swap_loop (out @ [NUL]) 0 (l - 1), l))"

definition sdsll2str :: "nat \<Rightarrow> int \<Rightarrow> (bytes \<times> nat) c_res" where
  "sdsll2str room value =
     (let v = size64 (if value < 0 then int64 (- value) else value)
      in ll2str_store room (rev_digits v @ (if value < 0 then ''-'' else [])))"

definition sdsull2str :: "nat \<Rightarrow> nat \<Rightarrow> (bytes \<times> nat) c_res" where
  "sdsull2str room v = ll2str_store room (rev_digits v)"

definition sdsfromlonglong :: "mem \<Rightarrow> int \<Rightarrow> sdshdr option c_res" where
  "sdsfromlonglong M value =
     (let v = size64 (if value < 0 then int64 (- value) else value);
          out = (if value < 0 then ''-'' else []) @ rev (rev_digits v)
      in if 32 < length out then Inl OutOfBounds else sdsnewlen M (Some out) (length out))"

section \<open>Formatted appends\<close>

text \<open>
  \<open>out\<close> is the text the format stands for. \<^verbatim>\<open>vsnprintf\<close> writes at most \<^verbatim>\<open>buflen - 1\<close> bytes of
  it and a NUL; the loop doubles the buffer until the byte before the last is still NUL.
\<close>

definition vsnprintf_buf :: "mem \<Rightarrow> nat \<Rightarrow> bytes \<Rightarrow> bytes" where
  "vsnprintf_buf M buflen out =
     (let junk = (map (mem_junk M) [0..<buflen])[buflen - 2 := NUL];
          w = take (buflen - 1) out @ [NUL]
      in w @ drop (length w) junk)"

lemma vsnprintf_buf_last:
  assumes "2 \<le> buflen" "length out + 2 \<le> buflen"
  shows "vsnprintf_buf M buflen out ! (buflen - 2) = NUL"
proof (cases "buflen = length out + 2")
  case False
  then have "length out + 3 \<le> buflen" using assms by linarith
  then obtain k where "buflen = length out + 3 + k" using le_Suc_ex by blast
  then show ?thesis by (simp add: vsnprintf_buf_def Let_def nth_append numeral_3_eq_3)
qed (simp add: vsnprintf_buf_def Let_def nth_append)

function vprintf_loop :: "mem \<Rightarrow> nat \<Rightarrow> bytes \<Rightarrow> bytes option c_res" where
  "vprintf_loop M buflen out =
     (if buflen < 2 then Inl OutOfBounds
      else if \<not> mem_ok M buflen then Inr None
      else
        (let buf = vsnprintf_buf M buflen out in
         if buf ! (buflen - 2) \<noteq> NUL then vprintf_loop M (buflen * 2) out else Inr (Some buf)))"
  by pat_completeness auto
termination
proof (relation "measure (\<lambda>(M, buflen, out). length out + 2 - buflen)")
  fix M buflen out buf
  assume a: "\<not> buflen < 2" and buf: "buf = vsnprintf_buf M buflen out" "buf ! (buflen - 2) \<noteq> NUL"
  have "buflen < length out + 2"
    using vsnprintf_buf_last [of buflen out M] a buf by (meson not_less)
  with a show "((M, buflen * 2, out), (M, buflen, out)) \<in> measure (\<lambda>(M, buflen, out). length out + 2 - buflen)"
    by auto
qed simp

definition sdscatvprintf :: "mem \<Rightarrow> sdshdr \<Rightarrow> bytes \<Rightarrow> sdshdr option c_res" where
  "sdscatvprintf M s out =
     bind_c (vprintf_loop M 16 out)
       (\<lambda>b. case b of None \<Rightarrow> Inr None | Some buf \<Rightarrow> sdscat M s buf)"

definition sdscatprintf :: "mem \<Rightarrow> sdshdr \<Rightarrow> bytes \<Rightarrow> sdshdr option c_res" where
  "sdscatprintf M s out = sdscatvprintf M s out"

text \<open>
  \<^verbatim>\<open>sdscatfmt\<close> reads its arguments from a \<^verbatim>\<open>va_list\<close>: \<open>fmt_arg\<close> is one argument with the type
  it was passed with. A conversion that finds an argument of another type, or none, is
  undefined behaviour and the model faults. \<open>fmt_put\<close> is the common tail of the conversions:
  make room for \<^verbatim>\<open>l\<close> bytes, copy them to \<^verbatim>\<open>s+i\<close>, move \<^verbatim>\<open>len\<close>, \<^verbatim>\<open>free\<close> and \<^verbatim>\<open>i\<close>.
\<close>

datatype fmt_arg = ArgStr bytes | ArgSds sdshdr | ArgInt int | ArgLL int | ArgU nat | ArgULL nat
  | ArgSize nat

definition fmt_room :: "mem \<Rightarrow> sdshdr \<Rightarrow> int \<Rightarrow> sdshdr c_res" where
  "fmt_room M s l =
     (if sh_free s < l then
        (case sdsMakeRoomFor M s (size64 l) of None \<Rightarrow> Inl NullDeref | Some s' \<Rightarrow> Inr s')
      else Inr s)"

definition fmt_put :: "mem \<Rightarrow> sdshdr \<Rightarrow> int \<Rightarrow> bytes \<Rightarrow> (sdshdr \<times> int) c_res" where
  "fmt_put M s i t =
     (let l = int32 (int (length t)) in
      bind_c (fmt_room M s l) (\<lambda>s.
        if i < 0 then Inl OutOfBounds
        else bind_c (memcpy (sh_buf s) (nat i) t) (\<lambda>b.
          Inr (s\<lparr>sh_buf := b, sh_len := int32 (sh_len s + l), sh_free := int32 (sh_free s - l)\<rparr>,
               int32 (i + l)))))"

definition fmt_putc :: "sdshdr \<Rightarrow> int \<Rightarrow> char \<Rightarrow> (sdshdr \<times> int) c_res" where
  "fmt_putc s i c =
     (if i < 0 then Inl OutOfBounds
      else bind_c (memcpy (sh_buf s) (nat i) [c]) (\<lambda>b.
        Inr (s\<lparr>sh_buf := b, sh_len := int32 (sh_len s + 1), sh_free := int32 (sh_free s - 1)\<rparr>,
             int32 (i + 1))))"

text \<open>What one conversion writes, and the arguments left.\<close>

definition fmt_conv :: "char \<Rightarrow> fmt_arg list \<Rightarrow> (bytes \<times> fmt_arg list) option c_res" where
  "fmt_conv next args =
     (if next = CHR ''s'' then
        (case args of ArgStr t # rest \<Rightarrow> Inr (Some (cstr t, rest)) | _ \<Rightarrow> Inl BadVarArg)
      else if next = CHR ''S'' then
        (case args of
           ArgSds t # rest \<Rightarrow>
             (if sdslen t \<le> length (sh_buf t) then Inr (Some (take (sdslen t) (sh_buf t), rest))
              else Inl OutOfBounds)
         | _ \<Rightarrow> Inl BadVarArg)
      else if next = CHR ''i'' \<or> next = CHR ''I'' then
        bind_c (case args of
            ArgInt n # rest \<Rightarrow> if next = CHR ''i'' then Inr (n, rest) else Inl BadVarArg
          | ArgLL n # rest \<Rightarrow> if next = CHR ''I'' then Inr (n, rest) else Inl BadVarArg
          | _ \<Rightarrow> Inl BadVarArg)
          (\<lambda>(num, rest). bind_c (sdsll2str SDS_LLSTR_SIZE num)
             (\<lambda>(buf, l). Inr (Some (take l buf, rest))))
      else if next = CHR ''u'' \<or> next = CHR ''U'' \<or> next = CHR ''T'' then
        bind_c (case args of
            ArgU n # rest \<Rightarrow> if next = CHR ''u'' then Inr (n, rest) else Inl BadVarArg
          | ArgULL n # rest \<Rightarrow> if next = CHR ''U'' then Inr (n, rest) else Inl BadVarArg
          | ArgSize n # rest \<Rightarrow> if next = CHR ''T'' then Inr (n, rest) else Inl BadVarArg
          | _ \<Rightarrow> Inl BadVarArg)
          (\<lambda>(unum, rest). bind_c (sdsull2str SDS_LLSTR_SIZE unum)
             (\<lambda>(buf, l). Inr (Some (take l buf, rest))))
      else Inr None)"

text \<open>The loop over the format. A \<^verbatim>\<open>%\<close> before the terminator makes \<^verbatim>\<open>f\<close> step over the
  terminating NUL, which is a read outside the format.\<close>

fun fmt_loop :: "mem \<Rightarrow> sdshdr \<Rightarrow> int \<Rightarrow> bytes \<Rightarrow> fmt_arg list \<Rightarrow> (sdshdr \<times> int) c_res" where
  "fmt_loop M s i [] args = Inr (s, i)"
| "fmt_loop M s i (f # fs) args =
     bind_c (if sh_free s = 0 then fmt_room M s 1 else Inr s) (\<lambda>s.
       if f = CHR ''%'' then
         (case fs of
            [] \<Rightarrow> Inl OutOfBounds
          | next # fs' \<Rightarrow>
              bind_c (fmt_conv next args) (\<lambda>cv.
                case cv of
                  Some (t, args') \<Rightarrow>
                    bind_c (fmt_put M s i t) (\<lambda>(s, i). fmt_loop M s i fs' args')
                | None \<Rightarrow> bind_c (fmt_putc s i next) (\<lambda>(s, i). fmt_loop M s i fs' args)))
       else bind_c (fmt_putc s i f) (\<lambda>(s, i). fmt_loop M s i fs args))"

definition sdscatfmt :: "mem \<Rightarrow> sdshdr \<Rightarrow> bytes \<Rightarrow> fmt_arg list \<Rightarrow> sdshdr c_res" where
  "sdscatfmt M s fmt args =
     bind_c (fmt_loop M s (int32 (int (sdslen s))) (cstr fmt) args) (\<lambda>(s, i).
       if i < 0 then Inl OutOfBounds
       else bind_c (memcpy (sh_buf s) (nat i) [NUL]) (\<lambda>b. Inr (s\<lparr>sh_buf := b\<rparr>)))"

section \<open>Splitting and joining\<close>

text \<open>
  The loop of \<^verbatim>\<open>sdssplitlen\<close>: \<open>tokens\<close> are the tokens cut so far, \<^verbatim>\<open>elements\<close> their number,
  \<open>slots\<close> the size of the array. \<open>None\<close> is \<^verbatim>\<open>goto cleanup\<close>.
\<close>

lemma split_skip:
  "sep \<noteq> [] \<Longrightarrow> j + (length sep - Suc 0) < len \<Longrightarrow> len - (j + length sep) < len - j"
  by (cases sep) auto

function split_loop :: "mem \<Rightarrow> bytes \<Rightarrow> nat \<Rightarrow> bytes \<Rightarrow> nat \<Rightarrow> sdshdr list \<Rightarrow> nat \<Rightarrow> nat
    \<Rightarrow> (nat \<times> sdshdr list \<times> nat) option c_res" where
  "split_loop M s len sep slots tokens start j =
     (if sep = [] \<or> \<not> j + (length sep - 1) < len then Inr (Some (slots, tokens, start))
      else
        (let grow = slots < length tokens + 2;
             slots' = (if grow then slots * 2 else slots)
         in if grow \<and> \<not> mem_ok M (8 * slots') then Inr None
            else if take (length sep) (drop j s) = sep then
              (if slots' \<le> length tokens then Inl OutOfBounds
               else bind_c (sdsnewlen M (Some (drop start s)) (j - start)) (\<lambda>t.
                 case t of
                   None \<Rightarrow> Inr None
                 | Some tok \<Rightarrow> split_loop M s len sep slots' (tokens @ [tok])
                                (j + length sep) (j + length sep)))
            else split_loop M s len sep slots' tokens start (Suc j)))"
  by pat_completeness auto
termination
  by (relation "measure (\<lambda>(M, s, len, sep, slots, tokens, start, j). len - j)")
    (auto simp: split_skip)

declare split_loop.simps [simp del]

text \<open>The pair is the returned array (\<open>None\<close> is NULL) and what is stored in \<^verbatim>\<open>*count\<close>
  (\<open>None\<close> when it is left alone).\<close>

definition sdssplitlen :: "mem \<Rightarrow> bytes \<Rightarrow> int \<Rightarrow> bytes \<Rightarrow> int
    \<Rightarrow> (sdshdr list option \<times> nat option) c_res" where
  "sdssplitlen M s len sep seplen =
     (if seplen < 1 \<or> len < 0 then Inr (None, None)
      else if int (length s) < len \<or> int (length sep) < seplen then Inl OutOfBounds
      else if \<not> mem_ok M (8 * 5) then Inr (None, None)
      else if len = 0 then Inr (Some [], Some 0)
      else
        bind_c (split_loop M s (nat len) (take (nat seplen) sep) 5 [] 0 0) (\<lambda>r.
          case r of
            None \<Rightarrow> Inr (None, Some 0)
          | Some (slots, tokens, start) \<Rightarrow>
              if slots \<le> length tokens then Inl OutOfBounds
              else bind_c (sdsnewlen M (Some (drop start s)) (nat len - start)) (\<lambda>t.
                case t of
                  None \<Rightarrow> Inr (None, Some 0)
                | Some tok \<Rightarrow> Inr (Some (tokens @ [tok]), Some (length tokens + 1)))))"

text \<open>A call through a string pointer that may be NULL.\<close>

definition on_sds :: "(sdshdr \<Rightarrow> 'a c_res) \<Rightarrow> sdshdr option \<Rightarrow> 'a c_res" where
  "on_sds f so = (case so of None \<Rightarrow> Inl NullDeref | Some s \<Rightarrow> f s)"

fun join_loop :: "mem \<Rightarrow> (sdshdr \<Rightarrow> 'a \<Rightarrow> sdshdr option c_res) \<Rightarrow> sdshdr option \<Rightarrow> 'a list \<Rightarrow> bytes
    \<Rightarrow> sdshdr option c_res" where
  "join_loop M cat join [] sep = Inr join"
| "join_loop M cat join [a] sep = on_sds (\<lambda>s. cat s a) join"
| "join_loop M cat join (a # as) sep =
     bind_c (on_sds (\<lambda>s. cat s a) join) (\<lambda>join.
       bind_c (on_sds (\<lambda>s. sdscatlen M s sep) join) (\<lambda>join. join_loop M cat join as sep))"

definition sdsjoin :: "mem \<Rightarrow> bytes list \<Rightarrow> bytes \<Rightarrow> sdshdr option c_res" where
  "sdsjoin M argv sep = bind_c (sdsempty M) (\<lambda>join. join_loop M (sdscat M) join argv sep)"

definition sdsjoinsds :: "mem \<Rightarrow> sdshdr list \<Rightarrow> bytes \<Rightarrow> sdshdr option c_res" where
  "sdsjoinsds M argv sep = bind_c (sdsempty M) (\<lambda>join. join_loop M (sdscatsds M) join argv sep)"

section \<open>Quoting\<close>

definition hexdig :: "nat \<Rightarrow> char" where
  "hexdig d = (if d < 10 then char_of (48 + d) else char_of (87 + d))"

definition repr_char :: "mem \<Rightarrow> sdshdr \<Rightarrow> char \<Rightarrow> sdshdr option c_res" where
  "repr_char M s c =
     (if c = CHR 0x5C \<or> c = CHR 0x22 then sdscatprintf M s [CHR 0x5C, c]
      else if c = CHR 0x0A then sdscatlen M s [CHR 0x5C, CHR ''n'']
      else if c = CHR 0x0D then sdscatlen M s [CHR 0x5C, CHR ''r'']
      else if c = CHR 0x09 then sdscatlen M s [CHR 0x5C, CHR ''t'']
      else if c = CHR 0x07 then sdscatlen M s [CHR 0x5C, CHR ''a'']
      else if c = CHR 0x08 then sdscatlen M s [CHR 0x5C, CHR ''b'']
      else if isprint c then sdscatprintf M s [c]
      else sdscatprintf M s [CHR 0x5C, CHR ''x'', hexdig (char_code c div 16), hexdig (char_code c mod 16)])"

fun repr_loop :: "mem \<Rightarrow> sdshdr option \<Rightarrow> bytes \<Rightarrow> sdshdr option c_res" where
  "repr_loop M so [] = Inr so"
| "repr_loop M so (c # p) = bind_c (on_sds (\<lambda>s. repr_char M s c) so) (\<lambda>so. repr_loop M so p)"

definition sdscatrepr :: "mem \<Rightarrow> sdshdr \<Rightarrow> bytes \<Rightarrow> sdshdr option c_res" where
  "sdscatrepr M s p =
     bind_c (sdscatlen M s [CHR 0x22]) (\<lambda>so.
       bind_c (repr_loop M so p) (\<lambda>so. on_sds (\<lambda>s. sdscatlen M s [CHR 0x22]) so))"

definition is_hex_digit :: "char \<Rightarrow> bool" where
  "is_hex_digit c \<longleftrightarrow>
     (let n = char_code c
      in 48 \<le> n \<and> n \<le> 57 \<or> 97 \<le> n \<and> n \<le> 102 \<or> 65 \<le> n \<and> n \<le> 70)"

definition hex_digit_to_int :: "char \<Rightarrow> nat" where
  "hex_digit_to_int c =
     (if isdigit c then digit_val c
      else if c = CHR ''a'' \<or> c = CHR ''A'' then 10
      else if c = CHR ''b'' \<or> c = CHR ''B'' then 11
      else if c = CHR ''c'' \<or> c = CHR ''C'' then 12
      else if c = CHR ''d'' \<or> c = CHR ''D'' then 13
      else if c = CHR ''e'' \<or> c = CHR ''E'' then 14
      else if c = CHR ''f'' \<or> c = CHR ''F'' then 15
      else 0)"

text \<open>
  \<^verbatim>\<open>sdssplitargs\<close> walks a C string with a pointer; the model holds the bytes from the pointer to
  the terminator, so \<open>peek p i\<close> is \<^verbatim>\<open>p[i]\<close>. \<open>arg_loop\<close> is the loop \<^verbatim>\<open>while(!done)\<close>: \<open>None\<close> is
  \<^verbatim>\<open>goto err\<close>, otherwise the token and the pointer after it.
\<close>

datatype quoting = Unquoted | InQ | InSq

definition peek :: "bytes \<Rightarrow> nat \<Rightarrow> char" where
  "peek p i = (if i < length p then p ! i else NUL)"

definition unescape :: "char \<Rightarrow> char" where
  "unescape c =
     (if c = CHR ''n'' then CHR 0x0A else if c = CHR ''r'' then CHR 0x0D
      else if c = CHR ''t'' then CHR 0x09 else if c = CHR ''b'' then CHR 0x08
      else if c = CHR ''a'' then CHR 0x07 else c)"

definition closes :: "bytes \<Rightarrow> bool" where
  "closes p \<longleftrightarrow> peek p 0 = NUL \<or> isspace (peek p 0)"

fun arg_loop :: "mem \<Rightarrow> quoting \<Rightarrow> sdshdr option \<Rightarrow> bytes \<Rightarrow> (sdshdr option \<times> bytes) option c_res"
  where
  "arg_loop M q cur [] = (if q = Unquoted then Inr (Some (cur, [])) else Inr None)"
| "arg_loop M q cur (c # p) =
     (case q of
        InQ \<Rightarrow>
          (if c = CHR 0x5C \<and> peek p 0 = CHR ''x'' \<and> is_hex_digit (peek p 1) \<and> is_hex_digit (peek p 2)
           then
             bind_c (on_sds (\<lambda>s. sdscatlen M s
                 [char_of (hex_digit_to_int (peek p 1) * 16 + hex_digit_to_int (peek p 2))]) cur)
               (\<lambda>cur. arg_loop M InQ cur (drop 3 p))
           else if c = CHR 0x5C \<and> peek p 0 \<noteq> NUL then
             bind_c (on_sds (\<lambda>s. sdscatlen M s [unescape (peek p 0)]) cur)
               (\<lambda>cur. arg_loop M InQ cur (drop 1 p))
           else if c = CHR 0x22 then (if closes p then Inr (Some (cur, p)) else Inr None)
           else bind_c (on_sds (\<lambda>s. sdscatlen M s [c]) cur) (\<lambda>cur. arg_loop M InQ cur p))
      | InSq \<Rightarrow>
          (if c = CHR 0x5C \<and> peek p 0 = CHR 0x27 then
             bind_c (on_sds (\<lambda>s. sdscatlen M s [CHR 0x27]) cur)
               (\<lambda>cur. arg_loop M InSq cur (drop 1 p))
           else if c = CHR 0x27 then (if closes p then Inr (Some (cur, p)) else Inr None)
           else bind_c (on_sds (\<lambda>s. sdscatlen M s [c]) cur) (\<lambda>cur. arg_loop M InSq cur p))
      | Unquoted \<Rightarrow>
          (if c \<in> {CHR '' '', LF, CR, CHR 0x09} then Inr (Some (cur, p))
           else if c = CHR 0x22 then arg_loop M InQ cur p
           else if c = CHR 0x27 then arg_loop M InSq cur p
           else bind_c (on_sds (\<lambda>s. sdscatlen M s [c]) cur) (\<lambda>cur. arg_loop M Unquoted cur p)))"

lemma arg_loop_length:
  "arg_loop M q cur p = Inr (Some (cur', p')) \<Longrightarrow> length p' \<le> length p \<and> (p \<noteq> [] \<longrightarrow> length p' < length p)"
proof (induction M q cur p rule: arg_loop.induct)
  case (2 M q cur c p)
  show ?case
    using 2 by (force simp: bind_c_Inr_iff split: quoting.splits if_splits)
qed (auto split: if_splits)

function splitargs_loop :: "mem \<Rightarrow> sdshdr option list \<Rightarrow> bytes \<Rightarrow> sdshdr option list option c_res" where
  "splitargs_loop M vector p0 =
     (let p = dropWhile isspace p0 in
      if p \<noteq> [] then
        bind_c (bind_c (sdsempty M) (\<lambda>cur. arg_loop M Unquoted cur p)) (\<lambda>r.
          case r of
            None \<Rightarrow> Inr None
          | Some (cur, p') \<Rightarrow>
              (if \<not> mem_ok M (8 * (length vector + 1)) then Inl NullDeref
               else splitargs_loop M (vector @ [cur]) p'))
      else if vector = [] \<and> \<not> mem_ok M 8 then Inr None
      else Inr (Some vector))"
  by pat_completeness auto
termination
proof (relation "measure (\<lambda>(M, vector, p). length p)")
  fix M vector p0 p r rp cur p'
  assume a: "p = dropWhile isspace p0" "p \<noteq> []"
    "bind_c (sdsempty M) (\<lambda>cur. arg_loop M Unquoted cur p) = Inr r" "r = Some rp" "(cur, p') = rp"
  then have "length p' < length p" by (auto dest!: arg_loop_length)
  then have "length p' < length p0" unfolding a (1) by (rule less_le_trans [OF _ length_dropWhile_le])
  then show "((M, vector @ [cur], p'), (M, vector, p0)) \<in> measure (\<lambda>(M, vector, p). length p)"
    by simp
qed simp

declare splitargs_loop.simps [simp del]

definition sdssplitargs :: "mem \<Rightarrow> bytes \<Rightarrow> sdshdr option list option c_res" where
  "sdssplitargs M line = splitargs_loop M [] (cstr line)"

section \<open>Decimal output\<close>

lemma rev_digits_dec: "rev_digits v = rev (dec v)"
proof (induction v rule: rev_digits.induct)
  case (1 v)
  then show ?case
    by (cases "v < 10") (simp_all add: rev_digits.simps [of v] dec_small dec_big)
qed

lemma swap_loop_rev:
  "swap_loop (pre @ mid @ post) (length pre) (length pre + length mid - 1) = pre @ rev mid @ post"
proof (induction "length mid" arbitrary: pre mid post rule: less_induct)
  case less
  show ?case
  proof (cases mid)
    case (Cons x r)
    show ?thesis
    proof (cases r rule: rev_cases)
      case (snoc m y)
      have idx: "(pre @ x # m @ y # post) ! Suc (length pre + length m) = y"
        by (simp add: nth_append)
      have upd: "(pre @ y # m @ y # post)[Suc (length pre + length m) := x] =
          (pre @ [y]) @ m @ x # post"
        by (simp add: list_update_append)
      have IH: "swap_loop ((pre @ [y]) @ m @ x # post) (length (pre @ [y]))
          (length (pre @ [y]) + length m - 1) = (pre @ [y]) @ rev m @ x # post"
        by (rule less [of m]) (simp add: Cons snoc)
      show ?thesis
        using Cons snoc IH by (subst swap_loop.simps) (simp add: idx upd)
    qed (simp add: Cons swap_loop.simps)
  next
    case Nil
    have "\<not> length pre < length pre - 1" by linarith
    with Nil show ?thesis by (simp add: swap_loop.simps)
  qed
qed

lemma length_dec_le:
  assumes "n < 10 ^ k" "0 < k"
  shows "length (dec n) \<le> k"
proof (cases "n < 10")
  case False
  then have "(10::nat) ^ (length (dec n) - 1) \<le> n" using length_dec_mono_lower by blast
  with assms have "(10::nat) ^ (length (dec n) - 1) < 10 ^ k" by linarith
  then have "length (dec n) - 1 < k" by (rule power_less_imp_less_exp [rotated]) simp
  then show ?thesis using length_dec_pos [of n] by linarith
qed (use assms in \<open>simp add: dec_small\<close>)

lemma length_dec_64: "n < 2 ^ 64 \<Longrightarrow> length (dec n) \<le> 20"
  by (rule length_dec_le) simp_all

lemma ll2str_store_rev:
  "length out < room \<Longrightarrow> ll2str_store room out = Inr (rev out @ [NUL], length out)"
  using swap_loop_rev [of "[]" out "[NUL]"] by (simp add: ll2str_store_def Let_def)

lemma abs64:
  assumes "- (2 ^ 63) \<le> v" "v < 2 ^ 63"
  shows "size64 (if v < 0 then int64 (- v) else v) = nat \<bar>v\<bar>"
proof (cases "v = - (2 ^ 63)")
  case True
  then show ?thesis
    by (simp add: int64_def size64_def signed_take_bit_eq_take_bit_shift take_bit_int_def)
qed (use assms in \<open>auto simp: int64_id size64_id\<close>)

lemma dec_int_abs: "dec_int v = (if v < 0 then ''-'' else []) @ dec (nat \<bar>v\<bar>)"
  by (simp add: dec_int_def)

lemma length_dec_int_64:
  assumes "- (2 ^ 63) \<le> v" "v < 2 ^ 63"
  shows "length (dec_int v) \<le> 20"
proof -
  have "nat \<bar>v\<bar> < 10 ^ 19" using assms by (auto simp: nat_less_iff)
  then have "length (dec (nat \<bar>v\<bar>)) \<le> 19" by (rule length_dec_le) simp
  then show ?thesis by (cases "v < 0") (simp_all add: dec_int_abs)
qed

lemma sdsll2str_dec:
  assumes "- (2 ^ 63) \<le> v" "v < 2 ^ 63"
  shows "sdsll2str SDS_LLSTR_SIZE v = Inr (dec_int v @ [NUL], length (dec_int v))"
proof -
  let ?out = "rev_digits (nat \<bar>v\<bar>) @ (if v < 0 then ''-'' else [])"
  have out: "rev ?out = dec_int v" by (simp add: dec_int_abs rev_digits_dec)
  then have len: "length ?out = length (dec_int v)" by (metis length_rev)
  then have "length ?out < SDS_LLSTR_SIZE" using length_dec_int_64 [OF assms] by linarith
  then show ?thesis
    unfolding sdsll2str_def abs64 [OF assms] Let_def by (subst ll2str_store_rev) (simp_all only: out len)
qed

lemma sdsull2str_dec:
  assumes "v < 2 ^ 64"
  shows "sdsull2str SDS_LLSTR_SIZE v = Inr (dec v @ [NUL], length (dec v))"
  using length_dec_64 [OF assms]
  by (simp add: sdsull2str_def ll2str_store_rev rev_digits_dec)

section \<open>Formatted appends add the formatted text\<close>

lemma cstr_take: "cstr (take k s) = take k (cstr s)"
  unfolding cstr_def
proof (induction s arbitrary: k)
  case (Cons c s)
  then show ?case by (cases k) auto
qed simp

lemma length_cstr_le: "s ! i = NUL \<Longrightarrow> i < length s \<Longrightarrow> length (cstr s) \<le> i"
  unfolding cstr_def
proof (induction s arbitrary: i)
  case (Cons c s)
  then show ?case by (cases i) auto
qed simp

lemma cstr_prefix_NUL:
  assumes "length (cstr out) \<le> k" 
  shows "cstr (take k out @ NUL # rest) = cstr out"
proof -
  have "cstr (take k out @ NUL # rest) = cstr (take k out)"
  proof (cases "NUL \<in> set (take k out)")
    case False
    then have "cstr (take k out) = take k out"
      unfolding cstr_def takeWhile_eq_all_conv by blast
    with False show ?thesis by (metis cstr_append_NUL)
  qed (simp add: cstr_def takeWhile_append1)
  also have "\<dots> = take k (cstr out)" by (rule cstr_take)
  finally show ?thesis using assms by simp
qed

lemma vprintf_loop_cstr:
  assumes "2 \<le> buflen"
  shows "vprintf_loop M buflen out = Inr None \<and> (\<exists>n. \<not> mem_ok M n) \<or>
    (\<exists>buf. vprintf_loop M buflen out = Inr (Some buf) \<and> cstr buf = cstr out)"
  using assms
proof (induction M buflen out rule: vprintf_loop.induct)
  case (1 M buflen out)
  let ?b = "vsnprintf_buf M buflen out"
  have b: "?b = take (buflen - 1) out @ NUL # drop (Suc (min (length out) (buflen - 1)))
      ((map (mem_junk M) [0..<buflen])[buflen - 2 := NUL])"
    by (simp add: vsnprintf_buf_def Let_def)
  have "length (cstr out) \<le> buflen - 1" if "?b ! (buflen - 2) = NUL"
  proof (cases "buflen - 1 \<le> length out")
    case True
    moreover have lt: "buflen - 2 < buflen - 1" "buflen - 2 < length out" using True 1(2) by linarith+
    ultimately have "out ! (buflen - 2) = NUL" using that by (simp add: b nth_append)
    then show ?thesis using length_cstr_le [of out "buflen - 2"] lt by linarith
  next
    case False
    then show ?thesis unfolding cstr_def by (meson le_trans length_takeWhile_le nat_le_linear)
  qed
  then have stop: "cstr ?b = cstr out" if "?b ! (buflen - 2) = NUL"
    using that unfolding b by (intro cstr_prefix_NUL) (simp add: b)
  show ?case
  proof (cases "mem_ok M buflen \<and> ?b ! (buflen - 2) \<noteq> NUL")
    case True
    have "vprintf_loop M buflen out = vprintf_loop M (buflen * 2) out"
      using True 1(2) by (subst vprintf_loop.simps) (simp add: Let_def)
    then show ?thesis using 1(1) [OF _ _ refl] 1(2) True by simp
  next
    case False
    then show ?thesis using stop 1(2) by (subst vprintf_loop.simps) (auto simp: Let_def)
  qed
qed

lemma sdscat_eq: "sdscat M s t = sdscatlen M s (cstr t)"
  by (simp add: sdscat_def)

lemma sdscatprintf_cases:
  "sdscatprintf M s out = Inr None \<and> (\<exists>n. \<not> mem_ok M n) \<or>
   sdscatprintf M s out = sdscatlen M s (cstr out)"
  using vprintf_loop_cstr [of 16 M out]
  by (auto simp: sdscatprintf_def sdscatvprintf_def sdscat_eq)

lemma sdscatprintf_grants:
  "\<forall>n. mem_ok M n \<Longrightarrow> sdscatprintf M s out = sdscatlen M s (cstr out)"
  using sdscatprintf_cases by blast

subsection \<open>The format interpreter\<close>

text \<open>\<open>fmt_spec\<close> is the text a format stands for; \<open>None\<close> where the arguments do not fit it.\<close>

fun arg_ok :: "fmt_arg \<Rightarrow> bool" where
  "arg_ok (ArgStr t) = True"
| "arg_ok (ArgSds t) = sds_ok t"
| "arg_ok (ArgInt n) = (- (2 ^ 31) \<le> n \<and> n < 2 ^ 31)"
| "arg_ok (ArgLL n) = (- (2 ^ 63) \<le> n \<and> n < 2 ^ 63)"
| "arg_ok (ArgU n) = (n < 2 ^ 32)"
| "arg_ok (ArgULL n) = (n < 2 ^ 64)"
| "arg_ok (ArgSize n) = (n < 2 ^ 64)"

fun arg_text :: "char \<Rightarrow> fmt_arg \<Rightarrow> bytes option" where
  "arg_text c (ArgStr t) = (if c = CHR ''s'' then Some (cstr t) else None)"
| "arg_text c (ArgSds t) = (if c = CHR ''S'' then Some (content t) else None)"
| "arg_text c (ArgInt n) = (if c = CHR ''i'' then Some (dec_int n) else None)"
| "arg_text c (ArgLL n) = (if c = CHR ''I'' then Some (dec_int n) else None)"
| "arg_text c (ArgU n) = (if c = CHR ''u'' then Some (dec n) else None)"
| "arg_text c (ArgULL n) = (if c = CHR ''U'' then Some (dec n) else None)"
| "arg_text c (ArgSize n) = (if c = CHR ''T'' then Some (dec n) else None)"

fun fmt_spec :: "bytes \<Rightarrow> fmt_arg list \<Rightarrow> bytes option" where
  "fmt_spec [] args = Some []"
| "fmt_spec [f] args = (if f = CHR ''%'' then None else Some [f])"
| "fmt_spec (f # next # fs) args =
     (if f \<noteq> CHR ''%'' then map_option ((#) f) (fmt_spec (next # fs) args)
      else if next \<notin> set ''sSiIuUT'' then map_option ((#) next) (fmt_spec fs args)
      else (case args of
          [] \<Rightarrow> None
        | a # rest \<Rightarrow> (case arg_text next a of
              None \<Rightarrow> None
            | Some t \<Rightarrow> map_option ((@) t) (fmt_spec fs rest))))"

lemma fmt_conv_arg:
  assumes "arg_ok a" "arg_text c a = Some t"
  shows "fmt_conv c (a # rest) = Inr (Some (t, rest))"
  using assms
  by (cases a)
    (auto simp: fmt_conv_def sdsll2str_dec sdsull2str_dec content_def sdslen_ok
        dest: sds_okD(6) split: if_splits)

lemma fmt_conv_other: "c \<notin> set ''sSiIuUT'' \<Longrightarrow> fmt_conv c args = Inr None"
  by (simp add: fmt_conv_def)

lemma fmt_room_raw:
  assumes "w \<noteq> []" "length c + length w \<le> 2 ^ 31" "length c + n + SDS_MAX_PREALLOC < 2 ^ 31"
    "\<forall>n. mem_ok M n"
  shows "\<exists>w'. fmt_room M (sds_raw c w) (int n) = Inr (sds_raw c w') \<and> n < length w' \<and>
     length c + length w' \<le> 2 ^ 31"
proof (cases "int (length w) - 1 < int n")
  case True
  then show ?thesis
    using sdsMakeRoomFor_raw [OF assms (1-3), of M] assms (3,4) by (auto simp: fmt_room_def)
qed (use assms in \<open>auto simp: fmt_room_def\<close>)

lemma fmt_put_raw:
  assumes "w \<noteq> []" "length c + length w \<le> 2 ^ 31" "length c + length t + SDS_MAX_PREALLOC < 2 ^ 31"
    "\<forall>n. mem_ok M n"
  shows "\<exists>w'. fmt_put M (sds_raw c w) (int (length c)) t =
      Inr (sds_raw (c @ t) w', int (length (c @ t))) \<and> w' \<noteq> [] \<and> length (c @ t) + length w' \<le> 2 ^ 31"
proof -
  obtain w' where w': "fmt_room M (sds_raw c w) (int (length t)) = Inr (sds_raw c w')"
    "length t < length w'" "length c + length w' \<le> 2 ^ 31"
    using fmt_room_raw [OF assms] by blast
  have "fmt_put M (sds_raw c w) (int (length c)) t =
      Inr (sds_raw (c @ t) (drop (length t) w'), int (length (c @ t)))"
    using w' assms (3) by (simp add: fmt_put_def Let_def int32_id)
  then show ?thesis using w' by auto
qed

lemma fmt_putc_raw:
  assumes "1 < length w" "length c + length w \<le> 2 ^ 31" "length c + 1 < 2 ^ 31"
  shows "fmt_putc (sds_raw c w) (int (length c)) x =
    Inr (sds_raw (c @ [x]) (tl w), int (length (c @ [x])))"
  using assms
  by (cases w) (simp_all add: fmt_putc_def int32_id sds_raw_def)

lemma fmt_first_raw:
  assumes "w \<noteq> []" "length c + length w \<le> 2 ^ 31" "length c + 1 + SDS_MAX_PREALLOC < 2 ^ 31"
    "\<forall>n. mem_ok M n"
  shows "\<exists>w'. (if sh_free (sds_raw c w) = 0 then fmt_room M (sds_raw c w) 1 else Inr (sds_raw c w)) =
      Inr (sds_raw c w') \<and> 1 < length w' \<and> length c + length w' \<le> 2 ^ 31"
proof (cases "length w = 1")
  case True
  then show ?thesis using fmt_room_raw [OF assms] by simp
next
  case False
  with assms(1) have "1 < length w" by (cases w) auto
  then show ?thesis using assms by auto
qed

lemma fmt_loop_raw:
  assumes "fmt_spec fs args = Some out" "list_all arg_ok args" "w \<noteq> []"
    "length c + length w \<le> 2 ^ 31" "length c + length out + 1 + SDS_MAX_PREALLOC < 2 ^ 31"
    "\<forall>n. mem_ok M n"
  shows "\<exists>w'. fmt_loop M (sds_raw c w) (int (length c)) fs args =
      Inr (sds_raw (c @ out) w', int (length (c @ out))) \<and> w' \<noteq> [] \<and> length (c @ out) + length w' \<le> 2 ^ 31"
  using assms
proof (induction fs args arbitrary: c w out rule: fmt_spec.induct)
  case (2 f args)
  obtain w1 where w1: "(if sh_free (sds_raw c w) = 0 then fmt_room M (sds_raw c w) 1
      else Inr (sds_raw c w)) = Inr (sds_raw c w1)" "1 < length w1" "length c + length w1 \<le> 2 ^ 31"
    using fmt_first_raw [OF 2(3,4) _ 2(6)] 2(5) by auto
  have f: "f \<noteq> CHR ''%''" "out = [f]" using 2(1) by (auto split: if_splits)
  have "tl w1 \<noteq> []" using w1(2) by (cases w1) auto
  then show ?case
    using w1 f 2(5) by (auto simp: w1(1) fmt_putc_raw simp del: sds_raw_sel)
next
  case (3 f "next" fs args)
  obtain w1 where w1: "(if sh_free (sds_raw c w) = 0 then fmt_room M (sds_raw c w) 1
      else Inr (sds_raw c w)) = Inr (sds_raw c w1)" "1 < length w1" "length c + length w1 \<le> 2 ^ 31"
    using fmt_first_raw [OF 3(6,7) _ 3(9)] 3(8) by auto
  have tl: "tl w1 \<noteq> []" "length (tl w1) = length w1 - 1" "w1 \<noteq> []" using w1(2) by (cases w1; auto)+
  consider (plain) o' where "f \<noteq> CHR ''%''" "fmt_spec (next # fs) args = Some o'" "out = f # o'"
    | (other) o' where "f = CHR ''%''" "next \<notin> set ''sSiIuUT''" "fmt_spec fs args = Some o'" "out = next # o'"
    | (conv) a rest t o' where "f = CHR ''%''" "next \<in> set ''sSiIuUT''" "args = a # rest"
        "arg_text next a = Some t" "fmt_spec fs rest = Some o'" "out = t @ o'"
    using 3(4) by (auto split: if_splits list.splits option.splits)
  then show ?case
  proof cases
    case plain
    with 3(8) w1 tl have "\<exists>w'. fmt_loop M (sds_raw (c @ [f]) (tl w1)) (int (length (c @ [f]))) (next # fs) args =
        Inr (sds_raw ((c @ [f]) @ o') w', int (length ((c @ [f]) @ o'))) \<and> w' \<noteq> [] \<and>
        length ((c @ [f]) @ o') + length w' \<le> 2 ^ 31"
      by (intro 3(1)) (use 3(5,9) in auto)
    with plain w1 3(8) show ?thesis
      by (auto simp: w1(1) fmt_putc_raw simp del: sds_raw_sel)
  next
    case other
    with 3(8) w1 tl have "\<exists>w'. fmt_loop M (sds_raw (c @ [next]) (tl w1)) (int (length (c @ [next]))) fs args =
        Inr (sds_raw ((c @ [next]) @ o') w', int (length ((c @ [next]) @ o'))) \<and> w' \<noteq> [] \<and>
        length ((c @ [next]) @ o') + length w' \<le> 2 ^ 31"
      by (intro 3(2)) (use 3(5,9) in auto)
    with other w1 3(8) show ?thesis
      by (auto simp: w1(1) fmt_putc_raw fmt_conv_other simp del: sds_raw_sel)
  next
    case conv
    obtain w2 where w2: "fmt_put M (sds_raw c w1) (int (length c)) t =
        Inr (sds_raw (c @ t) w2, int (length (c @ t)))" "w2 \<noteq> []" "length (c @ t) + length w2 \<le> 2 ^ 31"
      using fmt_put_raw [OF tl(3) w1(3) _ 3(9), of t] conv 3(8) by auto
    with conv 3(8) have "\<exists>w'. fmt_loop M (sds_raw (c @ t) w2) (int (length (c @ t))) fs rest =
        Inr (sds_raw ((c @ t) @ o') w', int (length ((c @ t) @ o'))) \<and> w' \<noteq> [] \<and>
        length ((c @ t) @ o') + length w' \<le> 2 ^ 31"
      by (intro 3(3)) (use 3(5,9) conv in auto)
    with conv w1 w2 3(5) show ?thesis
      by (auto simp: w1(1) fmt_conv_arg simp del: sds_raw_sel)
  qed
qed auto

lemma sdscatfmt_text:
  assumes "sds_ok s" "fmt_spec (cstr fmt) args = Some out" "list_all arg_ok args"
    "length (content s) + length out + 1 < sds_cap" "\<forall>n. mem_ok M n"
  shows "\<exists>s'. sdscatfmt M s fmt args = Inr s' \<and> sds_ok s' \<and> content s' = content s @ out"
proof -
  obtain c z where s: "s = sds_of c z" "length c + length z < 2 ^ 31" using assms(1) by (rule sds_ok_cases)
  have "length c + length (NUL # z) \<le> 2 ^ 31" "length c + length out + 1 + SDS_MAX_PREALLOC < 2 ^ 31"
    using s assms(4) by auto
  from fmt_loop_raw [OF assms(2,3) _ this assms(5)] obtain w where
    w: "fmt_loop M s (int (length c)) (cstr fmt) args = Inr (sds_raw (c @ out) w, int (length (c @ out)))"
      "w \<noteq> []" "length (c @ out) + length w \<le> 2 ^ 31"
    unfolding s(1) sds_of_raw by auto
  obtain x y where xy: "w = x # y" using w(2) by (cases w) auto
  have "sdscatfmt M s fmt args = Inr (sds_of (c @ out) y)"
    using w s xy assms(4) by (simp add: sdscatfmt_def int32_id sds_of_raw) (simp add: sds_raw_def nat_add_distrib)
  then show ?thesis using w(3) xy s by simp
qed
section \<open>Splitting and joining are inverse\<close>

fun join_spec :: "bytes \<Rightarrow> bytes list \<Rightarrow> bytes" where
  "join_spec sep [] = []"
| "join_spec sep [a] = a"
| "join_spec sep (a # as) = a @ sep @ join_spec sep as"

definition no_occ :: "bytes \<Rightarrow> bytes \<Rightarrow> bool" where
  "no_occ sep t \<longleftrightarrow> (\<forall>i \<le> length t. take (length sep) (drop i t) \<noteq> sep)"

lemma join_spec_snoc: "as \<noteq> [] \<Longrightarrow> join_spec sep (as @ [b]) = join_spec sep as @ sep @ b"
proof (induction sep as rule: join_spec.induct)
  case (3 sep a v va)
  then show ?case by (cases va) auto
qed auto

lemma join_spec_split_last:
  "join_spec sep (as @ [a @ sep @ b]) = join_spec sep (as @ [a] @ [b])"
proof (cases as)
  case (Cons x xs)
  then show ?thesis using join_spec_snoc [of "as @ [a]" sep b] join_spec_snoc [of as sep]
    by simp
qed simp

lemma no_occ_slice:
  assumes "sep \<noteq> []" "\<And>i. a \<le> i \<Longrightarrow> i < b \<Longrightarrow> i + length sep \<le> length S \<Longrightarrow> take (length sep) (drop i S) \<noteq> sep"
    "a \<le> b" "b \<le> length S"
  shows "no_occ sep (take (b - a) (drop a S))"
  unfolding no_occ_def
proof (intro allI impI notI)
  fix i assume i: "take (length sep) (drop i (take (b - a) (drop a S))) = sep"
  have "length sep \<le> b - a - i"
    using arg_cong [OF i, of length] by simp
  moreover have "0 < length sep" using assms(1) by simp
  ultimately have "a + i + length sep \<le> b" "a + i < b" using assms(3) by linarith+
  moreover from this have "take (length sep) (drop (a + i) S) = sep"
    using i by (simp add: drop_take min_def add.commute split: if_splits)
  ultimately show False using assms(2) [of "a + i"] assms(4) by simp
qed

text \<open>The loop invariant: the tokens cut so far, joined with what is left, give the input; no
  separator starts between \<^verbatim>\<open>start\<close> and \<^verbatim>\<open>j\<close>; the array has room for one more.\<close>

definition split_inv :: "bytes \<Rightarrow> bytes \<Rightarrow> nat \<Rightarrow> sdshdr list \<Rightarrow> nat \<Rightarrow> nat \<Rightarrow> bool" where
  "split_inv S sep slots tokens start j \<longleftrightarrow>
     start \<le> j \<and> j \<le> length S \<and> length tokens < slots \<and>
     join_spec sep (map content tokens @ [drop start S]) = S \<and>
     (\<forall>t \<in> set tokens. sds_ok t \<and> no_occ sep (content t)) \<and>
     (\<forall>i. start \<le> i \<longrightarrow> i < j \<longrightarrow> i + length sep \<le> length S \<longrightarrow> take (length sep) (drop i S) \<noteq> sep)"

lemma split_loop_inv:
  assumes "split_inv S sep slots tokens start j" "sep \<noteq> []" "S = take len s" "len \<le> length s"
    "len < 2 ^ 31" "\<forall>n. mem_ok M n"
  shows "\<exists>slots' tokens' start'. split_loop M s len sep slots tokens start j =
      Inr (Some (slots', tokens', start')) \<and> split_inv S sep slots' tokens' start' len"
  using assms
proof (induction M s len sep slots tokens start j rule: split_loop.induct)
  case (1 M s len sep slots tokens start j)
  define slots' where "slots' = (if slots < length tokens + 2 then slots * 2 else slots)"
  note inv = 1(3)[unfolded split_inv_def]
  have slots': "length tokens + 2 \<le> slots'" using inv by (auto simp: slots'_def)
  have len: "length S = len" using 1(5,6) by simp
  consider (stop) "\<not> j + (length sep - 1) < len"
    | (hit) "j + (length sep - 1) < len" "take (length sep) (drop j s) = sep"
    | (miss) "j + (length sep - 1) < len" "take (length sep) (drop j s) \<noteq> sep" by blast
  then show ?case
  proof cases
    case stop
    have "split_inv S sep slots tokens start len"
      unfolding split_inv_def
    proof (intro conjI allI impI)
      fix i assume "start \<le> i" "i < len" "i + length sep \<le> length S"
      moreover have "i < j" using stop \<open>i + length sep \<le> length S\<close> len 1(4) by (cases sep) auto
      ultimately show "take (length sep) (drop i S) \<noteq> sep" using inv by blast
    qed (use inv len in auto)
    with stop show ?thesis by (simp add: split_loop.simps)
  next
    case hit
    let ?t = "sds_of (take (j - start) (drop start s)) []"
    have jl: "j + length sep \<le> len" using hit(1) 1(4) by (cases sep) auto
    have tok: "take (j - start) (drop start s) = take (j - start) (drop start S)"
      using inv jl 1(5) by (simp add: drop_take)
    have new: "sdsnewlen M (Some (drop start s)) (j - start) = Inr (Some ?t)"
      using inv 1(6-8) len by (subst sdsnewlen_of) auto
    have S: "drop start S = take (j - start) (drop start S) @ sep @ drop (j + length sep) S"
    proof -
      have "drop start S = take (j - start) (drop start S) @ drop j S"
        using inv by (metis append_take_drop_id drop_drop le_add_diff_inverse2)
      also have "drop j S = take (length sep) (drop j S) @ drop (j + length sep) S"
        by (metis append_take_drop_id drop_drop add.commute)
      also have "take (length sep) (drop j S) = sep"
        using hit(2) jl 1(5) by (auto simp: drop_take min_def)
      finally show ?thesis .
    qed
    have inv': "split_inv S sep slots' (tokens @ [?t]) (j + length sep) (j + length sep)"
      unfolding split_inv_def
    proof (intro conjI ballI allI impI)
      show "join_spec sep (map content (tokens @ [?t]) @ [drop (j + length sep) S]) = S"
        using inv S join_spec_split_last [of sep "map content tokens" "take (j - start) (drop start S)" "drop (j + length sep) S"]
        by (simp add: tok)
      fix t assume t: "t \<in> set (tokens @ [?t])"
      show "sds_ok t" using t inv 1(7) len by auto
      have "no_occ sep (take (j - start) (drop start S))"
        using inv by (intro no_occ_slice) (auto simp: 1(4))
      then show "no_occ sep (content t)" using t inv tok by auto
    qed (use slots' jl len in auto)
    have "split_loop M s len sep slots tokens start j =
        split_loop M s len sep slots' (tokens @ [?t]) (j + length sep) (j + length sep)"
      using hit 1(4,8) slots' new
      by (subst split_loop.simps) (auto simp: Let_def slots'_def)
    with 1(1) [OF _ refl slots'_def _ hit(2) _ new refl inv' 1(4-8)] hit(1) 1(4,8) slots'
    show ?thesis by auto
  next
    case miss
    have jl: "j + length sep \<le> len" using miss(1) 1(4) by (cases sep) auto
    have inv': "split_inv S sep slots' tokens start (Suc j)"
      unfolding split_inv_def
    proof (intro conjI allI impI)
      fix i assume "start \<le> i" "i < Suc j" "i + length sep \<le> length S"
      then show "take (length sep) (drop i S) \<noteq> sep"
        using inv miss(2) jl 1(5) by (cases "i = j") (auto simp: drop_take min_def)
    qed (use inv slots' miss(1) len in auto)
    have "split_loop M s len sep slots tokens start j = split_loop M s len sep slots' tokens start (Suc j)"
      using miss 1(4,8) by (subst split_loop.simps) (auto simp: Let_def slots'_def)
    with 1(2) [OF _ refl slots'_def _ miss(2) inv' 1(4-8)] miss(1) 1(4,8)
    show ?thesis by auto
  qed
qed

lemma sdssplitlen_tokens:
  assumes "sep \<noteq> []" "s \<noteq> []" "length s < 2 ^ 31" "\<forall>n. mem_ok M n"
  shows "\<exists>tokens. sdssplitlen M s (int (length s)) sep (int (length sep)) =
      Inr (Some tokens, Some (length tokens)) \<and> join_spec sep (map content tokens) = s \<and>
      (\<forall>t \<in> set tokens. sds_ok t \<and> no_occ sep (content t)) \<and> tokens \<noteq> []"
proof -
  have "split_inv s sep 5 [] 0 0" by (simp add: split_inv_def)
  from split_loop_inv [OF this assms(1) _ order_refl assms(3,4)]
  obtain slots tokens start where loop: "split_loop M s (length s) sep 5 [] 0 0 =
      Inr (Some (slots, tokens, start))" and inv: "split_inv s sep slots tokens start (length s)"
    by auto
  let ?t = "sds_of (drop start s) []"
  have new: "sdsnewlen M (Some (drop start s)) (length s - start) = Inr (Some ?t)"
    using inv assms(3,4) by (subst sdsnewlen_of) (auto simp: split_inv_def)
  have "no_occ sep (take (length s - start) (drop start s))"
    using inv by (intro no_occ_slice assms) (auto simp: split_inv_def)
  then have t: "sds_ok ?t" "no_occ sep (content ?t)" using assms(3) by simp_all
  have "1 \<le> int (length sep)" using assms(1) by (cases sep) auto
  then have "sdssplitlen M s (int (length s)) sep (int (length sep)) =
      Inr (Some (tokens @ [?t]), Some (length (tokens @ [?t])))"
    using assms inv loop new by (simp add: sdssplitlen_def split_inv_def)
  then show ?thesis using inv t by (intro exI [of _ "tokens @ [?t]"]) (auto simp: split_inv_def)
qed

fun join_pieces :: "bytes \<Rightarrow> bytes list \<Rightarrow> bytes list" where
  "join_pieces sep [] = []"
| "join_pieces sep [a] = [a]"
| "join_pieces sep (a # as) = a # sep # join_pieces sep as"

lemma concat_join_pieces: "concat (join_pieces sep as) = join_spec sep as"
  by (induction sep as rule: join_pieces.induct) auto

lemma cat_pieces_single: "cat_pieces cat so [t] = (case so of None \<Rightarrow> Inl NullDeref | Some s \<Rightarrow> cat s t)"
  by (cases so) (auto simp: bind_c_def split: sum.splits)

lemma on_sds_simps [simp]:
  "on_sds f None = Inl NullDeref"
  "on_sds f (Some s) = f s"
  by (simp_all add: on_sds_def)

lemma bind_on_sds_pieces:
  "bind_c (on_sds (\<lambda>s. cat s t) so) (\<lambda>so. cat_pieces cat so ts) = cat_pieces cat so (t # ts)"
  by (cases so) auto

lemma join_loop_pieces:
  assumes "\<And>s a. a \<in> set as \<Longrightarrow> cat s a = sdscatlen M s (shown a)"
  shows "join_loop M cat so as sep = cat_pieces (sdscatlen M) so (join_pieces sep (map shown as))"
  using assms
proof (induction as arbitrary: so rule: induct_list012)
  case (2 a)
  then show ?case by (cases so) (auto simp: bind_c_def split: sum.splits)
next
  case (3 a b as)
  have "cat s a = sdscatlen M s (shown a)" for s using 3(3) by simp
  moreover have "join_loop M cat so' (b # as) sep =
      cat_pieces (sdscatlen M) so' (join_pieces sep (map shown (b # as)))" for so'
    using 3(3) by (intro 3(2)) simp
  ultimately show ?case by (simp add: bind_on_sds_pieces)
qed simp

lemma sdscatsds_content: "sds_ok t \<Longrightarrow> sdscatsds M s t = sdscatlen M s (content t)"
  using sds_okD(6) [of t] by (simp add: sdscatsds_def content_def sdslen_ok)

lemma sdsempty_grants: "\<forall>n. mem_ok M n \<Longrightarrow> sdsempty M = Inr (Some (sds_of [] []))"
  by (simp add: sdsempty_def sdsnewlen_of)

lemma sdsjoinsds_content:
  assumes "\<forall>t \<in> set argv. sds_ok t" "\<forall>n. mem_ok M n"
    "length (join_spec sep (map content argv)) < sds_cap"
  shows "\<exists>s. sdsjoinsds M argv sep = Inr (Some s) \<and> sds_ok s \<and>
    content s = join_spec sep (map content argv)"
proof -
  have "sdsjoinsds M argv sep =
      cat_pieces (sdscatlen M) (Some (sds_of [] [])) (join_pieces sep (map content argv))"
    using assms by (simp add: sdsjoinsds_def sdsempty_grants join_loop_pieces [where shown = content]
        sdscatsds_content)
  then show ?thesis
    using sdsbuf.cat_pieces_grants [of "sds_of [] []" "join_pieces sep (map content argv)" M] assms
    by (simp add: concat_join_pieces)
qed

lemma sdsjoin_content:
  assumes "\<forall>n. mem_ok M n" "length (join_spec sep (map cstr argv)) < sds_cap"
  shows "\<exists>s. sdsjoin M argv sep = Inr (Some s) \<and> sds_ok s \<and> content s = join_spec sep (map cstr argv)"
proof -
  have "sdsjoin M argv sep =
      cat_pieces (sdscatlen M) (Some (sds_of [] [])) (join_pieces sep (map cstr argv))"
    using assms by (simp add: sdsjoin_def sdsempty_grants join_loop_pieces [where shown = cstr] sdscat_eq)
  then show ?thesis
    using sdsbuf.cat_pieces_grants [of "sds_of [] []" "join_pieces sep (map cstr argv)" M] assms
    by (simp add: concat_join_pieces)
qed

section \<open>Quoting and unquoting are inverse\<close>

definition esc :: "char \<Rightarrow> bytes" where
  "esc c = (if c = CHR 0x5C \<or> c = CHR 0x22 then [CHR 0x5C, c]
      else if c = CHR 0x0A then [CHR 0x5C, CHR ''n'']
      else if c = CHR 0x0D then [CHR 0x5C, CHR ''r'']
      else if c = CHR 0x09 then [CHR 0x5C, CHR ''t'']
      else if c = CHR 0x07 then [CHR 0x5C, CHR ''a'']
      else if c = CHR 0x08 then [CHR 0x5C, CHR ''b'']
      else if isprint c then [c]
      else [CHR 0x5C, CHR ''x'', hexdig (char_code c div 16), hexdig (char_code c mod 16)])"

lemma hexdig_code: "d < 16 \<Longrightarrow> char_code (hexdig d) = (if d < 10 then 48 + d else 87 + d)"
  by (simp add: hexdig_def char_code_char_of)

lemma hexdig_not_NUL: "d < 16 \<Longrightarrow> hexdig d \<noteq> NUL"
  using hexdig_code [of d] by (auto simp: char_code_def split: if_splits)

lemma is_hex_digit_hexdig: "d < 16 \<Longrightarrow> is_hex_digit (hexdig d)"
  by (auto simp: is_hex_digit_def hexdig_code Let_def)

lemma hex_digit_to_int_hexdig: "d < 16 \<Longrightarrow> hex_digit_to_int (hexdig d) = d"
proof -
  assume d: "d < 16"
  show ?thesis
  proof (cases "d < 10")
    case True
    with d show ?thesis
      using hexdig_code [of d] by (simp add: hex_digit_to_int_def isdigit_def digit_val_def)
  next
    case False
    with d have "d \<in> {10, 11, 12, 13, 14, 15}" by auto
    moreover have "hex_digit_to_int (hexdig 10) = 10" "hex_digit_to_int (hexdig 11) = 11"
      "hex_digit_to_int (hexdig 12) = 12" "hex_digit_to_int (hexdig 13) = 13"
      "hex_digit_to_int (hexdig 14) = 14" "hex_digit_to_int (hexdig 15) = 15"
      by code_simp+
    ultimately show ?thesis by blast
  qed
qed

lemma char_code_div_mod: "char_code c div 16 < 16" "char_code c mod 16 < 16"
  using char_code_less [of c] by auto

lemma esc_no_NUL: "NUL \<notin> set (esc c)"
  using hexdig_not_NUL [of "char_code c div 16"] hexdig_not_NUL [of "char_code c mod 16"]
    char_code_div_mod [of c]
  by (auto simp: esc_def isprint_def char_code_def)

lemma cstr_id: "NUL \<notin> set t \<Longrightarrow> cstr t = t"
  unfolding cstr_def by (simp add: takeWhile_eq_all_conv) metis

lemma repr_char_esc: "\<forall>n. mem_ok M n \<Longrightarrow> repr_char M s c = sdscatlen M s (esc c)"
  using esc_no_NUL [of c]
  by (auto simp: repr_char_def esc_def sdscatprintf_grants cstr_id)

lemma repr_loop_pieces:
  "\<forall>n. mem_ok M n \<Longrightarrow> repr_loop M so p = cat_pieces (sdscatlen M) so (map esc p)"
proof (induction p arbitrary: so)
  case (Cons c p)
  then show ?case by (cases so) (simp_all add: repr_char_esc)
qed simp

lemma cat_pieces_append:
  "cat_pieces cat so (ts @ us) = bind_c (cat_pieces cat so ts) (\<lambda>so. cat_pieces cat so us)"
proof (induction ts arbitrary: so)
  case (Cons t ts)
  then show ?case by (cases so) (auto simp: bind_c_def split: sum.splits)
qed simp

definition quoted :: "bytes \<Rightarrow> bytes" where
  "quoted p = CHR 0x22 # concat (map esc p) @ [CHR 0x22]"

lemma sdscatrepr_pieces:
  assumes "\<forall>n. mem_ok M n"
  shows "sdscatrepr M s p =
    cat_pieces (sdscatlen M) (Some s) ([CHR 0x22] # map esc p @ [[CHR 0x22]])"
  using assms
  by (simp add: sdscatrepr_def repr_loop_pieces cat_pieces_append on_sds_def cat_pieces_single)

lemma sdscatrepr_quoted:
  assumes "\<forall>n. mem_ok M n" "sds_ok s" "length (content s) + length (quoted p) < sds_cap"
  shows "\<exists>s'. sdscatrepr M s p = Inr (Some s') \<and> sds_ok s' \<and> content s' = content s @ quoted p"
  using sdsbuf.cat_pieces_grants [of s "[CHR 0x22] # map esc p @ [[CHR 0x22]]" M] assms
  by (simp add: sdscatrepr_pieces quoted_def)

lemma char_of_hex: "char_of (char_code c div 16 * 16 + char_code c mod 16) = c"
  by (simp add: char_code_def)

lemma peek_simps [simp]:
  "peek (c # p) 0 = c"
  "peek (c # p) (Suc i) = peek p i"
  by (simp_all add: peek_def)

lemma arg_loop_esc:
  "arg_loop M InQ cur (esc c @ rest) =
    bind_c (on_sds (\<lambda>s. sdscatlen M s [c]) cur) (\<lambda>cur. arg_loop M InQ cur rest)"
proof (cases "c \<in> {CHR 0x5C, CHR 0x22, CHR 0x0A, CHR 0x0D, CHR 0x09, CHR 0x07, CHR 0x08}")
  case True
  then show ?thesis by (auto simp: esc_def unescape_def)
next
  case False
  show ?thesis
  proof (cases "isprint c")
    case True
    with False show ?thesis by (simp add: esc_def)
  next
    case np: False
    let ?h = "hexdig (char_code c div 16)" and ?l = "hexdig (char_code c mod 16)"
    have e: "esc c @ rest = CHR 0x5C # CHR ''x'' # ?h # ?l # rest"
      using False np by (simp add: esc_def)
    have "is_hex_digit ?h" "is_hex_digit ?l"
      "char_of (hex_digit_to_int ?h * 16 + hex_digit_to_int ?l) = c"
      using char_code_div_mod [of c] char_of_hex [of c]
      by (simp_all only: is_hex_digit_hexdig hex_digit_to_int_hexdig)
    then show ?thesis unfolding e by (simp add: numeral_2_eq_2 numeral_3_eq_3)
  qed
qed

lemma arg_loop_quoted:
  "closes rest \<Longrightarrow> arg_loop M InQ cur (concat (map esc p) @ CHR 0x22 # rest) =
    bind_c (cat_pieces (sdscatlen M) cur (map (\<lambda>c. [c]) p)) (\<lambda>cur. Inr (Some (cur, rest)))"
proof (induction p arbitrary: cur)
  case (Cons c p)
  then show ?case
    by (cases cur) (simp_all add: arg_loop_esc bind_c_def split: sum.splits)
qed simp

lemma splitargs_quoted:
  assumes "\<forall>n. mem_ok M n" "length p < sds_cap"
  shows "\<exists>s. splitargs_loop M [] (quoted p) = Inr (Some [Some s]) \<and> sds_ok s \<and> content s = p"
proof -
  let ?e = "Some (sds_of [] [])"
  have sp: "dropWhile isspace (quoted p) = quoted p"
    by (simp add: quoted_def isspace_def char_code_def)
  have cl: "closes []" by (simp add: closes_def peek_def)
  obtain s where s: "cat_pieces (sdscatlen M) ?e (map (\<lambda>c. [c]) p) = Inr (Some s)" "sds_ok s" "content s = p"
    using sdsbuf.cat_pieces_grants [of "sds_of [] []" "map (\<lambda>c. [c]) p" M] assms
    by (auto simp: concat_map_singleton)
  have arg: "arg_loop M Unquoted ?e (quoted p) = Inr (Some (Some s, []))"
    using arg_loop_quoted [OF cl, of M ?e p] s(1) by (simp add: quoted_def)
  have "splitargs_loop M [] (quoted p) = splitargs_loop M [Some s] []"
    using assms(1) arg sp by (subst splitargs_loop.simps) (simp add: sdsempty_grants quoted_def)
  then show ?thesis using s by (simp add: splitargs_loop.simps)
qed

lemma length_quoted: "length p \<le> length (quoted p)"
proof -
  have "length p \<le> length (concat (map esc p))"
    by (induction p) (auto simp: esc_def)
  then show ?thesis by (simp add: quoted_def)
qed

lemma quoted_no_NUL: "NUL \<notin> set (quoted p)"
  using esc_no_NUL by (auto simp: quoted_def)

section \<open>Properties\<close>

text \<open>
  C29: \<^verbatim>\<open>sdssplitargs\<close> inverts \<^verbatim>\<open>sdscatrepr\<close>: whatever bytes a string holds, NULs and
  unprintable bytes included, quoting it and parsing the quoted form as a line of arguments
  gives one argument with exactly those bytes.
\<close>

theorem sdssplitargs_sdscatrepr:
  assumes "\<forall>n. mem_ok M n" "length (quoted p) < sds_cap"
  shows "\<exists>s a. sdscatrepr M (sds_of [] []) p = Inr (Some s) \<and> sds_ok s \<and>
    sdssplitargs M (sh_buf s) = Inr (Some [Some a]) \<and> sds_ok a \<and> content a = p"
proof -
  obtain s where s: "sdscatrepr M (sds_of [] []) p = Inr (Some s)" "sds_ok s" "content s = quoted p"
    using sdscatrepr_quoted [OF assms(1), of "sds_of [] []" p] assms(2) by auto
  have "cstr (sh_buf s) = quoted p"
    using buf_decomp [OF s(2)] quoted_no_NUL [of p] s(3) by (metis cstr_append_NUL)
  moreover have "length p < sds_cap" using length_quoted [of p] assms(2) by linarith
  ultimately show ?thesis using s splitargs_quoted [OF assms(1)] by (auto simp: sdssplitargs_def)
qed

theorem sdssplitargs_sdscatrepr_witness:
  "\<exists>s a. sdscatrepr granting (sds_of [] []) [CHR ''a'', NUL, CHR 0x22, LF, CHR 0xFF] = Inr (Some s) \<and>
    sdssplitargs granting (sh_buf s) = Inr (Some [Some a]) \<and>
    content a = [CHR ''a'', NUL, CHR 0x22, LF, CHR 0xFF]"
  using sdssplitargs_sdscatrepr [of granting "[CHR ''a'', NUL, CHR 0x22, LF, CHR 0xFF]"]
  by (auto simp: quoted_def esc_def isprint_def char_code_def)



text \<open>
  \<^verbatim>\<open>sdscatfmt\<close>, whose output is terminated only at the end and whose buffer may be
  reallocated at any conversion, appends exactly the text its format stands for, integers of
  every width in decimal, and leaves a well-formed string.
\<close>

theorem sdscatfmt_correct:
  assumes "sds_ok s" "fmt_spec (cstr fmt) args = Some out" "list_all arg_ok args"
    "length (content s) + length out + 1 < sds_cap" "\<forall>n. mem_ok M n"
  shows "\<exists>s'. sdscatfmt M s fmt args = Inr s' \<and> sds_ok s' \<and> content s' = content s @ out"
  using sdscatfmt_text [OF assms] .

theorem sdscatfmt_correct_witness:
  "\<exists>s'. sdscatfmt granting (sds_of ''--'' []) ''Hello %s World %I%%'' [ArgStr ''Hi!'', ArgLL (- 42)] = Inr s'
     \<and> content s' = ''--Hello Hi! World '' @ dec_int (- 42) @ ''%''"
  using sdscatfmt_correct [of "sds_of ''--'' []" "''Hello %s World %I%%''" "[ArgStr ''Hi!'', ArgLL (- 42)]"
      "''Hello Hi! World '' @ dec_int (- 42) @ ''%''" granting]
  by (auto simp: cstr_def dec_int_def dec_big dec_small)

text \<open>
  \<^verbatim>\<open>sdsll2str\<close> and \<^verbatim>\<open>sdsull2str\<close> write the decimal notation of every 64-bit integer, the
  smallest \<^verbatim>\<open>long long\<close> included, without leaving their 21-byte buffer.
\<close>

theorem sdsll2str_correct:
  assumes "- (2 ^ 63) \<le> v" "v < 2 ^ 63" "u < 2 ^ 64"
  shows "sdsll2str SDS_LLSTR_SIZE v = Inr (dec_int v @ [NUL], length (dec_int v)) \<and>
    sdsull2str SDS_LLSTR_SIZE u = Inr (dec u @ [NUL], length (dec u))"
  using sdsll2str_dec [OF assms(1,2)] sdsull2str_dec [OF assms(3)] by blast

theorem sdsll2str_correct_witness:
  "sdsll2str SDS_LLSTR_SIZE (- (2 ^ 63)) = Inr (dec_int (- (2 ^ 63)) @ [NUL], length (dec_int (- (2 ^ 63)))) \<and>
   sdsull2str SDS_LLSTR_SIZE 7 = Inr (dec 7 @ [NUL], 1)"
  using sdsll2str_correct [of "- (2 ^ 63)" 7] by (simp add: dec_small)
end
