(* ===== verification/Format.thy ===== *)
theory Format
  imports Sds_Text
begin

text \<open>
  The command formatters of \<^verbatim>\<open>src/hiredis.c\<close>: \<^verbatim>\<open>redisvFormatCommand\<close> with its printf-like
  format, \<^verbatim>\<open>redisFormatCommandArgv\<close> with a raw buffer and \<^verbatim>\<open>redisFormatSdsCommandArgv\<close> with an
  sds buffer. The reference is \<open>resp_cmd\<close>, the unified request protocol. The buffer of the raw
  formatters has exactly \<^verbatim>\<open>totlen + 1\<close> bytes, so a wrong length computation would be a fault
  or a failed \<^verbatim>\<open>assert\<close> of the model. The text of a libc conversion such as \<^verbatim>\<open>%08.3f\<close> is a
  parameter \<open>vtext\<close>: \<^verbatim>\<open>vsnprintf\<close> renders it.
\<close>

section \<open>The protocol\<close>

definition bulk :: "bytes \<Rightarrow> bytes" where
  "bulk a = CHR ''$'' # dec (length a) @ CRLF @ a @ CRLF"

definition resp_cmd :: "bytes list \<Rightarrow> bytes" where
  "resp_cmd args = CHR ''*'' # dec (length args) @ CRLF @ concat (map bulk args)"

section \<open>Lengths\<close>

function countDigits_loop :: "nat \<Rightarrow> nat \<Rightarrow> nat" where
  "countDigits_loop v result =
     (if v < 10 then result
      else if v < 100 then result + 1
      else if v < 1000 then result + 2
      else if v < 10000 then result + 3
      else countDigits_loop (v div 10000) (uint32 (int (result + 4))))"
  by pat_completeness auto
termination
  by (relation "measure (\<lambda>(v, result). v)") auto

declare countDigits_loop.simps [simp del]

definition countDigits :: "nat \<Rightarrow> nat" where
  "countDigits v = countDigits_loop v 1"

definition bulklen :: "nat \<Rightarrow> nat" where
  "bulklen len = size64 (int (1 + countDigits len + 2 + len + 2))"

section \<open>The raw buffer\<close>

text \<open>\<^verbatim>\<open>sprintf\<close> writes its text and a NUL. \<open>put_args\<close> is the loop over the arguments.\<close>

fun put_args :: "bytes \<Rightarrow> nat \<Rightarrow> bytes list \<Rightarrow> (bytes \<times> nat) c_res" where
  "put_args cmd pos [] = Inr (cmd, pos)"
| "put_args cmd pos (a # as) =
     (let hd = CHR ''$'' # dec (length a) @ CRLF in
      bind_c (memcpy cmd pos (hd @ [NUL])) (\<lambda>cmd.
        (let pos = pos + length hd in
         bind_c (memcpy cmd pos a) (\<lambda>cmd.
           (let pos = pos + length a in
            bind_c (memcpy cmd pos [CR]) (\<lambda>cmd.
              bind_c (memcpy cmd (pos + 1) [LF]) (\<lambda>cmd. put_args cmd (pos + 2) as)))))))"

definition build_cmd :: "mem \<Rightarrow> int \<Rightarrow> int \<Rightarrow> bytes list \<Rightarrow> (int \<times> bytes option) c_res" where
  "build_cmd M totlen argc args =
     (if \<not> mem_ok M (size64 (int32 (totlen + 1))) then Inr (-1, None)
      else
        (let cmd = map (mem_junk M) [0..<size64 (int32 (totlen + 1))];
             hd = CHR ''*'' # dec_int argc @ CRLF
         in bind_c (memcpy cmd 0 (hd @ [NUL])) (\<lambda>cmd.
              bind_c (put_args cmd (length hd) args) (\<lambda>(cmd, pos).
                bind_c (assert_c (int pos = totlen)) (\<lambda>_.
                  bind_c (memcpy cmd pos [NUL]) (\<lambda>cmd. Inr (totlen, Some cmd)))))))"

text \<open>The arguments as byte strings: \<^verbatim>\<open>argvlen[j]\<close> bytes of \<^verbatim>\<open>argv[j]\<close>, or up to its NUL.\<close>

fun argv_texts :: "bytes list \<Rightarrow> nat list option \<Rightarrow> bytes list c_res" where
  "argv_texts [] lens = Inr []"
| "argv_texts (a # as) None = bind_c (argv_texts as None) (\<lambda>r. Inr (cstr a # r))"
| "argv_texts (a # as) (Some []) = Inl OutOfBounds"
| "argv_texts (a # as) (Some (l # ls)) =
     (if length a < l then Inl OutOfBounds
      else bind_c (argv_texts as (Some ls)) (\<lambda>r. Inr (take l a # r)))"

definition redisFormatCommandArgv ::
    "mem \<Rightarrow> bool \<Rightarrow> int \<Rightarrow> bytes list \<Rightarrow> nat list option \<Rightarrow> (int \<times> bytes option) c_res" where
  "redisFormatCommandArgv M target argc argv argvlen =
     (if \<not> target then Inr (-1, None)
      else if int (length argv) < argc then Inl OutOfBounds
      else
        bind_c (argv_texts (take (nat argc) argv) argvlen) (\<lambda>args.
          (let totlen = foldl (\<lambda>t a. int32 (t + int (bulklen (length a))))
                          (int32 (int (1 + countDigits (size64 argc) + 2))) args
           in build_cmd M totlen argc args)))"

text \<open>The sds variant; the third component is what is stored in \<^verbatim>\<open>*target\<close>.\<close>

fun sds_put_args :: "mem \<Rightarrow> sdshdr option \<Rightarrow> bytes list \<Rightarrow> sdshdr option c_res" where
  "sds_put_args M cmd [] = Inr cmd"
| "sds_put_args M cmd (a # as) =
     bind_c (on_sds (\<lambda>s. sdscatfmt M s (''$%T'' @ CRLF) [ArgSize (length a)]) cmd) (\<lambda>cmd.
       bind_c (sdscatlen M cmd a) (\<lambda>cmd.
         bind_c (on_sds (\<lambda>s. sdscatlen M s CRLF) cmd) (\<lambda>cmd. sds_put_args M cmd as)))"

definition redisFormatSdsCommandArgv ::
    "mem \<Rightarrow> bool \<Rightarrow> int \<Rightarrow> bytes list \<Rightarrow> nat list option \<Rightarrow> (int \<times> sdshdr option) c_res" where
  "redisFormatSdsCommandArgv M target argc argv argvlen =
     (if \<not> target then Inr (-1, None)
      else if int (length argv) < argc then Inl OutOfBounds
      else
        bind_c (argv_texts (take (nat argc) argv) argvlen) (\<lambda>args.
          (let totlen = foldl (\<lambda>t a. size64 (int (t + bulklen (length a))))
                          (1 + countDigits (size64 argc) + 2) args
           in bind_c (sdsempty M) (\<lambda>cmd.
                case cmd of
                  None \<Rightarrow> Inr (-1, None)
                | Some s \<Rightarrow>
                    (case sdsMakeRoomFor M s totlen of
                       None \<Rightarrow> Inr (-1, None)
                     | Some s \<Rightarrow>
                         bind_c (sdscatfmt M s (''*%i'' @ CRLF) [ArgInt argc]) (\<lambda>s.
                           bind_c (sds_put_args M (Some s) args) (\<lambda>cmd.
                             on_sds (\<lambda>s. bind_c (assert_c (sdslen s = totlen)) (\<lambda>_.
                               Inr (int32 (int totlen), Some s))) cmd)))))))"

section \<open>The printf-like formatter\<close>

text \<open>
  One \<^verbatim>\<open>va_list\<close> item with the type it was passed with. \<open>conv_scan\<close> recognises a printf
  conversion from its \<^verbatim>\<open>%\<close> on: the type \<^verbatim>\<open>va_arg\<close> consumes and \<^verbatim>\<open>_l\<close>, the length of the
  conversion. \<^verbatim>\<open>strchr(intfmts, *_p)\<close> also matches the terminating NUL, which \<open>peek\<close> returns at
  the end of the format; the later tests exclude it explicitly. \<open>None\<close> is \<^verbatim>\<open>fmt_invalid\<close>.
\<close>

datatype 'd va_item = VPtr bytes | VSize nat | VInt int | VLong int | VLongLong int | VDouble 'd

datatype va_kind = KInt | KDouble | KLongLong | KLong

abbreviation intfmts :: "char set" where "intfmts \<equiv> set ''diouxX''"

definition conv_skip :: "bytes \<Rightarrow> bytes" where
  "conv_skip c =
     (let p = dropWhile (\<lambda>x. x \<in> set ''#0-+ '') (drop 1 c);
          p = dropWhile isdigit p
      in if peek p 0 = CHR ''.'' then dropWhile isdigit (drop 1 p) else p)"

text \<open>From \<^verbatim>\<open>_p\<close> after flags, width and precision: the type consumed and how many characters the
  conversion still takes.\<close>

definition conv_kind :: "bytes \<Rightarrow> (va_kind \<times> nat) option" where
  "conv_kind p =
     (if peek p 0 \<in> intfmts \<or> peek p 0 = NUL then Some (KInt, 1)
      else if peek p 0 \<in> set ''eEfFgGaA'' then Some (KDouble, 1)
      else if peek p 0 = CHR ''h'' \<and> peek p 1 = CHR ''h'' then
        (if peek p 2 \<in> intfmts then Some (KInt, 3) else None)
      else if peek p 0 = CHR ''h'' then
        (if peek p 1 \<in> intfmts then Some (KInt, 2) else None)
      else if peek p 0 = CHR ''l'' \<and> peek p 1 = CHR ''l'' then
        (if peek p 2 \<in> intfmts then Some (KLongLong, 3) else None)
      else if peek p 0 = CHR ''l'' then
        (if peek p 1 \<in> intfmts then Some (KLong, 2) else None)
      else None)"

definition conv_scan :: "bytes \<Rightarrow> (va_kind \<times> nat) option" where
  "conv_scan c =
     (let p = conv_skip c
      in case conv_kind p of
           None \<Rightarrow> None
         | Some (k, n) \<Rightarrow> Some (k, length c - length p + n))"

fun va_is :: "va_kind \<Rightarrow> 'd va_item \<Rightarrow> bool" where
  "va_is KInt (VInt _) = True"
| "va_is KDouble (VDouble _) = True"
| "va_is KLongLong (VLongLong _) = True"
| "va_is KLong (VLong _) = True"
| "va_is _ _ = False"

text \<open>
  One conversion of the outer \<^verbatim>\<open>switch(c[1])\<close>. The result is a format error, a NULL
  \<^verbatim>\<open>newarg\<close>, or the new argument, the rest of the arguments and how far \<^verbatim>\<open>c\<close> moves; a
  conversion of 14 or more characters is consumed without output and \<^verbatim>\<open>c\<close> moves by 2.
\<close>

datatype 'd conv_result = ConvInvalid | ConvNull | ConvOk sdshdr "'d va_item list" nat

definition conv_new :: "sdshdr option \<Rightarrow> 'd va_item list \<Rightarrow> nat \<Rightarrow> 'd conv_result" where
  "conv_new newarg args n = (case newarg of None \<Rightarrow> ConvNull | Some s \<Rightarrow> ConvOk s args n)"

definition vconv_s :: "mem \<Rightarrow> sdshdr \<Rightarrow> 'd va_item list \<Rightarrow> 'd conv_result c_res" where
  "vconv_s M curarg args =
     (case args of
        VPtr a # rest \<Rightarrow>
          bind_c (if cstr a \<noteq> [] then sdscatlen M curarg (cstr a) else Inr (Some curarg))
            (\<lambda>n. Inr (conv_new n rest 2))
      | _ \<Rightarrow> Inl BadVarArg)"

definition vconv_b :: "mem \<Rightarrow> sdshdr \<Rightarrow> 'd va_item list \<Rightarrow> 'd conv_result c_res" where
  "vconv_b M curarg args =
     (case args of
        VPtr a # VSize sz # rest \<Rightarrow>
          (if length a < sz then Inl OutOfBounds
           else bind_c (if sz > 0 then sdscatlen M curarg (take sz a) else Inr (Some curarg))
                  (\<lambda>n. Inr (conv_new n rest 2)))
      | _ \<Rightarrow> Inl BadVarArg)"

definition vconv_printf :: "mem \<Rightarrow> (bytes \<Rightarrow> 'd va_item list \<Rightarrow> bytes) \<Rightarrow> sdshdr \<Rightarrow> bytes
    \<Rightarrow> 'd va_item list \<Rightarrow> 'd conv_result c_res" where
  "vconv_printf M vtext curarg c args =
     (case conv_scan c of
        None \<Rightarrow> Inr ConvInvalid
      | Some (k, l) \<Rightarrow>
          (case args of
             [] \<Rightarrow> Inl BadVarArg
           | a # rest \<Rightarrow>
               if \<not> va_is k a then Inl BadVarArg
               else if l < 14 then
                 bind_c (sdscatvprintf M curarg (vtext (take l c) args))
                   (\<lambda>n. Inr (conv_new n rest l))
               else Inr (conv_new (Some curarg) rest 2)))"

definition vconv :: "mem \<Rightarrow> (bytes \<Rightarrow> 'd va_item list \<Rightarrow> bytes) \<Rightarrow> sdshdr \<Rightarrow> bytes \<Rightarrow> 'd va_item list
    \<Rightarrow> 'd conv_result c_res" where
  "vconv M vtext curarg c args =
     (if peek c 1 = CHR ''s'' then vconv_s M curarg args
      else if peek c 1 = CHR ''b'' then vconv_b M curarg args
      else if peek c 1 = CHR ''%'' then bind_c (sdscat M curarg ''%'') (\<lambda>n. Inr (conv_new n args 2))
      else vconv_printf M vtext curarg c args)"

text \<open>
  The state of the loop \<^verbatim>\<open>while(*c != '\0')\<close>. \<open>vf_loop\<close> returns \<open>Inl\<close> of the error code for
  \<^verbatim>\<open>goto format_err\<close> and \<^verbatim>\<open>goto memory_err\<close>. Moving \<^verbatim>\<open>c\<close> beyond the terminator is a read outside
  the format.
\<close>

record vf_state =
  vf_curarg :: sdshdr
  vf_touched :: bool
  vf_argv :: "sdshdr list"
  vf_totlen :: int

definition vf_push :: "mem \<Rightarrow> vf_state \<Rightarrow> vf_state option" where
  "vf_push M st =
     (if \<not> mem_ok M (8 * (length (vf_argv st) + 1)) then None
      else Some (st\<lparr>vf_argv := vf_argv st @ [vf_curarg st],
                    vf_totlen := int32 (vf_totlen st + int (bulklen (sdslen (vf_curarg st))))\<rparr>))"

definition vf_space :: "mem \<Rightarrow> vf_state \<Rightarrow> (int + vf_state) c_res" where
  "vf_space M st =
     (if vf_touched st then
        (case vf_push M st of
           None \<Rightarrow> Inr (Inl (-1))
         | Some st \<Rightarrow> bind_c (sdsempty M) (\<lambda>e.
             case e of
               None \<Rightarrow> Inr (Inl (-1))
             | Some s \<Rightarrow> Inr (Inr (st\<lparr>vf_curarg := s, vf_touched := False\<rparr>))))
      else Inr (Inr st))"

lemma conv_new_ok: "conv_new n args k = ConvOk s args' k' \<longleftrightarrow> n = Some s \<and> args' = args \<and> k' = k"
  by (auto simp: conv_new_def split: option.splits)

lemma conv_kind_pos: "conv_kind p = Some (k, n) \<Longrightarrow> 0 < n"
  unfolding conv_kind_def by (auto split: if_splits)

lemma conv_scan_pos: "conv_scan c = Some (k, l) \<Longrightarrow> 0 < l"
  by (auto simp: conv_scan_def Let_def dest: conv_kind_pos split: option.splits)

lemma vconv_parts_pos:
  "vconv_s M cur args = Inr (ConvOk s args' n) \<Longrightarrow> 0 < n"
  "vconv_b M cur args = Inr (ConvOk s args' n) \<Longrightarrow> 0 < n"
  "vconv_printf M vtext cur c args = Inr (ConvOk s args' n) \<Longrightarrow> 0 < n"
  by (auto simp: vconv_s_def vconv_b_def vconv_printf_def conv_new_ok bind_c_Inr_iff
      dest: conv_scan_pos split: if_splits list.splits va_item.splits option.splits)

lemma vconv_pos: "vconv M vtext cur c args = Inr (ConvOk s args' n) \<Longrightarrow> 0 < n"
  by (auto simp: vconv_def conv_new_ok bind_c_Inr_iff dest: vconv_parts_pos split: if_splits)

function vf_loop :: "mem \<Rightarrow> (bytes \<Rightarrow> 'd va_item list \<Rightarrow> bytes) \<Rightarrow> vf_state \<Rightarrow> bytes \<Rightarrow> 'd va_item list
    \<Rightarrow> (int + vf_state) c_res" where
  "vf_loop M vtext st c args =
     (if c = [] then Inr (Inr st)
      else if peek c 0 \<noteq> CHR ''%'' \<or> peek c 1 = NUL then
        (if peek c 0 = CHR '' '' then
           bind_c (vf_space M st) (\<lambda>r.
             case r of Inl e \<Rightarrow> Inr (Inl e) | Inr st \<Rightarrow> vf_loop M vtext st (drop 1 c) args)
         else
           bind_c (sdscatlen M (vf_curarg st) [peek c 0]) (\<lambda>n.
             case n of
               None \<Rightarrow> Inr (Inl (-1))
             | Some s \<Rightarrow> vf_loop M vtext (st\<lparr>vf_curarg := s, vf_touched := True\<rparr>) (drop 1 c) args))
      else
        bind_c (vconv M vtext (vf_curarg st) c args) (\<lambda>r.
          case r of
            ConvInvalid \<Rightarrow> Inr (Inl (-2))
          | ConvNull \<Rightarrow> Inr (Inl (-1))
          | ConvOk s args' n \<Rightarrow>
              if length c < n then Inl OutOfBounds
              else vf_loop M vtext (st\<lparr>vf_curarg := s, vf_touched := True\<rparr>) (drop n c) args'))"
  by pat_completeness auto
termination
  by (relation "measure (\<lambda>(M, vtext, st, c, args). length c)") (auto dest: vconv_pos)

declare vf_loop.simps [simp del]

definition redisvFormatCommand :: "mem \<Rightarrow> (bytes \<Rightarrow> 'd va_item list \<Rightarrow> bytes) \<Rightarrow> bool \<Rightarrow> bytes
    \<Rightarrow> 'd va_item list \<Rightarrow> (int \<times> bytes option) c_res" where
  "redisvFormatCommand M vtext target format args =
     (if \<not> target then Inr (-1, None)
      else bind_c (sdsempty M) (\<lambda>e.
        case e of
          None \<Rightarrow> Inr (-1, None)
        | Some s \<Rightarrow>
            bind_c (vf_loop M vtext \<lparr>vf_curarg = s, vf_touched = False, vf_argv = [], vf_totlen = 0\<rparr>
                      (cstr format) args) (\<lambda>r.
              case (case r of
                      Inl e \<Rightarrow> Inl e
                    | Inr st \<Rightarrow>
                        (if vf_touched st then
                           (case vf_push M st of None \<Rightarrow> Inl (-1) | Some st \<Rightarrow> Inr st)
                         else Inr st)) of
                Inl e \<Rightarrow> Inr (e, None)
              | Inr st \<Rightarrow>
                  (let argc = length (vf_argv st);
                       totlen = int32 (vf_totlen st + int (1 + countDigits argc + 2))
                   in bind_c (argv_texts (map sh_buf (vf_argv st)) (Some (map sdslen (vf_argv st))))
                        (\<lambda>texts. build_cmd M totlen (int argc) texts)))))"

definition redisFormatCommand :: "mem \<Rightarrow> (bytes \<Rightarrow> 'd va_item list \<Rightarrow> bytes) \<Rightarrow> bool \<Rightarrow> bytes
    \<Rightarrow> 'd va_item list \<Rightarrow> (int \<times> bytes option) c_res" where
  "redisFormatCommand M vtext target format args =
     bind_c (redisvFormatCommand M vtext target format args) (\<lambda>(len, cmd).
       Inr (if len < 0 then -1 else len, cmd))"

section \<open>Lengths are exact\<close>

lemma div_10000: "v div 10 div 10 div 10 div 10 = v div (10000 :: nat)"
  by (simp add: div_mult2_eq [symmetric])

lemma length_dec_10000: "10000 \<le> v \<Longrightarrow> length (dec v) = length (dec (v div 10000)) + 4"
  by (simp add: dec_big [of v] dec_big [of "v div 10"] dec_big [of "v div 10 div 10"]
      dec_big [of "v div 10 div 10 div 10"] div_10000 div_greater_zero_iff
      less_eq_div_iff_mult_less_eq)

lemma countDigits_loop_dec:
  "result + length (dec v) < 2 ^ 32 \<Longrightarrow> countDigits_loop v result = result + length (dec v) - 1"
proof (induction v result rule: countDigits_loop.induct)
  case (1 v result)
  show ?case
  proof (cases "v < 10000")
    case True
    have "length (dec v) = (if v < 10 then 1 else if v < 100 then 2 else if v < 1000 then 3 else 4)"
      using True by (simp add: dec_small dec_big less_eq_div_iff_mult_less_eq)
    with True show ?thesis by (subst countDigits_loop.simps) auto
  next
    case False
    have len: "length (dec v) = length (dec (v div 10000)) + 4" using False by (intro length_dec_10000) simp
    have u: "uint32 (int (result + 4)) = result + 4"
      using 1(2) len by (subst uint32_id) auto
    have "countDigits_loop v result = countDigits_loop (v div 10000) (result + 4)"
      using False u by (subst countDigits_loop.simps) (simp del: of_nat_add)
    also have "\<dots> = result + length (dec v) - 1"
      using 1 False len u by simp
    finally show ?thesis .
  qed
qed

lemma countDigits_dec: "v < 2 ^ 64 \<Longrightarrow> countDigits v = length (dec v)"
  using countDigits_loop_dec [of 1 v] length_dec_64 [of v] by (simp add: countDigits_def)

lemma length_bulk: "length (bulk a) = 1 + length (dec (length a)) + 2 + length a + 2"
  by (simp add: bulk_def)

lemma bulklen_bulk:
  assumes "length a < 2 ^ 63"
  shows "bulklen (length a) = length (bulk a)"
proof -
  have "length (dec (length a)) \<le> 20" using assms by (intro length_dec_64) simp
  then show ?thesis using assms unfolding bulklen_def
    by (subst size64_nat) (simp_all add: countDigits_dec length_bulk)
qed

lemma bulk_total_mono: "length (bulk a) \<le> length (concat (map bulk as))" if "a \<in> set as"
  using that by (induction as) auto

lemma foldl_totlen:
  assumes "0 \<le> t" "t + int (length (concat (map bulk as))) < 2 ^ 31"
  shows "foldl (\<lambda>t a. int32 (t + int (bulklen (length a)))) t as = t + int (length (concat (map bulk as)))"
  using assms
proof (induction as arbitrary: t)
  case (Cons a as)
  have a: "bulklen (length a) = length (bulk a)"
    using Cons.prems by (intro bulklen_bulk) (simp add: length_bulk)
  have "int32 (t + int (length (bulk a))) = t + int (length (bulk a))"
    using Cons.prems by (intro int32_id) auto
  with Cons show ?case by (simp add: a)
qed simp

section \<open>The buffer is filled exactly\<close>

lemma memcpy_at:
  assumes "b = p @ r" "off = length p" "length t \<le> length r"
  shows "memcpy b off t = Inr (p @ t @ drop (length t) r)"
  using assms by simp

lemma put_args_bulk:
  assumes "length (concat (map bulk args)) < length r"
  shows "put_args (p @ r) (length p) args =
    Inr (p @ concat (map bulk args) @ drop (length (concat (map bulk args))) r,
         length p + length (concat (map bulk args)))"
  using assms
proof (induction args arbitrary: p r)
  case (Cons a as)
  let ?hd = "CHR ''$'' # dec (length a) @ CRLF"
  let ?h = "length ?hd" and ?a = "length a"
  have r: "?h + ?a + 2 < length r" using Cons.prems by (simp add: length_bulk)
  have 1: "memcpy (p @ r) (length p) (?hd @ [NUL]) = Inr (p @ (?hd @ [NUL]) @ drop (?h + 1) r)"
    using r by (subst memcpy_at [OF refl refl]) simp_all
  have 2: "memcpy (p @ (?hd @ [NUL]) @ drop (?h + 1) r) (length p + ?h) a =
      Inr ((p @ ?hd) @ a @ drop ?a (NUL # drop (?h + 1) r))"
    using r by (intro memcpy_at) auto
  let ?r2 = "drop ?a (NUL # drop (?h + 1) r)"
  have l2: "length ?r2 = length r - ?h - ?a" using r by (cases "?a") auto
  have 3: "memcpy ((p @ ?hd) @ a @ ?r2) (length p + ?h + ?a) [CR] =
      Inr ((p @ ?hd @ a) @ [CR] @ drop (length [CR]) ?r2)"
    using r l2 by (intro memcpy_at) (auto simp del: drop_append drop_Cons' length_drop)
  have 4: "memcpy ((p @ ?hd @ a) @ [CR] @ drop (length [CR]) ?r2) (length p + ?h + ?a + 1) [LF] =
      Inr ((p @ ?hd @ a @ [CR]) @ [LF] @ drop (length [LF]) (drop (length [CR]) ?r2))"
    using r l2 by (intro memcpy_at) (auto simp del: drop_append drop_Cons')
  have d: "drop (length [LF]) (drop (length [CR]) ?r2) = drop (length (bulk a)) r"
  proof -
    have "drop (length [LF]) (drop (length [CR]) ?r2) = drop (Suc (Suc ?a)) (NUL # drop (?h + 1) r)"
      by (simp only: drop_drop list.size add_0 add_Suc_right add_0_right One_nat_def add_Suc)
    also have "\<dots> = drop (Suc ?a + (?h + 1)) r" by (simp only: drop_Suc_Cons drop_drop)
    also have "Suc ?a + (?h + 1) = length (bulk a)" by (simp add: length_bulk)
    finally show ?thesis .
  qed
  have b: "(p @ ?hd @ a @ [CR]) @ [LF] @ drop (length (bulk a)) r = (p @ bulk a) @ drop (length (bulk a)) r"
    by (simp add: bulk_def)
  have pos: "length p + ?h + ?a + 2 = length (p @ bulk a)" by (simp add: bulk_def)
  have "put_args (p @ r) (length p) (a # as) = put_args ((p @ bulk a) @ drop (length (bulk a)) r) (length (p @ bulk a)) as"
    unfolding put_args.simps Let_def 1 bind_c_simps 2 3 4 d b pos ..
  also have "\<dots> = Inr ((p @ bulk a) @ concat (map bulk as) @ drop (length (concat (map bulk as))) (drop (length (bulk a)) r),
     length (p @ bulk a) + length (concat (map bulk as)))"
    using Cons.prems by (intro Cons.IH) simp
  also have "drop (length (concat (map bulk as))) (drop (length (bulk a)) r) =
      drop (length (concat (map bulk (a # as)))) r"
    by (simp add: add.commute [of "length (bulk a)"])
  finally show ?case by simp
qed simp

lemma length_resp_cmd:
  "length (resp_cmd args) = 1 + length (dec (length args)) + 2 + length (concat (map bulk args))"
  by (simp add: resp_cmd_def)

text \<open>With the length of the protocol text as \<^verbatim>\<open>totlen\<close>, the buffer is filled to the last byte
  and the assertion holds.\<close>

lemma build_cmd_resp:
  assumes "totlen = int (length (resp_cmd args))" "length (resp_cmd args) < 2 ^ 31 - 1"
    "argc = int (length args)"
  shows "build_cmd M totlen argc args =
    (if mem_ok M (length (resp_cmd args) + 1) then Inr (totlen, Some (resp_cmd args @ [NUL]))
     else Inr (-1, None))"
proof (cases "mem_ok M (length (resp_cmd args) + 1)")
  case True
  let ?hd = "CHR ''*'' # dec_int argc @ CRLF"
  let ?cmd = "map (mem_junk M) [0..<length (resp_cmd args) + 1]"
  let ?as = "concat (map bulk args)"
  have hd: "dec_int argc = dec (length args)" using assms(3) by (simp add: dec_int_def)
  have n: "size64 (int32 (totlen + 1)) = length (resp_cmd args) + 1"
    using assms(1,2) by (simp add: int32_id size64_id nat_add_distrib)
  let ?r = "NUL # drop (length ?hd + 1) ?cmd"
  have lr: "length ?r = length ?as + 1" by (simp add: length_resp_cmd hd)
  have 1: "memcpy ?cmd 0 (?hd @ [NUL]) = Inr (?hd @ ?r)"
    by (subst memcpy_ok) (simp_all add: length_resp_cmd hd)
  have 2: "put_args (?hd @ ?r) (length ?hd) args =
      Inr (?hd @ ?as @ drop (length ?as) ?r, length ?hd + length ?as)"
    by (rule put_args_bulk) (simp only: lr)
  have one: "\<exists>x. xs = [x]" if "length xs = 1" for xs :: bytes
    using that by (auto simp: length_Suc_conv)
  have "length (drop (length ?as) ?r) = 1" unfolding length_drop lr by simp
  from one [OF this] obtain x where x: "drop (length ?as) ?r = [x]" by blast
  have cmd: "?hd @ ?as = resp_cmd args" by (simp add: resp_cmd_def hd)
  have pos: "length ?hd + length ?as = length (resp_cmd args)" by (simp add: length_resp_cmd hd)
  have 3: "memcpy (?hd @ ?as @ [x]) (length (resp_cmd args)) [NUL] = Inr (resp_cmd args @ [NUL])"
    using memcpy_at [of "?hd @ ?as @ [x]" "resp_cmd args" "[x]" "length (resp_cmd args)" "[NUL]"]
    by (simp only: cmd append_assoc [symmetric] list.size) simp
  show ?thesis
    using True assms(1) unfolding build_cmd_def n Let_def 1 bind_c_simps 2 x prod.case pos 3 by simp
next
  case False
  then show ?thesis using assms
    by (simp add: build_cmd_def int32_id size64_id nat_add_distrib)
qed


section \<open>What the formatters produce\<close>

lemma argv_texts_length: "argv_texts argv lens = Inr args \<Longrightarrow> length args = length argv"
  by (induction argv lens arbitrary: args rule: argv_texts.induct)
    (auto simp: bind_c_Inr_iff split: if_splits)

lemma totlen_start:
  assumes "length (resp_cmd args) < 2 ^ 31 - 1"
  shows "1 + countDigits (size64 (int (length args))) + 2 = 1 + length (dec (length args)) + 2"
    "1 + countDigits (length args) + 2 = 1 + length (dec (length args)) + 2"
    "int32 (int (1 + length (dec (length args)) + 2)) = int (1 + length (dec (length args)) + 2)"
proof -
  have len: "length args \<le> length (concat (map bulk args))"
    by (induction args) (auto simp: length_bulk)
  have l: "length args < 2 ^ 64" using assms len by (simp add: length_resp_cmd)
  show "1 + countDigits (size64 (int (length args))) + 2 = 1 + length (dec (length args)) + 2"
    "1 + countDigits (length args) + 2 = 1 + length (dec (length args)) + 2"
    using l by (simp_all add: countDigits_dec)
  show "int32 (int (1 + length (dec (length args)) + 2)) = int (1 + length (dec (length args)) + 2)"
    using assms by (intro int32_id) (simp_all add: length_resp_cmd)
qed

lemma redisFormatCommandArgv_resp:
  assumes "argv_texts argv lens = Inr args" "length (resp_cmd args) < 2 ^ 31 - 1"
  shows "redisFormatCommandArgv M True (int (length argv)) argv lens =
    (if mem_ok M (length (resp_cmd args) + 1)
     then Inr (int (length (resp_cmd args)), Some (resp_cmd args @ [NUL])) else Inr (-1, None))"
proof -
  have len: "length args = length argv" by (rule argv_texts_length [OF assms(1)])
  have tot: "foldl (\<lambda>t a. int32 (t + int (bulklen (length a))))
      (int32 (int (1 + countDigits (size64 (int (length args))) + 2))) args = int (length (resp_cmd args))"
    unfolding totlen_start [OF assms(2)] using assms(2)
    by (subst foldl_totlen) (simp_all add: length_resp_cmd)
  show ?thesis
    using assms(1) build_cmd_resp [OF refl assms(2) refl, of M] tot
    by (simp add: redisFormatCommandArgv_def Let_def len)
qed

lemma foldl_totlen_size:
  assumes "t + length (concat (map bulk as)) < 2 ^ 62"
  shows "foldl (\<lambda>t a. size64 (int (t + bulklen (length a)))) t as = t + length (concat (map bulk as))"
  using assms
proof (induction as arbitrary: t)
  case (Cons a as)
  have a: "bulklen (length a) = length (bulk a)"
    using Cons.prems by (intro bulklen_bulk) (simp add: length_bulk)
  have "size64 (int (t + length (bulk a))) = t + length (bulk a)"
    using Cons.prems by (intro size64_nat) simp
  with Cons show ?case by (simp add: a del: of_nat_add)
qed simp

lemma sds_put_args_bulk:
  assumes "sds_ok s" "length (content s) + length (concat (map bulk args)) < sds_cap" "\<forall>n. mem_ok M n"
  shows "\<exists>s'. sds_put_args M (Some s) args = Inr (Some s') \<and> sds_ok s' \<and>
    content s' = content s @ concat (map bulk args)"
  using assms
proof (induction args arbitrary: s)
  case (Cons a as)
  have fmt: "fmt_spec (cstr (''$%T'' @ CRLF)) [ArgSize (length a)] = Some (CHR ''$'' # dec (length a) @ CRLF)"
    by (simp add: cstr_def)
  have room: "length (content s) + length (bulk a) < sds_cap" using Cons.prems(2) by simp
  from sdscatfmt_text [OF Cons.prems(1) fmt _ _ Cons.prems(3)] obtain s1 where
    s1: "sdscatfmt M s (''$%T'' @ CRLF) [ArgSize (length a)] = Inr s1" "sds_ok s1"
      "content s1 = content s @ CHR ''$'' # dec (length a) @ CRLF"
    using room by (auto simp: length_bulk)
  from sdsbuf.cat_pieces_grants [OF s1(2), of "[a, CRLF]" M] room Cons.prems(3) obtain s2 where
    s2: "cat_pieces (sdscatlen M) (Some s1) [a, CRLF] = Inr (Some s2)" "sds_ok s2"
      "content s2 = content s @ bulk a"
    by (auto simp: s1(3) length_bulk bulk_def)
  have "sds_put_args M (Some s) (a # as) = bind_c (cat_pieces (sdscatlen M) (Some s1) [a, CRLF]) (\<lambda>cmd. sds_put_args M cmd as)"
    using s1(1) by (auto simp: bind_c_def on_sds_def split: sum.splits option.splits)
  also have "\<dots> = sds_put_args M (Some s2) as" using s2(1) by simp
  finally show ?case using Cons.IH [OF s2(2)] Cons.prems s2(3) by auto
qed simp

lemma redisFormatSdsCommandArgv_resp:
  assumes "argv_texts argv lens = Inr args" "length (resp_cmd args) + 1 < sds_cap" "\<forall>n. mem_ok M n"
  shows "\<exists>s. redisFormatSdsCommandArgv M True (int (length argv)) argv lens =
      Inr (int (length (resp_cmd args)), Some s) \<and> sds_ok s \<and> content s = resp_cmd args"
proof -
  let ?n = "length (resp_cmd args)"
  have len: "length args = length argv" by (rule argv_texts_length [OF assms(1)])
  have n: "?n < 2 ^ 31 - 1" using assms(2) by simp
  have tot: "foldl (\<lambda>t a. size64 (int (t + bulklen (length a))))
      (1 + countDigits (size64 (int (length args))) + 2) args = ?n"
    unfolding totlen_start(1) [OF n] using n
    by (subst foldl_totlen_size) (simp_all add: length_resp_cmd)
  obtain z where z: "sdsMakeRoomFor M (sds_of [] []) ?n = Some (sds_of [] z)" "length z < 2 ^ 31"
    using sdsMakeRoomFor_of [of "[]" "[]" ?n M] assms(2,3) by auto
  have "length args \<le> length (concat (map bulk args))"
    by (induction args) (auto simp: length_bulk)
  then have argc: "int (length args) < 2 ^ 31" using n by (simp add: length_resp_cmd)
  have fmt: "fmt_spec (cstr (''*%i'' @ CRLF)) [ArgInt (int (length args))] = Some (CHR ''*'' # dec (length args) @ CRLF)"
    by (simp add: cstr_def dec_int_def)
  from sdscatfmt_text [of "sds_of [] z", OF _ fmt _ _ assms(3)] obtain s1 where
    s1: "sdscatfmt M (sds_of [] z) (''*%i'' @ CRLF) [ArgInt (int (length args))] = Inr s1" "sds_ok s1"
      "content s1 = CHR ''*'' # dec (length args) @ CRLF"
    using assms(2) z argc by (auto simp: length_resp_cmd)
  from sds_put_args_bulk [OF s1(2), of args M] obtain s2 where
    s2: "sds_put_args M (Some s1) args = Inr (Some s2)" "sds_ok s2" "content s2 = resp_cmd args"
    using assms(2,3) by (auto simp: s1(3) resp_cmd_def)
  have "sdslen s2 = ?n" using s2 length_content by metis
  then show ?thesis
    using assms(1,3) tot z s1 s2 n
    by (simp add: redisFormatSdsCommandArgv_def Let_def sdsempty_grants len int32_id)
qed

subsection \<open>The printf-like formatter, abstractly\<close>

text \<open>\<open>conv_spec\<close> and \<open>vfmt_spec\<close> are the formatter on plain byte strings: which arguments a
  format stands for. \<open>None\<close> covers a format error and undefined behaviour.\<close>

definition conv_spec :: "(bytes \<Rightarrow> 'd va_item list \<Rightarrow> bytes) \<Rightarrow> bytes \<Rightarrow> 'd va_item list
    \<Rightarrow> (bytes \<times> 'd va_item list \<times> nat) option" where
  "conv_spec vtext c args =
     (if peek c 1 = CHR ''s'' then
        (case args of VPtr a # rest \<Rightarrow> Some (cstr a, rest, 2) | _ \<Rightarrow> None)
      else if peek c 1 = CHR ''b'' then
        (case args of
           VPtr a # VSize n # rest \<Rightarrow> if n \<le> length a then Some (take n a, rest, 2) else None
         | _ \<Rightarrow> None)
      else if peek c 1 = CHR ''%'' then Some (''%'', args, 2)
      else
        (case (conv_scan c, args) of
           (Some (k, l), a # rest) \<Rightarrow>
             if \<not> va_is k a then None
             else if l < 14 then Some (cstr (vtext (take l c) args), rest, l)
             else Some ([], rest, 2)
         | _ \<Rightarrow> None))"

lemma conv_spec_pos: "conv_spec vtext c args = Some (t, args', n) \<Longrightarrow> 0 < n"
  by (auto simp: conv_spec_def dest: conv_scan_pos
      split: if_splits list.splits va_item.splits option.splits)

function vfmt_spec :: "(bytes \<Rightarrow> 'd va_item list \<Rightarrow> bytes) \<Rightarrow> bytes \<Rightarrow> bool \<Rightarrow> bytes list \<Rightarrow> bytes
    \<Rightarrow> 'd va_item list \<Rightarrow> bytes list option" where
  "vfmt_spec vtext cur touched acc c args =
     (if c = [] then Some (if touched then acc @ [cur] else acc)
      else if peek c 0 \<noteq> CHR ''%'' \<or> peek c 1 = NUL then
        (if peek c 0 = CHR '' '' then
           (if touched then vfmt_spec vtext [] False (acc @ [cur]) (drop 1 c) args
            else vfmt_spec vtext cur touched acc (drop 1 c) args)
         else vfmt_spec vtext (cur @ [peek c 0]) True acc (drop 1 c) args)
      else
        (case conv_spec vtext c args of
           None \<Rightarrow> None
         | Some (t, args', n) \<Rightarrow>
             if length c < n then None else vfmt_spec vtext (cur @ t) True acc (drop n c) args'))"
  by pat_completeness auto
termination
  by (relation "measure (\<lambda>(vtext, cur, touched, acc, c, args). length c)")
    (auto dest: conv_spec_pos)

declare vfmt_spec.simps [simp del]

lemma catlen_grants:
  assumes "sds_ok s" "length (content s) + length t < sds_cap" "\<forall>n. mem_ok M n"
  obtains s' where "sdscatlen M s t = Inr (Some s')" "sds_ok s'" "content s' = content s @ t"
  using sdsbuf.cat_law [OF assms(1,2)] assms(3) by blast

lemma vconv_conv_spec:
  assumes "conv_spec vtext c args = Some (t, args', n)" "sds_ok cur"
    "length (content cur) + length t < sds_cap" "\<forall>n. mem_ok M n"
  shows "\<exists>s. vconv M vtext cur c args = Inr (ConvOk s args' n) \<and> sds_ok s \<and> content s = content cur @ t"
proof -
  obtain s where s: "sdscatlen M cur t = Inr (Some s)" "sds_ok s" "content s = content cur @ t"
    using catlen_grants [OF assms(2-4)] .
  have pr: "sdscatvprintf M cur u = sdscatlen M cur (cstr u)" for u
    using sdscatprintf_grants [OF assms(4), of cur u] by (simp add: sdscatprintf_def)
  have pc: "sdscat M cur ''%'' = sdscatlen M cur ''%''" by (simp add: sdscat_eq cstr_def)
  consider "peek c 1 = CHR ''s''" | "peek c 1 = CHR ''b''" | "peek c 1 = CHR ''%''"
    | "peek c 1 \<notin> {CHR ''s'', CHR ''b'', CHR ''%''}" by blast
  then show ?thesis
  proof cases
    case 1
    then show ?thesis using assms(1,2) s
      by (auto simp: conv_spec_def vconv_def vconv_s_def conv_new_def split: list.splits va_item.splits)
  next
    case 2
    then show ?thesis using assms(1,2) s
      by (auto simp: conv_spec_def vconv_def vconv_b_def conv_new_def
          split: list.splits va_item.splits if_splits)
  next
    case 3
    then show ?thesis using assms(1) s pc
      by (auto simp: conv_spec_def vconv_def conv_new_def)
  next
    case 4
    then show ?thesis using assms(1,2) s pr
      by (auto simp: conv_spec_def vconv_def vconv_printf_def conv_new_def
          split: list.splits option.splits if_splits)
  qed
qed

lemma vf_step_cases:
  obtains (stop) "c = []"
  | (space) "c \<noteq> []" "peek c 0 = CHR '' ''"
  | (lit) "c \<noteq> []" "peek c 0 \<noteq> CHR ''%'' \<or> peek c 1 = NUL" "peek c 0 \<noteq> CHR '' ''"
  | (conv) "c \<noteq> []" "peek c 0 = CHR ''%''" "peek c 1 \<noteq> NUL"
  by fastforce

lemma vfmt_spec_grows:
  assumes "vfmt_spec vtext cur touched acc c args = Some ts" "touched \<or> cur = []"
  shows "length (concat (map bulk acc)) + length cur \<le> length (concat (map bulk ts))"
  using assms
proof (induction vtext cur touched acc c args rule: vfmt_spec.induct)
  case (1 vtext cur touched acc c args)
  have b: "length cur \<le> length (bulk cur)" by (simp add: length_bulk)
  note eq = 1(5) [unfolded vfmt_spec.simps [of vtext cur touched acc c args]]
  show ?case
  proof (cases c rule: vf_step_cases)
    case stop
    then show ?thesis using eq b 1(6) by (auto split: if_splits)
  next
    case space
    then show ?thesis using eq b 1(6) 1(1,2) by (cases touched) auto
  next
    case lit
    then show ?thesis using eq b 1(3) by auto
  next
    case conv
    then obtain t args' n where n: "conv_spec vtext c args = Some (t, args', n)" "n \<le> length c"
      "vfmt_spec vtext (cur @ t) True acc (drop n c) args' = Some ts"
      using eq by (auto split: option.splits if_splits)
    show ?thesis using 1(4) [OF conv(1) _ n(1) refl refl] conv n by auto
  qed
qed

definition vf_rel :: "vf_state \<Rightarrow> bytes \<Rightarrow> bool \<Rightarrow> bytes list \<Rightarrow> bool" where
  "vf_rel st cur touched acc \<longleftrightarrow>
     sds_ok (vf_curarg st) \<and> content (vf_curarg st) = cur \<and> vf_touched st = touched \<and>
     list_all sds_ok (vf_argv st) \<and> map content (vf_argv st) = acc \<and>
     vf_totlen st = int (length (concat (map bulk acc)))"

lemma vf_push_rel:
  assumes "vf_rel st cur touched acc" "\<forall>n. mem_ok M n"
    "length (concat (map bulk acc)) + length (bulk cur) < 2 ^ 31"
  obtains st' where "vf_push M st = Some st'" "vf_rel st' cur touched (acc @ [cur])"
proof -
  have len: "sdslen (vf_curarg st) = length cur"
    using assms(1) length_content unfolding vf_rel_def by metis
  have b: "bulklen (length cur) = length (bulk cur)"
    using assms(3) by (intro bulklen_bulk) (simp add: length_bulk)
  show thesis
    using assms len b int32_id [of "int (length (concat (map bulk acc)) + length (bulk cur))"]
    by (intro that [OF _ , of "st\<lparr>vf_argv := vf_argv st @ [vf_curarg st],
      vf_totlen := int (length (concat (map bulk acc)) + length (bulk cur))\<rparr>"])
      (auto simp: vf_push_def vf_rel_def)
qed

text \<open>One literal character, and one space after a finished argument.\<close>

lemma vf_loop_lit:
  assumes "vf_rel st cur touched acc" "\<forall>n. mem_ok M n" "length cur + 1 < sds_cap"
    "x \<noteq> CHR ''%'' \<or> peek c 0 = NUL" "x \<noteq> CHR '' ''"
  obtains st' where "vf_loop M vtext st (x # c) args = vf_loop M vtext st' c args"
    "vf_rel st' (cur @ [x]) True acc"
proof -
  have "length (content (vf_curarg st)) + length [x] < sds_cap" using assms(1,3) by (simp add: vf_rel_def)
  then obtain s where s: "sdscatlen M (vf_curarg st) [x] = Inr (Some s)" "sds_ok s" "content s = cur @ [x]"
    using catlen_grants [of "vf_curarg st" "[x]" M] assms(1,2) unfolding vf_rel_def by metis
  show thesis
    using assms s by (intro that [of "st\<lparr>vf_curarg := s, vf_touched := True\<rparr>"])
      (auto simp: vf_rel_def vf_loop.simps [of M vtext st])
qed

lemma vf_loop_space:
  assumes "vf_rel st cur True acc" "\<forall>n. mem_ok M n"
    "length (concat (map bulk acc)) + length (bulk cur) < 2 ^ 31"
  obtains st' where "vf_loop M vtext st (CHR '' '' # c) args = vf_loop M vtext st' c args"
    "vf_rel st' [] False (acc @ [cur])"
proof -
  obtain st1 where st1: "vf_push M st = Some st1" "vf_rel st1 cur True (acc @ [cur])"
    using vf_push_rel [OF assms] .
  show thesis
    using assms(1,2) st1 by (intro that [of "st1\<lparr>vf_curarg := sds_of [] [], vf_touched := False\<rparr>"])
      (auto simp: vf_rel_def vf_space_def sdsempty_grants vf_loop.simps [of M vtext st])
qed

lemma vf_loop_spec:
  assumes "vfmt_spec vtext cur touched acc c args = Some ts" "touched \<or> cur = []"
    "vf_rel st cur touched acc" "\<forall>n. mem_ok M n" "length (concat (map bulk ts)) < sds_cap"
  shows "\<exists>st' cur' touched' acc'. vf_loop M vtext st c args = Inr (Inr st') \<and>
    vf_rel st' cur' touched' acc' \<and> ts = (if touched' then acc' @ [cur'] else acc')"
  using assms
proof (induction vtext cur touched acc c args arbitrary: st rule: vfmt_spec.induct)
  case (1 vtext cur touched acc c args)
  note eq = 1(5) [unfolded vfmt_spec.simps [of vtext cur touched acc c args]]
  note loop = vf_loop.simps [of M vtext st c args]
  have grows: "length (concat (map bulk acc)) + length cur \<le> length (concat (map bulk ts))"
    using vfmt_spec_grows [OF 1(5,6)] .
  show ?case
  proof (cases c rule: vf_step_cases)
    case stop
    then show ?thesis using eq 1(7) loop by (auto split: if_splits)
  next
    case space
    show ?thesis
    proof (cases touched)
      case True
      have rec: "vfmt_spec vtext [] False (acc @ [cur]) (drop 1 c) args = Some ts"
        using eq space True by simp
      have "length (concat (map bulk acc)) + length (bulk cur) < 2 ^ 31"
        using vfmt_spec_grows [OF rec] 1(9) by simp
      moreover obtain c' where c': "c = CHR '' '' # c'" using space by (cases c) auto
      moreover have "vf_rel st cur True acc" using 1(7) True by simp
      ultimately obtain st1 where st1: "vf_loop M vtext st c args = vf_loop M vtext st1 (drop 1 c) args"
        "vf_rel st1 [] False (acc @ [cur])"
        using vf_loop_space [OF _ 1(8), of st cur acc vtext c' args] by auto
      then show ?thesis using 1(1) [OF space(1) _ space(2) True rec, of st1] space 1(8,9) by auto
    next
      case False
      then show ?thesis
        using 1(2) [OF space(1) _ space(2) False, of st] eq space loop 1(6-9)
        by (auto simp: vf_space_def vf_rel_def)
    qed
  next
    case lit
    have rec: "vfmt_spec vtext (cur @ [peek c 0]) True acc (drop 1 c) args = Some ts"
      using eq lit by simp
    then have "length cur + 1 < sds_cap" using vfmt_spec_grows [OF rec] 1(9) by simp
    moreover obtain x c' where c': "c = x # c'" using lit by (cases c) auto
    ultimately obtain st1 where st1: "vf_loop M vtext st c args = vf_loop M vtext st1 (drop 1 c) args"
      "vf_rel st1 (cur @ [peek c 0]) True acc"
      using vf_loop_lit [OF 1(7,8), of x c' vtext args] lit by auto
    then show ?thesis using 1(3) [OF lit(1,2,3) rec, of st1] 1(8,9) by auto
  next
    case conv
    then obtain t args' n where n: "conv_spec vtext c args = Some (t, args', n)" "n \<le> length c"
      "vfmt_spec vtext (cur @ t) True acc (drop n c) args' = Some ts"
      using eq by (auto split: option.splits if_splits)
    have "length (content (vf_curarg st)) + length t < sds_cap"
      using vfmt_spec_grows [OF n(3)] 1(7,9) by (auto simp: vf_rel_def)
    then obtain s where s: "vconv M vtext (vf_curarg st) c args = Inr (ConvOk s args' n)" "sds_ok s"
      "content s = cur @ t"
      using vconv_conv_spec [OF n(1), of "vf_curarg st" M] 1(7,8) unfolding vf_rel_def by blast
    let ?st = "st\<lparr>vf_curarg := s, vf_touched := True\<rparr>"
    have "vf_loop M vtext st c args = vf_loop M vtext ?st (drop n c) args'"
      using loop conv s(1) n(2) by simp
    moreover have "vf_rel ?st (cur @ t) True acc" using 1(7) s by (auto simp: vf_rel_def)
    ultimately show ?thesis using 1(4) [OF conv(1) _ n(1) refl refl _ n(3), of ?st] conv n(2) 1(8,9) by auto
  qed
qed

lemma argv_texts_sds:
  "list_all sds_ok ss \<Longrightarrow> argv_texts (map sh_buf ss) (Some (map sdslen ss)) = Inr (map content ss)"
proof (induction ss)
  case (Cons s ss)
  then have "sdslen s \<le> length (sh_buf s)" using sds_okD(6) [of s] by (simp add: sdslen_ok)
  with Cons show ?case by (simp add: content_def sdslen_ok)
qed simp

lemma redisvFormatCommand_resp:
  assumes "vfmt_spec vtext [] False [] (cstr format) args = Some ts" "\<forall>n. mem_ok M n"
    "length (resp_cmd ts) < sds_cap"
  shows "redisvFormatCommand M vtext True format args =
    Inr (int (length (resp_cmd ts)), Some (resp_cmd ts @ [NUL]))"
proof -
  let ?st = "\<lparr>vf_curarg = sds_of [] [], vf_touched = False, vf_argv = [], vf_totlen = 0\<rparr>"
  have bound: "length (concat (map bulk ts)) < sds_cap" using assms(3) by (simp add: length_resp_cmd)
  have "vf_rel ?st [] False []" by (simp add: vf_rel_def)
  from vf_loop_spec [OF assms(1) _ this assms(2) bound] obtain st' cur touched acc where
    st': "vf_loop M vtext ?st (cstr format) args = Inr (Inr st')" "vf_rel st' cur touched acc"
      "ts = (if touched then acc @ [cur] else acc)" by auto
  obtain st2 where st2: "(if vf_touched st' then
        (case vf_push M st' of None \<Rightarrow> Inl (-1) | Some st \<Rightarrow> Inr st) else Inr st') = (Inr st2 :: int + vf_state)"
      "vf_rel st2 cur touched ts"
  proof (cases touched)
    case True
    then have "length (concat (map bulk acc)) + length (bulk cur) < 2 ^ 31"
      using bound st'(3) by simp
    from vf_push_rel [OF st'(2) assms(2) this] obtain s2 where
      "vf_push M st' = Some s2" "vf_rel s2 cur touched (acc @ [cur])" .
    with True st'(2,3) that [of s2] show thesis by (simp add: vf_rel_def)
  next
    case False
    with st'(2,3) that [of st'] show thesis by (simp add: vf_rel_def)
  qed
  have ts: "length ts = length (vf_argv st2)" "map content (vf_argv st2) = ts"
    "vf_totlen st2 = int (length (concat (map bulk ts)))" "list_all sds_ok (vf_argv st2)"
    using st2(2) by (auto simp: vf_rel_def)
  have n: "length (resp_cmd ts) < 2 ^ 31 - 1" using assms(3) by simp
  have tot: "int32 (vf_totlen st2 + int (1 + countDigits (length ts) + 2)) = int (length (resp_cmd ts))"
    unfolding totlen_start(2) [OF n] using n ts by (subst int32_id) (auto simp: length_resp_cmd)
  show ?thesis
    using st'(1) st2(1) assms(2) tot build_cmd_resp [OF refl n refl, of M] ts(1)
    by (simp add: redisvFormatCommand_def sdsempty_grants argv_texts_sds [OF ts(4)] ts(2) Let_def del: of_nat_add)
qed

section \<open>Properties\<close>

text \<open>
  C22: \<^verbatim>\<open>redisFormatCommandArgv\<close> writes exactly the protocol text of its arguments and a NUL into
  the \<^verbatim>\<open>totlen + 1\<close> bytes it allocated, for arguments with any bytes: no store leaves the
  buffer, the assertion \<^verbatim>\<open>pos == totlen\<close> holds, and the result is the length; it is -1 exactly
  when the allocator refuses.
\<close>

theorem redisFormatCommandArgv_correct:
  assumes "argv_texts argv lens = Inr args" "length (resp_cmd args) < 2 ^ 31 - 1"
  shows "redisFormatCommandArgv M True (int (length argv)) argv lens =
    (if mem_ok M (length (resp_cmd args) + 1)
     then Inr (int (length (resp_cmd args)), Some (resp_cmd args @ [NUL])) else Inr (-1, None))"
  by (rule redisFormatCommandArgv_resp [OF assms])

theorem redisFormatCommandArgv_correct_witness:
  "redisFormatCommandArgv granting True 2 [''GET'', [CHR ''k'', NUL, CHR ''x'']] (Some [3, 3]) =
    Inr (22, Some (resp_cmd [''GET'', [CHR ''k'', NUL, CHR ''x'']] @ [NUL]))"
  using redisFormatCommandArgv_correct [of "[''GET'', [CHR ''k'', NUL, CHR ''x'']]" "Some [3, 3]"
      "[''GET'', [CHR ''k'', NUL, CHR ''x'']]" granting]
  by (simp add: length_resp_cmd length_bulk dec_small)

text \<open>
  C21: the three formatters agree: the sds formatter on the same arguments, and the printf-like
  formatter on a format that stands for them, give the same protocol text and length.
\<close>

theorem formatters_agree:
  assumes "argv_texts argv lens = Inr args" "length (resp_cmd args) + 1 < sds_cap" "\<forall>n. mem_ok M n"
    "vfmt_spec vtext [] False [] (cstr format) vargs = Some args"
  shows "\<exists>s. redisFormatSdsCommandArgv M True (int (length argv)) argv lens =
        Inr (int (length (resp_cmd args)), Some s) \<and> sds_ok s \<and>
      redisFormatCommandArgv M True (int (length argv)) argv lens =
        Inr (int (length (resp_cmd args)), Some (content s @ [NUL])) \<and>
      redisFormatCommand M vtext True format vargs =
        Inr (int (length (resp_cmd args)), Some (content s @ [NUL]))"
proof -
  have "length (resp_cmd args) < 2 ^ 31 - 1" "length (resp_cmd args) < sds_cap" using assms(2) by simp_all
  with redisFormatSdsCommandArgv_resp [OF assms(1-3)] redisFormatCommandArgv_resp [OF assms(1), of M]
    redisvFormatCommand_resp [OF assms(4,3)] assms(3)
  show ?thesis by (auto simp: redisFormatCommand_def)
qed

theorem formatters_agree_witness:
  "\<exists>s. redisFormatSdsCommandArgv granting True 3 [''SET'', ''key:7'', ''a b''] None = Inr (33, Some s) \<and>
      redisFormatCommand (granting) (\<lambda>f a. ''7'') True ''SET key:%d %b''
        [VInt 7 :: unit va_item, VPtr ''a bc'', VSize 3] = Inr (33, Some (content s @ [NUL]))"
proof -
  let ?v = "\<lambda>(f :: bytes) (a :: unit va_item list). ''7''"
  have "vfmt_spec ?v [] False [] (cstr ''SET key:%d %b'') [VInt 7, VPtr ''a bc'', VSize 3]
      = Some [''SET'', ''key:7'', ''a b'']"
    by (simp add: vfmt_spec.simps peek_def cstr_def conv_spec_def conv_scan_def conv_skip_def conv_kind_def
        isdigit_def char_code_def)
  moreover have "argv_texts [''SET'', ''key:7'', ''a b''] None = Inr [''SET'', ''key:7'', ''a b'']"
    by (simp add: cstr_def)
  moreover have "length (resp_cmd [''SET'', ''key:7'', ''a b'']) = 33"
    by (simp add: length_resp_cmd length_bulk dec_small)
  ultimately show ?thesis
    using formatters_agree [of "[''SET'', ''key:7'', ''a b'']" None "[''SET'', ''key:7'', ''a b'']" granting ?v
        "''SET key:%d %b''" "[VInt 7, VPtr ''a bc'', VSize 3]"]
    by auto
qed


end
