(* ===== verification/Connection.thy ===== *)
theory Connection
  imports Reader_Stream Format
begin

text \<open>
  A connection to one server (\<^verbatim>\<open>src/hiredis.c\<close>): the context with its output buffer and its reader,
  \<^verbatim>\<open>redisBufferRead\<close> and \<^verbatim>\<open>redisBufferWrite\<close>, which move bytes between the socket and these, and the functions
  that append commands and fetch replies.

  What the operating system does to a socket in one run is a script: the results of the calls of \<^verbatim>\<open>read\<close> and
  \<^verbatim>\<open>write\<close> that are still to come, and the bytes the server has been sent. A lemma for all scripts is one for
  every behaviour of the network. A call beyond the end of its script never returns, and neither does the code that
  makes it: \<open>None\<close>. The text of \<^verbatim>\<open>strerror\<close> is a parameter.
\<close>

section \<open>Sockets\<close>

text \<open>\<^verbatim>\<open>EWOULDBLOCK\<close> and \<^verbatim>\<open>EAGAIN\<close> are the same number.\<close>

datatype errno = EAGAIN | EINTR | Errno int

datatype read_result = Read bytes | ReadFails errno

datatype write_result = Wrote nat | WriteFails errno

record sock =
  sk_reads :: "read_result list"
  sk_writes :: "write_result list"
  sk_sent :: bytes

text \<open>At most \<open>n\<close> bytes; what is left stays in the socket. No bytes are the end of the stream.\<close>

definition sock_read :: "nat \<Rightarrow> sock \<Rightarrow> (read_result \<times> sock) option" where
  "sock_read n s =
     (case sk_reads s of
        [] \<Rightarrow> None
      | Read t # es \<Rightarrow> Some (Read (take n t), s\<lparr>sk_reads := (if length t \<le> n then es else Read (drop n t) # es)\<rparr>)
      | e # es \<Rightarrow> Some (e, s\<lparr>sk_reads := es\<rparr>))"

definition sock_write :: "bytes \<Rightarrow> sock \<Rightarrow> (write_result \<times> sock) option" where
  "sock_write t s =
     (case sk_writes s of
        [] \<Rightarrow> None
      | Wrote k # es \<Rightarrow> Some (Wrote (min k (length t)), s\<lparr>sk_writes := es, sk_sent := sk_sent s @ take k t\<rparr>)
      | e # es \<Rightarrow> Some (e, s\<lparr>sk_writes := es\<rparr>))"

section \<open>The context\<close>

text \<open>The flags are single bits of one number; here they are the set of the flags that are up.\<close>

datatype redis_flag = REDIS_BLOCK | REDIS_CONNECTED | REDIS_DISCONNECTING | REDIS_FREEING | REDIS_IN_CALLBACK | REDIS_SUBSCRIBED
  | REDIS_MONITORING | REDIS_REUSEADDR

abbreviation (input) REDIS_ERR_TIMEOUT :: int where "REDIS_ERR_TIMEOUT \<equiv> 7"

record redisContext =
  rc_err :: int
  rc_errstr :: bytes
  rc_fd :: int
  rc_flags :: "redis_flag set"
  rc_obuf :: "sdshdr option"
  rc_reader :: "rheap redisReader"

abbreviation sizeof_redisContext :: nat where "sizeof_redisContext \<equiv> 208"

definition redisSetError :: "redisContext \<Rightarrow> int \<Rightarrow> bytes \<Rightarrow> redisContext" where
  "redisSetError c ty str = c\<lparr>rc_err := ty, rc_errstr := take 127 (cstr str)\<rparr>"

definition redisReaderCreate :: "mem \<Rightarrow> rheap redisReader option c_res" where
  "redisReaderCreate M = redisReaderCreateWithFunctions M (Some (defaultFunctions M))"

definition redisContextInit :: "mem \<Rightarrow> redisContext option c_res" where
  "redisContextInit M =
     (if \<not> mem_ok M sizeof_redisContext then Inr None
      else
        bind_c (sdsempty M) (\<lambda>obuf.
          bind_c (redisReaderCreate M) (\<lambda>reader.
            Inr (case (obuf, reader) of
                   (Some ob, Some r) \<Rightarrow>
                     Some \<lparr>rc_err = 0, rc_errstr = [], rc_fd = 0, rc_flags = {}, rc_obuf = Some ob, rc_reader = r\<rparr>
                 | _ \<Rightarrow> None))))"

definition redisConnectFd :: "mem \<Rightarrow> int \<Rightarrow> redisContext option c_res" where
  "redisConnectFd M fd =
     bind_c (redisContextInit M) (\<lambda>c.
       Inr (map_option (\<lambda>c. c\<lparr>rc_fd := fd, rc_flags := rc_flags c \<union> {REDIS_BLOCK, REDIS_CONNECTED}\<rparr>) c))"

section \<open>Between buffers and socket\<close>

text \<open>What both calls do with an error: whether to try again later, or the error of the context.\<close>

definition try_later :: "redisContext \<Rightarrow> errno \<Rightarrow> bool" where
  "try_later c e \<longleftrightarrow> e = EAGAIN \<and> REDIS_BLOCK \<notin> rc_flags c \<or> e = EINTR"

definition io_error :: "(errno \<Rightarrow> bytes) \<Rightarrow> redisContext \<Rightarrow> errno \<Rightarrow> redisContext" where
  "io_error strerror c e =
     (if e = EAGAIN \<and> REDIS_BLOCK \<in> rc_flags c then redisSetError c REDIS_ERR_TIMEOUT ''Socket timeout''
      else redisSetError c REDIS_ERR_IO (strerror e))"

definition redisBufferRead :: "mem \<Rightarrow> (errno \<Rightarrow> bytes) \<Rightarrow> redisContext \<Rightarrow> sock \<Rightarrow> rheap \<Rightarrow>
    (int \<times> redisContext \<times> sock \<times> rheap) c_res option" where
  "redisBufferRead M strerror c s h =
     (if rc_err c \<noteq> 0 then Some (Inr (REDIS_ERR, c, s, h))
      else
        (case sock_read 16384 s of
           None \<Rightarrow> None
         | Some (ReadFails e, s) \<Rightarrow>
             Some (Inr (if try_later c e then (REDIS_OK, c, s, h) else (REDIS_ERR, io_error strerror c e, s, h)))
         | Some (Read t, s) \<Rightarrow>
             if t = [] then Some (Inr (REDIS_ERR, redisSetError c REDIS_ERR_EOF ''Server closed the connection'', s, h))
             else
               Some (bind_c (redisReaderFeed M (rc_reader c) (Some t) h) (\<lambda>(ok, r, h).
                 let c = c\<lparr>rc_reader := r\<rparr> in
                 Inr (if ok \<noteq> REDIS_OK then (REDIS_ERR, redisSetError c (r_err r) (r_errstr r), s, h)
                      else (REDIS_OK, c, s, h))))))"

text \<open>The second component of the result is \<^verbatim>\<open>*done\<close>, which is not set when the call fails.\<close>

definition write_done :: "redisContext \<Rightarrow> sock \<Rightarrow> (int \<times> bool \<times> redisContext \<times> sock) c_res" where
  "write_done c s = (case rc_obuf c of None \<Rightarrow> Inl NullDeref | Some ob \<Rightarrow> Inr (REDIS_OK, sdslen ob = 0, c, s))"

definition redisBufferWrite :: "mem \<Rightarrow> (errno \<Rightarrow> bytes) \<Rightarrow> redisContext \<Rightarrow> sock \<Rightarrow>
    (int \<times> bool \<times> redisContext \<times> sock) c_res option" where
  "redisBufferWrite M strerror c s =
     (if rc_err c \<noteq> 0 then Some (Inr (REDIS_ERR, False, c, s))
      else
        (case rc_obuf c of
           None \<Rightarrow> Some (Inl NullDeref)
         | Some ob \<Rightarrow>
             if sdslen ob = 0 then Some (write_done c s)
             else
               (case sock_write (content ob) s of
                  None \<Rightarrow> None
                | Some (WriteFails e, s) \<Rightarrow>
                    Some (if try_later c e then write_done c s else Inr (REDIS_ERR, False, io_error strerror c e, s))
                | Some (Wrote n, s) \<Rightarrow>
                    Some
                      (if n = 0 then write_done c s
                       else if int n = int32 (int (sdslen ob)) then bind_c (sdsempty M) (\<lambda>e. write_done (c\<lparr>rc_obuf := e\<rparr>) s)
                       else bind_c (sdsrange ob (int n) (-1)) (\<lambda>ob. write_done (c\<lparr>rc_obuf := Some ob\<rparr>) s)))))"

section \<open>Replies\<close>

definition redisGetReplyFromReader :: "redisContext \<Rightarrow> rheap \<Rightarrow> (int \<times> ptr \<times> redisContext \<times> rheap) c_res" where
  "redisGetReplyFromReader c h =
     bind_c (redisReaderGetReply (rc_reader c) h) (\<lambda>(ok, p, r, h).
       let c = c\<lparr>rc_reader := r\<rparr> in
       Inr (if ok = REDIS_ERR then (REDIS_ERR, 0, redisSetError c (r_err r) (r_errstr r), h) else (REDIS_OK, p, c, h)))"

partial_function (option) write_until_done :: "mem \<Rightarrow> (errno \<Rightarrow> bytes) \<Rightarrow> redisContext \<Rightarrow> sock \<Rightarrow>
    (int \<times> redisContext \<times> sock) c_res option" where
  "write_until_done M strerror c s =
     (case redisBufferWrite M strerror c s of
        None \<Rightarrow> None
      | Some (Inl e) \<Rightarrow> Some (Inl e)
      | Some (Inr (ok, done, c, s)) \<Rightarrow>
          if ok = REDIS_ERR then Some (Inr (REDIS_ERR, c, s))
          else if done then Some (Inr (REDIS_OK, c, s))
          else write_until_done M strerror c s)"

partial_function (option) read_until_reply :: "mem \<Rightarrow> (errno \<Rightarrow> bytes) \<Rightarrow> redisContext \<Rightarrow> sock \<Rightarrow> rheap \<Rightarrow>
    (int \<times> ptr \<times> redisContext \<times> sock \<times> rheap) c_res option" where
  "read_until_reply M strerror c s h =
     (case redisBufferRead M strerror c s h of
        None \<Rightarrow> None
      | Some (Inl e) \<Rightarrow> Some (Inl e)
      | Some (Inr (ok, c, s, h)) \<Rightarrow>
          if ok = REDIS_ERR then Some (Inr (REDIS_ERR, 0, c, s, h))
          else
            (case redisGetReplyFromReader c h of
               Inl e \<Rightarrow> Some (Inl e)
             | Inr (ok, p, c, h) \<Rightarrow>
                 if ok = REDIS_ERR then Some (Inr (REDIS_ERR, 0, c, s, h))
                 else if p \<noteq> 0 then Some (Inr (REDIS_OK, p, c, s, h))
                 else read_until_reply M strerror c s h))"

definition redisGetReply :: "mem \<Rightarrow> (errno \<Rightarrow> bytes) \<Rightarrow> redisContext \<Rightarrow> sock \<Rightarrow> rheap \<Rightarrow>
    (int \<times> ptr \<times> redisContext \<times> sock \<times> rheap) c_res option" where
  "redisGetReply M strerror c s h =
     (case redisGetReplyFromReader c h of
        Inl e \<Rightarrow> Some (Inl e)
      | Inr (ok, p, c, h) \<Rightarrow>
          if ok = REDIS_ERR then Some (Inr (REDIS_ERR, 0, c, s, h))
          else if p = 0 \<and> REDIS_BLOCK \<in> rc_flags c then
            (case write_until_done M strerror c s of
               None \<Rightarrow> None
             | Some (Inl e) \<Rightarrow> Some (Inl e)
             | Some (Inr (ok, c, s)) \<Rightarrow>
                 if ok = REDIS_ERR then Some (Inr (REDIS_ERR, 0, c, s, h)) else read_until_reply M strerror c s h)
          else Some (Inr (REDIS_OK, p, c, s, h)))"

section \<open>Commands\<close>

definition redisAppendCommand_raw :: "mem \<Rightarrow> redisContext \<Rightarrow> bytes \<Rightarrow> (int \<times> redisContext) c_res" where
  "redisAppendCommand_raw M c cmd =
     (case rc_obuf c of
        None \<Rightarrow> Inl NullDeref
      | Some ob \<Rightarrow>
          bind_c (sdscatlen M ob cmd) (\<lambda>newbuf.
            Inr (case newbuf of
                   None \<Rightarrow> (REDIS_ERR, redisSetError c REDIS_ERR_OOM ''Out of memory'')
                 | Some ob \<Rightarrow> (REDIS_OK, c\<lparr>rc_obuf := Some ob\<rparr>))))"

definition redisAppendFormattedCommand :: "mem \<Rightarrow> redisContext \<Rightarrow> bytes \<Rightarrow> (int \<times> redisContext) c_res" where
  "redisAppendFormattedCommand M c cmd =
     bind_c (redisAppendCommand_raw M c cmd) (\<lambda>(ok, c). Inr (if ok \<noteq> REDIS_OK then REDIS_ERR else REDIS_OK, c))"

definition redisvAppendCommand :: "mem \<Rightarrow> (bytes \<Rightarrow> 'd va_item list \<Rightarrow> bytes) \<Rightarrow> redisContext \<Rightarrow> bytes \<Rightarrow> 'd va_item list \<Rightarrow>
    (int \<times> redisContext) c_res" where
  "redisvAppendCommand M vtext c format args =
     bind_c (redisvFormatCommand M vtext True format args) (\<lambda>(len, cmd).
       if len = -1 then Inr (REDIS_ERR, redisSetError c REDIS_ERR_OOM ''Out of memory'')
       else if len = -2 then Inr (REDIS_ERR, redisSetError c REDIS_ERR_OTHER ''Invalid format string'')
       else
         (case cmd of
            None \<Rightarrow> Inl NullDeref
          | Some cmd \<Rightarrow>
              bind_c (redisAppendCommand_raw M c (take (nat len) cmd)) (\<lambda>(ok, c).
                Inr (if ok \<noteq> REDIS_OK then REDIS_ERR else REDIS_OK, c))))"

definition redisAppendCommandArgv :: "mem \<Rightarrow> redisContext \<Rightarrow> int \<Rightarrow> bytes list \<Rightarrow> nat list option \<Rightarrow> (int \<times> redisContext) c_res" where
  "redisAppendCommandArgv M c argc argv argvlen =
     bind_c (redisFormatSdsCommandArgv M True argc argv argvlen) (\<lambda>(len, cmd).
       if len = -1 then Inr (REDIS_ERR, redisSetError c REDIS_ERR_OOM ''Out of memory'')
       else
         (case cmd of
            None \<Rightarrow> Inl NullDeref
          | Some cmd \<Rightarrow>
              bind_c (redisAppendCommand_raw M c (take (nat len) (sh_buf cmd))) (\<lambda>(ok, c).
                Inr (if ok \<noteq> REDIS_OK then REDIS_ERR else REDIS_OK, c))))"

type_synonym sent_result = "(ptr \<times> redisContext \<times> sock \<times> rheap) c_res option"

definition redisBlockForReply :: "mem \<Rightarrow> (errno \<Rightarrow> bytes) \<Rightarrow> redisContext \<Rightarrow> sock \<Rightarrow> rheap \<Rightarrow> sent_result" where
  "redisBlockForReply M strerror c s h =
     (if REDIS_BLOCK \<in> rc_flags c then
        (case redisGetReply M strerror c s h of
           None \<Rightarrow> None
         | Some (Inl e) \<Rightarrow> Some (Inl e)
         | Some (Inr (ok, p, c, s, h)) \<Rightarrow> Some (Inr (if ok \<noteq> REDIS_OK then 0 else p, c, s, h)))
      else Some (Inr (0, c, s, h)))"

definition redisvCommand :: "mem \<Rightarrow> (bytes \<Rightarrow> 'd va_item list \<Rightarrow> bytes) \<Rightarrow> (errno \<Rightarrow> bytes) \<Rightarrow> redisContext \<Rightarrow> bytes \<Rightarrow> 'd va_item list \<Rightarrow>
    sock \<Rightarrow> rheap \<Rightarrow> sent_result" where
  "redisvCommand M vtext strerror c format args s h =
     (case redisvAppendCommand M vtext c format args of
        Inl e \<Rightarrow> Some (Inl e)
      | Inr (ok, c) \<Rightarrow> if ok \<noteq> REDIS_OK then Some (Inr (0, c, s, h)) else redisBlockForReply M strerror c s h)"

definition redisCommandArgv :: "mem \<Rightarrow> (errno \<Rightarrow> bytes) \<Rightarrow> redisContext \<Rightarrow> int \<Rightarrow> bytes list \<Rightarrow> nat list option \<Rightarrow> sock \<Rightarrow> rheap \<Rightarrow>
    sent_result" where
  "redisCommandArgv M strerror c argc argv argvlen s h =
     (case redisAppendCommandArgv M c argc argv argvlen of
        Inl e \<Rightarrow> Some (Inl e)
      | Inr (ok, c) \<Rightarrow> if ok \<noteq> REDIS_OK then Some (Inr (0, c, s, h)) else redisBlockForReply M strerror c s h)"

definition redisFree :: "redisContext \<Rightarrow> rheap \<Rightarrow> rheap c_res" where
  "redisFree c h = redisReaderFree (rc_reader c) h"

section \<open>Writing\<close>

lemma range_spec_drop: "n < length t \<Longrightarrow> range_spec (int n) (-1) t = drop n t"
  by (simp add: range_spec_def Let_def)

lemma sdsempty_of: "sdsempty M = Inr (if mem_ok M 9 then Some (sds_of [] []) else None)"
  using sdsnewlen_of [of 0 "[]" M] by (simp add: sdsempty_def)

text \<open>The output of a connection: what the server was sent and what is still in the buffer. Writing moves bytes between the two.\<close>

definition unsent :: "redisContext \<Rightarrow> bytes" where
  "unsent c = (case rc_obuf c of None \<Rightarrow> [] | Some ob \<Rightarrow> content ob)"

definition out_bytes :: "redisContext \<Rightarrow> sock \<Rightarrow> bytes" where
  "out_bytes c s = sk_sent s @ unsent c"

definition obuf_ok :: "redisContext \<Rightarrow> bool" where
  "obuf_ok c \<longleftrightarrow> (\<exists>ob. rc_obuf c = Some ob \<and> sds_ok ob)"

definition same_input :: "redisContext \<Rightarrow> sock \<Rightarrow> redisContext \<Rightarrow> sock \<Rightarrow> bool" where
  "same_input c s c' s' \<longleftrightarrow> rc_reader c' = rc_reader c \<and> rc_flags c' = rc_flags c \<and> sk_reads s' = sk_reads s"

lemma redisSetError_simps [simp]:
  "rc_err (redisSetError c ty str) = ty" "rc_obuf (redisSetError c ty str) = rc_obuf c"
  "rc_reader (redisSetError c ty str) = rc_reader c" "rc_flags (redisSetError c ty str) = rc_flags c"
  by (simp_all add: redisSetError_def)

lemma io_error_simps [simp]:
  "rc_err (io_error st c e) \<noteq> 0" "rc_obuf (io_error st c e) = rc_obuf c"
  "rc_reader (io_error st c e) = rc_reader c" "rc_flags (io_error st c e) = rc_flags c"
  by (simp_all add: io_error_def)

lemma write_doneD:
  "write_done c s = Inr (ok, done, c', s') \<Longrightarrow> c' = c \<and> s' = s \<and> ok = REDIS_OK \<and> (\<exists>ob. rc_obuf c = Some ob \<and> done = (sdslen ob = 0))"
  by (auto simp: write_done_def split: option.splits)

lemma sdslen_0: "sds_ok ob \<Longrightarrow> (sdslen ob = 0) = (content ob = [])"
  by (erule sds_ok_cases) auto

lemma redisBufferWrite_moves:
  assumes "redisBufferWrite M st c s = Some (Inr (ok, done, c', s'))" "obuf_ok c"
  shows "out_bytes c' s' = out_bytes c s \<and> obuf_ok c' \<and> same_input c s c' s' \<and> (ok = REDIS_OK \<longrightarrow> rc_err c' = 0 \<and> (done \<longleftrightarrow> sk_sent s' = out_bytes c s)) \<and>
    (rc_err c = 0 \<and> ok = REDIS_OK \<or> ok = REDIS_ERR \<and> rc_err c' \<noteq> 0)"
proof -
  obtain ob where ob: "rc_obuf c = Some ob" "sds_ok ob" using assms(2) by (auto simp: obuf_ok_def)
  then obtain t z where t: "ob = sds_of t z" "length t + length z < 2 ^ 31" by (auto elim: sds_ok_cases)
  have sl: "sdslen ob = length t" "content ob = t" using t by simp_all
  have done_case: ?thesis if "write_done c s1 = Inr (ok, done, c', s')" "sk_sent s1 = sk_sent s" "sk_reads s1 = sk_reads s" "rc_err c = 0" for s1
    using write_doneD [OF that(1)] that(2-) ob t by (auto simp: out_bytes_def unsent_def obuf_ok_def same_input_def)
  show ?thesis
  proof (cases "rc_err c = 0 \<and> t \<noteq> []")
    case False
    then show ?thesis using assms ob t done_case [of s] by (auto simp: redisBufferWrite_def same_input_def split: if_splits)
  next
    case True
    then obtain e es where w: "sk_writes s = e # es" using assms(1) ob t by (auto simp: redisBufferWrite_def sock_write_def split: list.splits)
    show ?thesis
    proof (cases e)
      case (WriteFails x)
      let ?s = "s\<lparr>sk_writes := es\<rparr>"
      have r: "(if try_later c x then write_done c ?s else Inr (REDIS_ERR, False, io_error st c x, ?s)) = Inr (ok, done, c', s')"
        using assms(1) ob t True w WriteFails by (simp add: redisBufferWrite_def sock_write_def)
      show ?thesis
      proof (cases "try_later c x")
        case True
        then show ?thesis using r done_case [of ?s] \<open>rc_err c = 0 \<and> t \<noteq> []\<close> by simp
      next
        case False
        then show ?thesis using r assms(2) by (auto simp: out_bytes_def unsent_def same_input_def obuf_ok_def)
      qed
    next
      case (Wrote k)
      let ?n = "min k (length t)" and ?s = "s\<lparr>sk_writes := es, sk_sent := sk_sent s @ take k t\<rparr>"
      have r: "(if ?n = 0 then write_done c ?s else if int ?n = int32 (int (sdslen ob)) then bind_c (sdsempty M) (\<lambda>e. write_done (c\<lparr>rc_obuf := e\<rparr>) ?s)
          else bind_c (sdsrange ob (int ?n) (-1)) (\<lambda>ob. write_done (c\<lparr>rc_obuf := Some ob\<rparr>) ?s)) = Inr (ok, done, c', s')"
        using assms(1) ob(1) sl True w Wrote by (simp add: redisBufferWrite_def sock_write_def cong: if_cong)
      have i: "int32 (int (sdslen ob)) = int (length t)" unfolding sl using t(2) by (intro int32_id) auto
      consider "k = 0" | "length t \<le> k" | "0 < k" "k < length t" by linarith
      then show ?thesis
      proof cases
        case 1
        then show ?thesis using r done_case [of ?s] True by simp
      next
        case 2
        then have "bind_c (sdsempty M) (\<lambda>e. write_done (c\<lparr>rc_obuf := e\<rparr>) ?s) = Inr (ok, done, c', s')" using r i True by (simp add: min_absorb2)
        then show ?thesis using 2 True ob t
          by (auto simp: sdsempty_of write_done_def out_bytes_def unsent_def obuf_ok_def same_input_def split: if_splits)
      next
        case 3
        then have "bind_c (sdsrange ob (int k) (-1)) (\<lambda>ob. write_done (c\<lparr>rc_obuf := Some ob\<rparr>) ?s) = Inr (ok, done, c', s')" using r i by (simp add: min_absorb1)
        moreover obtain z' where "sdsrange ob (int k) (-1) = Inr (sds_of (drop k t) z')" "length (drop k t) + length z' = length t + length z"
          using sdsrange_of [OF t(2), of "int k" "-1"] 3 t range_spec_drop [of k t] by auto
        ultimately show ?thesis using 3 True ob t
          by (auto simp: write_done_def out_bytes_def unsent_def obuf_ok_def same_input_def)
      qed
    qed
  qed
qed
text \<open>A socket that takes \<open>n\<close> bytes in the end, in pieces of any size and with interruptions.\<close>

fun accepts :: "write_result list \<Rightarrow> nat \<Rightarrow> bool" where
  "accepts ws 0 \<longleftrightarrow> True"
| "accepts [] (Suc n) \<longleftrightarrow> False"
| "accepts (Wrote k # ws) (Suc n) \<longleftrightarrow> accepts ws (Suc n - k)"
| "accepts (WriteFails e # ws) (Suc n) \<longleftrightarrow> e = EINTR \<and> accepts ws (Suc n)"

lemma redisBufferWrite_step:
  assumes "obuf_ok c" "rc_err c = 0" "unsent c \<noteq> []" "sk_writes s = e # es" "e = WriteFails EINTR \<or> e = Wrote k" "\<forall>n. mem_ok M n"
  shows "\<exists>fin c' s'. redisBufferWrite M st c s = Some (Inr (REDIS_OK, fin, c', s')) \<and> sk_writes s' = es \<and>
    sk_sent s' = sk_sent s @ (if e = Wrote k then take k (unsent c) else [])"
proof -
  obtain t z where ob: "rc_obuf c = Some (sds_of t z)" "length t + length z < 2 ^ 31"
    using assms(1) unfolding obuf_ok_def by (metis sds_ok_cases)
  have t: "unsent c = t" "t \<noteq> []" using ob assms(3) by (simp_all add: unsent_def)
  have r: "\<exists>z'. sdsrange (sds_of t z) (int k) (-1) = Inr (sds_of (drop k t) z')" if "k < length t"
    using sdsrange_of [OF ob(2), of "int k" "-1"] range_spec_drop [OF that] that ob(2) by auto
  have i: "int32 (int (length t)) = int (length t)" using ob(2) by (intro int32_id) auto
  show ?thesis
  proof (cases "e = Wrote k \<and> 0 < k \<and> k < length t")
    case True
    then obtain z' where "sdsrange (sds_of t z) (int k) (-1) = Inr (sds_of (drop k t) z')" using r by blast
    then show ?thesis using assms(2,4) ob t i True by (auto simp: redisBufferWrite_def sock_write_def write_done_def min_absorb1)
  next
    case False
    then show ?thesis using assms(2,4-6) ob t i
      by (auto simp: redisBufferWrite_def sock_write_def write_done_def try_later_def sdsempty_of min_def cong: if_cong)
  qed
qed

lemma write_until_done_ok:
  assumes "obuf_ok c" "rc_err c = 0" "accepts (sk_writes s) (length (unsent c))" "\<forall>n. mem_ok M n"
  shows "\<exists>c' s'. write_until_done M st c s = Some (Inr (REDIS_OK, c', s')) \<and> obuf_ok c' \<and> rc_err c' = 0 \<and> unsent c' = [] \<and>
    sk_sent s' = out_bytes c s \<and> same_input c s c' s'"
  using assms(1-3)
proof (induction "sk_writes s" arbitrary: c s)
  case Nil
  then have "unsent c = []" by (cases "unsent c") auto
  then have "redisBufferWrite M st c s = Some (Inr (REDIS_OK, True, c, s))"
    using Nil.prems(1,2) sdslen_0 by (auto simp: redisBufferWrite_def obuf_ok_def unsent_def write_done_def)
  then show ?case using Nil.prems \<open>unsent c = []\<close> by (subst write_until_done.simps) (simp add: out_bytes_def same_input_def)
next
  case (Cons e es)
  show ?case
  proof (cases "unsent c = []")
    case True
    then have "redisBufferWrite M st c s = Some (Inr (REDIS_OK, True, c, s))"
      using Cons.prems(1,2) sdslen_0 by (auto simp: redisBufferWrite_def obuf_ok_def unsent_def write_done_def)
    then show ?thesis using Cons.prems True by (subst write_until_done.simps) (simp add: out_bytes_def same_input_def)
  next
    case False
    then obtain n where n: "length (unsent c) = Suc n" by (cases "unsent c") auto
    obtain k where k: "e = WriteFails EINTR \<or> e = Wrote k" "accepts es (length (unsent c) - (if e = Wrote k then k else 0))"
      using Cons.prems(3) Cons.hyps(2) [symmetric] n by (cases e) auto
    obtain fin c1 s1 where w: "redisBufferWrite M st c s = Some (Inr (REDIS_OK, fin, c1, s1))" "sk_writes s1 = es"
        "sk_sent s1 = sk_sent s @ (if e = Wrote k then take k (unsent c) else [])"
      using redisBufferWrite_step [OF Cons.prems(1,2) False Cons.hyps(2) [symmetric] k(1) assms(4)] by blast
    from redisBufferWrite_moves [OF w(1) Cons.prems(1)] have m: "out_bytes c1 s1 = out_bytes c s" "obuf_ok c1" "same_input c s c1 s1" "rc_err c1 = 0"
      "fin \<longleftrightarrow> sk_sent s1 = out_bytes c s" by auto
    have u: "unsent c1 = (if e = Wrote k then drop k (unsent c) else unsent c)"
      using m(1) w(3) by (auto simp: out_bytes_def split: if_splits) (metis append_eq_append_conv append_take_drop_id)
    show ?thesis
    proof (cases fin)
      case True
      then have "unsent c1 = []" using m(1,5) by (simp add: out_bytes_def)
      then show ?thesis using w(1) m True by (subst write_until_done.simps) simp
    next
      case False
      have "accepts es (length (unsent c1))" using k(2) u by (auto split: if_splits)
      from Cons.hyps(1) [of s1 c1, OF w(2) [symmetric] m(2,4)] this w(2) obtain c' s' where
        "write_until_done M st c1 s1 = Some (Inr (REDIS_OK, c', s'))" "obuf_ok c'" "rc_err c' = 0" "unsent c' = []" "sk_sent s' = out_bytes c1 s1" "same_input c1 s1 c' s'"
        by auto
      then show ?thesis using w(1) m False by (subst write_until_done.simps) (simp add: same_input_def)
    qed
  qed
qed
section \<open>Reading\<close>

text \<open>A socket that delivers these bytes, in pieces of any size and with interruptions.\<close>

definition delivers :: "read_result list \<Rightarrow> bytes \<Rightarrow> bool" where
  "delivers es t \<longleftrightarrow> concat (map (case_read_result id (\<lambda>_. [])) es) = t \<and>
     list_all (\<lambda>e. case e of Read u \<Rightarrow> u \<noteq> [] | ReadFails x \<Rightarrow> x = EINTR) es"

definition rsize :: "sock \<Rightarrow> nat" where
  "rsize s = sum_list (map (case_read_result (\<lambda>u. length u + 1) (\<lambda>_. 1)) (sk_reads s))"

definition same_out :: "redisContext \<Rightarrow> sock \<Rightarrow> redisContext \<Rightarrow> sock \<Rightarrow> bool" where
  "same_out c s c' s' \<longleftrightarrow> rc_obuf c' = rc_obuf c \<and> rc_flags c' = rc_flags c \<and> sk_writes s' = sk_writes s \<and> sk_sent s' = sk_sent s"

lemma sock_read_delivers:
  assumes "delivers (sk_reads s) t" "t \<noteq> []"
  shows "\<exists>e s'. sock_read 16384 s = Some (e, s') \<and> rsize s' < rsize s \<and> sk_writes s' = sk_writes s \<and> sk_sent s' = sk_sent s \<and>
    (e = ReadFails EINTR \<and> delivers (sk_reads s') t \<or> (\<exists>u v. e = Read u \<and> u \<noteq> [] \<and> t = u @ v \<and> delivers (sk_reads s') v))"
proof -
  obtain e es where r: "sk_reads s = e # es" using assms by (cases "sk_reads s") (auto simp: delivers_def)
  show ?thesis
  proof (cases e)
    case (Read u)
    then have "u \<noteq> []" "t = u @ concat (map (case_read_result id (\<lambda>_. [])) es)" using assms(1) r by (auto simp: delivers_def)
    then show ?thesis using assms(1) r Read
      by (cases "length u \<le> 16384") (auto simp: sock_read_def delivers_def rsize_def append_assoc [symmetric] simp del: append_assoc)
  qed (use assms(1) r in \<open>auto simp: sock_read_def delivers_def rsize_def\<close>)
qed

definition conn_at :: "mem \<Rightarrow> rheap \<Rightarrow> frame list \<Rightarrow> int option \<Rightarrow> bytes \<Rightarrow> redisContext \<Rightarrow> rheap \<Rightarrow> bool" where
  "conn_at M h0 rs ty b c h \<longleftrightarrow> rc_err c = 0 \<and> at_rest (heap_addr h0) (heap_holds h0) (defaultFunctions M) rs ty b (rc_reader c) h"

text \<open>Between two replies the state of the reader does not depend on the heap.\<close>

lemma conn_at_rebase: "conn_at M h0 [] None b c h \<Longrightarrow> conn_at M h1 [] None b c h1"
  by (auto simp: conn_at_def at_rest_def reading_def reading_core_def heap_holds_def)

text \<open>The reader of the connection takes one step of the parser.\<close>

lemma reader_step:
  assumes "conn_at M h0 rs ty b c h" "\<forall>n. mem_ok M n"
  shows "(case parse rs ty b of
      Need rs' ty' b' \<Rightarrow> \<exists>c' h'. redisGetReplyFromReader c h = Inr (REDIS_OK, 0, c', h') \<and> conn_at M h0 rs' ty' b' c' h' \<and> same_out c s c' s
    | Got t b' \<Rightarrow> \<exists>c'. redisGetReplyFromReader c h = Inr (REDIS_OK, length h0 + 1, c', h0 @ map Some (layout (length h0 + 1) t)) \<and>
        conn_at M (h0 @ map Some (layout (length h0 + 1) t)) [] None b' c' (h0 @ map Some (layout (length h0 + 1) t)) \<and> same_out c s c' s
    | _ \<Rightarrow> True)"
proof -
  have a: "heap_addr h0 [(0, [])] = length h0 + 1" by (simp add: heap_addr_def)
  have R: "at_rest (heap_addr h0) (heap_holds h0) (defaultFunctions M) rs ty b (rc_reader c) h" and e: "rc_err c = 0"
    using assms(1) by (simp_all add: conn_at_def)
  note sim = dflt.redisReaderGetReply_sim [OF R [unfolded defaultFunctions_eq], folded defaultFunctions_eq, unfolded a]
  show ?thesis
  proof (cases "parse rs ty b")
    case (Need rs' ty' b')
    then show ?thesis using sim assms(2) e by (auto simp: redisGetReplyFromReader_def conn_at_def same_out_def Let_def)
  next
    case (Got t b')
    then show ?thesis using sim assms(2) e by (auto simp: redisGetReplyFromReader_def conn_at_def same_out_def Let_def heap_holds_def)
  qed auto
qed

lemma feed_step:
  assumes "conn_at M h0 rs ty b c h" "1024 + length b + length u < sds_cap" "\<forall>n. mem_ok M n"
  shows "\<exists>r. redisReaderFeed M (rc_reader c) (Some u) h = Inr (REDIS_OK, r, h) \<and> conn_at M h0 rs ty (b @ u) (c\<lparr>rc_reader := r\<rparr>) h"
proof -
  have R: "at_rest (heap_addr h0) (heap_holds h0) (defaultFunctions M) rs ty b (rc_reader c) h" and e: "rc_err c = 0"
    using assms(1) by (simp_all add: conn_at_def)
  show ?thesis
    using dflt.redisReaderFeed_sim [OF R [unfolded defaultFunctions_eq] assms(2), folded defaultFunctions_eq, of M] assms(3) e
    by (auto simp: conn_at_def)
qed
lemma same_out_trans: "same_out c s c1 s1 \<Longrightarrow> same_out c1 s1 c2 s2 \<Longrightarrow> same_out c s c2 s2"
  by (simp add: same_out_def)

text \<open>The state after a reply \<open>r\<close>: its cells are on the heap, the replies \<open>ts\<close> are still to come.\<close>

definition coming :: "mem \<Rightarrow> rheap \<Rightarrow> redisContext \<Rightarrow> sock \<Rightarrow> reply list \<Rightarrow> bool" where
  "coming M h c s ts \<longleftrightarrow> (\<exists>b t. conn_at M h [] None b c h \<and> expects [] None (b @ t) ts \<and> delivers (sk_reads s) t \<and>
     1024 + length b + length t < sds_cap)"

lemma read_until_reply_ok:
  assumes "conn_at M h0 rs ty b c h" "expects rs ty (b @ t) (r # ts)" "parse rs ty b = Need rs ty b" "delivers (sk_reads s) t"
    "1024 + length b + length t < sds_cap" "\<forall>n. mem_ok M n"
  shows "\<exists>c' s'. read_until_reply M st c s h = Some (Inr (REDIS_OK, length h0 + 1, c', s', h0 @ map Some (layout (length h0 + 1) r))) \<and>
    coming M (h0 @ map Some (layout (length h0 + 1) r)) c' s' ts \<and> same_out c s c' s'"
  using assms(1-5)
proof (induction "rsize s" arbitrary: rs ty b c h s t rule: less_induct)
  case less
  let ?h = "h0 @ map Some (layout (length h0 + 1) r)"
  have t: "t \<noteq> []" using less.prems(2,3) by (auto simp: expects_def)
  have err: "rc_err c = 0" using less.prems(1) by (simp add: conn_at_def)
  have again: "\<exists>c' s'. read_until_reply M st c2 s1 h2 = Some (Inr (REDIS_OK, length h0 + 1, c', s', ?h)) \<and> coming M ?h c' s' ts \<and> same_out c2 s1 c' s'"
    if "rsize s1 < rsize s" "conn_at M h0 rs2 ty2 b2 c2 h2" "parse rs1 ty1 b1 = Need rs2 ty2 b2" "expects rs1 ty1 (b1 @ t2) (r # ts)"
      "delivers (sk_reads s1) t2" "1024 + length b1 + length t2 < sds_cap" for s1 rs1 ty1 b1 rs2 ty2 b2 c2 h2 t2
    using less.hyps [of s1 rs2 ty2 b2 c2 h2 t2] that expects_Need [OF that(4,3)] parse_Need_again [OF that(3)] parse_Need_shorter [OF that(3)] by auto
  obtain e s1 where s1: "sock_read 16384 s = Some (e, s1)" "rsize s1 < rsize s" "sk_writes s1 = sk_writes s" "sk_sent s1 = sk_sent s"
      "e = ReadFails EINTR \<and> delivers (sk_reads s1) t \<or> (\<exists>u v. e = Read u \<and> u \<noteq> [] \<and> t = u @ v \<and> delivers (sk_reads s1) v)"
    using sock_read_delivers [OF less.prems(4) t] by blast
  show ?case
  proof (cases "e = ReadFails EINTR")
    case True
    then have d: "delivers (sk_reads s1) t" using s1(5) by auto
    have rd: "redisBufferRead M st c s h = Some (Inr (REDIS_OK, c, s1, h))" using s1(1) True err by (simp add: redisBufferRead_def try_later_def)
    obtain c2 h2 where g: "redisGetReplyFromReader c h = Inr (REDIS_OK, 0, c2, h2)" "conn_at M h0 rs ty b c2 h2" "same_out c s c2 s"
      using reader_step [OF less.prems(1) assms(6), of s] less.prems(3) by auto
    from again [OF s1(2) g(2) less.prems(3,2) d less.prems(5)] obtain c' s' where
      "read_until_reply M st c2 s1 h2 = Some (Inr (REDIS_OK, length h0 + 1, c', s', ?h))" "coming M ?h c' s' ts" "same_out c2 s1 c' s'" by blast
    then show ?thesis using rd g s1(3,4) by (subst read_until_reply.simps) (simp add: same_out_def)
  next
    case False
    then obtain u v where u: "e = Read u" "u \<noteq> []" "t = u @ v" "delivers (sk_reads s1) v" using s1(5) by auto
    have "1024 + length b + length u < sds_cap" using less.prems(5) u(3) by simp
    from feed_step [OF less.prems(1) this assms(6)] obtain rd where
      f: "redisReaderFeed M (rc_reader c) (Some u) h = Inr (REDIS_OK, rd, h)" "conn_at M h0 rs ty (b @ u) (c\<lparr>rc_reader := rd\<rparr>) h" by blast
    let ?c = "c\<lparr>rc_reader := rd\<rparr>"
    have br: "redisBufferRead M st c s h = Some (Inr (REDIS_OK, ?c, s1, h))" using s1(1) u(1,2) f(1) err by (simp add: redisBufferRead_def)
    have e: "expects rs ty ((b @ u) @ v) (r # ts)" using less.prems(2) u(3) by simp
    have so: "same_out c s ?c s1" using s1(3,4) by (simp add: same_out_def)
    show ?thesis
    proof (cases "parse rs ty (b @ u)")
      case (Need rs2 ty2 b2)
      then obtain c2 h2 where g: "redisGetReplyFromReader ?c h = Inr (REDIS_OK, 0, c2, h2)" "conn_at M h0 rs2 ty2 b2 c2 h2" "same_out ?c s1 c2 s1"
        using reader_step [OF f(2) assms(6), of s1] by auto
      have "1024 + length (b @ u) + length v < sds_cap" using less.prems(5) u(3) by simp
      from again [OF s1(2) g(2) Need e u(4) this] obtain c' s' where
        "read_until_reply M st c2 s1 h2 = Some (Inr (REDIS_OK, length h0 + 1, c', s', ?h))" "coming M ?h c' s' ts" "same_out c2 s1 c' s'" by blast
      then show ?thesis using br g(1) same_out_trans [OF so same_out_trans [OF g(3)]] by (subst read_until_reply.simps) simp
    next
      case (Got r2 b2)
      then have r2: "r2 = r" "expects [] None (b2 @ v) ts" using expects_Got [OF e Got] by auto
      obtain c2 where g: "redisGetReplyFromReader ?c h = Inr (REDIS_OK, length h0 + 1, c2, ?h)" "conn_at M ?h [] None b2 c2 ?h" "same_out ?c s1 c2 s1"
        using reader_step [OF f(2) assms(6), of s1] Got r2(1) by auto
      have "1024 + length b2 + length v < sds_cap" using parse_Got_shorter [OF Got] less.prems(5) u(3) by simp
      then have "coming M ?h c2 s1 ts" using g(2) r2(2) u(4) by (auto simp: coming_def)
      then show ?thesis using br g(1) same_out_trans [OF so g(3)] by (subst read_until_reply.simps) simp
    qed (use expects_not_bad [OF e] in auto)
  qed
qed
section \<open>A pipeline\<close>

text \<open>A blocking connection in use: the socket takes the output and will deliver the replies \<open>ts\<close>.\<close>

definition serving :: "mem \<Rightarrow> rheap \<Rightarrow> redisContext \<Rightarrow> sock \<Rightarrow> reply list \<Rightarrow> bool" where
  "serving M h c s ts \<longleftrightarrow> coming M h c s ts \<and> obuf_ok c \<and> REDIS_BLOCK \<in> rc_flags c \<and> accepts (sk_writes s) (length (unsent c))"

lemma serving_same_out:
  "same_out c s c' s' \<Longrightarrow> obuf_ok c' = obuf_ok c \<and> unsent c' = unsent c \<and> rc_flags c' = rc_flags c \<and> sk_writes s' = sk_writes s \<and> out_bytes c' s' = out_bytes c s"
  by (simp add: same_out_def obuf_ok_def unsent_def out_bytes_def)

lemma redisGetReply_ok:
  assumes "serving M h c s (r # ts)" "\<forall>n. mem_ok M n"
  shows "\<exists>c' s'. redisGetReply M st c s h = Some (Inr (REDIS_OK, length h + 1, c', s', h @ map Some (layout (length h + 1) r))) \<and>
    serving M (h @ map Some (layout (length h + 1) r)) c' s' ts \<and> out_bytes c' s' = out_bytes c s \<and>
    (r_len (rc_reader c) = 0 \<or> unsent c = [] \<longrightarrow> unsent c' = [])"
proof -
  let ?h = "h @ map Some (layout (length h + 1) r)"
  obtain b t where c: "conn_at M h [] None b c h" "expects [] None (b @ t) (r # ts)" "delivers (sk_reads s) t" "1024 + length b + length t < sds_cap"
    using assms(1) by (auto simp: serving_def coming_def)
  have sv: "obuf_ok c" "REDIS_BLOCK \<in> rc_flags c" "accepts (sk_writes s) (length (unsent c))" "rc_err c = 0"
    using assms(1) c(1) by (simp_all add: serving_def conn_at_def)
  show ?thesis
  proof (cases "parse [] None b")
    case (Need rs' ty' b')
    then obtain c1 h1 where g: "redisGetReplyFromReader c h = Inr (REDIS_OK, 0, c1, h1)" "conn_at M h rs' ty' b' c1 h1" "same_out c s c1 s"
      using reader_step [OF c(1) assms(2), of s] by auto
    note so = serving_same_out [OF g(3)]
    have "rc_err c1 = 0" using g(2) by (simp add: conn_at_def)
    from write_until_done_ok [of c1 s M st, OF _ this _ assms(2)] obtain c2 s2 where
      w: "write_until_done M st c1 s = Some (Inr (REDIS_OK, c2, s2))" "obuf_ok c2" "rc_err c2 = 0" "unsent c2 = []" "sk_sent s2 = out_bytes c1 s" "same_input c1 s c2 s2"
      using so sv by auto
    have c2: "conn_at M h rs' ty' b' c2 h1" "delivers (sk_reads s2) t" "1024 + length b' + length t < sds_cap"
      using g(2) w(3,6) c(3,4) parse_Need_shorter [OF Need] by (auto simp: conn_at_def same_input_def)
    from read_until_reply_ok [OF c2(1) expects_Need [OF c(2) Need] parse_Need_again [OF Need] c2(2,3) assms(2)] obtain c3 s3 where
      r: "read_until_reply M st c2 s2 h1 = Some (Inr (REDIS_OK, length h + 1, c3, s3, ?h))" "coming M ?h c3 s3 ts" "same_out c2 s2 c3 s3" by blast
    note so3 = serving_same_out [OF r(3)]
    have "REDIS_BLOCK \<in> rc_flags c3" "unsent c3 = []" "obuf_ok c3" "out_bytes c3 s3 = out_bytes c s"
      using so so3 sv w by (auto simp: same_input_def out_bytes_def)
    then have "serving M ?h c3 s3 ts" using r(2) by (simp add: serving_def)
    moreover have "redisGetReply M st c s h = Some (Inr (REDIS_OK, length h + 1, c3, s3, ?h))"
      using g(1) w(1) r(1) so sv(2) by (simp add: redisGetReply_def)
    ultimately show ?thesis using \<open>unsent c3 = []\<close> \<open>out_bytes c3 s3 = out_bytes c s\<close> by blast
  next
    case (Got r2 b2)
    then have r2: "r2 = r" "expects [] None (b2 @ t) ts" using expects_Got [OF c(2) Got] by auto
    obtain c2 where g: "redisGetReplyFromReader c h = Inr (REDIS_OK, length h + 1, c2, ?h)" "conn_at M ?h [] None b2 c2 ?h" "same_out c s c2 s"
      using reader_step [OF c(1) assms(2), of s] Got r2(1) by auto
    note so = serving_same_out [OF g(3)]
    have "1024 + length b2 + length t < sds_cap" using parse_Got_shorter [OF Got] c(4) by simp
    then have "coming M ?h c2 s ts" using g(2) r2(2) c(3) by (auto simp: coming_def)
    then have "serving M ?h c2 s ts" using so sv by (simp add: serving_def)
    moreover have "redisGetReply M st c s h = Some (Inr (REDIS_OK, length h + 1, c2, s, ?h))" using g(1) by (simp add: redisGetReply_def)
    moreover have "r_len (rc_reader c) \<noteq> 0"
    proof
      assume "r_len (rc_reader c) = 0"
      then have "b = []" using c(1) by (auto simp: conn_at_def at_rest_def reading_def reading_core_def buffer_at_def)
      then show False using Got by simp
    qed
    ultimately show ?thesis using so by (intro exI [of _ c2] exI [of _ s]) simp
  qed (use expects_not_bad [OF c(2)] in auto)
qed

fun get_replies :: "nat \<Rightarrow> mem \<Rightarrow> (errno \<Rightarrow> bytes) \<Rightarrow> redisContext \<Rightarrow> sock \<Rightarrow> rheap \<Rightarrow> (ptr list \<times> redisContext \<times> sock \<times> rheap) c_res option" where
  "get_replies 0 M st c s h = Some (Inr ([], c, s, h))"
| "get_replies (Suc n) M st c s h =
     (case redisGetReply M st c s h of
        Some (Inr (ok, p, c, s, h)) \<Rightarrow>
          if ok \<noteq> REDIS_OK then Some (Inr ([], c, s, h))
          else (case get_replies n M st c s h of Some (Inr (ps, c, s, h)) \<Rightarrow> Some (Inr (p # ps, c, s, h)) | x \<Rightarrow> x)
      | None \<Rightarrow> None
      | Some (Inl e) \<Rightarrow> Some (Inl e))"

lemma get_replies_ok:
  assumes "serving M h c s ts" "\<forall>n. mem_ok M n" "list_all (\<lambda>t. t \<noteq> Absent) ts"
  shows "\<exists>c' s'. get_replies (length ts) M st c s h = Some (Inr (roots (length h + 1) ts, c', s', h @ map Some (layouts (length h + 1) ts))) \<and>
    serving M (h @ map Some (layouts (length h + 1) ts)) c' s' [] \<and> out_bytes c' s' = out_bytes c s \<and>
    (ts \<noteq> [] \<and> r_len (rc_reader c) = 0 \<or> unsent c = [] \<longrightarrow> unsent c' = [])"
  using assms(1,3)
proof (induction ts arbitrary: c s h)
  case (Cons t ts)
  let ?h = "h @ map Some (layout (length h + 1) t)"
  obtain c1 s1 where 1: "redisGetReply M st c s h = Some (Inr (REDIS_OK, length h + 1, c1, s1, ?h))" "serving M ?h c1 s1 ts" "out_bytes c1 s1 = out_bytes c s"
      "r_len (rc_reader c) = 0 \<or> unsent c = [] \<longrightarrow> unsent c1 = []"
    using redisGetReply_ok [OF Cons.prems(1) assms(2)] by blast
  obtain c2 s2 where 2: "get_replies (length ts) M st c1 s1 ?h = Some (Inr (roots (length ?h + 1) ts, c2, s2, ?h @ map Some (layouts (length ?h + 1) ts)))"
      "serving M (?h @ map Some (layouts (length ?h + 1) ts)) c2 s2 []" "out_bytes c2 s2 = out_bytes c1 s1" "unsent c1 = [] \<longrightarrow> unsent c2 = []"
    using Cons.IH [OF 1(2)] Cons.prems(2) by auto
  then show ?case using 1 Cons.prems(2) by (intro exI [of _ c2] exI [of _ s2]) (auto simp: root_def add.commute)
qed simp
fun append_all :: "mem \<Rightarrow> redisContext \<Rightarrow> bytes list list \<Rightarrow> (int \<times> redisContext) c_res" where
  "append_all M c [] = Inr (REDIS_OK, c)"
| "append_all M c (args # cmds) =
     bind_c (redisAppendCommandArgv M c (int (length args)) args (Some (map length args))) (\<lambda>(ok, c).
       if ok \<noteq> REDIS_OK then Inr (ok, c) else append_all M c cmds)"

lemma argv_texts_lengths: "argv_texts args (Some (map length args)) = Inr args"
  by (induction args) auto

lemma redisAppendCommand_raw_ok:
  assumes "obuf_ok c" "length (unsent c) + length cmd < sds_cap" "\<forall>n. mem_ok M n"
  shows "\<exists>ob. redisAppendCommand_raw M c cmd = Inr (REDIS_OK, c\<lparr>rc_obuf := Some ob\<rparr>) \<and> sds_ok ob \<and> content ob = unsent c @ cmd"
proof -
  obtain ob where ob: "rc_obuf c = Some ob" "sds_ok ob" using assms(1) by (auto simp: obuf_ok_def)
  then show ?thesis using sdsbuf.cat_law [of ob cmd M] assms(2,3) by (auto simp: redisAppendCommand_raw_def unsent_def)
qed

lemma redisAppendCommandArgv_ok:
  assumes "obuf_ok c" "length (unsent c) + length (resp_cmd args) + 1 < sds_cap" "\<forall>n. mem_ok M n"
  shows "\<exists>ob. redisAppendCommandArgv M c (int (length args)) args (Some (map length args)) = Inr (REDIS_OK, c\<lparr>rc_obuf := Some ob\<rparr>) \<and>
    sds_ok ob \<and> content ob = unsent c @ resp_cmd args"
proof -
  obtain s where s: "redisFormatSdsCommandArgv M True (int (length args)) args (Some (map length args)) = Inr (int (length (resp_cmd args)), Some s)"
      "sds_ok s" "content s = resp_cmd args"
    using redisFormatSdsCommandArgv_resp [OF argv_texts_lengths, of args M] assms(2,3) by auto
  then have "take (length (resp_cmd args)) (sh_buf s) = resp_cmd args" by (auto elim!: sds_ok_cases)
  then show ?thesis using redisAppendCommand_raw_ok [of c "resp_cmd args" M] assms s(1) by (auto simp: redisAppendCommandArgv_def)
qed

lemma append_all_ok:
  assumes "obuf_ok c" "length (unsent c) + length (concat (map resp_cmd cmds)) + 1 < sds_cap" "\<forall>n. mem_ok M n"
  shows "\<exists>ob. append_all M c cmds = Inr (REDIS_OK, c\<lparr>rc_obuf := Some ob\<rparr>) \<and> sds_ok ob \<and> content ob = unsent c @ concat (map resp_cmd cmds)"
  using assms(1,2)
proof (induction cmds arbitrary: c)
  case Nil
  then obtain ob where "rc_obuf c = Some ob" "sds_ok ob" by (auto simp: obuf_ok_def)
  then show ?case by (intro exI [of _ ob]) (simp add: unsent_def)
next
  case (Cons args cmds)
  obtain ob where ob: "redisAppendCommandArgv M c (int (length args)) args (Some (map length args)) = Inr (REDIS_OK, c\<lparr>rc_obuf := Some ob\<rparr>)"
      "sds_ok ob" "content ob = unsent c @ resp_cmd args"
    using redisAppendCommandArgv_ok [OF Cons.prems(1) _ assms(3), of args] Cons.prems(2) by auto
  then show ?case using Cons.IH [of "c\<lparr>rc_obuf := Some ob\<rparr>"] Cons.prems(2) by (auto simp: obuf_ok_def unsent_def)
qed

lemma redisConnectFd_ok:
  assumes "redisConnectFd M fd = Inr (Some c)"
  shows "conn_at M h [] None [] c h" "obuf_ok c" "unsent c = []" "REDIS_BLOCK \<in> rc_flags c" "r_len (rc_reader c) = 0"
proof -
  obtain r where r: "redisReaderCreate M = Inr (Some r)" "c = \<lparr>rc_err = 0, rc_errstr = [], rc_fd = fd, rc_flags = {REDIS_BLOCK, REDIS_CONNECTED},
      rc_obuf = Some (sds_of [] []), rc_reader = r\<rparr>"
    using assms by (auto simp: redisConnectFd_def redisContextInit_def sdsempty_of bind_c_Inr_iff split: if_splits option.splits)
  then have "at_rest ad (heap_holds h) (defaultFunctions M) [] None [] r h" for ad
    unfolding redisReaderCreate_def by (intro created_at_rest) simp
  then show "conn_at M h [] None [] c h" "obuf_ok c" "unsent c = []" "REDIS_BLOCK \<in> rc_flags c"
    using r(2) by (simp_all add: conn_at_def obuf_ok_def unsent_def)
  show "r_len (rc_reader c) = 0"
    using r by (auto simp: redisReaderCreate_def redisReaderCreateWithFunctions_def sdsempty_of split: if_splits)
qed

section \<open>Properties\<close>

text \<open>
  C4: pipelining over a blocking connection. Any number of commands is appended to a fresh connection, and then as many
  replies are fetched as the server sends. Whatever pieces the socket takes and delivers and however often calls are
  interrupted, the server gets exactly the protocol texts of the commands, in order and all of them before the first
  reply is awaited, and the calls of \<^verbatim>\<open>redisGetReply\<close> end and return the replies of the server in their order.
\<close>

theorem pipeline_in_order:
  assumes "redisConnectFd M fd = Inr (Some c)" "\<forall>n. mem_ok M n" "list_all (reply_ok 0) ts" "ts \<noteq> []"
    "delivers (sk_reads s) (concat (map enc ts))" "accepts (sk_writes s) (length (concat (map resp_cmd cmds)))"
    "length (concat (map resp_cmd cmds)) + 1 < sds_cap" "1024 + length (concat (map enc ts)) < sds_cap"
  shows "\<exists>c1 c' s'. append_all M c cmds = Inr (REDIS_OK, c1) \<and>
    get_replies (length ts) M st c1 s h = Some (Inr (roots (length h + 1) ts, c', s', h @ map Some (layouts (length h + 1) ts))) \<and>
    sk_sent s' = sk_sent s @ concat (map resp_cmd cmds) \<and> rc_err c' = 0"
proof -
  note c = redisConnectFd_ok [OF assms(1)]
  obtain ob where a: "append_all M c cmds = Inr (REDIS_OK, c\<lparr>rc_obuf := Some ob\<rparr>)" "sds_ok ob" "content ob = concat (map resp_cmd cmds)"
    using append_all_ok [OF c(2), of cmds M] c(3) assms(2,7) by auto
  let ?c = "c\<lparr>rc_obuf := Some ob\<rparr>"
  have "conn_at M h [] None [] ?c h" using c(1) by (simp add: conn_at_def)
  then have "coming M h ?c s ts"
    unfolding coming_def using expects_start [OF assms(3)] assms(5,8) by (intro exI [of _ "[]"] exI [of _ "concat (map enc ts)"]) simp
  then have "serving M h ?c s ts" using assms(6) a(2,3) c(4) by (simp add: serving_def obuf_ok_def unsent_def)
  moreover have "list_all (\<lambda>t. t \<noteq> Absent) ts" using assms(3) reply_ok_not_Absent by (auto simp: list_all_iff)
  ultimately obtain c' s' where "get_replies (length ts) M st ?c s h = Some (Inr (roots (length h + 1) ts, c', s', h @ map Some (layouts (length h + 1) ts)))"
      "serving M (h @ map Some (layouts (length h + 1) ts)) c' s' []" "out_bytes c' s' = out_bytes ?c s" "unsent c' = []"
    using get_replies_ok [of M h ?c s ts st] assms(2,4) c(5) by auto
  then show ?thesis using a by (auto simp: out_bytes_def unsent_def serving_def coming_def conn_at_def)
qed

theorem pipeline_in_order_witness:
  "\<exists>c c1 c' s'. redisConnectFd granting 3 = Inr (Some c) \<and> append_all granting c [[''PING''], [''GET'', ''k'']] = Inr (REDIS_OK, c1) \<and>
    get_replies 2 granting (\<lambda>e. []) c1
      \<lparr>sk_reads = [Read ''+PO'', ReadFails EINTR, Read (''NG'' @ CRLF @ ''$-''), Read (''1'' @ CRLF)], sk_writes = [Wrote 5, WriteFails EINTR, Wrote 99],
       sk_sent = []\<rparr> [] = Some (Inr ([1, 2], c', s', map Some (layouts 1 [RStatus ''PONG'', RNil]))) \<and>
    sk_sent s' = resp_cmd [''PING''] @ resp_cmd [''GET'', ''k'']"
proof -
  let ?s = "\<lparr>sk_reads = [Read ''+PO'', ReadFails EINTR, Read (''NG'' @ CRLF @ ''$-''), Read (''1'' @ CRLF)], sk_writes = [Wrote 5, WriteFails EINTR, Wrote 99], sk_sent = []\<rparr>"
  let ?ts = "[RStatus ''PONG'', RNil]" and ?cmds = "[[''PING''], [''GET'', ''k'']]"
  obtain c where c: "redisConnectFd granting 3 = Inr (Some c)"
    by (auto simp: redisConnectFd_def redisContextInit_def redisReaderCreate_def redisReaderCreateWithFunctions_def sdsempty_of)
  have "length (concat (map resp_cmd ?cmds)) = 34" by (simp add: length_resp_cmd length_bulk dec_small)
  moreover have "accepts (sk_writes ?s) 34" by (simp add: eval_nat_numeral)
  moreover have "delivers (sk_reads ?s) (concat (map enc ?ts))" by (simp add: delivers_def)
  ultimately obtain c1 c' s' where r: "append_all granting c ?cmds = Inr (REDIS_OK, c1)"
      "get_replies (length ?ts) granting (\<lambda>e. []) c1 ?s [] = Some (Inr (roots (length [] + 1) ?ts, c', s', [] @ map Some (layouts (length [] + 1) ?ts)))"
      "sk_sent s' = sk_sent ?s @ concat (map resp_cmd ?cmds)"
    using pipeline_in_order [OF c, of ?ts ?s ?cmds "\<lambda>e. []" "[]"] by (auto simp del: append_all.simps get_replies.simps layouts.simps roots.simps)
  have n: "length ?ts = 2" "roots (length [] + 1) ?ts = [1, 2]" "[] @ map Some (layouts (length [] + 1) ?ts) = map Some (layouts 1 ?ts)"
    "sk_sent ?s @ concat (map resp_cmd ?cmds) = resp_cmd [''PING''] @ resp_cmd [''GET'', ''k'']" by (simp_all add: root_def)
  show ?thesis using c r(1) r(2,3) [unfolded n] by blast
qed
end
