(* ===== verification/Net.thy ===== *)
theory Net
  imports Connection
begin

text \<open>
  Opening connections: \<^verbatim>\<open>src/net.c\<close> and the functions of \<^verbatim>\<open>src/hiredis.c\<close> that connect, reconnect and release a
  context. The operating system is a parameter: whether a call succeeds or which error it has may depend on how many
  calls were made before. What the code is responsible for is in the state: the descriptors that are open, which of
  them do not block, and \<^verbatim>\<open>errno\<close>. A new descriptor is the lowest number that is not in use.
\<close>

section \<open>The system\<close>

datatype family = AF_INET | AF_INET6 | AF_LOCAL

type_synonym timeval = "int \<times> int"

type_synonym addrinfo = "family \<times> bytes"

datatype sock_opt = SO_REUSEADDR int | SO_KEEPALIVE int | TCP_KEEPIDLE int | TCP_KEEPINTVL int | TCP_KEEPCNT int | TCP_NODELAY int
  | SO_RCVTIMEO timeval | SO_SNDTIMEO timeval

datatype sys_call = Socket family | GetFl int | SetFl int bool | SetSockOpt int sock_opt | Bind int bytes | Connect int bytes

datatype poll_result = PollFails errno | PollTimeout | PollReady

text \<open>What \<^verbatim>\<open>getsockopt(SO_ERROR)\<close> says about the socket.\<close>

datatype so_error = SoOk | SoError errno | SoFails errno

record kernel =
  k_call :: "nat \<Rightarrow> sys_call \<Rightarrow> errno option"
  k_addrs :: "nat \<Rightarrow> bytes option \<Rightarrow> bytes option \<Rightarrow> family \<Rightarrow> (int, addrinfo list) sum"
  k_poll :: "nat \<Rightarrow> int \<Rightarrow> int \<Rightarrow> poll_result"
  k_so_error :: "nat \<Rightarrow> int \<Rightarrow> so_error"
  k_strerror :: "errno \<Rightarrow> bytes"
  k_gai_strerror :: "int \<Rightarrow> bytes"

record sys =
  sy_calls :: nat
  sy_errno :: errno
  sy_open :: "int list"
  sy_nonblock :: "int \<Rightarrow> bool"

abbreviation (input) EINPROGRESS :: errno where "EINPROGRESS \<equiv> Errno 115"
abbreviation (input) EHOSTUNREACH :: errno where "EHOSTUNREACH \<equiv> Errno 113"
abbreviation (input) EADDRNOTAVAIL :: errno where "EADDRNOTAVAIL \<equiv> Errno 99"
abbreviation (input) ETIMEDOUT :: errno where "ETIMEDOUT \<equiv> Errno 110"

definition tick :: "sys \<Rightarrow> sys" where
  "tick s = s\<lparr>sy_calls := Suc (sy_calls s)\<rparr>"

definition sys_call :: "kernel \<Rightarrow> sys_call \<Rightarrow> sys \<Rightarrow> bool \<times> sys" where
  "sys_call K q s = (case k_call K (sy_calls s) q of None \<Rightarrow> (True, tick s) | Some e \<Rightarrow> (False, (tick s)\<lparr>sy_errno := e\<rparr>))"

definition new_fd :: "int list \<Rightarrow> int" where
  "new_fd fds = int (hd (filter (\<lambda>n. int n \<notin> set fds) [0..<Suc (length fds)]))"

definition sys_socket :: "kernel \<Rightarrow> family \<Rightarrow> sys \<Rightarrow> int option \<times> sys" where
  "sys_socket K fam s =
     (case sys_call K (Socket fam) s of
        (False, s) \<Rightarrow> (None, s)
      | (True, s) \<Rightarrow> (let fd = new_fd (sy_open s) in (Some fd, s\<lparr>sy_open := fd # sy_open s, sy_nonblock := (sy_nonblock s)(fd := False)\<rparr>)))"

definition sys_close :: "int \<Rightarrow> sys \<Rightarrow> sys" where
  "sys_close fd s = s\<lparr>sy_open := removeAll fd (sy_open s)\<rparr>"

definition getaddrinfo :: "kernel \<Rightarrow> bytes option \<Rightarrow> bytes option \<Rightarrow> family \<Rightarrow> sys \<Rightarrow> (int, addrinfo list) sum \<times> sys" where
  "getaddrinfo K host port fam s = (k_addrs K (sy_calls s) host port fam, tick s)"

section \<open>The context\<close>

text \<open>The fields of the context that say how it was connected, beside those of a connection in use.\<close>

datatype connection_type = REDIS_CONN_TCP | REDIS_CONN_UNIX

record net_context =
  nc_c :: redisContext
  nc_has_reader :: bool
  nc_type :: connection_type
  nc_timeout :: "timeval option"
  nc_host :: "bytes option"
  nc_source_addr :: "bytes option"
  nc_port :: int
  nc_path :: "bytes option"

abbreviation nc_fd :: "net_context \<Rightarrow> int" where "nc_fd n \<equiv> rc_fd (nc_c n)"
abbreviation nc_err :: "net_context \<Rightarrow> int" where "nc_err n \<equiv> rc_err (nc_c n)"
abbreviation nc_flags :: "net_context \<Rightarrow> redis_flag set" where "nc_flags n \<equiv> rc_flags (nc_c n)"

definition set_fd :: "int \<Rightarrow> net_context \<Rightarrow> net_context" where
  "set_fd fd n = n\<lparr>nc_c := (nc_c n)\<lparr>rc_fd := fd\<rparr>\<rparr>"

definition nc_error :: "int \<Rightarrow> bytes \<Rightarrow> net_context \<Rightarrow> net_context" where
  "nc_error ty str n = n\<lparr>nc_c := redisSetError (nc_c n) ty str\<rparr>"

definition raise_flag :: "redis_flag \<Rightarrow> net_context \<Rightarrow> net_context" where
  "raise_flag f n = n\<lparr>nc_c := (nc_c n)\<lparr>rc_flags := insert f (nc_flags n)\<rparr>\<rparr>"

text \<open>A string argument that is the field of the context already, or another one.\<close>

datatype 'a param = Own | Given 'a

definition strdup :: "mem \<Rightarrow> bytes \<Rightarrow> bytes option" where
  "strdup M t = (if mem_ok M (length (cstr t) + 1) then Some (cstr t) else None)"

section \<open>Settings of a socket\<close>

definition redisContextCloseFd :: "net_context \<Rightarrow> sys \<Rightarrow> net_context \<times> sys" where
  "redisContextCloseFd n s = (if nc_fd n \<ge> 0 then (set_fd (-1) n, sys_close (nc_fd n) s) else (n, s))"

definition redisSetErrorFromErrno :: "kernel \<Rightarrow> int \<Rightarrow> bytes option \<Rightarrow> net_context \<Rightarrow> sys \<Rightarrow> net_context" where
  "redisSetErrorFromErrno K ty prefix n s =
     nc_error ty ((case prefix of None \<Rightarrow> [] | Some t \<Rightarrow> t @ '': '') @ k_strerror K (sy_errno s)) n"

text \<open>An error from \<^verbatim>\<open>errno\<close>, after which the descriptor is closed.\<close>

definition fail_closing :: "kernel \<Rightarrow> bytes option \<Rightarrow> net_context \<Rightarrow> sys \<Rightarrow> int \<times> net_context \<times> sys" where
  "fail_closing K prefix n s = (REDIS_ERR, redisContextCloseFd (redisSetErrorFromErrno K REDIS_ERR_IO prefix n s) s)"

definition redisSetReuseAddr :: "kernel \<Rightarrow> net_context \<Rightarrow> sys \<Rightarrow> int \<times> net_context \<times> sys" where
  "redisSetReuseAddr K n s =
     (case sys_call K (SetSockOpt (nc_fd n) (SO_REUSEADDR 1)) s of
        (False, s) \<Rightarrow> fail_closing K None n s
      | (True, s) \<Rightarrow> (REDIS_OK, n, s))"

definition redisCreateSocket :: "kernel \<Rightarrow> family \<Rightarrow> net_context \<Rightarrow> sys \<Rightarrow> int \<times> net_context \<times> sys" where
  "redisCreateSocket K fam n s =
     (case sys_socket K fam s of
        (None, s) \<Rightarrow> (REDIS_ERR, redisSetErrorFromErrno K REDIS_ERR_IO None n s, s)
      | (Some fd, s) \<Rightarrow>
          (let n = set_fd fd n in if fam = AF_INET then redisSetReuseAddr K n s else (REDIS_OK, n, s)))"

definition redisSetBlocking :: "kernel \<Rightarrow> bool \<Rightarrow> net_context \<Rightarrow> sys \<Rightarrow> int \<times> net_context \<times> sys" where
  "redisSetBlocking K blocking n s =
     (case sys_call K (GetFl (nc_fd n)) s of
        (False, s) \<Rightarrow> fail_closing K (Some ''fcntl(F_GETFL)'') n s
      | (True, s) \<Rightarrow>
          (case sys_call K (SetFl (nc_fd n) (\<not> blocking)) s of
             (False, s) \<Rightarrow> fail_closing K (Some ''fcntl(F_SETFL)'') n s
           | (True, s) \<Rightarrow> (REDIS_OK, n, s\<lparr>sy_nonblock := (sy_nonblock s)(nc_fd n := \<not> blocking)\<rparr>)))"

text \<open>Options one after the other, the first that fails sets the error.\<close>

fun set_options :: "kernel \<Rightarrow> sock_opt list \<Rightarrow> net_context \<Rightarrow> sys \<Rightarrow> int \<times> net_context \<times> sys" where
  "set_options K [] n s = (REDIS_OK, n, s)"
| "set_options K (opt # opts) n s =
     (case sys_call K (SetSockOpt (nc_fd n) opt) s of
        (False, s) \<Rightarrow> (REDIS_ERR, nc_error REDIS_ERR_OTHER (k_strerror K (sy_errno s)) n, s)
      | (True, s) \<Rightarrow> set_options K opts n s)"

text \<open>\<open>interval div 3\<close> is the quotient of C: the interval is not negative in any call.\<close>

definition redisKeepAlive :: "kernel \<Rightarrow> nat \<Rightarrow> net_context \<Rightarrow> sys \<Rightarrow> int \<times> net_context \<times> sys" where
  "redisKeepAlive K interval n s =
     set_options K [SO_KEEPALIVE 1, TCP_KEEPIDLE (int interval), TCP_KEEPINTVL (let v = int interval div 3 in if v = 0 then 1 else v), TCP_KEEPCNT 3] n s"

definition redisSetTcpNoDelay :: "kernel \<Rightarrow> net_context \<Rightarrow> sys \<Rightarrow> int \<times> net_context \<times> sys" where
  "redisSetTcpNoDelay K n s =
     (case sys_call K (SetSockOpt (nc_fd n) (TCP_NODELAY 1)) s of
        (False, s) \<Rightarrow> fail_closing K (Some ''setsockopt(TCP_NODELAY)'') n s
      | (True, s) \<Rightarrow> (REDIS_OK, n, s))"

definition redisContextSetTimeout :: "kernel \<Rightarrow> timeval \<Rightarrow> net_context \<Rightarrow> sys \<Rightarrow> int \<times> net_context \<times> sys" where
  "redisContextSetTimeout K tv n s =
     (case sys_call K (SetSockOpt (nc_fd n) (SO_RCVTIMEO tv)) s of
        (False, s) \<Rightarrow> (REDIS_ERR, redisSetErrorFromErrno K REDIS_ERR_IO (Some ''setsockopt(SO_RCVTIMEO)'') n s, s)
      | (True, s) \<Rightarrow>
          (case sys_call K (SetSockOpt (nc_fd n) (SO_SNDTIMEO tv)) s of
             (False, s) \<Rightarrow> (REDIS_ERR, redisSetErrorFromErrno K REDIS_ERR_IO (Some ''setsockopt(SO_SNDTIMEO)'') n s, s)
           | (True, s) \<Rightarrow> (REDIS_OK, n, s)))"

definition redisCheckSocketError :: "(errno \<Rightarrow> bytes) \<Rightarrow> so_error \<Rightarrow> redisContext \<Rightarrow> int \<times> redisContext" where
  "redisCheckSocketError st so c =
     (case so of
        SoOk \<Rightarrow> (REDIS_OK, c)
      | SoError e \<Rightarrow> (REDIS_ERR, redisSetError c REDIS_ERR_IO (st e))
      | SoFails e \<Rightarrow> (REDIS_ERR, redisSetError c REDIS_ERR_IO (''getsockopt(SO_ERROR): '' @ st e)))"

section \<open>Waiting for a connection\<close>

abbreviation (input) MAX_MSEC :: int where "MAX_MSEC \<equiv> 9223372036854774"

text \<open>The division of C rounds towards zero.\<close>

definition wait_msec :: "timeval \<Rightarrow> int" where
  "wait_msec tv =
     (case tv of (sec, usec) \<Rightarrow>
        let u = usec + 999; q = (if u \<ge> 0 then u div 1000 else - ((- u) div 1000));
            msec = int64 (int64 (sec * 1000) + q)
        in if msec < 0 \<or> msec > 2147483647 then 2147483647 else msec)"

definition poll_ready :: "kernel \<Rightarrow> int \<Rightarrow> net_context \<Rightarrow> sys \<Rightarrow> int \<times> net_context \<times> sys" where
  "poll_ready K msec n s =
     (case k_poll K (sy_calls s) (nc_fd n) msec of
        PollFails e \<Rightarrow> fail_closing K (Some ''poll(2)'') n ((tick s)\<lparr>sy_errno := e\<rparr>)
      | PollTimeout \<Rightarrow> fail_closing K None n ((tick s)\<lparr>sy_errno := ETIMEDOUT\<rparr>)
      | PollReady \<Rightarrow>
          (let s = tick s in
           case redisCheckSocketError (k_strerror K) (k_so_error K (sy_calls s) (nc_fd n)) (nc_c n) of
             (ok, c) \<Rightarrow> (ok, n\<lparr>nc_c := c\<rparr>, tick s)))"

definition redisContextWaitReady :: "kernel \<Rightarrow> timeval option \<Rightarrow> net_context \<Rightarrow> sys \<Rightarrow> int \<times> net_context \<times> sys" where
  "redisContextWaitReady K timeout n s =
     (case timeout of
        Some tv \<Rightarrow>
          if snd tv > 1000000 \<or> fst tv > MAX_MSEC then fail_closing K None n s
          else if sy_errno s = EINPROGRESS then poll_ready K (wait_msec tv) n s else fail_closing K None n s
      | None \<Rightarrow> if sy_errno s = EINPROGRESS then poll_ready K (-1) n s else fail_closing K None n s)"

section \<open>TCP\<close>

text \<open>The loop over the addresses of \<^verbatim>\<open>source_addr\<close>; the first the socket can be bound to ends it.\<close>

fun bind_any :: "kernel \<Rightarrow> int \<Rightarrow> addrinfo list \<Rightarrow> sys \<Rightarrow> bool \<times> sys" where
  "bind_any K fd [] s = (False, s)"
| "bind_any K fd (b # bs) s = (case sys_call K (Bind fd (snd b)) s of (True, s) \<Rightarrow> (True, s) | (False, s) \<Rightarrow> bind_any K fd bs s)"

definition bind_source :: "kernel \<Rightarrow> family \<Rightarrow> bool \<Rightarrow> net_context \<Rightarrow> sys \<Rightarrow> bool \<times> net_context \<times> sys" where
  "bind_source K hints reuseaddr n s =
     (case nc_source_addr n of
        None \<Rightarrow> (True, n, s)
      | Some src \<Rightarrow>
          (case getaddrinfo K (Some src) None hints s of
             (Inl rv, s) \<Rightarrow> (False, nc_error REDIS_ERR_OTHER (''Can't get addr: '' @ k_gai_strerror K rv) n, s)
           | (Inr bs, s) \<Rightarrow>
               (case (if reuseaddr then sys_call K (SetSockOpt (nc_fd n) (SO_REUSEADDR 1)) s else (True, s)) of
                  (False, s) \<Rightarrow> (False, n, s)
                | (True, s) \<Rightarrow>
                    (case bind_any K (nc_fd n) bs s of
                       (True, s) \<Rightarrow> (True, n, s)
                     | (False, s) \<Rightarrow> (False, nc_error REDIS_ERR_OTHER (''Can't bind socket: '' @ k_strerror K (sy_errno s)) n, s)))))"

text \<open>The end of an attempt with one address.\<close>

datatype attempt = NextAddr | AddrRetry | GiveUp | Done

definition finish_connect :: "kernel \<Rightarrow> bool \<Rightarrow> net_context \<Rightarrow> sys \<Rightarrow> attempt \<times> net_context \<times> sys" where
  "finish_connect K blocking n s =
     (case (if blocking then redisSetBlocking K True n s else (REDIS_OK, n, s)) of (ok, n, s) \<Rightarrow>
        if ok \<noteq> REDIS_OK then (GiveUp, n, s)
        else
          (case redisSetTcpNoDelay K n s of (ok, n, s) \<Rightarrow>
             if ok \<noteq> REDIS_OK then (GiveUp, n, s) else (Done, raise_flag REDIS_CONNECTED n, s)))"

definition connect_addr :: "kernel \<Rightarrow> bool \<Rightarrow> bool \<Rightarrow> bytes \<Rightarrow> net_context \<Rightarrow> sys \<Rightarrow> attempt \<times> net_context \<times> sys" where
  "connect_addr K blocking reuseaddr ad n s =
     (case sys_call K (Connect (nc_fd n) ad) s of
        (True, s) \<Rightarrow> finish_connect K blocking n s
      | (False, s) \<Rightarrow>
          if sy_errno s = EHOSTUNREACH then (NextAddr, redisContextCloseFd n s)
          else if sy_errno s = EINPROGRESS \<and> \<not> blocking then finish_connect K blocking n s
          else if sy_errno s = EADDRNOTAVAIL \<and> reuseaddr then (AddrRetry, n, s)
          else
            (case redisContextWaitReady K (nc_timeout n) n s of (ok, n, s) \<Rightarrow>
               if ok \<noteq> REDIS_OK then (GiveUp, n, s) else finish_connect K blocking n s))"

definition try_addr :: "kernel \<Rightarrow> family \<Rightarrow> bool \<Rightarrow> bool \<Rightarrow> addrinfo \<Rightarrow> net_context \<Rightarrow> sys \<Rightarrow> attempt \<times> net_context \<times> sys" where
  "try_addr K hints blocking reuseaddr p n s =
     (case sys_socket K (fst p) s of
        (None, s) \<Rightarrow> (NextAddr, n, s)
      | (Some fd, s) \<Rightarrow>
          (case redisSetBlocking K False (set_fd fd n) s of (ok, n, s) \<Rightarrow>
             if ok \<noteq> REDIS_OK then (GiveUp, n, s)
             else
               (case bind_source K hints reuseaddr n s of (bound, n, s) \<Rightarrow>
                  if \<not> bound then (GiveUp, n, s) else connect_addr K blocking reuseaddr (snd p) n s)))"

abbreviation (input) REDIS_CONNECT_RETRIES :: nat where "REDIS_CONNECT_RETRIES \<equiv> 10"

function addr_loop :: "kernel \<Rightarrow> family \<Rightarrow> bool \<Rightarrow> bool \<Rightarrow> nat \<Rightarrow> addrinfo list \<Rightarrow> net_context \<Rightarrow> sys \<Rightarrow> int \<times> net_context \<times> sys" where
  "addr_loop K hints blocking reuseaddr reuses [] n s =
     (REDIS_ERR, nc_error REDIS_ERR_OTHER (''Can't create socket: '' @ k_strerror K (sy_errno s)) n, s)"
| "addr_loop K hints blocking reuseaddr reuses (p # ps) n s =
     (case try_addr K hints blocking reuseaddr p n s of
        (Done, n, s) \<Rightarrow> (REDIS_OK, n, s)
      | (GiveUp, n, s) \<Rightarrow> (REDIS_ERR, n, s)
      | (NextAddr, n, s) \<Rightarrow> addr_loop K hints blocking reuseaddr reuses ps n s
      | (AddrRetry, n, s) \<Rightarrow>
          if Suc reuses \<ge> REDIS_CONNECT_RETRIES then (REDIS_ERR, n, s)
          else addr_loop K hints blocking reuseaddr (Suc reuses) (p # ps) n s)"
  by pat_completeness auto
termination by (relation "measure (\<lambda>(K, hints, blocking, reuseaddr, reuses, ps, n, s). (REDIS_CONNECT_RETRIES - reuses) + length ps)") auto

declare addr_loop.simps [simp del]

definition take_timeout :: "mem \<Rightarrow> timeval option param \<Rightarrow> net_context \<Rightarrow> net_context c_res" where
  "take_timeout M timeout n =
     (case timeout of
        Own \<Rightarrow> Inr n
      | Given None \<Rightarrow> Inr (n\<lparr>nc_timeout := None\<rparr>)
      | Given (Some tv) \<Rightarrow> if nc_timeout n = None \<and> \<not> mem_ok M 16 then Inl NullDeref else Inr (n\<lparr>nc_timeout := Some tv\<rparr>))"

definition take_host :: "mem \<Rightarrow> bytes param \<Rightarrow> net_context \<Rightarrow> net_context" where
  "take_host M addr n = (case addr of Own \<Rightarrow> n | Given a \<Rightarrow> n\<lparr>nc_host := strdup M a\<rparr>)"

definition take_source :: "mem \<Rightarrow> bytes option param \<Rightarrow> net_context \<Rightarrow> net_context" where
  "take_source M source n =
     (case source of Own \<Rightarrow> n | Given None \<Rightarrow> n\<lparr>nc_source_addr := None\<rparr> | Given (Some a) \<Rightarrow> n\<lparr>nc_source_addr := strdup M a\<rparr>)"

text \<open>The addresses of the server: IPv4 first, and IPv6 only when there is none.\<close>

definition server_addrs :: "kernel \<Rightarrow> bytes option \<Rightarrow> bytes option \<Rightarrow> bytes \<Rightarrow> sys \<Rightarrow> (int, family \<times> addrinfo list) sum \<times> sys" where
  "server_addrs K host addr port s =
     (case getaddrinfo K host (Some port) AF_INET s of
        (Inr ps, s) \<Rightarrow> (Inr (AF_INET, ps), s)
      | (Inl _, s) \<Rightarrow>
          (case getaddrinfo K addr (Some port) AF_INET6 s of
             (Inr ps, s) \<Rightarrow> (Inr (AF_INET6, ps), s)
           | (Inl rv, s) \<Rightarrow> (Inl rv, s)))"

definition redisContextConnectTcp_raw :: "mem \<Rightarrow> kernel \<Rightarrow> bytes param \<Rightarrow> int \<Rightarrow> timeval option param \<Rightarrow> bytes option param \<Rightarrow>
    net_context \<Rightarrow> sys \<Rightarrow> (int \<times> net_context \<times> sys) c_res" where
  "redisContextConnectTcp_raw M K addr port timeout source n s =
     (let blocking = (REDIS_BLOCK \<in> nc_flags n); reuseaddr = (REDIS_REUSEADDR \<in> nc_flags n);
          addr_arg = (case addr of Own \<Rightarrow> nc_host n | Given a \<Rightarrow> Some (cstr a));
          n = take_host M addr (n\<lparr>nc_type := REDIS_CONN_TCP, nc_port := port\<rparr>)
      in bind_c (take_timeout M timeout n) (\<lambda>n.
           let n = take_source M source n in
           case server_addrs K (nc_host n) addr_arg (take 5 (dec_int port)) s of
             (Inl rv, s) \<Rightarrow> Inr (REDIS_ERR, nc_error REDIS_ERR_OTHER (k_gai_strerror K rv) n, s)
           | (Inr (hints, ps), s) \<Rightarrow> Inr (addr_loop K hints blocking reuseaddr 0 ps n s)))"

definition redisContextConnectTcp :: "mem \<Rightarrow> kernel \<Rightarrow> bytes param \<Rightarrow> int \<Rightarrow> timeval option param \<Rightarrow> net_context \<Rightarrow> sys \<Rightarrow>
    (int \<times> net_context \<times> sys) c_res" where
  "redisContextConnectTcp M K addr port timeout n s = redisContextConnectTcp_raw M K addr port timeout (Given None) n s"

definition redisContextConnectBindTcp :: "mem \<Rightarrow> kernel \<Rightarrow> bytes param \<Rightarrow> int \<Rightarrow> timeval option param \<Rightarrow> bytes option param \<Rightarrow>
    net_context \<Rightarrow> sys \<Rightarrow> (int \<times> net_context \<times> sys) c_res" where
  "redisContextConnectBindTcp M K addr port timeout source n s = redisContextConnectTcp_raw M K addr port timeout source n s"

section \<open>Unix sockets\<close>

definition take_path :: "mem \<Rightarrow> bytes param \<Rightarrow> net_context \<Rightarrow> net_context" where
  "take_path M path n = (case path of Own \<Rightarrow> n | Given a \<Rightarrow> n\<lparr>nc_path := strdup M a\<rparr>)"

definition finish_unix :: "kernel \<Rightarrow> bool \<Rightarrow> net_context \<Rightarrow> sys \<Rightarrow> int \<times> net_context \<times> sys" where
  "finish_unix K blocking n s =
     (case (if blocking then redisSetBlocking K True n s else (REDIS_OK, n, s)) of (ok, n, s) \<Rightarrow>
        if ok \<noteq> REDIS_OK then (REDIS_ERR, n, s) else (REDIS_OK, raise_flag REDIS_CONNECTED n, s))"

definition connect_path :: "kernel \<Rightarrow> bool \<Rightarrow> bytes \<Rightarrow> net_context \<Rightarrow> sys \<Rightarrow> int \<times> net_context \<times> sys" where
  "connect_path K blocking path n s =
     (case sys_call K (Connect (nc_fd n) (take 107 path)) s of
        (True, s) \<Rightarrow> finish_unix K blocking n s
      | (False, s) \<Rightarrow>
          if sy_errno s = EINPROGRESS \<and> \<not> blocking then finish_unix K blocking n s
          else
            (case redisContextWaitReady K (nc_timeout n) n s of (ok, n, s) \<Rightarrow>
               if ok \<noteq> REDIS_OK then (REDIS_ERR, n, s) else finish_unix K blocking n s))"

definition redisContextConnectUnix :: "mem \<Rightarrow> kernel \<Rightarrow> bytes param \<Rightarrow> timeval option param \<Rightarrow> net_context \<Rightarrow> sys \<Rightarrow>
    (int \<times> net_context \<times> sys) c_res" where
  "redisContextConnectUnix M K path timeout n s =
     (let blocking = (REDIS_BLOCK \<in> nc_flags n) in
      case redisCreateSocket K AF_LOCAL n s of (ok, n, s) \<Rightarrow>
        if ok < 0 then Inr (REDIS_ERR, n, s)
        else
          (case redisSetBlocking K False n s of (ok, n, s) \<Rightarrow>
             if ok \<noteq> REDIS_OK then Inr (REDIS_ERR, n, s)
             else
               (let path_arg = (case path of Own \<Rightarrow> nc_path n | Given a \<Rightarrow> Some (cstr a)) in
                bind_c (take_timeout M timeout (take_path M path (n\<lparr>nc_type := REDIS_CONN_UNIX\<rparr>))) (\<lambda>n.
                  case path_arg of None \<Rightarrow> Inl NullDeref | Some p \<Rightarrow> Inr (connect_path K blocking p n s)))))"

section \<open>Contexts\<close>

definition net_context_init :: "mem \<Rightarrow> net_context option c_res" where
  "net_context_init M =
     bind_c (redisContextInit M) (\<lambda>c.
       Inr (map_option (\<lambda>c. \<lparr>nc_c = c, nc_has_reader = True, nc_type = REDIS_CONN_TCP, nc_timeout = None, nc_host = None, nc_source_addr = None,
         nc_port = 0, nc_path = None\<rparr>) c))"

definition net_free :: "net_context \<Rightarrow> rheap \<Rightarrow> sys \<Rightarrow> (rheap \<times> sys) c_res" where
  "net_free n h s =
     (let s = (if nc_fd n > 0 then sys_close (nc_fd n) s else s) in
      if nc_has_reader n then bind_c (redisFree (nc_c n) h) (\<lambda>h. Inr (h, s)) else Inr (h, s))"

definition redisFreeKeepFd :: "net_context \<Rightarrow> rheap \<Rightarrow> sys \<Rightarrow> (int \<times> rheap \<times> sys) c_res" where
  "redisFreeKeepFd n h s = bind_c (net_free (set_fd (-1) n) h s) (\<lambda>(h, s). Inr (nc_fd n, h, s))"

text \<open>The descriptor is closed, its number stays in the context.\<close>

definition redisReconnect :: "mem \<Rightarrow> kernel \<Rightarrow> net_context \<Rightarrow> rheap \<Rightarrow> sys \<Rightarrow> (int \<times> net_context \<times> rheap \<times> sys) c_res" where
  "redisReconnect M K n h s =
     (let n = n\<lparr>nc_c := (nc_c n)\<lparr>rc_err := 0, rc_errstr := []\<rparr>\<rparr>;
          s = (if nc_fd n > 0 then sys_close (nc_fd n) s else s)
      in bind_c (if nc_has_reader n then redisReaderFree (rc_reader (nc_c n)) h else Inr h) (\<lambda>h.
           bind_c (sdsempty M) (\<lambda>obuf.
             bind_c (redisReaderCreate M) (\<lambda>reader.
               let n = n\<lparr>nc_c := (nc_c n)\<lparr>rc_obuf := obuf, rc_reader := (case reader of None \<Rightarrow> rc_reader (nc_c n) | Some r \<Rightarrow> r)\<rparr>,
                         nc_has_reader := (reader \<noteq> None)\<rparr>
               in bind_c (case nc_type n of
                            REDIS_CONN_TCP \<Rightarrow> redisContextConnectBindTcp M K Own (nc_port n) Own Own n s
                          | REDIS_CONN_UNIX \<Rightarrow> redisContextConnectUnix M K Own Own n s) (\<lambda>(ok, n, s). Inr (ok, n, h, s))))))"

text \<open>
  The functions that make a connected context differ in the flags they raise and in whether they look at the result of
  \<^verbatim>\<open>redisContextInit\<close>.
\<close>

definition connecting :: "mem \<Rightarrow> redis_flag set \<Rightarrow> (net_context \<Rightarrow> sys \<Rightarrow> (int \<times> net_context \<times> sys) c_res) \<Rightarrow> sys \<Rightarrow>
    (net_context option \<times> sys) c_res" where
  "connecting M F conn s =
     bind_c (net_context_init M) (\<lambda>n.
       case n of
         None \<Rightarrow> Inr (None, s)
       | Some n \<Rightarrow> bind_c (conn (n\<lparr>nc_c := (nc_c n)\<lparr>rc_flags := F\<rparr>\<rparr>) s) (\<lambda>(_, n, s). Inr (Some n, s)))"

definition connecting_unchecked :: "mem \<Rightarrow> redis_flag set \<Rightarrow> (net_context \<Rightarrow> sys \<Rightarrow> (int \<times> net_context \<times> sys) c_res) \<Rightarrow> sys \<Rightarrow>
    (net_context option \<times> sys) c_res" where
  "connecting_unchecked M F conn s =
     bind_c (connecting M F conn s) (\<lambda>(n, s). if n = None then Inl NullDeref else Inr (n, s))"

definition redisConnect :: "mem \<Rightarrow> kernel \<Rightarrow> bytes \<Rightarrow> int \<Rightarrow> sys \<Rightarrow> (net_context option \<times> sys) c_res" where
  "redisConnect M K ip port = connecting M {REDIS_BLOCK} (redisContextConnectTcp M K (Given ip) port (Given None))"

definition redisConnectWithTimeout :: "mem \<Rightarrow> kernel \<Rightarrow> bytes \<Rightarrow> int \<Rightarrow> timeval \<Rightarrow> sys \<Rightarrow> (net_context option \<times> sys) c_res" where
  "redisConnectWithTimeout M K ip port tv = connecting M {REDIS_BLOCK} (redisContextConnectTcp M K (Given ip) port (Given (Some tv)))"

definition redisConnectNonBlock :: "mem \<Rightarrow> kernel \<Rightarrow> bytes \<Rightarrow> int \<Rightarrow> sys \<Rightarrow> (net_context option \<times> sys) c_res" where
  "redisConnectNonBlock M K ip port = connecting M {} (redisContextConnectTcp M K (Given ip) port (Given None))"

definition redisConnectBindNonBlock :: "mem \<Rightarrow> kernel \<Rightarrow> bytes \<Rightarrow> int \<Rightarrow> bytes \<Rightarrow> sys \<Rightarrow> (net_context option \<times> sys) c_res" where
  "redisConnectBindNonBlock M K ip port source =
     connecting_unchecked M {} (redisContextConnectBindTcp M K (Given ip) port (Given None) (Given (Some source)))"

definition redisConnectBindNonBlockWithReuse :: "mem \<Rightarrow> kernel \<Rightarrow> bytes \<Rightarrow> int \<Rightarrow> bytes \<Rightarrow> sys \<Rightarrow> (net_context option \<times> sys) c_res" where
  "redisConnectBindNonBlockWithReuse M K ip port source =
     connecting_unchecked M {REDIS_REUSEADDR} (redisContextConnectBindTcp M K (Given ip) port (Given None) (Given (Some source)))"

definition redisConnectUnix :: "mem \<Rightarrow> kernel \<Rightarrow> bytes \<Rightarrow> sys \<Rightarrow> (net_context option \<times> sys) c_res" where
  "redisConnectUnix M K path = connecting M {REDIS_BLOCK} (redisContextConnectUnix M K (Given path) (Given None))"

definition redisConnectUnixWithTimeout :: "mem \<Rightarrow> kernel \<Rightarrow> bytes \<Rightarrow> timeval \<Rightarrow> sys \<Rightarrow> (net_context option \<times> sys) c_res" where
  "redisConnectUnixWithTimeout M K path tv = connecting M {REDIS_BLOCK} (redisContextConnectUnix M K (Given path) (Given (Some tv)))"

definition redisConnectUnixNonBlock :: "mem \<Rightarrow> kernel \<Rightarrow> bytes \<Rightarrow> sys \<Rightarrow> (net_context option \<times> sys) c_res" where
  "redisConnectUnixNonBlock M K path = connecting M {} (redisContextConnectUnix M K (Given path) (Given None))"

definition redisSetTimeout :: "kernel \<Rightarrow> timeval \<Rightarrow> net_context \<Rightarrow> sys \<Rightarrow> int \<times> net_context \<times> sys" where
  "redisSetTimeout K tv n s = (if REDIS_BLOCK \<in> nc_flags n then redisContextSetTimeout K tv n s else (REDIS_ERR, n, s))"

definition redisEnableKeepAlive :: "kernel \<Rightarrow> net_context \<Rightarrow> sys \<Rightarrow> int \<times> net_context \<times> sys" where
  "redisEnableKeepAlive K n s = (case redisKeepAlive K 15 n s of (ok, n, s) \<Rightarrow> (if ok \<noteq> REDIS_OK then REDIS_ERR else REDIS_OK, n, s))"

section \<open>Descriptors\<close>

text \<open>
  With \<open>D\<close> the descriptors that were open before: the context owns one more, or none. A number below zero, or the one
  the context had before, is not a descriptor of its own.
\<close>

definition owns :: "int set \<Rightarrow> bool \<Rightarrow> net_context \<Rightarrow> sys \<Rightarrow> bool" where
  "owns D b n s \<longleftrightarrow> 0 \<le> nc_fd n \<and> nc_fd n \<notin> D \<and> set (sy_open s) = insert (nc_fd n) D \<and> sy_nonblock s (nc_fd n) = b"

definition rests :: "int set \<Rightarrow> int \<Rightarrow> net_context \<Rightarrow> sys \<Rightarrow> bool" where
  "rests D f n s \<longleftrightarrow> set (sy_open s) = D \<and> nc_fd n \<in> {-1, f}"

definition conn_failed :: "int set \<Rightarrow> int \<Rightarrow> net_context \<Rightarrow> sys \<Rightarrow> bool" where
  "conn_failed D f n s \<longleftrightarrow> nc_err n \<noteq> 0 \<and> (rests D f n s \<or> (\<exists>b. owns D b n s))"

definition kept :: "net_context \<Rightarrow> net_context \<Rightarrow> bool" where
  "kept n n' \<longleftrightarrow> nc_err n' = nc_err n \<and> nc_flags n' = nc_flags n"

text \<open>What a call on a socket the context owns may end in.\<close>

definition call_ends :: "int set \<Rightarrow> int \<Rightarrow> bool \<Rightarrow> net_context \<Rightarrow> int \<times> net_context \<times> sys \<Rightarrow> bool" where
  "call_ends D f b n r \<longleftrightarrow> (case r of (ok, n', s') \<Rightarrow> ok = REDIS_OK \<and> kept n n' \<and> owns D b n' s' \<or> ok = REDIS_ERR \<and> conn_failed D f n' s')"

definition connect_ends :: "int set \<Rightarrow> net_context \<Rightarrow> int \<times> net_context \<times> sys \<Rightarrow> bool" where
  "connect_ends D n r \<longleftrightarrow>
     (case r of (ok, n', s') \<Rightarrow>
        ok = REDIS_OK \<and> nc_err n' = nc_err n \<and> nc_flags n' = insert REDIS_CONNECTED (nc_flags n) \<and> owns D (REDIS_BLOCK \<notin> nc_flags n) n' s' \<or>
        ok = REDIS_ERR \<and> conn_failed D (nc_fd n) n' s')"

lemma new_fd_fresh: "new_fd fds \<notin> set fds" "0 \<le> new_fd fds"
proof -
  have "filter (\<lambda>n. int n \<notin> set fds) [0..<Suc (length fds)] \<noteq> []"
  proof
    assume "filter (\<lambda>n. int n \<notin> set fds) [0..<Suc (length fds)] = []"
    then have "int ` {0..<Suc (length fds)} \<subseteq> set fds" by (auto simp: filter_empty_conv simp del: upt_Suc)
    then have "card (int ` {0..<Suc (length fds)}) \<le> card (set fds)" by (intro card_mono) auto
    then show False using card_length [of fds] by (simp add: card_image)
  qed
  from hd_in_set [OF this] show "new_fd fds \<notin> set fds" by (auto simp: new_fd_def simp del: upt_Suc)
  show "0 \<le> new_fd fds" by (simp add: new_fd_def del: upt_Suc)
qed

named_theorems net_defs

lemma net_simps [net_defs]:
  "nc_c (set_fd fd n) = (nc_c n)\<lparr>rc_fd := fd\<rparr>" "nc_c (nc_error ty t n) = redisSetError (nc_c n) ty t"
  "nc_c (raise_flag f n) = (nc_c n)\<lparr>rc_flags := insert f (nc_flags n)\<rparr>"
  "sy_open (tick s) = sy_open s" "sy_nonblock (tick s) = sy_nonblock s"
  "sy_open (sys_close fd s) = removeAll fd (sy_open s)" "sy_nonblock (sys_close fd s) = sy_nonblock s"
  by (simp_all add: set_fd_def nc_error_def raise_flag_def tick_def sys_close_def)

lemma sys_call_same:
  "sys_call K q s = (ok, s') \<Longrightarrow> sy_open s' = sy_open s \<and> sy_nonblock s' = sy_nonblock s"
  by (auto simp: sys_call_def net_defs split: option.splits)

lemma owns_call: "owns D b n s \<Longrightarrow> sys_call K q s = (ok, s') \<Longrightarrow> owns D b n s'"
  using sys_call_same [of K q s ok s'] by (simp add: owns_def)

lemma socket_owned:
  assumes "rests D f n s" "sys_socket K fam s = (r, s')"
  shows "case r of None \<Rightarrow> rests D f n s' | Some fd \<Rightarrow> owns D False (set_fd fd n) s' \<and> kept n (set_fd fd n)"
proof -
  obtain ok s1 where c: "sys_call K (Socket fam) s = (ok, s1)" by fastforce
  note same = sys_call_same [OF c]
  show ?thesis
  proof (cases ok)
    case True
    then have "r = Some (new_fd (sy_open s))" "s' = s1\<lparr>sy_open := new_fd (sy_open s) # sy_open s, sy_nonblock := (sy_nonblock s)(new_fd (sy_open s) := False)\<rparr>"
      using assms(2) c same by (simp_all add: sys_socket_def Let_def)
    moreover have "new_fd (sy_open s) \<notin> D" using assms(1) new_fd_fresh(1) by (auto simp: rests_def)
    ultimately show ?thesis using assms(1) new_fd_fresh(2) by (simp add: rests_def owns_def kept_def net_defs)
  next
    case False
    then show ?thesis using assms c same by (auto simp: sys_socket_def rests_def)
  qed
qed

lemma fail_closing_ends: "owns D b n s \<Longrightarrow> call_ends D f b' n' (fail_closing K p n s)"
  by (auto simp: call_ends_def fail_closing_def redisContextCloseFd_def redisSetErrorFromErrno_def owns_def conn_failed_def rests_def net_defs redisSetError_def)

lemma call_ends_OK: "owns D b n' s' \<Longrightarrow> kept n n' \<Longrightarrow> call_ends D f b n (REDIS_OK, n', s')"
  by (simp add: call_ends_def)

lemma kept_refl [simp]: "kept n n"
  by (simp add: kept_def)

lemma redisSetBlocking_ends:
  assumes "owns D b n s"
  shows "call_ends D f (\<not> bl) n (redisSetBlocking K bl n s)"
proof -
  obtain ok1 s1 where 1: "sys_call K (GetFl (nc_fd n)) s = (ok1, s1)" by fastforce
  obtain ok2 s2 where 2: "sys_call K (SetFl (nc_fd n) (\<not> bl)) s1 = (ok2, s2)" by fastforce
  note o1 = owns_call [OF assms 1] note o2 = owns_call [OF o1 2]
  then have "owns D (\<not> bl) n (s2\<lparr>sy_nonblock := (sy_nonblock s2)(nc_fd n := \<not> bl)\<rparr>)" by (simp add: owns_def)
  from call_ends_OK [OF this kept_refl] show ?thesis
    using 1 2 fail_closing_ends [OF o1] fail_closing_ends [OF o2] by (cases ok1; cases ok2) (simp_all add: redisSetBlocking_def)
qed

lemma redisSetTcpNoDelay_ends:
  assumes "owns D b n s"
  shows "call_ends D f b n (redisSetTcpNoDelay K n s)"
proof -
  obtain ok s1 where 1: "sys_call K (SetSockOpt (nc_fd n) (TCP_NODELAY 1)) s = (ok, s1)" by fastforce
  note o = owns_call [OF assms 1]
  show ?thesis using 1 fail_closing_ends [OF o] call_ends_OK [OF o kept_refl] by (cases ok) (simp_all add: redisSetTcpNoDelay_def)
qed

lemma redisContextWaitReady_ends:
  assumes "owns D b n s"
  shows "call_ends D f b n (redisContextWaitReady K t n s)"
proof -
  have o: "owns D b n (tick s)" "owns D b n (tick (tick s))" "owns D b n ((tick s)\<lparr>sy_errno := e\<rparr>)" for e
    using assms by (simp_all add: owns_def net_defs)
  have "call_ends D f b n (poll_ready K m n s)" for m
    using fail_closing_ends [OF o(3)] o(2)
    by (auto simp: poll_ready_def redisCheckSocketError_def Let_def call_ends_def conn_failed_def kept_def owns_def redisSetError_def
        split: poll_result.split so_error.split)
  then show ?thesis using fail_closing_ends [OF assms] by (simp add: redisContextWaitReady_def split: option.split)
qed

text \<open>An attempt with one address, when addresses are not reused.\<close>

definition attempt_ends :: "int set \<Rightarrow> int \<Rightarrow> bool \<Rightarrow> net_context \<Rightarrow> attempt \<times> net_context \<times> sys \<Rightarrow> bool" where
  "attempt_ends D f b n r \<longleftrightarrow>
     (case r of (at, n', s') \<Rightarrow>
        (case at of
           Done \<Rightarrow> nc_err n' = nc_err n \<and> nc_flags n' = insert REDIS_CONNECTED (nc_flags n) \<and> owns D b n' s'
         | GiveUp \<Rightarrow> conn_failed D f n' s'
         | NextAddr \<Rightarrow> kept n n' \<and> rests D f n' s'
         | AddrRetry \<Rightarrow> False))"

lemma call_endsE:
  assumes "call_ends D f b n r"
  obtains n' s' where "r = (REDIS_OK, n', s')" "kept n n'" "owns D b n' s'" | n' s' where "r = (REDIS_ERR, n', s')" "conn_failed D f n' s'"
  using assms unfolding call_ends_def by (cases r) auto

lemma finish_connect_ends:
  assumes "owns D True n s"
  shows "attempt_ends D f (\<not> bl) n (finish_connect K bl n s)"
proof -
  have "call_ends D f (\<not> bl) n (if bl then redisSetBlocking K True n s else (REDIS_OK, n, s))"
    using redisSetBlocking_ends [OF assms, of f True K] call_ends_OK [OF assms kept_refl] by auto
  then show ?thesis
  proof (cases rule: call_endsE)
    case (1 n1 s1)
    from redisSetTcpNoDelay_ends [OF 1(3), of f K] show ?thesis
      by (cases rule: call_endsE) (use 1 in \<open>simp_all add: finish_connect_def attempt_ends_def kept_def owns_def net_defs\<close>)
  qed (simp add: finish_connect_def attempt_ends_def)
qed

lemma bind_any_same: "bind_any K fd bs s = (ok, s') \<Longrightarrow> sy_open s' = sy_open s \<and> sy_nonblock s' = sy_nonblock s"
proof (induction bs arbitrary: s)
  case (Cons b bs)
  obtain ok1 s1 where c: "sys_call K (Bind fd (snd b)) s = (ok1, s1)" by fastforce
  show ?case using Cons sys_call_same [OF c] c by (cases ok1) auto
qed simp

lemma failed_owned: "owns D b n s \<Longrightarrow> ty \<noteq> 0 \<Longrightarrow> conn_failed D f (nc_error ty t n) s"
  unfolding conn_failed_def owns_def net_defs redisSetError_def by auto

lemma bind_source_ends:
  assumes "owns D b n s" "bind_source K hints False n s = (ok, n', s')"
  shows "if ok then n' = n \<and> owns D b n s' else conn_failed D f n' s'"
proof (cases "nc_source_addr n")
  case (Some src)
  show ?thesis
  proof (cases "k_addrs K (sy_calls s) (Some src) None hints")
    case (Inl rv)
    have "owns D b n (tick s)" using assms(1) by (simp add: owns_def net_defs)
    then show ?thesis using Inl Some assms(2) failed_owned by (auto simp: bind_source_def getaddrinfo_def)
  next
    case (Inr bs)
    obtain ok1 s1 where c: "bind_any K (nc_fd n) bs (tick s) = (ok1, s1)" by fastforce
    have "owns D b n s1" using assms(1) bind_any_same [OF c] by (simp add: owns_def net_defs)
    then show ?thesis using Some Inr assms(2) c
      by (cases ok1) (auto simp: bind_source_def getaddrinfo_def failed_owned)
  qed
qed (use assms in \<open>auto simp: bind_source_def\<close>)

lemma close_rests:
  assumes "owns D b n s" "redisContextCloseFd n s = (n', s')"
  shows "kept n n' \<and> rests D f n' s'"
  using assms by (auto simp: redisContextCloseFd_def owns_def rests_def kept_def net_defs)

lemma connect_addr_ends:
  assumes "owns D True n s"
  shows "attempt_ends D f (\<not> bl) n (connect_addr K bl False ad n s)"
proof -
  obtain ok s1 where c: "sys_call K (Connect (nc_fd n) ad) s = (ok, s1)" by fastforce
  note o = owns_call [OF assms c]
  note fin = finish_connect_ends [OF o, of f bl K]
  obtain n2 s2 where cl: "redisContextCloseFd n s1 = (n2, s2)" by fastforce
  have "attempt_ends D f (\<not> bl) n (case redisContextWaitReady K (nc_timeout n) n s1 of (ok, n, s) \<Rightarrow>
      if ok \<noteq> REDIS_OK then (GiveUp, n, s) else finish_connect K bl n s)"
    using redisContextWaitReady_ends [OF o, of f K "nc_timeout n"]
  proof (cases rule: call_endsE)
    case (1 n' s')
    then show ?thesis using finish_connect_ends [OF 1(3), of f bl K] by (simp add: attempt_ends_def kept_def split: prod.splits attempt.splits)
  qed (simp add: attempt_ends_def)
  then show ?thesis using c fin close_rests [OF o cl, of f] cl by (cases ok) (auto simp: connect_addr_def attempt_ends_def)
qed

lemma try_addr_ends:
  assumes "rests D f n s"
  shows "attempt_ends D f (\<not> bl) n (try_addr K hints bl False p n s)"
proof -
  obtain r s1 where c: "sys_socket K (fst p) s = (r, s1)" by fastforce
  note so = socket_owned [OF assms c]
  show ?thesis
  proof (cases r)
    case (Some fd)
    then have o: "owns D False (set_fd fd n) s1" "kept n (set_fd fd n)" using so by auto
    show ?thesis using redisSetBlocking_ends [OF o(1), of f False K]
    proof (cases rule: call_endsE)
      case (1 n2 s2)
      obtain ok n3 s3 where b: "bind_source K hints False n2 s2 = (ok, n3, s3)" by (metis prod_cases3)
      have o2: "owns D True n2 s2" using 1(3) by simp
      show ?thesis using bind_source_ends [OF o2 b, of f] connect_addr_ends [of D n2 s3 f bl K "snd p"] 1(1,2) o(2) b c Some
        by (cases ok) (auto simp: try_addr_def attempt_ends_def kept_def split: prod.splits attempt.splits)
    qed (use c Some in \<open>simp add: try_addr_def attempt_ends_def\<close>)
  qed (use c so in \<open>simp add: try_addr_def attempt_ends_def\<close>)
qed

lemma addr_loop_ends:
  assumes "rests D (nc_fd n0) n s" "kept n0 n" "bl = (REDIS_BLOCK \<in> nc_flags n0)"
  shows "connect_ends D n0 (addr_loop K hints bl False r ps n s)"
  using assms
proof (induction ps arbitrary: n s)
  case Nil
  then show ?case by (simp add: addr_loop.simps connect_ends_def conn_failed_def rests_def net_defs redisSetError_def)
next
  case (Cons p ps)
  obtain at n1 s1 where t: "try_addr K hints bl False p n s = (at, n1, s1)" by (metis prod_cases3)
  have e: "attempt_ends D (nc_fd n0) (\<not> bl) n (at, n1, s1)" using try_addr_ends [OF Cons.prems(1), of bl K hints p] t by simp
  show ?case
  proof (cases at)
    case NextAddr
    then show ?thesis using e t Cons by (simp add: addr_loop.simps attempt_ends_def kept_def)
  qed (use e t Cons.prems in \<open>simp_all add: addr_loop.simps attempt_ends_def connect_ends_def kept_def\<close>)
qed

lemma take_simps:
  "nc_c (take_host M a n) = nc_c n" "nc_c (take_source M b n) = nc_c n" "nc_c (take_path M a n) = nc_c n"
  "take_timeout M t n = Inr n' \<Longrightarrow> nc_c n' = nc_c n" "mem_ok M 16 \<Longrightarrow> \<exists>n'. take_timeout M t n = Inr n'"
  by (auto simp: take_host_def take_source_def take_path_def take_timeout_def split: param.splits option.splits if_splits)

lemma connect_ends_cong: "nc_c n = nc_c m \<Longrightarrow> connect_ends D n r = connect_ends D m r"
  by (simp add: connect_ends_def)

lemma server_addrs_same: "server_addrs K host a port s = (r, s') \<Longrightarrow> sy_open s' = sy_open s"
  by (auto simp: server_addrs_def getaddrinfo_def net_defs split: sum.splits)

lemma tcp_ends:
  assumes "redisContextConnectTcp_raw M K a port t src n s = Inr r" "REDIS_REUSEADDR \<notin> nc_flags n"
  shows "connect_ends (set (sy_open s)) n r"
proof -
  let ?n = "take_host M a (n\<lparr>nc_type := REDIS_CONN_TCP, nc_port := port\<rparr>)"
  let ?arg = "case a of Own \<Rightarrow> nc_host n | Given a \<Rightarrow> Some (cstr a)" and ?p = "take 5 (dec_int port)"
  obtain n1 where n1: "take_timeout M t ?n = Inr n1" using assms(1) by (auto simp: redisContextConnectTcp_raw_def Let_def bind_c_Inr_iff)
  let ?m = "take_source M src n1"
  have c: "nc_c ?m = nc_c n" using take_simps(4) [OF n1] by (simp add: take_simps)
  obtain q s1 where q: "server_addrs K (nc_host ?m) ?arg ?p s = (q, s1)" by fastforce
  have r: "r = (case q of Inl rv \<Rightarrow> (REDIS_ERR, nc_error REDIS_ERR_OTHER (k_gai_strerror K rv) ?m, s1)
      | Inr (hints, ps) \<Rightarrow> addr_loop K hints (REDIS_BLOCK \<in> nc_flags n) False 0 ps ?m s1)"
    using assms n1 q by (auto simp: redisContextConnectTcp_raw_def Let_def split: sum.splits)
  have rest: "rests (set (sy_open s)) (nc_fd n) ?m s1" using server_addrs_same [OF q] c by (simp add: rests_def)
  then show ?thesis unfolding r using addr_loop_ends [OF rest, of _ K] c
    by (auto simp: connect_ends_def conn_failed_def rests_def net_defs redisSetError_def kept_def split: sum.splits)
qed

lemma finish_unix_ends:
  assumes "owns D True n s" "bl = (REDIS_BLOCK \<in> nc_flags n0)" "kept n0 n"
  shows "connect_ends D n0 (finish_unix K bl n s)"
proof -
  have "call_ends D (nc_fd n0) (\<not> bl) n (if bl then redisSetBlocking K True n s else (REDIS_OK, n, s))"
    using redisSetBlocking_ends [OF assms(1), of "nc_fd n0" True K] call_ends_OK [OF assms(1) kept_refl] by auto
  then show ?thesis
    by (cases rule: call_endsE) (use assms(2,3) in \<open>auto simp: finish_unix_def connect_ends_def kept_def owns_def net_defs\<close>)
qed

lemma connect_path_ends:
  assumes "owns D True n s" "bl = (REDIS_BLOCK \<in> nc_flags n0)" "kept n0 n"
  shows "connect_ends D n0 (connect_path K bl path n s)"
proof -
  obtain ok s1 where c: "sys_call K (Connect (nc_fd n) (take 107 path)) s = (ok, s1)" by fastforce
  note o = owns_call [OF assms(1) c]
  have "connect_ends D n0 (case redisContextWaitReady K (nc_timeout n) n s1 of (ok, n, s) \<Rightarrow>
      if ok \<noteq> REDIS_OK then (REDIS_ERR, n, s) else finish_unix K bl n s)"
    using redisContextWaitReady_ends [OF o, of "nc_fd n0" K "nc_timeout n"]
  proof (cases rule: call_endsE)
    case (1 n' s')
    have "kept n0 n'" using 1(2) assms(3) by (simp add: kept_def)
    from finish_unix_ends [OF 1(3) assms(2) this] show ?thesis using 1(1) by simp
  qed (simp add: connect_ends_def)
  then show ?thesis using c finish_unix_ends [OF o assms(2,3)] by (cases ok) (auto simp: connect_path_def)
qed

lemma unix_ends:
  assumes "redisContextConnectUnix M K a t n s = Inr r"
  shows "connect_ends (set (sy_open s)) n r"
proof -
  let ?D = "set (sy_open s)" and ?bl = "REDIS_BLOCK \<in> nc_flags n"
  have "rests ?D (nc_fd n) n s" by (simp add: rests_def)
  obtain q s1 where q: "sys_socket K AF_LOCAL s = (q, s1)" by fastforce
  note so = socket_owned [OF \<open>rests ?D (nc_fd n) n s\<close> q]
  show ?thesis
  proof (cases q)
    case None
    then show ?thesis using assms so q
      by (auto simp: redisContextConnectUnix_def redisCreateSocket_def Let_def connect_ends_def conn_failed_def rests_def redisSetErrorFromErrno_def net_defs redisSetError_def)
  next
    case (Some fd)
    then have o: "owns ?D False (set_fd fd n) s1" "kept n (set_fd fd n)" using so by auto
    show ?thesis using redisSetBlocking_ends [OF o(1), of "nc_fd n" False K]
    proof (cases rule: call_endsE)
      case (1 n2 s2)
      let ?arg = "case a of Own \<Rightarrow> nc_path n2 | Given a \<Rightarrow> Some (cstr a)"
      from assms q Some 1(1) obtain n3 p where 3: "take_timeout M t (take_path M a (n2\<lparr>nc_type := REDIS_CONN_UNIX\<rparr>)) = Inr n3" "?arg = Some p"
          "r = connect_path K ?bl p n3 s2"
        by (auto simp: redisContextConnectUnix_def redisCreateSocket_def Let_def bind_c_Inr_iff split: option.splits)
      have "nc_c n3 = nc_c n2" using take_simps(4) [OF 3(1)] by (simp add: take_simps)
      then have "owns ?D True n3 s2" "kept n n3" using 1(2,3) o(2) by (simp_all add: owns_def kept_def)
      from connect_path_ends [OF this(1) refl this(2)] show ?thesis unfolding 3(3) .
    qed (use assms q Some in \<open>auto simp: redisContextConnectUnix_def redisCreateSocket_def Let_def connect_ends_def\<close>)
  qed
qed

section \<open>Ways to connect\<close>

text \<open>
  What the two ways to connect have in common, and what follows from it for a fresh context: it can be released without
  a trace, and its error tells whether it is connected.
\<close>

locale connector =
  fixes conn :: "net_context \<Rightarrow> sys \<Rightarrow> (int \<times> net_context \<times> sys) c_res"
  assumes ends: "conn n s = Inr r \<Longrightarrow> REDIS_REUSEADDR \<notin> nc_flags n \<Longrightarrow> connect_ends (set (sy_open s)) n r"
begin

lemma fresh_released:
  assumes "conn n s = Inr (ok, n', s')" "REDIS_REUSEADDR \<notin> nc_flags n" "REDIS_CONNECTED \<notin> nc_flags n" "nc_err n = 0" "nc_fd n = 0" "0 \<in> set (sy_open s)"
  shows "(nc_err n' = 0 \<longleftrightarrow> ok = REDIS_OK) \<and> (ok = REDIS_OK \<longrightarrow> REDIS_CONNECTED \<in> nc_flags n' \<and> nc_fd n' \<in> set (sy_open s')) \<and>
    set (sy_open (if nc_fd n' > 0 then sys_close (nc_fd n') s' else s')) = set (sy_open s)"
proof -
  let ?D = "set (sy_open s)" and ?s = "if nc_fd n' > 0 then sys_close (nc_fd n') s' else s'"
  have own: "set (sy_open ?s) = ?D \<and> nc_fd n' \<in> set (sy_open s')" if "owns ?D b n' s'" for b
  proof -
    have "nc_fd n' > 0" "nc_fd n' \<notin> ?D" "set (sy_open s') = insert (nc_fd n') ?D" using that assms(6) unfolding owns_def by (metis order_le_less, blast, blast)
    then show ?thesis by (simp add: net_defs)
  qed
  have "set (sy_open ?s) = ?D" if "rests ?D 0 n' s'"
  proof -
    have "nc_fd n' = -1 \<or> nc_fd n' = 0" "set (sy_open s') = ?D" using that unfolding rests_def by blast+
    then have "\<not> nc_fd n' > 0" by linarith
    then show ?thesis using \<open>set (sy_open s') = ?D\<close> by simp
  qed
  then show ?thesis using ends [OF assms(1,2)] own assms(4,5) unfolding connect_ends_def conn_failed_def by fastforce
qed

end

interpretation tcp: connector "redisContextConnectTcp_raw M K a port t src" for M K a port t src
  by unfold_locales (rule tcp_ends)

interpretation unix_sock: connector "redisContextConnectUnix M K a t" for M K a t
  by unfold_locales (rule unix_ends)

text \<open>None of the calls touches the reader, or another flag than the one for a connection.\<close>

definition reader_of :: "net_context \<Rightarrow> rheap redisReader \<times> bool \<times> redis_flag set" where
  "reader_of n = (rc_reader (nc_c n), nc_has_reader n, nc_flags n - {REDIS_CONNECTED})"

lemma reader_of_set [simp]: "reader_of (set_fd fd n) = reader_of n" "reader_of (nc_error ty t n) = reader_of n" "reader_of (raise_flag REDIS_CONNECTED n) = reader_of n"
  by (simp_all add: reader_of_def set_fd_def nc_error_def raise_flag_def redisSetError_def)

lemma reader_of_calls [simp]:
  "reader_of (fst (redisContextCloseFd n s)) = reader_of n" "reader_of (fst (snd (fail_closing K p n s))) = reader_of n"
  "reader_of (fst (snd (redisSetBlocking K bl n s))) = reader_of n" "reader_of (fst (snd (redisSetTcpNoDelay K n s))) = reader_of n"
  "reader_of (fst (snd (poll_ready K m n s))) = reader_of n" "reader_of (fst (snd (redisContextWaitReady K t n s))) = reader_of n"
proof -
  show 1: "reader_of (fst (redisContextCloseFd n s)) = reader_of n" for n s by (simp add: redisContextCloseFd_def)
  then show 2: "reader_of (fst (snd (fail_closing K p n s))) = reader_of n" for p s by (simp add: fail_closing_def redisSetErrorFromErrno_def)
  show "reader_of (fst (snd (redisSetBlocking K bl n s))) = reader_of n" "reader_of (fst (snd (redisSetTcpNoDelay K n s))) = reader_of n"
    by (simp_all add: redisSetBlocking_def redisSetTcpNoDelay_def 2 split: prod.split bool.split)
  show 3: "reader_of (fst (snd (poll_ready K m n s))) = reader_of n" for m
    by (simp add: poll_ready_def Let_def 2 split: prod.split poll_result.split) (auto simp: redisCheckSocketError_def reader_of_def redisSetError_def split: so_error.splits)
  show "reader_of (fst (snd (redisContextWaitReady K t n s))) = reader_of n" by (simp add: redisContextWaitReady_def 2 3 split: option.split)
qed

lemma reader_of_attempt [simp]:
  "reader_of (fst (snd (finish_connect K bl n s))) = reader_of n" "reader_of (fst (snd (bind_source K hints ru n s))) = reader_of n"
  "reader_of (fst (snd (connect_addr K bl ru ad n s))) = reader_of n" "reader_of (fst (snd (try_addr K hints bl ru p n s))) = reader_of n"
  "reader_of (fst (snd (finish_unix K bl n s))) = reader_of n" "reader_of (fst (snd (connect_path K bl path n s))) = reader_of n"
proof -
  show 1: "reader_of (fst (snd (finish_connect K bl n s))) = reader_of n" for n s bl by (simp add: finish_connect_def case_prod_unfold)
  show 2: "reader_of (fst (snd (bind_source K hints ru n s))) = reader_of n" for n s
    by (simp add: bind_source_def case_prod_unfold split: option.split sum.split bool.split)
  show 3: "reader_of (fst (snd (connect_addr K bl ru ad n s))) = reader_of n" for n s ad
    by (simp add: connect_addr_def case_prod_unfold 1 split: bool.split)
  show "reader_of (fst (snd (try_addr K hints bl ru p n s))) = reader_of n"
    by (simp add: try_addr_def case_prod_unfold 2 3 split: option.split)
  show 4: "reader_of (fst (snd (finish_unix K bl n s))) = reader_of n" for n s bl by (simp add: finish_unix_def case_prod_unfold)
  show "reader_of (fst (snd (connect_path K bl path n s))) = reader_of n"
    by (simp add: connect_path_def case_prod_unfold 4 split: bool.split)
qed

lemma reader_of_loop: "reader_of (fst (snd (addr_loop K hints bl ru r ps n s))) = reader_of n"
proof (induction K hints bl ru r ps n s rule: addr_loop.induct)
  case (2 K hints bl ru r p ps n s)
  obtain at n1 s1 where t: "try_addr K hints bl ru p n s = (at, n1, s1)" by (metis prod_cases3)
  have "reader_of n1 = reader_of n" using reader_of_attempt(4) [of K hints bl ru p n s] t by simp
  then show ?case using 2 t by (cases at) (simp_all add: addr_loop.simps)
qed (simp add: addr_loop.simps)

lemma reader_of_take: "reader_of (take_host M a n) = reader_of n" "reader_of (take_source M b n) = reader_of n" "reader_of (take_path M a n) = reader_of n"
  "take_timeout M t n = Inr n' \<Longrightarrow> reader_of n' = reader_of n"
  by (auto simp: reader_of_def take_host_def take_source_def take_path_def take_timeout_def split: param.splits option.splits if_splits)

lemma tcp_total:
  assumes "mem_ok M 16"
  shows "\<exists>r. redisContextConnectTcp_raw M K a port t src n s = Inr r \<and> reader_of (fst (snd r)) = reader_of n"
proof -
  let ?n = "take_host M a (n\<lparr>nc_type := REDIS_CONN_TCP, nc_port := port\<rparr>)"
  obtain n1 where n1: "take_timeout M t ?n = Inr n1" using take_simps(5) [OF assms] by blast
  have "reader_of n1 = reader_of n" using reader_of_take(4) [OF n1] by (simp add: reader_of_take) (simp add: reader_of_def)
  then show ?thesis using n1
    by (auto simp: redisContextConnectTcp_raw_def Let_def reader_of_loop reader_of_take simp del: split_paired_Ex split: prod.split sum.split)
qed

lemma unix_total:
  assumes "mem_ok M 16"
  shows "\<exists>r. redisContextConnectUnix M K (Given a) t n s = Inr r \<and> reader_of (fst (snd r)) = reader_of n"
proof -
  obtain ok n1 s1 where 1: "redisCreateSocket K AF_LOCAL n s = (ok, n1, s1)" by (metis prod_cases3)
  have r1: "reader_of n1 = reader_of n" using 1
    by (auto simp: redisCreateSocket_def redisSetErrorFromErrno_def Let_def split: prod.splits option.splits)
  obtain ok2 n2 s2 where 2: "redisSetBlocking K False n1 s1 = (ok2, n2, s2)" by (metis prod_cases3)
  have r2: "reader_of n2 = reader_of n1" using reader_of_calls(3) [of K False n1 s1] 2 by simp
  obtain n3 where n3: "take_timeout M t (take_path M (Given a) (n2\<lparr>nc_type := REDIS_CONN_UNIX\<rparr>)) = Inr n3" using take_simps(5) [OF assms] by blast
  have "reader_of n3 = reader_of n2" using reader_of_take(4) [OF n3] by (simp add: reader_of_take) (simp add: reader_of_def)
  then show ?thesis using 1 2 n3 r1 r2 by (simp add: redisContextConnectUnix_def del: split_paired_Ex)
qed

lemma init_granted:
  assumes "\<forall>n. mem_ok M n"
  shows "\<exists>n. net_context_init M = Inr (Some n) \<and> nc_err n = 0 \<and> nc_fd n = 0 \<and> redisReaderFree (rc_reader (nc_c n)) h = Inr h \<and> nc_has_reader n"
  using assms by (auto simp: net_context_init_def redisContextInit_def redisReaderCreate_def redisReaderCreateWithFunctions_def sdsempty_of redisReaderFree_def
      split: option.split)

context connector
begin

lemma connecting_released:
  assumes "\<forall>n. mem_ok M n" "0 \<in> set (sy_open s)" "REDIS_REUSEADDR \<notin> F" "REDIS_CONNECTED \<notin> F"
    "\<And>n s. \<exists>r. conn n s = Inr r \<and> reader_of (fst (snd r)) = reader_of n"
  shows "\<exists>n s' s''. connecting M F conn s = Inr (Some n, s') \<and>
    (nc_err n = 0 \<longrightarrow> REDIS_CONNECTED \<in> nc_flags n \<and> nc_fd n \<in> set (sy_open s') \<and> sy_nonblock s' (nc_fd n) = (REDIS_BLOCK \<notin> nc_flags n)) \<and>
    net_free n h s' = Inr (h, s'') \<and> set (sy_open s'') = set (sy_open s)"
proof -
  obtain n where n: "net_context_init M = Inr (Some n)" "nc_err n = 0" "nc_fd n = 0" "redisReaderFree (rc_reader (nc_c n)) h = Inr h" "nc_has_reader n"
    using init_granted [OF assms(1)] by blast
  let ?n = "n\<lparr>nc_c := (nc_c n)\<lparr>rc_flags := F\<rparr>\<rparr>"
  obtain ok n' s' where c: "conn ?n s = Inr (ok, n', s')" "reader_of n' = reader_of ?n" using assms(5) [of ?n s] by auto
  have f: "nc_err ?n = 0" "nc_fd ?n = 0" "nc_flags ?n = F" using n by simp_all
  note rel = fresh_released [OF c(1)] and e = ends [OF c(1)]
  have m: "nc_err n' = 0 \<Longrightarrow> REDIS_CONNECTED \<in> nc_flags n' \<and> nc_fd n' \<in> set (sy_open s') \<and> sy_nonblock s' (nc_fd n') = (REDIS_BLOCK \<notin> nc_flags n')"
    using e assms(3) f unfolding connect_ends_def by (auto simp: conn_failed_def owns_def)
  have "net_free n' h s' = Inr (h, if nc_fd n' > 0 then sys_close (nc_fd n') s' else s')"
    using n(4,5) c(2) by (simp add: net_free_def reader_of_def redisFree_def)
  moreover have "connecting M F conn s = Inr (Some n', s')" using n(1) c(1) by (simp add: connecting_def)
  ultimately show ?thesis using m rel assms(2-4) f by auto
qed

end

section \<open>Properties\<close>



text \<open>One round of the loop in which the address cannot be used yet: its socket stays open.\<close>

lemma addr_retry:
  assumes "k_call K = (\<lambda>t q. case q of Connect fd ad \<Rightarrow> Some EADDRNOTAVAIL | _ \<Rightarrow> None)" "\<forall>t host. k_addrs K t host None hints = Inr (b # bs)"
  shows "\<exists>s'. try_addr K hints False True p n s = (AddrRetry, set_fd (new_fd (sy_open s)) n, s') \<and> sy_open s' = new_fd (sy_open s) # sy_open s"
  using assms
  by (auto simp: try_addr_def sys_socket_def sys_call_def redisSetBlocking_def bind_source_def getaddrinfo_def connect_addr_def Let_def tick_def set_fd_def split: option.splits)

lemma retry_loop:
  assumes "k_call K = (\<lambda>t q. case q of Connect fd ad \<Rightarrow> Some EADDRNOTAVAIL | _ \<Rightarrow> None)" "\<forall>t host. k_addrs K t host None hints = Inr (b # bs)" "r < 10"
  shows "\<exists>fd s'. addr_loop K hints False True r (p # ps) n s = (REDIS_ERR, set_fd fd n, s') \<and> fd \<notin> set (sy_open s) \<and> 0 \<le> fd \<and> fd \<in> set (sy_open s') \<and>
    card (set (sy_open s')) = card (set (sy_open s)) + (10 - r)"
  using assms(3)
proof (induction "10 - r" arbitrary: r n s)
  case (Suc k)
  obtain s1 where t: "try_addr K hints False True p n s = (AddrRetry, set_fd (new_fd (sy_open s)) n, s1)" "sy_open s1 = new_fd (sy_open s) # sy_open s"
    using addr_retry [OF assms(1,2)] by blast
  have c: "card (set (sy_open s1)) = card (set (sy_open s)) + 1" using t(2) new_fd_fresh(1) by simp
  show ?case
  proof (cases "Suc r \<ge> 10")
    case True
    then have "r = 9" using Suc.prems by simp
    then show ?thesis using t c new_fd_fresh by (auto simp: addr_loop.simps)
  next
    case False
    have "k = 10 - Suc r" "Suc r < 10" using Suc(2) False by simp_all
    from Suc(1) [OF this, of "set_fd (new_fd (sy_open s)) n" s1] obtain fd s' where
      "addr_loop K hints False True (Suc r) (p # ps) (set_fd (new_fd (sy_open s)) n) s1 = (REDIS_ERR, set_fd fd n, s')" "fd \<notin> set (sy_open s1)" "0 \<le> fd"
      "fd \<in> set (sy_open s')" "card (set (sy_open s')) = card (set (sy_open s1)) + (10 - Suc r)" by (auto simp: set_fd_def)
    then show ?thesis using t(1) c False t(2) by (subst addr_loop.simps) auto
  qed
qed simp

text \<open>
  C35: reusing addresses leaks descriptors and hides the failure. When the local address stays in use, every attempt of
  \<^verbatim>\<open>redisConnectBindNonBlockWithReuse\<close> opens a socket, and only the last one is remembered: after ten attempts the
  context is returned without an error and without a connection, and when it is released, nine descriptors remain open.
\<close>

theorem connect_reuse_leaks:
  assumes "k_call K = (\<lambda>t q. case q of Connect fd ad \<Rightarrow> Some EADDRNOTAVAIL | _ \<Rightarrow> None)" "\<forall>t host serv fam. k_addrs K t host serv fam = Inr (b # bs)"
    "\<forall>n. mem_ok M n" "0 \<in> set (sy_open s)"
  shows "\<exists>n s' s''. redisConnectBindNonBlockWithReuse M K ip port src s = Inr (Some n, s') \<and> nc_err n = 0 \<and> REDIS_CONNECTED \<notin> nc_flags n \<and>
    net_free n h s' = Inr (h, s'') \<and> card (set (sy_open s'')) = card (set (sy_open s)) + 9"
proof -
  obtain n where n: "net_context_init M = Inr (Some n)" "nc_err n = 0" "redisReaderFree (rc_reader (nc_c n)) h = Inr h" "nc_has_reader n"
    using init_granted [OF assms(3)] by blast
  let ?n = "n\<lparr>nc_c := (nc_c n)\<lparr>rc_flags := {REDIS_REUSEADDR}\<rparr>, nc_type := REDIS_CONN_TCP, nc_port := port, nc_host := Some (cstr ip), nc_timeout := None, nc_source_addr := Some (cstr src)\<rparr>"
  obtain fd s' where l: "addr_loop K AF_INET False True 0 (b # bs) ?n (tick s) = (REDIS_ERR, set_fd fd ?n, s')" "fd \<notin> set (sy_open s)" "0 \<le> fd" "fd \<in> set (sy_open s')"
      "card (set (sy_open s')) = card (set (sy_open s)) + 10"
    using retry_loop [OF assms(1), of AF_INET b bs 0 b bs ?n "tick s"] assms(2) by (auto simp: net_defs)
  have "redisConnectBindNonBlockWithReuse M K ip port src s = Inr (Some (set_fd fd ?n), s')"
    using n(1) l(1) assms(2,3)
    by (simp add: redisConnectBindNonBlockWithReuse_def connecting_unchecked_def connecting_def redisContextConnectBindTcp_def redisContextConnectTcp_raw_def Let_def
        take_host_def take_timeout_def take_source_def strdup_def server_addrs_def getaddrinfo_def)
  moreover have "0 < fd" using l(2,3) assms(4) by (metis order_le_less)
  then have "net_free (set_fd fd ?n) h s' = Inr (h, sys_close fd s')" using n(3,4) by (simp add: net_free_def set_fd_def redisFree_def)
  moreover have "card (set (sy_open (sys_close fd s'))) = card (set (sy_open s)) + 9" using l(4,5) by (simp add: net_defs)
  ultimately show ?thesis using n(2) by (auto simp: set_fd_def)
qed

theorem connect_reuse_leaks_witness:
  "\<exists>n s' s''. redisConnectBindNonBlockWithReuse granting \<lparr>k_call = (\<lambda>t q. case q of Connect fd ad \<Rightarrow> Some EADDRNOTAVAIL | _ \<Rightarrow> None),
      k_addrs = (\<lambda>t host port fam. Inr [(AF_INET, ''a'')]), k_poll = (\<lambda>t fd m. PollReady), k_so_error = (\<lambda>t fd. SoOk), k_strerror = (\<lambda>e. []), k_gai_strerror = (\<lambda>r. [])\<rparr>
      ''localhost'' 6379 ''10.0.0.1'' \<lparr>sy_calls = 0, sy_errno = EAGAIN, sy_open = [0, 1, 2], sy_nonblock = (\<lambda>fd. False)\<rparr> = Inr (Some n, s') \<and>
    nc_err n = 0 \<and> net_free n [] s' = Inr ([], s'') \<and> card (set (sy_open s'')) = 12"
proof -
  let ?K = "\<lparr>k_call = (\<lambda>t q. case q of Connect fd ad \<Rightarrow> Some EADDRNOTAVAIL | _ \<Rightarrow> None),
      k_addrs = (\<lambda>t host port fam. Inr [(AF_INET, ''a'')]), k_poll = (\<lambda>t fd m. PollReady), k_so_error = (\<lambda>t fd. SoOk), k_strerror = (\<lambda>e. []), k_gai_strerror = (\<lambda>r. [])\<rparr> :: kernel"
  let ?s = "\<lparr>sy_calls = 0, sy_errno = EAGAIN, sy_open = [0, 1, 2], sy_nonblock = (\<lambda>fd. False)\<rparr> :: sys"
  have "k_call ?K = (\<lambda>t q. case q of Connect fd ad \<Rightarrow> Some EADDRNOTAVAIL | _ \<Rightarrow> None)" "\<forall>t host serv fam. k_addrs ?K t host serv fam = Inr [(AF_INET, ''a'')]"
    "\<forall>n. mem_ok granting n" "0 \<in> set (sy_open ?s)" by simp_all
  from connect_reuse_leaks [OF this, of "''localhost''" 6379 "''10.0.0.1''" "[]"] show ?thesis by auto
qed

text \<open>
  C36: a failed reconnect leaves the context with a descriptor that is closed. When the name of the server cannot be
  resolved, \<^verbatim>\<open>redisReconnect\<close> has closed the descriptor but kept its number, and releasing the context closes that
  number a second time: whatever descriptor has taken it in between is gone.
\<close>

theorem reconnect_stale_descriptor:
  assumes "\<forall>t host serv fam. k_addrs K t host serv fam = Inl rv" "\<forall>n. mem_ok M n" "nc_type n = REDIS_CONN_TCP" "0 < nc_fd n" "nc_has_reader n"
    "redisReaderFree (rc_reader (nc_c n)) h = Inr h\<^sub>1"
  shows "\<exists>n' s'. redisReconnect M K n h s = Inr (REDIS_ERR, n', h\<^sub>1, s') \<and> nc_err n' \<noteq> 0 \<and> nc_fd n' = nc_fd n \<and> nc_fd n \<notin> set (sy_open s') \<and>
    (\<forall>s\<^sub>2. \<exists>s\<^sub>3. net_free n' h\<^sub>1 s\<^sub>2 = Inr (h\<^sub>1, s\<^sub>3) \<and> set (sy_open s\<^sub>3) = set (sy_open s\<^sub>2) - {nc_fd n})"
proof -
  obtain m where m: "net_context_init M = Inr (Some m)" "redisReaderFree (rc_reader (nc_c m)) h\<^sub>1 = Inr h\<^sub>1" using init_granted [OF assms(2)] by blast
  obtain ob r where c: "sdsempty M = Inr (Some ob)" "redisReaderCreate M = Inr (Some r)" "rc_reader (nc_c m) = r"
    using m(1) assms(2) by (auto simp: net_context_init_def redisContextInit_def bind_c_Inr_iff split: option.splits)
  let ?n = "n\<lparr>nc_c := (nc_c n)\<lparr>rc_err := 0, rc_errstr := [], rc_obuf := Some ob, rc_reader := r\<rparr>, nc_has_reader := True\<rparr>"
  have "redisReconnect M K n h s = Inr (REDIS_ERR, nc_error REDIS_ERR_OTHER (k_gai_strerror K rv) (?n\<lparr>nc_type := REDIS_CONN_TCP\<rparr>), h\<^sub>1, tick (tick (sys_close (nc_fd n) s)))"
    using assms c by (simp add: redisReconnect_def Let_def redisContextConnectBindTcp_def redisContextConnectTcp_raw_def take_host_def take_timeout_def take_source_def
        server_addrs_def getaddrinfo_def)
  moreover have "net_free (nc_error REDIS_ERR_OTHER (k_gai_strerror K rv) (?n\<lparr>nc_type := REDIS_CONN_TCP\<rparr>)) h\<^sub>1 s\<^sub>2 = Inr (h\<^sub>1, sys_close (nc_fd n) s\<^sub>2)" for s\<^sub>2
    using m(2) c(3) assms(4) by (simp add: net_free_def redisFree_def nc_error_def redisSetError_def)
  ultimately show ?thesis by (simp add: net_defs redisSetError_def)
qed

theorem reconnect_stale_descriptor_witness:
  "\<exists>n n' s'. net_context_init granting = Inr (Some n) \<and>
    redisReconnect granting \<lparr>k_call = (\<lambda>t q. None), k_addrs = (\<lambda>t host port fam. Inl 8), k_poll = (\<lambda>t fd m. PollReady), k_so_error = (\<lambda>t fd. SoOk), k_strerror = (\<lambda>e. []),
      k_gai_strerror = (\<lambda>r. [])\<rparr> (set_fd 3 n) [] \<lparr>sy_calls = 0, sy_errno = EAGAIN, sy_open = [3, 0, 1, 2], sy_nonblock = (\<lambda>fd. False)\<rparr> =
      Inr (REDIS_ERR, n', [], s') \<and> nc_fd n' = 3 \<and> 3 \<notin> set (sy_open s')"
proof -
  let ?K = "\<lparr>k_call = (\<lambda>t q. None), k_addrs = (\<lambda>t host port fam. Inl 8), k_poll = (\<lambda>t fd m. PollReady), k_so_error = (\<lambda>t fd. SoOk), k_strerror = (\<lambda>e. []),
      k_gai_strerror = (\<lambda>r. [])\<rparr> :: kernel"
  have "\<forall>n. mem_ok granting n" by simp
  from init_granted [OF this] obtain n where n: "net_context_init granting = Inr (Some n)" "redisReaderFree (rc_reader (nc_c n)) [] = Inr []" "nc_has_reader n" by blast
  have "nc_type (set_fd 3 n) = REDIS_CONN_TCP" "0 < nc_fd (set_fd 3 n)" "nc_has_reader (set_fd 3 n)" "redisReaderFree (rc_reader (nc_c (set_fd 3 n))) [] = Inr []"
    using n by (auto simp: set_fd_def net_context_init_def bind_c_Inr_iff)
  from reconnect_stale_descriptor [OF _ \<open>\<forall>n. mem_ok granting n\<close> this, of ?K 8 "\<lparr>sy_calls = 0, sy_errno = EAGAIN, sy_open = [3, 0, 1, 2], sy_nonblock = (\<lambda>fd. False)\<rparr>"]
  show ?thesis using n(1) by (auto simp: set_fd_def)
qed

end
