(* ===== verification/Dict.thy ===== *)
theory Dict
  imports Hi_Prelude
begin

text \<open>
  The hash tables of \<^verbatim>\<open>src/dict.c\<close>, which hold the nodes of a cluster and the callbacks of
  subscriptions. A chain is the list of its entries; a pointer to an entry is the entry. \<^verbatim>\<open>dictType\<close> is a
  record of functions, \<^verbatim>\<open>None\<close> for a \<^verbatim>\<open>NULL\<close> member; of the destructors only the calls are observed, as the
  list of what was handed to them. The allocations are not checked by the code: where one is refused, the
  first use is a fault.

  The abstraction is a finite map. The locale \<open>dict_keys\<close> is what the tables rely on: that keys are
  compared by content and that a copied key is the key.
\<close>

section \<open>Types\<close>

abbreviation (input) DICT_OK :: int where "DICT_OK \<equiv> 0"
abbreviation (input) DICT_ERR :: int where "DICT_ERR \<equiv> 1"

type_synonym ('k, 'v) entry = "'k \<times> 'v"

record ('k, 'v) dictType =
  dt_hashFunction :: "'k \<Rightarrow> u32"
  dt_keyDup :: "('k \<Rightarrow> 'k) option"
  dt_valDup :: "('v \<Rightarrow> 'v) option"
  dt_keyCompare :: "('k \<Rightarrow> 'k \<Rightarrow> bool) option"
  dt_keyDestructor :: bool
  dt_valDestructor :: bool

record ('k, 'v) dict =
  d_table :: "('k, 'v) entry list list option"
  d_size :: nat
  d_sizemask :: nat
  d_used :: nat

datatype ('k, 'v) released = Key 'k | Val 'v

definition dictGenHashFunction :: "bytes \<Rightarrow> u32" where
  "dictGenHashFunction buf = foldl (\<lambda>hash c. (push_bit 5 hash + hash) + of_nat (char_code c)) 5381 buf"

definition keys_equal :: "('k, 'v) dictType \<Rightarrow> 'k \<Rightarrow> 'k \<Rightarrow> bool" where
  "keys_equal T a b = (case dt_keyCompare T of Some cmp \<Rightarrow> cmp a b | None \<Rightarrow> a = b)"

definition hash_key :: "('k, 'v) dictType \<Rightarrow> nat \<Rightarrow> 'k \<Rightarrow> nat" where
  "hash_key T msk k = and (unat (dt_hashFunction T k)) msk"

definition dup_key :: "('k, 'v) dictType \<Rightarrow> 'k \<Rightarrow> 'k" where
  "dup_key T k = (case dt_keyDup T of Some f \<Rightarrow> f k | None \<Rightarrow> k)"

definition dup_val :: "('k, 'v) dictType \<Rightarrow> 'v \<Rightarrow> 'v" where
  "dup_val T v = (case dt_valDup T of Some f \<Rightarrow> f v | None \<Rightarrow> v)"

definition free_key :: "('k, 'v) dictType \<Rightarrow> 'k \<Rightarrow> ('k, 'v) released list" where
  "free_key T k = (if dt_keyDestructor T then [Key k] else [])"

definition free_val :: "('k, 'v) dictType \<Rightarrow> 'v \<Rightarrow> ('k, 'v) released list" where
  "free_val T v = (if dt_valDestructor T then [Val v] else [])"

section \<open>Creating and growing\<close>

definition dictReset :: "('k, 'v) dict" where
  "dictReset = \<lparr>d_table = None, d_size = 0, d_sizemask = 0, d_used = 0\<rparr>"

definition dictCreate :: "mem \<Rightarrow> ('k, 'v) dict c_res" where
  "dictCreate M = (if mem_ok M 48 then Inr dictReset else Inl NullDeref)"

text \<open>\<open>i\<close> starts at 4 and only doubles, so it is not 0.\<close>

function next_power :: "nat \<Rightarrow> nat \<Rightarrow> nat" where
  "next_power i size' = (if i \<ge> size' \<or> i = 0 then i else next_power (i * 2) size')"
  by pat_completeness auto
termination by (relation "measure (\<lambda>(i, size'). size' - i)") auto

declare next_power.simps [simp del]

definition dictNextPower :: "nat \<Rightarrow> nat" where
  "dictNextPower size' = (if size' \<ge> 2 ^ 63 - 1 then 2 ^ 63 - 1 else next_power 4 size')"

fun rehash_chain :: "('k, 'v) dictType \<Rightarrow> nat \<Rightarrow> ('k, 'v) entry list \<Rightarrow> ('k, 'v) entry list list option \<Rightarrow> nat \<Rightarrow>
    (('k, 'v) entry list list option \<times> nat) c_res" where
  "rehash_chain T msk [] tab used = Inr (tab, used)"
| "rehash_chain T msk (e # es) None used = Inl NullDeref"
| "rehash_chain T msk (e # es) (Some tab) used =
     (let h = hash_key T msk (fst e) in
      bind_c (rd tab h) (\<lambda>c. rehash_chain T msk es (Some (tab[h := e # c])) (size64 (int used - 1))))"

fun rehash_table :: "('k, 'v) dictType \<Rightarrow> nat \<Rightarrow> ('k, 'v) entry list list \<Rightarrow> ('k, 'v) entry list list option \<Rightarrow> nat \<Rightarrow>
    (('k, 'v) entry list list option \<times> nat) c_res" where
  "rehash_table T msk [] tab used = Inr (tab, used)"
| "rehash_table T msk (c # cs) tab used =
     (if used > 0 then bind_c (rehash_chain T msk c tab used) (\<lambda>(tab, used). rehash_table T msk cs tab used)
      else Inr (tab, used))"

definition chains :: "('k, 'v) dict \<Rightarrow> ('k, 'v) entry list list" where
  "chains d = (case d_table d of None \<Rightarrow> [] | Some t \<Rightarrow> take (d_size d) t)"

definition dictExpand :: "mem \<Rightarrow> ('k, 'v) dictType \<Rightarrow> ('k, 'v) dict \<Rightarrow> nat \<Rightarrow> (int \<times> ('k, 'v) dict) c_res" where
  "dictExpand M T d size' =
     (let realsize = dictNextPower size' in
      if d_used d > size' then Inr (DICT_ERR, d)
      else
        (let tab = if mem_ok M (size64 (int (realsize * 8))) then Some (replicate realsize []) else None in
         bind_c (rehash_table T (realsize - 1) (chains d) tab (d_used d)) (\<lambda>(tab, used).
           bind_c (assert_c (used = 0)) (\<lambda>_.
             Inr (DICT_OK, \<lparr>d_table = tab, d_size = realsize, d_sizemask = realsize - 1, d_used = d_used d\<rparr>)))))"

definition dictExpandIfNeeded :: "mem \<Rightarrow> ('k, 'v) dictType \<Rightarrow> ('k, 'v) dict \<Rightarrow> (int \<times> ('k, 'v) dict) c_res" where
  "dictExpandIfNeeded M T d =
     (if d_size d = 0 then dictExpand M T d 4
      else if d_used d = d_size d then dictExpand M T d (size64 (int (d_size d * 2)))
      else Inr (DICT_OK, d))"

section \<open>Operations\<close>

definition dict_chain :: "('k, 'v) dict \<Rightarrow> nat \<Rightarrow> ('k, 'v) entry list c_res" where
  "dict_chain d h = (case d_table d of None \<Rightarrow> Inl NullDeref | Some t \<Rightarrow> rd t h)"

definition set_chain :: "('k, 'v) dict \<Rightarrow> nat \<Rightarrow> ('k, 'v) entry list \<Rightarrow> ('k, 'v) dict" where
  "set_chain d h c = d\<lparr>d_table := map_option (\<lambda>t. t[h := c]) (d_table d)\<rparr>"

fun chain_find :: "('k, 'v) dictType \<Rightarrow> 'k \<Rightarrow> ('k, 'v) entry list \<Rightarrow> ('k, 'v) entry option" where
  "chain_find T k [] = None"
| "chain_find T k (e # es) = (if keys_equal T k (fst e) then Some e else chain_find T k es)"

definition dictFind :: "('k, 'v) dictType \<Rightarrow> ('k, 'v) dict \<Rightarrow> 'k \<Rightarrow> ('k, 'v) entry option c_res" where
  "dictFind T d k =
     (if d_size d = 0 then Inr None
      else bind_c (dict_chain d (hash_key T (d_sizemask d) k)) (\<lambda>c. Inr (chain_find T k c)))"

definition dictKeyIndex :: "mem \<Rightarrow> ('k, 'v) dictType \<Rightarrow> ('k, 'v) dict \<Rightarrow> 'k \<Rightarrow> (int \<times> ('k, 'v) dict) c_res" where
  "dictKeyIndex M T d k =
     bind_c (dictExpandIfNeeded M T d) (\<lambda>(st, d).
       if st = DICT_ERR then Inr (-1, d)
       else
         (let h = hash_key T (d_sizemask d) k in
          bind_c (dict_chain d h) (\<lambda>c.
            Inr (if chain_find T k c \<noteq> None then -1 else int32 (int h), d))))"

definition dictAdd :: "mem \<Rightarrow> ('k, 'v) dictType \<Rightarrow> ('k, 'v) dict \<Rightarrow> 'k \<Rightarrow> 'v \<Rightarrow> (int \<times> ('k, 'v) dict) c_res" where
  "dictAdd M T d k v =
     bind_c (dictKeyIndex M T d k) (\<lambda>(i, d).
       if i = -1 then Inr (DICT_ERR, d)
       else if \<not> mem_ok M 24 then Inl NullDeref
       else if i < 0 then Inl OutOfBounds
       else
         bind_c (dict_chain d (nat i)) (\<lambda>c.
           Inr (DICT_OK, (set_chain d (nat i) ((dup_key T k, dup_val T v) # c))
                           \<lparr>d_used := size64 (int (d_used d) + 1)\<rparr>)))"

text \<open>A store to the value of the entry that \<^verbatim>\<open>dictFind\<close> returned.\<close>

fun chain_set :: "('k, 'v) dictType \<Rightarrow> 'k \<Rightarrow> 'v \<Rightarrow> ('k, 'v) entry list \<Rightarrow> ('k, 'v) entry list" where
  "chain_set T k v [] = []"
| "chain_set T k v (e # es) = (if keys_equal T k (fst e) then (fst e, v) # es else e # chain_set T k v es)"

definition dictSetVal :: "('k, 'v) dictType \<Rightarrow> ('k, 'v) dict \<Rightarrow> 'k \<Rightarrow> 'v \<Rightarrow> ('k, 'v) dict c_res" where
  "dictSetVal T d k v =
     (let h = hash_key T (d_sizemask d) k in
      bind_c (dict_chain d h) (\<lambda>c. Inr (set_chain d h (chain_set T k (dup_val T v) c))))"

definition dictReplace :: "mem \<Rightarrow> ('k, 'v) dictType \<Rightarrow> ('k, 'v) dict \<Rightarrow> 'k \<Rightarrow> 'v \<Rightarrow>
    (int \<times> ('k, 'v) dict \<times> ('k, 'v) released list) c_res" where
  "dictReplace M T d k v =
     bind_c (dictAdd M T d k v) (\<lambda>(st, d).
       if st = DICT_OK then Inr (1, d, [])
       else
         bind_c (dictFind T d k) (\<lambda>e.
           case e of
             None \<Rightarrow> Inl NullDeref
           | Some aux \<Rightarrow> bind_c (dictSetVal T d k v) (\<lambda>d. Inr (0, d, free_val T (snd aux)))))"

fun chain_remove :: "('k, 'v) dictType \<Rightarrow> 'k \<Rightarrow> ('k, 'v) entry list \<Rightarrow> ('k, 'v) entry list" where
  "chain_remove T k [] = []"
| "chain_remove T k (e # es) = (if keys_equal T k (fst e) then es else e # chain_remove T k es)"

definition dictDelete :: "('k, 'v) dictType \<Rightarrow> ('k, 'v) dict \<Rightarrow> 'k \<Rightarrow>
    (int \<times> ('k, 'v) dict \<times> ('k, 'v) released list) c_res" where
  "dictDelete T d k =
     (if d_size d = 0 then Inr (DICT_ERR, d, [])
      else
        (let h = hash_key T (d_sizemask d) k in
         bind_c (dict_chain d h) (\<lambda>c.
           case chain_find T k c of
             None \<Rightarrow> Inr (DICT_ERR, d, [])
           | Some e \<Rightarrow>
               Inr (DICT_OK, (set_chain d h (chain_remove T k c))\<lparr>d_used := size64 (int (d_used d) - 1)\<rparr>,
                    free_key T (fst e) @ free_val T (snd e)))))"

fun clear_table :: "('k, 'v) dictType \<Rightarrow> ('k, 'v) entry list list \<Rightarrow> nat \<Rightarrow> ('k, 'v) released list" where
  "clear_table T [] used = []"
| "clear_table T (c # cs) used =
     (if used > 0 then concat (map (\<lambda>e. free_key T (fst e) @ free_val T (snd e)) c) @
        clear_table T cs (size64 (int used - int (length c)))
      else [])"

definition dictClear :: "('k, 'v) dictType \<Rightarrow> ('k, 'v) dict \<Rightarrow> ('k, 'v) dict \<times> ('k, 'v) released list" where
  "dictClear T d = (dictReset, clear_table T (chains d) (d_used d))"

definition dictRelease :: "('k, 'v) dictType \<Rightarrow> ('k, 'v) dict \<Rightarrow> ('k, 'v) released list" where
  "dictRelease T d = snd (dictClear T d)"

section \<open>Iterators\<close>

text \<open>\<open>it_next\<close> is the chain from \<^verbatim>\<open>nextEntry\<close> on.\<close>

record ('k, 'v) dictIterator =
  it_index :: int
  it_entry :: "('k, 'v) entry option"
  it_next :: "('k, 'v) entry list"

definition dictGetIterator :: "mem \<Rightarrow> ('k, 'v) dictIterator c_res" where
  "dictGetIterator M = (if mem_ok M 32 then Inr \<lparr>it_index = -1, it_entry = None, it_next = []\<rparr> else Inl NullDeref)"

function dictNext :: "('k, 'v) dict \<Rightarrow> ('k, 'v) dictIterator \<Rightarrow> (('k, 'v) entry option \<times> ('k, 'v) dictIterator) c_res" where
  "dictNext d it =
     (case it_entry it of
        None \<Rightarrow>
          (let i = it_index it + 1 in
           if i \<ge> int32 (int (d_size d)) then Inr (None, it\<lparr>it_index := i\<rparr>)
           else if i < 0 then Inl OutOfBounds
           else
             bind_c (dict_chain d (nat i)) (\<lambda>c.
               case c of
                 [] \<Rightarrow> dictNext d (it\<lparr>it_index := i\<rparr>)
               | e # r \<Rightarrow> Inr (Some e, it\<lparr>it_index := i, it_entry := Some e, it_next := r\<rparr>)))
      | Some _ \<Rightarrow>
          (case it_next it of
             [] \<Rightarrow> dictNext d (it\<lparr>it_entry := None\<rparr>)
           | e # r \<Rightarrow> Inr (Some e, it\<lparr>it_entry := Some e, it_next := r\<rparr>)))"
  by pat_completeness auto
termination
  by (relation "measure (\<lambda>(d, it). 2 * nat (int32 (int (d_size d)) - it_index it) + (if it_entry it = None then 0 else 1))") auto

declare dictNext.simps [simp del]

section \<open>Invariant and abstraction\<close>

definition table_ok :: "('k, 'v) dictType \<Rightarrow> nat \<Rightarrow> ('k, 'v) entry list list \<Rightarrow> bool" where
  "table_ok T msk t \<longleftrightarrow>
     (\<forall>h < length t. distinct (map fst (t ! h)) \<and> (\<forall>e \<in> set (t ! h). hash_key T msk (fst e) = h))"

definition dict_ok :: "('k, 'v) dictType \<Rightarrow> ('k, 'v) dict \<Rightarrow> bool" where
  "dict_ok T d \<longleftrightarrow> d = dictReset \<or>
     (\<exists>p t. 2 \<le> p \<and> d_size d = 2 ^ p \<and> d_sizemask d = 2 ^ p - 1 \<and> d_table d = Some t \<and> length t = 2 ^ p \<and>
        table_ok T (2 ^ p - 1) t \<and> d_used d = sum_list (map length t))"

text \<open>The finite map a table stands for.\<close>

definition dict_map :: "('k, 'v) dict \<Rightarrow> 'k \<rightharpoonup> 'v" where
  "dict_map d = map_of (concat (chains d))"

definition bucket_map :: "('k, 'v) dictType \<Rightarrow> nat \<Rightarrow> ('k, 'v) entry list list \<Rightarrow> 'k \<rightharpoonup> 'v" where
  "bucket_map T msk t k = map_of (t ! hash_key T msk k) k"

lemma hash_key_less: "hash_key T (2 ^ p - 1) k < 2 ^ p"
proof -
  have "hash_key T (2 ^ p - 1) k = take_bit p (unat (dt_hashFunction T k))"
    by (simp add: hash_key_def take_bit_eq_mask mask_eq_exp_minus_1)
  then show ?thesis by simp
qed

lemma map_of_concat_bucket:
  assumes "i < length t" "\<And>j e. j < length t \<Longrightarrow> e \<in> set (t ! j) \<Longrightarrow> fst e = k \<Longrightarrow> j = i"
  shows "map_of (concat t) k = map_of (t ! i) k"
proof -
  have "map_of (concat s) k = None" if "\<And>c. c \<in> set s \<Longrightarrow> k \<notin> fst ` set c" for s
    using that by (induction s) (auto simp: map_of_eq_None_iff)
  moreover have "k \<notin> fst ` set c" if "c \<in> set (take i t) \<or> c \<in> set (drop (Suc i) t)" for c
    using that assms(2)
  proof (elim disjE)
    assume "c \<in> set (take i t)"
    then obtain j where "j < i" "c = t ! j" using assms(1) by (auto simp: in_set_conv_nth)
    then show ?thesis using assms(1) assms(2) [of j] by fastforce
  next
    assume "c \<in> set (drop (Suc i) t)"
    then obtain j where "j < length (drop (Suc i) t)" "c = drop (Suc i) t ! j" unfolding in_set_conv_nth by blast
    then have "Suc i + j < length t" "c = t ! (Suc i + j)" by simp_all
    then show ?thesis using assms(2) [of "Suc i + j"] by fastforce
  qed
  ultimately have n: "map_of (concat (take i t)) k = None" "map_of (concat (drop (Suc i) t)) k = None" by blast+
  have "concat t = concat (take i t) @ t ! i @ concat (drop (Suc i) t)"
    using id_take_nth_drop [OF assms(1)] by (metis concat.simps(2) concat_append)
  then show ?thesis using n by (simp add: map_add_def split: option.splits)
qed

lemma map_of_table:
  assumes "table_ok T msk t" "hash_key T msk k < length t"
  shows "map_of (concat t) k = bucket_map T msk t k"
  unfolding bucket_map_def using assms by (intro map_of_concat_bucket) (auto simp: table_ok_def)

lemma dict_map_eq:
  assumes "d_size d = 2 ^ p" "d_table d = Some t" "length t = 2 ^ p" "table_ok T (2 ^ p - 1) t"
  shows "dict_map d = bucket_map T (2 ^ p - 1) t"
proof
  fix k show "dict_map d k = bucket_map T (2 ^ p - 1) t k"
    using map_of_table [OF assms(4), of k] hash_key_less [of T p k] assms by (simp add: dict_map_def chains_def)
qed

lemma dict_map_reset [simp]: "dict_map dictReset = Map.empty"
  by (simp add: dict_map_def chains_def dictReset_def)

lemma table_ok_update:
  assumes "table_ok T msk t" "distinct (map fst c)" "\<forall>e \<in> set c. hash_key T msk (fst e) = h"
  shows "table_ok T msk (t[h := c])"
  unfolding table_ok_def
proof (intro allI impI)
  fix i assume "i < length (t[h := c])"
  then show "distinct (map fst (t[h := c] ! i)) \<and> (\<forall>e \<in> set (t[h := c] ! i). hash_key T msk (fst e) = i)"
    using assms by (cases "i = h") (auto simp: table_ok_def)
qed

lemma bucket_map_update:
  assumes "h < length t"
  shows "bucket_map T msk (t[h := c]) k = (if hash_key T msk k = h then map_of c k else bucket_map T msk t k)"
  using assms by (auto simp: bucket_map_def)

lemma sum_length_update:
  "h < length t \<Longrightarrow> length c + sum_list (map length t) = sum_list (map length (t[h := c])) + length (t ! h)"
proof (induction t arbitrary: h)
  case (Cons a t)
  then show ?case by (cases h) auto
qed simp

lemma table_distinct_aux:
  assumes "\<And>h. h < length t \<Longrightarrow> distinct (map fst (t ! h))" "\<And>h e. h < length t \<Longrightarrow> e \<in> set (t ! h) \<Longrightarrow> f (fst e) = h + off"
  shows "distinct (map fst (concat t))"
  using assms
proof (induction t arbitrary: off)
  case (Cons c t)
  have d: "distinct (map fst (concat t))"
    using Cons.prems(1) [of "Suc _"] Cons.prems(2) [of "Suc _"] by (intro Cons.IH [of "Suc off"]) auto
  have ne: "fst e \<noteq> fst e'" if a: "e \<in> set c" "e' \<in> set (concat t)" for e e'
  proof -
    obtain h where "h < length t" "e' \<in> set (t ! h)" using a(2) by (metis in_set_conv_nth set_concat UN_E)
    then have "f (fst e') = Suc h + off" using Cons.prems(2) [of "Suc h" e'] by simp
    then show ?thesis using Cons.prems(2) [of 0 e] a(1) by auto
  qed
  have "fst ` set c \<inter> fst ` set (concat t) = {}" using ne by (force simp del: set_concat)
  then show ?case using d Cons.prems(1) [of 0] by (simp del: set_concat)
qed simp

lemma table_distinct: "table_ok T msk t \<Longrightarrow> distinct (map fst (concat t))"
  by (rule table_distinct_aux [where f = "hash_key T msk" and off = 0]) (auto simp: table_ok_def)

lemma next_power_exp: "a \<le> p \<Longrightarrow> next_power (2 ^ a) (2 ^ p) = 2 ^ p"
proof (induction "p - a" arbitrary: a)
  case 0
  then show ?case by (simp add: next_power.simps [of "2 ^ a"])
next
  case (Suc x)
  then have "next_power (2 ^ Suc a) (2 ^ p) = 2 ^ p" by (intro Suc.hyps(1)) auto
  moreover have "\<not> (2::nat) ^ p \<le> 2 ^ a" using Suc.hyps(2) by simp
  ultimately show ?case by (simp add: next_power.simps [of "2 ^ a"] mult.commute)
qed

lemma dictNextPower_exp: "2 \<le> p \<Longrightarrow> p < 63 \<Longrightarrow> dictNextPower (2 ^ p) = 2 ^ p"
proof -
  assume p: "2 \<le> p" "p < 63"
  have "(2::nat) ^ p \<le> 2 ^ 62" using p(2) by (intro power_increasing) auto
  then show ?thesis using next_power_exp [of 2 p] p(1) by (simp add: dictNextPower_def)
qed
section \<open>The operations on the map\<close>

locale dict_keys =
  fixes T :: "('k, 'v) dictType"
  assumes compare: "keys_equal T a b \<longleftrightarrow> a = b"
    and dup_key: "dup_key T k = k"
begin

lemma chain_find_map_of: "chain_find T k c = map_option (Pair k) (map_of c k)"
  by (induction c) (auto simp: compare)

lemma chain_push:
  assumes "table_ok T msk t" "h = hash_key T msk k" "h < length t" "bucket_map T msk t k = None"
  shows "table_ok T msk (t[h := (k, v) # t ! h])" "bucket_map T msk (t[h := (k, v) # t ! h]) = (bucket_map T msk t)(k \<mapsto> v)"
proof -
  have "k \<notin> fst ` set (t ! h)" using assms(2,4) by (simp add: bucket_map_def map_of_eq_None_iff)
  then show "table_ok T msk (t[h := (k, v) # t ! h])"
    using assms(1-3) by (intro table_ok_update) (auto simp: table_ok_def)
  show "bucket_map T msk (t[h := (k, v) # t ! h]) = (bucket_map T msk t)(k \<mapsto> v)"
    using assms(2,3) by (intro ext) (simp add: bucket_map_update, auto simp: bucket_map_def)
qed

lemma rehash_chain_ok:
  assumes "table_ok T (2 ^ p - 1) tab" "length tab = 2 ^ p" "distinct (map fst es)"
    "\<forall>e \<in> set es. bucket_map T (2 ^ p - 1) tab (fst e) = None" "length es \<le> used" "used < 2 ^ 64"
  shows "\<exists>tab'. rehash_chain T (2 ^ p - 1) es (Some tab) used = Inr (Some tab', used - length es) \<and> length tab' = 2 ^ p \<and>
    table_ok T (2 ^ p - 1) tab' \<and> bucket_map T (2 ^ p - 1) tab' = bucket_map T (2 ^ p - 1) tab ++ map_of es \<and>
    sum_list (map length tab') = sum_list (map length tab) + length es"
  using assms
proof (induction es arbitrary: tab used)
  case (Cons e es)
  obtain k v where e: "e = (k, v)" by fastforce
  let ?m = "2 ^ p - 1" let ?h = "hash_key T ?m k" let ?t = "tab[?h := (k, v) # tab ! ?h]"
  have h: "?h < length tab" using hash_key_less [of T p k] Cons.prems(2) by simp
  have n: "bucket_map T ?m tab k = None" using Cons.prems(4) e by simp
  note push = chain_push [OF Cons.prems(1) refl h n, of v]
  have u: "size64 (int used - 1) = used - 1"
    using Cons.prems(5,6) by (subst size64_id) auto
  have none: "\<forall>e \<in> set es. bucket_map T ?m ?t (fst e) = None"
    unfolding push(2) using Cons.prems(3,4) e by auto
  have "length ?t = 2 ^ p" "distinct (map fst es)" "length es \<le> used - 1" "used - 1 < 2 ^ 64" using Cons.prems(2,3,5,6) by auto
  from Cons.IH [OF push(1) this(1,2) none this(3,4)] obtain tab' where tab': "rehash_chain T ?m es (Some ?t) (used - 1) = Inr (Some tab', used - 1 - length es)" "length tab' = 2 ^ p"
      "table_ok T ?m tab'" "bucket_map T ?m tab' = bucket_map T ?m ?t ++ map_of es"
      "sum_list (map length tab') = sum_list (map length ?t) + length es"
    by blast
  have "bucket_map T ?m ?t ++ map_of es = bucket_map T ?m tab ++ map_of (e # es)"
  proof -
    have "map_of es k = None" using Cons.prems(3) e by (auto simp: map_of_eq_None_iff)
    then show ?thesis unfolding push(2) e by (auto simp: map_add_def fun_eq_iff split: option.splits)
  qed
  with tab'(4) have "bucket_map T ?m tab' = bucket_map T ?m tab ++ map_of (e # es)" by (simp only:)
  moreover have "sum_list (map length ?t) = Suc (sum_list (map length tab))"
    using sum_length_update [OF h, of "(k, v) # tab ! ?h"] by simp
  moreover have "rehash_chain T ?m (e # es) (Some tab) used = Inr (Some tab', used - length (e # es))"
    using tab'(1) h u e by (simp add: Let_def)
  ultimately show ?case using tab'(2,3,5) by (intro exI [of _ tab']) (simp del: rehash_chain.simps map_of.simps)
qed simp

lemma rehash_table_ok:
  assumes "table_ok T (2 ^ p - 1) tab" "length tab = 2 ^ p" "distinct (map fst (concat cs))"
    "\<forall>e \<in> set (concat cs). bucket_map T (2 ^ p - 1) tab (fst e) = None" "length (concat cs) < 2 ^ 64"
  shows "\<exists>tab'. rehash_table T (2 ^ p - 1) cs (Some tab) (length (concat cs)) = Inr (Some tab', 0) \<and> length tab' = 2 ^ p \<and>
    table_ok T (2 ^ p - 1) tab' \<and> bucket_map T (2 ^ p - 1) tab' = bucket_map T (2 ^ p - 1) tab ++ map_of (concat cs) \<and>
    sum_list (map length tab') = sum_list (map length tab) + length (concat cs)"
  using assms
proof (induction cs arbitrary: tab)
  case (Cons c cs)
  let ?m = "2 ^ p - 1"
  show ?case
  proof (cases "concat (c # cs) = []")
    case True
    then show ?thesis unfolding True using Cons.prems(1,2) by (intro exI [of _ tab]) simp
  next
    case False
    obtain tab1 where tab1: "rehash_chain T ?m c (Some tab) (length (concat (c # cs))) = Inr (Some tab1, length (concat cs))"
        "length tab1 = 2 ^ p" "table_ok T ?m tab1" "bucket_map T ?m tab1 = bucket_map T ?m tab ++ map_of c"
        "sum_list (map length tab1) = sum_list (map length tab) + length c"
      using rehash_chain_ok [OF Cons.prems(1,2), of c "length (concat (c # cs))"] Cons.prems(3-5) by auto
    have "\<forall>e \<in> set (concat cs). bucket_map T ?m tab1 (fst e) = None"
    proof
      fix e assume e: "e \<in> set (concat cs)"
      then have "fst e \<notin> fst ` set c" using Cons.prems(3) by (auto simp del: set_concat simp: disjoint_iff)
      then have "map_of c (fst e) = None" by (simp add: map_of_eq_None_iff)
      then show "bucket_map T ?m tab1 (fst e) = None" unfolding tab1(4) using Cons.prems(4) e by (simp add: map_add_def del: set_concat)
    qed
    then obtain tab2 where "rehash_table T ?m cs (Some tab1) (length (concat cs)) = Inr (Some tab2, 0)" "length tab2 = 2 ^ p"
        "table_ok T ?m tab2" "bucket_map T ?m tab2 = bucket_map T ?m tab1 ++ map_of (concat cs)"
        "sum_list (map length tab2) = sum_list (map length tab1) + length (concat cs)"
      using Cons.IH [OF tab1(3,2)] Cons.prems(3,5) by auto
    moreover have "bucket_map T ?m tab ++ map_of c ++ map_of (concat cs) = bucket_map T ?m tab ++ map_of (concat (c # cs))"
    proof -
      have "dom (map_of c) \<inter> dom (map_of (concat cs)) = {}" using Cons.prems(3) by (auto simp: dom_map_of_conv_image_fst)
      from map_add_comm [OF this] have "map_of (concat (c # cs)) = map_of c ++ map_of (concat cs)" by simp
      then show ?thesis by (simp only: map_add_assoc)
    qed
    ultimately show ?thesis using tab1 False by (intro exI [of _ tab2]) simp
  qed
qed simp

lemma table_grow:
  assumes "2 \<le> p" "p < 61" "\<forall>n. mem_ok M n" "distinct (map fst (concat (chains d)))" "d_used d = length (concat (chains d))"
    "d_used d \<le> 2 ^ p"
  shows "\<exists>d'. dictExpand M T d (2 ^ p) = Inr (DICT_OK, d') \<and> dict_ok T d' \<and> dict_map d' = dict_map d \<and> d_size d' = 2 ^ p \<and>
    d_used d' = d_used d"
proof -
  let ?m = "2 ^ p - 1" let ?tab = "replicate (2 ^ p) [] :: ('k, 'v) entry list list"
  have empty: "table_ok T ?m ?tab" "bucket_map T ?m ?tab = Map.empty" "sum_list (map length ?tab) = 0"
    using hash_key_less [of T p] by (auto simp: table_ok_def bucket_map_def sum_list_replicate)
  have "(2::nat) ^ p < 2 ^ 64" using assms(2) by (intro power_strict_increasing) auto
  then have "length (concat (chains d)) < 2 ^ 64" using assms(5,6) by simp
  then obtain tab where tab: "rehash_table T ?m (chains d) (Some ?tab) (d_used d) = Inr (Some tab, 0)" "length tab = 2 ^ p"
      "table_ok T ?m tab" "bucket_map T ?m tab = map_of (concat (chains d))" "sum_list (map length tab) = d_used d"
    using rehash_table_ok [OF empty(1), of "chains d"] assms(4,5) empty(2,3) by auto
  let ?d = "\<lparr>d_table = Some tab, d_size = 2 ^ p, d_sizemask = ?m, d_used = d_used d\<rparr>"
  have "dictExpand M T d (2 ^ p) = Inr (DICT_OK, ?d)"
    using assms(1-3,6) tab(1) dictNextPower_exp [of p] by (simp add: dictExpand_def Let_def)
  moreover have "dict_map ?d = dict_map d"
    using dict_map_eq [of ?d p tab T] tab(2-4) by (simp add: dict_map_def)
  moreover have "dict_ok T ?d" using assms(1) tab(2,3,5) by (auto simp: dict_ok_def)
  ultimately show ?thesis by auto
qed

text \<open>A table that is not empty.\<close>

lemma dict_ok_cases:
  assumes "dict_ok T d"
  obtains (empty) "d = dictReset"
  | (table) p t where "2 \<le> p" "d_size d = 2 ^ p" "d_sizemask d = 2 ^ p - 1" "d_table d = Some t" "length t = 2 ^ p"
      "table_ok T (2 ^ p - 1) t" "d_used d = sum_list (map length t)" "dict_map d = bucket_map T (2 ^ p - 1) t" "d_size d \<noteq> 0"
  using assms dict_map_eq [of d] unfolding dict_ok_def by fastforce

lemma dictFind_law:
  assumes "dict_ok T d"
  shows "dictFind T d k = Inr (map_option (Pair k) (dict_map d k))"
  using assms
proof (cases rule: dict_ok_cases)
  case (table p t)
  then show ?thesis using hash_key_less [of T p k]
    by (simp add: dictFind_def dict_chain_def chain_find_map_of bucket_map_def)
qed (simp add: dictFind_def dictReset_def dict_map_def chains_def)

lemma dict_expand_law:
  assumes "dict_ok T d" "d_size d < 2 ^ 30" "\<forall>n. mem_ok M n"
  shows "\<exists>d'. dictExpandIfNeeded M T d = Inr (DICT_OK, d') \<and> dict_ok T d' \<and> dict_map d' = dict_map d \<and> d_size d' \<noteq> 0 \<and>
    d_size d' < 2 ^ 31 \<and> d_used d' = d_used d \<and> d_size d' \<le> max 4 (max (d_size d) (2 * d_used d))"
  using assms(1)
proof (cases rule: dict_ok_cases)
  case empty
  have "\<exists>d'. dictExpand M T d (2 ^ 2) = Inr (DICT_OK, d') \<and> dict_ok T d' \<and> dict_map d' = dict_map d \<and> d_size d' = 2 ^ 2 \<and> d_used d' = d_used d"
    by (rule table_grow) (use assms(3) empty in \<open>auto simp: chains_def dictReset_def\<close>)
  then show ?thesis using empty by (auto simp: dictExpandIfNeeded_def dictReset_def)
next
  case (table p t)
  have p: "p < 30" using assms(2) table(2) by (metis nat_power_less_imp_less zero_less_numeral)
  have ch: "chains d = t" using table by (simp add: chains_def)
  show ?thesis
  proof (cases "d_used d = d_size d")
    case True
    have "(2::nat) ^ Suc p < 2 ^ 64" using p by (intro power_strict_increasing) auto
    from size64_nat [OF this] have s: "size64 (int (d_size d * 2)) = 2 ^ Suc p" by (simp only: table(2) power_Suc2)
    have "\<exists>d'. dictExpand M T d (2 ^ Suc p) = Inr (DICT_OK, d') \<and> dict_ok T d' \<and> dict_map d' = dict_map d \<and> d_size d' = 2 ^ Suc p \<and>
        d_used d' = d_used d"
      by (rule table_grow) (use table p assms(3) True table_distinct [OF table(6)] in \<open>auto simp: ch length_concat\<close>)
    moreover have "(2::nat) ^ Suc p < 2 ^ 31" using p by (intro power_strict_increasing) auto
    ultimately show ?thesis using True table(2,9) s by (auto simp: dictExpandIfNeeded_def)
  next
    case False
    then show ?thesis using assms(1,2) table(9) by (auto simp: dictExpandIfNeeded_def)
  qed
qed

lemma set_chain_ok:
  assumes "2 \<le> p" "d_size d = 2 ^ p" "d_sizemask d = 2 ^ p - 1" "d_table d = Some t" "length t = 2 ^ p"
    "table_ok T (2 ^ p - 1) t" "h < 2 ^ p" "distinct (map fst c)" "\<forall>e \<in> set c. hash_key T (2 ^ p - 1) (fst e) = h"
    "u = sum_list (map length (t[h := c]))"
  shows "dict_ok T ((set_chain d h c)\<lparr>d_used := u\<rparr>)"
    "dict_map ((set_chain d h c)\<lparr>d_used := u\<rparr>) k = (if hash_key T (2 ^ p - 1) k = h then map_of c k else map_of (t ! hash_key T (2 ^ p - 1) k) k)"
proof -
  let ?t = "t[h := c]" let ?d = "(set_chain d h c)\<lparr>d_used := u\<rparr>"
  have t: "table_ok T (2 ^ p - 1) ?t" using assms(6,8,9) by (rule table_ok_update)
  have f: "d_size ?d = 2 ^ p" "d_sizemask ?d = 2 ^ p - 1" "d_table ?d = Some ?t" "length ?t = 2 ^ p" "d_used ?d = sum_list (map length ?t)"
    using assms by (simp_all add: set_chain_def)
  show "dict_ok T ?d" unfolding dict_ok_def using f t assms(1) by blast
  show "dict_map ?d k = (if hash_key T (2 ^ p - 1) k = h then map_of c k else map_of (t ! hash_key T (2 ^ p - 1) k) k)"
    unfolding dict_map_eq [OF f(1,3,4) t] using bucket_map_update [of h t] assms(5,7) by (simp add: bucket_map_def)
qed

lemma dict_used_less: "dict_ok T d \<Longrightarrow> d_used d < 2 ^ 63 \<Longrightarrow> size64 (int (d_used d) + 1) = Suc (d_used d)"
  by (subst size64_id) auto

lemma dictAdd_law:
  assumes "dict_ok T d" "d_size d < 2 ^ 30" "d_used d < 2 ^ 63" "\<forall>n. mem_ok M n"
  shows "\<exists>d'. dictAdd M T d k v = Inr (if k \<in> dom (dict_map d) then DICT_ERR else DICT_OK, d') \<and> dict_ok T d' \<and>
    dict_map d' = (if k \<in> dom (dict_map d) then dict_map d else (dict_map d)(k \<mapsto> dup_val T v)) \<and>
    d_used d' = (if k \<in> dom (dict_map d) then d_used d else Suc (d_used d)) \<and> d_size d' < 2 ^ 31 \<and>
    d_size d' \<le> max 4 (max (d_size d) (2 * d_used d))"
proof -
  obtain d1 where d1: "dictExpandIfNeeded M T d = Inr (DICT_OK, d1)" "dict_ok T d1" "dict_map d1 = dict_map d" "d_size d1 \<noteq> 0"
      "d_size d1 < 2 ^ 31" "d_used d1 = d_used d" "d_size d1 \<le> max 4 (max (d_size d) (2 * d_used d))"
    using dict_expand_law [OF assms(1,2,4)] by blast
  from d1(2) show ?thesis
  proof (cases rule: dict_ok_cases)
    case (table p t)
    let ?m = "2 ^ p - 1" let ?h = "hash_key T ?m k"
    have h: "?h < length t" "int32 (int ?h) = int ?h" "?h < 2 ^ p"
      using hash_key_less [of T p k] table(2,5) d1(5) by (auto intro!: int32_id)
    have bk: "dict_map d x = map_of (t ! hash_key T ?m x) x" for x using d1(3) table(8) by (metis bucket_map_def)
    have idx: "dictKeyIndex M T d k = Inr (if k \<in> dom (dict_map d) then -1 else int ?h, d1)"
      using d1(1) table(3,4) h(1,2) bk by (auto simp: dictKeyIndex_def Let_def dict_chain_def chain_find_map_of)
    show ?thesis
    proof (cases "k \<in> dom (dict_map d)")
      case True
      then show ?thesis using idx d1(2,3,5-7) by (simp add: dictAdd_def)
    next
      case False
      then have n: "bucket_map T ?m t k = None" using d1(3) table(8) by auto
      let ?c = "(k, dup_val T v) # t ! ?h"
      let ?d = "(set_chain d1 ?h ?c)\<lparr>d_used := Suc (d_used d)\<rparr>"
      have c: "distinct (map fst ?c)" "\<forall>e \<in> set ?c. hash_key T ?m (fst e) = ?h"
        using n table(6) h(1) by (auto simp: bucket_map_def map_of_eq_None_iff table_ok_def)
      have u: "Suc (d_used d) = sum_list (map length (t[?h := ?c]))"
        using sum_length_update [OF h(1), of ?c] table(7) d1(6) by simp
      note ok = set_chain_ok [OF table(1-6) h(3) c u]
      have "dict_map ?d = (dict_map d)(k \<mapsto> dup_val T v)"
        unfolding fun_eq_iff ok(2) by (auto simp: bk)
      moreover have "size64 (int (d_used d1) + 1) = Suc (d_used d)" using dict_used_less [OF assms(1,3)] d1(6) by simp
      then have "dictAdd M T d k v = Inr (DICT_OK, ?d)"
        using idx False assms(4) table(4) h(1) by (simp add: dictAdd_def dict_chain_def dup_key)
      moreover have "d_size ?d < 2 ^ 31 \<and> d_size ?d \<le> max 4 (max (d_size d) (2 * d_used d))" using d1(5,7) by (simp add: set_chain_def)
      ultimately show ?thesis using False ok(1) by simp
    qed
  qed (use d1(4) in \<open>simp add: dictReset_def\<close>)
qed

lemma chain_set_map:
  "map fst (chain_set T k v c) = map fst c" "map_of (chain_set T k v c) x = (if x = k \<and> map_of c k \<noteq> None then Some v else map_of c x)"
  by (induction c) (auto simp: compare)

lemma chain_remove_map:
  assumes "distinct (map fst c)"
  shows "set (chain_remove T k c) \<subseteq> set c" "distinct (map fst (chain_remove T k c))"
    "map_of (chain_remove T k c) = (map_of c)(k := None)"
    "k \<in> fst ` set c \<Longrightarrow> Suc (length (chain_remove T k c)) = length c"
  using assms by (induction c) (auto simp: compare map_of_eq_None_iff fun_eq_iff)

lemma dictReplace_law:
  assumes "dict_ok T d" "d_size d < 2 ^ 30" "d_used d < 2 ^ 63" "\<forall>n. mem_ok M n"
  shows "\<exists>d'. dictReplace M T d k v =
      Inr (case dict_map d k of None \<Rightarrow> (1, d', []) | Some old \<Rightarrow> (0, d', free_val T old)) \<and>
    dict_ok T d' \<and> dict_map d' = (dict_map d)(k \<mapsto> dup_val T v)"
proof -
  obtain d1 where d1: "dictAdd M T d k v = Inr (if k \<in> dom (dict_map d) then DICT_ERR else DICT_OK, d1)" "dict_ok T d1"
      "dict_map d1 = (if k \<in> dom (dict_map d) then dict_map d else (dict_map d)(k \<mapsto> dup_val T v))"
    using dictAdd_law [OF assms] by blast
  show ?thesis
  proof (cases "dict_map d k")
    case None
    then show ?thesis using d1 by (auto simp: dictReplace_def)
  next
    case (Some old)
    then have k: "k \<in> dom (dict_map d)" by auto
    then have m: "dict_map d1 = dict_map d" using d1(3) by simp
    from d1(2) show ?thesis
    proof (cases rule: dict_ok_cases)
      case (table p t)
      let ?m = "2 ^ p - 1" let ?h = "hash_key T ?m k" let ?c = "chain_set T k (dup_val T v) (t ! ?h)"
      have h: "?h < length t" "?h < 2 ^ p" using hash_key_less [of T p k] table(5) by simp_all
      have c: "distinct (map fst ?c)" "\<forall>e \<in> set ?c. hash_key T ?m (fst e) = ?h"
      proof -
        show "distinct (map fst ?c)" using table(6) h(1) by (simp add: chain_set_map(1) table_ok_def)
        have "fst ` set ?c = fst ` set (t ! ?h)" using arg_cong [OF chain_set_map(1), of set] by simp
        moreover have "\<forall>x \<in> fst ` set (t ! ?h). hash_key T ?m x = ?h" using table(6) h(1) by (simp add: table_ok_def)
        ultimately show "\<forall>e \<in> set ?c. hash_key T ?m (fst e) = ?h" by blast
      qed
      have "length ?c = length (t ! ?h)" using arg_cong [OF chain_set_map(1), of length] by simp
      then have u: "d_used d1 = sum_list (map length (t[?h := ?c]))"
        using sum_length_update [OF h(1), of ?c] table(7) by simp
      note ok = set_chain_ok [OF table(1-6) h(2) c u]
      have bk: "dict_map d x = map_of (t ! hash_key T ?m x) x" for x using m table(8) by (metis bucket_map_def)
      have "dict_map ((set_chain d1 ?h ?c)\<lparr>d_used := d_used d1\<rparr>) = (dict_map d)(k \<mapsto> dup_val T v)"
        unfolding fun_eq_iff ok(2) using Some by (auto simp: chain_set_map(2) bk)
      moreover have "dictReplace M T d k v = Inr (0, set_chain d1 ?h ?c, free_val T old)"
        using d1(1) k dictFind_law [OF d1(2), of k] m Some table(3,4) h(1)
        by (simp add: dictReplace_def dictSetVal_def Let_def dict_chain_def)
      moreover have "(set_chain d1 ?h ?c)\<lparr>d_used := d_used d1\<rparr> = set_chain d1 ?h ?c" by (simp add: set_chain_def)
      ultimately show ?thesis using ok(1) Some by simp
    qed (use Some m in \<open>metis dict_map_reset option.distinct(1)\<close>)
  qed
qed

lemma dictDelete_law:
  assumes "dict_ok T d" "d_used d < 2 ^ 63"
  shows "\<exists>d'. dictDelete T d k =
      Inr (case dict_map d k of None \<Rightarrow> (DICT_ERR, d', []) | Some v \<Rightarrow> (DICT_OK, d', free_key T k @ free_val T v)) \<and>
    dict_ok T d' \<and> dict_map d' = (dict_map d)(k := None)"
  using assms(1)
proof (cases rule: dict_ok_cases)
  case empty
  then show ?thesis using assms(1) by (auto simp: dictDelete_def dictReset_def dict_map_def chains_def)
next
  case (table p t)
  let ?m = "2 ^ p - 1" let ?h = "hash_key T ?m k" let ?c = "chain_remove T k (t ! ?h)"
  have h: "?h < length t" "?h < 2 ^ p" using hash_key_less [of T p k] table(5) by simp_all
  have b: "dict_map d k = map_of (t ! ?h) k" using table(8) by (simp add: bucket_map_def)
  show ?thesis
  proof (cases "dict_map d k")
    case None
    then have "(dict_map d)(k := None) = dict_map d" by auto
    then show ?thesis using None b table(3,4,9) h(1) assms(1)
      by (auto simp: dictDelete_def Let_def dict_chain_def chain_find_map_of)
  next
    case (Some v)
    have dist: "distinct (map fst (t ! ?h))" using table(6) h(1) by (simp add: table_ok_def)
    note rm = chain_remove_map [OF dist, of k]
    have c: "\<forall>e \<in> set ?c. hash_key T ?m (fst e) = ?h" using rm(1) table(6) h(1) by (auto simp: table_ok_def)
    have "k \<in> fst ` set (t ! ?h)" using Some b by (force dest: map_of_SomeD)
    from rm(4) [OF this] have u: "d_used d = Suc (sum_list (map length (t[?h := ?c])))"
      using sum_length_update [OF h(1), of ?c] table(7) by simp
    note ok = set_chain_ok [OF table(1-6) h(2) rm(2) c refl]
    have "size64 (int (d_used d) - 1) = sum_list (map length (t[?h := ?c]))" using u assms(2) by (subst size64_id) auto
    then have "dictDelete T d k = Inr (DICT_OK, (set_chain d ?h ?c)\<lparr>d_used := sum_list (map length (t[?h := ?c]))\<rparr>, free_key T k @ free_val T v)"
      using Some b table(3,4,9) h(1) by (simp add: dictDelete_def Let_def dict_chain_def chain_find_map_of)
    moreover have "dict_map ((set_chain d ?h ?c)\<lparr>d_used := sum_list (map length (t[?h := ?c]))\<rparr>) = (dict_map d)(k := None)"
      unfolding fun_eq_iff ok(2) using table(8) rm(3) by (auto simp: bucket_map_def)
    ultimately show ?thesis using Some ok(1) by auto
  qed
qed

end

section \<open>Iteration and release\<close>

text \<open>What an iterator has still to deliver.\<close>

definition it_rest :: "('k, 'v) dict \<Rightarrow> ('k, 'v) dictIterator \<Rightarrow> ('k, 'v) entry list" where
  "it_rest d it = (if it_entry it = None then [] else it_next it) @ concat (drop (nat (it_index it + 1)) (chains d))"

definition dict_small :: "('k, 'v) dict \<Rightarrow> bool" where
  "dict_small d \<longleftrightarrow> d_size d < 2 ^ 31 \<and> length (chains d) = d_size d \<and>
     (\<forall>i < d_size d. dict_chain d i = Inr (chains d ! i))"

lemma dictNext_rest:
  assumes "dict_small d" "-1 \<le> it_index it"
  shows "\<exists>e it'. dictNext d it = Inr (e, it') \<and>
    (case it_rest d it of [] \<Rightarrow> e = None | x # xs \<Rightarrow> e = Some x \<and> it_rest d it' = xs \<and> -1 \<le> it_index it')"
  using assms
proof (induction d it rule: dictNext.induct)
  case (1 d it)
  have sz: "int32 (int (d_size d)) = int (d_size d)" using "1.prems"(1) by (intro int32_id) (auto simp: dict_small_def)
  show ?case
  proof (cases "it_entry it")
    case None
    let ?i = "it_index it + 1"
    show ?thesis
    proof (cases "?i \<ge> int (d_size d)")
      case True
      then have "drop (nat ?i) (chains d) = []" using "1.prems"(1) by (simp add: dict_small_def)
      then have "it_rest d it = []" using None unfolding it_rest_def by simp
      then show ?thesis using None True sz by (simp add: dictNext.simps [of d it] Let_def)
    next
      case False
      have i: "0 \<le> ?i" "nat ?i < d_size d" using "1.prems"(2) False by linarith+
      let ?c = "chains d ! nat ?i"
      have c: "dict_chain d (nat ?i) = Inr ?c" using "1.prems"(1) i(2) by (simp add: dict_small_def)
      have "drop (nat ?i) (chains d) = ?c # drop (nat (?i + 1)) (chains d)"
        using "1.prems"(1) i Suc_nat_eq_nat_zadd1 [OF i(1)] by (simp add: dict_small_def Cons_nth_drop_Suc [symmetric] add.commute)
      then have r: "it_rest d it = ?c @ concat (drop (nat (?i + 1)) (chains d))" using None by (simp add: it_rest_def)
      show ?thesis
      proof (cases ?c)
        case Nil
        let ?it = "it\<lparr>it_index := ?i\<rparr>"
        have "it_rest d ?it = it_rest d it" using r Nil None by (simp add: it_rest_def)
        moreover have "\<exists>e it'. dictNext d ?it = Inr (e, it') \<and>
            (case it_rest d ?it of [] \<Rightarrow> e = None | x # xs \<Rightarrow> e = Some x \<and> it_rest d it' = xs \<and> -1 \<le> it_index it')"
          using "1.IH"(1) [OF None refl] False i "1.prems" c Nil sz by auto
        moreover have "dictNext d it = dictNext d ?it" using None False i(1) sz c Nil by (simp add: dictNext.simps [of d it] Let_def)
        ultimately show ?thesis by simp
      next
        case (Cons e es)
        then show ?thesis using None False i(1) sz c r "1.prems"(2)
          by (simp add: dictNext.simps [of d it] Let_def it_rest_def)
      qed
    qed
  next
    case (Some x)
    show ?thesis
    proof (cases "it_next it")
      case Nil
      let ?it = "it\<lparr>it_entry := None\<rparr>"
      have "it_rest d ?it = it_rest d it" using Nil Some by (simp add: it_rest_def)
      moreover have "dictNext d it = dictNext d ?it" using Some Nil by (simp add: dictNext.simps [of d it])
      ultimately show ?thesis using "1.IH"(2) [OF Some Nil] "1.prems" by simp
    next
      case (Cons e es)
      then show ?thesis using Some "1.prems"(2) by (simp add: dictNext.simps [of d it] it_rest_def)
    qed
  qed
qed

text \<open>The loop \<^verbatim>\<open>while ((de = dictNext(it)) != NULL)\<close>, at most \<open>n\<close> times.\<close>

fun dict_walk :: "nat \<Rightarrow> ('k, 'v) dict \<Rightarrow> ('k, 'v) dictIterator \<Rightarrow> ('k, 'v) entry list c_res" where
  "dict_walk 0 d it = Inl Diverged"
| "dict_walk (Suc n) d it =
     bind_c (dictNext d it) (\<lambda>(e, it).
       case e of None \<Rightarrow> Inr [] | Some x \<Rightarrow> bind_c (dict_walk n d it) (\<lambda>xs. Inr (x # xs)))"

lemma dict_walk_rest:
  assumes "dict_small d" "-1 \<le> it_index it" "length (it_rest d it) < n"
  shows "dict_walk n d it = Inr (it_rest d it)"
  using assms(2,3)
proof (induction n arbitrary: it)
  case (Suc n)
  obtain e it' where e: "dictNext d it = Inr (e, it')"
    "case it_rest d it of [] \<Rightarrow> e = None | x # xs \<Rightarrow> e = Some x \<and> it_rest d it' = xs \<and> -1 \<le> it_index it'"
    using dictNext_rest [OF assms(1) Suc.prems(1)] by blast
  show ?case
  proof (cases "it_rest d it")
    case (Cons x xs)
    then have "dict_walk n d it' = Inr xs" using e(2) Suc.IH [of it'] Suc.prems(2) by simp
    then show ?thesis using e Cons by simp
  qed (use e in simp)
qed simp

lemma clear_table_all:
  assumes "u = length (concat cs)" "u < 2 ^ 64"
  shows "clear_table T cs u = concat (map (\<lambda>e. free_key T (fst e) @ free_val T (snd e)) (concat cs))"
  using assms
proof (induction cs arbitrary: u)
  case (Cons c cs)
  have s: "size64 (int u - int (length c)) = length (concat cs)" using Cons.prems by (subst size64_id) auto
  show ?case
  proof (cases "u = 0")
    case True
    then have "concat (c # cs) = []" using Cons.prems(1) by (simp only: length_0_conv)
    then show ?thesis unfolding \<open>concat (c # cs) = []\<close> using True by simp
  qed (use Cons.prems(2) Cons.IH [OF refl] Cons.prems(1) s in \<open>simp del: length_concat\<close>)
qed simp

lemma dict_ok_small:
  assumes "dict_ok T d" "d_size d < 2 ^ 31"
  shows "dict_small d" "d_used d = length (concat (chains d))"
  using assms unfolding dict_ok_def dict_small_def
  by (auto simp: chains_def dictReset_def dict_chain_def length_concat)

section \<open>The two kinds of tables\<close>

text \<open>
  \<^verbatim>\<open>clusterNodesDictType\<close> and \<^verbatim>\<open>clusterNodesRefDictType\<close>: the keys are sds strings, of which the contents are
  hashed and compared. The length of an sds string is stored in an \<^verbatim>\<open>int\<close>, so the conversions to \<^verbatim>\<open>int\<close> in the
  hash and in the comparison do not change it. A value is the object a pointer leads to.
\<close>

definition dictSdsHash :: "bytes \<Rightarrow> u32" where
  "dictSdsHash key = dictGenHashFunction key"

definition dictSdsKeyCompare :: "bytes \<Rightarrow> bytes \<Rightarrow> bool" where
  "dictSdsKeyCompare key1 key2 =
     (let l1 = length key1; l2 = length key2 in
      if l1 \<noteq> l2 then False else take l1 key1 = take l1 key2)"

definition clusterNodesDictType :: "(bytes, 'v) dictType" where
  "clusterNodesDictType = \<lparr>dt_hashFunction = dictSdsHash, dt_keyDup = None, dt_valDup = None,
     dt_keyCompare = Some dictSdsKeyCompare, dt_keyDestructor = True, dt_valDestructor = True\<rparr>"

definition clusterNodesRefDictType :: "(bytes, 'v) dictType" where
  "clusterNodesRefDictType = \<lparr>dt_hashFunction = dictSdsHash, dt_keyDup = None, dt_valDup = None,
     dt_keyCompare = Some dictSdsKeyCompare, dt_keyDestructor = True, dt_valDestructor = False\<rparr>"
lemma sds_keys_equal: "dictSdsKeyCompare a b \<longleftrightarrow> a = b"
  by (auto simp: dictSdsKeyCompare_def Let_def)

interpretation nodes: dict_keys "clusterNodesDictType :: (bytes, 'v) dictType"
  by unfold_locales (simp_all add: keys_equal_def dup_key_def clusterNodesDictType_def sds_keys_equal)

interpretation node_refs: dict_keys "clusterNodesRefDictType :: (bytes, 'v) dictType"
  by unfold_locales (simp_all add: keys_equal_def dup_key_def clusterNodesRefDictType_def sds_keys_equal)

section \<open>Properties\<close>

text \<open>
  C16: the hash table of the cluster nodes implements a finite map. On every well-formed table (every entry
  in the chain of its hash, no key twice, the counter exact, the size a power of two) and for every key
  and value, with memory for the request: \<^verbatim>\<open>dictFind\<close> is the lookup of the map; \<^verbatim>\<open>dictAdd\<close> binds a new
  key and refuses a key that is bound; \<^verbatim>\<open>dictReplace\<close> binds it in any case and hands exactly the old value to
  the destructor; \<^verbatim>\<open>dictDelete\<close> removes exactly the key and hands its key and value to the destructors;
  and every one of them, also when the table is created or doubled, keeps the table well-formed.
\<close>

theorem dict_refines_map:
  assumes "dict_ok clusterNodesDictType d" "d_size d < 2 ^ 30" "d_used d < 2 ^ 63" "\<forall>n. mem_ok M n"
  shows "dictFind clusterNodesDictType d k = Inr (map_option (Pair k) (dict_map d k)) \<and>
    (\<exists>d'. dictAdd M clusterNodesDictType d k v = Inr (if k \<in> dom (dict_map d) then DICT_ERR else DICT_OK, d') \<and>
      dict_ok clusterNodesDictType d' \<and>
      dict_map d' = (if k \<in> dom (dict_map d) then dict_map d else (dict_map d)(k \<mapsto> v))) \<and>
    (\<exists>d'. dictReplace M clusterNodesDictType d k v =
        Inr (case dict_map d k of None \<Rightarrow> (1, d', []) | Some old \<Rightarrow> (0, d', [Val old])) \<and>
      dict_ok clusterNodesDictType d' \<and> dict_map d' = (dict_map d)(k \<mapsto> v)) \<and>
    (\<exists>d'. dictDelete clusterNodesDictType d k =
        Inr (case dict_map d k of None \<Rightarrow> (DICT_ERR, d', []) | Some old \<Rightarrow> (DICT_OK, d', [Key k, Val old])) \<and>
      dict_ok clusterNodesDictType d' \<and> dict_map d' = (dict_map d)(k := None))"
proof -
  have t: "dup_val (clusterNodesDictType :: (bytes, 'a) dictType) v = v" "free_val (clusterNodesDictType :: (bytes, 'a) dictType) w = [Val w]"
    "free_key (clusterNodesDictType :: (bytes, 'a) dictType) k = [Key k]" for w
    by (simp_all add: dup_val_def free_val_def free_key_def clusterNodesDictType_def)
  show ?thesis
    using nodes.dictFind_law [OF assms(1), of k] nodes.dictAdd_law [OF assms, of k v] nodes.dictReplace_law [OF assms, of k v]
      nodes.dictDelete_law [OF assms(1,3), of k] unfolding t by (auto cong: option.case_cong)
qed

theorem dict_refines_map_witness:
  "\<exists>d'. dictAdd granting clusterNodesDictType dictReset ''127.0.0.1:7000'' (5::nat) = Inr (0, d') \<and>
    dict_ok clusterNodesDictType d' \<and> dict_map d' = [''127.0.0.1:7000'' \<mapsto> 5]"
  using dict_refines_map [of "dictReset :: (bytes, nat) dict" granting "''127.0.0.1:7000''" 5]
  by (auto simp: dict_ok_def dict_map_def chains_def dictReset_def)

text \<open>
  C27: iterating over a well-formed table ends and delivers every binding exactly once; releasing the table
  hands exactly these keys and values to the destructors.
\<close>

theorem dict_iteration:
  assumes "dict_ok clusterNodesDictType d" "d_size d < 2 ^ 31" "d_used d < 2 ^ 63" "dictGetIterator M = Inr it"
  shows "\<exists>es. dict_walk (d_used d + 1) d it = Inr es \<and> map_of es = dict_map d \<and> distinct (map fst es) \<and>
    length es = d_used d \<and> dictRelease clusterNodesDictType d = concat (map (\<lambda>(k, v). [Key k, Val v]) es)"
proof (intro exI conjI)
  note sm = dict_ok_small [OF assms(1,2)]
  have it: "it_index it = -1" "it_rest d it = concat (chains d)"
    using assms(4) by (auto simp: dictGetIterator_def it_rest_def split: if_splits)
  show "dict_walk (d_used d + 1) d it = Inr (concat (chains d))"
    using dict_walk_rest [OF sm(1), of it "d_used d + 1"] it sm(2) by (simp del: length_concat)
  show "map_of (concat (chains d)) = dict_map d" by (simp add: dict_map_def)
  show "distinct (map fst (concat (chains d)))"
    using assms(1) table_distinct by (auto simp: dict_ok_def chains_def dictReset_def)
  show "length (concat (chains d)) = d_used d" using sm(2) by simp
  show "dictRelease clusterNodesDictType d = concat (map (\<lambda>(k, v). [Key k, Val v]) (concat (chains d)))"
    using clear_table_all [OF sm(2), of clusterNodesDictType] assms(3)
    by (simp add: dictRelease_def dictClear_def free_key_def free_val_def clusterNodesDictType_def case_prod_unfold)
qed

theorem dict_iteration_witness:
  "\<exists>d it. dictAdd granting clusterNodesDictType dictReset ''127.0.0.1:7000'' (5::nat) = Inr (0, d) \<and>
    dictGetIterator granting = Inr it \<and> dict_walk 2 d it = Inr [(''127.0.0.1:7000'', 5)]"
proof -
  let ?T = "clusterNodesDictType :: (bytes, nat) dictType" and ?k = "''127.0.0.1:7000''"
  obtain it :: "(bytes, nat) dictIterator" where it: "dictGetIterator granting = Inr it" by (simp add: dictGetIterator_def)
  have "dict_ok ?T dictReset" by (simp add: dict_ok_def)
  then obtain d where d: "dictAdd granting ?T dictReset ?k 5 = Inr (0, d)" "dict_ok ?T d" "dict_map d = [?k \<mapsto> 5]" "d_used d = 1" "d_size d < 2 ^ 31"
    using nodes.dictAdd_law [of dictReset granting ?k 5] by (auto simp: dictReset_def dict_map_def chains_def dup_val_def clusterNodesDictType_def)
  have "d_used d < 2 ^ 63" "d_used d = 1" using d(4) by simp_all
  from dict_iteration [OF d(2,5) this(1) it, unfolded d(3,4) one_add_one]
  obtain es where "dict_walk 2 d it = Inr es" "map_of es = [?k \<mapsto> 5]" "length es = 1" by blast
  moreover from this have "es = [(?k, 5)]" by (auto simp: length_Suc_conv fun_eq_iff split: if_splits)
  ultimately show ?thesis using d(1) it by blast
qed

end
