(* ===== verification/Async.thy ===== *)
theory Async
  imports Net Dict
begin

text \<open>
  The asynchronous client of \<^verbatim>\<open>src/async.c\<close>: commands are queued with a callback, and the read and write events of an
  event library move bytes and run the callbacks with the replies. A callback is a number; what the application does
  when it is called is a parameter, as are its hooks for the event library. An application may call back into the
  client; everything it can do to the context goes through the context it returns. \<open>None\<close> in place of a context is a
  context that has been released.

  The first part models the file, the second proves that callbacks are run in the order of their commands, each
  exactly once, whatever the network does.
\<close>

section \<open>State\<close>

record redisCallback =
  cb_fn :: "nat option"
  cb_privdata :: nat

datatype hook = AddRead | DelRead | AddWrite | DelWrite | Cleanup

record redisAsyncContext =
  ac_c :: redisContext
  ac_err :: int
  ac_errstr :: bytes
  ac_dataHandler :: "nat option"
  ac_ev :: "hook set"
  ac_onConnect :: "nat option"
  ac_onDisconnect :: "nat option"
  ac_replies :: "redisCallback list"
  ac_invalid :: "redisCallback list"
  ac_channels :: "(bytes, redisCallback) dict"
  ac_patterns :: "(bytes, redisCallback) dict"

text \<open>The application: callbacks for replies, for the connection and for the data pointer, and the hooks.\<close>

record 'u app =
  app_reply :: "nat \<Rightarrow> ptr \<Rightarrow> nat \<Rightarrow> rheap \<Rightarrow> redisAsyncContext \<Rightarrow> 'u \<Rightarrow> redisAsyncContext \<times> 'u"
  app_status :: "nat \<Rightarrow> int \<Rightarrow> redisAsyncContext \<Rightarrow> 'u \<Rightarrow> 'u"
  app_data :: "nat \<Rightarrow> redisAsyncContext \<Rightarrow> 'u \<Rightarrow> 'u"
  app_hook :: "hook \<Rightarrow> 'u \<Rightarrow> 'u"

abbreviation ac_flags :: "redisAsyncContext \<Rightarrow> redis_flag set" where "ac_flags ac \<equiv> rc_flags (ac_c ac)"

definition set_flag :: "redis_flag \<Rightarrow> redisAsyncContext \<Rightarrow> redisAsyncContext" where
  "set_flag f ac = ac\<lparr>ac_c := (ac_c ac)\<lparr>rc_flags := insert f (ac_flags ac)\<rparr>\<rparr>"

definition clear_flag :: "redis_flag \<Rightarrow> redisAsyncContext \<Rightarrow> redisAsyncContext" where
  "clear_flag f ac = ac\<lparr>ac_c := (ac_c ac)\<lparr>rc_flags := ac_flags ac - {f}\<rparr>\<rparr>"

definition call_hook :: "'u app \<Rightarrow> hook \<Rightarrow> redisAsyncContext \<Rightarrow> 'u \<Rightarrow> 'u" where
  "call_hook U k ac u = (if k \<in> ac_ev ac then app_hook U k u else u)"

section \<open>Tables of subscriptions\<close>

definition callbackHash :: "bytes \<Rightarrow> u32" where
  "callbackHash key = dictGenHashFunction key"

definition callbackKeyCompare :: "bytes \<Rightarrow> bytes \<Rightarrow> bool" where
  "callbackKeyCompare key1 key2 =
     (let l1 = length key1; l2 = length key2 in
      if l1 \<noteq> l2 then False else take l1 key1 = take l1 key2)"

definition callbackValDup :: "redisCallback \<Rightarrow> redisCallback" where
  "callbackValDup src = src"

definition callbackDict :: "(bytes, redisCallback) dictType" where
  "callbackDict = \<lparr>dt_hashFunction = callbackHash, dt_keyDup = None, dt_valDup = Some callbackValDup,
     dt_keyCompare = Some callbackKeyCompare, dt_keyDestructor = True, dt_valDestructor = True\<rparr>"

definition redisAsyncInitialize :: "mem \<Rightarrow> redisContext \<Rightarrow> redisAsyncContext option c_res" where
  "redisAsyncInitialize M c =
     (if \<not> mem_ok M 376 then Inr None
      else
        bind_c (dictCreate M) (\<lambda>channels.
          bind_c (dictCreate M) (\<lambda>patterns.
            Inr (Some \<lparr>ac_c = c\<lparr>rc_flags := rc_flags c - {REDIS_CONNECTED}\<rparr>, ac_err = 0, ac_errstr = [], ac_dataHandler = None,
              ac_ev = {}, ac_onConnect = None, ac_onDisconnect = None, ac_replies = [], ac_invalid = [],
              ac_channels = channels, ac_patterns = patterns\<rparr>))))"

definition redisAsyncCopyError :: "redisAsyncContext \<Rightarrow> redisAsyncContext" where
  "redisAsyncCopyError ac = ac\<lparr>ac_err := rc_err (ac_c ac), ac_errstr := rc_errstr (ac_c ac)\<rparr>"

text \<open>
  The functions that connect differ in what they do when the larger context cannot be allocated: \<open>release\<close> says that the
  plain context is released; the others lose it.
\<close>

definition async_connecting :: "mem \<Rightarrow> bool \<Rightarrow> (sys \<Rightarrow> (net_context option \<times> sys) c_res) \<Rightarrow> rheap \<Rightarrow> sys \<Rightarrow> (redisAsyncContext option \<times> rheap \<times> sys) c_res" where
  "async_connecting M release conn h s =
     bind_c (conn s) (\<lambda>(n, s).
       case n of
         None \<Rightarrow> Inr (None, h, s)
       | Some n \<Rightarrow>
           bind_c (redisAsyncInitialize M (nc_c n)) (\<lambda>ac.
             case ac of
               Some ac \<Rightarrow> Inr (Some (redisAsyncCopyError ac), h, s)
             | None \<Rightarrow> if release then bind_c (net_free n h s) (\<lambda>(h, s). Inr (None, h, s)) else Inr (None, h, s)))"

definition redisAsyncConnect :: "mem \<Rightarrow> kernel \<Rightarrow> bytes \<Rightarrow> int \<Rightarrow> rheap \<Rightarrow> sys \<Rightarrow> (redisAsyncContext option \<times> rheap \<times> sys) c_res" where
  "redisAsyncConnect M K ip port = async_connecting M True (redisConnectNonBlock M K ip port)"

definition redisAsyncConnectBind :: "mem \<Rightarrow> kernel \<Rightarrow> bytes \<Rightarrow> int \<Rightarrow> bytes \<Rightarrow> rheap \<Rightarrow> sys \<Rightarrow> (redisAsyncContext option \<times> rheap \<times> sys) c_res" where
  "redisAsyncConnectBind M K ip port source_addr = async_connecting M False (redisConnectBindNonBlock M K ip port source_addr)"

definition redisAsyncConnectBindWithReuse :: "mem \<Rightarrow> kernel \<Rightarrow> bytes \<Rightarrow> int \<Rightarrow> bytes \<Rightarrow> rheap \<Rightarrow> sys \<Rightarrow> (redisAsyncContext option \<times> rheap \<times> sys) c_res" where
  "redisAsyncConnectBindWithReuse M K ip port source_addr = async_connecting M False (redisConnectBindNonBlockWithReuse M K ip port source_addr)"

definition redisAsyncConnectUnix :: "mem \<Rightarrow> kernel \<Rightarrow> bytes \<Rightarrow> rheap \<Rightarrow> sys \<Rightarrow> (redisAsyncContext option \<times> rheap \<times> sys) c_res" where
  "redisAsyncConnectUnix M K path = async_connecting M True (redisConnectUnixNonBlock M K path)"

definition redisAsyncSetConnectCallback :: "'u app \<Rightarrow> nat option \<Rightarrow> redisAsyncContext \<Rightarrow> 'u \<Rightarrow> int \<times> redisAsyncContext \<times> 'u" where
  "redisAsyncSetConnectCallback U fn ac u =
     (if ac_onConnect ac = None then (REDIS_OK, ac\<lparr>ac_onConnect := fn\<rparr>, call_hook U AddWrite ac u) else (REDIS_ERR, ac, u))"

definition redisAsyncSetDisconnectCallback :: "nat option \<Rightarrow> redisAsyncContext \<Rightarrow> int \<times> redisAsyncContext" where
  "redisAsyncSetDisconnectCallback fn ac =
     (if ac_onDisconnect ac = None then (REDIS_OK, ac\<lparr>ac_onDisconnect := fn\<rparr>) else (REDIS_ERR, ac))"

section \<open>Callbacks\<close>

definition redisPushCallback :: "mem \<Rightarrow> redisCallback list \<Rightarrow> redisCallback \<Rightarrow> int \<times> redisCallback list" where
  "redisPushCallback M l cb = (if \<not> mem_ok M 24 then (REDIS_ERR_OOM, l) else (REDIS_OK, l @ [cb]))"

definition redisShiftCallback :: "redisCallback list \<Rightarrow> (redisCallback \<times> redisCallback list) option" where
  "redisShiftCallback l = (case l of [] \<Rightarrow> None | cb # l \<Rightarrow> Some (cb, l))"

definition redisRunCallback :: "'u app \<Rightarrow> redisCallback \<Rightarrow> ptr \<Rightarrow> rheap \<Rightarrow> redisAsyncContext \<Rightarrow> 'u \<Rightarrow> redisAsyncContext \<times> 'u" where
  "redisRunCallback U cb p h ac u =
     (case cb_fn cb of
        None \<Rightarrow> (ac, u)
      | Some fn \<Rightarrow>
          (case app_reply U fn p (cb_privdata cb) h (set_flag REDIS_IN_CALLBACK ac) u of (ac, u) \<Rightarrow>
             (clear_flag REDIS_IN_CALLBACK ac, u)))"

text \<open>The two loops at the start of \<^verbatim>\<open>__redisAsyncFree\<close>.\<close>

partial_function (option) flush_replies :: "'u app \<Rightarrow> rheap \<Rightarrow> redisAsyncContext \<Rightarrow> 'u \<Rightarrow> (redisAsyncContext \<times> 'u) option" where
  "flush_replies U h ac u =
     (case redisShiftCallback (ac_replies ac) of
        None \<Rightarrow> Some (ac, u)
      | Some (cb, l) \<Rightarrow> (case redisRunCallback U cb 0 h (ac\<lparr>ac_replies := l\<rparr>) u of (ac, u) \<Rightarrow> flush_replies U h ac u))"

partial_function (option) flush_invalid :: "'u app \<Rightarrow> rheap \<Rightarrow> redisAsyncContext \<Rightarrow> 'u \<Rightarrow> (redisAsyncContext \<times> 'u) option" where
  "flush_invalid U h ac u =
     (case redisShiftCallback (ac_invalid ac) of
        None \<Rightarrow> Some (ac, u)
      | Some (cb, l) \<Rightarrow> (case redisRunCallback U cb 0 h (ac\<lparr>ac_invalid := l\<rparr>) u of (ac, u) \<Rightarrow> flush_invalid U h ac u))"

text \<open>
  The callbacks of one table. A context that is being released takes no commands, so the callbacks do not change
  the table that is iterated over.
\<close>

fun run_entries :: "'u app \<Rightarrow> rheap \<Rightarrow> (bytes \<times> redisCallback) list \<Rightarrow> redisAsyncContext \<Rightarrow> 'u \<Rightarrow> redisAsyncContext \<times> 'u" where
  "run_entries U h [] ac u = (ac, u)"
| "run_entries U h ((k, cb) # es) ac u = (case redisRunCallback U cb 0 h ac u of (ac, u) \<Rightarrow> run_entries U h es ac u)"

definition run_table :: "mem \<Rightarrow> 'u app \<Rightarrow> rheap \<Rightarrow> (bytes, redisCallback) dict \<Rightarrow> redisAsyncContext \<Rightarrow> 'u \<Rightarrow> (redisAsyncContext \<times> 'u) c_res" where
  "run_table M U h d ac u =
     bind_c (dictGetIterator M) (\<lambda>it. bind_c (dict_walk (d_used d + 1) d it) (\<lambda>es. Inr (run_entries U h es ac u)))"

definition say_disconnected :: "'u app \<Rightarrow> redisAsyncContext \<Rightarrow> 'u \<Rightarrow> 'u" where
  "say_disconnected U ac u =
     (case ac_onDisconnect ac of
        Some fn \<Rightarrow>
          if REDIS_CONNECTED \<in> ac_flags ac
          then app_status U fn (if REDIS_FREEING \<in> ac_flags ac \<or> ac_err ac = 0 then REDIS_OK else REDIS_ERR) ac u else u
      | None \<Rightarrow> u)"

type_synonym 'u async_result = "(redisAsyncContext option \<times> sock \<times> rheap \<times> 'u) c_res option"

definition redisAsyncFree_now :: "mem \<Rightarrow> 'u app \<Rightarrow> redisAsyncContext \<Rightarrow> sock \<Rightarrow> rheap \<Rightarrow> 'u \<Rightarrow> 'u async_result" where
  "redisAsyncFree_now M U ac s h u =
     (case flush_replies U h ac u of
        None \<Rightarrow> None
      | Some (ac, u) \<Rightarrow>
          (case flush_invalid U h ac u of
             None \<Rightarrow> None
           | Some (ac, u) \<Rightarrow>
               Some
                 (bind_c (run_table M U h (ac_channels ac) ac u) (\<lambda>(ac, u).
                    bind_c (run_table M U h (ac_patterns ac) ac u) (\<lambda>(ac, u).
                      let u = say_disconnected U ac (call_hook U Cleanup ac u);
                          u = (case ac_dataHandler ac of None \<Rightarrow> u | Some fn \<Rightarrow> app_data U fn ac u)
                      in bind_c (redisFree (ac_c ac) h) (\<lambda>h. Inr (None, s, h, u)))))))"

definition redisAsyncFree :: "mem \<Rightarrow> 'u app \<Rightarrow> redisAsyncContext \<Rightarrow> sock \<Rightarrow> rheap \<Rightarrow> 'u \<Rightarrow> 'u async_result" where
  "redisAsyncFree M U ac s h u =
     (let ac = set_flag REDIS_FREEING ac in
      if REDIS_IN_CALLBACK \<in> ac_flags ac then Some (Inr (Some ac, s, h, u)) else redisAsyncFree_now M U ac s h u)"

definition redisAsyncDisconnect_now :: "mem \<Rightarrow> 'u app \<Rightarrow> redisAsyncContext \<Rightarrow> sock \<Rightarrow> rheap \<Rightarrow> 'u \<Rightarrow> 'u async_result" where
  "redisAsyncDisconnect_now M U ac s h u =
     (let ac = redisAsyncCopyError ac in
      if ac_err ac = 0
      then (if ac_replies ac \<noteq> [] then Some (Inl AssertFailed) else redisAsyncFree_now M U ac s h u)
      else redisAsyncFree_now M U (set_flag REDIS_DISCONNECTING ac) s h u)"

definition redisAsyncDisconnect :: "mem \<Rightarrow> 'u app \<Rightarrow> redisAsyncContext \<Rightarrow> sock \<Rightarrow> rheap \<Rightarrow> 'u \<Rightarrow> 'u async_result" where
  "redisAsyncDisconnect M U ac s h u =
     (let ac = set_flag REDIS_DISCONNECTING ac in
      if REDIS_IN_CALLBACK \<notin> ac_flags ac \<and> ac_replies ac = [] then redisAsyncDisconnect_now M U ac s h u
      else Some (Inr (Some ac, s, h, u)))"

section \<open>Replies\<close>

definition reply_element :: "rheap \<Rightarrow> redisReply \<Rightarrow> nat \<Rightarrow> redisReply c_res" where
  "reply_element h r i = (case rr_element r of None \<Rightarrow> Inl NullDeref | Some es \<Rightarrow> bind_c (rd es i) (obj_at h))"

definition reply_str :: "redisReply \<Rightarrow> bytes c_res" where
  "reply_str r = (case rr_str r of None \<Rightarrow> Inl NullDeref | Some t \<Rightarrow> Inr t)"

definition strcasecmp_eq :: "bytes \<Rightarrow> bytes \<Rightarrow> bool" where
  "strcasecmp_eq a b \<longleftrightarrow> map tolower (cstr a) = map tolower (cstr b)"

definition channel_name :: "mem \<Rightarrow> bytes \<Rightarrow> bytes c_res" where
  "channel_name M t = bind_c (sdsnewlen M (Some t) (length t)) (\<lambda>k. case k of None \<Rightarrow> Inl NullDeref | Some k \<Rightarrow> Inr (content k))"

definition callbacks_of :: "bool \<Rightarrow> redisAsyncContext \<Rightarrow> (bytes, redisCallback) dict" where
  "callbacks_of pvariant ac = (if pvariant then ac_patterns ac else ac_channels ac)"

definition set_callbacks :: "bool \<Rightarrow> (bytes, redisCallback) dict \<Rightarrow> redisAsyncContext \<Rightarrow> redisAsyncContext" where
  "set_callbacks pvariant d ac = (if pvariant then ac\<lparr>ac_patterns := d\<rparr> else ac\<lparr>ac_channels := d\<rparr>)"

definition drop_subscription :: "bool \<Rightarrow> bytes \<Rightarrow> rheap \<Rightarrow> redisReply \<Rightarrow> redisAsyncContext \<Rightarrow> redisAsyncContext c_res" where
  "drop_subscription pvariant sname h r ac =
     bind_c (dictDelete callbackDict (callbacks_of pvariant ac) sname) (\<lambda>(_, d, _).
       bind_c (reply_element h r 2) (\<lambda>e2.
         bind_c (assert_c (rr_type e2 = REDIS_REPLY_INTEGER)) (\<lambda>_.
           let ac = set_callbacks pvariant d ac in
           Inr (if rr_integer e2 = 0 then clear_flag REDIS_SUBSCRIBED ac else ac))))"

text \<open>The callback \<open>cb\<close> is the one of the loop; it stays what it was when there is none for the message.\<close>

definition redisGetSubscribeCallback :: "mem \<Rightarrow> rheap \<Rightarrow> redisReply \<Rightarrow> redisCallback \<Rightarrow> redisAsyncContext \<Rightarrow> (redisCallback \<times> redisAsyncContext) c_res" where
  "redisGetSubscribeCallback M h r cb ac =
     (if rr_type r = REDIS_REPLY_ARRAY then
        bind_c (assert_c (2 \<le> rr_elements r)) (\<lambda>_.
          bind_c (reply_element h r 0) (\<lambda>e0.
            bind_c (assert_c (rr_type e0 = REDIS_REPLY_STRING)) (\<lambda>_.
              bind_c (reply_str e0) (\<lambda>stype.
                bind_c (rd stype 0) (\<lambda>x.
                  let pvariant = (tolower x = CHR ''p'') in
                  bind_c (reply_element h r 1) (\<lambda>e1.
                    bind_c (assert_c (rr_type e1 = REDIS_REPLY_STRING)) (\<lambda>_.
                      bind_c (reply_str e1) (\<lambda>name.
                        bind_c (channel_name M (take (nat (rr_len e1)) name)) (\<lambda>sname.
                          bind_c (dictFind callbackDict (callbacks_of pvariant ac) sname) (\<lambda>de.
                            case de of
                              None \<Rightarrow> Inr (cb, ac)
                            | Some (_, cb) \<Rightarrow>
                                if strcasecmp_eq (if pvariant then tl stype else stype) ''unsubscribe''
                                then bind_c (drop_subscription pvariant sname h r ac) (\<lambda>ac. Inr (cb, ac))
                                else Inr (cb, ac)))))))))))
      else
        (case redisShiftCallback (ac_invalid ac) of
           None \<Rightarrow> Inr (cb, ac)
         | Some (cb, l) \<Rightarrow> Inr (cb, ac\<lparr>ac_invalid := l\<rparr>)))"

text \<open>
  The callback for a reply: the next one in the queue, or the one of the subscription. \<open>Inl\<close> is a reply nobody
  asked for that is an error; the connection is given up with it.
\<close>

definition callback_for :: "mem \<Rightarrow> rheap \<Rightarrow> ptr \<Rightarrow> redisCallback \<Rightarrow> redisAsyncContext \<Rightarrow>
    ((bytes \<times> redisAsyncContext) + (redisCallback \<times> redisAsyncContext)) c_res" where
  "callback_for M h p cb ac =
     (case redisShiftCallback (ac_replies ac) of
        Some (cb, l) \<Rightarrow> Inr (Inr (cb, ac\<lparr>ac_replies := l\<rparr>))
      | None \<Rightarrow>
          bind_c (obj_at h p) (\<lambda>r.
            if rr_type r = REDIS_REPLY_ERROR then bind_c (reply_str r) (\<lambda>t. Inr (Inl (t, ac)))
            else
              bind_c (assert_c (REDIS_SUBSCRIBED \<in> ac_flags ac \<or> REDIS_MONITORING \<in> ac_flags ac)) (\<lambda>_.
                if REDIS_SUBSCRIBED \<in> ac_flags ac
                then bind_c (redisGetSubscribeCallback M h r cb ac) (\<lambda>x. Inr (Inr x)) else Inr (Inr (cb, ac)))))"

definition no_callback :: redisCallback where
  "no_callback = \<lparr>cb_fn = None, cb_privdata = 0\<rparr>"

text \<open>No reply for now: the end of a connection that is being closed, or of this event.\<close>

definition no_more :: "mem \<Rightarrow> 'u app \<Rightarrow> redisCallback \<Rightarrow> redisAsyncContext \<Rightarrow> sock \<Rightarrow> rheap \<Rightarrow> 'u \<Rightarrow> 'u async_result" where
  "no_more M U cb ac s h u =
     (case rc_obuf (ac_c ac) of
        None \<Rightarrow>
          if REDIS_DISCONNECTING \<in> ac_flags ac then Some (Inl NullDeref)
          else Some (Inr (Some (if REDIS_MONITORING \<in> ac_flags ac then ac\<lparr>ac_replies := snd (redisPushCallback M (ac_replies ac) cb)\<rparr> else ac), s, h, u))
      | Some ob \<Rightarrow>
          if REDIS_DISCONNECTING \<in> ac_flags ac \<and> sdslen ob = 0 then redisAsyncDisconnect_now M U ac s h u
          else Some (Inr (Some (if REDIS_MONITORING \<in> ac_flags ac then ac\<lparr>ac_replies := snd (redisPushCallback M (ac_replies ac) cb)\<rparr> else ac), s, h, u)))"

partial_function (option) process_loop :: "mem \<Rightarrow> (errno \<Rightarrow> bytes) \<Rightarrow> 'u app \<Rightarrow> redisCallback \<Rightarrow> redisAsyncContext \<Rightarrow> sock \<Rightarrow> rheap \<Rightarrow> 'u \<Rightarrow>
    'u async_result" where
  "process_loop M st U cb ac s h u =
     (case redisGetReply M st (ac_c ac) s h of
        None \<Rightarrow> None
      | Some (Inl e) \<Rightarrow> Some (Inl e)
      | Some (Inr (status, p, c, s, h)) \<Rightarrow>
          (let ac = ac\<lparr>ac_c := c\<rparr> in
           if status \<noteq> REDIS_OK then redisAsyncDisconnect_now M U ac s h u
           else if p = 0 then no_more M U cb ac s h u
           else
             (case callback_for M h p cb ac of
                Inl e \<Rightarrow> Some (Inl e)
              | Inr (Inl (t, ac)) \<Rightarrow>
                  (case freeReplyObject p h of
                     Inl e \<Rightarrow> Some (Inl e)
                   | Inr h \<Rightarrow> redisAsyncDisconnect_now M U (ac\<lparr>ac_c := redisSetError (ac_c ac) REDIS_ERR_OTHER t\<rparr>) s h u)
              | Inr (Inr (cb, ac)) \<Rightarrow>
                  (case redisRunCallback U cb p h ac u of (ac, u) \<Rightarrow>
                     (case freeReplyObject p h of
                        Inl e \<Rightarrow> Some (Inl e)
                      | Inr h \<Rightarrow>
                          if cb_fn cb \<noteq> None \<and> REDIS_FREEING \<in> ac_flags ac then redisAsyncFree_now M U ac s h u
                          else process_loop M st U cb ac s h u)))))"

definition redisProcessCallbacks :: "mem \<Rightarrow> (errno \<Rightarrow> bytes) \<Rightarrow> 'u app \<Rightarrow> redisAsyncContext \<Rightarrow> sock \<Rightarrow> rheap \<Rightarrow> 'u \<Rightarrow> 'u async_result" where
  "redisProcessCallbacks M st U ac s h u = process_loop M st U no_callback ac s h u"

section \<open>Events\<close>

definition say_connected :: "'u app \<Rightarrow> int \<Rightarrow> redisAsyncContext \<Rightarrow> 'u \<Rightarrow> 'u" where
  "say_connected U status ac u = (case ac_onConnect ac of None \<Rightarrow> u | Some fn \<Rightarrow> app_status U fn status ac u)"

text \<open>\<open>Inl\<close> is where the event ends with this call, \<open>Inr\<close> the context to go on with.\<close>

definition redisAsyncHandleConnect :: "mem \<Rightarrow> (errno \<Rightarrow> bytes) \<Rightarrow> 'u app \<Rightarrow> so_error \<Rightarrow> redisAsyncContext \<Rightarrow> sock \<Rightarrow> rheap \<Rightarrow> 'u \<Rightarrow>
    ('u async_result, redisAsyncContext \<times> 'u) sum" where
  "redisAsyncHandleConnect M st U so ac s h u =
     (case redisCheckSocketError st so (ac_c ac) of (ok, c) \<Rightarrow>
        let ac = ac\<lparr>ac_c := c\<rparr> in
        if ok = REDIS_ERR then
          (if so = SoError EINPROGRESS \<or> so = SoFails EINPROGRESS then Inl (Some (Inr (Some ac, s, h, u)))
           else Inl (redisAsyncDisconnect_now M U ac s h (say_connected U REDIS_ERR ac u)))
        else
          (let ac = set_flag REDIS_CONNECTED ac in Inr (ac, say_connected U REDIS_OK ac u)))"

definition when_connected :: "mem \<Rightarrow> (errno \<Rightarrow> bytes) \<Rightarrow> 'u app \<Rightarrow> so_error \<Rightarrow> redisAsyncContext \<Rightarrow> sock \<Rightarrow> rheap \<Rightarrow> 'u \<Rightarrow>
    (redisAsyncContext \<Rightarrow> 'u \<Rightarrow> 'u async_result) \<Rightarrow> 'u async_result" where
  "when_connected M st U so ac s h u go =
     (if REDIS_CONNECTED \<in> ac_flags ac then go ac u
      else (case redisAsyncHandleConnect M st U so ac s h u of Inl r \<Rightarrow> r | Inr (ac, u) \<Rightarrow> go ac u))"

definition redisAsyncHandleRead :: "mem \<Rightarrow> (errno \<Rightarrow> bytes) \<Rightarrow> 'u app \<Rightarrow> so_error \<Rightarrow> redisAsyncContext \<Rightarrow> sock \<Rightarrow> rheap \<Rightarrow> 'u \<Rightarrow> 'u async_result" where
  "redisAsyncHandleRead M st U so ac s h u =
     when_connected M st U so ac s h u (\<lambda>ac u.
       case redisBufferRead M st (ac_c ac) s h of
         None \<Rightarrow> None
       | Some (Inl e) \<Rightarrow> Some (Inl e)
       | Some (Inr (ok, c, s, h)) \<Rightarrow>
           (let ac = ac\<lparr>ac_c := c\<rparr> in
            if ok = REDIS_ERR then redisAsyncDisconnect_now M U ac s h u
            else redisProcessCallbacks M st U ac s h (call_hook U AddRead ac u)))"

definition redisAsyncHandleWrite :: "mem \<Rightarrow> (errno \<Rightarrow> bytes) \<Rightarrow> 'u app \<Rightarrow> so_error \<Rightarrow> redisAsyncContext \<Rightarrow> sock \<Rightarrow> rheap \<Rightarrow> 'u \<Rightarrow> 'u async_result" where
  "redisAsyncHandleWrite M st U so ac s h u =
     when_connected M st U so ac s h u (\<lambda>ac u.
       case redisBufferWrite M st (ac_c ac) s of
         None \<Rightarrow> None
       | Some (Inl e) \<Rightarrow> Some (Inl e)
       | Some (Inr (ok, fin, c, s)) \<Rightarrow>
           (let ac = ac\<lparr>ac_c := c\<rparr> in
            if ok = REDIS_ERR then redisAsyncDisconnect_now M U ac s h u
            else Some (Inr (Some ac, s, h, call_hook U AddRead ac (call_hook U (if fin then DelWrite else AddWrite) ac u)))))"
section \<open>Commands\<close>

text \<open>Reads of the text of a command, up to the end of the buffer that holds it.\<close>

function strchr_at :: "bytes \<Rightarrow> nat \<Rightarrow> char \<Rightarrow> nat option c_res" where
  "strchr_at b i x =
     (if length b \<le> i then Inl OutOfBounds
      else if b ! i = x then Inr (Some i)
      else if b ! i = NUL then Inr None
      else strchr_at b (i + 1) x)"
  by pat_completeness auto
termination by (relation "measure (\<lambda>(b, i, x). length b - i)") auto

declare strchr_at.simps [simp del]

text \<open>\<^verbatim>\<open>strtol\<close> in base 10: blanks, a sign and digits, saturated at the bounds of \<^verbatim>\<open>long\<close>.\<close>

definition strtol10 :: "bytes \<Rightarrow> int" where
  "strtol10 t =
     (let t = dropWhile isspace t;
          neg = (t \<noteq> [] \<and> hd t = CHR ''-'');
          ds = takeWhile isdigit (if t \<noteq> [] \<and> (hd t = CHR ''-'' \<or> hd t = CHR ''+'') then tl t else t);
          v = int (undec 0 ds)
      in max (- (2 ^ 63)) (min (2 ^ 63 - 1) (if neg then - v else v)))"

fun strncasecmp_eq :: "bytes \<Rightarrow> nat \<Rightarrow> bytes \<Rightarrow> bool c_res" where
  "strncasecmp_eq b i [] = Inr True"
| "strncasecmp_eq b i (x # lit) = bind_c (rd b i) (\<lambda>y. if tolower y = tolower x then strncasecmp_eq b (i + 1) lit else Inr False)"

text \<open>The index of the next argument, and the index and the length of this one; \<open>None\<close> when there is none.\<close>

definition nextArgument :: "bytes \<Rightarrow> nat \<Rightarrow> (nat \<times> nat \<times> nat) option c_res" where
  "nextArgument b start =
     bind_c (rd b start) (\<lambda>x.
       bind_c (if x \<noteq> CHR ''$'' then strchr_at b start CHR ''$'' else Inr (Some start)) (\<lambda>p.
         case p of
           None \<Rightarrow> Inr None
         | Some p \<Rightarrow>
             (let len = size64 (int32 (strtol10 (cstr (drop (p + 1) b)))) in
              bind_c (strchr_at b p CR) (\<lambda>q.
                case q of
                  None \<Rightarrow> Inl AssertFailed
                | Some q \<Rightarrow> Inr (Some (size64 (int (q + 2 + len + 2)), q + 2, len))))))"

text \<open>The bytes of an argument, as \<^verbatim>\<open>sdsnewlen\<close> copies them.\<close>

definition arg_bytes :: "bytes \<Rightarrow> nat \<Rightarrow> nat \<Rightarrow> bytes c_res" where
  "arg_bytes b i n = (if length b < i + n then Inl OutOfBounds else Inr (take n (drop i b)))"

definition subscribe_to :: "mem \<Rightarrow> bool \<Rightarrow> redisCallback \<Rightarrow> bytes \<Rightarrow> redisAsyncContext \<Rightarrow> redisAsyncContext c_res" where
  "subscribe_to M pvariant cb t ac =
     bind_c (channel_name M t) (\<lambda>sname.
       if \<not> mem_ok M 24 then Inl NullDeref
       else
         bind_c (dictReplace M callbackDict (callbacks_of pvariant ac) sname cb) (\<lambda>(_, d, _).
           Inr (set_callbacks pvariant d ac)))"

partial_function (option) subscribe_loop :: "mem \<Rightarrow> bool \<Rightarrow> redisCallback \<Rightarrow> bytes \<Rightarrow> nat \<Rightarrow> redisAsyncContext \<Rightarrow>
    redisAsyncContext c_res option" where
  "subscribe_loop M pvariant cb b p ac =
     (case nextArgument b p of
        Inl e \<Rightarrow> Some (Inl e)
      | Inr None \<Rightarrow> Some (Inr ac)
      | Inr (Some (p, i, n)) \<Rightarrow>
          (case bind_c (arg_bytes b i n) (\<lambda>t. subscribe_to M pvariant cb t ac) of
             Inl e \<Rightarrow> Some (Inl e)
           | Inr ac \<Rightarrow> subscribe_loop M pvariant cb b p ac))"

text \<open>
  The callback goes where the reply to the command is looked for. \<open>None\<close> in the result is a command that is refused.
\<close>

definition register_callback :: "mem \<Rightarrow> redisCallback \<Rightarrow> bytes \<Rightarrow> redisAsyncContext \<Rightarrow> redisAsyncContext option c_res option" where
  "register_callback M cb b ac =
     (case nextArgument b 0 of
        Inl e \<Rightarrow> Some (Inl e)
      | Inr None \<Rightarrow> Some (Inl AssertFailed)
      | Inr (Some (p, i, _)) \<Rightarrow>
          (case bind_c (rd b p) (\<lambda>x.
                  bind_c (rd b i) (\<lambda>y.
                    let pvariant = (tolower y = CHR ''p''); i = (if pvariant then i + 1 else i) in
                    bind_c (if x = CHR ''$'' then strncasecmp_eq b i (''subscribe'' @ CRLF) else Inr False) (\<lambda>sub.
                      bind_c (if sub then Inr False else strncasecmp_eq b i (''unsubscribe'' @ CRLF)) (\<lambda>unsub.
                        bind_c (if sub \<or> unsub then Inr False else strncasecmp_eq b i (''monitor'' @ CRLF)) (\<lambda>monitor.
                          Inr (pvariant, sub, unsub, monitor)))))) of
             Inl e \<Rightarrow> Some (Inl e)
           | Inr (pvariant, sub, unsub, monitor) \<Rightarrow>
               if sub then
                 (case subscribe_loop M pvariant cb b p (set_flag REDIS_SUBSCRIBED ac) of
                    None \<Rightarrow> None
                  | Some (Inl e) \<Rightarrow> Some (Inl e)
                  | Some (Inr ac) \<Rightarrow> Some (Inr (Some ac)))
               else if unsub then Some (Inr (if REDIS_SUBSCRIBED \<in> ac_flags ac then Some ac else None))
               else if monitor then
                 (let ac = set_flag REDIS_MONITORING ac in
                  Some (Inr (Some (ac\<lparr>ac_replies := snd (redisPushCallback M (ac_replies ac) cb)\<rparr>))))
               else if REDIS_SUBSCRIBED \<in> ac_flags ac then
                 Some (Inr (Some (ac\<lparr>ac_invalid := snd (redisPushCallback M (ac_invalid ac) cb)\<rparr>)))
               else Some (Inr (Some (ac\<lparr>ac_replies := snd (redisPushCallback M (ac_replies ac) cb)\<rparr>)))))"

type_synonym 'u command_result = "(int \<times> redisAsyncContext \<times> 'u) c_res option"

text \<open>\<open>b\<close> is the buffer with the text of the command and what follows it, \<open>len\<close> the length of the text.\<close>

definition redisAsyncCommand_raw :: "mem \<Rightarrow> 'u app \<Rightarrow> redisCallback \<Rightarrow> bytes \<Rightarrow> nat \<Rightarrow> redisAsyncContext \<Rightarrow> 'u \<Rightarrow> 'u command_result" where
  "redisAsyncCommand_raw M U cb b len ac u =
     (if REDIS_DISCONNECTING \<in> ac_flags ac \<or> REDIS_FREEING \<in> ac_flags ac then Some (Inr (REDIS_ERR, ac, u))
      else
        (case register_callback M cb b ac of
           None \<Rightarrow> None
         | Some (Inl e) \<Rightarrow> Some (Inl e)
         | Some (Inr None) \<Rightarrow> Some (Inr (REDIS_ERR, ac, u))
         | Some (Inr (Some ac)) \<Rightarrow>
             Some
               (bind_c (arg_bytes b 0 len) (\<lambda>cmd.
                  bind_c (redisAppendCommand_raw M (ac_c ac) cmd) (\<lambda>(_, c).
                    let ac = ac\<lparr>ac_c := c\<rparr> in Inr (REDIS_OK, ac, call_hook U AddWrite ac u))))))"

definition redisvAsyncCommand :: "mem \<Rightarrow> (bytes \<Rightarrow> 'd va_item list \<Rightarrow> bytes) \<Rightarrow> 'u app \<Rightarrow> redisCallback \<Rightarrow> bytes \<Rightarrow> 'd va_item list \<Rightarrow>
    redisAsyncContext \<Rightarrow> 'u \<Rightarrow> 'u command_result" where
  "redisvAsyncCommand M vtext U cb format args ac u =
     (case redisvFormatCommand M vtext True format args of
        Inl e \<Rightarrow> Some (Inl e)
      | Inr (len, cmd) \<Rightarrow>
          if len < 0 then Some (Inr (REDIS_ERR, ac, u))
          else (case cmd of None \<Rightarrow> Some (Inl Uninit) | Some b \<Rightarrow> redisAsyncCommand_raw M U cb b (nat len) ac u))"

text \<open>Here the result of the formatter is not tested: after a failure the command is what \<^verbatim>\<open>cmd\<close> happened to hold.\<close>

definition redisAsyncCommandArgv :: "mem \<Rightarrow> 'u app \<Rightarrow> redisCallback \<Rightarrow> int \<Rightarrow> bytes list \<Rightarrow> nat list option \<Rightarrow> redisAsyncContext \<Rightarrow> 'u \<Rightarrow> 'u command_result" where
  "redisAsyncCommandArgv M U cb argc argv argvlen ac u =
     (case redisFormatSdsCommandArgv M True argc argv argvlen of
        Inl e \<Rightarrow> Some (Inl e)
      | Inr (len, cmd) \<Rightarrow>
          (case cmd of None \<Rightarrow> Some (Inl Uninit) | Some b \<Rightarrow> redisAsyncCommand_raw M U cb (sh_buf b) (size64 len) ac u))"

definition redisAsyncFormattedCommand :: "mem \<Rightarrow> 'u app \<Rightarrow> redisCallback \<Rightarrow> bytes \<Rightarrow> nat \<Rightarrow> redisAsyncContext \<Rightarrow> 'u \<Rightarrow> 'u command_result" where
  "redisAsyncFormattedCommand M U cb b len ac u = redisAsyncCommand_raw M U cb b len ac u"
section \<open>Applications that watch\<close>

text \<open>
  An application whose calls can be observed: \<open>calls\<close> lists the callbacks that were run, with the reply and the heap
  they saw. Its callbacks leave the context alone, but for asking to disconnect or to release it.
\<close>

type_synonym call = "nat \<times> nat \<times> ptr \<times> rheap"

definition raise_flags :: "redis_flag set \<Rightarrow> redisAsyncContext \<Rightarrow> redisAsyncContext" where
  "raise_flags F ac = ac\<lparr>ac_c := (ac_c ac)\<lparr>rc_flags := ac_flags ac \<union> F\<rparr>\<rparr>"

definition tame :: "'u app \<Rightarrow> ('u \<Rightarrow> call list) \<Rightarrow> redis_flag set \<Rightarrow> bool" where
  "tame U calls G \<longleftrightarrow>
     (\<forall>fn p pd h ac u. \<exists>F u'. app_reply U fn p pd h ac u = (raise_flags F ac, u') \<and> F \<subseteq> G \<and> calls u' = calls u @ [(fn, pd, p, h)]) \<and>
     (\<forall>fn st ac u. calls (app_status U fn st ac u) = calls u) \<and> (\<forall>fn ac u. calls (app_data U fn ac u) = calls u) \<and>
     (\<forall>k u. calls (app_hook U k u) = calls u)"

definition callers :: "call list \<Rightarrow> (nat \<times> nat) list" where
  "callers cs = map (\<lambda>(fn, pd, p, h). (fn, pd)) cs"

definition names :: "redisCallback list \<Rightarrow> (nat \<times> nat) list" where
  "names cbs = List.map_filter (\<lambda>cb. map_option (\<lambda>fn. (fn, cb_privdata cb)) (cb_fn cb)) cbs"

lemma names_simps [simp]: "names [] = []" "names (as @ bs) = names as @ names bs"
  by (auto simp: names_def List.map_filter_def)

lemma names_Cons: "names (cb # cbs) = names [cb] @ names cbs"
  using names_simps(2) [of "[cb]" cbs] by simp

lemma callers_append [simp]: "callers [] = []" "callers (as @ bs) = callers as @ callers bs"
  by (simp_all add: callers_def)

text \<open>What a plain connection has: no subscriptions, no monitoring, and a socket that does not block.\<close>

definition plain :: "redisAsyncContext \<Rightarrow> bool" where
  "plain ac \<longleftrightarrow> {REDIS_BLOCK, REDIS_SUBSCRIBED, REDIS_MONITORING} \<inter> ac_flags ac = {} \<and> ac_invalid ac = [] \<and>
     ac_channels ac = dictReset \<and> ac_patterns ac = dictReset"

definition same_queues :: "redisAsyncContext \<Rightarrow> redisAsyncContext \<Rightarrow> bool" where
  "same_queues ac ac' \<longleftrightarrow> ac_replies ac' = ac_replies ac \<and> (plain ac \<longrightarrow> plain ac')"

lemma tame_hook [simp]: "tame U calls G \<Longrightarrow> calls (call_hook U k ac u) = calls u"
  by (simp add: tame_def call_hook_def)

lemma redisRunCallback_tame:
  assumes "tame U calls G" "G \<subseteq> {REDIS_DISCONNECTING, REDIS_FREEING}" "redisRunCallback U cb p h ac u = (ac', u')"
  shows "\<exists>F. F \<subseteq> G \<and> (cb_fn cb = None \<or> ac' = clear_flag REDIS_IN_CALLBACK (raise_flags F (set_flag REDIS_IN_CALLBACK ac))) \<and> (cb_fn cb = None \<longrightarrow> ac' = ac) \<and>
    calls u' = calls u @ (case cb_fn cb of None \<Rightarrow> [] | Some fn \<Rightarrow> [(fn, cb_privdata cb, p, h)]) \<and> same_queues ac ac'"
proof (cases "cb_fn cb")
  case None
  then show ?thesis using assms(3) by (auto simp: redisRunCallback_def same_queues_def)
next
  case (Some fn)
  obtain F u1 where F: "app_reply U fn p (cb_privdata cb) h (set_flag REDIS_IN_CALLBACK ac) u = (raise_flags F (set_flag REDIS_IN_CALLBACK ac), u1)"
      "F \<subseteq> G" "calls u1 = calls u @ [(fn, cb_privdata cb, p, h)]" using assms(1) unfolding tame_def by metis
  then have r: "ac' = clear_flag REDIS_IN_CALLBACK (raise_flags F (set_flag REDIS_IN_CALLBACK ac))" "u' = u1"
    using assms(3) Some by (auto simp: redisRunCallback_def)
  moreover have "same_queues ac ac'" using r(1) F(2) assms(2)
    by (auto simp: same_queues_def plain_def clear_flag_def raise_flags_def set_flag_def)
  ultimately show ?thesis using F Some by auto
qed

lemma redisRunCallback_names:
  assumes "tame U calls G" "G \<subseteq> {REDIS_DISCONNECTING, REDIS_FREEING}" "redisRunCallback U cb p h ac u = (ac', u')"
  shows "callers (calls u') = callers (calls u) @ names [cb] \<and> same_queues ac ac'"
  using redisRunCallback_tame [OF assms] by (auto simp: callers_def names_def List.map_filter_def split: option.splits)

lemma flush_replies_names:
  assumes "tame U calls G" "G \<subseteq> {REDIS_DISCONNECTING, REDIS_FREEING}"
  shows "\<exists>ac' u'. flush_replies U h ac u = Some (ac', u') \<and> callers (calls u') = callers (calls u) @ names (ac_replies ac) \<and>
    ac_replies ac' = [] \<and> (plain ac \<longrightarrow> plain ac')"
proof (induction "ac_replies ac" arbitrary: ac u)
  case Nil
  then show ?case by (subst flush_replies.simps) (simp add: redisShiftCallback_def)
next
  case (Cons cb cbs)
  obtain ac1 u1 where r: "redisRunCallback U cb 0 h (ac\<lparr>ac_replies := cbs\<rparr>) u = (ac1, u1)" by fastforce
  note run = redisRunCallback_names [OF assms r]
  have "cbs = ac_replies ac1" "plain ac \<longrightarrow> plain ac1" using run by (auto simp: same_queues_def plain_def)
  from Cons(1) [OF this(1), of u1] this(2) obtain ac' u' where
    "flush_replies U h ac1 u1 = Some (ac', u')" "callers (calls u') = callers (calls u1) @ names cbs" "ac_replies ac' = []" "plain ac \<longrightarrow> plain ac'"
    using \<open>cbs = ac_replies ac1\<close> by auto
  then show ?case using Cons(2) [symmetric] r run names_Cons [of cb cbs] by (subst flush_replies.simps) (simp add: redisShiftCallback_def)
qed
section \<open>Every callback once\<close>

text \<open>The callbacks that were run and those still queued.\<close>

definition due :: "('u \<Rightarrow> call list) \<Rightarrow> redisAsyncContext option \<Rightarrow> 'u \<Rightarrow> (nat \<times> nat) list" where
  "due calls x u = callers (calls u) @ (case x of None \<Rightarrow> [] | Some ac \<Rightarrow> names (ac_replies ac))"

definition plain_or_gone :: "redisAsyncContext option \<Rightarrow> bool" where
  "plain_or_gone x = (case x of None \<Rightarrow> True | Some ac \<Rightarrow> plain ac)"

definition ends_well :: "('u \<Rightarrow> call list) \<Rightarrow> (nat \<times> nat) list \<Rightarrow> 'u async_result \<Rightarrow> bool" where
  "ends_well calls ns res \<longleftrightarrow> (\<forall>x s h u. res = Some (Inr (x, s, h, u)) \<longrightarrow> due calls x u = ns \<and> plain_or_gone x)"

lemma ends_well_simps [simp]:
  "ends_well calls ns None" "ends_well calls ns (Some (Inl e))"
  "ends_well calls ns (Some (Inr (x, s, h, u))) \<longleftrightarrow> due calls x u = ns \<and> plain_or_gone x"
  by (auto simp: ends_well_def)

lemma due_simps [simp]: "due calls (Some ac) u = callers (calls u) @ names (ac_replies ac)" "due calls None u = callers (calls u)"
  "plain_or_gone None" "plain_or_gone (Some ac) = plain ac"
  by (simp_all add: due_def plain_or_gone_def)

lemma run_table_empty: "run_table M U h dictReset ac u = Inr r \<Longrightarrow> r = (ac, u)"
  by (auto simp: run_table_def dictGetIterator_def dictReset_def dictNext.simps int32_id bind_c_Inr_iff split: if_splits)

lemma redisAsyncFree_now_names:
  assumes "tame U calls G" "G \<subseteq> {REDIS_DISCONNECTING, REDIS_FREEING}" "plain ac"
  shows "ends_well calls (due calls (Some ac) u) (redisAsyncFree_now M U ac s h u)"
proof -
  obtain ac1 u1 where f: "flush_replies U h ac u = Some (ac1, u1)" "callers (calls u1) = callers (calls u) @ names (ac_replies ac)" "plain ac1"
    using flush_replies_names [OF assms(1,2), of h ac u] assms(3) by auto
  have i: "flush_invalid U h ac1 u1 = Some (ac1, u1)"
    using f(3) by (subst flush_invalid.simps) (simp add: plain_def redisShiftCallback_def)
  show ?thesis unfolding ends_well_def
  proof (intro allI impI)
    fix x s1 h1 u2 assume "redisAsyncFree_now M U ac s h u = Some (Inr (x, s1, h1, u2))"
    then have "x = None" "u2 = (let u = say_disconnected U ac1 (call_hook U Cleanup ac1 u1) in case ac_dataHandler ac1 of None \<Rightarrow> u | Some fn \<Rightarrow> app_data U fn ac1 u)"
      using f i by (auto simp: redisAsyncFree_now_def plain_def bind_c_Inr_iff Let_def dest!: run_table_empty)
    moreover have "calls (say_disconnected U ac1 u) = calls u" "calls (app_data U fn ac1 u) = calls u" for u fn
      using assms(1) by (auto simp: say_disconnected_def tame_def split: option.split)
    ultimately show "due calls x u2 = due calls (Some ac) u \<and> plain_or_gone x" using f(2) assms(1) by (simp add: Let_def split: option.split)
  qed
qed

lemma redisAsyncDisconnect_now_names:
  assumes "tame U calls G" "G \<subseteq> {REDIS_DISCONNECTING, REDIS_FREEING}" "plain ac"
  shows "ends_well calls (due calls (Some ac) u) (redisAsyncDisconnect_now M U ac s h u)"
proof -
  have p: "plain (redisAsyncCopyError ac)" "plain (set_flag REDIS_DISCONNECTING (redisAsyncCopyError ac))"
    "ac_replies (redisAsyncCopyError ac) = ac_replies ac" "ac_replies (set_flag REDIS_DISCONNECTING (redisAsyncCopyError ac)) = ac_replies ac"
    using assms(3) by (auto simp: plain_def redisAsyncCopyError_def set_flag_def)
  show ?thesis
    using redisAsyncFree_now_names [OF assms(1,2) p(1), of u M s h] redisAsyncFree_now_names [OF assms(1,2) p(2), of u M s h] p(3,4)
    by (auto simp: redisAsyncDisconnect_now_def Let_def)
qed

lemma plain_upd [simp]:
  "plain (ac\<lparr>ac_replies := l\<rparr>) = plain ac" "rc_flags c = ac_flags ac \<Longrightarrow> plain (ac\<lparr>ac_c := c\<rparr>) = plain ac"
  by (simp_all add: plain_def)

lemma redisGetReply_flags:
  assumes "redisGetReply M st c s h = Some (Inr (ok, p, c', s', h'))" "REDIS_BLOCK \<notin> rc_flags c"
  shows "rc_flags c' = rc_flags c"
  using assms by (auto simp: redisGetReply_def redisGetReplyFromReader_def bind_c_def Let_def split: sum.splits if_splits)

lemma no_more_names:
  assumes "tame U calls G" "G \<subseteq> {REDIS_DISCONNECTING, REDIS_FREEING}" "plain ac"
  shows "ends_well calls (due calls (Some ac) u) (no_more M U cb ac s h u)"
  using assms redisAsyncDisconnect_now_names [OF assms] by (auto simp: no_more_def plain_def split: option.split)

lemma callback_for_names:
  assumes "callback_for M h p cb ac = Inr r" "plain ac"
  shows "case r of Inl (t, ac') \<Rightarrow> ac' = ac | Inr (cb', ac') \<Rightarrow> ac_replies ac = cb' # ac_replies ac' \<and> plain ac'"
  using assms by (auto simp: callback_for_def redisShiftCallback_def assert_c_def bind_c_Inr_iff plain_def split: list.splits if_splits)
text \<open>Where the code goes on only after a step that succeeded.\<close>

lemma ends_well_case:
  "ends_well calls ns (case r of Inl e \<Rightarrow> Some (Inl e) | Inr x \<Rightarrow> f x) \<longleftrightarrow> (\<forall>x. r = Inr x \<longrightarrow> ends_well calls ns (f x))"
  "ends_well calls ns (case opt of None \<Rightarrow> None | Some (Inl e) \<Rightarrow> Some (Inl e) | Some (Inr x) \<Rightarrow> f x) \<longleftrightarrow>
     (\<forall>x. opt = Some (Inr x) \<longrightarrow> ends_well calls ns (f x))"
  by (auto split: option.split sum.split)

lemma process_reply_names:
  assumes "tame U calls G" "G \<subseteq> {REDIS_DISCONNECTING, REDIS_FREEING}" "plain ac" "callback_for M h p cb ac = Inr r"
    "\<And>cb ac s h u. plain ac \<Longrightarrow> ends_well calls (due calls (Some ac) u) (go cb ac s h u)"
  shows "ends_well calls (due calls (Some ac) u)
    (case r of
       Inl (t, ac) \<Rightarrow>
         (case freeReplyObject p h of
            Inl e \<Rightarrow> Some (Inl e)
          | Inr h \<Rightarrow> redisAsyncDisconnect_now M U (ac\<lparr>ac_c := redisSetError (ac_c ac) REDIS_ERR_OTHER t\<rparr>) s h u)
     | Inr (cb, ac) \<Rightarrow>
         (case redisRunCallback U cb p h ac u of (ac, u) \<Rightarrow>
            (case freeReplyObject p h of
               Inl e \<Rightarrow> Some (Inl e)
             | Inr h \<Rightarrow>
                 if cb_fn cb \<noteq> None \<and> REDIS_FREEING \<in> ac_flags ac then redisAsyncFree_now M U ac s h u
                 else go cb ac s h u)))"
proof (cases r)
  case (Inl x)
  then obtain t where x: "x = (t, ac)" using callback_for_names [OF assms(4,3)] by (cases x) auto
  have "plain (ac\<lparr>ac_c := redisSetError (ac_c ac) REDIS_ERR_OTHER t\<rparr>)" using assms(3) by simp
  from redisAsyncDisconnect_now_names [OF assms(1,2) this] show ?thesis using Inl x by (simp add: ends_well_case)
next
  case (Inr x)
  obtain cb1 ac1 where x: "x = (cb1, ac1)" by fastforce
  have ac1: "ac_replies ac = cb1 # ac_replies ac1" "plain ac1" using callback_for_names [OF assms(4,3)] Inr x by simp_all
  obtain ac2 u2 where run: "redisRunCallback U cb1 p h ac1 u = (ac2, u2)" by fastforce
  have d: "due calls (Some ac2) u2 = due calls (Some ac) u" "plain ac2"
    using redisRunCallback_names [OF assms(1,2) run] ac1 names_Cons [of cb1 "ac_replies ac1"] by (simp_all add: same_queues_def)
  show ?thesis using Inr x run redisAsyncFree_now_names [OF assms(1,2) d(2), of u2] assms(5) [OF d(2), of u2] d(1) by (simp add: ends_well_case)
qed

lemma process_body_names:
  assumes "tame U calls G" "G \<subseteq> {REDIS_DISCONNECTING, REDIS_FREEING}" "plain ac" "redisGetReply M st (ac_c ac) s h = Some (Inr (ok, p, c, s1, h1))"
  shows "plain (ac\<lparr>ac_c := c\<rparr>)" "ends_well calls (due calls (Some ac) u) (redisAsyncDisconnect_now M U (ac\<lparr>ac_c := c\<rparr>) s1 h1 u)"
    "ends_well calls (due calls (Some ac) u) (no_more M U cb (ac\<lparr>ac_c := c\<rparr>) s1 h1 u)"
proof -
  have "rc_flags c = ac_flags ac" using redisGetReply_flags [OF assms(4)] assms(3) by (simp add: plain_def)
  then show p: "plain (ac\<lparr>ac_c := c\<rparr>)" using assms(3) by simp
  show "ends_well calls (due calls (Some ac) u) (redisAsyncDisconnect_now M U (ac\<lparr>ac_c := c\<rparr>) s1 h1 u)"
    "ends_well calls (due calls (Some ac) u) (no_more M U cb (ac\<lparr>ac_c := c\<rparr>) s1 h1 u)"
    using redisAsyncDisconnect_now_names [OF assms(1,2) p, of u M s1 h1] no_more_names [OF assms(1,2) p, of u M cb s1 h1] by simp_all
qed

lemma process_loop_names:
  assumes "tame U calls G" "G \<subseteq> {REDIS_DISCONNECTING, REDIS_FREEING}" "plain ac"
  shows "ends_well calls (due calls (Some ac) u) (process_loop M st U cb ac s h u)"
proof (cases "process_loop M st U cb ac s h u")
  case (Some y)
  let ?P = "\<lambda>M st U cb ac s h u y. tame U calls G \<longrightarrow> plain ac \<longrightarrow> ends_well calls (due calls (Some ac) u) (Some y)"
  have "?P M st U cb ac s h u y"
  proof (rule process_loop.raw_induct [where P = ?P, OF _ Some], intro impI, goal_cases)
    case (1 rec M st U cb ac s h u y)
    have rec: "ends_well calls (due calls (Some ac) u) (rec M st U cb ac s h u)" if "plain ac" for cb ac s h u
      using 1(1) [of M st U cb ac s h u] 1(3) that by (cases "rec M st U cb ac s h u") auto
    note body = process_body_names [OF 1(3) assms(2) 1(4)]
    show ?case unfolding 1(2) [symmetric] ends_well_case
      using body process_reply_names [OF 1(3) assms(2), where go = "rec M st U", OF body(1)] rec
      by (auto simp: Let_def ends_well_case)
  qed
  then show ?thesis using assms Some by simp
qed simp

lemma redisBufferRead_flags:
  assumes "redisBufferRead M st c s h = Some (Inr (ok, c', s', h'))"
  shows "rc_flags c' = rc_flags c"
  using assms
  by (auto simp: redisBufferRead_def bind_c_Inr_iff Let_def split: if_splits option.splits prod.splits read_result.splits)

lemma redisBufferWrite_flags:
  assumes "redisBufferWrite M st c s = Some (Inr (ok, fin, c', s'))"
  shows "rc_flags c' = rc_flags c"
proof (cases "rc_err c \<noteq> 0 \<or> rc_obuf c = None")
  case False
  then obtain ob where ob: "rc_obuf c = Some ob" "rc_err c = 0" by auto
  show ?thesis
  proof (cases "sock_write (content ob) s")
    case None
    then show ?thesis using assms ob by (auto simp: redisBufferWrite_def dest: write_doneD split: if_splits)
  next
    case (Some r)
    then obtain w s1 where r: "r = (w, s1)" by fastforce
    show ?thesis using assms ob Some r
      by (cases w) (auto simp: redisBufferWrite_def bind_c_Inr_iff dest: write_doneD split: if_splits)
  qed
qed (use assms in \<open>auto simp: redisBufferWrite_def split: if_splits option.splits\<close>)

lemma when_connected_names:
  assumes "tame U calls G" "G \<subseteq> {REDIS_DISCONNECTING, REDIS_FREEING}" "plain ac"
    "\<And>ac u. plain ac \<Longrightarrow> ends_well calls (due calls (Some ac) u) (go ac u)"
  shows "ends_well calls (due calls (Some ac) u) (when_connected M st U so ac s h u go)"
proof -
  obtain ok c where c: "redisCheckSocketError st so (ac_c ac) = (ok, c)" by fastforce
  then have "rc_flags c = ac_flags ac" by (auto simp: redisCheckSocketError_def split: so_error.splits)
  then have p: "plain (ac\<lparr>ac_c := c\<rparr>)" "plain (set_flag REDIS_CONNECTED (ac\<lparr>ac_c := c\<rparr>))"
    using assms(3) by (auto simp: set_flag_def plain_def)
  have sc: "calls (say_connected U status ac u) = calls u" for status ac u
    using assms(1) by (auto simp: say_connected_def tame_def split: option.split)
  let ?ac = "ac\<lparr>ac_c := c\<rparr>"
  have 1: "ends_well calls (due calls (Some ac) u) (redisAsyncDisconnect_now M U ?ac s h (say_connected U REDIS_ERR ?ac u))"
    using redisAsyncDisconnect_now_names [OF assms(1,2) p(1), of "say_connected U REDIS_ERR ?ac u" M s h] by (simp add: sc)
  have 2: "ends_well calls (due calls (Some ac) u) (go (set_flag REDIS_CONNECTED ?ac) (say_connected U REDIS_OK (set_flag REDIS_CONNECTED ?ac) u))"
    using assms(4) [OF p(2), of "say_connected U REDIS_OK (set_flag REDIS_CONNECTED ?ac) u"] by (simp add: sc) (simp add: set_flag_def)
  show ?thesis
    using 1 2 p(1) c assms(4) [OF assms(3), of u] by (simp add: when_connected_def redisAsyncHandleConnect_def Let_def)
qed

lemma redisAsyncHandleRead_names:
  assumes "tame U calls G" "G \<subseteq> {REDIS_DISCONNECTING, REDIS_FREEING}" "plain ac"
  shows "ends_well calls (due calls (Some ac) u) (redisAsyncHandleRead M st U so ac s h u)"
  unfolding redisAsyncHandleRead_def
proof (rule when_connected_names [OF assms], unfold ends_well_case, intro allI impI)
  fix ac u x assume p: "plain ac" and x: "redisBufferRead M st (ac_c ac) s h = Some (Inr x)"
  obtain ok c s1 h1 where x': "x = (ok, c, s1, h1)" using prod_cases4 by blast
  have "plain (ac\<lparr>ac_c := c\<rparr>)" using redisBufferRead_flags [of M st "ac_c ac" s h ok c s1 h1] x x' p by simp
  from redisAsyncDisconnect_now_names [OF assms(1,2) this, of u M s1 h1]
    process_loop_names [OF assms(1,2) this, of "call_hook U AddRead (ac\<lparr>ac_c := c\<rparr>) u" M st no_callback s1 h1]
  show "ends_well calls (due calls (Some ac) u) (case x of (ok, c, s, h) \<Rightarrow> let ac = ac\<lparr>ac_c := c\<rparr> in
      if ok = REDIS_ERR then redisAsyncDisconnect_now M U ac s h u else redisProcessCallbacks M st U ac s h (call_hook U AddRead ac u))"
    using assms(1) x' by (simp add: redisProcessCallbacks_def Let_def)
qed

lemma redisAsyncHandleWrite_names:
  assumes "tame U calls G" "G \<subseteq> {REDIS_DISCONNECTING, REDIS_FREEING}" "plain ac"
  shows "ends_well calls (due calls (Some ac) u) (redisAsyncHandleWrite M st U so ac s h u)"
  unfolding redisAsyncHandleWrite_def
proof (rule when_connected_names [OF assms], unfold ends_well_case, intro allI impI)
  fix ac u x assume p: "plain ac" and x: "redisBufferWrite M st (ac_c ac) s = Some (Inr x)"
  obtain ok fin c s1 where x': "x = (ok, fin, c, s1)" using prod_cases4 by blast
  have "plain (ac\<lparr>ac_c := c\<rparr>)" using redisBufferWrite_flags [of M st "ac_c ac" s ok fin c s1] x x' p by simp
  with redisAsyncDisconnect_now_names [OF assms(1,2) this, of u M s1 h]
  show "ends_well calls (due calls (Some ac) u) (case x of (ok, fin, c, s) \<Rightarrow> let ac = ac\<lparr>ac_c := c\<rparr> in
      if ok = REDIS_ERR then redisAsyncDisconnect_now M U ac s h u
      else Some (Inr (Some ac, s, h, call_hook U AddRead ac (call_hook U (if fin then DelWrite else AddWrite) ac u))))"
    using assms(1) x' by (simp add: Let_def)
qed

lemma redisAsyncFree_names:
  assumes "tame U calls G" "G \<subseteq> {REDIS_DISCONNECTING, REDIS_FREEING}" "plain ac"
  shows "ends_well calls (due calls (Some ac) u) (redisAsyncFree M U ac s h u)"
    "ends_well calls (due calls (Some ac) u) (redisAsyncDisconnect M U ac s h u)"
proof -
  have p: "plain (set_flag REDIS_FREEING ac)" "plain (set_flag REDIS_DISCONNECTING ac)"
      "ac_replies (set_flag f ac) = ac_replies ac" for f using assms(3) by (auto simp: set_flag_def plain_def)
  show "ends_well calls (due calls (Some ac) u) (redisAsyncFree M U ac s h u)"
    using redisAsyncFree_now_names [OF assms(1,2) p(1), of u M s h] p by (simp add: redisAsyncFree_def Let_def)
  show "ends_well calls (due calls (Some ac) u) (redisAsyncDisconnect M U ac s h u)"
    using redisAsyncDisconnect_now_names [OF assms(1,2) p(2), of u M s h] p by (auto simp: redisAsyncDisconnect_def Let_def)
qed
section \<open>Reading the text of a command\<close>

lemma strchr_at_found:
  assumes "\<forall>y \<in> set w. y \<noteq> x \<and> y \<noteq> NUL"
  shows "strchr_at (pre @ w @ x # r) (length pre) x = Inr (Some (length pre + length w))"
  using assms
proof (induction w arbitrary: pre)
  case Nil
  then show ?case by (subst strchr_at.simps) simp
next
  case (Cons y w)
  then show ?case using Cons.IH [of "pre @ [y]"] by (subst strchr_at.simps) simp
qed

lemma isdigit_not_special: "isdigit y \<Longrightarrow> y \<noteq> CHR ''$'' \<and> y \<noteq> NUL \<and> y \<noteq> CR \<and> \<not> isspace y \<and> y \<noteq> CHR ''-'' \<and> y \<noteq> CHR ''+''"
  by (auto simp: isdigit_def isspace_def char_code_def)

lemma strtol10_dec:
  assumes "n < 2 ^ 31"
  shows "strtol10 (cstr (dec n @ CR # r)) = int n"
proof -
  have t: "cstr (dec n @ CR # r) = dec n @ CR # cstr r"
    using dec_isdigit isdigit_not_special by (auto simp: cstr_def takeWhile_append)
  obtain y ys where y: "dec n = y # ys" by (cases "dec n") auto
  have "isdigit y" using dec_isdigit [of y n] y by simp
  then have "dropWhile isspace (dec n @ CR # cstr r) = dec n @ CR # cstr r" "hd (dec n @ CR # cstr r) \<noteq> CHR ''-''" "hd (dec n @ CR # cstr r) \<noteq> CHR ''+''"
    using isdigit_not_special [of y] y by simp_all
  moreover have "takeWhile isdigit (dec n @ CR # cstr r) = dec n"
    using dec_isdigit by (simp add: takeWhile_append isdigit_def char_code_def)
  ultimately show ?thesis using assms by (simp add: strtol10_def t Let_def)
qed

lemma nextArgument_bulk:
  assumes "pre @ w @ bulk a @ r = b" "\<forall>y \<in> set w. y \<noteq> CHR ''$'' \<and> y \<noteq> NUL" "length b \<le> 2 ^ 31"
  shows "nextArgument b (length pre) = Inr (Some (length (pre @ w @ bulk a), length (pre @ w) + 1 + length (dec (length a)) + 2, length a))"
proof -
  let ?p = "length (pre @ w)" and ?n = "length (dec (length a))"
  have b: "b = pre @ w @ CHR ''$'' # dec (length a) @ CR # LF # a @ CRLF @ r" using assms(1) by (simp add: bulk_def)
  have a: "length a < 2 ^ 31" using assms(3) b by simp
  have x: "rd b (length pre) = Inr (case w of [] \<Rightarrow> CHR ''$'' | y # _ \<Rightarrow> y)" using b by (cases w) simp_all
  have 1: "strchr_at b (length pre) CHR ''$'' = Inr (Some ?p)" using strchr_at_found [OF assms(2)] b by simp
  have "\<forall>y \<in> set (CHR ''$'' # dec (length a)). y \<noteq> CR \<and> y \<noteq> NUL" using dec_isdigit isdigit_not_special by auto
  from strchr_at_found [OF this, of "pre @ w" "LF # a @ CRLF @ r"] have 2: "strchr_at b ?p CR = Inr (Some (?p + (1 + ?n)))" using b by simp
  have "drop (?p + 1) b = dec (length a) @ CR # LF # a @ CRLF @ r" using b by simp
  then have 3: "strtol10 (cstr (drop (?p + 1) b)) = int (length a)" using strtol10_dec [OF a] by simp
  have 4: "size64 (int32 (int (length a))) = length a" using a by (simp add: int32_id)
  have "length (pre @ w @ bulk a) = ?p + (1 + ?n) + 2 + length a + 2" by (simp add: bulk_def)
  moreover have "length (pre @ w @ bulk a) \<le> length b" using assms(1) by auto
  ultimately have 5: "?p + (1 + ?n) + 2 + length a + 2 = length (pre @ w @ bulk a)" "length (pre @ w @ bulk a) < 2 ^ 64" using assms(3) by simp_all
  then have 5: "size64 (int (?p + (1 + ?n) + 2 + length a + 2)) = length (pre @ w @ bulk a)" by (simp only: size64_nat)
  have "(if (case w of [] \<Rightarrow> CHR ''$'' | y # _ \<Rightarrow> y) \<noteq> CHR ''$'' then strchr_at b (length pre) CHR ''$'' else Inr (Some (length pre))) = Inr (Some ?p)"
    using 1 assms(2) by (cases w) simp_all
  then show ?thesis unfolding nextArgument_def x using 2 3 4 5 by (simp add: Let_def)
qed

lemma tolower_CR [simp]: "tolower CR = CR" "tolower LF = LF" "tolower y = CR \<longleftrightarrow> y = CR"
proof -
  show "tolower CR = CR" "tolower LF = LF" by (simp_all add: tolower_def char_code_def)
  show "tolower y = CR \<longleftrightarrow> y = CR"
  proof (cases "65 \<le> char_code y \<and> char_code y \<le> 90")
    case True
    then have "char_code (tolower y) = char_code y + 32" using char_code_char_of [of "char_code y + 32"] by (simp add: tolower_def)
    then have "char_code (tolower y) \<noteq> char_code CR" "char_code y \<noteq> char_code CR" using True by (simp_all add: char_code_def)
    then show ?thesis by auto
  qed (auto simp: tolower_def)
qed

lemma strncasecmp_word:
  assumes "CR \<notin> set t" "CR \<notin> set w"
  shows "strncasecmp_eq (pre @ t @ CR # LF # r) (length pre) (w @ CRLF) = Inr (map tolower t = map tolower w)"
  using assms
proof (induction w arbitrary: pre t)
  case Nil
  then show ?case by (cases t) (auto simp: nth_append)
next
  case (Cons x w)
  show ?case
  proof (cases t)
    case Nil
    have "x \<noteq> CR" using Cons.prems(2) by auto
    then have "CR \<noteq> tolower x" using tolower_CR(3) [of x] by metis
    then show ?thesis using Nil by simp
  next
    case (Cons y ys)
    then show ?thesis using Cons.IH [of ys "pre @ [y]"] Cons.prems by (auto simp: nth_append)
  qed
qed
text \<open>Commands whose reply goes to the callback in the queue.\<close>

definition ordinary :: "bytes list \<Rightarrow> bool" where
  "ordinary args \<longleftrightarrow> args \<noteq> [] \<and> CR \<notin> set (hd args) \<and>
     map tolower (hd args) \<notin> {''subscribe'', ''psubscribe'', ''unsubscribe'', ''punsubscribe'', ''monitor'', ''pmonitor''}"

lemma register_callback_ordinary:
  assumes "ordinary args" "plain ac" "length (resp_cmd args @ z) \<le> 2 ^ 31" "z \<noteq> [] \<or> 1 < length args"
  shows "register_callback M cb (resp_cmd args @ z) ac = Some (Inr (Some (ac\<lparr>ac_replies := snd (redisPushCallback M (ac_replies ac) cb)\<rparr>)))"
proof -
  obtain nm as where args: "args = nm # as" "CR \<notin> set nm" using assms(1) by (cases args) (auto simp: ordinary_def)
  let ?b = "resp_cmd args @ z" and ?w = "CHR ''*'' # dec (length args) @ CRLF" and ?r = "concat (map bulk as) @ z"
  have b: "[] @ ?w @ bulk nm @ ?r = ?b" by (simp add: resp_cmd_def args)
  have "\<forall>y \<in> set ?w. y \<noteq> CHR ''$'' \<and> y \<noteq> NUL" using dec_isdigit isdigit_not_special by auto
  from nextArgument_bulk [OF b this assms(3)]
  have n: "nextArgument ?b 0 = Inr (Some (length (?w @ bulk nm), length ?w + 1 + length (dec (length nm)) + 2, length nm))" by simp
  let ?p = "length (?w @ bulk nm)" and ?i = "length ?w + 1 + length (dec (length nm)) + 2"
  let ?pre = "?w @ CHR ''$'' # dec (length nm) @ CRLF" and ?t = "\<lambda>u. u @ CR # LF # ?r"
  have bt: "?b = ?pre @ ?t nm" by (simp add: resp_cmd_def args bulk_def)
  have "?r \<noteq> []" using assms(4) args(1) by (cases as) (auto simp: bulk_def)
  then obtain x r' where "?r = x # r'" by (cases ?r) auto
  then have bp: "?b = (?w @ bulk nm) @ x # r'" using b by (metis append.assoc append_Nil)
  have at: "rd (l @ c # k) (length l) = Inr c" for l k :: bytes and c by (simp add: rd_def)
  have x: "rd ?b ?p = Inr x" unfolding bp by (rule at)
  have i: "?i = length ?pre" by simp
  obtain y v where v: "nm @ CR # LF # ?r = y # v" by (cases nm) auto
  then have y: "rd ?b ?i = Inr y" unfolding bt i by (simp only: at)
  have words: "CR \<notin> set (''subscribe'' :: bytes)" "CR \<notin> set (''unsubscribe'' :: bytes)" "CR \<notin> set (''monitor'' :: bytes)" by simp_all
  have low: "map tolower ''subscribe'' = ''subscribe''" "map tolower ''unsubscribe'' = ''unsubscribe''" "map tolower ''monitor'' = ''monitor''"
    by (simp_all add: tolower_def char_code_def)
  have no: "strncasecmp_eq ?b (if tolower y = CHR ''p'' then ?i + 1 else ?i) (wd @ CRLF) = Inr False" if wd: "wd \<in> {''subscribe'', ''unsubscribe'', ''monitor''}" for wd
  proof (cases "tolower y = CHR ''p''")
    case True
    then obtain nm' where nm': "nm = y # nm'" using v by (cases nm) (auto simp: tolower_def char_code_def)
    have "map tolower nm' \<noteq> map tolower wd" using assms(1) wd low nm' args True by (auto simp: ordinary_def)
    then show ?thesis using strncasecmp_word [of nm' wd "?pre @ [y]" ?r] bt nm' args(2) wd words True by auto
  next
    case False
    have "map tolower nm \<noteq> map tolower wd" using assms(1) wd low args by (auto simp: ordinary_def)
    then show ?thesis using strncasecmp_word [of nm wd ?pre ?r] bt args(2) wd words False by auto
  qed
  have fl: "REDIS_SUBSCRIBED \<notin> ac_flags ac" using assms(2) by (auto simp: plain_def)
  show ?thesis unfolding register_callback_def n sum.case option.case prod.case x y bind_c_simps Let_def
    using no [of "''subscribe''"] no [of "''unsubscribe''"] no [of "''monitor''"] fl by simp
qed
lemma redisAppendCommand_raw_flags: "redisAppendCommand_raw M c cmd = Inr (ok, c') \<Longrightarrow> rc_flags c' = rc_flags c"
  by (auto simp: redisAppendCommand_raw_def bind_c_Inr_iff split: option.splits)

lemma redisAsyncCommandArgv_eq:
  assumes "ordinary args" "plain ac" "length (resp_cmd args) + 1 < sds_cap" "\<forall>n. mem_ok M n"
  shows "redisAsyncCommandArgv M U cb (int (length args)) args (Some (map length args)) ac u =
    (if REDIS_DISCONNECTING \<in> ac_flags ac \<or> REDIS_FREEING \<in> ac_flags ac then Some (Inr (REDIS_ERR, ac, u))
     else Some (bind_c (redisAppendCommand_raw M (ac_c ac) (resp_cmd args)) (\<lambda>(_, c).
       let ac = ac\<lparr>ac_replies := ac_replies ac @ [cb], ac_c := c\<rparr> in Inr (REDIS_OK, ac, call_hook U AddWrite ac u))))"
proof -
  obtain s where s: "redisFormatSdsCommandArgv M True (int (length args)) args (Some (map length args)) = Inr (int (length (resp_cmd args)), Some s)"
      "sds_ok s" "content s = resp_cmd args"
    using redisFormatSdsCommandArgv_resp [OF argv_texts_lengths, of args M] assms(3,4) by auto
  then obtain z where z: "sh_buf s = resp_cmd args @ NUL # z" "length (resp_cmd args) + length z < 2 ^ 31" by (auto elim!: sds_ok_cases)
  have "register_callback M cb (sh_buf s) ac = Some (Inr (Some (ac\<lparr>ac_replies := ac_replies ac @ [cb]\<rparr>)))"
    using register_callback_ordinary [OF assms(1,2), of "NUL # z" M cb] z assms(4) by (simp add: redisPushCallback_def)
  moreover have "size64 (int (length (resp_cmd args))) = length (resp_cmd args)" using z(2) by simp
  ultimately show ?thesis using s(1) z(1) by (simp add: redisAsyncCommandArgv_def redisAsyncCommand_raw_def arg_bytes_def)
qed

lemma redisAsyncCommandArgv_names:
  assumes "tame U calls G" "ordinary args" "plain ac" "length (resp_cmd args) + 1 < sds_cap" "\<forall>n. mem_ok M n"
    "redisAsyncCommandArgv M U cb (int (length args)) args (Some (map length args)) ac u = Some (Inr (ok, ac', u'))"
  shows "calls u' = calls u \<and> plain ac' \<and> (ok = REDIS_OK \<and> ac_replies ac' = ac_replies ac @ [cb] \<or> ok = REDIS_ERR \<and> ac_replies ac' = ac_replies ac)"
proof (cases "REDIS_DISCONNECTING \<in> ac_flags ac \<or> REDIS_FREEING \<in> ac_flags ac")
  case True
  then show ?thesis using assms(6) assms(3) unfolding redisAsyncCommandArgv_eq [OF assms(2-5)] by simp
next
  case False
  let ?ac = "\<lambda>c. ac\<lparr>ac_replies := ac_replies ac @ [cb], ac_c := c\<rparr>"
  obtain k c where "redisAppendCommand_raw M (ac_c ac) (resp_cmd args) = Inr (k, c)" "ac' = ?ac c" "u' = call_hook U AddWrite (?ac c) u" "ok = REDIS_OK"
    using assms(6) False unfolding redisAsyncCommandArgv_eq [OF assms(2-5)] by (auto simp: bind_c_Inr_iff Let_def)
  then show ?thesis using redisAppendCommand_raw_flags assms(1,3) by auto
qed

section \<open>Runs\<close>

datatype async_event = Command redisCallback "bytes list" | Readable so_error | Writable so_error | Disconnect | Free

text \<open>
  A run of the client: the application issues commands, the event library reports that the socket can be read or
  written, the application disconnects or releases the context. The last component collects the callbacks of the
  commands that were accepted.
\<close>

type_synonym 'u async_state = "redisAsyncContext option \<times> sock \<times> rheap \<times> 'u \<times> redisCallback list"

inductive async_step :: "mem \<Rightarrow> (errno \<Rightarrow> bytes) \<Rightarrow> 'u app \<Rightarrow> 'u async_state \<Rightarrow> async_event \<Rightarrow> 'u async_state \<Rightarrow> bool" for M st U where
  issue: "redisAsyncCommandArgv M U cb (int (length args)) args (Some (map length args)) ac u = Some (Inr (ok, ac', u')) \<Longrightarrow>
    async_step M st U (Some ac, s, h, u, iss) (Command cb args) (Some ac', s, h, u', if ok = REDIS_OK then iss @ [cb] else iss)"
| readable: "redisAsyncHandleRead M st U so ac s h u = Some (Inr (x, s', h', u')) \<Longrightarrow>
    async_step M st U (Some ac, s, h, u, iss) (Readable so) (x, s', h', u', iss)"
| writable: "redisAsyncHandleWrite M st U so ac s h u = Some (Inr (x, s', h', u')) \<Longrightarrow>
    async_step M st U (Some ac, s, h, u, iss) (Writable so) (x, s', h', u', iss)"
| disconnect: "redisAsyncDisconnect M U ac s h u = Some (Inr (x, s', h', u')) \<Longrightarrow>
    async_step M st U (Some ac, s, h, u, iss) Disconnect (x, s', h', u', iss)"
| free: "redisAsyncFree M U ac s h u = Some (Inr (x, s', h', u')) \<Longrightarrow>
    async_step M st U (Some ac, s, h, u, iss) Free (x, s', h', u', iss)"

inductive async_run :: "mem \<Rightarrow> (errno \<Rightarrow> bytes) \<Rightarrow> 'u app \<Rightarrow> 'u async_state \<Rightarrow> async_event list \<Rightarrow> 'u async_state \<Rightarrow> bool" for M st U where
  start: "async_run M st U S [] S"
| next_event: "async_step M st U S e S1 \<Longrightarrow> async_run M st U S1 es S2 \<Longrightarrow> async_run M st U S (e # es) S2"

inductive_cases async_stepE: "async_step M st U (x, s, h, u, iss) e S'"

definition ordinary_event :: "async_event \<Rightarrow> bool" where
  "ordinary_event e = (case e of Command cb args \<Rightarrow> ordinary args \<and> length (resp_cmd args) + 1 < sds_cap | _ \<Rightarrow> True)"

definition balanced :: "('u \<Rightarrow> call list) \<Rightarrow> (nat \<times> nat) list \<Rightarrow> 'u async_state \<Rightarrow> bool" where
  "balanced calls before = (\<lambda>(x, s, h, u, iss). due calls x u = before @ names iss \<and> plain_or_gone x)"

lemma async_step_balanced:
  assumes "tame U calls G" "G \<subseteq> {REDIS_DISCONNECTING, REDIS_FREEING}" "\<forall>n. mem_ok M n" "ordinary_event e"
    "async_step M st U S e S'" "balanced calls before S"
  shows "balanced calls before S'"
proof -
  obtain x s h u iss where S: "S = (x, s, h, u, iss)" using prod_cases5 by blast
  obtain ac where x: "x = Some ac" using assms(5) S by (auto elim: async_stepE)
  have pl: "plain ac" and d: "due calls (Some ac) u = before @ names iss" using assms(6) S x by (simp_all add: balanced_def)
  note w = redisAsyncHandleRead_names [OF assms(1,2) pl, of u M st _ s h] redisAsyncHandleWrite_names [OF assms(1,2) pl, of u M st _ s h]
    redisAsyncFree_names [OF assms(1,2) pl, of u M s h]
  show ?thesis
  proof (cases e)
    case (Command cb args)
    then obtain ok ac' u' where c: "redisAsyncCommandArgv M U cb (int (length args)) args (Some (map length args)) ac u = Some (Inr (ok, ac', u'))"
        "S' = (Some ac', s, h, u', if ok = REDIS_OK then iss @ [cb] else iss)" using assms(5) S x by (auto elim: async_stepE)
    have "ordinary args" "length (resp_cmd args) + 1 < sds_cap" using assms(4) Command by (simp_all add: ordinary_event_def)
    from redisAsyncCommandArgv_names [OF assms(1) this(1) pl this(2) assms(3) c(1)] show ?thesis using d c(2) by (auto simp: balanced_def)
  next
    case (Readable so)
    then show ?thesis using assms(5) [unfolded S x Readable] w(1) [of so] d by (auto simp: balanced_def elim!: async_stepE)
  next
    case (Writable so)
    then show ?thesis using assms(5) [unfolded S x Writable] w(2) [of so] d by (auto simp: balanced_def elim!: async_stepE)
  qed (use assms(5) S x w(3,4) d in \<open>auto simp: balanced_def elim!: async_stepE\<close>)
qed

lemma async_run_balanced:
  assumes "async_run M st U S es S'" "tame U calls G" "G \<subseteq> {REDIS_DISCONNECTING, REDIS_FREEING}" "\<forall>n. mem_ok M n" "list_all ordinary_event es"
    "balanced calls before S"
  shows "balanced calls before S'"
  using assms(1,5,6)
proof (induction rule: async_run.induct)
  case (next_event S e S1 es S2)
  then show ?case using async_step_balanced [OF assms(2-4) _ next_event.hyps(1)] by simp
qed simp
section \<open>Replies to their callbacks\<close>

text \<open>
  The calls for the replies \<open>ts\<close>: callback by callback in the order of the queue, each with a reply that is on the
  heap for the time of the call only.
\<close>

fun delivered :: "rheap \<Rightarrow> redisCallback list \<Rightarrow> reply list \<Rightarrow> call list" where
  "delivered h (cb # cbs) (t # ts) =
     (case cb_fn cb of None \<Rightarrow> [] | Some fn \<Rightarrow> [(fn, cb_privdata cb, length h + 1, h @ map Some (layout (length h + 1) t))]) @
     delivered (h @ replicate (nodes t) None) cbs ts"
| "delivered h _ _ = []"

fun spent :: "rheap \<Rightarrow> reply list \<Rightarrow> rheap" where
  "spent h [] = h"
| "spent h (t # ts) = spent (h @ replicate (nodes t) None) ts"

lemma delivered_append: "length ts \<le> length cbs \<Longrightarrow> delivered h cbs (ts @ us) = delivered h cbs ts @ delivered (spent h ts) (drop (length ts) cbs) us"
proof (induction ts arbitrary: h cbs)
  case (Cons t ts)
  then show ?case by (cases cbs) auto
qed simp

lemma spent_append: "spent h (ts @ us) = spent (spent h ts) us"
  by (induction ts arbitrary: h) auto

definition active :: "redisAsyncContext \<Rightarrow> bool" where
  "active ac \<longleftrightarrow> plain ac \<and> {REDIS_DISCONNECTING, REDIS_FREEING} \<inter> ac_flags ac = {} \<and> REDIS_CONNECTED \<in> ac_flags ac"

lemma free_reply:
  assumes "t \<noteq> Absent"
  shows "freeReplyObject (length h + 1) (h @ map Some (layout (length h + 1) t)) = Inr (h @ replicate (nodes t) None)"
  using free_layout(1) [of "length h + 1" h t "length (h @ map Some (layout (length h + 1) t))" "[]"] assms
  by (simp add: freeReplyObject_def root_def del: free_obj.simps)

lemma getReply_nonblocking:
  assumes "REDIS_BLOCK \<notin> rc_flags c" "redisGetReplyFromReader c h = Inr (REDIS_OK, p, c', h')" "rc_flags c' = rc_flags c"
  shows "redisGetReply M st c s h = Some (Inr (REDIS_OK, p, c', s, h'))"
  using assms by (simp add: redisGetReply_def)

lemma quiet_call: "clear_flag x (raise_flags {} (set_flag x ac)) = ac\<lparr>ac_c := (ac_c ac)\<lparr>rc_flags := ac_flags ac - {x}\<rparr>\<rparr>"
  by (simp add: clear_flag_def raise_flags_def set_flag_def)

lemma process_loop_delivers:
  assumes "tame U calls {}" "\<forall>n. mem_ok M n" "active ac" "conn_at M h0 rs ty b (ac_c ac) h" "expects rs ty (b @ later) ts"
    "length ts \<le> length (ac_replies ac)" "list_all (\<lambda>t. t \<noteq> Absent) ts"
  shows "\<exists>ts1 ts2 ac' rs' ty' b' h' u'. process_loop M st U cb ac s h u = Some (Inr (Some ac', s, h', u')) \<and> ts = ts1 @ ts2 \<and>
    calls u' = calls u @ delivered h0 (ac_replies ac) ts1 \<and> ac_replies ac' = drop (length ts1) (ac_replies ac) \<and> active ac' \<and>
    conn_at M (spent h0 ts1) rs' ty' b' (ac_c ac') h' \<and> expects rs' ty' (b' @ later) ts2 \<and> length b' \<le> length b \<and> parse rs' ty' b' = Need rs' ty' b'"
  using assms(3-)
proof (induction "length ts" arbitrary: ts h0 rs ty b ac h u cb rule: less_induct)
  case less
  have fl: "REDIS_BLOCK \<notin> ac_flags ac" "REDIS_DISCONNECTING \<notin> ac_flags ac" "REDIS_FREEING \<notin> ac_flags ac" "REDIS_MONITORING \<notin> ac_flags ac"
    using less.prems(1) by (auto simp: active_def plain_def)
  note step = reader_step [OF less.prems(2) assms(2), of s]
  show ?case
  proof (cases "parse rs ty b")
    case (Need rs' ty' b')
    then obtain c' h' where g: "redisGetReplyFromReader (ac_c ac) h = Inr (REDIS_OK, 0, c', h')" "conn_at M h0 rs' ty' b' c' h'" "same_out (ac_c ac) s c' s"
      using step by auto
    have "rc_flags c' = ac_flags ac" using g(3) by (simp add: same_out_def)
    then have "process_loop M st U cb ac s h u = Some (Inr (Some (ac\<lparr>ac_c := c'\<rparr>), s, h', u))" "active (ac\<lparr>ac_c := c'\<rparr>)"
      using getReply_nonblocking [OF fl(1) g(1)] fl less.prems(1)
      by (subst process_loop.simps, auto simp: no_more_def active_def Let_def split: option.split)
    then show ?thesis using g(2) expects_Need [OF less.prems(3) Need] parse_Need_shorter [OF Need] parse_Need_again [OF Need]
      by (intro exI [of _ "[]"] exI [of _ ts] exI [of _ "ac\<lparr>ac_c := c'\<rparr>"] exI [of _ rs'] exI [of _ ty'] exI [of _ b'] exI [of _ h'] exI [of _ u]) simp
  next
    case (Got t b')
    obtain ts' where ts: "ts = t # ts'" "expects [] None (b' @ later) ts'" using expects_Got [OF less.prems(3) Got] by blast
    let ?p = "length h0 + 1" and ?h = "h0 @ map Some (layout (length h0 + 1) t)" and ?h1 = "h0 @ replicate (nodes t) None"
    obtain c' where g: "redisGetReplyFromReader (ac_c ac) h = Inr (REDIS_OK, ?p, c', ?h)" "conn_at M ?h [] None b' c' ?h" "same_out (ac_c ac) s c' s"
      using step Got by auto
    have fc: "rc_flags c' = ac_flags ac" using g(3) by (simp add: same_out_def)
    obtain cb1 cbs where q: "ac_replies ac = cb1 # cbs" using less.prems(4) ts(1) by (cases "ac_replies ac") auto
    let ?ac = "ac\<lparr>ac_c := c', ac_replies := cbs\<rparr>"
    obtain ac2 u2 where run: "redisRunCallback U cb1 ?p ?h ?ac u = (ac2, u2)" by fastforce
    from redisRunCallback_tame [OF assms(1) _ run] have rn:
      "calls u2 = calls u @ (case cb_fn cb1 of None \<Rightarrow> [] | Some fn \<Rightarrow> [(fn, cb_privdata cb1, ?p, ?h)])" "same_queues ?ac ac2"
      "ac2 = ?ac \<or> ac2 = clear_flag REDIS_IN_CALLBACK (raise_flags {} (set_flag REDIS_IN_CALLBACK ?ac))" by auto
    have "ac_replies ac2 = cbs" using rn(2) by (simp add: same_queues_def)
    moreover have "rc_reader (ac_c ac2) = rc_reader c'" "rc_err (ac_c ac2) = rc_err c'" "ac_flags ac2 \<in> {ac_flags ac, ac_flags ac - {REDIS_IN_CALLBACK}}"
      using rn(3) fc unfolding quiet_call by (elim disjE; simp)+
    moreover have "plain ac2" using rn(2) less.prems(1) fc by (simp add: same_queues_def active_def)
    ultimately have a2: "active ac2" "ac_replies ac2 = cbs" "conn_at M ?h1 [] None b' (ac_c ac2) ?h1"
      using less.prems(1) conn_at_rebase [OF g(2), of ?h1] by (auto simp: active_def conn_at_def)
    have nf: "REDIS_FREEING \<notin> ac_flags ac2" using a2(1) by (auto simp: active_def)
    have l: "process_loop M st U cb ac s h u = process_loop M st U cb1 ac2 s ?h1 u2"
      using getReply_nonblocking [OF fl(1) g(1) fc] q run nf free_reply [of t h0] less.prems(5) ts(1)
      by (subst process_loop.simps) (simp add: callback_for_def redisShiftCallback_def)
    have "length ts' < length ts" "length ts' \<le> length (ac_replies ac2)" "list_all (\<lambda>t. t \<noteq> Absent) ts'" using ts(1) less.prems(4,5) a2(2) q by auto
    from less.hyps [OF this(1) a2(1,3) ts(2) this(2,3), of cb1 u2] obtain ts1 ts2 ac' rs' ty' b'' h' u' where
      ih: "process_loop M st U cb1 ac2 s ?h1 u2 = Some (Inr (Some ac', s, h', u'))" "ts' = ts1 @ ts2"
        "calls u' = calls u2 @ delivered ?h1 cbs ts1" "ac_replies ac' = drop (length ts1) cbs" "active ac'"
        "conn_at M (spent ?h1 ts1) rs' ty' b'' (ac_c ac') h'" "expects rs' ty' (b'' @ later) ts2" "length b'' \<le> length b'" "parse rs' ty' b'' = Need rs' ty' b''"
      unfolding a2(2) by blast
    have "length b'' \<le> length b" using ih(8) parse_Got_shorter [OF Got] by simp
    then show ?thesis using l ih ts(1) q rn(1)
      by (intro exI [of _ "t # ts1"] exI [of _ ts2] exI [of _ ac'] exI [of _ rs'] exI [of _ ty'] exI [of _ b''] exI [of _ h'] exI [of _ u']) simp
  qed (use expects_not_bad [OF less.prems(3)] in auto)
qed

fun read_events :: "nat \<Rightarrow> mem \<Rightarrow> (errno \<Rightarrow> bytes) \<Rightarrow> 'u app \<Rightarrow> redisAsyncContext \<Rightarrow> sock \<Rightarrow> rheap \<Rightarrow> 'u \<Rightarrow> 'u async_result" where
  "read_events 0 M st U ac s h u = Some (Inr (Some ac, s, h, u))"
| "read_events (Suc n) M st U ac s h u =
     (case redisAsyncHandleRead M st U SoOk ac s h u of
        Some (Inr (Some ac, s, h, u)) \<Rightarrow> read_events n M st U ac s h u
      | r \<Rightarrow> r)"

lemma HandleRead_delivers:
  assumes "tame U calls {}" "\<forall>n. mem_ok M n" "active ac" "conn_at M h0 rs ty b (ac_c ac) h" "expects rs ty (b @ x @ later) ts"
    "length ts \<le> length (ac_replies ac)" "list_all (\<lambda>t. t \<noteq> Absent) ts" "sk_reads s = Read x # es" "x \<noteq> []" "length x \<le> 16384"
    "1024 + length b + length x < sds_cap"
  shows "\<exists>ts1 ts2 ac' rs' ty' b' h' u'. redisAsyncHandleRead M st U SoOk ac s h u = Some (Inr (Some ac', s\<lparr>sk_reads := es\<rparr>, h', u')) \<and> ts = ts1 @ ts2 \<and>
    calls u' = calls u @ delivered h0 (ac_replies ac) ts1 \<and> ac_replies ac' = drop (length ts1) (ac_replies ac) \<and> active ac' \<and>
    conn_at M (spent h0 ts1) rs' ty' b' (ac_c ac') h' \<and> expects rs' ty' (b' @ later) ts2 \<and> length b' \<le> length b + length x \<and> parse rs' ty' b' = Need rs' ty' b'"
proof -
  obtain r where f: "redisReaderFeed M (rc_reader (ac_c ac)) (Some x) h = Inr (REDIS_OK, r, h)" "conn_at M h0 rs ty (b @ x) ((ac_c ac)\<lparr>rc_reader := r\<rparr>) h"
    using feed_step [OF assms(4,11,2)] by blast
  let ?c = "(ac_c ac)\<lparr>rc_reader := r\<rparr>" let ?ac = "ac\<lparr>ac_c := ?c\<rparr>" and ?s = "s\<lparr>sk_reads := es\<rparr>"
  have "rc_err (ac_c ac) = 0" using assms(4) by (simp add: conn_at_def)
  then have "redisBufferRead M st (ac_c ac) s h = Some (Inr (REDIS_OK, ?c, ?s, h))"
    using f(1) assms(8-10) by (simp add: redisBufferRead_def sock_read_def)
  moreover have "REDIS_CONNECTED \<in> ac_flags ac" "active ?ac" using assms(3) by (simp_all add: active_def)
  ultimately have l: "redisAsyncHandleRead M st U SoOk ac s h u = process_loop M st U no_callback ?ac ?s h (call_hook U AddRead ?ac u)"
    by (simp add: redisAsyncHandleRead_def when_connected_def redisProcessCallbacks_def Let_def)
  have e: "expects rs ty ((b @ x) @ later) ts" using assms(5) by simp
  have "conn_at M h0 rs ty (b @ x) (ac_c ?ac) h" "length ts \<le> length (ac_replies ?ac)" using f(2) assms(6) by simp_all
  from process_loop_delivers [OF assms(1,2) \<open>active ?ac\<close> this(1) e this(2) assms(7), of st no_callback ?s "call_hook U AddRead ?ac u"]
  show ?thesis unfolding l using assms(1) by simp
qed

lemma read_events_deliver:
  assumes "tame U calls {}" "\<forall>n. mem_ok M n" "active ac" "conn_at M h0 rs ty b (ac_c ac) h" "expects rs ty (b @ concat xs) ts"
    "length ts \<le> length (ac_replies ac)" "list_all (\<lambda>t. t \<noteq> Absent) ts" "sk_reads s = map Read xs @ es" "\<forall>x \<in> set xs. x \<noteq> [] \<and> length x \<le> 16384"
    "1024 + length b + length (concat xs) < sds_cap" "parse rs ty b = Need rs ty b"
  shows "\<exists>ac' h' u'. read_events (length xs) M st U ac s h u = Some (Inr (Some ac', s\<lparr>sk_reads := es\<rparr>, h', u')) \<and>
    calls u' = calls u @ delivered h0 (ac_replies ac) ts \<and> ac_replies ac' = drop (length ts) (ac_replies ac) \<and> active ac'"
  using assms(3-)
proof (induction xs arbitrary: ac h0 rs ty b h s u ts)
  case Nil
  then have "ts = []" by (auto simp: expects_def split: list.splits)
  then show ?case using Nil by (cases s) simp
next
  case (Cons x xs)
  have e: "expects rs ty (b @ x @ concat xs) ts" and r: "sk_reads s = Read x # (map Read xs @ es)" "x \<noteq> []" "length x \<le> 16384" "1024 + length b + length x < sds_cap"
    using Cons.prems by simp_all
  obtain ts1 ts2 ac1 rs1 ty1 b1 h1 u1 where 1: "redisAsyncHandleRead M st U SoOk ac s h u = Some (Inr (Some ac1, s\<lparr>sk_reads := map Read xs @ es\<rparr>, h1, u1))"
      "ts = ts1 @ ts2" "calls u1 = calls u @ delivered h0 (ac_replies ac) ts1" "ac_replies ac1 = drop (length ts1) (ac_replies ac)" "active ac1"
      "conn_at M (spent h0 ts1) rs1 ty1 b1 (ac_c ac1) h1" "expects rs1 ty1 (b1 @ concat xs) ts2" "length b1 \<le> length b + length x" "parse rs1 ty1 b1 = Need rs1 ty1 b1"
    using HandleRead_delivers [OF assms(1,2) Cons.prems(1,2) e Cons.prems(4,5) r, of st u] by blast
  let ?s = "s\<lparr>sk_reads := map Read xs @ es\<rparr>"
  have "length ts2 \<le> length (ac_replies ac1)" using Cons.prems(4) 1(2,4) by simp
  from Cons.IH [OF 1(5,6,7) this, of ?s u1] obtain ac' h' u' where "read_events (length xs) M st U ac1 ?s h1 u1 = Some (Inr (Some ac', ?s\<lparr>sk_reads := es\<rparr>, h', u'))"
    "calls u' = calls u1 @ delivered (spent h0 ts1) (ac_replies ac1) ts2" "ac_replies ac' = drop (length ts2) (ac_replies ac1)" "active ac'"
    using Cons.prems 1(2,4,8,9) by auto
  then show ?case using 1 delivered_append [of ts1 "ac_replies ac" h0 ts2] Cons.prems(4) by (simp add: add.commute)
qed
lemma fresh_context:
  assumes "redisContextInit M = Inr (Some c)"
  shows "conn_at M h [] None [] (c\<lparr>rc_flags := F\<rparr>) h" "obuf_ok (c\<lparr>rc_flags := F\<rparr>)" "unsent (c\<lparr>rc_flags := F\<rparr>) = []"
proof -
  from assms have "redisConnectFd M fd = Inr (Some (c\<lparr>rc_fd := fd, rc_flags := rc_flags c \<union> {REDIS_BLOCK, REDIS_CONNECTED}\<rparr>))" for fd
    by (simp add: redisConnectFd_def)
  from redisConnectFd_ok [OF this] show "conn_at M h [] None [] (c\<lparr>rc_flags := F\<rparr>) h" "obuf_ok (c\<lparr>rc_flags := F\<rparr>)" "unsent (c\<lparr>rc_flags := F\<rparr>) = []"
    by (simp_all add: conn_at_def obuf_ok_def unsent_def)
qed

text \<open>A recording application, and a context right after its connection has been made.\<close>

definition recorder :: "call list app" where
  "recorder = \<lparr>app_reply = (\<lambda>fn p pd h ac u. (ac, u @ [(fn, pd, p, h)])), app_status = (\<lambda>_ _ _ u. u), app_data = (\<lambda>_ _ u. u), app_hook = (\<lambda>_ u. u)\<rparr>"

definition connected :: "redisContext \<Rightarrow> redisCallback list \<Rightarrow> redisAsyncContext" where
  "connected c cbs = \<lparr>ac_c = c\<lparr>rc_flags := {REDIS_CONNECTED}\<rparr>, ac_err = 0, ac_errstr = [], ac_dataHandler = None, ac_ev = {}, ac_onConnect = None,
     ac_onDisconnect = None, ac_replies = cbs, ac_invalid = [], ac_channels = dictReset, ac_patterns = dictReset\<rparr>"

lemma recorder_tame: "tame recorder id G"
proof -
  have "raise_flags {} ac = ac" for ac by (simp add: raise_flags_def)
  then show ?thesis unfolding tame_def recorder_def by (auto intro: exI [of _ "{}"])
qed

lemma connected_active: "active (connected c cbs)" "plain (connected c cbs)" "ac_replies (connected c cbs) = cbs"
  by (simp_all add: active_def plain_def connected_def)

lemma context_exists: "\<exists>c. redisContextInit granting = Inr (Some c)"
  by (auto simp: redisContextInit_def redisReaderCreate_def redisReaderCreateWithFunctions_def sdsempty_of)

lemma issue_connected:
  assumes "ordinary args" "obuf_ok c" "length (unsent c) + length (resp_cmd args) + 1 < sds_cap"
  shows "\<exists>ob. redisAsyncCommandArgv granting recorder cb (int (length args)) args (Some (map length args)) (connected c cbs) u =
    Some (Inr (REDIS_OK, connected (c\<lparr>rc_obuf := Some ob\<rparr>) (cbs @ [cb]), u)) \<and> sds_ok ob \<and> content ob = unsent c @ resp_cmd args"
proof -
  let ?c = "c\<lparr>rc_flags := {REDIS_CONNECTED}\<rparr>"
  obtain ob where ob: "redisAppendCommand_raw granting ?c (resp_cmd args) = Inr (REDIS_OK, ?c\<lparr>rc_obuf := Some ob\<rparr>)" "sds_ok ob" "content ob = unsent c @ resp_cmd args"
    using redisAppendCommand_raw_ok [of ?c "resp_cmd args" granting] assms(2,3) by (auto simp: obuf_ok_def unsent_def)
  have "redisAsyncCommandArgv granting recorder cb (int (length args)) args (Some (map length args)) (connected c cbs) u =
    Some (Inr (REDIS_OK, connected (c\<lparr>rc_obuf := Some ob\<rparr>) (cbs @ [cb]), u))"
    using redisAsyncCommandArgv_eq [OF assms(1) connected_active(2), of granting recorder cb c cbs u] assms(3) ob(1)
    by (simp add: connected_def call_hook_def)
  then show ?thesis using ob(2,3) by blast
qed

lemma free_connected:
  assumes "r_reply (rc_reader c) = 0"
  shows "redisAsyncFree granting recorder (connected c [\<lparr>cb_fn = Some f, cb_privdata = p\<rparr>, \<lparr>cb_fn = Some g, cb_privdata = q\<rparr>]) s h u =
    Some (Inr (None, s, h, u @ [(f, p, 0, h), (g, q, 0, h)]))"
proof -
  have t: "run_table granting recorder h dictReset ac u = Inr (ac, u)" for ac u
    by (simp add: run_table_def dictGetIterator_def dictReset_def dictNext.simps int32_id)
  show ?thesis using assms
    by (simp add: redisAsyncFree_def set_flag_def connected_def redisAsyncFree_now_def flush_replies.simps flush_invalid.simps redisShiftCallback_def
      redisRunCallback_def recorder_def clear_flag_def t [unfolded recorder_def] say_disconnected_def call_hook_def redisFree_def redisReaderFree_def
      split: option.splits)
qed

section \<open>Properties\<close>



text \<open>
  C19: replies reach their callbacks in order. On a connection with callbacks queued, whatever pieces the bytes of the
  replies arrive in, one read event per piece runs the callbacks one after the other, the callback of the \<open>i\<close>-th command
  with the \<open>i\<close>-th reply, which it finds complete on the heap and which is released after the call; the
  callbacks of commands that have no reply yet stay queued.
\<close>

theorem async_replies_in_order:
  assumes "tame U calls {}" "\<forall>n. mem_ok M n" "active ac" "conn_at M h [] None [] (ac_c ac) h" "list_all (reply_ok 0) ts"
    "length ts \<le> length (ac_replies ac)" "concat xs = concat (map enc ts)" "\<forall>x \<in> set xs. x \<noteq> [] \<and> length x \<le> 16384"
    "sk_reads s = map Read xs @ es" "1024 + length (concat xs) < sds_cap"
  shows "\<exists>ac' h' u'. read_events (length xs) M st U ac s h u = Some (Inr (Some ac', s\<lparr>sk_reads := es\<rparr>, h', u')) \<and>
    calls u' = calls u @ delivered h (ac_replies ac) ts \<and> ac_replies ac' = drop (length ts) (ac_replies ac)"
proof -
  have "expects [] None ([] @ concat xs) ts" using expects_start [OF assms(5)] assms(7) by simp
  moreover have "list_all (\<lambda>t. t \<noteq> Absent) ts" using assms(5) reply_ok_not_Absent by (auto simp: list_all_iff)
  moreover have "parse [] None [] = Need [] None []" by simp
  ultimately show ?thesis using read_events_deliver [OF assms(1-4) _ assms(6) _ assms(9,8), of st u] assms(10) by auto
qed

theorem async_replies_in_order_witness:
  "\<exists>c ac' h' u'. redisContextInit granting = Inr (Some c) \<and>
    read_events 2 granting (\<lambda>e. []) recorder (connected c [\<lparr>cb_fn = Some 1, cb_privdata = 10\<rparr>, \<lparr>cb_fn = Some 2, cb_privdata = 20\<rparr>, \<lparr>cb_fn = Some 3, cb_privdata = 30\<rparr>])
      \<lparr>sk_reads = [Read ''+PO'', Read (''NG'' @ CRLF @ '':7'' @ CRLF)], sk_writes = [], sk_sent = []\<rparr> [] [] =
      Some (Inr (Some ac', \<lparr>sk_reads = [], sk_writes = [], sk_sent = []\<rparr>, h', u')) \<and>
    u' = [(1, 10, 1, map Some (layout 1 (RStatus ''PONG''))), (2, 20, 2, None # map Some (layout 2 (RInt 7)))] \<and>
    ac_replies ac' = [\<lparr>cb_fn = Some 3, cb_privdata = 30\<rparr>]"
proof -
  let ?s = "\<lparr>sk_reads = [Read ''+PO'', Read (''NG'' @ CRLF @ '':7'' @ CRLF)], sk_writes = [], sk_sent = []\<rparr>" and ?xs = "[''+PO'', ''NG'' @ CRLF @ '':7'' @ CRLF]"
  let ?cbs = "[\<lparr>cb_fn = Some 1, cb_privdata = 10\<rparr>, \<lparr>cb_fn = Some 2, cb_privdata = 20\<rparr>, \<lparr>cb_fn = Some 3, cb_privdata = 30\<rparr>]" and ?ts = "[RStatus ''PONG'', RInt 7]"
  obtain c where c: "redisContextInit granting = Inr (Some c)" using context_exists by blast
  have at: "conn_at granting [] [] None [] (ac_c (connected c ?cbs)) []" using fresh_context(1) [OF c] by (simp add: connected_def)
  have ok: "list_all (reply_ok 0) ?ts" "concat ?xs = concat (map enc ?ts)" by (simp_all add: dec_int_def dec_small digit_char_def char_of_def bit_0)
  let ?ac = "connected c ?cbs" and ?e = "\<lparr>sk_reads = [], sk_writes = [], sk_sent = []\<rparr>"
  have n: "length ?xs = 2" "?s\<lparr>sk_reads := []\<rparr> = ?e" "drop (length ?ts) (ac_replies ?ac) = [\<lparr>cb_fn = Some 3, cb_privdata = 30\<rparr>]"
    "[] @ delivered [] (ac_replies ?ac) ?ts = [(1, 10, 1, map Some (layout 1 (RStatus ''PONG''))), (2, 20, 2, None # map Some (layout 2 (RInt 7)))]"
    by (simp_all add: connected_active(3))
  have "\<exists>ac' h' u'. read_events (length ?xs) granting (\<lambda>e. []) recorder ?ac ?s [] [] = Some (Inr (Some ac', ?s\<lparr>sk_reads := []\<rparr>, h', u')) \<and>
    id u' = id [] @ delivered [] (ac_replies ?ac) ?ts \<and> ac_replies ac' = drop (length ?ts) (ac_replies ?ac)"
    by (rule async_replies_in_order [OF recorder_tame _ connected_active(1) at ok(1) _ ok(2)]) (simp_all add: connected_active(3))
  then show ?thesis unfolding id_apply n using c by blast
qed
end
