(* ===== verification/Adlist.thy ===== *)
theory Adlist
  imports Hi_Prelude
begin

text \<open>
  The doubly linked lists of \<^verbatim>\<open>src/adlist.c\<close>. A node is a cell of a heap and a pointer is the number of a cell, 0 for
  \<^verbatim>\<open>NULL\<close>; a cell that was released is \<open>None\<close>. The values are of any type; what the \<^verbatim>\<open>free\<close> method of a list is called
  with is part of a result, in the order of the calls. \<^verbatim>\<open>len\<close> is an \<^verbatim>\<open>unsigned long\<close>.

  \<open>hilist_ok l ps vs h\<close> says that the list \<open>l\<close> consists of the cells \<open>ps\<close> of \<open>h\<close>, linked in both directions, and has the
  values \<open>vs\<close>. The operations then are the operations on \<open>vs\<close>, which is how the rest of the client is modelled: the
  second part proves this, with the cells outside of \<open>ps\<close> left alone.
\<close>

section \<open>The code\<close>

type_synonym lptr = nat

record 'v listNode =
  ln_prev :: lptr
  ln_next :: lptr
  ln_value :: 'v

type_synonym 'v lheap = "'v listNode option list"

datatype direction = AL_START_HEAD | AL_START_TAIL

record listIter =
  li_next :: lptr
  li_direction :: direction

record 'v hilist =
  hl_head :: lptr
  hl_tail :: lptr
  hl_dup :: "('v \<Rightarrow> 'v option) option"
  hl_free :: bool
  hl_match :: "('v \<Rightarrow> 'v \<Rightarrow> bool) option"
  hl_len :: nat

abbreviation (input) sizeof_listNode :: nat where "sizeof_listNode \<equiv> 24"
abbreviation (input) sizeof_hilist :: nat where "sizeof_hilist \<equiv> 48"
abbreviation (input) sizeof_listIter :: nat where "sizeof_listIter \<equiv> 16"

definition lcell :: "'v lheap \<Rightarrow> lptr \<Rightarrow> 'v listNode c_res" where
  "lcell h p =
     (if p = 0 then Inl NullDeref
      else if length h < p then Inl OutOfBounds
      else case h ! (p - 1) of None \<Rightarrow> Inl UseAfterFree | Some n \<Rightarrow> Inr n)"

definition lset :: "'v lheap \<Rightarrow> lptr \<Rightarrow> 'v listNode option \<Rightarrow> 'v lheap" where
  "lset h p n = h[p - 1 := n]"

text \<open>\<^verbatim>\<open>p->prev = q\<close>, \<^verbatim>\<open>p->next = q\<close> and \<^verbatim>\<open>hi_free(p)\<close>.\<close>

definition put_prev :: "lptr \<Rightarrow> lptr \<Rightarrow> 'v lheap \<Rightarrow> 'v lheap c_res" where
  "put_prev p q h = bind_c (lcell h p) (\<lambda>n. Inr (lset h p (Some (n\<lparr>ln_prev := q\<rparr>))))"

definition put_next :: "lptr \<Rightarrow> lptr \<Rightarrow> 'v lheap \<Rightarrow> 'v lheap c_res" where
  "put_next p q h = bind_c (lcell h p) (\<lambda>n. Inr (lset h p (Some (n\<lparr>ln_next := q\<rparr>))))"

definition drop_node :: "lptr \<Rightarrow> 'v lheap \<Rightarrow> 'v lheap c_res" where
  "drop_node p h = bind_c (lcell h p) (\<lambda>_. Inr (lset h p None))"

definition listCreate :: "mem \<Rightarrow> 'v hilist option" where
  "listCreate M =
     (if \<not> mem_ok M sizeof_hilist then None
      else Some \<lparr>hl_head = 0, hl_tail = 0, hl_dup = None, hl_free = False, hl_match = None, hl_len = 0\<rparr>)"

definition free_value :: "'v hilist \<Rightarrow> 'v \<Rightarrow> 'v list" where
  "free_value l v = (if hl_free l then [v] else [])"

fun release_loop :: "'v hilist \<Rightarrow> nat \<Rightarrow> lptr \<Rightarrow> 'v lheap \<Rightarrow> ('v list \<times> 'v lheap) c_res" where
  "release_loop l 0 current h = Inr ([], h)"
| "release_loop l (Suc n) current h =
     bind_c (lcell h current) (\<lambda>c.
       bind_c (drop_node current h) (\<lambda>h.
         bind_c (release_loop l n (ln_next c) h) (\<lambda>(vs, h). Inr (free_value l (ln_value c) @ vs, h))))"

definition listRelease :: "'v hilist \<Rightarrow> 'v lheap \<Rightarrow> ('v list \<times> 'v lheap) c_res" where
  "listRelease l h = release_loop l (hl_len l) (hl_head l) h"

text \<open>The result of an operation that may need memory is the list, \<open>None\<close> for \<^verbatim>\<open>NULL\<close>, and the heap.\<close>

definition listAddNodeHead :: "mem \<Rightarrow> 'v hilist \<Rightarrow> 'v \<Rightarrow> 'v lheap \<Rightarrow> ('v hilist option \<times> 'v lheap) c_res" where
  "listAddNodeHead M l v h =
     (if \<not> mem_ok M sizeof_listNode then Inr (None, h)
      else
        (let p = length h + 1; len = size64 (int (hl_len l) + 1) in
         if hl_len l = 0
         then Inr (Some (l\<lparr>hl_head := p, hl_tail := p, hl_len := len\<rparr>), h @ [Some \<lparr>ln_prev = 0, ln_next = 0, ln_value = v\<rparr>])
         else
           bind_c (put_prev (hl_head l) p (h @ [Some \<lparr>ln_prev = 0, ln_next = hl_head l, ln_value = v\<rparr>])) (\<lambda>h.
             Inr (Some (l\<lparr>hl_head := p, hl_len := len\<rparr>), h))))"

definition listAddNodeTail :: "mem \<Rightarrow> 'v hilist \<Rightarrow> 'v \<Rightarrow> 'v lheap \<Rightarrow> ('v hilist option \<times> 'v lheap) c_res" where
  "listAddNodeTail M l v h =
     (if \<not> mem_ok M sizeof_listNode then Inr (None, h)
      else
        (let p = length h + 1; len = size64 (int (hl_len l) + 1) in
         if hl_len l = 0
         then Inr (Some (l\<lparr>hl_head := p, hl_tail := p, hl_len := len\<rparr>), h @ [Some \<lparr>ln_prev = 0, ln_next = 0, ln_value = v\<rparr>])
         else
           bind_c (put_next (hl_tail l) p (h @ [Some \<lparr>ln_prev = hl_tail l, ln_next = 0, ln_value = v\<rparr>])) (\<lambda>h.
             Inr (Some (l\<lparr>hl_tail := p, hl_len := len\<rparr>), h))))"

definition listInsertNode :: "mem \<Rightarrow> 'v hilist \<Rightarrow> lptr \<Rightarrow> 'v \<Rightarrow> bool \<Rightarrow> 'v lheap \<Rightarrow> ('v hilist option \<times> 'v lheap) c_res" where
  "listInsertNode M l old v after h =
     (if \<not> mem_ok M sizeof_listNode then Inr (None, h)
      else
        bind_c (lcell h old) (\<lambda>o_node.
          let p = length h + 1;
              n = (if after then \<lparr>ln_prev = old, ln_next = ln_next o_node, ln_value = v\<rparr>
                   else \<lparr>ln_prev = ln_prev o_node, ln_next = old, ln_value = v\<rparr>);
              l = (if after then (if hl_tail l = old then l\<lparr>hl_tail := p\<rparr> else l)
                   else (if hl_head l = old then l\<lparr>hl_head := p\<rparr> else l));
              h = h @ [Some n]
          in
          bind_c (if ln_prev n \<noteq> 0 then put_next (ln_prev n) p h else Inr h) (\<lambda>h.
            bind_c (if ln_next n \<noteq> 0 then put_prev (ln_next n) p h else Inr h) (\<lambda>h.
              Inr (Some (l\<lparr>hl_len := size64 (int (hl_len l) + 1)\<rparr>), h)))))"

definition listDelNode :: "'v hilist \<Rightarrow> lptr \<Rightarrow> 'v lheap \<Rightarrow> ('v hilist \<times> 'v list \<times> 'v lheap) c_res" where
  "listDelNode l p h =
     bind_c (lcell h p) (\<lambda>n.
       bind_c (if ln_prev n \<noteq> 0 then put_next (ln_prev n) (ln_next n) h else Inr h) (\<lambda>h.
         let l = (if ln_prev n \<noteq> 0 then l else l\<lparr>hl_head := ln_next n\<rparr>) in
         bind_c (if ln_next n \<noteq> 0 then put_prev (ln_next n) (ln_prev n) h else Inr h) (\<lambda>h.
           let l = (if ln_next n \<noteq> 0 then l else l\<lparr>hl_tail := ln_prev n\<rparr>) in
           bind_c (drop_node p h) (\<lambda>h.
             Inr (l\<lparr>hl_len := size64 (int (hl_len l) - 1)\<rparr>, free_value l (ln_value n), h)))))"

definition listGetIterator :: "mem \<Rightarrow> 'v hilist \<Rightarrow> direction \<Rightarrow> listIter option" where
  "listGetIterator M l d =
     (if \<not> mem_ok M sizeof_listIter then None
      else Some \<lparr>li_next = (if d = AL_START_HEAD then hl_head l else hl_tail l), li_direction = d\<rparr>)"

definition listRewind :: "'v hilist \<Rightarrow> listIter" where
  "listRewind l = \<lparr>li_next = hl_head l, li_direction = AL_START_HEAD\<rparr>"

definition listRewindTail :: "'v hilist \<Rightarrow> listIter" where
  "listRewindTail l = \<lparr>li_next = hl_tail l, li_direction = AL_START_TAIL\<rparr>"

definition listNext :: "listIter \<Rightarrow> 'v lheap \<Rightarrow> (lptr \<times> listIter) c_res" where
  "listNext it h =
     (let current = li_next it in
      if current = 0 then Inr (current, it)
      else
        bind_c (lcell h current) (\<lambda>c.
          Inr (current, it\<lparr>li_next := (if li_direction it = AL_START_HEAD then ln_next c else ln_prev c)\<rparr>)))"

text \<open>The loops over an iterator do not end on a list that is linked in a circle: \<open>None\<close>.\<close>

definition dup_value :: "'v hilist \<Rightarrow> 'v \<Rightarrow> 'v option" where
  "dup_value l v = (case hl_dup l of None \<Rightarrow> Some v | Some f \<Rightarrow> f v)"

definition give_up_dup :: "'v hilist \<Rightarrow> 'v lheap \<Rightarrow> ('v hilist option \<times> 'v list \<times> 'v lheap) c_res" where
  "give_up_dup copy h = bind_c (listRelease copy h) (\<lambda>(vs, h). Inr (None, vs, h))"

partial_function (option) dup_loop :: "mem \<Rightarrow> listIter \<Rightarrow> 'v hilist \<Rightarrow> 'v lheap \<Rightarrow> ('v hilist option \<times> 'v list \<times> 'v lheap) c_res option" where
  "dup_loop M it copy h =
     (case listNext it h of
        Inl e \<Rightarrow> Some (Inl e)
      | Inr (p, it) \<Rightarrow>
          if p = 0 then Some (Inr (Some copy, [], h))
          else
            (case lcell h p of
               Inl e \<Rightarrow> Some (Inl e)
             | Inr n \<Rightarrow>
                 (case dup_value copy (ln_value n) of
                    None \<Rightarrow> Some (give_up_dup copy h)
                  | Some v \<Rightarrow>
                      (case listAddNodeTail M copy v h of
                         Inl e \<Rightarrow> Some (Inl e)
                       | Inr (None, h) \<Rightarrow> Some (give_up_dup copy h)
                       | Inr (Some copy, h) \<Rightarrow> dup_loop M it copy h))))"

text \<open>The iterator is not tested for \<^verbatim>\<open>NULL\<close> here and in the next function.\<close>

definition listDup :: "mem \<Rightarrow> 'v hilist \<Rightarrow> 'v lheap \<Rightarrow> ('v hilist option \<times> 'v list \<times> 'v lheap) c_res option" where
  "listDup M orig h =
     (case listCreate M of
        None \<Rightarrow> Some (Inr (None, [], h))
      | Some copy \<Rightarrow>
          (case listGetIterator M orig AL_START_HEAD of
             None \<Rightarrow> Some (Inl NullDeref)
           | Some it \<Rightarrow> dup_loop M it (copy\<lparr>hl_dup := hl_dup orig, hl_free := hl_free orig, hl_match := hl_match orig\<rparr>) h))"

definition matches :: "'v hilist \<Rightarrow> 'v \<Rightarrow> 'v \<Rightarrow> bool" where
  "matches l key v = (case hl_match l of None \<Rightarrow> key = v | Some f \<Rightarrow> f v key)"

partial_function (option) search_loop :: "'v hilist \<Rightarrow> 'v \<Rightarrow> listIter \<Rightarrow> 'v lheap \<Rightarrow> lptr c_res option" where
  "search_loop l key it h =
     (case listNext it h of
        Inl e \<Rightarrow> Some (Inl e)
      | Inr (p, it) \<Rightarrow>
          if p = 0 then Some (Inr 0)
          else
            (case lcell h p of
               Inl e \<Rightarrow> Some (Inl e)
             | Inr n \<Rightarrow> if matches l key (ln_value n) then Some (Inr p) else search_loop l key it h))"

definition listSearchKey :: "mem \<Rightarrow> 'v hilist \<Rightarrow> 'v \<Rightarrow> 'v lheap \<Rightarrow> lptr c_res option" where
  "listSearchKey M l key h =
     (case listGetIterator M l AL_START_HEAD of None \<Rightarrow> Some (Inl NullDeref) | Some it \<Rightarrow> search_loop l key it h)"

text \<open>\<^verbatim>\<open>while(index-- && n)\<close>; the index is not negative.\<close>

fun index_loop :: "direction \<Rightarrow> nat \<Rightarrow> lptr \<Rightarrow> 'v lheap \<Rightarrow> lptr c_res" where
  "index_loop d 0 p h = Inr p"
| "index_loop d (Suc i) p h =
     (if p = 0 then Inr 0 else bind_c (lcell h p) (\<lambda>n. index_loop d i (if d = AL_START_HEAD then ln_next n else ln_prev n) h))"

definition listIndex :: "'v hilist \<Rightarrow> int \<Rightarrow> 'v lheap \<Rightarrow> lptr c_res" where
  "listIndex l index h =
     (if index < 0 then index_loop AL_START_TAIL (nat (int64 (int64 (- index) - 1))) (hl_tail l) h
      else index_loop AL_START_HEAD (nat index) (hl_head l) h)"

definition listRotate :: "'v hilist \<Rightarrow> 'v lheap \<Rightarrow> ('v hilist \<times> 'v lheap) c_res" where
  "listRotate l h =
     (if hl_len l \<le> 1 then Inr (l, h)
      else
        (let tail = hl_tail l in
         bind_c (lcell h tail) (\<lambda>n.
           let l = l\<lparr>hl_tail := ln_prev n\<rparr> in
           bind_c (put_next (hl_tail l) 0 h) (\<lambda>h.
             bind_c (put_prev (hl_head l) tail h) (\<lambda>h.
               bind_c (put_prev tail 0 h) (\<lambda>h.
                 bind_c (put_next tail (hl_head l) h) (\<lambda>h. Inr (l\<lparr>hl_head := tail\<rparr>, h))))))))"

text \<open>What the two calls that add a value do to the values of a list.\<close>

definition list_push :: "mem \<Rightarrow> 'a \<Rightarrow> 'a list \<Rightarrow> 'a list" where
  "list_push M x xs = (if mem_ok M 24 then x # xs else xs)"

definition list_append :: "mem \<Rightarrow> 'a \<Rightarrow> 'a list \<Rightarrow> 'a list" where
  "list_append M x xs = (if mem_ok M 24 then xs @ [x] else xs)"

section \<open>Linked cells\<close>

definition head_of :: "lptr list \<Rightarrow> lptr \<Rightarrow> lptr" where
  "head_of ps r = (case ps of [] \<Rightarrow> r | p # _ \<Rightarrow> p)"

definition last_of :: "lptr \<Rightarrow> lptr list \<Rightarrow> lptr" where
  "last_of q ps = (if ps = [] then q else last ps)"

lemma head_of_simps [simp]: "head_of [] r = r" "head_of (p # ps) r = p" "head_of (as @ bs) r = head_of as (head_of bs r)"
  by (simp_all add: head_of_def split: list.split)

lemma last_of_simps [simp]: "last_of q [] = q" "last_of q (p # ps) = last_of p ps" "last_of q (as @ bs) = last_of (last_of q as) bs"
  by (simp_all add: last_of_def)

text \<open>The cells \<open>ps\<close> are linked from \<open>q\<close> on the left to \<open>r\<close> on the right and have the values \<open>vs\<close>.\<close>

fun dll :: "'v lheap \<Rightarrow> lptr \<Rightarrow> lptr list \<Rightarrow> lptr \<Rightarrow> 'v list \<Rightarrow> bool" where
  "dll h q [] r vs \<longleftrightarrow> vs = []"
| "dll h q (p # ps) r vs \<longleftrightarrow>
     (\<exists>v us. vs = v # us \<and> lcell h p = Inr \<lparr>ln_prev = q, ln_next = head_of ps r, ln_value = v\<rparr> \<and> dll h p ps r us)"

lemma dll_append:
  "dll h q (as @ bs) r ws \<longleftrightarrow> (\<exists>us vs. ws = us @ vs \<and> dll h q as (head_of bs r) us \<and> dll h (last_of q as) bs r vs)"
proof (induction as arbitrary: q ws)
  case (Cons a as)
  show ?case
  proof
    assume "dll h q ((a # as) @ bs) r ws"
    then obtain v ws' us vs where "ws = v # ws'" "lcell h a = Inr \<lparr>ln_prev = q, ln_next = head_of as (head_of bs r), ln_value = v\<rparr>"
        "ws' = us @ vs" "dll h a as (head_of bs r) us" "dll h (last_of a as) bs r vs" by (auto simp: Cons.IH)
    then show "\<exists>us vs. ws = us @ vs \<and> dll h q (a # as) (head_of bs r) us \<and> dll h (last_of q (a # as)) bs r vs"
      by (intro exI [of _ "v # us"] exI [of _ vs]) simp
  qed (fastforce simp: Cons.IH)
qed simp

lemma dll_length: "dll h q ps r vs \<Longrightarrow> length vs = length ps"
  by (induction ps arbitrary: q vs) auto

lemma dll_split:
  assumes "dll h q (as @ bs) r (us @ vs)" "length us = length as"
  shows "dll h q as (head_of bs r) us" "dll h (last_of q as) bs r vs"
proof -
  obtain us' vs' where d: "us @ vs = us' @ vs'" "dll h q as (head_of bs r) us'" "dll h (last_of q as) bs r vs'" using assms(1) by (auto simp: dll_append)
  then have "us = us' \<and> vs = vs'" using dll_length [OF d(2)] assms(2) by simp
  then show "dll h q as (head_of bs r) us" "dll h (last_of q as) bs r vs" using d by simp_all
qed

lemma dll_cong:
  assumes "\<And>p. p \<in> set ps \<Longrightarrow> lcell h' p = lcell h p"
  shows "dll h' q ps r vs = dll h q ps r vs"
  using assms by (induction ps arbitrary: q vs) auto

lemma lcell_Inr: "lcell h p = Inr n \<Longrightarrow> p \<noteq> 0 \<and> p \<le> length h \<and> h ! (p - 1) = Some n"
  by (auto simp: lcell_def split: if_splits option.splits)

lemma dll_cells: "dll h q ps r vs \<Longrightarrow> p \<in> set ps \<Longrightarrow> p \<noteq> 0 \<and> p \<le> length h"
  by (induction ps arbitrary: q vs) (auto dest: lcell_Inr)

lemma lcell_lset:
  assumes "lcell h p = Inr n"
  shows "lcell (lset h p (Some m)) x = (if x = p then Inr m else lcell h x)"
    "lcell (lset h p None) x = (if x = p then Inl UseAfterFree else lcell h x)"
  using lcell_Inr [OF assms] by (auto simp: lcell_def lset_def nth_list_update)

lemma lcell_new [simp]: "lcell (h @ [Some n]) (Suc (length h)) = Inr n" "x \<le> length h \<Longrightarrow> lcell (h @ k) x = lcell h x"
  by (auto simp: lcell_def nth_append)

text \<open>Cells outside of \<open>ps\<close> are as before.\<close>

definition changes :: "lptr set \<Rightarrow> 'v lheap \<Rightarrow> 'v lheap \<Rightarrow> bool" where
  "changes P h h' \<longleftrightarrow> length h \<le> length h' \<and> (\<forall>x \<le> length h. x \<notin> P \<longrightarrow> lcell h' x = lcell h x)"

lemma changes_refl [simp]: "changes P h h"
  by (simp add: changes_def)

lemma changes_trans: "changes P h h1 \<Longrightarrow> changes P h1 h2 \<Longrightarrow> changes P h h2"
  by (auto simp: changes_def)

lemma changes_mono: "changes P h h' \<Longrightarrow> P \<subseteq> Q \<Longrightarrow> changes Q h h'"
  by (auto simp: changes_def)

lemma changes_new [simp]: "changes P h (h @ k)"
  by (simp add: changes_def)

lemma dll_changes:
  assumes "dll h q ps r vs" "changes P h h'" "P \<inter> set ps = {}"
  shows "dll h' q ps r vs"
proof -
  have "lcell h' p = lcell h p" if "p \<in> set ps" for p using dll_cells [OF assms(1) that] assms(2,3) that by (auto simp: changes_def)
  then show ?thesis using assms(1) dll_cong by blast
qed

lemma lset_changes: "lcell h p = Inr n \<Longrightarrow> changes {p} h (lset h p m)"
  by (cases m) (auto simp: changes_def lcell_lset, auto simp: lset_def)

lemma relink_next:
  assumes "dll h q as r us" "as \<noteq> []" "distinct as"
  shows "\<exists>h'. put_next (last as) r' h = Inr h' \<and> dll h' q as r' us \<and> changes {last as} h h'"
proof -
  obtain bs p where as: "as = bs @ [p]" using assms(2) by (metis append_butlast_last_id)
  then obtain ws v where w: "us = ws @ [v]" "dll h q bs p ws" "lcell h p = Inr \<lparr>ln_prev = last_of q bs, ln_next = r, ln_value = v\<rparr>"
    using assms(1) by (auto simp: dll_append)
  let ?h = "lset h p (Some \<lparr>ln_prev = last_of q bs, ln_next = r', ln_value = v\<rparr>)"
  have o: "changes {p} h ?h" using lset_changes [OF w(3)] .
  have "dll ?h q bs p ws" using dll_changes [OF w(2) o] assms(3) as by simp
  then have "dll ?h q as r' us" using as w(1) lcell_lset(1) [OF w(3)] by (auto simp: dll_append)
  then show ?thesis using o w(3) as by (auto simp: put_next_def)
qed

lemma relink_prev:
  assumes "dll h q bs r ws" "bs \<noteq> []" "distinct bs"
  shows "\<exists>h'. put_prev (hd bs) q' h = Inr h' \<and> dll h' q' bs r ws \<and> changes {hd bs} h h'"
proof -
  obtain p cs where bs: "bs = p # cs" using assms(2) by (cases bs) auto
  then obtain v us where w: "ws = v # us" "dll h p cs r us" "lcell h p = Inr \<lparr>ln_prev = q, ln_next = head_of cs r, ln_value = v\<rparr>"
    using assms(1) by auto
  let ?h = "lset h p (Some \<lparr>ln_prev = q', ln_next = head_of cs r, ln_value = v\<rparr>)"
  have o: "changes {p} h ?h" using lset_changes [OF w(3)] .
  have "dll ?h p cs r us" using dll_changes [OF w(2) o] assms(3) bs by simp
  then show ?thesis using o w(1,3) bs lcell_lset(1) [OF w(3)] by (auto simp: put_prev_def)
qed

text \<open>The two tests for \<^verbatim>\<open>NULL\<close> of the operations: the end of a list has no neighbour to link.\<close>

lemma last_of_0: "dll h 0 as r us \<Longrightarrow> last_of 0 as = 0 \<longleftrightarrow> as = []"
  using dll_cells [of h 0 as r us "last as"] by (auto simp: last_of_def)

lemma head_of_0: "dll h q bs r ws \<Longrightarrow> head_of bs 0 = 0 \<longleftrightarrow> bs = []"
  by (cases bs) (auto dest: lcell_Inr)

lemma link_left:
  assumes "dll h 0 as r us" "distinct as"
  shows "\<exists>h'. (if last_of 0 as \<noteq> 0 then put_next (last_of 0 as) r' h else Inr h) = Inr h' \<and> dll h' 0 as r' us \<and> changes (set as) h h'"
proof (cases "as = []")
  case False
  then obtain h' where "put_next (last as) r' h = Inr h'" "dll h' 0 as r' us" "changes {last as} h h'" using relink_next [OF assms(1) _ assms(2)] by blast
  then show ?thesis using False last_of_0 [OF assms(1)] changes_mono [of "{last as}" h h' "set as"] by (auto simp: last_of_def)
qed (use assms in simp)

lemma link_right:
  assumes "dll h q bs 0 ws" "distinct bs"
  shows "\<exists>h'. (if head_of bs 0 \<noteq> 0 then put_prev (head_of bs 0) q' h else Inr h) = Inr h' \<and> dll h' q' bs 0 ws \<and> changes (set bs) h h'"
proof (cases bs)
  case (Cons p cs)
  obtain h' where "put_prev (hd bs) q' h = Inr h'" "dll h' q' bs 0 ws" "changes {hd bs} h h'" using relink_prev [OF assms(1) _ assms(2)] Cons by blast
  then show ?thesis using Cons head_of_0 [OF assms(1)] changes_mono [of "{p}" h h' "set bs"] by auto
qed (use assms in simp)

section \<open>The invariant\<close>

definition hilist_ok :: "'v hilist \<Rightarrow> lptr list \<Rightarrow> 'v list \<Rightarrow> 'v lheap \<Rightarrow> bool" where
  "hilist_ok l ps vs h \<longleftrightarrow> dll h 0 ps 0 vs \<and> distinct ps \<and> hl_head l = head_of ps 0 \<and> hl_tail l = last_of 0 ps \<and>
     hl_len l = length ps \<and> length ps < 2 ^ 64"

definition same_methods :: "'v hilist \<Rightarrow> 'v hilist \<Rightarrow> bool" where
  "same_methods l l' \<longleftrightarrow> hl_dup l' = hl_dup l \<and> hl_free l' = hl_free l \<and> hl_match l' = hl_match l"

lemma hilist_ok_at:
  assumes "hilist_ok l (as @ p # bs) vs h"
  obtains us v ws where "vs = us @ v # ws" "length us = length as" "dll h 0 as p us" "dll h p bs 0 ws" "p \<noteq> 0" "p \<le> length h"
    "lcell h p = Inr \<lparr>ln_prev = last_of 0 as, ln_next = head_of bs 0, ln_value = v\<rparr>" "distinct (as @ p # bs)"
proof -
  have d: "dll h 0 (as @ p # bs) 0 vs" "distinct (as @ p # bs)" using assms by (simp_all add: hilist_ok_def)
  then obtain us xs where x: "vs = us @ xs" "dll h 0 as p us" "dll h (last_of 0 as) (p # bs) 0 xs" by (auto simp: dll_append)
  then obtain v ws where "xs = v # ws" "lcell h p = Inr \<lparr>ln_prev = last_of 0 as, ln_next = head_of bs 0, ln_value = v\<rparr>" "dll h p bs 0 ws" by auto
  then show thesis using that [of us v ws] x d(2) dll_length [OF x(2)] lcell_Inr [of h p] by simp
qed

lemma len_up: "k + 1 < 2 ^ 64 \<Longrightarrow> size64 (int k + 1) = k + 1"
  by (subst size64_id) auto

text \<open>A new cell between the cells \<open>as\<close> and \<open>bs\<close>, and the cell between them taken out.\<close>

lemma link_new:
  assumes "dll h 0 as (head_of bs 0) us" "dll h (last_of 0 as) bs 0 ws" "distinct (as @ bs)"
  defines "p \<equiv> length h + 1"
  shows "\<exists>h1 h2. (if last_of 0 as \<noteq> 0 then put_next (last_of 0 as) p (h @ [Some \<lparr>ln_prev = last_of 0 as, ln_next = head_of bs 0, ln_value = v\<rparr>])
      else Inr (h @ [Some \<lparr>ln_prev = last_of 0 as, ln_next = head_of bs 0, ln_value = v\<rparr>])) = Inr h1 \<and>
    (if head_of bs 0 \<noteq> 0 then put_prev (head_of bs 0) p h1 else Inr h1) = Inr h2 \<and>
    dll h2 0 (as @ p # bs) 0 (us @ v # ws) \<and> distinct (as @ p # bs) \<and> changes (set as \<union> set bs) h h2"
proof -
  let ?n = "\<lparr>ln_prev = last_of 0 as, ln_next = head_of bs 0, ln_value = v\<rparr>" and ?h = "h @ [Some \<lparr>ln_prev = last_of 0 as, ln_next = head_of bs 0, ln_value = v\<rparr>]"
  have p: "p \<notin> set as \<union> set bs" using dll_cells [OF assms(1), of p] dll_cells [OF assms(2), of p] by (auto simp: p_def)
  have d: "dll ?h 0 as (head_of bs 0) us" "dll ?h (last_of 0 as) bs 0 ws" using assms(1,2) dll_changes [OF _ changes_new, of h _ _ _ _ "{}"] by simp_all
  obtain h1 where 1: "(if last_of 0 as \<noteq> 0 then put_next (last_of 0 as) p ?h else Inr ?h) = Inr h1" "dll h1 0 as p us" "changes (set as) ?h h1"
    using link_left [OF d(1)] assms(3) by fastforce
  have b1: "dll h1 (last_of 0 as) bs 0 ws" using dll_changes [OF d(2) 1(3)] assms(3) by auto
  obtain h2 where 2: "(if head_of bs 0 \<noteq> 0 then put_prev (head_of bs 0) p h1 else Inr h1) = Inr h2" "dll h2 p bs 0 ws" "changes (set bs) h1 h2"
    using link_right [OF b1] assms(3) by fastforce
  have a2: "dll h2 0 as p us" using dll_changes [OF 1(2) 2(3)] assms(3) by auto
  have o: "changes (set as \<union> set bs) ?h h2" using changes_mono [OF 1(3)] changes_mono [OF 2(3)] by (blast intro: changes_trans)
  have c: "lcell ?h p = Inr ?n" by (simp add: p_def)
  have pl: "p \<le> length ?h" by (simp add: p_def)
  have "lcell h2 p = Inr ?n" using o p pl c by (simp only: changes_def Un_iff) simp
  then have "dll h2 0 (as @ p # bs) 0 (us @ v # ws)" using a2 2(2) by (fastforce simp: dll_append)
  moreover have "changes (set as \<union> set bs) h h2" using o changes_trans changes_new by blast
  ultimately show ?thesis using 1(1) 2(1) p assms(3) by auto
qed

lemma unlink:
  assumes "dll h 0 (as @ p # bs) 0 (us @ v # ws)" "distinct (as @ p # bs)" "length us = length as"
  shows "\<exists>h1 h2 h3. (if last_of 0 as \<noteq> 0 then put_next (last_of 0 as) (head_of bs 0) h else Inr h) = Inr h1 \<and>
    (if head_of bs 0 \<noteq> 0 then put_prev (head_of bs 0) (last_of 0 as) h1 else Inr h1) = Inr h2 \<and> drop_node p h2 = Inr h3 \<and>
    dll h3 0 (as @ bs) 0 (us @ ws) \<and> changes (set (as @ p # bs)) h h3 \<and> lcell h3 p = Inl UseAfterFree"
proof -
  have d: "dll h 0 as p us" "dll h p bs 0 ws" "lcell h p = Inr \<lparr>ln_prev = last_of 0 as, ln_next = head_of bs 0, ln_value = v\<rparr>" (is "_ = Inr ?n")
    using dll_split [OF assms(1,3)] by simp_all
  have pl: "p \<le> length h" using lcell_Inr [OF d(3)] by simp
  obtain h1 where 1: "(if last_of 0 as \<noteq> 0 then put_next (last_of 0 as) (head_of bs 0) h else Inr h) = Inr h1" "dll h1 0 as (head_of bs 0) us" "changes (set as) h h1"
    using link_left [OF d(1)] assms(2) by fastforce
  have b1: "dll h1 p bs 0 ws" using dll_changes [OF d(2) 1(3)] assms(2) by auto
  obtain h2 where 2: "(if head_of bs 0 \<noteq> 0 then put_prev (head_of bs 0) (last_of 0 as) h1 else Inr h1) = Inr h2" "dll h2 (last_of 0 as) bs 0 ws" "changes (set bs) h1 h2"
    using link_right [OF b1] assms(2) by fastforce
  have a2: "dll h2 0 as (head_of bs 0) us" using dll_changes [OF 1(2) 2(3)] assms(2) by auto
  have o: "changes (set as \<union> set bs) h h2" using changes_mono [OF 1(3)] changes_mono [OF 2(3)] by (blast intro: changes_trans)
  have c: "lcell h2 p = Inr ?n" using o pl d(3) assms(2) by (auto simp: changes_def)
  let ?h = "lset h2 p None"
  have o3: "changes {p} h2 ?h" using lset_changes [OF c] .
  have "dll ?h 0 as (head_of bs 0) us" "dll ?h (last_of 0 as) bs 0 ws" using dll_changes [OF a2 o3] dll_changes [OF 2(2) o3] assms(2) by auto
  then have "dll ?h 0 (as @ bs) 0 (us @ ws)" by (auto simp: dll_append)
  moreover have "changes (set (as @ p # bs)) h ?h" using changes_mono [OF o] changes_mono [OF o3] changes_trans by (metis Un_insert_right insert_subset list.simps(15) set_append subset_insertI subset_refl empty_subsetI insertI1)
  ultimately show ?thesis using 1(1) 2(1) c lcell_lset(2) [OF c] by (auto simp: drop_node_def)
qed

section \<open>Adding and removing\<close>

lemma listAddNodeHead_law:
  assumes "hilist_ok l ps vs h" "length ps + 1 < 2 ^ 64" "mem_ok M 24"
  shows "\<exists>l' h'. listAddNodeHead M l v h = Inr (Some l', h') \<and> hilist_ok l' ((length h + 1) # ps) (v # vs) h' \<and> changes (set ps) h h' \<and> same_methods l l'"
proof -
  have d: "dll h 0 [] (head_of ps 0) []" "dll h (last_of 0 []) ps 0 vs" "distinct ([] @ ps)" and l: "hl_head l = head_of ps 0" "hl_tail l = last_of 0 ps" "hl_len l = length ps"
    using assms(1) by (simp_all add: hilist_ok_def)
  from link_new [OF this(1-3), of v] obtain h' where n: "(if head_of ps 0 \<noteq> 0 then put_prev (head_of ps 0) (length h + 1) (h @ [Some \<lparr>ln_prev = 0, ln_next = head_of ps 0, ln_value = v\<rparr>])
      else Inr (h @ [Some \<lparr>ln_prev = 0, ln_next = head_of ps 0, ln_value = v\<rparr>])) = Inr h'"
      "dll h' 0 ((length h + 1) # ps) 0 (v # vs)" "distinct ((length h + 1) # ps)" "changes (set ps) h h'" by auto
  let ?l = "l\<lparr>hl_head := length h + 1, hl_tail := last_of (length h + 1) ps, hl_len := length ps + 1\<rparr>"
  have "listAddNodeHead M l v h = Inr (Some ?l, h')"
    using n(1) l assms(2,3) head_of_0 [OF d(2)] len_up [OF assms(2)]
    by (cases ps) (auto simp: listAddNodeHead_def Let_def last_of_def)
  moreover have "hilist_ok ?l ((length h + 1) # ps) (v # vs) h'" using n(2,3) assms(2) by (simp add: hilist_ok_def)
  ultimately show ?thesis using n(4) by (auto simp: same_methods_def)
qed

lemma listAddNodeTail_law:
  assumes "hilist_ok l ps vs h" "length ps + 1 < 2 ^ 64" "mem_ok M 24"
  shows "\<exists>l' h'. listAddNodeTail M l v h = Inr (Some l', h') \<and> hilist_ok l' (ps @ [length h + 1]) (vs @ [v]) h' \<and> changes (set ps) h h' \<and> same_methods l l'"
proof -
  have d: "dll h 0 ps (head_of [] 0) vs" "dll h (last_of 0 ps) [] 0 []" "distinct (ps @ [])" and l: "hl_head l = head_of ps 0" "hl_tail l = last_of 0 ps" "hl_len l = length ps"
    using assms(1) by (simp_all add: hilist_ok_def)
  from link_new [OF this(1-3), of v] obtain h' where n: "(if last_of 0 ps \<noteq> 0 then put_next (last_of 0 ps) (length h + 1) (h @ [Some \<lparr>ln_prev = last_of 0 ps, ln_next = 0, ln_value = v\<rparr>])
      else Inr (h @ [Some \<lparr>ln_prev = last_of 0 ps, ln_next = 0, ln_value = v\<rparr>])) = Inr h'"
      "dll h' 0 (ps @ [length h + 1]) 0 (vs @ [v])" "distinct (ps @ [length h + 1])" "changes (set ps) h h'"
    by (simp only: head_of_simps last_of_simps) auto
  let ?l = "l\<lparr>hl_head := head_of ps (length h + 1), hl_tail := length h + 1, hl_len := length ps + 1\<rparr>"
  have "listAddNodeTail M l v h = Inr (Some ?l, h')"
    using n(1) l assms(2,3) last_of_0 [OF d(1)] len_up [OF assms(2)]
    by (cases ps) (auto simp: listAddNodeTail_def Let_def)
  moreover have "hilist_ok ?l (ps @ [length h + 1]) (vs @ [v]) h'" using n(2,3) assms(2) by (simp add: hilist_ok_def)
  ultimately show ?thesis using n(4) by (auto simp: same_methods_def)
qed

lemma listInsertNode_law:
  assumes "hilist_ok l (as @ p # bs) (us @ w # ws) h" "length us = length as" "length (as @ p # bs) + 1 < 2 ^ 64" "mem_ok M 24"
  shows "\<exists>l' h'. listInsertNode M l p v after h = Inr (Some l', h') \<and> changes (set (as @ p # bs)) h h' \<and> same_methods l l' \<and>
    (if after then hilist_ok l' (as @ p # (length h + 1) # bs) (us @ w # v # ws) h' else hilist_ok l' (as @ (length h + 1) # p # bs) (us @ v # w # ws) h')"
proof -
  have d: "dll h 0 (as @ p # bs) 0 (us @ w # ws)" and l: "hl_head l = head_of as p" "hl_tail l = last_of p bs" "hl_len l = length (as @ p # bs)"
    and di: "distinct (as @ p # bs)" using assms(1) by (simp_all add: hilist_ok_def)
  have s: "dll h 0 as p us" "dll h p bs 0 ws" and c: "lcell h p = Inr \<lparr>ln_prev = last_of 0 as, ln_next = head_of bs 0, ln_value = w\<rparr>"
    using dll_split [OF d assms(2)] by simp_all
  have p0: "p \<noteq> 0" using lcell_Inr [OF c] by simp
  have len: "size64 (int (hl_len l) + 1) = length (as @ p # bs) + 1" using len_up [OF assms(3)] l(3) by simp
  have e: "last_of p bs = p \<longleftrightarrow> bs = []" "head_of as p = p \<longleftrightarrow> as = []" using di by (cases bs; cases as; auto simp: last_of_def)+
  show ?thesis
  proof (cases after)
    case True
    have "dll h 0 (as @ [p]) (head_of bs 0) (us @ [w])" "dll h (last_of 0 (as @ [p])) bs 0 ws" "distinct ((as @ [p]) @ bs)" using s c di by (auto simp: dll_append)
    from link_new [OF this, of v] obtain h1 h2 where n: "put_next p (length h + 1) (h @ [Some \<lparr>ln_prev = p, ln_next = head_of bs 0, ln_value = v\<rparr>]) = Inr h1"
        "(if head_of bs 0 \<noteq> 0 then put_prev (head_of bs 0) (length h + 1) h1 else Inr h1) = Inr h2"
        "dll h2 0 (as @ p # (length h + 1) # bs) 0 (us @ w # v # ws)" "distinct (as @ p # (length h + 1) # bs)" "changes (set (as @ p # bs)) h h2"
      using p0 by (auto simp: Un_commute insert_commute)
    let ?l = "l\<lparr>hl_tail := last_of (length h + 1) bs, hl_len := length (as @ p # bs) + 1\<rparr>"
    have "listInsertNode M l p v after h = Inr (Some ?l, h2)" using True n(1,2) c assms(4) p0 l e(1) len by (auto simp: listInsertNode_def Let_def last_of_def)
    moreover have "hilist_ok ?l (as @ p # (length h + 1) # bs) (us @ w # v # ws) h2" using n(3,4) assms(3) l(1) by (simp add: hilist_ok_def)
    ultimately show ?thesis using True n(5) by (auto simp: same_methods_def)
  next
    case False
    have "dll h 0 as (head_of (p # bs) 0) us" "dll h (last_of 0 as) (p # bs) 0 (w # ws)" "distinct (as @ p # bs)" using s c di by auto
    from link_new [OF this, of v] obtain h1 h2 where n: "(if last_of 0 as \<noteq> 0 then put_next (last_of 0 as) (length h + 1) (h @ [Some \<lparr>ln_prev = last_of 0 as, ln_next = p, ln_value = v\<rparr>])
          else Inr (h @ [Some \<lparr>ln_prev = last_of 0 as, ln_next = p, ln_value = v\<rparr>])) = Inr h1"
        "put_prev p (length h + 1) h1 = Inr h2"
        "dll h2 0 (as @ (length h + 1) # p # bs) 0 (us @ v # w # ws)" "distinct (as @ (length h + 1) # p # bs)" "changes (set (as @ p # bs)) h h2"
      using p0 by (simp only: head_of_simps last_of_simps) (auto simp: Un_commute insert_commute)
    let ?l = "l\<lparr>hl_head := head_of as (length h + 1), hl_len := length (as @ p # bs) + 1\<rparr>"
    have "listInsertNode M l p v after h = Inr (Some ?l, h2)" using False n(1,2) c assms(4) p0 l e(2) len
      by (cases as) (auto simp: listInsertNode_def Let_def)
    moreover have "hilist_ok ?l (as @ (length h + 1) # p # bs) (us @ v # w # ws) h2" using n(3,4) assms(3) l(2) by (simp add: hilist_ok_def)
    ultimately show ?thesis using False n(5) by (auto simp: same_methods_def)
  qed
qed

lemma listDelNode_law:
  assumes "hilist_ok l (as @ p # bs) (us @ v # ws) h" "length us = length as"
  shows "\<exists>l' h'. listDelNode l p h = Inr (l', free_value l v, h') \<and> hilist_ok l' (as @ bs) (us @ ws) h' \<and> changes (set (as @ p # bs)) h h' \<and>
    lcell h' p = Inl UseAfterFree \<and> same_methods l l'"
proof -
  have d: "dll h 0 (as @ p # bs) 0 (us @ v # ws)" and l: "hl_head l = head_of as p" "hl_tail l = last_of p bs" "hl_len l = length (as @ p # bs)"
    and di: "distinct (as @ p # bs)" "length (as @ p # bs) < 2 ^ 64" using assms(1) by (simp_all add: hilist_ok_def)
  have c: "lcell h p = Inr \<lparr>ln_prev = last_of 0 as, ln_next = head_of bs 0, ln_value = v\<rparr>" and s: "dll h 0 as p us" "dll h p bs 0 ws"
    using dll_split [OF d assms(2)] by simp_all
  obtain h1 h2 h3 where u: "(if last_of 0 as \<noteq> 0 then put_next (last_of 0 as) (head_of bs 0) h else Inr h) = Inr h1"
      "(if head_of bs 0 \<noteq> 0 then put_prev (head_of bs 0) (last_of 0 as) h1 else Inr h1) = Inr h2" "drop_node p h2 = Inr h3"
      "dll h3 0 (as @ bs) 0 (us @ ws)" "changes (set (as @ p # bs)) h h3" "lcell h3 p = Inl UseAfterFree" using unlink [OF d di(1) assms(2)] by blast
  let ?l = "l\<lparr>hl_head := head_of as (head_of bs 0), hl_tail := last_of (last_of 0 as) bs, hl_len := length (as @ bs)\<rparr>"
  have "size64 (int (hl_len l) - 1) = length (as @ bs)" using l(3) di(2) by (subst size64_id) auto
  then have "listDelNode l p h = Inr (?l, free_value l v, h3)"
    using u(1-3) c l last_of_0 [OF s(1)] head_of_0 [OF s(2)]
    by (cases "as = []"; cases "bs = []") (auto simp: listDelNode_def Let_def free_value_def last_of_def head_of_def split: list.splits)
  moreover have "hilist_ok ?l (as @ bs) (us @ ws) h3" using u(4) di by (simp add: hilist_ok_def)
  ultimately show ?thesis using u(5,6) by (auto simp: same_methods_def)
qed

lemma listRotate_law:
  assumes "hilist_ok l (as @ [p]) (us @ [v]) h"
  shows "\<exists>l' h'. listRotate l h = Inr (l', h') \<and> hilist_ok l' (p # as) (v # us) h' \<and> changes (set (as @ [p])) h h' \<and> same_methods l l'"
proof (cases "as = []")
  case True
  then show ?thesis using assms by (auto simp: listRotate_def hilist_ok_def same_methods_def dest: dll_length)
next
  case False
  have d: "dll h 0 as p us" "lcell h p = Inr \<lparr>ln_prev = last_of 0 as, ln_next = 0, ln_value = v\<rparr>" "distinct (as @ [p])" "length (as @ [p]) < 2 ^ 64"
    and l: "hl_head l = head_of as p" "hl_tail l = p" "hl_len l = length (as @ [p])" using assms by (auto simp: hilist_ok_def dll_append)
  have p: "p \<notin> set as" "p \<le> length h" using d(3) lcell_Inr [OF d(2)] by auto
  obtain h1 where 1: "put_next (last as) 0 h = Inr h1" "dll h1 0 as 0 us" "changes {last as} h h1" using relink_next [OF d(1) False] d(3) by fastforce
  obtain h2 where 2: "put_prev (hd as) p h1 = Inr h2" "dll h2 p as 0 us" "changes {hd as} h1 h2" using relink_prev [OF 1(2) False] d(3) by fastforce
  have o: "changes (set as) h h2" using changes_mono [OF 1(3), of "set as"] changes_mono [OF 2(3), of "set as"] False changes_trans by fastforce
  have c: "lcell h2 p = Inr \<lparr>ln_prev = last_of 0 as, ln_next = 0, ln_value = v\<rparr>" using o p d(2) by (auto simp: changes_def)
  let ?h3 = "lset h2 p (Some \<lparr>ln_prev = 0, ln_next = 0, ln_value = v\<rparr>)"
  have c3: "lcell ?h3 p = Inr \<lparr>ln_prev = 0, ln_next = 0, ln_value = v\<rparr>" using lcell_lset(1) [OF c] by simp
  let ?h4 = "lset ?h3 p (Some \<lparr>ln_prev = 0, ln_next = head_of as p, ln_value = v\<rparr>)"
  have c4: "lcell ?h4 p = Inr \<lparr>ln_prev = 0, ln_next = head_of as p, ln_value = v\<rparr>" using lcell_lset(1) [OF c3] by simp
  have o4: "changes {p} h2 ?h4" using lset_changes [OF c] lset_changes [OF c3] changes_trans by blast
  have "dll ?h4 p as 0 us" using dll_changes [OF 2(2) o4] p(1) by simp
  then have "hilist_ok (l\<lparr>hl_head := p, hl_tail := last_of 0 as\<rparr>) (p # as) (v # us) ?h4"
    using c4 False d(3,4) l by (cases as) (auto simp: hilist_ok_def last_of_def)
  moreover have "hd as = head_of as p" "last as = last_of 0 as" using False by (cases as; simp add: last_of_def)+
  then have "listRotate l h = Inr (l\<lparr>hl_head := p, hl_tail := last_of 0 as\<rparr>, ?h4)"
    using 1(1) 2(1) c c3 d(2) l False by (auto simp: listRotate_def Let_def put_prev_def [of p] put_next_def [of p])
  moreover have "changes (set (as @ [p])) h ?h4" using changes_mono [OF o] changes_mono [OF o4] changes_trans by (metis Un_upper1 Un_upper2 set_append list.set)
  ultimately show ?thesis by (auto simp: same_methods_def)
qed

section \<open>Walking over a list\<close>

lemma listNext_head:
  assumes "dll h q ps 0 vs"
  shows "listNext \<lparr>li_next = head_of ps 0, li_direction = AL_START_HEAD\<rparr> h = Inr (head_of ps 0, \<lparr>li_next = head_of (tl ps) 0, li_direction = AL_START_HEAD\<rparr>)"
  using assms head_of_0 [OF assms] by (cases ps) (auto simp: listNext_def)

text \<open>The list of the cells an iterator meets.\<close>

fun walk_cells :: "nat \<Rightarrow> listIter \<Rightarrow> 'v lheap \<Rightarrow> lptr list c_res" where
  "walk_cells 0 it h = Inl Diverged"
| "walk_cells (Suc n) it h = bind_c (listNext it h) (\<lambda>(p, it). if p = 0 then Inr [] else bind_c (walk_cells n it h) (\<lambda>ps. Inr (p # ps)))"

lemma walk_head: "dll h q ps 0 vs \<Longrightarrow> length ps < n \<Longrightarrow> walk_cells n \<lparr>li_next = head_of ps 0, li_direction = AL_START_HEAD\<rparr> h = Inr ps"
proof (induction n arbitrary: q ps vs)
  case (Suc n)
  then show ?case using listNext_head [OF Suc.prems(1)] head_of_0 [OF Suc.prems(1)] by (cases ps) auto
qed simp

lemma walk_tail: "dll h 0 ps r vs \<Longrightarrow> length ps < n \<Longrightarrow> walk_cells n \<lparr>li_next = last_of 0 ps, li_direction = AL_START_TAIL\<rparr> h = Inr (rev ps)"
proof (induction ps arbitrary: n r vs rule: rev_induct)
  case Nil
  then show ?case by (cases n) (auto simp: listNext_def)
next
  case (snoc p ps)
  then obtain us v m where "dll h 0 ps p us" "lcell h p = Inr \<lparr>ln_prev = last_of 0 ps, ln_next = r, ln_value = v\<rparr>" "n = Suc m" "length ps < m"
    by (cases n) (auto simp: dll_append)
  then show ?case using snoc.IH [of p us m] lcell_Inr [of h p] by (simp add: listNext_def)
qed

lemma search_loop_first:
  "dll h q ps 0 vs \<Longrightarrow> search_loop l key \<lparr>li_next = head_of ps 0, li_direction = AL_START_HEAD\<rparr> h =
    Some (Inr (case find (\<lambda>(p, v). matches l key v) (zip ps vs) of None \<Rightarrow> 0 | Some (p, v) \<Rightarrow> p))"
proof (induction ps arbitrary: q vs)
  case Nil
  then show ?case by (subst search_loop.simps) (simp add: listNext_def)
next
  case (Cons p ps)
  then obtain v us where "vs = v # us" "lcell h p = Inr \<lparr>ln_prev = q, ln_next = head_of ps 0, ln_value = v\<rparr>" "dll h p ps 0 us" by auto
  then show ?case using Cons.IH [of p us] listNext_head [OF Cons.prems] lcell_Inr [of h p] by (subst search_loop.simps) simp
qed

lemma index_loop_head: "dll h q ps 0 vs \<Longrightarrow> index_loop AL_START_HEAD i (head_of ps 0) h = Inr (if i < length ps then ps ! i else 0)"
proof (induction i arbitrary: q ps vs)
  case 0
  then show ?case by (cases ps) auto
next
  case (Suc i)
  then show ?case using head_of_0 [OF Suc.prems] by (cases ps) auto
qed

lemma index_loop_tail: "dll h 0 ps r vs \<Longrightarrow> index_loop AL_START_TAIL i (last_of 0 ps) h = Inr (if i < length ps then ps ! (length ps - 1 - i) else 0)"
proof (induction i arbitrary: r ps vs)
  case 0
  then show ?case by (cases "ps = []") (auto simp: last_of_def last_conv_nth)
next
  case (Suc i)
  show ?case
  proof (cases ps rule: rev_cases)
    case (snoc qs p)
    then obtain us v where "dll h 0 qs p us" "lcell h p = Inr \<lparr>ln_prev = last_of 0 qs, ln_next = r, ln_value = v\<rparr>" using Suc.prems by (auto simp: dll_append)
    then show ?thesis using Suc.IH [of qs p us] lcell_Inr [of h p] snoc by (auto simp: nth_append)
  qed simp
qed

lemma release_loop_all:
  assumes "dll h q ps 0 vs" "distinct ps"
  shows "\<exists>h'. release_loop l (length ps) (head_of ps 0) h = Inr (concat (map (free_value l) vs), h') \<and> changes (set ps) h h' \<and> (\<forall>p \<in> set ps. lcell h' p = Inl UseAfterFree)"
  using assms
proof (induction ps arbitrary: h q vs)
  case (Cons p ps)
  then obtain v us where v: "vs = v # us" "lcell h p = Inr \<lparr>ln_prev = q, ln_next = head_of ps 0, ln_value = v\<rparr>" "dll h p ps 0 us" by auto
  let ?h = "lset h p None"
  have o: "changes {p} h ?h" using lset_changes [OF v(2)] .
  have "dll ?h p ps 0 us" using dll_changes [OF v(3) o] Cons.prems(2) by simp
  then obtain h' where h': "release_loop l (length ps) (head_of ps 0) ?h = Inr (concat (map (free_value l) us), h')" "changes (set ps) ?h h'"
      "\<forall>p \<in> set ps. lcell h' p = Inl UseAfterFree" using Cons.IH Cons.prems(2) by fastforce
  have "lcell h' p = lcell ?h p" using h'(2) Cons.prems(2) lcell_Inr [OF v(2)] by (auto simp: changes_def lset_def)
  then have "lcell h' p = Inl UseAfterFree" using lcell_lset(2) [OF v(2)] by simp
  moreover have "changes (set (p # ps)) h h'" using changes_mono [OF o] changes_mono [OF h'(2)] changes_trans by (metis empty_subsetI insert_subset list.set_intros(1) set_subset_Cons)
  ultimately show ?case using h' v by (auto simp: drop_node_def)
qed simp

lemma dup_loop_copies:
  assumes "dll h q bs 0 ws" "hilist_ok copy cs xs h" "set cs \<inter> set bs = {}" "length cs + length bs < 2 ^ 64"
  shows "\<exists>c fr h'. dup_loop M \<lparr>li_next = head_of bs 0, li_direction = AL_START_HEAD\<rparr> copy h = Some (Inr (c, fr, h')) \<and> changes (set cs) h h' \<and>
    (case c of
       Some c \<Rightarrow> fr = [] \<and> same_methods copy c \<and> (\<exists>cs' ys. those (map (dup_value copy) ws) = Some ys \<and> hilist_ok c cs' (xs @ ys) h')
     | None \<Rightarrow> \<not> mem_ok M 24 \<or> None \<in> set (map (dup_value copy) ws))"
  using assms
proof (induction bs arbitrary: h q ws copy cs xs)
  case Nil
  then show ?case by (subst dup_loop.simps) (auto simp: listNext_def same_methods_def)
next
  case (Cons p bs)
  obtain v us where v: "ws = v # us" "lcell h p = Inr \<lparr>ln_prev = q, ln_next = head_of bs 0, ln_value = v\<rparr>" "dll h p bs 0 us" using Cons.prems(1) by auto
  have p: "p \<noteq> 0" using lcell_Inr [OF v(2)] by simp
  have ok: "dll h 0 cs 0 xs" "distinct cs" "hl_head copy = head_of cs 0" "hl_len copy = length cs" using Cons.prems(2) by (simp_all add: hilist_ok_def)
  obtain hr where r: "listRelease copy h = Inr (concat (map (free_value copy) xs), hr)" "changes (set cs) h hr"
    using release_loop_all [OF ok(1,2), of copy] ok(3,4) by (auto simp: listRelease_def)
  note unf = dup_loop.simps [of M _ copy h] listNext_head [OF Cons.prems(1)]
  show ?case
  proof (cases "dup_value copy v")
    case None
    then show ?thesis using unf p v(1,2) r by (auto simp: give_up_dup_def)
  next
    case (Some y)
    show ?thesis
    proof (cases "mem_ok M 24")
      case False
      then show ?thesis using unf p v(1,2) r Some by (auto simp: give_up_dup_def listAddNodeTail_def)
    next
      case True
      have "length cs + 1 < 2 ^ 64" using Cons.prems(4) by simp
      from listAddNodeTail_law [OF Cons.prems(2) this True, of y] obtain c1 h1 where 1: "listAddNodeTail M copy y h = Inr (Some c1, h1)"
          "hilist_ok c1 (cs @ [length h + 1]) (xs @ [y]) h1" "changes (set cs) h h1" "same_methods copy c1" by blast
      have d1: "dll h1 p bs 0 us" using dll_changes [OF v(3) 1(3)] Cons.prems(3) by auto
      have n1: "length h + 1 \<notin> set bs" using dll_cells [OF v(3), of "length h + 1"] by auto
      have dv: "dup_value c1 = dup_value copy" using 1(4) by (simp add: same_methods_def dup_value_def fun_eq_iff)
      have "set (cs @ [length h + 1]) \<inter> set bs = {}" "length (cs @ [length h + 1]) + length bs < 2 ^ 64" using Cons.prems(3,4) n1 by auto
      from Cons.IH [OF d1 1(2) this, unfolded dv] obtain c fr h' where 2: "dup_loop M \<lparr>li_next = head_of bs 0, li_direction = AL_START_HEAD\<rparr> c1 h1 = Some (Inr (c, fr, h'))"
          "changes (set (cs @ [length h + 1])) h1 h'" "case c of Some c \<Rightarrow> fr = [] \<and> same_methods c1 c \<and>
            (\<exists>cs' ys. those (map (dup_value copy) us) = Some ys \<and> hilist_ok c cs' ((xs @ [y]) @ ys) h')
          | None \<Rightarrow> \<not> mem_ok M 24 \<or> None \<in> set (map (dup_value copy) us)"
        by blast
      have "changes (set cs) h h'" using 1(3) 2(2) by (auto simp: changes_def)
      moreover have "dup_loop M \<lparr>li_next = head_of (p # bs) 0, li_direction = AL_START_HEAD\<rparr> copy h = Some (Inr (c, fr, h'))"
        using unf p v(2) Some 1(1) 2(1) by simp
      ultimately show ?thesis using 2(3) v(1) Some 1(4)
        by (cases c) (auto simp: same_methods_def)
    qed
  qed
qed

section \<open>Clients that add values\<close>

text \<open>A loop that adds values and does not look at the result, as the cluster client fills its lists of slots and slaves.\<close>

fun add_all :: "('l \<Rightarrow> 'v \<Rightarrow> 'h \<Rightarrow> ('l option \<times> 'h) c_res) \<Rightarrow> 'v list \<Rightarrow> 'l \<Rightarrow> 'h \<Rightarrow> ('l \<times> 'h) c_res" where
  "add_all add [] l h = Inr (l, h)"
| "add_all add (v # vs) l h = bind_c (add l v h) (\<lambda>(l', h). add_all add vs (case l' of None \<Rightarrow> l | Some l \<Rightarrow> l) h)"

locale list_adder =
  fixes ok :: "'l \<Rightarrow> 'v list \<Rightarrow> 'h \<Rightarrow> bool" and add :: "'l \<Rightarrow> 'v \<Rightarrow> 'h \<Rightarrow> ('l option \<times> 'h) c_res" and put :: "'v \<Rightarrow> 'v list \<Rightarrow> 'v list"
  assumes add_law: "ok l vs h \<Longrightarrow> length vs + 1 < 2 ^ 64 \<Longrightarrow>
      \<exists>l' h'. add l v h = Inr (l', h') \<and> ok (case l' of None \<Rightarrow> l | Some l \<Rightarrow> l) (put v vs) h'"
    and put_length: "length (put v vs) \<le> length vs + 1"
begin

lemma add_all_law:
  "ok l vs h \<Longrightarrow> length vs + length xs < 2 ^ 64 \<Longrightarrow> \<exists>l' h'. add_all add xs l h = Inr (l', h') \<and> ok l' (foldl (\<lambda>vs v. put v vs) vs xs) h'"
proof (induction xs arbitrary: l vs h)
  case (Cons x xs)
  then obtain l1 h1 where 1: "add l x h = Inr (l1, h1)" "ok (case l1 of None \<Rightarrow> l | Some l \<Rightarrow> l) (put x vs) h1" using add_law [of l vs h x] by auto
  have "length (put x vs) + length xs < 2 ^ 64" using put_length [of x vs] Cons.prems(2) by simp
  from Cons.IH [OF 1(2) this] show ?case using 1(1) by auto
qed auto

end

definition holds_list :: "'v hilist \<Rightarrow> 'v list \<Rightarrow> 'v lheap \<Rightarrow> bool" where
  "holds_list l vs h \<longleftrightarrow> (\<exists>ps. hilist_ok l ps vs h)"

lemma holds_list_length: "hilist_ok l ps vs h \<Longrightarrow> length ps = length vs"
  by (auto simp: hilist_ok_def dest: dll_length)

interpretation heads: list_adder holds_list "listAddNodeHead M" "list_push M"
proof
  fix l :: "'a hilist" and vs h v
  assume "holds_list l vs h" "length vs + 1 < 2 ^ 64"
  then obtain ps where ps: "hilist_ok l ps vs h" "length ps + 1 < 2 ^ 64" using holds_list_length by (fastforce simp: holds_list_def)
  show "\<exists>l' h'. listAddNodeHead M l v h = Inr (l', h') \<and> holds_list (case l' of None \<Rightarrow> l | Some l \<Rightarrow> l) (list_push M v vs) h'"
    using listAddNodeHead_law [OF ps, of M v] ps(1) by (cases "mem_ok M 24") (auto simp: holds_list_def list_push_def listAddNodeHead_def)
qed (simp add: list_push_def)

interpretation tails: list_adder holds_list "listAddNodeTail M" "list_append M"
proof
  fix l :: "'a hilist" and vs h v
  assume "holds_list l vs h" "length vs + 1 < 2 ^ 64"
  then obtain ps where ps: "hilist_ok l ps vs h" "length ps + 1 < 2 ^ 64" using holds_list_length by (fastforce simp: holds_list_def)
  show "\<exists>l' h'. listAddNodeTail M l v h = Inr (l', h') \<and> holds_list (case l' of None \<Rightarrow> l | Some l \<Rightarrow> l) (list_append M v vs) h'"
    using listAddNodeTail_law [OF ps, of M v] ps(1) by (cases "mem_ok M 24") (auto simp: holds_list_def list_append_def listAddNodeTail_def)
qed (simp add: list_append_def)

section \<open>Properties\<close>



text \<open>
  C33: walking over a list. Iterating meets the cells from the first to the last, or from the last to the first, and ends;
  \<^verbatim>\<open>listSearchKey\<close> returns the first node that matches and \<^verbatim>\<open>listIndex\<close> the node at an index counted from either end, \<^verbatim>\<open>NULL\<close>
  when there is none; \<^verbatim>\<open>listDup\<close> returns a list with copies of the values, or \<^verbatim>\<open>NULL\<close> after an allocation or a copy failed, and
  leaves the original as it was; \<^verbatim>\<open>listRelease\<close> releases every cell once and hands every value to the \<^verbatim>\<open>free\<close> method.
\<close>

theorem adlist_walks:
  assumes "hilist_ok l ps vs h" "mem_ok M 16" "- (2 ^ 63) < i" "i < 2 ^ 63"
  shows "walk_cells (length ps + 1) (listRewind l) h = Inr ps \<and> walk_cells (length ps + 1) (listRewindTail l) h = Inr (rev ps) \<and>
    listSearchKey M l key h = Some (Inr (case find (\<lambda>(p, v). matches l key v) (zip ps vs) of None \<Rightarrow> 0 | Some (p, v) \<Rightarrow> p)) \<and>
    listIndex l i h = Inr (if 0 \<le> i \<and> i < int (length ps) then ps ! nat i else if i < 0 \<and> - i \<le> int (length ps) then ps ! nat (int (length ps) + i) else 0) \<and>
    (\<exists>c fr h'. listDup M l h = Some (Inr (c, fr, h')) \<and> hilist_ok l ps vs h' \<and>
      (case c of
         Some c \<Rightarrow> \<exists>cs ws. those (map (dup_value l) vs) = Some ws \<and> hilist_ok c cs ws h'
       | None \<Rightarrow> \<not> mem_ok M 48 \<or> \<not> mem_ok M 24 \<or> None \<in> set (map (dup_value l) vs))) \<and>
    (\<exists>h'. listRelease l h = Inr (if hl_free l then vs else [], h') \<and> changes (set ps) h h' \<and> list_all (\<lambda>p. lcell h' p = Inl UseAfterFree) ps)"
proof -
  have d: "dll h 0 ps 0 vs" "distinct ps" "length ps < 2 ^ 64" and l: "hl_head l = head_of ps 0" "hl_tail l = last_of 0 ps" "hl_len l = length ps"
    using assms(1) by (simp_all add: hilist_ok_def)
  have it: "listGetIterator M l AL_START_HEAD = Some \<lparr>li_next = head_of ps 0, li_direction = AL_START_HEAD\<rparr>" using assms(2) l by (simp add: listGetIterator_def)
  have ix: "listIndex l i h = Inr (if 0 \<le> i \<and> i < int (length ps) then ps ! nat i else if i < 0 \<and> - i \<le> int (length ps) then ps ! nat (int (length ps) + i) else 0)"
  proof (cases "i < 0")
    case True
    then have "int64 (int64 (- i) - 1) = - i - 1" using assms(3) by (simp add: int64_id)
    then show ?thesis using True index_loop_tail [OF d(1), of "nat (- i - 1)"] l(2)
      by (auto simp: listIndex_def nat_less_iff intro!: arg_cong [where f = "(!) ps"])
  qed (use index_loop_head [OF d(1), of "nat i"] l(1) in \<open>auto simp: listIndex_def nat_less_iff\<close>)
  let ?c = "\<lparr>hl_head = 0, hl_tail = 0, hl_dup = hl_dup l, hl_free = hl_free l, hl_match = hl_match l, hl_len = 0\<rparr>"
  have c: "hilist_ok ?c [] [] h" "dup_value ?c = dup_value l" by (simp_all add: hilist_ok_def dup_value_def fun_eq_iff)
  have dup: "\<exists>c fr h'. listDup M l h = Some (Inr (c, fr, h')) \<and> hilist_ok l ps vs h' \<and>
      (case c of
         Some c \<Rightarrow> \<exists>cs ws. those (map (dup_value l) vs) = Some ws \<and> hilist_ok c cs ws h'
       | None \<Rightarrow> \<not> mem_ok M 48 \<or> \<not> mem_ok M 24 \<or> None \<in> set (map (dup_value l) vs))"
  proof (cases "mem_ok M 48")
    case True
    from dup_loop_copies [OF d(1) c(1), of M] d(3) obtain c' fr h' where r: "dup_loop M \<lparr>li_next = head_of ps 0, li_direction = AL_START_HEAD\<rparr> ?c h = Some (Inr (c', fr, h'))"
        "changes {} h h'" "case c' of Some c \<Rightarrow> \<exists>cs ys. those (map (dup_value l) vs) = Some ys \<and> hilist_ok c cs ys h'
         | None \<Rightarrow> \<not> mem_ok M 24 \<or> None \<in> set (map (dup_value l) vs)" unfolding c(2) by (auto split: option.splits)
    have "hilist_ok l ps vs h'" using dll_changes [OF d(1) r(2)] assms(1) by (simp add: hilist_ok_def)
    then show ?thesis using r True it by (auto simp: listDup_def listCreate_def split: option.splits)
  qed (use assms(1) in \<open>simp add: listDup_def listCreate_def\<close>)
  have "concat (map (free_value l) vs) = (if hl_free l then vs else [])" by (induction vs) (auto simp: free_value_def)
  then have rel: "\<exists>h'. listRelease l h = Inr (if hl_free l then vs else [], h') \<and> changes (set ps) h h' \<and> list_all (\<lambda>p. lcell h' p = Inl UseAfterFree) ps"
    using release_loop_all [OF d(1,2), of l] l by (auto simp: listRelease_def list_all_iff)
  show ?thesis using walk_head [OF d(1)] walk_tail [OF d(1)] search_loop_first [OF d(1), of l key] it ix dup rel l
    by (simp add: listRewind_def listRewindTail_def listSearchKey_def del: walk_cells.simps)
qed

theorem adlist_walks_witness:
  "\<exists>l h c fr h'. hilist_ok l [1, 2] [''a'', ''b''] h \<and> walk_cells 3 (listRewindTail l) h = Inr [2, 1] \<and> listIndex l (-1) h = Inr 2 \<and>
    listSearchKey granting l ''a'' h = Some (Inr 1) \<and> listDup granting l h = Some (Inr (c, fr, h')) \<and> hilist_ok l [1, 2] [''a'', ''b''] h'"
proof -
  let ?l = "\<lparr>hl_head = 1, hl_tail = 2, hl_dup = None, hl_free = True, hl_match = None, hl_len = 2\<rparr> :: string hilist"
  let ?h = "[Some \<lparr>ln_prev = 0, ln_next = 2, ln_value = ''a''\<rparr>, Some \<lparr>ln_prev = 1, ln_next = 0, ln_value = ''b''\<rparr>]"
  have ok: "hilist_ok ?l [1, 2] [''a'', ''b''] ?h" by (simp add: hilist_ok_def lcell_def)
  have "mem_ok granting 16" "- (2 ^ 63) < (-1::int)" "(-1::int) < 2 ^ 63" "length [1, 2::nat] + 1 = 3" by simp_all
  note w = adlist_walks [OF ok this(1-3), of "''a''", unfolded this(4)]
  obtain c fr h' where "listDup granting ?l ?h = Some (Inr (c, fr, h'))" "hilist_ok ?l [1, 2] [''a'', ''b''] h'" using w by blast
  moreover have "walk_cells 3 (listRewindTail ?l) ?h = Inr [2, 1]" using w [THEN conjunct2, THEN conjunct1] by simp
  moreover have "listIndex ?l (-1) ?h = Inr 2" using w [THEN conjunct2, THEN conjunct2, THEN conjunct2, THEN conjunct1] by simp
  moreover have "listSearchKey granting ?l ''a'' ?h = Some (Inr 1)" using w [THEN conjunct2, THEN conjunct2, THEN conjunct1] by (simp add: matches_def)
  ultimately show ?thesis using ok by blast
qed

end
