(* ===== verification/Hiarray.thy ===== *)
theory Hiarray
  imports Hi_Prelude
begin

text \<open>
  The growing arrays of \<^verbatim>\<open>src/hiarray.c\<close>. The cells behind \<^verbatim>\<open>elem\<close> are a list, \<open>None\<close> where a cell
  was never written; a pointer to an element is its index, and reading or writing through it is
  a separate step. \<^verbatim>\<open>ASSERT\<close> is empty in the default build, so the model has no check where the
  code only asserts.
\<close>

section \<open>State and operations\<close>

record 'a hiarray =
  ha_nelem :: nat
  ha_elem :: "'a option list"
  ha_size :: nat
  ha_nalloc :: nat

abbreviation sizeof_hiarray :: nat where "sizeof_hiarray \<equiv> 32"

definition hiarray_init :: "mem \<Rightarrow> nat \<Rightarrow> nat \<Rightarrow> 'a hiarray option" where
  "hiarray_init M n sz =
     (let bytes = size64 (int (n * sz)) in
      if \<not> mem_ok M bytes then None
      else Some \<lparr>ha_nelem = 0, ha_elem = replicate (bytes div sz) None, ha_size = sz, ha_nalloc = n\<rparr>)"

definition hiarray_create :: "mem \<Rightarrow> nat \<Rightarrow> nat \<Rightarrow> 'a hiarray option" where
  "hiarray_create M n sz =
     (if \<not> mem_ok M sizeof_hiarray then None else hiarray_init M n sz)"

definition hiarray_idx :: "'a hiarray \<Rightarrow> nat \<Rightarrow> nat" where
  "hiarray_idx a off = uint32 (int off) div uint32 (int (ha_size a))"

definition hiarray_push :: "mem \<Rightarrow> 'a hiarray \<Rightarrow> ('a hiarray \<times> nat) option" where
  "hiarray_push M a =
     (let grown =
        (if ha_nelem a = ha_nalloc a then
           (let sz = size64 (int (ha_size a * ha_nalloc a));
                bytes = size64 (int (2 * sz))
            in if \<not> mem_ok M bytes then None
               else Some (a\<lparr>ha_elem := take (bytes div ha_size a) (ha_elem a) @
                              replicate (bytes div ha_size a - length (ha_elem a)) None,
                            ha_nalloc := uint32 (int (ha_nalloc a * 2))\<rparr>))
         else Some a)
      in case grown of
           None \<Rightarrow> None
         | Some a \<Rightarrow> Some (a\<lparr>ha_nelem := uint32 (int (ha_nelem a + 1))\<rparr>, ha_nelem a))"

definition hiarray_pop :: "'a hiarray \<Rightarrow> 'a hiarray \<times> nat" where
  "hiarray_pop a =
     (let n = uint32 (int (ha_nelem a) - 1) in (a\<lparr>ha_nelem := n\<rparr>, n))"

definition hiarray_get :: "'a hiarray \<Rightarrow> nat \<Rightarrow> nat" where
  "hiarray_get a idx = idx"

definition hiarray_top :: "'a hiarray \<Rightarrow> nat" where
  "hiarray_top a = hiarray_get a (uint32 (int (ha_nelem a) - 1))"

definition hiarray_swap :: "'a hiarray \<Rightarrow> 'a hiarray \<Rightarrow> 'a hiarray \<times> 'a hiarray" where
  "hiarray_swap a b = (b, a)"

text \<open>Access through a pointer into the array.\<close>

definition ha_read :: "'a hiarray \<Rightarrow> nat \<Rightarrow> 'a c_res" where
  "ha_read a i =
     (if length (ha_elem a) \<le> i then Inl OutOfBounds
      else case ha_elem a ! i of None \<Rightarrow> Inl Uninit | Some x \<Rightarrow> Inr x)"

definition ha_write :: "'a hiarray \<Rightarrow> nat \<Rightarrow> 'a \<Rightarrow> 'a hiarray c_res" where
  "ha_write a i x =
     (if length (ha_elem a) \<le> i then Inl OutOfBounds
      else Inr (a\<lparr>ha_elem := (ha_elem a)[i := Some x]\<rparr>))"

text \<open>\<^verbatim>\<open>qsort\<close> with a comparator that returns a negative, zero or positive number; among the
  orders it may leave equal elements in, the model takes the stable one.\<close>

fun insert_cmp :: "('a \<Rightarrow> 'a \<Rightarrow> int) \<Rightarrow> 'a \<Rightarrow> 'a list \<Rightarrow> 'a list" where
  "insert_cmp cmp x [] = [x]"
| "insert_cmp cmp x (y # ys) = (if cmp x y \<le> 0 then x # y # ys else y # insert_cmp cmp x ys)"

definition qsort_cmp :: "('a \<Rightarrow> 'a \<Rightarrow> int) \<Rightarrow> 'a list \<Rightarrow> 'a list" where
  "qsort_cmp cmp xs = foldr (insert_cmp cmp) xs []"

fun read_cells :: "'a option list \<Rightarrow> 'a list c_res" where
  "read_cells [] = Inr []"
| "read_cells (None # cs) = Inl Uninit"
| "read_cells (Some x # cs) = bind_c (read_cells cs) (\<lambda>xs. Inr (x # xs))"

definition hiarray_sort :: "'a hiarray \<Rightarrow> ('a \<Rightarrow> 'a \<Rightarrow> int) \<Rightarrow> 'a hiarray c_res" where
  "hiarray_sort a cmp =
     (if length (ha_elem a) < ha_nelem a then Inl OutOfBounds
      else bind_c (read_cells (take (ha_nelem a) (ha_elem a))) (\<lambda>xs.
        Inr (a\<lparr>ha_elem := map Some (qsort_cmp cmp xs) @ drop (ha_nelem a) (ha_elem a)\<rparr>)))"

text \<open>\<^verbatim>\<open>hiarray_each\<close>: the callback gets the element and the caller's data, which it may change,
  and returns a status; the loop stops at the first status other than \<^verbatim>\<open>HI_OK\<close>.\<close>

fun each_loop :: "'a hiarray \<Rightarrow> ('a \<Rightarrow> 's \<Rightarrow> int \<times> 's) \<Rightarrow> 's \<Rightarrow> nat \<Rightarrow> nat \<Rightarrow> (int \<times> 's) c_res" where
  "each_loop a func data i 0 = Inr (0, data)"
| "each_loop a func data i (Suc k) =
     bind_c (ha_read a (hiarray_get a i)) (\<lambda>x.
       (case func x data of (status, data) \<Rightarrow>
          if status \<noteq> 0 then Inr (status, data) else each_loop a func data (Suc i) k))"

definition hiarray_each :: "'a hiarray \<Rightarrow> ('a \<Rightarrow> 's \<Rightarrow> int \<times> 's) \<Rightarrow> 's \<Rightarrow> (int \<times> 's) c_res" where
  "hiarray_each a func data = each_loop a func data 0 (ha_nelem a)"

section \<open>Invariant and abstraction\<close>

text \<open>The bound on \<^verbatim>\<open>nalloc\<close> is where its doubling would leave 32 bits.\<close>

definition ha_list :: "'a hiarray \<Rightarrow> 'a list" where
  "ha_list a = map the (take (ha_nelem a) (ha_elem a))"

definition ha_ok :: "'a hiarray \<Rightarrow> bool" where
  "ha_ok a \<longleftrightarrow> 0 < ha_size a \<and> ha_size a < 2 ^ 31 \<and> 0 < ha_nalloc a \<and> ha_nalloc a < 2 ^ 32 \<and>
     ha_nelem a \<le> ha_nalloc a \<and> length (ha_elem a) = ha_nalloc a \<and>
     (\<forall>i < ha_nelem a. ha_elem a ! i \<noteq> None)"

lemma length_ha_list: "ha_ok a \<Longrightarrow> length (ha_list a) = ha_nelem a"
  by (simp add: ha_list_def ha_ok_def)

lemma hiarray_create_ok:
  assumes "hiarray_create M n sz = Some (a :: 'a hiarray)" "0 < n" "n < 2 ^ 32" "0 < sz" "sz < 2 ^ 31"
  shows "ha_ok a \<and> ha_list a = []"
proof -
  have "n * sz < 2 ^ 32 * 2 ^ 31" using assms by (intro mult_strict_mono) auto
  then have "size64 (int (n * sz)) = n * sz" by (intro size64_nat) simp
  with assms show ?thesis
    by (auto simp: hiarray_create_def hiarray_init_def Let_def ha_ok_def ha_list_def
        simp del: of_nat_mult split: if_splits)
qed

text \<open>A push, and the caller's store through the pointer it returns.\<close>

definition ha_append :: "mem \<Rightarrow> 'a hiarray \<Rightarrow> 'a \<Rightarrow> 'a hiarray option c_res" where
  "ha_append M a x =
     (case hiarray_push M a of
        None \<Rightarrow> Inr None
      | Some (a, i) \<Rightarrow> bind_c (ha_write a i x) (\<lambda>a. Inr (Some a)))"

lemma ha_grow_bytes:
  assumes "0 < s" "s < 2 ^ 31" "n < 2 ^ 31"
  shows "size64 (int (2 * size64 (int (s * n)))) div s = 2 * n"
proof -
  have "s * n < 2 ^ 31 * 2 ^ 31" using assms by (intro mult_strict_mono) auto
  then obtain k where k: "s * n = k" "k < 2 ^ 62" by simp
  then have "size64 (int k) = k" "size64 (int (2 * k)) = 2 * k" by (simp_all del: of_nat_mult)
  with k(1) show ?thesis using assms(1) by (auto simp: mult.left_commute)
qed

lemma ha_append_law:
  assumes "ha_ok a" "ha_nelem a < 2 ^ 31"
  shows "ha_append M a x = Inr None \<and> (\<exists>n. \<not> mem_ok M n) \<or>
    (\<exists>a'. ha_append M a x = Inr (Some a') \<and> ha_ok a' \<and> ha_list a' = ha_list a @ [x] \<and>
      ha_nelem a' = ha_nelem a + 1)"
proof -
  have u: "uint32 (int (ha_nelem a + 1)) = ha_nelem a + 1"
    using assms(2) by (subst uint32_id) auto
  have store: "ha_ok (b\<lparr>ha_nelem := ha_nelem a + 1, ha_elem := (ha_elem b)[ha_nelem a := Some x]\<rparr>) \<and>
      ha_list (b\<lparr>ha_nelem := ha_nelem a + 1, ha_elem := (ha_elem b)[ha_nelem a := Some x]\<rparr>) = ha_list a @ [x]"
    if "ha_nelem b = ha_nelem a" "ha_size b = ha_size a" "ha_nelem a < ha_nalloc b" "ha_nalloc b < 2 ^ 32"
      "length (ha_elem b) = ha_nalloc b" "take (ha_nelem a) (ha_elem b) = take (ha_nelem a) (ha_elem a)" for b
  proof -
    have "ha_elem b ! i = ha_elem a ! i" if "i < ha_nelem a" for i
      using arg_cong [OF \<open>take (ha_nelem a) (ha_elem b) = take (ha_nelem a) (ha_elem a)\<close>, of "\<lambda>l. l ! i"] that by simp
    then show ?thesis using that assms(1)
      by (auto simp: ha_ok_def ha_list_def nth_list_update less_Suc_eq take_Suc_conv_app_nth)
  qed
  show ?thesis
  proof (cases "ha_nelem a = ha_nalloc a")
    case False
    then have "ha_append M a x = Inr (Some (a\<lparr>ha_nelem := ha_nelem a + 1,
        ha_elem := (ha_elem a)[ha_nelem a := Some x]\<rparr>))"
      using assms(1) u by (auto simp: ha_append_def hiarray_push_def ha_write_def ha_ok_def)
    moreover have "ha_nelem a < ha_nalloc a" "ha_nalloc a < 2 ^ 32" "length (ha_elem a) = ha_nalloc a"
      using False assms(1) by (auto simp: ha_ok_def)
    ultimately show ?thesis using store [of a] by auto
  next
    case True
    let ?bytes = "size64 (int (2 * size64 (int (ha_size a * ha_nalloc a))))"
    have n: "?bytes div ha_size a = 2 * ha_nalloc a"
      using assms True by (intro ha_grow_bytes) (auto simp: ha_ok_def)
    let ?b = "a\<lparr>ha_elem := ha_elem a @ replicate (ha_nalloc a) None, ha_nalloc := ha_nalloc a * 2\<rparr>"
    have u2: "uint32 (int (ha_nalloc a * 2)) = ha_nalloc a * 2"
      using assms(2) True by (subst uint32_id) auto
    have "hiarray_push M a = (if mem_ok M ?bytes then Some (?b\<lparr>ha_nelem := ha_nelem a + 1\<rparr>, ha_nelem a) else None)"
      using True n u u2 assms(1)
      by (simp add: hiarray_push_def Let_def ha_ok_def mult_2 del: of_nat_mult of_nat_add)
    then have "ha_append M a x = (if mem_ok M ?bytes then Inr (Some (?b\<lparr>ha_nelem := ha_nelem a + 1,
        ha_elem := (ha_elem ?b)[ha_nelem a := Some x]\<rparr>)) else Inr None)"
      using assms(1) True by (auto simp: ha_append_def ha_write_def ha_ok_def)
    then show ?thesis using store [of ?b] assms True by (cases "mem_ok M ?bytes") (auto simp: ha_ok_def)
  qed
qed

lemma ha_read_list:
  assumes "ha_ok a" "i < ha_nelem a"
  shows "ha_read a (hiarray_get a i) = Inr (ha_list a ! i)"
  using assms by (force simp: ha_ok_def ha_read_def hiarray_get_def ha_list_def)


section \<open>The interface of an appendable array\<close>

text \<open>What clients such as the command parser rely on: an append either adds one element at the
  end or returns NULL because the allocator refused, and an index below the length reads the
  element of the abstract list. \<open>app_all\<close> is the client that fills an array.\<close>

fun app_all :: "('s \<Rightarrow> 'a \<Rightarrow> 's option c_res) \<Rightarrow> 's \<Rightarrow> 'a list \<Rightarrow> 's option c_res" where
  "app_all app s [] = Inr (Some s)"
| "app_all app s (x # xs) =
     bind_c (app s x) (\<lambda>r. case r of None \<Rightarrow> Inr None | Some s \<Rightarrow> app_all app s xs)"

locale append_array =
  fixes inv :: "'s \<Rightarrow> bool" and view :: "'s \<Rightarrow> 'a list"
    and app :: "'s \<Rightarrow> 'a \<Rightarrow> 's option c_res" and get :: "'s \<Rightarrow> nat \<Rightarrow> 'a c_res"
    and cap :: nat and grants :: bool
  assumes app_law: "inv s \<Longrightarrow> length (view s) < cap \<Longrightarrow>
      app s x = Inr None \<and> \<not> grants \<or>
      (\<exists>s'. app s x = Inr (Some s') \<and> inv s' \<and> view s' = view s @ [x])"
    and get_law: "inv s \<Longrightarrow> i < length (view s) \<Longrightarrow> get s i = Inr (view s ! i)"
begin

lemma app_all_result:
  assumes "inv s" "length (view s) + length xs \<le> cap"
  shows "app_all app s xs = Inr None \<and> \<not> grants \<or>
    (\<exists>s'. app_all app s xs = Inr (Some s') \<and> inv s' \<and> view s' = view s @ xs)"
  using assms
proof (induction xs arbitrary: s)
  case (Cons x xs)
  then have "length (view s) < cap" by simp
  from app_law [OF Cons.prems(1) this, of x] show ?case
  proof (elim disjE exE conjE)
    fix s' assume "app s x = Inr (Some s')" "inv s'" "view s' = view s @ [x]"
    then show ?case using Cons.IH [of s'] Cons.prems by simp
  qed simp
qed simp

lemma app_all_get:
  assumes "inv s" "length (view s) + length xs \<le> cap" "app_all app s xs = Inr (Some s')"
    "i < length (view s) + length xs"
  shows "get s' i = Inr ((view s @ xs) ! i)"
  using app_all_result [OF assms(1,2)] assms(3,4) get_law [of s' i] by auto

end

interpretation hia: append_array ha_ok ha_list "ha_append M" "\<lambda>a i. ha_read a (hiarray_get a i)"
  "2 ^ 31" "\<forall>n. mem_ok M n" for M
proof
  fix s :: "'a hiarray" and x :: 'a
  assume a: "ha_ok s" "length (ha_list s) < 2 ^ 31"
  then show "ha_append M s x = Inr None \<and> \<not> (\<forall>n. mem_ok M n) \<or>
      (\<exists>s'. ha_append M s x = Inr (Some s') \<and> ha_ok s' \<and> ha_list s' = ha_list s @ [x])"
    using ha_append_law [of s M x] length_ha_list [of s] by auto
next
  fix s :: "'a hiarray" and i
  assume "ha_ok s" "i < length (ha_list s)"
  then show "ha_read s (hiarray_get s i) = Inr (ha_list s ! i)"
    using ha_read_list length_ha_list by metis
qed

lemma sorted_insert_cmp:
  assumes "\<And>a b. cmp a b \<le> 0 \<or> cmp b a \<le> 0" "\<And>a b c. cmp a b \<le> 0 \<Longrightarrow> cmp b c \<le> 0 \<Longrightarrow> cmp a c \<le> 0"
    "sorted_wrt (\<lambda>a b. cmp a b \<le> 0) xs"
  shows "sorted_wrt (\<lambda>a b. cmp a b \<le> 0) (insert_cmp cmp x xs) \<and>
    set (insert_cmp cmp x xs) = insert x (set xs) \<and> length (insert_cmp cmp x xs) = Suc (length xs)"
  using assms(3)
proof (induction xs)
  case (Cons y ys)
  then show ?case using assms(1) [of x y] assms(2) by (cases "cmp x y \<le> 0") auto
qed simp

lemma read_cells_Some: "(\<forall>c \<in> set cs. c \<noteq> None) \<Longrightarrow> read_cells cs = Inr (map the cs)"
  by (induction cs rule: read_cells.induct) auto

lemma qsort_cmp_sorted:
  assumes "\<And>a b. cmp a b \<le> 0 \<or> cmp b a \<le> 0" "\<And>a b c. cmp a b \<le> 0 \<Longrightarrow> cmp b c \<le> 0 \<Longrightarrow> cmp a c \<le> 0"
  shows "sorted_wrt (\<lambda>a b. cmp a b \<le> 0) (qsort_cmp cmp xs) \<and> set (qsort_cmp cmp xs) = set xs \<and>
    length (qsort_cmp cmp xs) = length xs"
proof (induction xs)
  case (Cons x xs)
  then show ?case
    using sorted_insert_cmp [of cmp "qsort_cmp cmp xs" x, OF assms] by (simp add: qsort_cmp_def)
qed (simp add: qsort_cmp_def)

lemma hiarray_sort_list:
  assumes "ha_ok a" "\<And>x y. cmp x y \<le> 0 \<or> cmp y x \<le> 0" "\<And>x y z. cmp x y \<le> 0 \<Longrightarrow> cmp y z \<le> 0 \<Longrightarrow> cmp x z \<le> 0"
  shows "\<exists>a'. hiarray_sort a cmp = Inr a' \<and> ha_ok a' \<and> ha_list a' = qsort_cmp cmp (ha_list a)"
proof -
  have "\<forall>c \<in> set (take (ha_nelem a) (ha_elem a)). c \<noteq> None"
    using assms(1) by (auto simp: ha_ok_def in_set_conv_nth)
  then have cells: "read_cells (take (ha_nelem a) (ha_elem a)) = Inr (ha_list a)"
    by (simp add: read_cells_Some ha_list_def)
  have len: "length (qsort_cmp cmp (ha_list a)) = ha_nelem a"
    using qsort_cmp_sorted [of cmp "ha_list a", OF assms(2,3)] length_ha_list [OF assms(1)] by simp
  let ?a = "a\<lparr>ha_elem := map Some (qsort_cmp cmp (ha_list a)) @ drop (ha_nelem a) (ha_elem a)\<rparr>"
  have "ha_ok ?a" "ha_list ?a = qsort_cmp cmp (ha_list a)"
    using assms(1) len by (auto simp: ha_ok_def ha_list_def nth_append comp_def)
  moreover have "hiarray_sort a cmp = Inr ?a"
    using assms(1) cells by (simp add: hiarray_sort_def ha_ok_def)
  ultimately show ?thesis by blast
qed

section \<open>Properties\<close>

text \<open>
  a fresh array filled by pushes is the list of the pushed elements: through every doubling
  of the allocation no store leaves the cells, the earlier elements survive, and reading any
  index below the number of pushes gives the element pushed there, unless the allocator
  refused a push.
\<close>

theorem hiarray_push_get:
  assumes "hiarray_create M n sz = Some (a :: 'a hiarray)" "0 < n" "n < 2 ^ 32" "0 < sz" "sz < 2 ^ 31"
    "length xs \<le> 2 ^ 31"
  shows "app_all (ha_append M) a xs = Inr None \<and> (\<exists>k. \<not> mem_ok M k) \<or>
    (\<exists>a'. app_all (ha_append M) a xs = Inr (Some a') \<and> ha_ok a' \<and> ha_nelem a' = length xs \<and>
      (\<forall>i < length xs. ha_read a' (hiarray_get a' i) = Inr (xs ! i)))"
proof -
  have a: "ha_ok a" "ha_list a = []" using hiarray_create_ok [OF assms(1-5)] by blast+
  have "length (ha_list a) + length xs \<le> 2 ^ 31" using a(2) assms(6) by simp
  from hia.app_all_result [OF a(1) this, of M] show ?thesis
    using hia.get_law length_ha_list a(2) by (metis append_Nil)
qed

theorem hiarray_push_get_witness:
  "\<exists>a a'. hiarray_create \<lparr>mem_ok = (\<lambda>_. True), mem_junk = (\<lambda>_. NUL)\<rparr> 1 24 = Some (a :: nat hiarray) \<and>
    app_all (ha_append \<lparr>mem_ok = (\<lambda>_. True), mem_junk = (\<lambda>_. NUL)\<rparr>) a [5, 6, 7] = Inr (Some a') \<and>
    ha_nelem a' = 3 \<and> ha_read a' (hiarray_get a' 2) = Inr 7"
proof -
  let ?M = "\<lparr>mem_ok = (\<lambda>_. True), mem_junk = (\<lambda>_. NUL)\<rparr>"
  have "\<exists>a :: nat hiarray. hiarray_create ?M 1 24 = Some a"
    by (simp add: hiarray_create_def hiarray_init_def Let_def)
  then obtain a :: "nat hiarray" where a: "hiarray_create ?M 1 24 = Some a" ..
  have three: "length [5, 6, 7 :: nat] = 3" by simp
  from hiarray_push_get [OF a, of "[5, 6, 7]", unfolded three] obtain a' where
    a': "app_all (ha_append ?M) a [5, 6, 7] = Inr (Some a')" "ha_nelem a' = 3"
      "\<forall>i < 3. ha_read a' (hiarray_get a' i) = Inr ([5, 6, 7] ! i)"
    by auto
  from a'(3) have "ha_read a' (hiarray_get a' 2) = Inr ([5, 6, 7] ! 2)" by simp
  with a a'(1,2) show ?thesis by (intro exI [of _ a] exI [of _ a']) (simp add: numeral_2_eq_2)
qed

end
