(* ===== verification/Hiutil.thy ===== *)
theory Hiutil
  imports Sds_Text "HOL-Library.Signed_Division"
begin

text \<open>
  The helpers of \<^verbatim>\<open>src/hiutil.c\<close> that compute: decimal conversions, the clipped return value of
  \<^verbatim>\<open>_vscnprintf\<close>, and the loops that send or receive a whole message. A caller's buffer is the list of
  its bytes, so that a store outside it is a fault; \<^verbatim>\<open>send\<close> and \<^verbatim>\<open>recv\<close> are given by the sequence of
  their results.
\<close>

section \<open>Numbers\<close>

definition hi_valid_port :: "int \<Rightarrow> bool" where
  "hi_valid_port n = (\<not> (n < 1 \<or> n > 65535))"

fun atoi_loop :: "int \<Rightarrow> bytes \<Rightarrow> int option" where
  "atoi_loop v [] = Some v"
| "atoi_loop v (c # cs) =
     (if \<not> isdigit c then None else atoi_loop (int32 (int32 (v * 10) + int (digit_val c))) cs)"

text \<open>\<open>line\<close> are the \<^verbatim>\<open>n\<close> bytes of the argument.\<close>

definition hi_atoi :: "bytes \<Rightarrow> int" where
  "hi_atoi line =
     (if line = [] then -1
      else case atoi_loop 0 line of None \<Rightarrow> -1 | Some v \<Rightarrow> (if v < 0 then -1 else v))"

text \<open>The digits are stored last digit first, each after shifting the cell it replaces.\<close>

function itoa_loop :: "bytes \<Rightarrow> int \<Rightarrow> nat \<Rightarrow> (bytes \<times> nat) c_res" where
  "itoa_loop s num len =
     (if num smod 10 \<noteq> 0 \<or> num sdiv 10 \<noteq> 0 then
        bind_c (rd s len) (\<lambda>x.
          bind_c (memcpy s (len + 1) [x]) (\<lambda>s.
            bind_c (memcpy s len [char_of (nat ((num smod 10 + 48) mod 256))]) (\<lambda>s.
              itoa_loop s (num sdiv 10) (len + 1))))
      else Inr (s, len))"
  by pat_completeness auto
termination
proof (relation "measure (\<lambda>(s, num, len). nat \<bar>num\<bar>)")
  fix s num len x xa xb and xc :: unit
  assume "num smod 10 \<noteq> (0::int) \<or> num sdiv 10 \<noteq> 0"
  then have "num \<noteq> 0" by auto
  then have "\<bar>num sdiv 10\<bar> < \<bar>num\<bar>"
    by (simp add: signed_divide_int_def abs_mult abs_sgn_eq)
  then show "((xb, num sdiv 10, len + 1), s, num, len) \<in> measure (\<lambda>(s, num, len). nat \<bar>num\<bar>)" for xb :: bytes
    by simp
qed auto

declare itoa_loop.simps [simp del]

definition hi_itoa :: "bytes \<Rightarrow> int \<Rightarrow> bytes c_res" where
  "hi_itoa s num =
     (if num = 0 then memcpy s 0 ''0''
      else
        bind_c (itoa_loop s (if num < 0 then int32 (- num) else num) 0) (\<lambda>(s, len).
          bind_c (if num < 0 then bind_c (memcpy s len ''-'') (\<lambda>s. Inr (s, len + 1)) else Inr (s, len)) (\<lambda>(s, len).
            bind_c (memcpy s len [NUL]) (\<lambda>s. Inr (swap_loop s 0 (len - 1))))))"

function uint_len_loop :: "nat \<Rightarrow> nat \<Rightarrow> nat" where
  "uint_len_loop n num = (if num \<noteq> 0 then uint_len_loop (n + 1) (num div 10) else n)"
  by pat_completeness auto
termination by (relation "measure snd") auto

declare uint_len_loop.simps [simp del]

definition uint_len :: "nat \<Rightarrow> nat" where
  "uint_len num = (if num = 0 then 1 else uint_len_loop 0 num)"

text \<open>\<open>n\<close> is what \<^verbatim>\<open>vsnprintf\<close> returned.\<close>

definition vscnprintf :: "nat \<Rightarrow> int \<Rightarrow> int" where
  "vscnprintf size' n = (if n \<le> 0 then 0 else if n < int32 (int size') then n else int32 (int size' - 1))"

section \<open>Whole messages\<close>

datatype io = Bytes nat | EIntr | Fails

text \<open>
  What the socket does, call by call. \<open>Bytes k\<close>: \<open>k\<close> bytes were taken (never more than asked for). The
  result is the return value and the bytes given to the socket; \<open>None\<close> when the sequence ends first.
\<close>

fun hi_sendn :: "io list \<Rightarrow> bytes \<Rightarrow> bytes \<Rightarrow> (int \<times> bytes) option" where
  "hi_sendn ios sent [] = Some (int (length sent), sent)"
| "hi_sendn [] sent data = None"
| "hi_sendn (Fails # ios) sent data = Some (-1, sent)"
| "hi_sendn (EIntr # ios) sent data = hi_sendn ios sent data"
| "hi_sendn (Bytes k # ios) sent data =
     (if k = 0 then Some (-1, sent) else hi_sendn ios (sent @ take k data) (drop k data))"

datatype input = Data bytes | InIntr | InFails

text \<open>\<open>n\<close> bytes are still wanted; \<open>Data []\<close> is the end of the stream.\<close>

fun hi_recvn :: "input list \<Rightarrow> bytes \<Rightarrow> nat \<Rightarrow> (int \<times> bytes) option" where
  "hi_recvn ios got n =
     (if n = 0 then Some (int (length got), got)
      else
        (case ios of
           [] \<Rightarrow> None
         | InFails # ios \<Rightarrow> Some (-1, got)
         | InIntr # ios \<Rightarrow> hi_recvn ios got n
         | Data d # ios \<Rightarrow>
             (if d = [] then Some (int (length got), got)
              else hi_recvn ios (got @ take n d) (n - length (take n d)))))"

section \<open>Lemmas\<close>

lemma sdiv_smod_nat: "int n sdiv 10 = int (n div 10)" "int n smod 10 = int (n mod 10)"
proof -
  show d: "int n sdiv 10 = int (n div 10)" by (simp add: signed_divide_int_def sgn_if zdiv_int)
  show "int n smod 10 = int (n mod 10)"
    unfolding signed_modulo_int_def d zdiv_int zmod_int by (cases "n = 0") (simp_all add: minus_div_mult_eq_mod)
qed

lemma digit_byte: "d < 10 \<Longrightarrow> char_of (nat ((int d + 48) mod 256)) = digit_char d"
  by (simp add: digit_char_def nat_add_distrib add.commute)

lemma rev_dec: "rev (dec n) = digit_char (n mod 10) # (if n < 10 then [] else rev (dec (n div 10)))"
  by (simp add: dec.simps [of n])

lemma memcpy_into: "length b = Suc (length b') \<Longrightarrow> memcpy (pre @ b) (length pre) [x] = Inr (pre @ x # tl b)"
  by (cases b) (simp_all add: memcpy_def)

lemma itoa_loop_spec:
  assumes "0 < n" "length (dec n) < length tail"
  shows "\<exists>t. itoa_loop (pre @ tail) (int n) (length pre) = Inr (pre @ rev (dec n) @ t, length pre + length (dec n)) \<and>
    length t + length (dec n) = length tail"
  using assms
proof (induction n arbitrary: pre tail rule: less_induct)
  case (less n)
  obtain x y tail' where t: "tail = x # y # tail'"
  proof -
    have "1 < length tail" using less.prems(2) length_dec_pos [of n] by linarith
    then show thesis using that by (cases tail; cases "tl tail") auto
  qed
  have nz: "int n smod 10 \<noteq> 0 \<or> int n sdiv 10 \<noteq> 0"
    using less.prems(1) unfolding sdiv_smod_nat by presburger
  have byte: "char_of (nat ((int n smod 10 + 48) mod 256)) = digit_char (n mod 10)"
    unfolding sdiv_smod_nat by (rule digit_byte) simp
  have step: "itoa_loop (pre @ tail) (int n) (length pre) =
      itoa_loop ((pre @ [digit_char (n mod 10)]) @ x # tail') (int (n div 10)) (length (pre @ [digit_char (n mod 10)]))"
    using nz t by (subst itoa_loop.simps) (simp add: byte memcpy_def nth_append sdiv_smod_nat(1))
  show ?case
  proof (cases "n < 10")
    case True
    then have "itoa_loop s (int (n div 10)) k = Inr (s, k)" for s k by (subst itoa_loop.simps) (simp add: sdiv_smod_nat)
    then show ?thesis using step t True by (auto simp: dec_small)
  next
    case False
    have "length (dec (n div 10)) < length (x # tail')" using less.prems(2) t False by (simp add: dec_big)
    moreover have "0 < n div 10" "n div 10 < n" using False less.prems(1) by auto
    ultimately obtain t' where "itoa_loop ((pre @ [digit_char (n mod 10)]) @ x # tail') (int (n div 10)) (length (pre @ [digit_char (n mod 10)])) =
        Inr ((pre @ [digit_char (n mod 10)]) @ rev (dec (n div 10)) @ t', length (pre @ [digit_char (n mod 10)]) + length (dec (n div 10)))"
      "length t' + length (dec (n div 10)) = length (x # tail')" using less.IH by blast
    then show ?thesis using step t False by (auto simp: dec_big)
  qed
qed

lemma swap_all: "swap_loop (m @ t) 0 (length m - 1) = rev m @ t"
  using swap_loop_rev [of "[]" m t] by simp

lemma hi_itoa_spec:
  assumes "num \<noteq> 0" "- (2 ^ 31) < num" "num < 2 ^ 31" "length (dec_int num) < length s"
  shows "\<exists>t. hi_itoa s num = Inr (dec_int num @ NUL # t) \<and> length (dec_int num @ NUL # t) = length s"
proof -
  let ?n = "nat \<bar>num\<bar>"
  have n: "0 < ?n" using assms(1) by simp
  show ?thesis
  proof (cases "num < 0")
    case False
    then have d: "dec_int num = dec ?n" "int ?n = num" by (simp_all add: dec_int_def)
    obtain t where t: "itoa_loop s num 0 = Inr (rev (dec ?n) @ t, length (dec ?n))" "length t + length (dec ?n) = length s"
      using itoa_loop_spec [OF n, of s "[]"] assms(4) d by auto
    then obtain y t' where "t = y # t'" using assms(4) d by (cases t) auto
    then show ?thesis using t False d assms(1) swap_all [of "rev (dec ?n)"] by (auto simp: hi_itoa_def memcpy_def)
  next
    case True
    then have d: "dec_int num = CHR ''-'' # dec ?n" "int ?n = - num" by (simp_all add: dec_int_def)
    have i: "int32 (- num) = - num" using True assms(2) by (intro int32_id) auto
    obtain t where t: "itoa_loop s (- num) 0 = Inr (rev (dec ?n) @ t, length (dec ?n))" "length t + length (dec ?n) = length s"
      using itoa_loop_spec [OF n, of s "[]"] assms(4) d by auto
    then obtain y z t' where y: "t = y # z # t'" using assms(4) d by (cases t; cases "tl t") auto
    have "hi_itoa s num = Inr (swap_loop ((rev (dec ?n) @ ''-'') @ NUL # t') 0 (length (rev (dec ?n) @ ''-'') - 1))"
      using t y True i by (simp add: hi_itoa_def memcpy_def)
    then show ?thesis unfolding swap_all using t(2) y d by simp
  qed
qed

lemma hi_itoa_nat:
  assumes "0 < n" "n < 2 ^ 31" "length (dec n) < length s"
  shows "\<exists>t. hi_itoa s (int n) = Inr (dec n @ NUL # t) \<and> length (dec n @ NUL # t) = length s"
  using hi_itoa_spec [of "int n" s] assms by (simp add: dec_int_def)

lemma uint_len_loop_spec: "0 < n \<Longrightarrow> uint_len_loop k n = k + length (dec n)"
proof (induction n arbitrary: k rule: less_induct)
  case (less n)
  then show ?case
    by (cases "n < 10") (auto simp: uint_len_loop.simps [of k n] uint_len_loop.simps [of "Suc k" 0] dec_small dec_big)
qed

lemma uint_len_dec: "uint_len n = length (dec n)"
  by (cases "n = 0") (simp_all add: uint_len_def uint_len_loop_spec dec_small)

lemma undec_ge: "a \<le> undec a ds"
proof (induction ds arbitrary: a)
  case (Cons d ds)
  show ?case using Cons [of "a * 10 + digit_val d"] by simp
qed simp

lemma atoi_loop_undec:
  "list_all isdigit ds \<Longrightarrow> undec a ds < 2 ^ 31 \<Longrightarrow> atoi_loop (int a) ds = Some (int (undec a ds))"
proof (induction ds arbitrary: a)
  case (Cons d ds)
  have "undec (a * 10 + digit_val d) ds < 2 ^ 31" using Cons.prems(2) by simp
  then have lt: "a * 10 + digit_val d < 2 ^ 31"
    using undec_ge [of "a * 10 + digit_val d" ds] by linarith
  then have "int32 (int32 (int a * 10) + int (digit_val d)) = int (a * 10 + digit_val d)"
    by (simp add: int32_id)
  then show ?case using Cons.prems Cons.IH [of "a * 10 + digit_val d"] by simp
qed simp

lemma hi_atoi_undec:
  "list_all isdigit ds \<Longrightarrow> ds \<noteq> [] \<Longrightarrow> undec 0 ds < 2 ^ 31 \<Longrightarrow> hi_atoi ds = int (undec 0 ds)"
  using atoi_loop_undec [of ds 0] by (simp add: hi_atoi_def)

lemma hi_atoi_nondigit: "\<not> list_all isdigit ds \<Longrightarrow> hi_atoi ds = -1"
proof -
  have "\<not> list_all isdigit ds \<Longrightarrow> atoi_loop v ds = None" for v by (induction ds arbitrary: v) auto
  then show "\<not> list_all isdigit ds \<Longrightarrow> hi_atoi ds = -1" by (simp add: hi_atoi_def)
qed

lemma hi_sendn_spec: "hi_sendn ios sent data = Some (ret, out) \<Longrightarrow>
  \<exists>k. out = sent @ take k data \<and> (ret = -1 \<or> ret = int (length out) \<and> out = sent @ data)"
proof (induction ios sent data rule: hi_sendn.induct)
  case (5 k ios sent c cs)
  show ?case
  proof (cases "k = 0")
    case False
    then have "hi_sendn ios (sent @ take k (c # cs)) (drop k (c # cs)) = Some (ret, out)" using 5(2) by simp
    from 5(1) [OF False this] obtain j where j: "out = (sent @ take k (c # cs)) @ take j (drop k (c # cs))"
      "ret = -1 \<or> ret = int (length out) \<and> out = (sent @ take k (c # cs)) @ drop k (c # cs)"
      by blast
    then have "out = sent @ take (k + j) (c # cs)" by (simp add: take_add)
    then show ?thesis using j(2) by (intro exI [of _ "k + j"]) auto
  qed (use 5 in \<open>auto intro: exI [of _ 0]\<close>)
qed (auto intro: exI [of _ 0])

section \<open>Properties\<close>

text \<open>
  \<^verbatim>\<open>_hi_itoa\<close> writes the decimal notation and the terminating NUL of every non-zero number above
  \<^verbatim>\<open>INT_MIN\<close> inside a buffer of that size, \<^verbatim>\<open>_hi_atoi\<close> reads the notation of every \<^verbatim>\<open>int\<close> from 0 on back and
  refuses anything with another character, and \<^verbatim>\<open>_uint_len\<close> is the length of the notation.
\<close>

theorem hi_numbers_correct:
  assumes "num \<noteq> 0" "- (2 ^ 31) < num" "num < 2 ^ 31" "length (dec_int num) < length s" "n < 2 ^ 31" "\<not> list_all isdigit ds"
  shows "(\<exists>t. hi_itoa s num = Inr (dec_int num @ NUL # t)) \<and> hi_atoi (dec n) = int n \<and> hi_atoi ds = -1 \<and>
    uint_len n = length (dec n)"
  using hi_itoa_spec [OF assms(1-4)] hi_atoi_undec [of "dec n"] assms(5) hi_atoi_nondigit [OF assms(6)] uint_len_dec
  by auto

theorem hi_numbers_correct_witness:
  "(\<exists>t. hi_itoa (replicate 12 NUL) (-7) = Inr (dec_int (-7) @ NUL # t)) \<and> hi_atoi (dec 123) = 123 \<and> hi_atoi ''1x'' = -1"
  using hi_numbers_correct [of "-7" "replicate 12 NUL" 123 "''1x''"]
  by (simp add: dec_int_def dec_small isdigit_def char_code_def)

text \<open>
  When \<^verbatim>\<open>_hi_sendn\<close> returns anything but an error, the socket has been given all bytes, in order,
  whatever the sizes of the single sends and however often they were interrupted.
\<close>

theorem hi_sendn_complete:
  assumes "hi_sendn ios [] data = Some (ret, out)" "ret \<noteq> -1"
  shows "out = data \<and> ret = int (length data)"
  using hi_sendn_spec [OF assms(1)] assms(2) by auto

theorem hi_sendn_complete_witness:
  "hi_sendn [Bytes 2, EIntr, Bytes 3] [] ''hello'' = Some (5, ''hello'')"
proof -
  obtain ret out where r: "hi_sendn [Bytes 2, EIntr, Bytes 3] [] ''hello'' = Some (ret, out)" "ret \<noteq> -1" by simp
  from hi_sendn_complete [OF this] show ?thesis using r(1) by simp
qed

end
