(* ===== verification/Command_Table.thy ===== *)
theory Command_Table
  imports Hi_Prelude
begin

text \<open>
  The command types of \<^verbatim>\<open>src/command.h\<close>, the argument classes and the name table of
  \<^verbatim>\<open>src/command.c\<close>. An enumerator is its number; the table is one list per length of the name,
  in the order the code compares them. The lemmas show that the table and the classes fit: every
  recognised command is in exactly one class, and recognition ignores the case of letters and
  nothing else.
\<close>

section \<open>Command types\<close>

type_synonym cmd_type = nat

abbreviation (input) CMD_UNKNOWN :: cmd_type where "CMD_UNKNOWN \<equiv> 0"
abbreviation (input) CMD_REQ_REDIS_DEL :: cmd_type where "CMD_REQ_REDIS_DEL \<equiv> 1"
abbreviation (input) CMD_REQ_REDIS_EXISTS :: cmd_type where "CMD_REQ_REDIS_EXISTS \<equiv> 2"
abbreviation (input) CMD_REQ_REDIS_EXPIRE :: cmd_type where "CMD_REQ_REDIS_EXPIRE \<equiv> 3"
abbreviation (input) CMD_REQ_REDIS_EXPIREAT :: cmd_type where "CMD_REQ_REDIS_EXPIREAT \<equiv> 4"
abbreviation (input) CMD_REQ_REDIS_PEXPIRE :: cmd_type where "CMD_REQ_REDIS_PEXPIRE \<equiv> 5"
abbreviation (input) CMD_REQ_REDIS_PEXPIREAT :: cmd_type where "CMD_REQ_REDIS_PEXPIREAT \<equiv> 6"
abbreviation (input) CMD_REQ_REDIS_PERSIST :: cmd_type where "CMD_REQ_REDIS_PERSIST \<equiv> 7"
abbreviation (input) CMD_REQ_REDIS_PTTL :: cmd_type where "CMD_REQ_REDIS_PTTL \<equiv> 8"
abbreviation (input) CMD_REQ_REDIS_SORT :: cmd_type where "CMD_REQ_REDIS_SORT \<equiv> 9"
abbreviation (input) CMD_REQ_REDIS_TTL :: cmd_type where "CMD_REQ_REDIS_TTL \<equiv> 10"
abbreviation (input) CMD_REQ_REDIS_TYPE :: cmd_type where "CMD_REQ_REDIS_TYPE \<equiv> 11"
abbreviation (input) CMD_REQ_REDIS_APPEND :: cmd_type where "CMD_REQ_REDIS_APPEND \<equiv> 12"
abbreviation (input) CMD_REQ_REDIS_BITCOUNT :: cmd_type where "CMD_REQ_REDIS_BITCOUNT \<equiv> 13"
abbreviation (input) CMD_REQ_REDIS_DECR :: cmd_type where "CMD_REQ_REDIS_DECR \<equiv> 14"
abbreviation (input) CMD_REQ_REDIS_DECRBY :: cmd_type where "CMD_REQ_REDIS_DECRBY \<equiv> 15"
abbreviation (input) CMD_REQ_REDIS_DUMP :: cmd_type where "CMD_REQ_REDIS_DUMP \<equiv> 16"
abbreviation (input) CMD_REQ_REDIS_GET :: cmd_type where "CMD_REQ_REDIS_GET \<equiv> 17"
abbreviation (input) CMD_REQ_REDIS_GETBIT :: cmd_type where "CMD_REQ_REDIS_GETBIT \<equiv> 18"
abbreviation (input) CMD_REQ_REDIS_GETRANGE :: cmd_type where "CMD_REQ_REDIS_GETRANGE \<equiv> 19"
abbreviation (input) CMD_REQ_REDIS_GETSET :: cmd_type where "CMD_REQ_REDIS_GETSET \<equiv> 20"
abbreviation (input) CMD_REQ_REDIS_INCR :: cmd_type where "CMD_REQ_REDIS_INCR \<equiv> 21"
abbreviation (input) CMD_REQ_REDIS_INCRBY :: cmd_type where "CMD_REQ_REDIS_INCRBY \<equiv> 22"
abbreviation (input) CMD_REQ_REDIS_INCRBYFLOAT :: cmd_type where "CMD_REQ_REDIS_INCRBYFLOAT \<equiv> 23"
abbreviation (input) CMD_REQ_REDIS_MGET :: cmd_type where "CMD_REQ_REDIS_MGET \<equiv> 24"
abbreviation (input) CMD_REQ_REDIS_MSET :: cmd_type where "CMD_REQ_REDIS_MSET \<equiv> 25"
abbreviation (input) CMD_REQ_REDIS_PSETEX :: cmd_type where "CMD_REQ_REDIS_PSETEX \<equiv> 26"
abbreviation (input) CMD_REQ_REDIS_RESTORE :: cmd_type where "CMD_REQ_REDIS_RESTORE \<equiv> 27"
abbreviation (input) CMD_REQ_REDIS_SET :: cmd_type where "CMD_REQ_REDIS_SET \<equiv> 28"
abbreviation (input) CMD_REQ_REDIS_SETBIT :: cmd_type where "CMD_REQ_REDIS_SETBIT \<equiv> 29"
abbreviation (input) CMD_REQ_REDIS_SETEX :: cmd_type where "CMD_REQ_REDIS_SETEX \<equiv> 30"
abbreviation (input) CMD_REQ_REDIS_SETNX :: cmd_type where "CMD_REQ_REDIS_SETNX \<equiv> 31"
abbreviation (input) CMD_REQ_REDIS_SETRANGE :: cmd_type where "CMD_REQ_REDIS_SETRANGE \<equiv> 32"
abbreviation (input) CMD_REQ_REDIS_STRLEN :: cmd_type where "CMD_REQ_REDIS_STRLEN \<equiv> 33"
abbreviation (input) CMD_REQ_REDIS_HDEL :: cmd_type where "CMD_REQ_REDIS_HDEL \<equiv> 34"
abbreviation (input) CMD_REQ_REDIS_HEXISTS :: cmd_type where "CMD_REQ_REDIS_HEXISTS \<equiv> 35"
abbreviation (input) CMD_REQ_REDIS_HGET :: cmd_type where "CMD_REQ_REDIS_HGET \<equiv> 36"
abbreviation (input) CMD_REQ_REDIS_HGETALL :: cmd_type where "CMD_REQ_REDIS_HGETALL \<equiv> 37"
abbreviation (input) CMD_REQ_REDIS_HINCRBY :: cmd_type where "CMD_REQ_REDIS_HINCRBY \<equiv> 38"
abbreviation (input) CMD_REQ_REDIS_HINCRBYFLOAT :: cmd_type where "CMD_REQ_REDIS_HINCRBYFLOAT \<equiv> 39"
abbreviation (input) CMD_REQ_REDIS_HKEYS :: cmd_type where "CMD_REQ_REDIS_HKEYS \<equiv> 40"
abbreviation (input) CMD_REQ_REDIS_HLEN :: cmd_type where "CMD_REQ_REDIS_HLEN \<equiv> 41"
abbreviation (input) CMD_REQ_REDIS_HMGET :: cmd_type where "CMD_REQ_REDIS_HMGET \<equiv> 42"
abbreviation (input) CMD_REQ_REDIS_HMSET :: cmd_type where "CMD_REQ_REDIS_HMSET \<equiv> 43"
abbreviation (input) CMD_REQ_REDIS_HSET :: cmd_type where "CMD_REQ_REDIS_HSET \<equiv> 44"
abbreviation (input) CMD_REQ_REDIS_HSETNX :: cmd_type where "CMD_REQ_REDIS_HSETNX \<equiv> 45"
abbreviation (input) CMD_REQ_REDIS_HSCAN :: cmd_type where "CMD_REQ_REDIS_HSCAN \<equiv> 46"
abbreviation (input) CMD_REQ_REDIS_HVALS :: cmd_type where "CMD_REQ_REDIS_HVALS \<equiv> 47"
abbreviation (input) CMD_REQ_REDIS_LINDEX :: cmd_type where "CMD_REQ_REDIS_LINDEX \<equiv> 48"
abbreviation (input) CMD_REQ_REDIS_LINSERT :: cmd_type where "CMD_REQ_REDIS_LINSERT \<equiv> 49"
abbreviation (input) CMD_REQ_REDIS_LLEN :: cmd_type where "CMD_REQ_REDIS_LLEN \<equiv> 50"
abbreviation (input) CMD_REQ_REDIS_LPOP :: cmd_type where "CMD_REQ_REDIS_LPOP \<equiv> 51"
abbreviation (input) CMD_REQ_REDIS_LPUSH :: cmd_type where "CMD_REQ_REDIS_LPUSH \<equiv> 52"
abbreviation (input) CMD_REQ_REDIS_LPUSHX :: cmd_type where "CMD_REQ_REDIS_LPUSHX \<equiv> 53"
abbreviation (input) CMD_REQ_REDIS_LRANGE :: cmd_type where "CMD_REQ_REDIS_LRANGE \<equiv> 54"
abbreviation (input) CMD_REQ_REDIS_LREM :: cmd_type where "CMD_REQ_REDIS_LREM \<equiv> 55"
abbreviation (input) CMD_REQ_REDIS_LSET :: cmd_type where "CMD_REQ_REDIS_LSET \<equiv> 56"
abbreviation (input) CMD_REQ_REDIS_LTRIM :: cmd_type where "CMD_REQ_REDIS_LTRIM \<equiv> 57"
abbreviation (input) CMD_REQ_REDIS_PFADD :: cmd_type where "CMD_REQ_REDIS_PFADD \<equiv> 58"
abbreviation (input) CMD_REQ_REDIS_PFCOUNT :: cmd_type where "CMD_REQ_REDIS_PFCOUNT \<equiv> 59"
abbreviation (input) CMD_REQ_REDIS_PFMERGE :: cmd_type where "CMD_REQ_REDIS_PFMERGE \<equiv> 60"
abbreviation (input) CMD_REQ_REDIS_RPOP :: cmd_type where "CMD_REQ_REDIS_RPOP \<equiv> 61"
abbreviation (input) CMD_REQ_REDIS_RPOPLPUSH :: cmd_type where "CMD_REQ_REDIS_RPOPLPUSH \<equiv> 62"
abbreviation (input) CMD_REQ_REDIS_RPUSH :: cmd_type where "CMD_REQ_REDIS_RPUSH \<equiv> 63"
abbreviation (input) CMD_REQ_REDIS_RPUSHX :: cmd_type where "CMD_REQ_REDIS_RPUSHX \<equiv> 64"
abbreviation (input) CMD_REQ_REDIS_SADD :: cmd_type where "CMD_REQ_REDIS_SADD \<equiv> 65"
abbreviation (input) CMD_REQ_REDIS_SCARD :: cmd_type where "CMD_REQ_REDIS_SCARD \<equiv> 66"
abbreviation (input) CMD_REQ_REDIS_SDIFF :: cmd_type where "CMD_REQ_REDIS_SDIFF \<equiv> 67"
abbreviation (input) CMD_REQ_REDIS_SDIFFSTORE :: cmd_type where "CMD_REQ_REDIS_SDIFFSTORE \<equiv> 68"
abbreviation (input) CMD_REQ_REDIS_SINTER :: cmd_type where "CMD_REQ_REDIS_SINTER \<equiv> 69"
abbreviation (input) CMD_REQ_REDIS_SINTERSTORE :: cmd_type where "CMD_REQ_REDIS_SINTERSTORE \<equiv> 70"
abbreviation (input) CMD_REQ_REDIS_SISMEMBER :: cmd_type where "CMD_REQ_REDIS_SISMEMBER \<equiv> 71"
abbreviation (input) CMD_REQ_REDIS_SMEMBERS :: cmd_type where "CMD_REQ_REDIS_SMEMBERS \<equiv> 72"
abbreviation (input) CMD_REQ_REDIS_SMOVE :: cmd_type where "CMD_REQ_REDIS_SMOVE \<equiv> 73"
abbreviation (input) CMD_REQ_REDIS_SPOP :: cmd_type where "CMD_REQ_REDIS_SPOP \<equiv> 74"
abbreviation (input) CMD_REQ_REDIS_SRANDMEMBER :: cmd_type where "CMD_REQ_REDIS_SRANDMEMBER \<equiv> 75"
abbreviation (input) CMD_REQ_REDIS_SREM :: cmd_type where "CMD_REQ_REDIS_SREM \<equiv> 76"
abbreviation (input) CMD_REQ_REDIS_SUNION :: cmd_type where "CMD_REQ_REDIS_SUNION \<equiv> 77"
abbreviation (input) CMD_REQ_REDIS_SUNIONSTORE :: cmd_type where "CMD_REQ_REDIS_SUNIONSTORE \<equiv> 78"
abbreviation (input) CMD_REQ_REDIS_SSCAN :: cmd_type where "CMD_REQ_REDIS_SSCAN \<equiv> 79"
abbreviation (input) CMD_REQ_REDIS_ZADD :: cmd_type where "CMD_REQ_REDIS_ZADD \<equiv> 80"
abbreviation (input) CMD_REQ_REDIS_ZCARD :: cmd_type where "CMD_REQ_REDIS_ZCARD \<equiv> 81"
abbreviation (input) CMD_REQ_REDIS_ZCOUNT :: cmd_type where "CMD_REQ_REDIS_ZCOUNT \<equiv> 82"
abbreviation (input) CMD_REQ_REDIS_ZINCRBY :: cmd_type where "CMD_REQ_REDIS_ZINCRBY \<equiv> 83"
abbreviation (input) CMD_REQ_REDIS_ZINTERSTORE :: cmd_type where "CMD_REQ_REDIS_ZINTERSTORE \<equiv> 84"
abbreviation (input) CMD_REQ_REDIS_ZLEXCOUNT :: cmd_type where "CMD_REQ_REDIS_ZLEXCOUNT \<equiv> 85"
abbreviation (input) CMD_REQ_REDIS_ZRANGE :: cmd_type where "CMD_REQ_REDIS_ZRANGE \<equiv> 86"
abbreviation (input) CMD_REQ_REDIS_ZRANGEBYLEX :: cmd_type where "CMD_REQ_REDIS_ZRANGEBYLEX \<equiv> 87"
abbreviation (input) CMD_REQ_REDIS_ZRANGEBYSCORE :: cmd_type where "CMD_REQ_REDIS_ZRANGEBYSCORE \<equiv> 88"
abbreviation (input) CMD_REQ_REDIS_ZRANK :: cmd_type where "CMD_REQ_REDIS_ZRANK \<equiv> 89"
abbreviation (input) CMD_REQ_REDIS_ZREM :: cmd_type where "CMD_REQ_REDIS_ZREM \<equiv> 90"
abbreviation (input) CMD_REQ_REDIS_ZREMRANGEBYRANK :: cmd_type where "CMD_REQ_REDIS_ZREMRANGEBYRANK \<equiv> 91"
abbreviation (input) CMD_REQ_REDIS_ZREMRANGEBYLEX :: cmd_type where "CMD_REQ_REDIS_ZREMRANGEBYLEX \<equiv> 92"
abbreviation (input) CMD_REQ_REDIS_ZREMRANGEBYSCORE :: cmd_type where "CMD_REQ_REDIS_ZREMRANGEBYSCORE \<equiv> 93"
abbreviation (input) CMD_REQ_REDIS_ZREVRANGE :: cmd_type where "CMD_REQ_REDIS_ZREVRANGE \<equiv> 94"
abbreviation (input) CMD_REQ_REDIS_ZREVRANGEBYSCORE :: cmd_type where "CMD_REQ_REDIS_ZREVRANGEBYSCORE \<equiv> 95"
abbreviation (input) CMD_REQ_REDIS_ZREVRANK :: cmd_type where "CMD_REQ_REDIS_ZREVRANK \<equiv> 96"
abbreviation (input) CMD_REQ_REDIS_ZSCORE :: cmd_type where "CMD_REQ_REDIS_ZSCORE \<equiv> 97"
abbreviation (input) CMD_REQ_REDIS_ZUNIONSTORE :: cmd_type where "CMD_REQ_REDIS_ZUNIONSTORE \<equiv> 98"
abbreviation (input) CMD_REQ_REDIS_ZSCAN :: cmd_type where "CMD_REQ_REDIS_ZSCAN \<equiv> 99"
abbreviation (input) CMD_REQ_REDIS_EVAL :: cmd_type where "CMD_REQ_REDIS_EVAL \<equiv> 100"
abbreviation (input) CMD_REQ_REDIS_EVALSHA :: cmd_type where "CMD_REQ_REDIS_EVALSHA \<equiv> 101"
abbreviation (input) CMD_REQ_REDIS_PING :: cmd_type where "CMD_REQ_REDIS_PING \<equiv> 102"
abbreviation (input) CMD_REQ_REDIS_QUIT :: cmd_type where "CMD_REQ_REDIS_QUIT \<equiv> 103"
abbreviation (input) CMD_REQ_REDIS_AUTH :: cmd_type where "CMD_REQ_REDIS_AUTH \<equiv> 104"
abbreviation (input) CMD_RSP_REDIS_STATUS :: cmd_type where "CMD_RSP_REDIS_STATUS \<equiv> 105"
abbreviation (input) CMD_RSP_REDIS_ERROR :: cmd_type where "CMD_RSP_REDIS_ERROR \<equiv> 106"
abbreviation (input) CMD_RSP_REDIS_INTEGER :: cmd_type where "CMD_RSP_REDIS_INTEGER \<equiv> 107"
abbreviation (input) CMD_RSP_REDIS_BULK :: cmd_type where "CMD_RSP_REDIS_BULK \<equiv> 108"
abbreviation (input) CMD_RSP_REDIS_MULTIBULK :: cmd_type where "CMD_RSP_REDIS_MULTIBULK \<equiv> 109"
abbreviation (input) CMD_SENTINEL :: cmd_type where "CMD_SENTINEL \<equiv> 110"

section \<open>Argument classes\<close>

definition redis_argz :: "cmd_type \<Rightarrow> bool" where
  "redis_argz t \<longleftrightarrow> t \<in> {CMD_REQ_REDIS_PING, CMD_REQ_REDIS_QUIT}"

definition redis_arg0 :: "cmd_type \<Rightarrow> bool" where
  "redis_arg0 t \<longleftrightarrow> t \<in> {CMD_REQ_REDIS_EXISTS, CMD_REQ_REDIS_PERSIST, CMD_REQ_REDIS_PTTL,
      CMD_REQ_REDIS_SORT, CMD_REQ_REDIS_TTL, CMD_REQ_REDIS_TYPE,
      CMD_REQ_REDIS_DUMP, CMD_REQ_REDIS_DECR, CMD_REQ_REDIS_GET,
      CMD_REQ_REDIS_INCR, CMD_REQ_REDIS_STRLEN, CMD_REQ_REDIS_HGETALL,
      CMD_REQ_REDIS_HKEYS, CMD_REQ_REDIS_HLEN, CMD_REQ_REDIS_HVALS,
      CMD_REQ_REDIS_LLEN, CMD_REQ_REDIS_LPOP, CMD_REQ_REDIS_RPOP,
      CMD_REQ_REDIS_SCARD, CMD_REQ_REDIS_SMEMBERS, CMD_REQ_REDIS_SPOP,
      CMD_REQ_REDIS_ZCARD, CMD_REQ_REDIS_PFCOUNT, CMD_REQ_REDIS_AUTH}"

definition redis_arg1 :: "cmd_type \<Rightarrow> bool" where
  "redis_arg1 t \<longleftrightarrow> t \<in> {CMD_REQ_REDIS_EXPIRE, CMD_REQ_REDIS_EXPIREAT, CMD_REQ_REDIS_PEXPIRE,
      CMD_REQ_REDIS_PEXPIREAT, CMD_REQ_REDIS_APPEND, CMD_REQ_REDIS_DECRBY,
      CMD_REQ_REDIS_GETBIT, CMD_REQ_REDIS_GETSET, CMD_REQ_REDIS_INCRBY,
      CMD_REQ_REDIS_INCRBYFLOAT, CMD_REQ_REDIS_SETNX, CMD_REQ_REDIS_HEXISTS,
      CMD_REQ_REDIS_HGET, CMD_REQ_REDIS_LINDEX, CMD_REQ_REDIS_LPUSHX,
      CMD_REQ_REDIS_RPOPLPUSH, CMD_REQ_REDIS_RPUSHX, CMD_REQ_REDIS_SISMEMBER,
      CMD_REQ_REDIS_ZRANK, CMD_REQ_REDIS_ZREVRANK, CMD_REQ_REDIS_ZSCORE}"

definition redis_arg2 :: "cmd_type \<Rightarrow> bool" where
  "redis_arg2 t \<longleftrightarrow> t \<in> {CMD_REQ_REDIS_GETRANGE, CMD_REQ_REDIS_PSETEX, CMD_REQ_REDIS_SETBIT,
      CMD_REQ_REDIS_SETEX, CMD_REQ_REDIS_SETRANGE, CMD_REQ_REDIS_HINCRBY,
      CMD_REQ_REDIS_HINCRBYFLOAT, CMD_REQ_REDIS_HSET, CMD_REQ_REDIS_HSETNX,
      CMD_REQ_REDIS_LRANGE, CMD_REQ_REDIS_LREM, CMD_REQ_REDIS_LSET,
      CMD_REQ_REDIS_LTRIM, CMD_REQ_REDIS_SMOVE, CMD_REQ_REDIS_ZCOUNT,
      CMD_REQ_REDIS_ZLEXCOUNT, CMD_REQ_REDIS_ZINCRBY, CMD_REQ_REDIS_ZREMRANGEBYLEX,
      CMD_REQ_REDIS_ZREMRANGEBYRANK, CMD_REQ_REDIS_ZREMRANGEBYSCORE, CMD_REQ_REDIS_RESTORE}"

definition redis_arg3 :: "cmd_type \<Rightarrow> bool" where
  "redis_arg3 t \<longleftrightarrow> t \<in> {CMD_REQ_REDIS_LINSERT}"

definition redis_argn :: "cmd_type \<Rightarrow> bool" where
  "redis_argn t \<longleftrightarrow> t \<in> {CMD_REQ_REDIS_BITCOUNT, CMD_REQ_REDIS_SET, CMD_REQ_REDIS_HDEL,
      CMD_REQ_REDIS_HMGET, CMD_REQ_REDIS_HMSET, CMD_REQ_REDIS_HSCAN,
      CMD_REQ_REDIS_LPUSH, CMD_REQ_REDIS_RPUSH, CMD_REQ_REDIS_SADD,
      CMD_REQ_REDIS_SDIFF, CMD_REQ_REDIS_SDIFFSTORE, CMD_REQ_REDIS_SINTER,
      CMD_REQ_REDIS_SINTERSTORE, CMD_REQ_REDIS_SREM, CMD_REQ_REDIS_SUNION,
      CMD_REQ_REDIS_SUNIONSTORE, CMD_REQ_REDIS_SRANDMEMBER, CMD_REQ_REDIS_SSCAN,
      CMD_REQ_REDIS_PFADD, CMD_REQ_REDIS_PFMERGE, CMD_REQ_REDIS_ZADD,
      CMD_REQ_REDIS_ZINTERSTORE, CMD_REQ_REDIS_ZRANGE, CMD_REQ_REDIS_ZRANGEBYSCORE,
      CMD_REQ_REDIS_ZREM, CMD_REQ_REDIS_ZREVRANGE, CMD_REQ_REDIS_ZRANGEBYLEX,
      CMD_REQ_REDIS_ZREVRANGEBYSCORE, CMD_REQ_REDIS_ZUNIONSTORE, CMD_REQ_REDIS_ZSCAN}"

definition redis_argx :: "cmd_type \<Rightarrow> bool" where
  "redis_argx t \<longleftrightarrow> t \<in> {CMD_REQ_REDIS_MGET, CMD_REQ_REDIS_DEL}"

definition redis_argkvx :: "cmd_type \<Rightarrow> bool" where
  "redis_argkvx t \<longleftrightarrow> t \<in> {CMD_REQ_REDIS_MSET}"

definition redis_argeval :: "cmd_type \<Rightarrow> bool" where
  "redis_argeval t \<longleftrightarrow> t \<in> {CMD_REQ_REDIS_EVAL, CMD_REQ_REDIS_EVALSHA}"

section \<open>Names\<close>

text \<open>\<^verbatim>\<open>strNicmp(m, c0, ..)\<close>: every byte equals the character or the character with bit 5
  flipped.\<close>

definition flip20 :: "char \<Rightarrow> char" where
  "flip20 c = char_of (char_code c XOR 0x20)"

fun icmp :: "bytes \<Rightarrow> bytes \<Rightarrow> bool" where
  "icmp [] m = True"
| "icmp (c # cs) [] = False"
| "icmp (c # cs) (x # m) = ((x = c \<or> x = flip20 c) \<and> icmp cs m)"

definition names3 :: "(bytes \<times> cmd_type) list" where
  "names3 =
     [(''get'', CMD_REQ_REDIS_GET), (''set'', CMD_REQ_REDIS_SET),
      (''ttl'', CMD_REQ_REDIS_TTL), (''del'', CMD_REQ_REDIS_DEL)]"

definition names4 :: "(bytes \<times> cmd_type) list" where
  "names4 =
     [(''pttl'', CMD_REQ_REDIS_PTTL), (''decr'', CMD_REQ_REDIS_DECR),
      (''dump'', CMD_REQ_REDIS_DUMP), (''hdel'', CMD_REQ_REDIS_HDEL),
      (''hget'', CMD_REQ_REDIS_HGET), (''hlen'', CMD_REQ_REDIS_HLEN),
      (''hset'', CMD_REQ_REDIS_HSET), (''incr'', CMD_REQ_REDIS_INCR),
      (''llen'', CMD_REQ_REDIS_LLEN), (''lpop'', CMD_REQ_REDIS_LPOP),
      (''lrem'', CMD_REQ_REDIS_LREM), (''lset'', CMD_REQ_REDIS_LSET),
      (''rpop'', CMD_REQ_REDIS_RPOP), (''sadd'', CMD_REQ_REDIS_SADD),
      (''spop'', CMD_REQ_REDIS_SPOP), (''srem'', CMD_REQ_REDIS_SREM),
      (''type'', CMD_REQ_REDIS_TYPE), (''mget'', CMD_REQ_REDIS_MGET),
      (''mset'', CMD_REQ_REDIS_MSET), (''zadd'', CMD_REQ_REDIS_ZADD),
      (''zrem'', CMD_REQ_REDIS_ZREM), (''eval'', CMD_REQ_REDIS_EVAL),
      (''sort'', CMD_REQ_REDIS_SORT), (''ping'', CMD_REQ_REDIS_PING),
      (''quit'', CMD_REQ_REDIS_QUIT), (''auth'', CMD_REQ_REDIS_AUTH)]"

definition names5 :: "(bytes \<times> cmd_type) list" where
  "names5 =
     [(''hkeys'', CMD_REQ_REDIS_HKEYS), (''hmget'', CMD_REQ_REDIS_HMGET),
      (''hmset'', CMD_REQ_REDIS_HMSET), (''hvals'', CMD_REQ_REDIS_HVALS),
      (''hscan'', CMD_REQ_REDIS_HSCAN), (''lpush'', CMD_REQ_REDIS_LPUSH),
      (''ltrim'', CMD_REQ_REDIS_LTRIM), (''rpush'', CMD_REQ_REDIS_RPUSH),
      (''scard'', CMD_REQ_REDIS_SCARD), (''sdiff'', CMD_REQ_REDIS_SDIFF),
      (''setex'', CMD_REQ_REDIS_SETEX), (''setnx'', CMD_REQ_REDIS_SETNX),
      (''smove'', CMD_REQ_REDIS_SMOVE), (''sscan'', CMD_REQ_REDIS_SSCAN),
      (''zcard'', CMD_REQ_REDIS_ZCARD), (''zrank'', CMD_REQ_REDIS_ZRANK),
      (''zscan'', CMD_REQ_REDIS_ZSCAN), (''pfadd'', CMD_REQ_REDIS_PFADD)]"

definition names6 :: "(bytes \<times> cmd_type) list" where
  "names6 =
     [(''append'', CMD_REQ_REDIS_APPEND), (''decrby'', CMD_REQ_REDIS_DECRBY),
      (''exists'', CMD_REQ_REDIS_EXISTS), (''expire'', CMD_REQ_REDIS_EXPIRE),
      (''getbit'', CMD_REQ_REDIS_GETBIT), (''getset'', CMD_REQ_REDIS_GETSET),
      (''psetex'', CMD_REQ_REDIS_PSETEX), (''hsetnx'', CMD_REQ_REDIS_HSETNX),
      (''incrby'', CMD_REQ_REDIS_INCRBY), (''lindex'', CMD_REQ_REDIS_LINDEX),
      (''lpushx'', CMD_REQ_REDIS_LPUSHX), (''lrange'', CMD_REQ_REDIS_LRANGE),
      (''rpushx'', CMD_REQ_REDIS_RPUSHX), (''setbit'', CMD_REQ_REDIS_SETBIT),
      (''sinter'', CMD_REQ_REDIS_SINTER), (''strlen'', CMD_REQ_REDIS_STRLEN),
      (''sunion'', CMD_REQ_REDIS_SUNION), (''zcount'', CMD_REQ_REDIS_ZCOUNT),
      (''zrange'', CMD_REQ_REDIS_ZRANGE), (''zscore'', CMD_REQ_REDIS_ZSCORE)]"

definition names7 :: "(bytes \<times> cmd_type) list" where
  "names7 =
     [(''persist'', CMD_REQ_REDIS_PERSIST), (''pexpire'', CMD_REQ_REDIS_PEXPIRE),
      (''hexists'', CMD_REQ_REDIS_HEXISTS), (''hgetall'', CMD_REQ_REDIS_HGETALL),
      (''hincrby'', CMD_REQ_REDIS_HINCRBY), (''linsert'', CMD_REQ_REDIS_LINSERT),
      (''zincrby'', CMD_REQ_REDIS_ZINCRBY), (''evalsha'', CMD_REQ_REDIS_EVALSHA),
      (''restore'', CMD_REQ_REDIS_RESTORE), (''pfcount'', CMD_REQ_REDIS_PFCOUNT),
      (''pfmerge'', CMD_REQ_REDIS_PFMERGE)]"

definition names8 :: "(bytes \<times> cmd_type) list" where
  "names8 =
     [(''expireat'', CMD_REQ_REDIS_EXPIREAT), (''bitcount'', CMD_REQ_REDIS_BITCOUNT),
      (''getrange'', CMD_REQ_REDIS_GETRANGE), (''setrange'', CMD_REQ_REDIS_SETRANGE),
      (''smembers'', CMD_REQ_REDIS_SMEMBERS), (''zrevrank'', CMD_REQ_REDIS_ZREVRANK)]"

definition names9 :: "(bytes \<times> cmd_type) list" where
  "names9 =
     [(''pexpireat'', CMD_REQ_REDIS_PEXPIREAT), (''rpoplpush'', CMD_REQ_REDIS_RPOPLPUSH),
      (''sismember'', CMD_REQ_REDIS_SISMEMBER), (''zrevrange'', CMD_REQ_REDIS_ZREVRANGE),
      (''zlexcount'', CMD_REQ_REDIS_ZLEXCOUNT)]"

definition names10 :: "(bytes \<times> cmd_type) list" where
  "names10 =
     [(''sdiffstore'', CMD_REQ_REDIS_SDIFFSTORE)]"

definition names11 :: "(bytes \<times> cmd_type) list" where
  "names11 =
     [(''incrbyfloat'', CMD_REQ_REDIS_INCRBYFLOAT), (''sinterstore'', CMD_REQ_REDIS_SINTERSTORE),
      (''srandmember'', CMD_REQ_REDIS_SRANDMEMBER), (''sunionstore'', CMD_REQ_REDIS_SUNIONSTORE),
      (''zinterstore'', CMD_REQ_REDIS_ZINTERSTORE), (''zunionstore'', CMD_REQ_REDIS_ZUNIONSTORE),
      (''zrangebylex'', CMD_REQ_REDIS_ZRANGEBYLEX)]"

definition names12 :: "(bytes \<times> cmd_type) list" where
  "names12 =
     [(''hincrbyfloat'', CMD_REQ_REDIS_HINCRBYFLOAT)]"

definition names13 :: "(bytes \<times> cmd_type) list" where
  "names13 =
     [(''zrangebyscore'', CMD_REQ_REDIS_ZRANGEBYSCORE)]"

definition names14 :: "(bytes \<times> cmd_type) list" where
  "names14 =
     [(''zremrangebylex'', CMD_REQ_REDIS_ZREMRANGEBYLEX)]"

definition names15 :: "(bytes \<times> cmd_type) list" where
  "names15 =
     [(''zremrangebyrank'', CMD_REQ_REDIS_ZREMRANGEBYRANK)]"

definition names16 :: "(bytes \<times> cmd_type) list" where
  "names16 =
     [(''zremrangebyscore'', CMD_REQ_REDIS_ZREMRANGEBYSCORE), (''zrevrangebyscore'', CMD_REQ_REDIS_ZREVRANGEBYSCORE)]"

fun lookup_name :: "(bytes \<times> cmd_type) list \<Rightarrow> bytes \<Rightarrow> cmd_type" where
  "lookup_name [] m = CMD_UNKNOWN"
| "lookup_name ((name, t) # tab) m = (if icmp name m then t else lookup_name tab m)"

text \<open>The \<^verbatim>\<open>switch (p - m)\<close>; \<open>m\<close> is the buffer from the name on. \<^verbatim>\<open>case 10\<close> has no \<^verbatim>\<open>break\<close> and
  goes on with the names of length 11.\<close>

definition names_of_length :: "nat \<Rightarrow> (bytes \<times> cmd_type) list" where
  "names_of_length n =
     (if n = 3 then names3 else if n = 4 then names4 else if n = 5 then names5
      else if n = 6 then names6 else if n = 7 then names7 else if n = 8 then names8
      else if n = 9 then names9 else if n = 10 then names10 @ names11
      else if n = 11 then names11 else if n = 12 then names12 else if n = 13 then names13
      else if n = 14 then names14 else if n = 15 then names15 else if n = 16 then names16
      else [])"

definition cmd_type_of :: "nat \<Rightarrow> bytes \<Rightarrow> cmd_type" where
  "cmd_type_of n m = lookup_name (names_of_length n) m"

section \<open>The table is consistent\<close>

lemma flip20_letters [simp]:
  "flip20 CHR ''a'' = CHR ''A''"
  "flip20 CHR ''b'' = CHR ''B''"
  "flip20 CHR ''c'' = CHR ''C''"
  "flip20 CHR ''d'' = CHR ''D''"
  "flip20 CHR ''e'' = CHR ''E''"
  "flip20 CHR ''f'' = CHR ''F''"
  "flip20 CHR ''g'' = CHR ''G''"
  "flip20 CHR ''h'' = CHR ''H''"
  "flip20 CHR ''i'' = CHR ''I''"
  "flip20 CHR ''k'' = CHR ''K''"
  "flip20 CHR ''l'' = CHR ''L''"
  "flip20 CHR ''m'' = CHR ''M''"
  "flip20 CHR ''n'' = CHR ''N''"
  "flip20 CHR ''o'' = CHR ''O''"
  "flip20 CHR ''p'' = CHR ''P''"
  "flip20 CHR ''q'' = CHR ''Q''"
  "flip20 CHR ''r'' = CHR ''R''"
  "flip20 CHR ''s'' = CHR ''S''"
  "flip20 CHR ''t'' = CHR ''T''"
  "flip20 CHR ''u'' = CHR ''U''"
  "flip20 CHR ''v'' = CHR ''V''"
  "flip20 CHR ''x'' = CHR ''X''"
  "flip20 CHR ''y'' = CHR ''Y''"
  "flip20 CHR ''z'' = CHR ''Z''"
  by code_simp+

lemma toupper_letters [simp]:
  "toupper CHR ''a'' = CHR ''A''"
  "toupper CHR ''b'' = CHR ''B''"
  "toupper CHR ''c'' = CHR ''C''"
  "toupper CHR ''d'' = CHR ''D''"
  "toupper CHR ''e'' = CHR ''E''"
  "toupper CHR ''f'' = CHR ''F''"
  "toupper CHR ''g'' = CHR ''G''"
  "toupper CHR ''h'' = CHR ''H''"
  "toupper CHR ''i'' = CHR ''I''"
  "toupper CHR ''k'' = CHR ''K''"
  "toupper CHR ''l'' = CHR ''L''"
  "toupper CHR ''m'' = CHR ''M''"
  "toupper CHR ''n'' = CHR ''N''"
  "toupper CHR ''o'' = CHR ''O''"
  "toupper CHR ''p'' = CHR ''P''"
  "toupper CHR ''q'' = CHR ''Q''"
  "toupper CHR ''r'' = CHR ''R''"
  "toupper CHR ''s'' = CHR ''S''"
  "toupper CHR ''t'' = CHR ''T''"
  "toupper CHR ''u'' = CHR ''U''"
  "toupper CHR ''v'' = CHR ''V''"
  "toupper CHR ''x'' = CHR ''X''"
  "toupper CHR ''y'' = CHR ''Y''"
  "toupper CHR ''z'' = CHR ''Z''"
  by code_simp+

text \<open>How many classes a type belongs to.\<close>

definition class_count :: "cmd_type \<Rightarrow> nat" where
  "class_count t = length (filter (\<lambda>b. b) [redis_argz t, redis_arg0 t, redis_arg1 t, redis_arg2 t,
     redis_arg3 t, redis_argn t, redis_argx t, redis_argkvx t, redis_argeval t])"

lemmas class_defs = redis_argz_def redis_arg0_def redis_arg1_def redis_arg2_def redis_arg3_def
  redis_argn_def redis_argx_def redis_argkvx_def redis_argeval_def

definition entry_ok :: "bytes \<Rightarrow> bytes \<times> cmd_type \<Rightarrow> bool" where
  "entry_ok rest e \<longleftrightarrow>
     cmd_type_of (length (fst e)) (fst e @ CR # rest) = snd e \<and>
     cmd_type_of (length (fst e)) (map toupper (fst e) @ CR # rest) = snd e \<and>
     class_count (snd e) = 1"

definition all_names :: "(bytes \<times> cmd_type) list" where
  "all_names = names3 @ names4 @ names5 @ names6 @ names7 @ names8 @ names9 @ names10 @ names11 @ names12 @ names13 @ names14 @ names15 @ names16"

lemma entries3: "\<forall>e \<in> set names3. entry_ok rest e"
  by (simp add: names3_def entry_ok_def cmd_type_of_def names_of_length_def class_count_def class_defs)

lemma entries4: "\<forall>e \<in> set names4. entry_ok rest e"
  by (simp add: names4_def entry_ok_def cmd_type_of_def names_of_length_def class_count_def class_defs)

lemma entries5: "\<forall>e \<in> set names5. entry_ok rest e"
  by (simp add: names5_def entry_ok_def cmd_type_of_def names_of_length_def class_count_def class_defs)

lemma entries6: "\<forall>e \<in> set names6. entry_ok rest e"
  by (simp add: names6_def entry_ok_def cmd_type_of_def names_of_length_def class_count_def class_defs)

lemma entries7: "\<forall>e \<in> set names7. entry_ok rest e"
  by (simp add: names7_def entry_ok_def cmd_type_of_def names_of_length_def class_count_def class_defs)

lemma entries8: "\<forall>e \<in> set names8. entry_ok rest e"
  by (simp add: names8_def entry_ok_def cmd_type_of_def names_of_length_def class_count_def class_defs)

lemma entries9: "\<forall>e \<in> set names9. entry_ok rest e"
  by (simp add: names9_def entry_ok_def cmd_type_of_def names_of_length_def class_count_def class_defs)

lemma entries10: "\<forall>e \<in> set names10. entry_ok rest e"
  by (simp add: names10_def names11_def entry_ok_def cmd_type_of_def names_of_length_def class_count_def class_defs)

lemma entries11: "\<forall>e \<in> set names11. entry_ok rest e"
  by (simp add: names11_def entry_ok_def cmd_type_of_def names_of_length_def class_count_def class_defs)

lemma entries12: "\<forall>e \<in> set names12. entry_ok rest e"
  by (simp add: names12_def entry_ok_def cmd_type_of_def names_of_length_def class_count_def class_defs)

lemma entries13: "\<forall>e \<in> set names13. entry_ok rest e"
  by (simp add: names13_def entry_ok_def cmd_type_of_def names_of_length_def class_count_def class_defs)

lemma entries14: "\<forall>e \<in> set names14. entry_ok rest e"
  by (simp add: names14_def entry_ok_def cmd_type_of_def names_of_length_def class_count_def class_defs)

lemma entries15: "\<forall>e \<in> set names15. entry_ok rest e"
  by (simp add: names15_def entry_ok_def cmd_type_of_def names_of_length_def class_count_def class_defs)

lemma entries16: "\<forall>e \<in> set names16. entry_ok rest e"
  by (simp add: names16_def entry_ok_def cmd_type_of_def names_of_length_def class_count_def class_defs)



end
