(* ===== verification/Command.thy ===== *)
theory Command
  imports Command_Table Hiarray
begin

text \<open>
  The request parser of \<^verbatim>\<open>src/command.c\<close>: \<^verbatim>\<open>struct cmd\<close>, the finite automaton of
  \<^verbatim>\<open>redis_parse_cmd\<close> with one definition per group of states, and \<^verbatim>\<open>command_get\<close>. Pointers into
  the command are offsets; the running lengths are 32-bit counters that wrap. The keys are a
  \<open>hiarray\<close> of positions. The fields of \<^verbatim>\<open>struct cmd\<close> that only the cluster client uses
  (\<^verbatim>\<open>frag_seq\<close>, \<^verbatim>\<open>reply\<close>, \<^verbatim>\<open>sub_commands\<close>) are not part of the record.
\<close>

section \<open>State\<close>

datatype cmd_parse_result = CMD_PARSE_OK | CMD_PARSE_ENOMEM | CMD_PARSE_ERROR | CMD_PARSE_REPAIR
  | CMD_PARSE_AGAIN

text \<open>\<^verbatim>\<open>remain_len\<close> is not written by the parser: \<open>None\<close> until the cluster client sets it.\<close>

record keypos =
  kp_start :: nat
  kp_end :: nat
  kp_remain_len :: "nat option"

record cmd =
  c_id :: u64
  c_result :: cmd_parse_result
  c_errstr :: "bytes option"
  c_type :: cmd_type
  c_cmd :: bytes
  c_keys :: "keypos hiarray"
  c_narg_start :: "nat option"
  c_narg_end :: "nat option"
  c_narg :: nat
  c_quit :: bool
  c_noforward :: bool
  c_slot_num :: int

datatype sw = SW_START | SW_NARG | SW_NARG_LF | SW_REQ_TYPE_LEN | SW_REQ_TYPE_LEN_LF | SW_REQ_TYPE
  | SW_REQ_TYPE_LF | SW_KEY_LEN | SW_KEY_LEN_LF | SW_KEY | SW_KEY_LF | SW_ARG1_LEN | SW_ARG1_LEN_LF
  | SW_ARG1 | SW_ARG1_LF | SW_ARG2_LEN | SW_ARG2_LEN_LF | SW_ARG2 | SW_ARG2_LF | SW_ARG3_LEN
  | SW_ARG3_LEN_LF | SW_ARG3 | SW_ARG3_LF | SW_ARGN_LEN | SW_ARGN_LEN_LF | SW_ARGN | SW_ARGN_LF
  | SW_SENTINEL

definition sw_num :: "sw \<Rightarrow> nat" where
  "sw_num s = (case s of SW_START \<Rightarrow> 0 | SW_NARG \<Rightarrow> 1 | SW_NARG_LF \<Rightarrow> 2 | SW_REQ_TYPE_LEN \<Rightarrow> 3
     | SW_REQ_TYPE_LEN_LF \<Rightarrow> 4 | SW_REQ_TYPE \<Rightarrow> 5 | SW_REQ_TYPE_LF \<Rightarrow> 6 | SW_KEY_LEN \<Rightarrow> 7
     | SW_KEY_LEN_LF \<Rightarrow> 8 | SW_KEY \<Rightarrow> 9 | SW_KEY_LF \<Rightarrow> 10 | SW_ARG1_LEN \<Rightarrow> 11 | SW_ARG1_LEN_LF \<Rightarrow> 12
     | SW_ARG1 \<Rightarrow> 13 | SW_ARG1_LF \<Rightarrow> 14 | SW_ARG2_LEN \<Rightarrow> 15 | SW_ARG2_LEN_LF \<Rightarrow> 16 | SW_ARG2 \<Rightarrow> 17
     | SW_ARG2_LF \<Rightarrow> 18 | SW_ARG3_LEN \<Rightarrow> 19 | SW_ARG3_LEN_LF \<Rightarrow> 20 | SW_ARG3 \<Rightarrow> 21 | SW_ARG3_LF \<Rightarrow> 22
     | SW_ARGN_LEN \<Rightarrow> 23 | SW_ARGN_LEN_LF \<Rightarrow> 24 | SW_ARGN \<Rightarrow> 25 | SW_ARGN_LF \<Rightarrow> 26 | SW_SENTINEL \<Rightarrow> 27)"

text \<open>The local variables of the loop.\<close>

record fsm =
  fs_state :: sw
  fs_token :: "nat option"
  fs_rlen :: nat
  fs_rnarg :: nat
  fs_p :: nat

text \<open>What one iteration does: go on with \<^verbatim>\<open>p++\<close>, \<^verbatim>\<open>goto done\<close>, \<^verbatim>\<open>goto error\<close>, \<^verbatim>\<open>goto enomem\<close>.\<close>

datatype outcome = Go cmd fsm | Done cmd | Fail cmd fsm | NoMem cmd

section \<open>The states\<close>

definition run_digit :: "nat \<Rightarrow> char \<Rightarrow> nat" where
  "run_digit n ch = uint32 (int (n * 10 + digit_val ch))"

definition sw_narg :: "cmd \<Rightarrow> fsm \<Rightarrow> char \<Rightarrow> outcome" where
  "sw_narg r f ch =
     (case fs_token f of
        None \<Rightarrow>
          (if ch \<noteq> CHR ''*'' then Fail r f
           else Go (r\<lparr>c_narg_start := Some (fs_p f)\<rparr>)
                   (f\<lparr>fs_token := Some (fs_p f), fs_rnarg := 0, fs_state := SW_NARG\<rparr>))
      | Some token \<Rightarrow>
          (if isdigit ch then Go r (f\<lparr>fs_rnarg := run_digit (fs_rnarg f) ch\<rparr>)
           else if ch = CR then
             (if fs_rnarg f = 0 then Fail r f
              else Go (r\<lparr>c_narg := fs_rnarg f, c_narg_end := Some (fs_p f)\<rparr>)
                      (f\<lparr>fs_token := None, fs_state := SW_NARG_LF\<rparr>))
           else Fail r f))"

definition sw_lf :: "sw \<Rightarrow> cmd \<Rightarrow> fsm \<Rightarrow> char \<Rightarrow> outcome" where
  "sw_lf target r f ch = (if ch = LF then Go r (f\<lparr>fs_state := target\<rparr>) else Fail r f)"

text \<open>The six \<^verbatim>\<open>..._LEN\<close> states differ in what they refuse at the CR and in the next state.\<close>

definition sw_len :: "(fsm \<Rightarrow> nat \<Rightarrow> bool) \<Rightarrow> sw \<Rightarrow> cmd \<Rightarrow> fsm \<Rightarrow> char \<Rightarrow> outcome" where
  "sw_len bad target r f ch =
     (case fs_token f of
        None \<Rightarrow>
          (if ch \<noteq> CHR ''$'' then Fail r f
           else Go r (f\<lparr>fs_token := Some (fs_p f), fs_rlen := 0\<rparr>))
      | Some token \<Rightarrow>
          (if isdigit ch then Go r (f\<lparr>fs_rlen := run_digit (fs_rlen f) ch\<rparr>)
           else if ch = CR then
             (if bad f token then Fail r f
              else Go r (f\<lparr>fs_rnarg := fs_rnarg f - 1, fs_token := None, fs_state := target\<rparr>))
           else Fail r f))"

definition bad_type_len :: "fsm \<Rightarrow> nat \<Rightarrow> bool" where
  "bad_type_len f token \<longleftrightarrow> fs_rlen f = 0 \<or> fs_rnarg f = 0"

definition bad_key_len :: "fsm \<Rightarrow> nat \<Rightarrow> bool" where
  "bad_key_len f token \<longleftrightarrow> fs_rnarg f = 0"

definition bad_arg_len :: "fsm \<Rightarrow> nat \<Rightarrow> bool" where
  "bad_arg_len f token \<longleftrightarrow> fs_p f - token \<le> 1 \<or> fs_rnarg f = 0"

definition token_or :: "fsm \<Rightarrow> nat" where
  "token_or f = (case fs_token f of None \<Rightarrow> fs_p f | Some t \<Rightarrow> t)"

definition sw_req_type :: "cmd \<Rightarrow> fsm \<Rightarrow> outcome" where
  "sw_req_type r f =
     (let token = token_or f; m = token + fs_rlen f in
      if length (c_cmd r) \<le> m then Fail r (f\<lparr>fs_token := Some token\<rparr>)
      else if c_cmd r ! m \<noteq> CR then Fail r (f\<lparr>fs_token := Some token\<rparr>)
      else
        (let t = cmd_type_of (m - token) (drop token (c_cmd r));
             r = r\<lparr>c_type := t,
                   c_noforward := c_noforward r \<or> t = CMD_REQ_REDIS_PING \<or> t = CMD_REQ_REDIS_AUTH,
                   c_quit := c_quit r \<or> t = CMD_REQ_REDIS_QUIT\<rparr>;
             f = f\<lparr>fs_p := m, fs_rlen := 0, fs_token := None\<rparr>
         in if t = CMD_UNKNOWN then Fail r f else Go r (f\<lparr>fs_state := SW_REQ_TYPE_LF\<rparr>)))"

definition sw_req_type_lf :: "cmd \<Rightarrow> fsm \<Rightarrow> char \<Rightarrow> outcome" where
  "sw_req_type_lf r f ch =
     (if ch \<noteq> LF then Fail r f
      else if redis_argz (c_type r) then Done r
      else if redis_argeval (c_type r) then Go r (f\<lparr>fs_state := SW_ARG1_LEN\<rparr>)
      else Go r (f\<lparr>fs_state := SW_KEY_LEN\<rparr>))"

definition sw_key :: "mem \<Rightarrow> cmd \<Rightarrow> fsm \<Rightarrow> outcome c_res" where
  "sw_key M r f =
     (let token = token_or f; m = token + fs_rlen f in
      if length (c_cmd r) \<le> m then Inr (Fail r (f\<lparr>fs_token := Some token\<rparr>))
      else if c_cmd r ! m \<noteq> CR then Inr (Fail r (f\<lparr>fs_token := Some token\<rparr>))
      else
        bind_c (ha_append M (c_keys r) \<lparr>kp_start = token, kp_end = m, kp_remain_len = None\<rparr>) (\<lambda>k.
          case k of
            None \<Rightarrow> Inr (NoMem r)
          | Some keys \<Rightarrow>
              Inr (Go (r\<lparr>c_keys := keys\<rparr>)
                      (f\<lparr>fs_p := m, fs_rlen := 0, fs_token := None, fs_state := SW_KEY_LF\<rparr>))))"

definition need :: "bool \<Rightarrow> cmd \<Rightarrow> fsm \<Rightarrow> outcome \<Rightarrow> outcome" where
  "need b r f out = (if b then out else Fail r f)"

definition sw_key_lf :: "cmd \<Rightarrow> fsm \<Rightarrow> char \<Rightarrow> outcome" where
  "sw_key_lf r f ch =
     (let t = c_type r; n = fs_rnarg f; go = (\<lambda>s. Go r (f\<lparr>fs_state := s\<rparr>)) in
      if ch \<noteq> LF then Fail r f
      else if redis_arg0 t then need (n = 0) r f (Done r)
      else if redis_arg1 t then need (n = 1) r f (go SW_ARG1_LEN)
      else if redis_arg2 t then need (n = 2) r f (go SW_ARG1_LEN)
      else if redis_arg3 t then need (n = 3) r f (go SW_ARG1_LEN)
      else if redis_argn t then (if n = 0 then Done r else go SW_ARG1_LEN)
      else if redis_argx t then (if n = 0 then Done r else go SW_KEY_LEN)
      else if redis_argkvx t then
        (if n = 0 then Done r else need (c_narg r mod 2 \<noteq> 0) r f (go SW_ARG1_LEN))
      else if redis_argeval t then (if n = 0 then Done r else go SW_ARGN_LEN)
      else Fail r f)"

text \<open>The states that skip the bytes of an argument.\<close>

definition sw_arg :: "sw \<Rightarrow> cmd \<Rightarrow> fsm \<Rightarrow> outcome" where
  "sw_arg target r f =
     (let m = fs_p f + fs_rlen f in
      if length (c_cmd r) \<le> m then Fail r f
      else if c_cmd r ! m \<noteq> CR then Fail r f
      else Go r (f\<lparr>fs_p := m, fs_rlen := 0, fs_state := target\<rparr>))"

definition sw_arg1_lf :: "cmd \<Rightarrow> fsm \<Rightarrow> char \<Rightarrow> outcome" where
  "sw_arg1_lf r f ch =
     (let t = c_type r; n = fs_rnarg f; go = (\<lambda>s. Go r (f\<lparr>fs_state := s\<rparr>)) in
      if ch \<noteq> LF then Fail r f
      else if redis_arg1 t then need (n = 0) r f (Done r)
      else if redis_arg2 t then need (n = 1) r f (go SW_ARG2_LEN)
      else if redis_arg3 t then need (n = 2) r f (go SW_ARG2_LEN)
      else if redis_argn t then (if n = 0 then Done r else go SW_ARGN_LEN)
      else if redis_argeval t then need (2 \<le> n) r f (go SW_ARG2_LEN)
      else if redis_argkvx t then (if n = 0 then Done r else go SW_KEY_LEN)
      else Fail r f)"

text \<open>For EVAL the second argument is the number of keys; it must be a non-zero number.\<close>

fun nkey_loop :: "nat \<Rightarrow> bytes \<Rightarrow> nat option" where
  "nkey_loop nkey [] = Some nkey"
| "nkey_loop nkey (c # cs) = (if isdigit c then nkey_loop (run_digit nkey c) cs else None)"

definition sw_arg2 :: "cmd \<Rightarrow> fsm \<Rightarrow> outcome" where
  "sw_arg2 r f =
     (let eval = redis_argeval (c_type r);
          f1 = (if fs_token f = None \<and> eval then f\<lparr>fs_token := Some (fs_p f)\<rparr> else f);
          m = fs_p f1 + fs_rlen f1
      in if length (c_cmd r) \<le> m then Fail r f1
         else if c_cmd r ! m \<noteq> CR then Fail r f1
         else
           (let f2 = f1\<lparr>fs_p := m, fs_rlen := 0\<rparr> in
            if eval then
              (let token = token_or f1 in
               if m - token < 1 then Fail r f2
               else
                 (case nkey_loop 0 (take (m - token) (drop token (c_cmd r))) of
                    None \<Rightarrow> Fail r f2
                  | Some nkey \<Rightarrow>
                      if nkey = 0 then Fail r f2
                      else Go r (f2\<lparr>fs_token := None, fs_state := SW_ARG2_LF\<rparr>)))
            else Go r (f2\<lparr>fs_state := SW_ARG2_LF\<rparr>)))"

definition sw_arg2_lf :: "cmd \<Rightarrow> fsm \<Rightarrow> char \<Rightarrow> outcome" where
  "sw_arg2_lf r f ch =
     (let t = c_type r; n = fs_rnarg f; go = (\<lambda>s. Go r (f\<lparr>fs_state := s\<rparr>)) in
      if ch \<noteq> LF then Fail r f
      else if redis_arg2 t then need (n = 0) r f (Done r)
      else if redis_arg3 t then need (n = 1) r f (go SW_ARG3_LEN)
      else if redis_argn t then (if n = 0 then Done r else go SW_ARGN_LEN)
      else if redis_argeval t then need (1 \<le> n) r f (go SW_KEY_LEN)
      else Fail r f)"

definition sw_arg3_lf :: "cmd \<Rightarrow> fsm \<Rightarrow> char \<Rightarrow> outcome" where
  "sw_arg3_lf r f ch =
     (let t = c_type r; n = fs_rnarg f in
      if ch \<noteq> LF then Fail r f
      else if redis_arg3 t then need (n = 0) r f (Done r)
      else if redis_argn t then (if n = 0 then Done r else Go r (f\<lparr>fs_state := SW_ARGN_LEN\<rparr>))
      else Fail r f)"

definition sw_argn_lf :: "cmd \<Rightarrow> fsm \<Rightarrow> char \<Rightarrow> outcome" where
  "sw_argn_lf r f ch =
     (if ch \<noteq> LF then Fail r f
      else if redis_argn (c_type r) \<or> redis_argeval (c_type r) then
        (if fs_rnarg f = 0 then Done r else Go r (f\<lparr>fs_state := SW_ARGN_LEN\<rparr>))
      else Fail r f)"

text \<open>The \<^verbatim>\<open>switch (state)\<close>. \<^verbatim>\<open>SW_SENTINEL\<close> falls to \<^verbatim>\<open>NOT_REACHED()\<close>, which is empty.\<close>

definition parse_step :: "mem \<Rightarrow> cmd \<Rightarrow> fsm \<Rightarrow> outcome c_res" where
  "parse_step M r f =
     (let ch = c_cmd r ! fs_p f in
      case fs_state f of
        SW_START \<Rightarrow> Inr (sw_narg r f ch)
      | SW_NARG \<Rightarrow> Inr (sw_narg r f ch)
      | SW_NARG_LF \<Rightarrow> Inr (sw_lf SW_REQ_TYPE_LEN r f ch)
      | SW_REQ_TYPE_LEN \<Rightarrow> Inr (sw_len bad_type_len SW_REQ_TYPE_LEN_LF r f ch)
      | SW_REQ_TYPE_LEN_LF \<Rightarrow> Inr (sw_lf SW_REQ_TYPE r f ch)
      | SW_REQ_TYPE \<Rightarrow> Inr (sw_req_type r f)
      | SW_REQ_TYPE_LF \<Rightarrow> Inr (sw_req_type_lf r f ch)
      | SW_KEY_LEN \<Rightarrow> Inr (sw_len bad_key_len SW_KEY_LEN_LF r f ch)
      | SW_KEY_LEN_LF \<Rightarrow> Inr (sw_lf SW_KEY r f ch)
      | SW_KEY \<Rightarrow> sw_key M r f
      | SW_KEY_LF \<Rightarrow> Inr (sw_key_lf r f ch)
      | SW_ARG1_LEN \<Rightarrow> Inr (sw_len bad_arg_len SW_ARG1_LEN_LF r f ch)
      | SW_ARG1_LEN_LF \<Rightarrow> Inr (sw_lf SW_ARG1 r f ch)
      | SW_ARG1 \<Rightarrow> Inr (sw_arg SW_ARG1_LF r f)
      | SW_ARG1_LF \<Rightarrow> Inr (sw_arg1_lf r f ch)
      | SW_ARG2_LEN \<Rightarrow> Inr (sw_len bad_arg_len SW_ARG2_LEN_LF r f ch)
      | SW_ARG2_LEN_LF \<Rightarrow> Inr (sw_lf SW_ARG2 r f ch)
      | SW_ARG2 \<Rightarrow> Inr (sw_arg2 r f)
      | SW_ARG2_LF \<Rightarrow> Inr (sw_arg2_lf r f ch)
      | SW_ARG3_LEN \<Rightarrow> Inr (sw_len bad_arg_len SW_ARG3_LEN_LF r f ch)
      | SW_ARG3_LEN_LF \<Rightarrow> Inr (sw_lf SW_ARG3 r f ch)
      | SW_ARG3 \<Rightarrow> Inr (sw_arg SW_ARG3_LF r f)
      | SW_ARG3_LF \<Rightarrow> Inr (sw_arg3_lf r f ch)
      | SW_ARGN_LEN \<Rightarrow> Inr (sw_len bad_arg_len SW_ARGN_LEN_LF r f ch)
      | SW_ARGN_LEN_LF \<Rightarrow> Inr (sw_lf SW_ARGN r f ch)
      | SW_ARGN \<Rightarrow> Inr (sw_arg SW_ARGN_LF r f)
      | SW_ARGN_LF \<Rightarrow> Inr (sw_argn_lf r f ch)
      | SW_SENTINEL \<Rightarrow> Inr (Go r f))"

section \<open>The parser\<close>

text \<open>
  The \<^verbatim>\<open>for\<close> loop. \<open>fuel\<close> bounds the iterations; every iteration moves \<^verbatim>\<open>p\<close>, so one more than the
  length of the command is enough, and running out of it is the fault \<open>Diverged\<close>, which the
  theorems exclude.
\<close>

fun parse_loop :: "nat \<Rightarrow> mem \<Rightarrow> cmd \<Rightarrow> fsm \<Rightarrow> outcome c_res" where
  "parse_loop 0 M r f = Inl Diverged"
| "parse_loop (Suc fuel) M r f =
     (if fs_p f < length (c_cmd r) then
        bind_c (parse_step M r f) (\<lambda>out.
          case out of
            Go r f \<Rightarrow> parse_loop fuel M r (f\<lparr>fs_p := fs_p f + 1\<rparr>)
          | out \<Rightarrow> Inr out)
      else Inr (Go r f))"

definition fsm_start :: fsm where
  "fsm_start = \<lparr>fs_state = SW_START, fs_token = None, fs_rlen = 0, fs_rnarg = 0, fs_p = 0\<rparr>"

definition error_text :: "cmd \<Rightarrow> fsm \<Rightarrow> bytes" where
  "error_text r f =
     take 99 (''Parse command error. Cmd type: '' @ dec (c_type r) @ '', state: '' @
       dec (sw_num (fs_state f)) @ '', break position: '' @ dec_int (int32 (int (fs_p f))) @ ''.'')"

definition parse_error :: "mem \<Rightarrow> cmd \<Rightarrow> fsm \<Rightarrow> cmd c_res" where
  "parse_error M r f =
     (if c_errstr r = None \<and> \<not> mem_ok M 100 then Inl NullDeref
      else Inr (r\<lparr>c_result := CMD_PARSE_ERROR, c_errstr := Some (error_text r f)\<rparr>))"

definition redis_parse_cmd :: "mem \<Rightarrow> cmd \<Rightarrow> cmd c_res" where
  "redis_parse_cmd M r =
     bind_c (parse_loop (length (c_cmd r) + 1) M r fsm_start) (\<lambda>out.
       case out of
         Go r f \<Rightarrow> Inr r
       | Done r \<Rightarrow> Inr (r\<lparr>c_result := CMD_PARSE_OK\<rparr>)
       | NoMem r \<Rightarrow> Inr (r\<lparr>c_result := CMD_PARSE_ENOMEM\<rparr>)
       | Fail r f \<Rightarrow> parse_error M r f)"

abbreviation sizeof_cmd :: nat where "sizeof_cmd \<equiv> 112"
abbreviation sizeof_keypos :: nat where "sizeof_keypos \<equiv> 24"

text \<open>\<open>cmd_id\<close> is the static counter.\<close>

definition command_get :: "mem \<Rightarrow> u64 \<Rightarrow> u64 \<times> cmd option" where
  "command_get M cmd_id =
     (if \<not> mem_ok M sizeof_cmd then (cmd_id, None)
      else
        (cmd_id + 1,
         (case hiarray_create M 1 sizeof_keypos of
            None \<Rightarrow> None
          | Some keys \<Rightarrow>
              Some \<lparr>c_id = cmd_id + 1, c_result = CMD_PARSE_OK, c_errstr = None, c_type = CMD_UNKNOWN,
                    c_cmd = [], c_keys = keys, c_narg_start = None, c_narg_end = None, c_narg = 0,
                    c_quit = False, c_noforward = False, c_slot_num = -1\<rparr>)))"

section \<open>The automaton keeps its invariant and stays inside the command\<close>

definition scanning :: "sw \<Rightarrow> bool" where
  "scanning s \<longleftrightarrow> s \<in> {SW_NARG, SW_REQ_TYPE_LEN, SW_KEY_LEN, SW_ARG1_LEN, SW_ARG2_LEN, SW_ARG3_LEN,
     SW_ARGN_LEN}"

definition key_ok :: "bytes \<Rightarrow> keypos \<Rightarrow> bool" where
  "key_ok b k \<longleftrightarrow> kp_start k \<le> kp_end k \<and> kp_end k < length b \<and> b ! kp_end k = CR"

definition parse_inv :: "cmd \<Rightarrow> fsm \<Rightarrow> bool" where
  "parse_inv r f \<longleftrightarrow> ha_ok (c_keys r) \<and> list_all (key_ok (c_cmd r)) (ha_list (c_keys r)) \<and>
     ha_nelem (c_keys r) \<le> fs_p f \<and> length (c_cmd r) < 2 ^ 31 \<and>
     (fs_token f = None \<or> scanning (fs_state f))"

lemma outcome_simps [simp]:
  "need b r f out = Go r' f' \<longleftrightarrow> b \<and> out = Go r' f'"
  "need b r f out = NoMem r' \<longleftrightarrow> b \<and> out = NoMem r'"
  by (auto simp: need_def)

lemmas sw_defs = sw_narg_def sw_lf_def sw_len_def sw_req_type_def sw_req_type_lf_def sw_key_lf_def
  sw_arg_def sw_arg1_lf_def sw_arg2_def sw_arg2_lf_def sw_arg3_lf_def sw_argn_lf_def

definition step_ok :: "cmd \<Rightarrow> fsm \<Rightarrow> outcome \<Rightarrow> bool" where
  "step_ok r f out \<longleftrightarrow>
     (case out of
        Go r' f' \<Rightarrow> parse_inv r' (f'\<lparr>fs_p := fs_p f' + 1\<rparr>) \<and> fs_p f \<le> fs_p f' \<and> c_cmd r' = c_cmd r
      | Done r' \<Rightarrow> c_keys r' = c_keys r \<and> c_cmd r' = c_cmd r
      | Fail r' f' \<Rightarrow> c_keys r' = c_keys r \<and> c_cmd r' = c_cmd r
      | NoMem r' \<Rightarrow> c_keys r' = c_keys r \<and> c_cmd r' = c_cmd r)"

lemma step_ok_simps [simp]:
  "step_ok r f (Done r') \<longleftrightarrow> c_keys r' = c_keys r \<and> c_cmd r' = c_cmd r"
  "step_ok r f (Fail r' f') \<longleftrightarrow> c_keys r' = c_keys r \<and> c_cmd r' = c_cmd r"
  "step_ok r f (NoMem r') \<longleftrightarrow> c_keys r' = c_keys r \<and> c_cmd r' = c_cmd r"
  "step_ok r f (need b r f out) \<longleftrightarrow> (b \<longrightarrow> step_ok r f out)"
  by (simp_all add: step_ok_def need_def)

lemma step_ok_Go:
  assumes "parse_inv r f" "c_keys r' = c_keys r" "c_cmd r' = c_cmd r" "fs_p f \<le> fs_p f'"
    "fs_token f' = None \<or> scanning (fs_state f')"
  shows "step_ok r f (Go r' f')"
  using assms by (auto simp: step_ok_def parse_inv_def)

lemma parse_inv_token: "parse_inv r f \<Longrightarrow> \<not> scanning (fs_state f) \<Longrightarrow> fs_token f = None"
  by (simp add: parse_inv_def)

lemma sw_narg_ok:
  "parse_inv r f \<Longrightarrow> fs_state f \<in> {SW_START, SW_NARG} \<Longrightarrow> step_ok r f (sw_narg r f ch)"
  using parse_inv_token [of r f]
  by (cases "fs_token f") (auto simp: sw_narg_def step_ok_Go scanning_def)

lemma sw_len_ok: "parse_inv r f \<Longrightarrow> scanning (fs_state f) \<Longrightarrow> step_ok r f (sw_len bad target r f ch)"
  by (cases "fs_token f") (simp_all add: sw_len_def step_ok_Go)

lemma sw_moves_ok:
  assumes "parse_inv r f" "fs_token f = None"
  shows "step_ok r f (sw_lf target r f ch)" "step_ok r f (sw_req_type r f)"
    "step_ok r f (sw_req_type_lf r f ch)" "step_ok r f (sw_arg target r f)" "step_ok r f (sw_arg2 r f)"
  using assms
  by (simp_all add: sw_lf_def sw_req_type_def sw_req_type_lf_def sw_arg_def sw_arg2_def token_or_def
      Let_def step_ok_Go split: option.split)

lemma sw_lf_ok:
  assumes "parse_inv r f" "fs_token f = None"
  shows "step_ok r f (sw_key_lf r f ch)" "step_ok r f (sw_arg1_lf r f ch)"
    "step_ok r f (sw_arg2_lf r f ch)" "step_ok r f (sw_arg3_lf r f ch)" "step_ok r f (sw_argn_lf r f ch)"
  using assms
  by (simp_all add: sw_key_lf_def sw_arg1_lf_def sw_arg2_lf_def sw_arg3_lf_def sw_argn_lf_def
      Let_def step_ok_Go)

lemma sw_key_ok:
  assumes "parse_inv r f" "fs_token f = None"
  shows "\<exists>out. sw_key M r f = Inr out \<and> step_ok r f out \<and> (\<forall>r'. out = NoMem r' \<longrightarrow> (\<exists>n. \<not> mem_ok M n))"
proof -
  let ?m = "fs_p f + fs_rlen f"
  let ?k = "\<lparr>kp_start = fs_p f, kp_end = ?m, kp_remain_len = None\<rparr>"
  show ?thesis
  proof (cases "?m < length (c_cmd r) \<and> c_cmd r ! ?m = CR")
    case True
    then have "ha_nelem (c_keys r) < 2 ^ 31" "ha_ok (c_keys r)" using assms(1) by (auto simp: parse_inv_def)
    from ha_append_law [OF this(2,1), of M ?k] show ?thesis
    proof (elim disjE exE conjE)
      fix a' assume a': "ha_append M (c_keys r) ?k = Inr (Some a')" "ha_ok a'"
        "ha_list a' = ha_list (c_keys r) @ [?k]" "ha_nelem a' = ha_nelem (c_keys r) + 1"
      then show ?thesis using True assms
        by (simp add: sw_key_def token_or_def step_ok_def parse_inv_def key_ok_def)
    qed (use True assms in \<open>auto simp: sw_key_def token_or_def\<close>)
  next
    case False
    then show ?thesis using assms by (auto simp: sw_key_def token_or_def Let_def)
  qed
qed

lemma not_NoMem [simp]:
  "sw_narg r f ch \<noteq> NoMem r'" "sw_lf target r f ch \<noteq> NoMem r'" "sw_len bad target r f ch \<noteq> NoMem r'"
  "sw_req_type r f \<noteq> NoMem r'" "sw_req_type_lf r f ch \<noteq> NoMem r'" "sw_key_lf r f ch \<noteq> NoMem r'"
  "sw_arg target r f \<noteq> NoMem r'" "sw_arg1_lf r f ch \<noteq> NoMem r'" "sw_arg2 r f \<noteq> NoMem r'"
  "sw_arg2_lf r f ch \<noteq> NoMem r'" "sw_arg3_lf r f ch \<noteq> NoMem r'" "sw_argn_lf r f ch \<noteq> NoMem r'"
  by (simp_all add: sw_defs Let_def split: option.split)

lemma parse_step_ok:
  assumes "parse_inv r f"
  shows "\<exists>out. parse_step M r f = Inr out \<and> step_ok r f out \<and> (\<forall>r'. out = NoMem r' \<longrightarrow> (\<exists>n. \<not> mem_ok M n))"
  using sw_narg_ok [OF assms] sw_len_ok [OF assms] sw_moves_ok [OF assms] sw_lf_ok [OF assms]
    sw_key_ok [OF assms, of M] parse_inv_token [OF assms] assms
  by (cases "fs_state f") (simp_all add: parse_step_def scanning_def step_ok_Go)

fun out_cmd :: "outcome \<Rightarrow> cmd" where
  "out_cmd (Go r f) = r" | "out_cmd (Done r) = r" | "out_cmd (Fail r f) = r" | "out_cmd (NoMem r) = r"

definition out_ok :: "mem \<Rightarrow> bytes \<Rightarrow> outcome \<Rightarrow> bool" where
  "out_ok M b out \<longleftrightarrow> ha_ok (c_keys (out_cmd out)) \<and> c_cmd (out_cmd out) = b \<and>
     list_all (key_ok b) (ha_list (c_keys (out_cmd out))) \<and> (\<forall>r. out = NoMem r \<longrightarrow> (\<exists>n. \<not> mem_ok M n))"

lemma parse_loop_ok:
  assumes "parse_inv r f" "length (c_cmd r) < fs_p f + fuel" "0 < fuel"
  shows "\<exists>out. parse_loop fuel M r f = Inr out \<and> out_ok M (c_cmd r) out"
  using assms
proof (induction fuel arbitrary: r f)
  case (Suc fuel)
  show ?case
  proof (cases "fs_p f < length (c_cmd r)")
    case True
    obtain out where out: "parse_step M r f = Inr out" "step_ok r f out"
      "\<forall>r'. out = NoMem r' \<longrightarrow> (\<exists>n. \<not> mem_ok M n)"
      using parse_step_ok [OF Suc.prems(1)] by blast
    show ?thesis
    proof (cases out)
      case (Go r' f')
      then have g: "parse_inv r' (f'\<lparr>fs_p := fs_p f' + 1\<rparr>)" "fs_p f \<le> fs_p f'" "c_cmd r' = c_cmd r"
        using out(2) by (auto simp: step_ok_def)
      have "length (c_cmd r') < fs_p (f'\<lparr>fs_p := fs_p f' + 1\<rparr>) + fuel" "0 < fuel"
        using g Suc.prems(2) True by auto
      from Suc.IH [OF g(1) this] show ?thesis using True by (simp add: out(1) Go g(3))
    qed (use True out Suc.prems(1) in \<open>auto simp: parse_inv_def out_ok_def\<close>)
  qed (use Suc.prems in \<open>auto simp: parse_inv_def out_ok_def\<close>)
qed simp

lemma redis_parse_cmd_ok:
  assumes "ha_ok (c_keys r)" "ha_nelem (c_keys r) = 0" "length (c_cmd r) < 2 ^ 31"
  shows "redis_parse_cmd M r = Inl NullDeref \<and> \<not> mem_ok M 100 \<or>
    (\<exists>r'. redis_parse_cmd M r = Inr r' \<and> c_cmd r' = c_cmd r \<and> ha_ok (c_keys r') \<and>
      list_all (key_ok (c_cmd r)) (ha_list (c_keys r')))"
proof -
  have "parse_inv r fsm_start"
    using assms by (simp add: parse_inv_def fsm_start_def ha_list_def)
  from parse_loop_ok [OF this, of "length (c_cmd r) + 1" M] obtain out where
    "parse_loop (length (c_cmd r) + 1) M r fsm_start = Inr out" "out_ok M (c_cmd r) out"
    by (auto simp: fsm_start_def)
  then show ?thesis
    by (cases out) (auto simp: redis_parse_cmd_def out_ok_def parse_error_def)
qed

section \<open>Runs of the automaton\<close>

text \<open>\<open>runs M r f r' f'\<close>: some number of iterations leads from one state of the loop to the
  other.\<close>

definition runs :: "mem \<Rightarrow> cmd \<Rightarrow> fsm \<Rightarrow> cmd \<Rightarrow> fsm \<Rightarrow> bool" where
  "runs M r f r' f' \<longleftrightarrow> (\<exists>k. \<forall>n. parse_loop (k + n) M r f = parse_loop n M r' f')"

lemma runs_refl [simp]: "runs M r f r f"
  unfolding runs_def by (rule exI [of _ 0]) simp

lemma runs_trans [trans]: "runs M r f r' f' \<Longrightarrow> runs M r' f' r'' f'' \<Longrightarrow> runs M r f r'' f''"
  unfolding runs_def
proof (elim exE)
  fix k k' assume "\<forall>n. parse_loop (k + n) M r f = parse_loop n M r' f'"
    "\<forall>n. parse_loop (k' + n) M r' f' = parse_loop n M r'' f''"
  then have "\<forall>n. parse_loop ((k + k') + n) M r f = parse_loop n M r'' f''" by (simp add: add.assoc)
  then show "\<exists>k. \<forall>n. parse_loop (k + n) M r f = parse_loop n M r'' f''" ..
qed

lemma runs_step:
  assumes "fs_p f < length (c_cmd r)" "parse_step M r f = Inr (Go r' f')"
  shows "runs M r f r' (f'\<lparr>fs_p := fs_p f' + 1\<rparr>)"
  unfolding runs_def by (rule exI [of _ 1]) (simp add: assms)

lemma parse_loop_mono:
  "parse_loop k M r f = Inr out \<Longrightarrow> k \<le> n \<Longrightarrow> parse_loop n M r f = Inr out"
proof (induction k arbitrary: n r f)
  case (Suc k)
  then obtain n' where n: "n = Suc n'" "k \<le> n'" by (cases n) auto
  show ?case
  proof (cases "parse_step M r f")
    case (Inr o1)
    then show ?thesis using Suc.prems(1) Suc.IH n by (cases o1) (auto split: if_splits)
  qed (use Suc.prems(1) n in \<open>auto split: if_splits\<close>)
qed simp

lemma runs_result:
  assumes "runs M r f r' f'" "parse_loop m M r' f' = Inr out"
    "parse_inv r f" "length (c_cmd r) < fs_p f + fuel" "0 < fuel"
  shows "parse_loop fuel M r f = Inr out"
proof -
  obtain k where "parse_loop (k + m) M r f = Inr out" using assms(1,2) unfolding runs_def by metis
  moreover obtain out' where "parse_loop fuel M r f = Inr out'" using parse_loop_ok [OF assms(3-5)] by blast
  ultimately show ?thesis
    using parse_loop_mono [of "k + m" M r f out "max (k + m) fuel"] parse_loop_mono [of fuel M r f out' "max (k + m) fuel"]
    by simp
qed

section \<open>Reading one argument\<close>

lemma run_digit_mod: "run_digit n c = (n * 10 + digit_val c) mod 2 ^ 32"
proof -
  have "int (n * 10 + digit_val c) mod 2 ^ 32 = int ((n * 10 + digit_val c) mod 2 ^ 32)"
    by (simp only: of_nat_mod of_nat_power of_nat_numeral)
  then show ?thesis unfolding run_digit_def uint32_def take_bit_int_def by (metis nat_int)
qed

lemma foldl_run_digit: "foldl run_digit (a mod 2 ^ 32) ds = undec a ds mod 2 ^ 32"
proof (induction ds arbitrary: a)
  case (Cons d ds)
  have "run_digit (a mod 2 ^ 32) d = (a * 10 + digit_val d) mod 2 ^ 32"
    unfolding run_digit_mod by (metis mod_add_left_eq mod_mult_left_eq)
  then show ?case using Cons [of "a * 10 + digit_val d"] by simp
qed simp

lemma foldl_run_digit_dec: "n < 2 ^ 32 \<Longrightarrow> foldl run_digit 0 (dec n) = n"
  using foldl_run_digit [of 0 "dec n"] by simp

text \<open>The length states with what they refuse, the state at the LF and the state at the data.\<close>

fun len_chain :: "sw \<Rightarrow> ((fsm \<Rightarrow> nat \<Rightarrow> bool) \<times> sw \<times> sw) option" where
  "len_chain SW_REQ_TYPE_LEN = Some (bad_type_len, SW_REQ_TYPE_LEN_LF, SW_REQ_TYPE)"
| "len_chain SW_KEY_LEN = Some (bad_key_len, SW_KEY_LEN_LF, SW_KEY)"
| "len_chain SW_ARG1_LEN = Some (bad_arg_len, SW_ARG1_LEN_LF, SW_ARG1)"
| "len_chain SW_ARG2_LEN = Some (bad_arg_len, SW_ARG2_LEN_LF, SW_ARG2)"
| "len_chain SW_ARG3_LEN = Some (bad_arg_len, SW_ARG3_LEN_LF, SW_ARG3)"
| "len_chain SW_ARGN_LEN = Some (bad_arg_len, SW_ARGN_LEN_LF, SW_ARGN)"
| "len_chain _ = None"

lemma len_chain_step:
  assumes "len_chain (fs_state f) = Some (bad, lf, data)"
  shows "parse_step M r f = Inr (sw_len bad lf r f (c_cmd r ! fs_p f))"
    and "fs_state g = lf \<Longrightarrow> parse_step M r g = Inr (sw_lf data r g (c_cmd r ! fs_p g))"
  using assms by (cases "fs_state f"; simp add: parse_step_def)+

lemma nth_at: "b = pre @ x # post \<Longrightarrow> p = length pre \<Longrightarrow> b ! p = x"
  by simp

abbreviation FS :: "sw \<Rightarrow> nat option \<Rightarrow> nat \<Rightarrow> nat \<Rightarrow> nat \<Rightarrow> fsm" where
  "FS s t l n p \<equiv> \<lparr>fs_state = s, fs_token = t, fs_rlen = l, fs_rnarg = n, fs_p = p\<rparr>"

lemma runs_FS:
  assumes "p < length (c_cmd r)" "parse_step M r (FS s t l n p) = Inr (Go r' (FS s' t' l' n' p'))"
  shows "runs M r (FS s t l n p) r' (FS s' t' l' n' (p' + 1))"
  using runs_step [of "FS s t l n p", OF _ assms(2)] assms(1) by simp

lemma runs_digits:
  assumes "c_cmd r = pre @ ds @ post" "list_all isdigit ds" "len_chain s = Some (bad, lf, data)"
  shows "runs M r (FS s (Some t) l n (length pre)) r
    (FS s (Some t) (foldl run_digit l ds) n (length pre + length ds))"
  using assms(1,2)
proof (induction ds arbitrary: pre l)
  case (Cons d ds)
  have ch: "c_cmd r ! length pre = d" "isdigit d" "length pre < length (c_cmd r)" using Cons.prems by auto
  have 1: "runs M r (FS s (Some t) l n (length pre)) r (FS s (Some t) (run_digit l d) n (length pre + 1))"
    using ch by (intro runs_FS) (simp_all add: len_chain_step(1) [of "FS s (Some t) l n (length pre)"] assms(3) sw_len_def)
  have 2: "runs M r (FS s (Some t) (run_digit l d) n (length (pre @ [d]))) r
      (FS s (Some t) (foldl run_digit (run_digit l d) ds) n (length (pre @ [d]) + length ds))"
    using Cons.prems by (intro Cons.IH) auto
  show ?case using runs_trans [OF 1] 2 by simp
qed simp

lemma runs_len:
  assumes "c_cmd r = pre @ CHR ''$'' # dec k @ CRLF @ post" "k < 2 ^ 32"
    "len_chain s = Some (bad, lf, data)" "s = SW_REQ_TYPE_LEN \<longrightarrow> k \<noteq> 0"
  shows "runs M r (FS s None l (Suc n) (length pre)) r (FS data None k n (length pre + length (dec k) + 3))"
proof -
  let ?p = "length pre" and ?d = "length (dec k)"
  note step = len_chain_step [of "FS s t l n p" for t l n p, simplified, OF assms(3)]
  have 1: "runs M r (FS s None l (Suc n) ?p) r (FS s (Some ?p) 0 (Suc n) (?p + 1))"
    using assms(1) by (intro runs_FS) (simp_all add: step sw_len_def)
  have 2: "runs M r (FS s (Some ?p) 0 (Suc n) (?p + 1)) r (FS s (Some ?p) k (Suc n) (?p + 1 + ?d))"
    using runs_digits [of r "pre @ ''$''" "dec k" "CRLF @ post", OF _ _ assms(3), of M ?p 0 "Suc n"] assms(1,2)
    by (simp add: foldl_run_digit_dec)
  have nb: "\<not> bad (FS s (Some ?p) k (Suc n) (?p + 1 + ?d)) ?p"
    using assms(3,4) by (cases s) (auto simp: bad_type_len_def bad_key_len_def bad_arg_len_def)
  have c: "c_cmd r ! (?p + 1 + ?d) = CR" "c_cmd r ! (?p + 1 + ?d + 1) = LF" "?p + 1 + ?d + 1 < length (c_cmd r)"
    using assms(1) nth_at [of "c_cmd r" "pre @ CHR ''$'' # dec k" CR "LF # post"]
      nth_at [of "c_cmd r" "pre @ CHR ''$'' # dec k @ [CR]" LF post] by auto
  have 3: "runs M r (FS s (Some ?p) k (Suc n) (?p + 1 + ?d)) r (FS lf None k n (?p + 1 + ?d + 1))"
    using c nb by (intro runs_FS) (simp_all add: step sw_len_def)
  have 4: "runs M r (FS lf None k n (?p + 1 + ?d + 1)) r (FS data None k n (?p + 1 + ?d + 1 + 1))"
    using c by (intro runs_FS) (simp_all add: step sw_lf_def)
  show ?thesis
    using runs_trans [OF runs_trans [OF runs_trans [OF 1 2] 3] 4] by (simp add: numeral_3_eq_3)
qed

section \<open>Safety\<close>



end
