(* ===== verification/Command_Roundtrip.thy ===== *)
theory Command_Roundtrip
  imports Command Format
begin

text \<open>
  The parser of \<^verbatim>\<open>src/command.c\<close> against the formatters of \<^verbatim>\<open>src/hiredis.c\<close>: what
  \<^verbatim>\<open>redis_parse_cmd\<close> finds in the protocol text of a list of arguments. \<open>cmd_keys\<close> is the
  specification: which arguments of a command are its keys.
\<close>

section \<open>Names\<close>

lemma icmp_local:
  "length name \<le> length s + 1 \<Longrightarrow> icmp name (s @ CR # post) \<longleftrightarrow> icmp name (s @ [CR])"
proof (induction name s rule: icmp.induct)
  case (2 c cs)
  then show ?case by (cases cs) auto
qed auto

lemma lookup_local:
  "(\<forall>e \<in> set tab. length (fst e) \<le> length s + 1) \<Longrightarrow>
    lookup_name tab (s @ CR # post) = lookup_name tab (s @ [CR])"
  by (induction tab "s @ CR # post" rule: lookup_name.induct) (auto simp: icmp_local [of _ s post])

lemma names_lengths:
  "\<forall>e \<in> set names3. length (fst e) = 3"
  "\<forall>e \<in> set names4. length (fst e) = 4"
  "\<forall>e \<in> set names5. length (fst e) = 5"
  "\<forall>e \<in> set names6. length (fst e) = 6"
  "\<forall>e \<in> set names7. length (fst e) = 7"
  "\<forall>e \<in> set names8. length (fst e) = 8"
  "\<forall>e \<in> set names9. length (fst e) = 9"
  "\<forall>e \<in> set names10. length (fst e) = 10"
  "\<forall>e \<in> set names11. length (fst e) = 11"
  "\<forall>e \<in> set names12. length (fst e) = 12"
  "\<forall>e \<in> set names13. length (fst e) = 13"
  "\<forall>e \<in> set names14. length (fst e) = 14"
  "\<forall>e \<in> set names15. length (fst e) = 15"
  "\<forall>e \<in> set names16. length (fst e) = 16"
  by (simp_all add: names3_def names4_def names5_def names6_def names7_def names8_def names9_def
      names10_def names11_def names12_def names13_def names14_def names15_def names16_def)

lemma names_length: "\<forall>e \<in> set (names_of_length n). length (fst e) \<le> n + 1"
  unfolding names_of_length_def using names_lengths by (auto split: if_splits)

definition name_type :: "bytes \<Rightarrow> cmd_type" where
  "name_type name = cmd_type_of (length name) (name @ [CR])"

lemma cmd_type_of_name: "cmd_type_of (length name) (name @ CR # post) = name_type name"
  unfolding name_type_def cmd_type_of_def
  by (rule lookup_local) (use names_length [of "length name"] in simp)

lemma lookup_name_in: "lookup_name tab m \<noteq> CMD_UNKNOWN \<Longrightarrow> \<exists>name. (name, lookup_name tab m) \<in> set tab"
  by (induction tab m rule: lookup_name.induct) (auto split: if_splits)

lemma names_class: "\<forall>e \<in> set (names_of_length n). class_count (snd e) = 1"
proof -
  note es = entries3 entries4 entries5 entries6 entries7 entries8 entries9 entries10 entries11
    entries12 entries13 entries14 entries15 entries16
  have "\<forall>e \<in> set (names_of_length n). entry_ok [] e"
    unfolding names_of_length_def using es by (auto split: if_splits)
  then show ?thesis by (simp add: entry_ok_def)
qed

lemma name_type_class: "name_type name \<noteq> CMD_UNKNOWN \<Longrightarrow> class_count (name_type name) = 1"
  using lookup_name_in [of "names_of_length (length name)" "name @ [CR]"] names_class [of "length name"]
  unfolding name_type_def cmd_type_of_def by fastforce

lemma class_exclusive:
  assumes "class_count t = 1"
  shows "redis_argz t \<Longrightarrow> \<not> redis_argeval t"
    "redis_arg0 t \<Longrightarrow> \<not> (redis_argz t \<or> redis_argeval t)"
    "redis_arg1 t \<Longrightarrow> \<not> (redis_argz t \<or> redis_argeval t \<or> redis_arg0 t)"
    "redis_arg2 t \<Longrightarrow> \<not> (redis_argz t \<or> redis_argeval t \<or> redis_arg0 t \<or> redis_arg1 t)"
    "redis_arg3 t \<Longrightarrow> \<not> (redis_argz t \<or> redis_argeval t \<or> redis_arg0 t \<or> redis_arg1 t \<or> redis_arg2 t)"
    "redis_argn t \<Longrightarrow> \<not> (redis_argz t \<or> redis_argeval t \<or> redis_arg0 t \<or> redis_arg1 t \<or> redis_arg2 t \<or>
       redis_arg3 t)"
    "redis_argx t \<Longrightarrow> \<not> (redis_argz t \<or> redis_argeval t \<or> redis_arg0 t \<or> redis_arg1 t \<or> redis_arg2 t \<or>
       redis_arg3 t \<or> redis_argn t)"
    "redis_argkvx t \<Longrightarrow> \<not> (redis_argz t \<or> redis_argeval t \<or> redis_arg0 t \<or> redis_arg1 t \<or> redis_arg2 t \<or>
       redis_arg3 t \<or> redis_argn t \<or> redis_argx t)"
    "redis_argeval t \<Longrightarrow> \<not> (redis_argz t \<or> redis_arg0 t \<or> redis_arg1 t \<or> redis_arg2 t \<or>
       redis_arg3 t \<or> redis_argn t \<or> redis_argx t \<or> redis_argkvx t)"
  using assms by (auto simp: class_count_def split: if_splits)

section \<open>Runs over one bulk argument\<close>

definition ends :: "mem \<Rightarrow> cmd \<Rightarrow> fsm \<Rightarrow> outcome \<Rightarrow> bool" where
  "ends M r f out \<longleftrightarrow> (\<exists>k. parse_loop k M r f = Inr out)"

lemma ends_runs: "runs M r f r' f' \<Longrightarrow> ends M r' f' out \<Longrightarrow> ends M r f out"
  unfolding ends_def runs_def by metis

lemma ends_Done:
  assumes "p < length (c_cmd r)" "parse_step M r (FS s t l n p) = Inr (Done r')"
  shows "ends M r (FS s t l n p) (Done r')"
  unfolding ends_def by (rule exI [of _ 1]) (use assms in simp)

lemma ends_Fail:
  assumes "p < length (c_cmd r)" "parse_step M r (FS s t l n p) = Inr (Fail r' f')"
  shows "ends M r (FS s t l n p) (Fail r' f')"
  unfolding ends_def by (rule exI [of _ 1]) (use assms in simp)

lemma bulk_len_split: "pre @ bulk a @ post = pre @ CHR ''$'' # dec (length a) @ CRLF @ (a @ CRLF @ post)"
  by (simp add: bulk_def)

lemma bulk_positions:
  assumes "b = pre @ bulk a @ post"
  defines "p \<equiv> length pre + length (dec (length a)) + 3"
  shows "p + length a < length b" "b ! (p + length a) = CR" "p + length a + 1 < length b"
    "b ! (p + length a + 1) = LF" "p + length a + 1 + 1 = length pre + length (bulk a)"
    "take (length a) (drop p b) = a" "drop p b = a @ CR # LF # post"
proof -
  have b: "b = (pre @ CHR ''$'' # dec (length a) @ CRLF) @ a @ CR # LF # post"
    using assms(1) by (simp add: bulk_def)
  have p: "p = length (pre @ CHR ''$'' # dec (length a) @ CRLF)" by (simp add: p_def)
  have "drop (length x) (x @ y) = y" for x y :: bytes by simp
  from this show "drop p b = a @ CR # LF # post" unfolding b p .
  then show "take (length a) (drop p b) = a" by simp
  show "p + length a < length b" "p + length a + 1 < length b" unfolding b p by simp_all
  show "b ! (p + length a) = CR" "b ! (p + length a + 1) = LF"
    unfolding b p by (simp_all add: nth_append)
  show "p + length a + 1 + 1 = length pre + length (bulk a)" by (simp add: p_def length_bulk)
qed

text \<open>An argument that is skipped: from its length state to the LF that ends it.\<close>

fun arg_chain :: "sw \<Rightarrow> sw option" where
  "arg_chain SW_ARG1_LEN = Some SW_ARG1_LF"
| "arg_chain SW_ARG2_LEN = Some SW_ARG2_LF"
| "arg_chain SW_ARG3_LEN = Some SW_ARG3_LF"
| "arg_chain SW_ARGN_LEN = Some SW_ARGN_LF"
| "arg_chain _ = None"

definition lf_pos :: "bytes \<Rightarrow> bytes \<Rightarrow> nat" where
  "lf_pos pre a = length pre + length (bulk a) - 1"

lemma lf_pos_eq: "length pre + length (dec (length a)) + 3 + length a + 1 = lf_pos pre a"
  by (simp add: lf_pos_def length_bulk)

lemma lf_pos_props:
  assumes "b = pre @ bulk a @ post"
  shows "lf_pos pre a < length b" "b ! lf_pos pre a = LF" "Suc (lf_pos pre a) = length (pre @ bulk a)"
  using bulk_positions(3-5) [OF assms] by (simp_all add: lf_pos_eq [symmetric])

lemma runs_arg:
  assumes "c_cmd r = pre @ bulk a @ post" "length a < 2 ^ 32" "arg_chain s = Some lf"
    "s = SW_ARG2_LEN \<longrightarrow> \<not> redis_argeval (c_type r)"
  shows "runs M r (FS s None l (Suc n) (length pre)) r (FS lf None 0 n (lf_pos pre a))"
proof -
  obtain data where d: "len_chain s = Some (bad_arg_len, case s of SW_ARG1_LEN \<Rightarrow> SW_ARG1_LEN_LF
      | SW_ARG2_LEN \<Rightarrow> SW_ARG2_LEN_LF | SW_ARG3_LEN \<Rightarrow> SW_ARG3_LEN_LF | _ \<Rightarrow> SW_ARGN_LEN_LF, data)"
    "parse_step M r (FS data None l n p) = Inr (if s = SW_ARG2_LEN then sw_arg2 r (FS data None l n p)
       else sw_arg lf r (FS data None l n p))" for l n p
    using assms(3) by (cases s) (auto simp: parse_step_def)
  let ?p = "length pre + length (dec (length a)) + 3"
  have "runs M r (FS s None l (Suc n) (length pre)) r (FS data None (length a) n ?p)"
    using assms(2,3) by (intro runs_len [OF assms(1) [unfolded bulk_len_split] _ d(1)]) auto
  moreover have "runs M r (FS data None (length a) n ?p) r (FS lf None 0 n (?p + length a + 1))"
    using bulk_positions(1,2) [OF assms(1)] d(2) assms(3,4)
    by (intro runs_FS) (auto simp: sw_arg_def sw_arg2_def Let_def)
  ultimately show ?thesis unfolding lf_pos_eq by (rule runs_trans)
qed

text \<open>The keys an array of positions stands for.\<close>

definition key_text :: "bytes \<Rightarrow> keypos \<Rightarrow> bytes" where
  "key_text b k = take (kp_end k - kp_start k) (drop (kp_start k) b)"

definition cmd_key_texts :: "cmd \<Rightarrow> bytes list" where
  "cmd_key_texts r = map (key_text (c_cmd r)) (ha_list (c_keys r))"

text \<open>\<open>keyed ks r r'\<close>: \<open>r'\<close> is \<open>r\<close> with the keys \<open>ks\<close> added.\<close>

definition keyed :: "bytes list \<Rightarrow> cmd \<Rightarrow> cmd \<Rightarrow> bool" where
  "keyed ks r r' \<longleftrightarrow> ha_ok (c_keys r') \<and> r' = r\<lparr>c_keys := c_keys r'\<rparr> \<and>
     ha_nelem (c_keys r') = ha_nelem (c_keys r) + length ks \<and> cmd_key_texts r' = cmd_key_texts r @ ks"

lemma keyed_fields:
  assumes "keyed ks r r'"
  shows "c_cmd r' = c_cmd r" "c_type r' = c_type r" "c_narg r' = c_narg r" "ha_ok (c_keys r')"
    "ha_nelem (c_keys r') = ha_nelem (c_keys r) + length ks"
proof -
  have r': "r' = r\<lparr>c_keys := c_keys r'\<rparr>" using assms by (simp add: keyed_def)
  show "c_cmd r' = c_cmd r" "c_type r' = c_type r" "c_narg r' = c_narg r" by (subst r', simp)+
  show "ha_ok (c_keys r')" "ha_nelem (c_keys r') = ha_nelem (c_keys r) + length ks"
    using assms by (simp_all add: keyed_def)
qed

lemma keyed_refl: "ha_ok (c_keys r) \<Longrightarrow> keyed [] r r"
  by (simp add: keyed_def)

lemma keyed_trans: "keyed ks r r' \<Longrightarrow> keyed ls r' r'' \<Longrightarrow> keyed (ks @ ls) r r''"
proof -
  assume a: "keyed ks r r'" "keyed ls r' r''"
  then have "r' = r\<lparr>c_keys := c_keys r'\<rparr>" "r'' = r'\<lparr>c_keys := c_keys r''\<rparr>" by (simp_all add: keyed_def)
  then have "r'' = r\<lparr>c_keys := c_keys r''\<rparr>" by (metis cmd.update_convs(6) cmd.surjective)
  with a show ?thesis by (simp add: keyed_def)
qed

text \<open>A key position with what stands in the command from there on.\<close>

definition key_at :: "bytes \<Rightarrow> keypos \<Rightarrow> bytes \<Rightarrow> bytes \<Rightarrow> bool" where
  "key_at b kp k post \<longleftrightarrow> kp_start kp \<le> length b \<and> kp_end kp = kp_start kp + length k \<and>
     drop (kp_start kp) b = k @ CRLF @ post"

lemma runs_key_at:
  assumes "c_cmd r = pre @ bulk a @ post" "length a < 2 ^ 32" "ha_ok (c_keys r)"
    "ha_nelem (c_keys r) < 2 ^ 31" "\<forall>n. mem_ok M n"
  obtains r' where "keyed [a] r r'"
    "runs M r (FS SW_KEY_LEN None l (Suc n) (length pre)) r' (FS SW_KEY_LF None 0 n (lf_pos pre a))"
    "\<exists>kp. ha_list (c_keys r') = ha_list (c_keys r) @ [kp] \<and> key_at (c_cmd r) kp a post"
proof -
  let ?p = "length pre + length (dec (length a)) + 3"
  let ?k = "\<lparr>kp_start = ?p, kp_end = ?p + length a, kp_remain_len = None\<rparr>"
  have 1: "runs M r (FS SW_KEY_LEN None l (Suc n) (length pre)) r (FS SW_KEY None (length a) n ?p)"
    using assms(2) by (intro runs_len [OF assms(1) [unfolded bulk_len_split]]) auto
  obtain keys where keys: "ha_append M (c_keys r) ?k = Inr (Some keys)" "ha_ok keys"
    "ha_list keys = ha_list (c_keys r) @ [?k]" "ha_nelem keys = ha_nelem (c_keys r) + 1"
    using ha_append_law [OF assms(3,4), of M ?k] assms(5) by blast
  have 2: "runs M r (FS SW_KEY None (length a) n ?p) (r\<lparr>c_keys := keys\<rparr>) (FS SW_KEY_LF None 0 n (?p + length a + 1))"
    using bulk_positions(1,2) [OF assms(1)] keys(1)
    by (intro runs_FS) (simp_all add: parse_step_def sw_key_def token_or_def)
  have "key_text (c_cmd r) ?k = a" using bulk_positions(6) [OF assms(1)] by (simp add: key_text_def)
  with keys have "keyed [a] r (r\<lparr>c_keys := keys\<rparr>)" by (simp add: keyed_def cmd_key_texts_def)
  moreover have "key_at (c_cmd r) ?k a post" using bulk_positions(1,7) [OF assms(1)] by (simp add: key_at_def)
  then have "\<exists>kp. ha_list (c_keys (r\<lparr>c_keys := keys\<rparr>)) = ha_list (c_keys r) @ [kp] \<and> key_at (c_cmd r) kp a post"
    using keys(3) by (intro exI [of _ ?k]) simp
  ultimately show thesis using that [of "r\<lparr>c_keys := keys\<rparr>"] runs_trans [OF 1 2] unfolding lf_pos_eq by blast
qed

lemma runs_key:
  assumes "c_cmd r = pre @ bulk a @ post" "length a < 2 ^ 32" "ha_ok (c_keys r)"
    "ha_nelem (c_keys r) < 2 ^ 31" "\<forall>n. mem_ok M n"
  obtains r' where "keyed [a] r r'"
    "runs M r (FS SW_KEY_LEN None l (Suc n) (length pre)) r' (FS SW_KEY_LF None 0 n (lf_pos pre a))"
  using runs_key_at [OF assms] that by blast

section \<open>Runs to the end of the command\<close>

lemma lf_step:
  assumes "c_cmd r = pre @ bulk a @ post"
  shows "parse_step M r (FS SW_KEY_LF None l n (lf_pos pre a)) = Inr (sw_key_lf r (FS SW_KEY_LF None l n (lf_pos pre a)) LF)"
    "parse_step M r (FS SW_ARG1_LF None l n (lf_pos pre a)) = Inr (sw_arg1_lf r (FS SW_ARG1_LF None l n (lf_pos pre a)) LF)"
    "parse_step M r (FS SW_ARG2_LF None l n (lf_pos pre a)) = Inr (sw_arg2_lf r (FS SW_ARG2_LF None l n (lf_pos pre a)) LF)"
    "parse_step M r (FS SW_ARG3_LF None l n (lf_pos pre a)) = Inr (sw_arg3_lf r (FS SW_ARG3_LF None l n (lf_pos pre a)) LF)"
    "parse_step M r (FS SW_ARGN_LF None l n (lf_pos pre a)) = Inr (sw_argn_lf r (FS SW_ARGN_LF None l n (lf_pos pre a)) LF)"
  using lf_pos_props(2) [OF assms] by (simp_all add: parse_step_def)

text \<open>From an LF with the next state known.\<close>

lemma runs_lf:
  assumes "c_cmd r = pre @ bulk a @ post"
    "parse_step M r (FS s None 0 n (lf_pos pre a)) = Inr (Go r (FS s' None 0 n (lf_pos pre a)))"
  shows "runs M r (FS s None 0 n (lf_pos pre a)) r (FS s' None 0 n (length (pre @ bulk a)))"
  using runs_FS [OF lf_pos_props(1) [OF assms(1)] assms(2)] lf_pos_props(3) [OF assms(1)] by simp

lemma ends_argn:
  assumes "c_cmd r = pre @ concat (map bulk as) @ post" "as \<noteq> []" "\<forall>a \<in> set as. length a < 2 ^ 32"
    "redis_argn (c_type r) \<or> redis_argeval (c_type r)"
  shows "ends M r (FS SW_ARGN_LEN None 0 (length as) (length pre)) (Done r)"
  using assms
proof (induction as arbitrary: pre)
  case (Cons a as)
  have b: "c_cmd r = pre @ bulk a @ concat (map bulk as) @ post" using Cons.prems(1) by simp
  have 1: "runs M r (FS SW_ARGN_LEN None 0 (length (a # as)) (length pre)) r (FS SW_ARGN_LF None 0 (length as) (lf_pos pre a))"
    using runs_arg [OF b, of SW_ARGN_LEN] Cons.prems(3) by simp
  show ?case
  proof (cases "as = []")
    case True
    have "ends M r (FS SW_ARGN_LF None 0 (length as) (lf_pos pre a)) (Done r)"
      using True Cons.prems(4) by (intro ends_Done lf_pos_props(1) [OF b]) (simp add: lf_step [OF b] sw_argn_lf_def)
    with 1 show ?thesis by (rule ends_runs)
  next
    case False
    have 2: "runs M r (FS SW_ARGN_LF None 0 (length as) (lf_pos pre a)) r (FS SW_ARGN_LEN None 0 (length as) (length (pre @ bulk a)))"
      using False Cons.prems(4) by (intro runs_lf [OF b]) (simp add: lf_step [OF b] sw_argn_lf_def)
    have "ends M r (FS SW_ARGN_LEN None 0 (length as) (length (pre @ bulk a))) (Done r)"
      using Cons.prems False by (intro Cons.IH) auto
    with runs_trans [OF 1 2] show ?thesis by (rule ends_runs)
  qed
qed simp

text \<open>One skipped argument, its LF included, when the LF leads to another length state.\<close>

lemma runs_arg_lf:
  assumes "c_cmd r = pre @ bulk a @ post" "length a < 2 ^ 32" "arg_chain s = Some lf"
    "s = SW_ARG2_LEN \<longrightarrow> \<not> redis_argeval (c_type r)"
    "parse_step M r (FS lf None 0 n (lf_pos pre a)) = Inr (Go r (FS s' None 0 n (lf_pos pre a)))"
  shows "runs M r (FS s None 0 (Suc n) (length pre)) r (FS s' None 0 n (length (pre @ bulk a)))"
  using runs_trans [OF runs_arg [OF assms(1-4)] runs_lf [OF assms(1,5)]] .

lemma ends_arg_lf:
  assumes "c_cmd r = pre @ bulk a @ post" "length a < 2 ^ 32" "arg_chain s = Some lf"
    "s = SW_ARG2_LEN \<longrightarrow> \<not> redis_argeval (c_type r)"
    "parse_step M r (FS lf None 0 n (lf_pos pre a)) = Inr (Done r)"
  shows "ends M r (FS s None 0 (Suc n) (length pre)) (Done r)"
  by (rule ends_runs [OF runs_arg [OF assms(1-4)] ends_Done [OF lf_pos_props(1) [OF assms(1)] assms(5)]])

lemmas lf_defs = sw_key_lf_def sw_arg1_lf_def sw_arg2_lf_def sw_arg3_lf_def sw_argn_lf_def need_def Let_def

definition fixed_arity :: "cmd_type \<Rightarrow> nat option" where
  "fixed_arity t = (if redis_arg0 t then Some 0 else if redis_arg1 t then Some 1
     else if redis_arg2 t then Some 2 else if redis_arg3 t then Some 3 else None)"

lemma ends_fixed:
  assumes "c_cmd r = pre @ bulk k @ concat (map bulk as) @ post" "\<forall>a \<in> set as. length a < 2 ^ 32"
    "class_count (c_type r) = 1" "fixed_arity (c_type r) = Some (length as)"
  shows "ends M r (FS SW_KEY_LF None 0 (length as) (lf_pos pre k)) (Done r)"
proof -
  let ?t = "c_type r"
  note lf = lf_step [OF assms(1)] and ex = class_exclusive [OF assms(3)]
  consider "redis_arg0 ?t" "as = []" | a where "redis_arg1 ?t" "as = [a]"
    | a b where "redis_arg2 ?t" "as = [a, b]" | a b c where "redis_arg3 ?t" "as = [a, b, c]"
    using assms(4) by (auto simp: fixed_arity_def Suc_length_conv length_Suc_conv eval_nat_numeral split: if_splits)
  then show ?thesis
  proof cases
    case 1
    then show ?thesis by (intro ends_Done lf_pos_props(1) [OF assms(1)]) (simp add: lf lf_defs)
  next
    case (2 a)
    have n: "length as = Suc 0" using 2 by simp
    let ?pre = "pre @ bulk k"
    have b1: "c_cmd r = ?pre @ bulk a @ post" using assms(1) 2 by simp
    have "runs M r (FS SW_KEY_LF None 0 (Suc 0) (lf_pos pre k)) r (FS SW_ARG1_LEN None 0 (Suc 0) (length ?pre))"
      using 2 ex by (intro runs_lf [OF assms(1)]) (auto simp: lf lf_defs)
    moreover have "ends M r (FS SW_ARG1_LEN None 0 (Suc 0) (length ?pre)) (Done r)"
      using 2 assms(2) ex by (intro ends_arg_lf [OF b1]) (auto simp: lf_step [OF b1] lf_defs simp del: append_assoc)
    ultimately show ?thesis unfolding n by (rule ends_runs)
  next
    case (3 a b)
    have n: "length as = Suc (Suc 0)" using 3 by simp
    let ?pre = "pre @ bulk k"
    have b1: "c_cmd r = ?pre @ bulk a @ bulk b @ post" and b2: "c_cmd r = (?pre @ bulk a) @ bulk b @ post"
      using assms(1) 3 by simp_all
    have 1: "runs M r (FS SW_KEY_LF None 0 (Suc (Suc 0)) (lf_pos pre k)) r (FS SW_ARG1_LEN None 0 (Suc (Suc 0)) (length ?pre))"
      using 3 ex by (intro runs_lf [OF assms(1)]) (auto simp: lf lf_defs)
    have 2: "runs M r (FS SW_ARG1_LEN None 0 (Suc (Suc 0)) (length ?pre)) r (FS SW_ARG2_LEN None 0 (Suc 0) (length (?pre @ bulk a)))"
      using 3 assms(2) ex by (intro runs_arg_lf [OF b1]) (auto simp: lf_step [OF b1] lf_defs simp del: append_assoc)
    have 4: "ends M r (FS SW_ARG2_LEN None 0 (Suc 0) (length (?pre @ bulk a))) (Done r)"
      using 3 assms(2) ex by (intro ends_arg_lf [OF b2]) (auto simp: lf_step [OF b2] lf_defs simp del: append_assoc)
    show ?thesis unfolding n by (rule ends_runs [OF runs_trans [OF 1 2] 4])
  next
    case (4 a b c)
    have n: "length as = Suc (Suc (Suc 0))" using 4 by simp
    let ?pre = "pre @ bulk k"
    have b1: "c_cmd r = ?pre @ bulk a @ bulk b @ bulk c @ post"
      and b2: "c_cmd r = (?pre @ bulk a) @ bulk b @ bulk c @ post"
      and b3: "c_cmd r = ((?pre @ bulk a) @ bulk b) @ bulk c @ post"
      using assms(1) 4 by simp_all
    have 1: "runs M r (FS SW_KEY_LF None 0 (Suc (Suc (Suc 0))) (lf_pos pre k)) r (FS SW_ARG1_LEN None 0 (Suc (Suc (Suc 0))) (length ?pre))"
      using 4 ex by (intro runs_lf [OF assms(1)]) (auto simp: lf lf_defs numeral_3_eq_3)
    have 2: "runs M r (FS SW_ARG1_LEN None 0 (Suc (Suc (Suc 0))) (length ?pre)) r (FS SW_ARG2_LEN None 0 (Suc (Suc 0)) (length (?pre @ bulk a)))"
      using 4 assms(2) ex by (intro runs_arg_lf [OF b1]) (auto simp: lf_step [OF b1] lf_defs simp del: append_assoc)
    have 3: "runs M r (FS SW_ARG2_LEN None 0 (Suc (Suc 0)) (length (?pre @ bulk a))) r (FS SW_ARG3_LEN None 0 (Suc 0) (length ((?pre @ bulk a) @ bulk b)))"
      using 4 assms(2) ex by (intro runs_arg_lf [OF b2]) (auto simp: lf_step [OF b2] lf_defs simp del: append_assoc)
    have 5: "ends M r (FS SW_ARG3_LEN None 0 (Suc 0) (length ((?pre @ bulk a) @ bulk b))) (Done r)"
      using 4 assms(2) ex by (intro ends_arg_lf [OF b3]) (auto simp: lf_step [OF b3] lf_defs simp del: append_assoc)
    show ?thesis unfolding n by (rule ends_runs [OF runs_trans [OF runs_trans [OF 1 2] 3] 5])
  qed
qed

lemma ends_any:
  assumes "c_cmd r = pre @ bulk k @ concat (map bulk as) @ post" "\<forall>a \<in> set as. length a < 2 ^ 32"
    "class_count (c_type r) = 1" "redis_argn (c_type r)"
  shows "ends M r (FS SW_KEY_LF None 0 (length as) (lf_pos pre k)) (Done r)"
proof (cases as)
  case Nil
  then show ?thesis using assms(4) class_exclusive(6) [OF assms(3,4)]
    by (intro ends_Done lf_pos_props(1) [OF assms(1)]) (simp add: lf_step [OF assms(1)] lf_defs)
next
  case (Cons a bs)
  let ?pre = "pre @ bulk k"
  note ex = class_exclusive(6) [OF assms(3,4)]
  have b1: "c_cmd r = ?pre @ bulk a @ concat (map bulk bs) @ post" using assms(1) Cons by simp
  have 1: "runs M r (FS SW_KEY_LF None 0 (Suc (length bs)) (lf_pos pre k)) r (FS SW_ARG1_LEN None 0 (Suc (length bs)) (length ?pre))"
    using ex assms(4) by (intro runs_lf [OF assms(1)]) (simp add: lf_step [OF assms(1)] lf_defs)
  have 2: "ends M r (FS SW_ARG1_LEN None 0 (Suc (length bs)) (length ?pre)) (Done r)"
  proof (cases "bs = []")
    case True
    then show ?thesis using Cons assms(2,4) ex
      by (intro ends_arg_lf [OF b1]) (auto simp: lf_step [OF b1] lf_defs simp del: append_assoc)
  next
    case False
    have "runs M r (FS SW_ARG1_LEN None 0 (Suc (length bs)) (length ?pre)) r (FS SW_ARGN_LEN None 0 (length bs) (length (?pre @ bulk a)))"
      using Cons False assms(2,4) ex by (intro runs_arg_lf [OF b1]) (auto simp: lf_step [OF b1] lf_defs simp del: append_assoc)
    moreover have "ends M r (FS SW_ARGN_LEN None 0 (length bs) (length (?pre @ bulk a))) (Done r)"
      using Cons False assms(2,4) b1 by (intro ends_argn) auto
    ultimately show ?thesis by (rule ends_runs)
  qed
  show ?thesis using ends_runs [OF 1 2] Cons by simp
qed

text \<open>Commands with several keys, and with key-value pairs.\<close>

lemma ends_argx:
  assumes "c_cmd r = pre @ concat (map bulk ks) @ post" "ks \<noteq> []" "\<forall>a \<in> set ks. length a < 2 ^ 32"
    "class_count (c_type r) = 1" "redis_argx (c_type r)" "ha_ok (c_keys r)"
    "ha_nelem (c_keys r) + length ks \<le> 2 ^ 31" "\<forall>n. mem_ok M n"
  shows "\<exists>r'. ends M r (FS SW_KEY_LEN None 0 (length ks) (length pre)) (Done r') \<and> keyed ks r r'"
  using assms
proof (induction ks arbitrary: pre r)
  case (Cons k ks)
  have b: "c_cmd r = pre @ bulk k @ concat (map bulk ks) @ post" using Cons.prems(1) by simp
  obtain r1 where r1: "keyed [k] r r1"
    "runs M r (FS SW_KEY_LEN None 0 (Suc (length ks)) (length pre)) r1 (FS SW_KEY_LF None 0 (length ks) (lf_pos pre k))"
    using runs_key [OF b, of M 0 "length ks"] Cons.prems by auto
  note f = keyed_fields [OF r1(1)]
  have b1: "c_cmd r1 = pre @ bulk k @ concat (map bulk ks) @ post" using b f by simp
  have t1: "class_count (c_type r1) = 1" "redis_argx (c_type r1)" using Cons.prems f by simp_all
  note ex = class_exclusive(7) [OF t1]
  show ?case
  proof (cases "ks = []")
    case True
    have "ends M r1 (FS SW_KEY_LF None 0 (length ks) (lf_pos pre k)) (Done r1)"
      using True ex t1 by (intro ends_Done lf_pos_props(1) [OF b1]) (simp add: lf_step [OF b1] lf_defs del: append_assoc)
    from ends_runs [OF r1(2) this] show ?thesis using r1(1) True by auto
  next
    case False
    have "runs M r1 (FS SW_KEY_LF None 0 (length ks) (lf_pos pre k)) r1 (FS SW_KEY_LEN None 0 (length ks) (length (pre @ bulk k)))"
      using False ex t1 by (intro runs_lf [OF b1]) (simp add: lf_step [OF b1] lf_defs del: append_assoc)
    moreover obtain r2 where "ends M r1 (FS SW_KEY_LEN None 0 (length ks) (length (pre @ bulk k))) (Done r2)" "keyed ks r1 r2"
      using Cons.IH [of r1 "pre @ bulk k"] Cons.prems False b1 t1 f by auto
    ultimately show ?thesis
      using ends_runs [OF runs_trans [OF r1(2)]] keyed_trans [OF r1(1), of ks r2] by auto
  qed
qed simp

fun flat_pairs :: "(bytes \<times> bytes) list \<Rightarrow> bytes list" where
  "flat_pairs [] = []"
| "flat_pairs ((k, v) # kvs) = k # v # flat_pairs kvs"

definition pair_at :: "bytes \<Rightarrow> keypos \<Rightarrow> bytes \<times> bytes \<Rightarrow> bool" where
  "pair_at b kp kv \<longleftrightarrow> (\<exists>post. key_at b kp (fst kv) (bulk (snd kv) @ post))"

lemma ends_argkvx:
  assumes "c_cmd r = pre @ concat (map bulk (flat_pairs kvs)) @ post" "kvs \<noteq> []"
    "\<forall>a \<in> set (flat_pairs kvs). length a < 2 ^ 32"
    "class_count (c_type r) = 1" "redis_argkvx (c_type r)" "ha_ok (c_keys r)" "odd (c_narg r)"
    "ha_nelem (c_keys r) + length kvs \<le> 2 ^ 31" "\<forall>n. mem_ok M n"
  shows "\<exists>r'. ends M r (FS SW_KEY_LEN None 0 (length (flat_pairs kvs)) (length pre)) (Done r') \<and>
    keyed (map fst kvs) r r' \<and> (\<exists>kps. ha_list (c_keys r') = ha_list (c_keys r) @ kps \<and> list_all2 (pair_at (c_cmd r)) kps kvs)"
  using assms
proof (induction kvs arbitrary: pre r)
  case (Cons kv kvs)
  obtain k v where kv: "kv = (k, v)" by fastforce
  let ?rest = "concat (map bulk (flat_pairs kvs)) @ post" and ?n = "length (flat_pairs kvs)"
  have b: "c_cmd r = pre @ bulk k @ bulk v @ ?rest" using Cons.prems(1) kv by simp
  obtain r1 kp where r1: "keyed [k] r r1"
    "runs M r (FS SW_KEY_LEN None 0 (Suc (Suc ?n)) (length pre)) r1 (FS SW_KEY_LF None 0 (Suc ?n) (lf_pos pre k))"
    and kp: "ha_list (c_keys r1) = ha_list (c_keys r) @ [kp]" "pair_at (c_cmd r) kp (k, v)"
  proof -
    have "length k < 2 ^ 32" "ha_nelem (c_keys r) < 2 ^ 31" using Cons.prems kv by auto
    from runs_key_at [OF b this(1) Cons.prems(6) this(2) Cons.prems(9), of 0 "Suc ?n"] that
    show thesis unfolding pair_at_def fst_conv snd_conv by blast
  qed
  note f = keyed_fields [OF r1(1)]
  have b1: "c_cmd r1 = pre @ bulk k @ bulk v @ ?rest" and b2: "c_cmd r1 = (pre @ bulk k) @ bulk v @ ?rest"
    using b f by simp_all
  have t1: "class_count (c_type r1) = 1" "redis_argkvx (c_type r1)" "c_narg r1 mod 2 \<noteq> 0"
    using Cons.prems f by (simp_all add: odd_iff_mod_2_eq_one)
  note ex = class_exclusive(8) [OF t1(1,2)]
  have 2: "runs M r1 (FS SW_KEY_LF None 0 (Suc ?n) (lf_pos pre k)) r1 (FS SW_ARG1_LEN None 0 (Suc ?n) (length (pre @ bulk k)))"
    using ex t1 by (intro runs_lf [OF b1]) (simp add: lf_step [OF b1] lf_defs del: append_assoc)
  have v: "length v < 2 ^ 32" using Cons.prems(3) kv by simp
  show ?case
  proof (cases "kvs = []")
    case True
    have "ends M r1 (FS SW_ARG1_LEN None 0 (Suc ?n) (length (pre @ bulk k))) (Done r1)"
      using True ex t1 v by (intro ends_arg_lf [OF b2]) (auto simp: lf_step [OF b2] lf_defs simp del: append_assoc)
    from ends_runs [OF runs_trans [OF r1(2) 2] this] show ?thesis using r1(1) True kv kp by auto
  next
    case False
    then have n: "?n \<noteq> 0" by (cases kvs) auto
    have 3: "runs M r1 (FS SW_ARG1_LEN None 0 (Suc ?n) (length (pre @ bulk k))) r1
        (FS SW_KEY_LEN None 0 ?n (length ((pre @ bulk k) @ bulk v)))"
      using n ex t1 v by (intro runs_arg_lf [OF b2]) (auto simp: lf_step [OF b2] lf_defs simp del: append_assoc)
    have "c_cmd r1 = ((pre @ bulk k) @ bulk v) @ ?rest" using b2 by simp
    from Cons.IH [OF this False] obtain r2 kps where
      "ends M r1 (FS SW_KEY_LEN None 0 ?n (length ((pre @ bulk k) @ bulk v))) (Done r2)" "keyed (map fst kvs) r1 r2"
      and kps: "ha_list (c_keys r2) = ha_list (c_keys r1) @ kps" "list_all2 (pair_at (c_cmd r1)) kps kvs"
      using Cons.prems kv t1 f by (auto simp: odd_iff_mod_2_eq_one)
    with ends_runs [OF runs_trans [OF runs_trans [OF r1(2) 2] 3]] keyed_trans [OF r1(1), of "map fst kvs" r2]
    show ?thesis using kv kp kps f(1) by (intro exI [of _ r2]) auto
  qed
qed simp

text \<open>EVAL: a script, the number of keys, the first key, and arguments of which the parser does
  not tell keys from others.\<close>

lemma nkey_loop_foldl: "list_all isdigit s \<Longrightarrow> nkey_loop a s = Some (foldl run_digit a s)"
  by (induction s arbitrary: a) auto

definition nkeys_ok :: "bytes \<Rightarrow> bool" where
  "nkeys_ok s \<longleftrightarrow> s \<noteq> [] \<and> list_all isdigit s \<and> undec 0 s mod 2 ^ 32 \<noteq> 0"

lemma nkey_loop_ok: "nkeys_ok s \<Longrightarrow> \<exists>n. nkey_loop 0 s = Some n \<and> n \<noteq> 0"
  using foldl_run_digit [of 0 s] by (simp add: nkeys_ok_def nkey_loop_foldl)

lemma runs_arg2_eval:
  assumes "c_cmd r = pre @ bulk a @ post" "length a < 2 ^ 32" "redis_argeval (c_type r)" "nkeys_ok a"
  shows "runs M r (FS SW_ARG2_LEN None l (Suc n) (length pre)) r (FS SW_ARG2_LF None 0 n (lf_pos pre a))"
proof -
  let ?p = "length pre + length (dec (length a)) + 3"
  have 1: "runs M r (FS SW_ARG2_LEN None l (Suc n) (length pre)) r (FS SW_ARG2 None (length a) n ?p)"
    using assms(2) by (intro runs_len [OF assms(1) [unfolded bulk_len_split]]) auto
  obtain k where k: "nkey_loop 0 a = Some k" "k \<noteq> 0" using nkey_loop_ok [OF assms(4)] by blast
  have "a \<noteq> []" using assms(4) by (simp add: nkeys_ok_def)
  then have "runs M r (FS SW_ARG2 None (length a) n ?p) r (FS SW_ARG2_LF None 0 n (?p + length a + 1))"
    using bulk_positions(1,2,6) [OF assms(1)] k assms(3)
    by (intro runs_FS) (auto simp: parse_step_def sw_arg2_def token_or_def Let_def Suc_le_eq)
  with 1 show ?thesis unfolding lf_pos_eq by (rule runs_trans)
qed

lemma ends_eval:
  assumes "c_cmd r = pre @ bulk script @ bulk nk @ bulk k @ concat (map bulk as) @ post"
    "\<forall>a \<in> set (script # nk # k # as). length a < 2 ^ 32" "nkeys_ok nk"
    "class_count (c_type r) = 1" "redis_argeval (c_type r)" "ha_ok (c_keys r)"
    "ha_nelem (c_keys r) < 2 ^ 31" "\<forall>n. mem_ok M n"
  shows "\<exists>r'. ends M r (FS SW_ARG1_LEN None 0 (3 + length as) (length pre)) (Done r') \<and> keyed [k] r r'"
proof -
  let ?p1 = "pre @ bulk script" and ?p2 = "(pre @ bulk script) @ bulk nk" and ?n = "length as"
  have b1: "c_cmd r = pre @ bulk script @ (bulk nk @ bulk k @ concat (map bulk as) @ post)"
    and b2: "c_cmd r = ?p1 @ bulk nk @ (bulk k @ concat (map bulk as) @ post)"
    and b3: "c_cmd r = ?p2 @ bulk k @ (concat (map bulk as) @ post)" using assms(1) by simp_all
  note ex = class_exclusive(9) [OF assms(4,5)]
  have 1: "runs M r (FS SW_ARG1_LEN None 0 (Suc (Suc (Suc ?n))) (length pre)) r (FS SW_ARG2_LEN None 0 (Suc (Suc ?n)) (length ?p1))"
    using assms(2,5) ex by (intro runs_arg_lf [OF b1]) (auto simp: lf_step [OF b1] lf_defs simp del: append_assoc)
  have 2: "runs M r (FS SW_ARG2_LEN None 0 (Suc (Suc ?n)) (length ?p1)) r (FS SW_ARG2_LF None 0 (Suc ?n) (lf_pos ?p1 nk))"
    using assms(2,3,5) by (intro runs_arg2_eval [OF b2]) auto
  have 3: "runs M r (FS SW_ARG2_LF None 0 (Suc ?n) (lf_pos ?p1 nk)) r (FS SW_KEY_LEN None 0 (Suc ?n) (length ?p2))"
    using assms(5) ex by (intro runs_lf [OF b2]) (auto simp: lf_step [OF b2] lf_defs simp del: append_assoc)
  obtain r1 where r1: "keyed [k] r r1"
    "runs M r (FS SW_KEY_LEN None 0 (Suc ?n) (length ?p2)) r1 (FS SW_KEY_LF None 0 ?n (lf_pos ?p2 k))"
    using runs_key [OF b3, of M 0 ?n] assms by auto
  note f = keyed_fields [OF r1(1)]
  have b4: "c_cmd r1 = ?p2 @ bulk k @ (concat (map bulk as) @ post)" using b3 f by simp
  have t1: "redis_argeval (c_type r1)" "class_count (c_type r1) = 1" using assms f by simp_all
  note ex1 = class_exclusive(9) [OF t1(2,1)]
  have 5: "ends M r1 (FS SW_KEY_LF None 0 ?n (lf_pos ?p2 k)) (Done r1)"
  proof (cases "as = []")
    case True
    then show ?thesis using ex1 t1
      by (intro ends_Done lf_pos_props(1) [OF b4]) (simp add: lf_step [OF b4] lf_defs del: append_assoc)
  next
    case False
    have "runs M r1 (FS SW_KEY_LF None 0 ?n (lf_pos ?p2 k)) r1 (FS SW_ARGN_LEN None 0 ?n (length (?p2 @ bulk k)))"
      using False ex1 t1 by (intro runs_lf [OF b4]) (simp add: lf_step [OF b4] lf_defs del: append_assoc)
    moreover have "ends M r1 (FS SW_ARGN_LEN None 0 ?n (length (?p2 @ bulk k))) (Done r1)"
      using False assms(2) b4 t1 by (intro ends_argn) auto
    ultimately show ?thesis by (rule ends_runs)
  qed
  have "ends M r (FS SW_ARG1_LEN None 0 (Suc (Suc (Suc ?n))) (length pre)) (Done r1)"
    by (rule ends_runs [OF runs_trans [OF runs_trans [OF runs_trans [OF 1 2] 3] r1(2)] 5])
  then show ?thesis using r1(1) by (auto simp: numeral_3_eq_3)
qed

section \<open>The header and the name\<close>

lemma runs_narg_digits:
  assumes "c_cmd r = pre @ ds @ post" "list_all isdigit ds"
  shows "runs M r (FS SW_NARG (Some t) l n (length pre)) r
    (FS SW_NARG (Some t) l (foldl run_digit n ds) (length pre + length ds))"
  using assms
proof (induction ds arbitrary: pre n)
  case (Cons d ds)
  have ch: "c_cmd r ! length pre = d" "isdigit d" "length pre < length (c_cmd r)" using Cons.prems by auto
  have 1: "runs M r (FS SW_NARG (Some t) l n (length pre)) r (FS SW_NARG (Some t) l (run_digit n d) (length pre + 1))"
    using ch by (intro runs_FS) (simp_all add: parse_step_def sw_narg_def)
  have 2: "runs M r (FS SW_NARG (Some t) l (run_digit n d) (length (pre @ [d]))) r
      (FS SW_NARG (Some t) l (foldl run_digit (run_digit n d) ds) (length (pre @ [d]) + length ds))"
    using Cons.prems by (intro Cons.IH) auto
  show ?case using runs_trans [OF 1] 2 by simp
qed simp

definition with_narg :: "nat \<Rightarrow> cmd \<Rightarrow> cmd" where
  "with_narg n r = r\<lparr>c_narg_start := Some 0, c_narg := n, c_narg_end := Some (1 + length (dec n))\<rparr>"

lemma runs_narg:
  assumes "c_cmd r = CHR ''*'' # dec n @ CRLF @ post" "0 < n" "n < 2 ^ 32"
  shows "runs M r fsm_start (with_narg n r) (FS SW_REQ_TYPE_LEN None 0 n (length (CHR ''*'' # dec n @ CRLF)))"
proof -
  let ?d = "length (dec n)" and ?r = "r\<lparr>c_narg_start := Some 0\<rparr>"
  have 1: "runs M r fsm_start ?r (FS SW_NARG (Some 0) 0 0 (0 + 1))"
    unfolding fsm_start_def using assms(1) by (intro runs_FS) (simp_all add: parse_step_def sw_narg_def)
  have 2: "runs M ?r (FS SW_NARG (Some 0) 0 0 (0 + 1)) ?r (FS SW_NARG (Some 0) 0 n (1 + ?d))"
    using runs_narg_digits [of ?r "''*''" "dec n" "CRLF @ post" M 0 0 0] assms
    by (simp add: foldl_run_digit_dec)
  have c: "c_cmd r ! (1 + ?d) = CR" "c_cmd r ! (1 + ?d + 1) = LF" "1 + ?d + 1 < length (c_cmd r)"
    using assms(1) nth_at [of "c_cmd r" "CHR ''*'' # dec n" CR "LF # post"]
      nth_at [of "c_cmd r" "CHR ''*'' # dec n @ [CR]" LF post] by auto
  have 3: "runs M ?r (FS SW_NARG (Some 0) 0 n (1 + ?d)) (with_narg n r) (FS SW_NARG_LF None 0 n (1 + ?d + 1))"
    using c assms(2) by (intro runs_FS) (simp_all add: parse_step_def sw_narg_def with_narg_def)
  have 4: "runs M (with_narg n r) (FS SW_NARG_LF None 0 n (1 + ?d + 1)) (with_narg n r) (FS SW_REQ_TYPE_LEN None 0 n (1 + ?d + 1 + 1))"
    using c by (intro runs_FS) (simp_all add: parse_step_def sw_lf_def with_narg_def)
  show ?thesis using runs_trans [OF runs_trans [OF runs_trans [OF 1 2] 3] 4] by simp
qed

definition with_type :: "cmd_type \<Rightarrow> cmd \<Rightarrow> cmd" where
  "with_type t r = r\<lparr>c_type := t,
     c_noforward := c_noforward r \<or> t = CMD_REQ_REDIS_PING \<or> t = CMD_REQ_REDIS_AUTH,
     c_quit := c_quit r \<or> t = CMD_REQ_REDIS_QUIT\<rparr>"

lemma with_fields [simp]:
  "c_cmd (with_type t r) = c_cmd r" "c_type (with_type t r) = t" "c_keys (with_type t r) = c_keys r"
  "c_narg (with_type t r) = c_narg r" "c_cmd (with_narg n r) = c_cmd r" "c_keys (with_narg n r) = c_keys r"
  "c_narg (with_narg n r) = n" "c_result (with_type t r) = c_result r" "c_result (with_narg n r) = c_result r"
  by (simp_all add: with_type_def with_narg_def)

lemma runs_type:
  assumes "c_cmd r = pre @ bulk name @ post" "length name < 2 ^ 32" "name \<noteq> []" "name_type name \<noteq> CMD_UNKNOWN"
  shows "runs M r (FS SW_REQ_TYPE_LEN None l (Suc n) (length pre)) (with_type (name_type name) r)
    (FS SW_REQ_TYPE_LF None 0 n (lf_pos pre name))"
proof -
  let ?p = "length pre + length (dec (length name)) + 3"
  have 1: "runs M r (FS SW_REQ_TYPE_LEN None l (Suc n) (length pre)) r (FS SW_REQ_TYPE None (length name) n ?p)"
    using assms(2,3) by (intro runs_len [OF assms(1) [unfolded bulk_len_split]]) auto
  have "cmd_type_of (length name) (drop ?p (c_cmd r)) = name_type name"
    using bulk_positions(7) [OF assms(1)] cmd_type_of_name by simp
  then have "runs M r (FS SW_REQ_TYPE None (length name) n ?p) (with_type (name_type name) r)
      (FS SW_REQ_TYPE_LF None 0 n (?p + length name + 1))"
    using bulk_positions(1,2) [OF assms(1)] assms(4)
    by (intro runs_FS) (simp_all add: parse_step_def sw_req_type_def token_or_def Let_def with_type_def)
  with 1 show ?thesis unfolding lf_pos_eq by (rule runs_trans)
qed

lemma type_lf_step:
  assumes "c_cmd r = pre @ bulk a @ post"
  shows "parse_step M r (FS SW_REQ_TYPE_LF None l n (lf_pos pre a)) =
    Inr (sw_req_type_lf r (FS SW_REQ_TYPE_LF None l n (lf_pos pre a)) LF)"
  using lf_pos_props(2) [OF assms] by (simp add: parse_step_def)

section \<open>Which arguments are keys\<close>

fun evens :: "'a list \<Rightarrow> 'a list" where
  "evens (k # v # r) = k # evens r"
| "evens _ = []"

text \<open>\<open>None\<close> where the number of arguments does not fit the command.\<close>

definition cmd_keys :: "cmd_type \<Rightarrow> bytes list \<Rightarrow> bytes list option" where
  "cmd_keys t rest =
     (if redis_argz t then Some []
      else if redis_argeval t then
        (case rest of script # nk # k # as \<Rightarrow> if nkeys_ok nk then Some [k] else None | _ \<Rightarrow> None)
      else
        (case rest of
           [] \<Rightarrow> None
         | k # as \<Rightarrow>
             if fixed_arity t \<noteq> None then (if fixed_arity t = Some (length as) then Some [k] else None)
             else if redis_argn t then Some [k]
             else if redis_argx t then Some rest
             else if redis_argkvx t \<and> even (length rest) then Some (evens rest)
             else None))"

lemma even_flat_pairs:
  "even (length xs) \<Longrightarrow> \<exists>kvs. xs = flat_pairs kvs \<and> map fst kvs = evens xs"
proof (induction xs rule: evens.induct)
  case (1 k v r)
  then obtain kvs where "r = flat_pairs kvs" "map fst kvs = evens r" by auto
  then show ?case by (intro exI [of _ "(k, v) # kvs"]) simp
qed (auto intro: exI [of _ "[]"])

lemma flat_pairs_length: "length (flat_pairs kvs) = 2 * length kvs"
  by (induction kvs rule: flat_pairs.induct) auto

lemma ends_command:
  assumes "c_cmd r = pre @ bulk name @ concat (map bulk rest) @ post"
    "\<forall>a \<in> set (name # rest). length a < 2 ^ 32" "class_count (c_type r) = 1"
    "cmd_keys (c_type r) rest = Some ks" "c_narg r = Suc (length rest)" "ha_ok (c_keys r)"
    "ha_nelem (c_keys r) + length rest \<le> 2 ^ 31" "\<forall>n. mem_ok M n"
  shows "\<exists>r'. ends M r (FS SW_REQ_TYPE_LF None 0 (length rest) (lf_pos pre name)) (Done r') \<and> keyed ks r r'"
proof -
  let ?t = "c_type r" and ?pre = "pre @ bulk name"
  note ex = class_exclusive [OF assms(3)] and lf = type_lf_step [OF assms(1)]
  have b: "c_cmd r = ?pre @ concat (map bulk rest) @ post" using assms(1) by simp
  have key_len: "runs M r (FS SW_REQ_TYPE_LF None 0 (length rest) (lf_pos pre name)) r
      (FS SW_KEY_LEN None 0 (length rest) (length ?pre))" if "\<not> redis_argz ?t" "\<not> redis_argeval ?t"
    using that by (intro runs_lf [OF assms(1)]) (simp add: lf sw_req_type_lf_def)
  have one: "\<exists>r'. ends M r (FS SW_KEY_LEN None 0 (length rest) (length ?pre)) (Done r') \<and> keyed [k] r r'"
    if rest: "rest = k # as" and cl: "fixed_arity ?t = Some (length as) \<or> redis_argn ?t" for k as
  proof -
    have b1: "c_cmd r = ?pre @ bulk k @ concat (map bulk as) @ post" using b rest by simp
    obtain r1 where r1: "keyed [k] r r1"
      "runs M r (FS SW_KEY_LEN None 0 (Suc (length as)) (length ?pre)) r1 (FS SW_KEY_LF None 0 (length as) (lf_pos ?pre k))"
      using runs_key [OF b1, of M 0 "length as"] assms rest by auto
    note f = keyed_fields [OF r1(1)]
    have "ends M r1 (FS SW_KEY_LF None 0 (length as) (lf_pos ?pre k)) (Done r1)"
      using ends_fixed [of r1 ?pre k as post M] ends_any [of r1 ?pre k as post M] b1 f assms(2,3) rest cl by auto
    from ends_runs [OF r1(2) this] show ?thesis using r1(1) rest by auto
  qed
  consider "redis_argz ?t" "ks = []"
    | script nk k as where "redis_argeval ?t" "rest = script # nk # k # as" "nkeys_ok nk" "ks = [k]"
    | k as where "\<not> redis_argz ?t" "\<not> redis_argeval ?t" "rest = k # as"
        "fixed_arity ?t = Some (length as) \<or> redis_argn ?t" "ks = [k]"
    | "\<not> redis_argz ?t" "\<not> redis_argeval ?t" "redis_argx ?t" "rest \<noteq> []" "ks = rest"
    | kvs where "\<not> redis_argz ?t" "\<not> redis_argeval ?t" "redis_argkvx ?t" "rest = flat_pairs kvs" "kvs \<noteq> []"
        "ks = map fst kvs" "even (length rest)"
  proof (cases "redis_argz ?t \<or> redis_argeval ?t \<or> fixed_arity ?t \<noteq> None \<or> redis_argn ?t \<or> redis_argx ?t")
    case True
    then show thesis using assms(4) that(1-4)
      by (auto simp: cmd_keys_def split: if_splits list.splits)
  next
    case False
    then have "redis_argkvx ?t" "rest \<noteq> []" "even (length rest)" "ks = evens rest"
      using assms(4) by (auto simp: cmd_keys_def split: if_splits list.splits)
    moreover obtain kvs where "rest = flat_pairs kvs" "map fst kvs = evens rest"
      using even_flat_pairs [OF \<open>even (length rest)\<close>] by blast
    moreover have "kvs \<noteq> []" using \<open>rest \<noteq> []\<close> \<open>rest = flat_pairs kvs\<close> by auto
    ultimately show thesis using False that(5) [of kvs] by auto
  qed
  then show ?thesis
  proof cases
    case 1
    have "ends M r (FS SW_REQ_TYPE_LF None 0 (length rest) (lf_pos pre name)) (Done r)"
      using 1 by (intro ends_Done lf_pos_props(1) [OF assms(1)]) (simp add: lf sw_req_type_lf_def)
    then show ?thesis using keyed_refl [OF assms(6)] 1 by auto
  next
    case (2 script nk k as)
    have "runs M r (FS SW_REQ_TYPE_LF None 0 (length rest) (lf_pos pre name)) r
        (FS SW_ARG1_LEN None 0 (length rest) (length ?pre))"
      using 2 ex(9) by (intro runs_lf [OF assms(1)]) (simp add: lf sw_req_type_lf_def)
    moreover obtain r1 where "ends M r (FS SW_ARG1_LEN None 0 (length rest) (length ?pre)) (Done r1)" "keyed [k] r r1"
      using ends_eval [of r ?pre script nk k as post M] b assms 2 by (auto simp: numeral_3_eq_3)
    ultimately show ?thesis using 2(4) ends_runs by blast
  next
    case (3 k as)
    then show ?thesis using one [of k as] key_len ends_runs by blast
  next
    case 4
    have "\<exists>r'. ends M r (FS SW_KEY_LEN None 0 (length rest) (length ?pre)) (Done r') \<and> keyed rest r r'"
      using 4 assms by (intro ends_argx [OF b]) auto
    then show ?thesis using key_len [OF 4(1,2)] ends_runs 4(5) by blast
  next
    case (5 kvs)
    have "\<exists>r'. ends M r (FS SW_KEY_LEN None 0 (length (flat_pairs kvs)) (length ?pre)) (Done r') \<and> keyed (map fst kvs) r r'"
      using ends_argkvx [of r ?pre kvs post M] b assms 5 by (auto simp: flat_pairs_length)
    then show ?thesis using key_len [OF 5(1,2)] ends_runs 5(4,6) by blast
  qed
qed

lemma length_bulk_le: "a \<in> set as \<Longrightarrow> length a < length (concat (map bulk as))"
  by (induction as) (auto simp: length_bulk)

lemma length_args_le: "length as \<le> length (concat (map bulk as))"
  by (induction as) (auto simp: length_bulk)

lemma redis_parse_cmd_resp:
  assumes "c_cmd r = resp_cmd (name # rest)" "length (c_cmd r) < 2 ^ 31" "name_type name \<noteq> CMD_UNKNOWN"
    "cmd_keys (name_type name) rest = Some ks" "ha_ok (c_keys r)" "ha_nelem (c_keys r) = 0" "\<forall>n. mem_ok M n"
  shows "\<exists>r'. redis_parse_cmd M r = Inr r' \<and> c_result r' = CMD_PARSE_OK \<and> c_type r' = name_type name \<and>
    c_narg r' = length (name # rest) \<and> c_cmd r' = c_cmd r \<and> cmd_key_texts r' = ks"
proof -
  let ?args = "name # rest" and ?n = "Suc (length rest)"
  let ?pre = "CHR ''*'' # dec ?n @ CRLF" and ?t = "name_type name"
  let ?r1 = "with_narg ?n r" let ?r2 = "with_type ?t ?r1"
  have b0: "c_cmd r = CHR ''*'' # dec ?n @ CRLF @ concat (map bulk ?args)"
    and b: "c_cmd r = ?pre @ bulk name @ concat (map bulk rest) @ []"
    using assms(1) by (simp_all add: resp_cmd_def)
  have tot: "length (concat (map bulk ?args)) < 2 ^ 31" using assms(2) b0 by simp
  have n: "?n < 2 ^ 31" using length_args_le [of ?args] tot by simp
  have small: "\<forall>a \<in> set ?args. length a < 2 ^ 32"
  proof
    fix a assume "a \<in> set ?args"
    from length_bulk_le [OF this] tot show "length a < 2 ^ 32" by simp
  qed
  have "name \<noteq> []"
    using assms(3) by (auto simp: name_type_def cmd_type_of_def names_of_length_def)
  then have 2: "runs M ?r1 (FS SW_REQ_TYPE_LEN None 0 ?n (length ?pre)) ?r2 (FS SW_REQ_TYPE_LF None 0 (length rest) (lf_pos ?pre name))"
    using b small assms(3) by (intro runs_type) auto
  have 1: "runs M r fsm_start ?r1 (FS SW_REQ_TYPE_LEN None 0 ?n (length ?pre))"
    using n by (intro runs_narg [OF b0]) auto
  obtain r' where r': "ends M ?r2 (FS SW_REQ_TYPE_LF None 0 (length rest) (lf_pos ?pre name)) (Done r')" "keyed ks ?r2 r'"
  proof -
    have "\<exists>r'. ends M ?r2 (FS SW_REQ_TYPE_LF None 0 (length rest) (lf_pos ?pre name)) (Done r') \<and> keyed ks ?r2 r'"
      by (rule ends_command [where post = "[]"])
        (use b small n assms(4-7) name_type_class [OF assms(3)] in \<open>simp_all only: with_fields, simp_all\<close>)
    then show thesis using that by blast
  qed
  have "ends M r fsm_start (Done r')" by (rule ends_runs [OF runs_trans [OF 1 2] r'(1)])
  then obtain m where "parse_loop m M r fsm_start = Inr (Done r')" unfolding ends_def ..
  moreover have "parse_inv r fsm_start"
    using assms(2,5,6) by (simp add: parse_inv_def fsm_start_def ha_list_def)
  ultimately have "parse_loop (length (c_cmd r) + 1) M r fsm_start = Inr (Done r')"
    using runs_result [OF runs_refl, of m M r fsm_start "Done r'" "length (c_cmd r) + 1"]
    by (simp add: fsm_start_def)
  moreover have "cmd_key_texts ?r2 = []" using assms(6) by (simp add: cmd_key_texts_def ha_list_def)
  ultimately show ?thesis
    using keyed_fields [OF r'(2)] r'(2)
    by (auto simp: redis_parse_cmd_def keyed_def cmd_key_texts_def)
qed

text \<open>The common prefix of the remaining results: up to the LF after the name.\<close>

lemma runs_to_name:
  assumes "c_cmd r = resp_cmd (name # rest)" "length (c_cmd r) < 2 ^ 31" "name_type name \<noteq> CMD_UNKNOWN"
  defines "pre \<equiv> CHR ''*'' # dec (Suc (length rest)) @ CRLF"
    and "r2 \<equiv> with_type (name_type name) (with_narg (Suc (length rest)) r)"
  shows "runs M r fsm_start r2 (FS SW_REQ_TYPE_LF None 0 (length rest) (lf_pos pre name))"
    "c_cmd r2 = pre @ bulk name @ concat (map bulk rest)"
    "\<forall>a \<in> set rest. length a < 2 ^ 32"
proof -
  have b0: "c_cmd r = CHR ''*'' # dec (Suc (length rest)) @ CRLF @ concat (map bulk (name # rest))"
    and b: "c_cmd r = pre @ bulk name @ concat (map bulk rest)"
    using assms(1) by (simp_all add: resp_cmd_def pre_def)
  then show "c_cmd r2 = pre @ bulk name @ concat (map bulk rest)" by (simp add: r2_def)
  have tot: "length (concat (map bulk (name # rest))) < 2 ^ 31" using assms(2) b0 by simp
  have n: "Suc (length rest) < 2 ^ 32" using length_args_le [of "name # rest"] tot by simp
  have small: "length a < 2 ^ 32" if "a \<in> set (name # rest)" for a
    using length_bulk_le [OF that] tot by simp
  then show "\<forall>a \<in> set rest. length a < 2 ^ 32" by simp
  have "name \<noteq> []" using assms(3) by (auto simp: name_type_def cmd_type_of_def names_of_length_def)
  then have "runs M (with_narg (Suc (length rest)) r) (FS SW_REQ_TYPE_LEN None 0 (Suc (length rest)) (length pre)) r2
      (FS SW_REQ_TYPE_LF None 0 (length rest) (lf_pos pre name))"
    unfolding r2_def using b small assms(3) by (intro runs_type) auto
  with runs_narg [OF b0] n show "runs M r fsm_start r2 (FS SW_REQ_TYPE_LF None 0 (length rest) (lf_pos pre name))"
    unfolding pre_def by (auto intro: runs_trans)
qed

lemma parse_result:
  assumes "ends M r fsm_start out" "length (c_cmd r) < 2 ^ 31" "ha_ok (c_keys r)" "ha_nelem (c_keys r) = 0"
  shows "parse_loop (length (c_cmd r) + 1) M r fsm_start = Inr out"
proof -
  obtain m where "parse_loop m M r fsm_start = Inr out" using assms(1) by (auto simp: ends_def)
  moreover have "parse_inv r fsm_start"
    using assms(2-4) by (simp add: parse_inv_def fsm_start_def ha_list_def)
  ultimately show ?thesis
    using runs_result [OF runs_refl, of m M r fsm_start out "length (c_cmd r) + 1"]
    by (simp add: fsm_start_def)
qed

lemma redis_parse_cmd_pairs:
  assumes "c_cmd r = resp_cmd (name # flat_pairs kvs)" "length (c_cmd r) < 2 ^ 31" "name_type name \<noteq> CMD_UNKNOWN"
    "redis_argkvx (name_type name)" "kvs \<noteq> []" "ha_ok (c_keys r)" "ha_nelem (c_keys r) = 0" "\<forall>n. mem_ok M n"
  shows "\<exists>r'. redis_parse_cmd M r = Inr r' \<and> c_result r' = CMD_PARSE_OK \<and> c_type r' = name_type name \<and>
    c_cmd r' = c_cmd r \<and> ha_ok (c_keys r') \<and> list_all2 (pair_at (c_cmd r)) (ha_list (c_keys r')) kvs"
proof -
  let ?t = "name_type name" and ?rest = "flat_pairs kvs" let ?n = "length ?rest"
  let ?pre = "CHR ''*'' # dec (Suc ?n) @ CRLF" let ?r2 = "with_type ?t (with_narg (Suc ?n) r)"
  note to_name = runs_to_name [OF assms(1-3), unfolded length_Cons]
  have c: "class_count ?t = 1" by (rule name_type_class [OF assms(3)])
  have fa: "\<not> redis_argz ?t" "\<not> redis_argeval ?t" using class_exclusive(8) [OF c assms(4)] by auto
  have b: "c_cmd ?r2 = ?pre @ bulk name @ concat (map bulk ?rest)" using to_name(2) by simp
  have 2: "runs M ?r2 (FS SW_REQ_TYPE_LF None 0 ?n (lf_pos ?pre name)) ?r2 (FS SW_KEY_LEN None 0 ?n (length (?pre @ bulk name)))"
    using fa by (intro runs_lf [OF b]) (simp add: type_lf_step [OF b] sw_req_type_lf_def del: append_assoc)
  have "length ?rest < 2 ^ 31" using length_args_le [of ?rest] assms(1,2) by (simp add: resp_cmd_def)
  then obtain r3 kps where r3: "ends M ?r2 (FS SW_KEY_LEN None 0 ?n (length (?pre @ bulk name))) (Done r3)" "keyed (map fst kvs) ?r2 r3"
      "ha_list (c_keys r3) = ha_list (c_keys ?r2) @ kps" "list_all2 (pair_at (c_cmd ?r2)) kps kvs"
    using ends_argkvx [of ?r2 "?pre @ bulk name" kvs "[]" M] b c assms(4-) to_name(3) by (auto simp: flat_pairs_length)
  note f = keyed_fields [OF r3(2)]
  from ends_runs [OF runs_trans [OF to_name(1) 2] r3(1)]
  have "parse_loop (length (c_cmd r) + 1) M r fsm_start = Inr (Done r3)"
    by (rule parse_result [OF _ assms(2,6,7)])
  then show ?thesis using f r3(3,4) assms(7) by (simp add: redis_parse_cmd_def ha_list_def)
qed

section \<open>Properties\<close>



lemma arity_ends:
  assumes b: "c_cmd r = pre @ bulk k @ rest" and "fixed_arity (c_type r) = Some m" "m \<noteq> n"
    "\<not> redis_argz (c_type r)" "\<not> redis_argeval (c_type r)"
    "redis_arg0 (c_type r) \<or> redis_arg1 (c_type r) \<or> redis_arg2 (c_type r) \<or> redis_arg3 (c_type r)"
  shows "ends M r (FS SW_KEY_LF None 0 n (lf_pos pre k)) (Fail r (FS SW_KEY_LF None 0 n (lf_pos pre k)))"
  using assms(2-)
  by (intro ends_Fail lf_pos_props(1) [OF b])
    (auto simp: lf_step [OF b] lf_defs fixed_arity_def simp del: append_assoc split: if_splits)

text \<open>
  a command of fixed arity with the wrong number of arguments is refused: the result is
  \<^verbatim>\<open>CMD_PARSE_ERROR\<close> and an error string is set.
\<close>

theorem redis_parse_cmd_arity:
  assumes "c_cmd r = resp_cmd (name # k # as)" "length (c_cmd r) < 2 ^ 31" "name_type name \<noteq> CMD_UNKNOWN"
    "fixed_arity (name_type name) = Some m" "m \<noteq> length as" "ha_ok (c_keys r)" "ha_nelem (c_keys r) = 0"
    "\<forall>n. mem_ok M n"
  shows "\<exists>r'. redis_parse_cmd M r = Inr r' \<and> c_result r' = CMD_PARSE_ERROR \<and> c_errstr r' \<noteq> None"
proof -
  let ?t = "name_type name" and ?n = "Suc (length as)"
  let ?pre = "CHR ''*'' # dec (Suc ?n) @ CRLF" let ?r2 = "with_type ?t (with_narg (Suc ?n) r)"
  note to_name = runs_to_name [OF assms(1-3), unfolded length_Cons]
  have c: "class_count ?t = 1" by (rule name_type_class [OF assms(3)])
  have fa: "\<not> redis_argz ?t" "\<not> redis_argeval ?t" "redis_arg0 ?t \<or> redis_arg1 ?t \<or> redis_arg2 ?t \<or> redis_arg3 ?t"
    using assms(4) class_exclusive(2-5) [OF c] by (auto simp: fixed_arity_def split: if_splits)
  have b: "c_cmd ?r2 = ?pre @ bulk name @ (bulk k @ concat (map bulk as))" using to_name(2) by simp
  have b1: "c_cmd ?r2 = (?pre @ bulk name) @ bulk k @ concat (map bulk as)" using to_name(2) by simp
  have 2: "runs M ?r2 (FS SW_REQ_TYPE_LF None 0 ?n (lf_pos ?pre name)) ?r2 (FS SW_KEY_LEN None 0 ?n (length (?pre @ bulk name)))"
    using fa by (intro runs_lf [OF b]) (simp add: type_lf_step [OF b] sw_req_type_lf_def del: append_assoc)
  obtain r3 where r3: "keyed [k] ?r2 r3" "runs M ?r2 (FS SW_KEY_LEN None 0 (Suc (length as)) (length (?pre @ bulk name))) r3
      (FS SW_KEY_LF None 0 (length as) (lf_pos (?pre @ bulk name) k))"
    using runs_key [OF b1, of M 0 "length as"] to_name(3) assms(6-8) by auto
  note f = keyed_fields [OF r3(1)]
  have b3: "c_cmd r3 = (?pre @ bulk name) @ bulk k @ concat (map bulk as)" using b1 f by simp
  let ?f = "FS SW_KEY_LF None 0 (length as) (lf_pos (?pre @ bulk name) k)"
  have "ends M r3 ?f (Fail r3 ?f)"
    using assms(4,5) f fa by (intro arity_ends [OF b3]) auto
  then have "ends M ?r2 (FS SW_KEY_LEN None 0 ?n (length (?pre @ bulk name))) (Fail r3 ?f)"
    using ends_runs [OF r3(2)] by simp
  from ends_runs [OF runs_trans [OF to_name(1) 2] this]
  have "parse_loop (length (c_cmd r) + 1) M r fsm_start = Inr (Fail r3 ?f)"
    by (rule parse_result [OF _ assms(2,6,7)])
  then show ?thesis using assms(8) by (simp add: redis_parse_cmd_def parse_error_def)
qed

theorem redis_parse_cmd_arity_witness:
  "\<exists>r r'. c_cmd r = resp_cmd [''GET'', ''k'', ''extra''] \<and> redis_parse_cmd granting r = Inr r' \<and>
    c_result r' = CMD_PARSE_ERROR"
proof -
  have t: "name_type ''GET'' = CMD_REQ_REDIS_GET"
    using entries3 [of "[]"] unfolding name_type_def by (simp add: names3_def entry_ok_def)
  obtain i' r0 where g: "command_get granting 0 = (i', Some r0)" "ha_ok (c_keys r0)" "ha_nelem (c_keys r0) = 0"
    by (auto simp: command_get_def hiarray_create_def hiarray_init_def ha_ok_def size64_id)
  let ?r = "r0\<lparr>c_cmd := resp_cmd [''GET'', ''k'', ''extra'']\<rparr>"
  have "length (c_cmd ?r) < 2 ^ 31" by (simp add: length_resp_cmd length_bulk dec_small)
  from redis_parse_cmd_arity [OF _ this, of "''GET''" "''k''" "[''extra'']" 0 granting] t g
  show ?thesis by - (rule exI [of _ ?r], auto simp: fixed_arity_def class_defs)
qed

text \<open>
  a command that stops before its first key is not refused: the loop runs to the end of the
  text and leaves the result as it was, \<^verbatim>\<open>CMD_PARSE_OK\<close> in a fresh command, with no key.
  \<^verbatim>\<open>CMD_PARSE_AGAIN\<close> is never set.
\<close>

theorem redis_parse_cmd_incomplete:
  assumes "c_cmd r = resp_cmd [name]" "length (c_cmd r) < 2 ^ 31" "name_type name \<noteq> CMD_UNKNOWN"
    "\<not> redis_argz (name_type name)" "ha_ok (c_keys r)" "ha_nelem (c_keys r) = 0"
  shows "\<exists>r'. redis_parse_cmd M r = Inr r' \<and> c_result r' = c_result r \<and> cmd_key_texts r' = []"
proof -
  let ?pre = "CHR ''*'' # dec (Suc 0) @ CRLF" let ?r2 = "with_type (name_type name) (with_narg (Suc 0) r)"
  note to_name = runs_to_name [OF assms(1-3), simplified]
  have b: "c_cmd ?r2 = ?pre @ bulk name @ []" using to_name(2) by simp
  obtain s where s: "runs M ?r2 (FS SW_REQ_TYPE_LF None 0 0 (lf_pos ?pre name)) ?r2 (FS s None 0 0 (length (?pre @ bulk name)))"
    using runs_lf [OF b, of M SW_REQ_TYPE_LF 0 SW_ARG1_LEN] runs_lf [OF b, of M SW_REQ_TYPE_LF 0 SW_KEY_LEN] assms(4)
    by (cases "redis_argeval (name_type name)") (auto simp: type_lf_step [OF b] sw_req_type_lf_def simp del: append_assoc)
  have "ends M ?r2 (FS s None 0 0 (length (?pre @ bulk name))) (Go ?r2 (FS s None 0 0 (length (?pre @ bulk name))))"
    unfolding ends_def by (rule exI [of _ 1]) (use b in simp)
  from ends_runs [OF runs_trans [OF to_name(1) s] this]
  have "parse_loop (length (c_cmd r) + 1) M r fsm_start = Inr (Go ?r2 (FS s None 0 0 (length (?pre @ bulk name))))"
    by (intro parse_result assms) simp
  then show ?thesis using assms(6) by (simp add: redis_parse_cmd_def cmd_key_texts_def ha_list_def)
qed

theorem redis_parse_cmd_incomplete_witness:
  "\<exists>r r'. c_cmd r = resp_cmd [''GET''] \<and> redis_parse_cmd granting r = Inr r' \<and> c_result r' = CMD_PARSE_OK \<and>
    cmd_key_texts r' = []"
proof -
  have t: "name_type ''GET'' = CMD_REQ_REDIS_GET"
    using entries3 [of "[]"] unfolding name_type_def by (simp add: names3_def entry_ok_def)
  obtain i' r0 where g: "command_get granting 0 = (i', Some r0)" "ha_ok (c_keys r0)" "ha_nelem (c_keys r0) = 0"
    "c_result r0 = CMD_PARSE_OK"
    by (auto simp: command_get_def hiarray_create_def hiarray_init_def ha_ok_def size64_id)
  let ?r = "r0\<lparr>c_cmd := resp_cmd [''GET'']\<rparr>"
  have "length (c_cmd ?r) < 2 ^ 31" by (simp add: length_resp_cmd length_bulk dec_small)
  from redis_parse_cmd_incomplete [OF _ this, of "''GET''" granting] t g
  show ?thesis by - (rule exI [of _ ?r], auto simp: class_defs)
qed

end
