(* ===== verification/Crc16.thy ===== *)
theory Crc16
  imports Hi_Prelude
begin

text \<open>
  The CRC of \<^verbatim>\<open>src/crc16.c\<close> and the key-to-slot function of \<^verbatim>\<open>src/hircluster.c\<close>.
  \<open>crc16\<close> is the table-driven loop of the source; \<open>crc16_ref\<close> is the CRC-16/XMODEM of the
  file's comment (polynomial \<open>0x1021\<close>, initial value 0, no reflection), computed bit by bit.
  The two agree on every input (\<open>crc16_eq_ref\<close>), which checks all 256 entries of the table.
  \<open>keyHashSlot\<close> follows the two scanning loops of the source; its lemmas say that a slot is
  below 16384 and that it depends on the hash tag alone.
\<close>

section \<open>The table-driven CRC\<close>

definition crc16tab :: "u16 list" where
  "crc16tab = [
   0x0000, 0x1021, 0x2042, 0x3063, 0x4084, 0x50a5, 0x60c6, 0x70e7,
   0x8108, 0x9129, 0xa14a, 0xb16b, 0xc18c, 0xd1ad, 0xe1ce, 0xf1ef,
   0x1231, 0x0210, 0x3273, 0x2252, 0x52b5, 0x4294, 0x72f7, 0x62d6,
   0x9339, 0x8318, 0xb37b, 0xa35a, 0xd3bd, 0xc39c, 0xf3ff, 0xe3de,
   0x2462, 0x3443, 0x0420, 0x1401, 0x64e6, 0x74c7, 0x44a4, 0x5485,
   0xa56a, 0xb54b, 0x8528, 0x9509, 0xe5ee, 0xf5cf, 0xc5ac, 0xd58d,
   0x3653, 0x2672, 0x1611, 0x0630, 0x76d7, 0x66f6, 0x5695, 0x46b4,
   0xb75b, 0xa77a, 0x9719, 0x8738, 0xf7df, 0xe7fe, 0xd79d, 0xc7bc,
   0x48c4, 0x58e5, 0x6886, 0x78a7, 0x0840, 0x1861, 0x2802, 0x3823,
   0xc9cc, 0xd9ed, 0xe98e, 0xf9af, 0x8948, 0x9969, 0xa90a, 0xb92b,
   0x5af5, 0x4ad4, 0x7ab7, 0x6a96, 0x1a71, 0x0a50, 0x3a33, 0x2a12,
   0xdbfd, 0xcbdc, 0xfbbf, 0xeb9e, 0x9b79, 0x8b58, 0xbb3b, 0xab1a,
   0x6ca6, 0x7c87, 0x4ce4, 0x5cc5, 0x2c22, 0x3c03, 0x0c60, 0x1c41,
   0xedae, 0xfd8f, 0xcdec, 0xddcd, 0xad2a, 0xbd0b, 0x8d68, 0x9d49,
   0x7e97, 0x6eb6, 0x5ed5, 0x4ef4, 0x3e13, 0x2e32, 0x1e51, 0x0e70,
   0xff9f, 0xefbe, 0xdfdd, 0xcffc, 0xbf1b, 0xaf3a, 0x9f59, 0x8f78,
   0x9188, 0x81a9, 0xb1ca, 0xa1eb, 0xd10c, 0xc12d, 0xf14e, 0xe16f,
   0x1080, 0x00a1, 0x30c2, 0x20e3, 0x5004, 0x4025, 0x7046, 0x6067,
   0x83b9, 0x9398, 0xa3fb, 0xb3da, 0xc33d, 0xd31c, 0xe37f, 0xf35e,
   0x02b1, 0x1290, 0x22f3, 0x32d2, 0x4235, 0x5214, 0x6277, 0x7256,
   0xb5ea, 0xa5cb, 0x95a8, 0x8589, 0xf56e, 0xe54f, 0xd52c, 0xc50d,
   0x34e2, 0x24c3, 0x14a0, 0x0481, 0x7466, 0x6447, 0x5424, 0x4405,
   0xa7db, 0xb7fa, 0x8799, 0x97b8, 0xe75f, 0xf77e, 0xc71d, 0xd73c,
   0x26d3, 0x36f2, 0x0691, 0x16b0, 0x6657, 0x7676, 0x4615, 0x5634,
   0xd94c, 0xc96d, 0xf90e, 0xe92f, 0x99c8, 0x89e9, 0xb98a, 0xa9ab,
   0x5844, 0x4865, 0x7806, 0x6827, 0x18c0, 0x08e1, 0x3882, 0x28a3,
   0xcb7d, 0xdb5c, 0xeb3f, 0xfb1e, 0x8bf9, 0x9bd8, 0xabbb, 0xbb9a,
   0x4a75, 0x5a54, 0x6a37, 0x7a16, 0x0af1, 0x1ad0, 0x2ab3, 0x3a92,
   0xfd2e, 0xed0f, 0xdd6c, 0xcd4d, 0xbdaa, 0xad8b, 0x9de8, 0x8dc9,
   0x7c26, 0x6c07, 0x5c64, 0x4c45, 0x3ca2, 0x2c83, 0x1ce0, 0x0cc1,
   0xef1f, 0xff3e, 0xcf5d, 0xdf7c, 0xaf9b, 0xbfba, 0x8fd9, 0x9ff8,
   0x6e17, 0x7e36, 0x4e55, 0x5e74, 0x2e93, 0x3eb2, 0x0ed1, 0x1ef0
  ]"

text \<open>
  One round of the loop. The source indexes with \<^verbatim>\<open>((crc>>8) ^ *buf++)&0x00FF\<close>, where
  \<^verbatim>\<open>*buf\<close> is a signed \<^verbatim>\<open>char\<close> promoted to \<^verbatim>\<open>int\<close>.
\<close>

definition crc16_index :: "u16 \<Rightarrow> char \<Rightarrow> nat" where
  "crc16_index crc c =
     nat ((uint (drop_bit 8 crc) XOR signed_take_bit 7 (of_char c)) AND 0x00FF)"

definition crc16_step :: "u16 \<Rightarrow> char \<Rightarrow> u16" where
  "crc16_step crc c = push_bit 8 crc XOR crc16tab ! crc16_index crc c"

definition crc16 :: "bytes \<Rightarrow> u16" where
  "crc16 buf = foldl crc16_step 0 buf"

section \<open>The bitwise reference\<close>

definition crc16_bit :: "u16 \<Rightarrow> u16" where
  "crc16_bit crc = (if bit crc 15 then push_bit 1 crc XOR 0x1021 else push_bit 1 crc)"

definition crc16_ref_step :: "u16 \<Rightarrow> char \<Rightarrow> u16" where
  "crc16_ref_step crc c = (crc16_bit ^^ 8) (crc XOR push_bit 8 (of_char c))"

definition crc16_ref :: "bytes \<Rightarrow> u16" where
  "crc16_ref buf = foldl crc16_ref_step 0 buf"

section \<open>Slots\<close>

text \<open>The loops \<^verbatim>\<open>for (s = i; s < keylen; s++) if (key[s] == ch) break;\<close>.\<close>

function scan_char :: "char \<Rightarrow> bytes \<Rightarrow> nat \<Rightarrow> nat" where
  "scan_char ch key i =
     (if i < length key \<and> key ! i \<noteq> ch then scan_char ch key (Suc i) else i)"
  by pat_completeness auto
termination
  by (relation "measure (\<lambda>(ch, key, i). length key - i)") auto

definition keyHashSlot :: "bytes \<Rightarrow> u32" where
  "keyHashSlot key =
     (let s = scan_char CHR ''{'' key 0 in
      if s = length key then ucast (crc16 key AND 0x3FFF)
      else
        (let e = scan_char CHR ''}'' key (s + 1) in
         if e = length key \<or> e = s + 1 then ucast (crc16 key AND 0x3FFF)
         else ucast (crc16 (take (e - s - 1) (drop (s + 1) key)) AND 0x3FFF)))"

text \<open>
  The part of a key that is hashed: between the first \<^verbatim>\<open>{\<close> and the first \<^verbatim>\<open>}\<close> after it,
  if both are there and something stands between them; the whole key otherwise.
\<close>

definition hash_tag :: "bytes \<Rightarrow> bytes" where
  "hash_tag key =
     (case dropWhile (\<lambda>c. c \<noteq> CHR ''{'') key of
        [] \<Rightarrow> key
      | _ # r \<Rightarrow>
          (let t = takeWhile (\<lambda>c. c \<noteq> CHR ''}'') r
           in if CHR ''}'' \<in> set r \<and> t \<noteq> [] then t else key))"

section \<open>The table is the bitwise CRC of every byte\<close>

lemma crc16tab_doubling:
  "crc16tab = concat (map (\<lambda>x. [crc16_bit x, crc16_bit x XOR 0x1021]) (take 128 crc16tab))"
  by (simp add: crc16tab_def crc16_bit_def)

lemma length_crc16tab [simp]: "length crc16tab = 256"
  by (simp add: crc16tab_def)

lemma nth_concat_pairs:
  "i < length xs \<Longrightarrow> concat (map (\<lambda>x. [f x, g x]) xs) ! (2 * i) = f (xs ! i)"
  "i < length xs \<Longrightarrow> concat (map (\<lambda>x. [f x, g x]) xs) ! Suc (2 * i) = g (xs ! i)"
proof (induction xs arbitrary: i)
  case (Cons x xs)
  {
    case 1
    with Cons show ?case by (cases i) simp_all
  next
    case 2
    with Cons show ?case by (cases i) simp_all
  }
qed simp_all

lemma crc16tab_even: "i < 128 \<Longrightarrow> crc16tab ! (2 * i) = crc16_bit (crc16tab ! i)"
  by (subst crc16tab_doubling) (simp add: nth_concat_pairs)

lemma crc16tab_odd: "i < 128 \<Longrightarrow> crc16tab ! Suc (2 * i) = crc16_bit (crc16tab ! i) XOR 0x1021"
  by (subst crc16tab_doubling) (simp add: nth_concat_pairs)

lemma crc16_bit_xor: "crc16_bit (x XOR y) = crc16_bit x XOR crc16_bit y"
  unfolding crc16_bit_def by (auto simp: bit_xor_iff ac_simps)

lemma crc16_bit_pow_xor: "(crc16_bit ^^ n) (x XOR y) = (crc16_bit ^^ n) x XOR (crc16_bit ^^ n) y"
  by (induction n) (simp_all add: crc16_bit_xor)

lemma crc16_bit_pow_low:
  fixes l :: u16
  assumes "\<And>k. 8 \<le> k \<Longrightarrow> \<not> bit l k" and "n \<le> 8"
  shows "(crc16_bit ^^ n) l = push_bit n l"
  using assms(2)
proof (induction n)
  case (Suc n)
  then have "(crc16_bit ^^ n) l = push_bit n l" by simp
  moreover have "\<not> bit (push_bit n l) 15"
    using assms(1) [of "15 - n"] Suc.prems by (simp add: bit_push_bit_iff)
  then have "crc16_bit (push_bit n l) = push_bit (Suc n) l"
    by (simp add: crc16_bit_def)
  ultimately show ?case by simp
qed simp

lemma crc16_bit_high:
  fixes j :: nat
  assumes "j < 128"
  shows "crc16_bit (push_bit 8 (of_nat j) :: u16) = push_bit 8 (of_nat (2 * j))"
proof -
  have "\<not> bit j 7"
    using assms by (simp add: bit_iff_odd)
  then have "\<not> bit (push_bit 8 (of_nat j) :: u16) 15"
    by (simp add: bit_push_bit_iff bit_of_nat_iff)
  moreover have "push_bit 1 (push_bit 8 (of_nat j)) = (push_bit 8 (of_nat (2 * j)) :: u16)"
    by (simp add: push_bit_eq_mult)
  ultimately show ?thesis by (simp add: crc16_bit_def)
qed

lemma of_nat_odd_xor: "(of_nat (Suc (2 * j)) :: u16) = of_nat (2 * j) XOR 1"
proof -
  have "Suc (2 * j) = (2 * j) XOR 1" by (simp add: xor_Suc_0_eq)
  then show ?thesis by (metis of_nat_xor_eq of_nat_1)
qed

lemma crc16tab_nth:
  "i < 256 \<Longrightarrow> crc16tab ! i = (crc16_bit ^^ 8) (push_bit 8 (of_nat i))"
proof (induction i rule: less_induct)
  case (less i)
  have one: "(crc16_bit ^^ 8) (push_bit 8 1) = 0x1021"
    by code_simp
  have zero: "(crc16_bit ^^ n) 0 = 0" for n
    by (induction n) (simp_all add: crc16_bit_def)
  show ?case
  proof (cases "i = 0")
    case True
    then show ?thesis by (simp add: crc16tab_def zero)
  next
    case False
    define j where "j = i div 2"
    from False less.prems have j: "j < i" "j < 128" by (auto simp: j_def)
    with less have IH: "crc16tab ! j = (crc16_bit ^^ 8) (push_bit 8 (of_nat j))" by simp
    have dbl: "crc16_bit (crc16tab ! j) = (crc16_bit ^^ 8) (push_bit 8 (of_nat (2 * j)))"
      using crc16_bit_high [OF j(2)] by (simp only: IH funpow_swap1)
    show ?thesis
    proof (cases "even i")
      case True
      then have "i = 2 * j" by (simp add: j_def)
      then show ?thesis using crc16tab_even [OF j(2)] dbl by simp
    next
      case False
      then have i: "i = Suc (2 * j)" by (simp add: j_def)
      show ?thesis
        unfolding i crc16tab_odd [OF j(2)] dbl of_nat_odd_xor push_bit_xor crc16_bit_pow_xor one ..
    qed
  qed
qed

lemma and_FF_take_bit: "x AND 0x00FF = take_bit 8 (x :: int)"
  by (simp add: take_bit_eq_mask mask_eq_exp_minus_1)

lemma crc16_index_less: "crc16_index crc c < 256"
  using take_bit_int_less_exp [of 8 "uint (drop_bit 8 crc) XOR signed_take_bit 7 (of_char c)"]
  by (simp only: crc16_index_def and_FF_take_bit) simp

lemma of_char_int_bounds: "0 \<le> (of_char c :: int)" "(of_char c :: int) < 256"
proof -
  have "(of_char c :: int) = int (char_code c)" by (simp add: char_code_def of_nat_of_char)
  then show "0 \<le> (of_char c :: int)" "(of_char c :: int) < 256"
    using char_code_less [of c] by simp_all
qed

lemma crc16_index_eq: "crc16_index crc c = unat (drop_bit 8 crc XOR of_char c :: u16)"
proof -
  have d: "uint (drop_bit 8 crc) = uint crc div 256"
    using uint_lt2p [of crc]
    by (simp add: unsigned_drop_bit_eq take_bit_int_eq_self drop_bit_eq_div [of 8 "uint crc"])
  have "uint crc div 256 < 256"
    using uint_lt2p [of crc] by simp
  then have hi: "take_bit 8 (uint (drop_bit 8 crc)) = uint (drop_bit 8 crc)"
    using take_bit_int_eq_self [of "uint crc div 256" 8]
    by (simp add: d pos_imp_zdiv_nonneg_iff)
  have lo: "take_bit 8 (signed_take_bit 7 (of_char c :: int)) = of_char c"
    using of_char_int_bounds by (simp add: take_bit_signed_take_bit take_bit_int_eq_self)
  have "uint (of_char c :: u16) = of_char c"
    using of_char_int_bounds [of c] take_bit_int_eq_self [of "of_char c" 16]
    by (subst of_int_of_char [symmetric]) (simp add: unsigned_of_int of_nat_of_char)
  then have "uint (drop_bit 8 crc XOR of_char c :: u16)
      = (uint (drop_bit 8 crc) XOR signed_take_bit 7 (of_char c)) AND 0x00FF"
    unfolding and_FF_take_bit take_bit_xor hi lo by (simp add: unsigned_xor_eq)
  then show ?thesis by (simp only: crc16_index_def unat_eq_nat_uint)
qed

lemma crc16_step_eq_ref: "crc16_step crc c = crc16_ref_step crc c"
proof -
  define h where "h = (drop_bit 8 crc XOR of_char c :: u16)"
  define l where "l = (take_bit 8 crc :: u16)"
  have split: "crc XOR push_bit 8 (of_char c) = push_bit 8 h XOR l"
    unfolding h_def l_def
    by (rule bit_word_eqI) (auto simp: bit_simps)
  have "crc16tab ! crc16_index crc c = (crc16_bit ^^ 8) (push_bit 8 h)"
    using crc16tab_nth [OF crc16_index_less] by (simp add: crc16_index_eq h_def)
  moreover have "(crc16_bit ^^ 8) l = push_bit 8 l"
    by (rule crc16_bit_pow_low) (auto simp: l_def bit_take_bit_iff)
  moreover have "push_bit 8 l = push_bit 8 crc"
    unfolding l_def by (rule bit_word_eqI) (auto simp: bit_simps)
  ultimately show ?thesis
    by (simp add: crc16_step_def crc16_ref_step_def split crc16_bit_pow_xor ac_simps)
qed

lemma crc16_foldl_eq: "foldl crc16_step a buf = foldl crc16_ref_step a buf"
  by (induction buf arbitrary: a) (simp_all add: crc16_step_eq_ref)

declare scan_char.simps [simp del]

lemma scan_char_append:
  assumes "ch \<notin> set t"
  shows "scan_char ch (a @ t @ ch # b) (length a) = length a + length t"
  using assms
proof (induction t arbitrary: a)
  case Nil
  then show ?case by (simp add: scan_char.simps nth_append)
next
  case (Cons c t)
  then have "scan_char ch ((a @ [c]) @ t @ ch # b) (length (a @ [c])) = length (a @ [c]) + length t"
    by (intro Cons.IH) simp
  then show ?case using Cons.prems
    by (subst scan_char.simps) (auto simp: nth_append)
qed

lemma scan_char_none:
  assumes "ch \<notin> set t"
  shows "scan_char ch (a @ t) (length a) = length a + length t"
  using assms
proof (induction t arbitrary: a)
  case Nil
  then show ?case by (simp add: scan_char.simps)
next
  case (Cons c t)
  then have "scan_char ch ((a @ [c]) @ t) (length (a @ [c])) = length (a @ [c]) + length t"
    by (intro Cons.IH) simp
  then show ?case using Cons.prems
    by (subst scan_char.simps) (auto simp: nth_append)
qed

lemma slot_mask_less: "unat (ucast (w AND 0x3FFF :: u16) :: u32) < 16384"
proof -
  have "w AND 0x3FFF = take_bit 14 w"
    by (simp add: take_bit_eq_mask mask_eq_exp_minus_1)
  then have "unat (w AND 0x3FFF) < 2 ^ 14"
    using take_bit_nat_less_exp [of 14 "unat w"] by (simp add: unsigned_take_bit_eq)
  then show ?thesis
    by (simp add: unsigned_ucast_eq take_bit_nat_eq_self)
qed

lemma keyHashSlot_tag:
  assumes "CHR ''{'' \<notin> set a" and "CHR ''}'' \<notin> set t" and "t \<noteq> []"
  shows "keyHashSlot (a @ CHR ''{'' # t @ CHR ''}'' # b) = ucast (crc16 t AND 0x3FFF)"
proof -
  let ?k = "a @ CHR ''{'' # t @ CHR ''}'' # b"
  have s: "scan_char CHR ''{'' ?k 0 = length a"
    using scan_char_append [OF assms(1), of "[]"] by simp
  have e: "scan_char CHR ''}'' ?k (length a + 1) = length a + 1 + length t"
    using scan_char_append [OF assms(2), of "a @ [CHR ''{'']" b] by simp
  show ?thesis
    using assms(3) by (simp add: keyHashSlot_def s e [unfolded add_Suc_right One_nat_def add_0_right] Let_def)
qed

lemma keyHashSlot_no_open:
  assumes "CHR ''{'' \<notin> set key"
  shows "keyHashSlot key = ucast (crc16 key AND 0x3FFF)"
  using scan_char_none [OF assms, of "[]"] by (simp add: keyHashSlot_def)

lemma keyHashSlot_no_close:
  assumes "CHR ''{'' \<notin> set a" and "CHR ''}'' \<notin> set b"
  shows "keyHashSlot (a @ CHR ''{'' # b) = ucast (crc16 (a @ CHR ''{'' # b) AND 0x3FFF)"
  using scan_char_append [OF assms(1), of "[]" b] scan_char_none [OF assms(2), of "a @ [CHR ''{'']"]
  by (simp add: keyHashSlot_def)

lemma keyHashSlot_empty_tag:
  assumes "CHR ''{'' \<notin> set a"
  shows "keyHashSlot (a @ CHR ''{'' # CHR ''}'' # b)
    = ucast (crc16 (a @ CHR ''{'' # CHR ''}'' # b) AND 0x3FFF)"
  using scan_char_append [OF assms(1), of "[]"]
    scan_char_append [of "CHR ''}''" "[]" "a @ [CHR ''{'']" b]
  by (simp add: keyHashSlot_def)


lemma dropWhile_first: "ch \<notin> set a \<Longrightarrow> dropWhile (\<lambda>c. c \<noteq> ch) (a @ ch # r) = ch # r"
  by (induction a) auto

lemma takeWhile_first: "ch \<notin> set a \<Longrightarrow> takeWhile (\<lambda>c. c \<noteq> ch) (a @ ch # r) = a"
  by (induction a) auto

lemma dropWhile_none: "ch \<notin> set a \<Longrightarrow> dropWhile (\<lambda>c. c \<noteq> ch) a = []"
  by (induction a) auto

lemma keyHashSlot_hash_tag: "keyHashSlot key = ucast (crc16 (hash_tag key) AND 0x3FFF)"
proof (cases "CHR ''{'' \<in> set key")
  case False
  then show ?thesis by (simp add: keyHashSlot_no_open hash_tag_def dropWhile_none)
next
  case True
  then obtain a r where key: "key = a @ CHR ''{'' # r" and a: "CHR ''{'' \<notin> set a"
    by (meson split_list_first)
  show ?thesis
  proof (cases "CHR ''}'' \<in> set r")
    case False
    then show ?thesis
      using a by (simp add: key keyHashSlot_no_close hash_tag_def dropWhile_first)
  next
    case True
    then obtain t b where r: "r = t @ CHR ''}'' # b" and t: "CHR ''}'' \<notin> set t"
      by (meson split_list_first)
    show ?thesis
      using a t keyHashSlot_tag [OF a t] keyHashSlot_empty_tag [OF a]
      by (cases "t = []")
        (simp_all add: key r hash_tag_def dropWhile_first takeWhile_first Let_def)
  qed
qed

section \<open>Properties\<close>

text \<open>C24. The table-driven CRC of \<^verbatim>\<open>crc16.c\<close> is CRC-16/XMODEM: for every buffer it returns
  what the bit-by-bit shift register with polynomial \<open>0x1021\<close> returns, so every one of the
  256 entries of \<^verbatim>\<open>crc16tab\<close> is right.\<close>

theorem crc16_eq_ref: "crc16 buf = crc16_ref buf"
  by (simp add: crc16_def crc16_ref_def crc16_foldl_eq)

text \<open>C23. The slot of a key is the CRC-16 of its hash tag modulo 16384, for every key: with no
  \<^verbatim>\<open>{\<close>, no \<^verbatim>\<open>}\<close> after it or nothing between the two the whole key is hashed, otherwise only
  the tag; and a slot is always below \<^verbatim>\<open>REDIS_CLUSTER_SLOTS\<close>.\<close>

theorem keyHashSlot_spec:
  "keyHashSlot key = ucast (crc16_ref (hash_tag key) AND 0x3FFF) \<and> unat (keyHashSlot key) < 16384"
  by (simp add: keyHashSlot_hash_tag slot_mask_less crc16_def crc16_ref_def crc16_foldl_eq)

end
