(* ===== verification/Fragment.thy ===== *)
theory Fragment
  imports Command_Roundtrip Crc16 Hiutil
begin

text \<open>
  How the cluster client of \<^verbatim>\<open>src/hircluster.c\<close> splits a command with several keys into one command
  per hash slot (\<^verbatim>\<open>command_pre_fragment\<close>, \<^verbatim>\<open>command_format_by_slot\<close>). The array \<^verbatim>\<open>sub_commands\<close> is a
  function from slots, a pointer to a sub command is its slot, and \<^verbatim>\<open>frag_seq\<close> is the list of the
  slots of the keys. The buffer \<^verbatim>\<open>num_str\<close> lives through the whole function, as in the code. The
  bytes behind the end of the given command are not the client's to read: touching them is a fault.
\<close>

section \<open>Sub commands\<close>

abbreviation (input) REDIS_CLUSTER_SLOTS :: nat where "REDIS_CLUSTER_SLOTS \<equiv> 16384"

type_synonym cluster_error = "int \<times> bytes"

abbreviation (input) err_oom :: cluster_error where "err_oom \<equiv> (5, ''Out of memory'')"

record sub_cmd = cmd +
  sc_clen :: nat

definition slice :: "bytes \<Rightarrow> nat \<Rightarrow> nat \<Rightarrow> bytes c_res" where
  "slice t start n = (if start + n \<le> length t then Inr (take n (drop start t)) else Inl OutOfBounds)"

definition c_strlen :: "bytes \<Rightarrow> nat c_res" where
  "c_strlen s = (if NUL \<in> set s then Inr (length (cstr s)) else Inl OutOfBounds)"

text \<open>The value of an MSET pair: the length after the key is read from its digits.\<close>

function skip_to_digit :: "bytes \<Rightarrow> nat \<Rightarrow> nat c_res" where
  "skip_to_digit t p =
     bind_c (rd t p) (\<lambda>c. if isdigit c then Inr p else skip_to_digit t (Suc p))"
  by pat_completeness auto
termination
  by (relation "measure (\<lambda>(t, p). length t - p)") (auto simp: rd_Inr_iff)

function read_len :: "bytes \<Rightarrow> nat \<Rightarrow> nat \<Rightarrow> (nat \<times> nat) c_res" where
  "read_len t p len =
     bind_c (rd t p) (\<lambda>c. if isdigit c then read_len t (Suc p) (run_digit len c) else Inr (len, p))"
  by pat_completeness auto
termination
  by (relation "measure (\<lambda>(t, p, len). length t - p)") (auto simp: rd_Inr_iff)

declare skip_to_digit.simps [simp del] read_len.simps [simp del]

definition mset_remain :: "bytes \<Rightarrow> nat \<Rightarrow> nat c_res" where
  "mset_remain t e =
     bind_c (skip_to_digit t (e + 1)) (\<lambda>p.
       bind_c (read_len t p 0) (\<lambda>(len, p).
         Inr (uint32 (int (uint32 (int (len + 4))) + int (p - e)))))"

section \<open>Distributing the keys\<close>

record frag =
  fr_id :: u64
  fr_subs :: "nat \<Rightarrow> sub_cmd option"
  fr_seq :: "nat list"
  fr_slot :: int

definition sub_get :: "mem \<Rightarrow> frag \<Rightarrow> nat \<Rightarrow> frag \<times> sub_cmd option" where
  "sub_get M F slot =
     (case fr_subs F slot of
        Some sc \<Rightarrow> (F, Some sc)
      | None \<Rightarrow>
          (case command_get M (fr_id F) of
             (i, None) \<Rightarrow> (F\<lparr>fr_id := i\<rparr>, None)
           | (i, Some c) \<Rightarrow> (F\<lparr>fr_id := i\<rparr>, Some (cmd.extend c (sub_cmd.fields 0)))))"

definition kp_len :: "keypos \<Rightarrow> nat" where
  "kp_len kp = uint32 (int (kp_end kp) - int (kp_start kp))"

definition frag_add :: "mem \<Rightarrow> cmd_type \<Rightarrow> bytes \<Rightarrow> frag \<Rightarrow> nat \<Rightarrow> sub_cmd \<Rightarrow> keypos \<Rightarrow> (cluster_error option \<times> frag) c_res" where
  "frag_add M t text F slot sc kp =
     (let sc = sc\<lparr>c_narg := uint32 (int (c_narg sc + 1))\<rparr>;
          F = F\<lparr>fr_seq := fr_seq F @ [slot], fr_subs := (fr_subs F)(slot := Some sc)\<rparr> in
      case hiarray_push M (c_keys sc) of
        None \<Rightarrow> Inr (Some err_oom, F\<lparr>fr_slot := -1\<rparr>)
      | Some (keys, i) \<Rightarrow>
          bind_c (if t = CMD_REQ_REDIS_MSET then bind_c (mset_remain text (kp_end kp)) (\<lambda>n. Inr (Some n)) else Inr None) (\<lambda>rem.
            bind_c (ha_write keys i \<lparr>kp_start = kp_start kp, kp_end = kp_end kp, kp_remain_len = rem\<rparr>) (\<lambda>keys.
              let clen = uint32 (int (sc_clen sc + kp_len kp + uint_len (kp_len kp)));
                  clen = (case rem of None \<Rightarrow> clen | Some n \<Rightarrow> uint32 (int (clen + n)))
              in Inr (None, F\<lparr>fr_subs := (fr_subs F)(slot := Some (sc\<lparr>c_keys := keys, sc_clen := clen,
                        c_slot_num := int slot\<rparr>))\<rparr>))))"

definition frag_key :: "mem \<Rightarrow> cmd_type \<Rightarrow> bytes \<Rightarrow> frag \<Rightarrow> keypos \<Rightarrow> (cluster_error option \<times> frag) c_res" where
  "frag_key M t text F kp =
     bind_c (slice text (kp_start kp) (kp_end kp - kp_start kp)) (\<lambda>key.
       let slot = unat (keyHashSlot key); F = F\<lparr>fr_slot := int slot\<rparr> in
       if REDIS_CLUSTER_SLOTS \<le> slot then Inr (Some (2, ''keyHashSlot return error''), F)
       else
         (case sub_get M F slot of
            (F, None) \<Rightarrow> Inr (Some err_oom, F\<lparr>fr_slot := -1\<rparr>)
          | (F, Some sc) \<Rightarrow> frag_add M t text F slot sc kp))"

fun frag_keys :: "mem \<Rightarrow> cmd_type \<Rightarrow> bytes \<Rightarrow> keypos hiarray \<Rightarrow> frag \<Rightarrow> nat list \<Rightarrow> (cluster_error option \<times> frag) c_res" where
  "frag_keys M t text keys F [] = Inr (None, F)"
| "frag_keys M t text keys F (i # is) =
     bind_c (ha_read keys (hiarray_get keys i)) (\<lambda>kp.
       bind_c (frag_key M t text F kp) (\<lambda>(e, F).
         case e of None \<Rightarrow> frag_keys M t text keys F is | Some _ \<Rightarrow> Inr (e, F)))"

section \<open>Writing the commands\<close>

text \<open>\<open>ns\<close> is \<^verbatim>\<open>num_str\<close>: the digits copied are those in front of its first NUL.\<close>

definition emit_num :: "bytes \<Rightarrow> int \<Rightarrow> (bytes \<times> bytes) c_res" where
  "emit_num ns n =
     bind_c (hi_itoa ns n) (\<lambda>ns. bind_c (c_strlen ns) (\<lambda>k. Inr (ns, take k ns)))"

definition put :: "bytes \<times> nat \<Rightarrow> bytes \<Rightarrow> (bytes \<times> nat) c_res" where
  "put = (\<lambda>(b, idx) t. bind_c (memcpy b idx t) (\<lambda>b. Inr (b, idx + length t)))"

definition emit_key :: "cmd_type \<Rightarrow> bytes \<Rightarrow> bytes \<Rightarrow> bytes \<times> nat \<Rightarrow> keypos \<Rightarrow> (bytes \<times> bytes \<times> nat) c_res" where
  "emit_key t text ns out kp =
     bind_c (emit_num ns (int32 (int (kp_len kp)))) (\<lambda>(ns, d).
       bind_c (put out ''$'') (\<lambda>out.
         bind_c (put out d) (\<lambda>out.
           bind_c (put out CRLF) (\<lambda>out.
             if t = CMD_REQ_REDIS_MSET then
               (case kp_remain_len kp of
                  None \<Rightarrow> Inl Uninit
                | Some rem \<Rightarrow>
                    bind_c (slice text (kp_start kp) (uint32 (int (kp_len kp + rem)))) (\<lambda>k.
                      bind_c (put out k) (\<lambda>out. Inr (ns, out))))
             else
               bind_c (slice text (kp_start kp) (kp_len kp)) (\<lambda>k.
                 bind_c (put out k) (\<lambda>out.
                   bind_c (put out CRLF) (\<lambda>out. Inr (ns, out))))))))"

fun emit_keys :: "cmd_type \<Rightarrow> bytes \<Rightarrow> keypos hiarray \<Rightarrow> bytes \<Rightarrow> bytes \<times> nat \<Rightarrow> nat list \<Rightarrow> (bytes \<times> bytes \<times> nat) c_res" where
  "emit_keys t text keys ns out [] = Inr (ns, out)"
| "emit_keys t text keys ns out (j # js) =
     bind_c (ha_read keys (hiarray_get keys j)) (\<lambda>kp.
       bind_c (emit_key t text ns out kp) (\<lambda>(ns, out). emit_keys t text keys ns out js))"

text \<open>The bytes per argument counted so far, the new number of arguments, and the header.\<close>

definition frag_shape :: "cmd_type \<Rightarrow> (nat \<times> nat \<times> bytes) option" where
  "frag_shape t =
     (if t = CMD_REQ_REDIS_MGET then Some (5, 1, CRLF @ ''$4'' @ CRLF @ ''mget'' @ CRLF)
      else if t = CMD_REQ_REDIS_DEL then Some (5, 1, CRLF @ ''$3'' @ CRLF @ ''del'' @ CRLF)
      else if t = CMD_REQ_REDIS_MSET then Some (3, 2, CRLF @ ''$4'' @ CRLF @ ''mset'' @ CRLF)
      else None)"

text \<open>
  One sub command; \<open>None\<close> when its buffer is refused. For any other type \<^verbatim>\<open>NOT_REACHED()\<close> is empty in
  the default build and no text is written.
\<close>

definition emit_cmd :: "mem \<Rightarrow> cmd_type \<Rightarrow> bytes \<Rightarrow> bytes \<Rightarrow> sub_cmd \<Rightarrow> (bytes \<times> sub_cmd option) c_res" where
  "emit_cmd M t text ns sc =
     (case frag_shape t of
        None \<Rightarrow> Inr (ns, Some (sc\<lparr>c_type := t\<rparr>))
      | Some (per, k, header) \<Rightarrow>
          (let clen = uint32 (int (sc_clen sc + per * c_narg sc));
               narg = uint32 (int (uint32 (int (c_narg sc * k)) + 1)) in
           bind_c (emit_num ns (int32 (int narg))) (\<lambda>(ns, d).
             let clen = uint32 (int (clen + (1 + length header) + length d)) in
             if \<not> mem_ok M clen then Inr (ns, None)
             else
               bind_c (put (replicate clen NUL, 0) ''*'') (\<lambda>out.
                 bind_c (put out d) (\<lambda>out.
                   bind_c (put out header) (\<lambda>out.
                     bind_c (emit_keys t text (c_keys sc) ns out [0..<ha_nelem (c_keys sc)]) (\<lambda>(ns, b, idx).
                       Inr (ns, Some (sc\<lparr>c_cmd := b, sc_clen := clen, c_narg := narg, c_type := t\<rparr>)))))))))"

text \<open>The list node of a finished sub command is allocated without looking at the result.\<close>

fun emit_cmds :: "mem \<Rightarrow> cmd_type \<Rightarrow> bytes \<Rightarrow> (nat \<Rightarrow> sub_cmd option) \<Rightarrow> bytes \<Rightarrow> sub_cmd list \<Rightarrow> nat list \<Rightarrow>
    (cluster_error option \<times> sub_cmd list) c_res" where
  "emit_cmds M t text subs ns commands [] = Inr (None, commands)"
| "emit_cmds M t text subs ns commands (s # ss) =
     (case subs s of
        None \<Rightarrow> emit_cmds M t text subs ns commands ss
      | Some sc \<Rightarrow>
          bind_c (emit_cmd M t text ns sc) (\<lambda>(ns, r).
            case r of
              None \<Rightarrow> Inr (Some err_oom, commands)
            | Some sc \<Rightarrow> emit_cmds M t text subs ns (if mem_ok M 24 then commands @ [sc] else commands) ss))"

section \<open>The whole function\<close>

record frag_result =
  fp_ret :: int
  fp_id :: u64
  fp_command :: cmd
  fp_seq :: "nat list option"
  fp_commands :: "sub_cmd list"
  fp_err :: "cluster_error option"

definition frag_done :: "frag_result \<Rightarrow> frag_result" where
  "frag_done R =
     (if fp_ret R \<ge> 0 \<and> length (fp_commands R) = 1
      then R\<lparr>fp_commands := [], fp_seq := None, fp_command := (fp_command R)\<lparr>c_slot_num := fp_ret R\<rparr>\<rparr>
      else R)"

definition command_pre_fragment :: "mem \<Rightarrow> u64 \<Rightarrow> cmd \<Rightarrow> frag_result c_res" where
  "command_pre_fragment M i command =
     (let keys = c_keys command; n = ha_nelem keys; text = c_cmd command; t = c_type command;
          R = \<lparr>fp_ret = -1, fp_id = i, fp_command = command, fp_seq = None, fp_commands = [], fp_err = None\<rparr> in
      if \<not> mem_ok M (REDIS_CLUSTER_SLOTS * 8) then Inr (frag_done (R\<lparr>fp_err := Some err_oom\<rparr>))
      else if \<not> mem_ok M (size64 (int (n * 8))) then Inr (frag_done (R\<lparr>fp_err := Some err_oom\<rparr>))
      else
        bind_c (frag_keys M t text keys \<lparr>fr_id = i, fr_subs = (\<lambda>_. None), fr_seq = [], fr_slot = -1\<rparr> [0..<n]) (\<lambda>(e, F).
          let R = R\<lparr>fp_ret := fr_slot F, fp_id := fr_id F, fp_seq := Some (fr_seq F)\<rparr> in
          case e of
            Some err \<Rightarrow> Inr (frag_done (R\<lparr>fp_err := Some err\<rparr>))
          | None \<Rightarrow>
              bind_c (emit_cmds M t text (fr_subs F) (map (mem_junk M) [0..<12]) [] [0..<REDIS_CLUSTER_SLOTS]) (\<lambda>(e, commands).
                Inr (frag_done (R\<lparr>fp_commands := commands, fp_err := e,
                  fp_ret := (case e of None \<Rightarrow> fr_slot F | Some _ \<Rightarrow> -1)\<rparr>)))))"

definition command_format_by_slot :: "mem \<Rightarrow> u64 \<Rightarrow> cmd \<Rightarrow> frag_result c_res" where
  "command_format_by_slot M i command =
     (let R = (\<lambda>r ret e. \<lparr>fp_ret = ret, fp_id = i, fp_command = r, fp_seq = None, fp_commands = [], fp_err = e\<rparr>) in
      if c_cmd command = [] then Inr (R command (-1) None)
      else
        bind_c (redis_parse_cmd M command) (\<lambda>r.
          if c_result r = CMD_PARSE_ENOMEM then Inr (R r (-1) (Some (4, ''Parse command error: out of memory'')))
          else if c_result r \<noteq> CMD_PARSE_OK then
            (case c_errstr r of None \<Rightarrow> Inl AssertFailed | Some s \<Rightarrow> Inr (R r (-1) (Some (4, s))))
          else if ha_nelem (c_keys r) = 0 then
            Inr (R r (-1) (Some (2, ''No keys in command(must have keys for redis cluster mode)'')))
          else if ha_nelem (c_keys r) = 1 then
            bind_c (ha_read (c_keys r) (hiarray_get (c_keys r) 0)) (\<lambda>kp.
              bind_c (slice (c_cmd r) (kp_start kp) (kp_end kp - kp_start kp)) (\<lambda>key.
                let slot = int (unat (keyHashSlot key)) in Inr (R (r\<lparr>c_slot_num := slot\<rparr>) slot None)))
          else command_pre_fragment M i r))"

section \<open>Reading and writing single pieces\<close>

definition slot_of :: "bytes \<Rightarrow> nat" where
  "slot_of key = unat (keyHashSlot key)"

lemma slot_of_less: "slot_of key < REDIS_CLUSTER_SLOTS"
  by (simp add: slot_of_def keyHashSlot_hash_tag slot_mask_less)

lemma skip_to_digit_at:
  "list_all (\<lambda>c. \<not> isdigit c) a \<Longrightarrow> isdigit d \<Longrightarrow>
    skip_to_digit (pre @ a @ d # post) (length pre) = Inr (length pre + length a)"
proof (induction a arbitrary: pre)
  case Nil
  then show ?case by (simp add: skip_to_digit.simps [of _ "length pre"])
next
  case (Cons c a)
  show ?case using Cons.prems Cons.IH [of "pre @ [c]"] by (simp add: skip_to_digit.simps [of _ "length pre"])
qed

lemma read_len_at:
  "list_all isdigit ds \<Longrightarrow> \<not> isdigit c \<Longrightarrow>
    read_len (pre @ ds @ c # post) (length pre) n = Inr (foldl run_digit n ds, length pre + length ds)"
proof (induction ds arbitrary: pre n)
  case Nil
  then show ?case by (simp add: read_len.simps [of _ "length pre"])
next
  case (Cons d ds)
  show ?case
    using Cons.prems Cons.IH [of "pre @ [d]"] by (simp add: read_len.simps [of _ "length pre"])
qed

lemma mset_remain_at:
  assumes "text = pre @ CRLF @ bulk v @ post" "length v + 32 < 2 ^ 32"
  shows "mset_remain text (length pre) = Inr (length (CRLF @ bulk v))"
proof -
  let ?ds = "dec (length v)"
  obtain d ds where d: "?ds = d # ds" "isdigit d" using dec_hd_digit [of "length v"] by (cases ?ds) auto
  have t: "text = (pre @ [CR]) @ [LF, CHR ''$''] @ d # (ds @ CR # LF # v @ CRLF @ post)"
    and t2: "text = (pre @ CRLF @ ''$'') @ ?ds @ CR # (LF # v @ CRLF @ post)"
    using assms(1) d(1) by (simp_all add: bulk_def)
  have 1: "skip_to_digit text (length pre + 1) = Inr (length (pre @ CRLF @ ''$''))"
    using skip_to_digit_at [of "[LF, CHR ''$'']" d "pre @ [CR]" "ds @ CR # LF # v @ CRLF @ post", folded t] d(2) by simp
  have 2: "read_len text (length (pre @ CRLF @ ''$'')) 0 = Inr (length v, length (pre @ CRLF @ ''$'') + length ?ds)"
    using read_len_at [of ?ds CR "pre @ CRLF @ ''$''" "LF # v @ CRLF @ post" 0, folded t2] assms(2) by (simp add: foldl_run_digit_dec)
  have "length ?ds \<le> 10" using assms(2) by (intro length_dec_le) simp_all
  then show ?thesis
    unfolding mset_remain_def 1 bind_c_simps 2 prod.case using assms(2)
    by (simp add: length_bulk uint32_id nat_add_distrib)
qed

lemma emit_num_ok:
  assumes "0 < n" "n < 2 ^ 31" "length ns = 12"
  shows "\<exists>ns'. emit_num ns (int32 (int n)) = Inr (ns', dec n) \<and> length ns' = 12 \<and> NUL \<in> set ns' \<and> cstr ns' = dec n"
proof -
  have "length (dec n) \<le> 10" using assms(2) by (intro length_dec_le) simp_all
  then obtain t where "hi_itoa ns (int n) = Inr (dec n @ NUL # t)" "length (dec n @ NUL # t) = 12"
    using hi_itoa_nat [OF assms(1,2), of ns] assms(3) by auto
  moreover have "int32 (int n) = int n" using assms(2) by (intro int32_id) auto
  ultimately show ?thesis by (simp add: emit_num_def c_strlen_def)
qed

text \<open>A buffer that is written from its start on.\<close>

definition filled :: "nat \<Rightarrow> bytes \<Rightarrow> bytes \<times> nat" where
  "filled n w = (w @ replicate (n - length w) NUL, length w)"

lemma put_filled: "length w + length t \<le> n \<Longrightarrow> put (filled n w) t = Inr (filled n (w @ t))"
  by (simp add: put_def filled_def memcpy_def)
section \<open>One sub command\<close>

text \<open>
  \<open>args\<close> are the arguments that belong to one key: the key, and for MSET its value. \<open>key_tail\<close> is
  what the code copies behind the key.
\<close>

definition key_tail :: "cmd_type \<Rightarrow> bytes list \<Rightarrow> bytes" where
  "key_tail t args = (if t = CMD_REQ_REDIS_MSET then CRLF @ concat (map bulk (tl args)) else [])"

definition kp_args :: "cmd_type \<Rightarrow> bytes \<Rightarrow> keypos \<Rightarrow> bytes list \<Rightarrow> bool" where
  "kp_args t text kp args \<longleftrightarrow> kp_start kp \<le> length text \<and> kp_end kp = kp_start kp + length (hd args) \<and>
     length args = (if t = CMD_REQ_REDIS_MSET then 2 else 1) \<and>
     (\<exists>post. drop (kp_start kp) text = hd args @ key_tail t args @ post)"

definition sub_kp :: "cmd_type \<Rightarrow> bytes \<Rightarrow> keypos \<Rightarrow> bytes list \<Rightarrow> bool" where
  "sub_kp t text kp args \<longleftrightarrow> kp_args t text kp args \<and>
     kp_remain_len kp = (if t = CMD_REQ_REDIS_MSET then Some (length (key_tail t args)) else None)"

lemma kp_args_cases:
  assumes "kp_args t text kp args"
  obtains (mset) k v where "t = CMD_REQ_REDIS_MSET" "args = [k, v]" "key_tail t args = CRLF @ bulk v"
  | (other) k where "t \<noteq> CMD_REQ_REDIS_MSET" "args = [k]" "key_tail t args = []"
proof (cases "t = CMD_REQ_REDIS_MSET")
  case True
  then obtain k v where "args = [k, v]" using assms by (auto simp: kp_args_def length_Suc_conv numeral_2_eq_2)
  then show thesis using True mset by (simp add: key_tail_def)
next
  case False
  then obtain k where "args = [k]" using assms by (auto simp: kp_args_def length_Suc_conv)
  then show thesis using False other by (simp add: key_tail_def)
qed

lemma kp_args_slice:
  assumes "kp_args t text kp args"
  shows "slice text (kp_start kp) (length (hd args)) = Inr (hd args)"
    "slice text (kp_start kp) (length (hd args) + length (key_tail t args)) = Inr (hd args @ key_tail t args)"
    "length (hd args) + length (key_tail t args) \<le> length text"
proof -
  obtain post where p: "drop (kp_start kp) text = hd args @ key_tail t args @ post" "kp_start kp \<le> length text"
    using assms by (auto simp: kp_args_def)
  from arg_cong [OF p(1), of length]
  have "kp_start kp + length (hd args) + length (key_tail t args) \<le> length text" using p(2) by simp
  with p(1) show "slice text (kp_start kp) (length (hd args)) = Inr (hd args)"
    "slice text (kp_start kp) (length (hd args) + length (key_tail t args)) = Inr (hd args @ key_tail t args)"
    "length (hd args) + length (key_tail t args) \<le> length text"
    by (simp_all add: slice_def)
qed

lemma kp_len_args:
  assumes "kp_args t text kp args" "length text < 2 ^ 31"
  shows "kp_len kp = length (hd args)"
  using assms kp_args_slice(3) [OF assms(1)] by (simp add: kp_len_def kp_args_def uint32_id)

text \<open>The protocol text of these arguments.\<close>

abbreviation bulks :: "bytes list \<Rightarrow> bytes" where "bulks args \<equiv> concat (map bulk args)"

lemma bulks_key_tail:
  assumes "kp_args t text kp args"
  shows "bulks args = CHR ''$'' # dec (length (hd args)) @ CRLF @ hd args @ (if t = CMD_REQ_REDIS_MSET then key_tail t args else CRLF)"
  using assms by (cases rule: kp_args_cases) (simp_all add: bulk_def)

lemma emit_key_ok:
  assumes "sub_kp t text kp args" "length text < 2 ^ 31" "hd args \<noteq> []" "length ns = 12"
    "length w + length (bulks args) \<le> n"
  shows "\<exists>ns'. emit_key t text ns (filled n w) kp = Inr (ns', filled n (w @ bulks args)) \<and> length ns' = 12"
proof -
  have kp: "kp_args t text kp args" using assms(1) by (simp add: sub_kp_def)
  note k = kp_len_args [OF kp assms(2)] and sl = kp_args_slice [OF kp] and bt = bulks_key_tail [OF kp]
  obtain ns' where ns: "emit_num ns (int32 (int (length (hd args)))) = Inr (ns', dec (length (hd args)))" "length ns' = 12"
    using emit_num_ok [of "length (hd args)" ns] assms(2-4) sl(3) by auto
  show ?thesis
    using kp
  proof (cases rule: kp_args_cases)
    case (mset k v)
    have r: "kp_remain_len kp = Some (length (key_tail t args))" using assms(1) mset(1) by (simp add: sub_kp_def)
    have "uint32 (int (length (hd args) + length (key_tail t args))) = length (hd args) + length (key_tail t args)"
      using sl(3) assms(2) by (simp add: uint32_id)
    then show ?thesis using ns r sl(2) bt assms(5) mset(1) by (simp add: emit_key_def k put_filled)
  next
    case (other k)
    then show ?thesis using ns sl(1) bt assms(5) by (simp add: emit_key_def k put_filled)
  qed
qed

lemma emit_keys_ok:
  assumes "list_all2 (sub_kp t text) (map (\<lambda>j. ha_list keys ! j) js) argss" "ha_ok keys" "\<forall>j \<in> set js. j < ha_nelem keys"
    "length text < 2 ^ 31" "\<forall>args \<in> set argss. hd args \<noteq> []" "length ns = 12"
    "length w + length (bulks (concat argss)) \<le> n"
  shows "\<exists>ns'. emit_keys t text keys ns (filled n w) js = Inr (ns', filled n (w @ bulks (concat argss))) \<and> length ns' = 12"
  using assms(1,3,5-)
proof (induction js arbitrary: argss ns w)
  case (Cons j js)
  then obtain args rest where a: "argss = args # rest" "sub_kp t text (ha_list keys ! j) args"
    "list_all2 (sub_kp t text) (map (\<lambda>j. ha_list keys ! j) js) rest"
    by (cases argss) auto
  obtain ns1 where e: "emit_key t text ns (filled n w) (ha_list keys ! j) = Inr (ns1, filled n (w @ bulks args))" "length ns1 = 12"
    using emit_key_ok [OF a(2) assms(4), of ns w n] Cons.prems a(1) by auto
  obtain ns2 where "emit_keys t text keys ns1 (filled n (w @ bulks args)) js =
      Inr (ns2, filled n ((w @ bulks args) @ bulks (concat rest)))" "length ns2 = 12"
    using Cons.IH [OF a(3), of ns1 "w @ bulks args"] Cons.prems a(1) e(2) by auto
  then show ?case using e ha_read_list [OF assms(2), of j] Cons.prems(2) a(1) by simp
qed simp

text \<open>What the first loop leaves of a slot with these keys.\<close>

definition frag_clen :: "cmd_type \<Rightarrow> bytes list list \<Rightarrow> nat" where
  "frag_clen t argss =
     sum_list (map (\<lambda>args. length (hd args) + length (dec (length (hd args))) + length (key_tail t args)) argss)"

definition sub_rel :: "cmd_type \<Rightarrow> bytes \<Rightarrow> bytes list list \<Rightarrow> sub_cmd \<Rightarrow> bool" where
  "sub_rel t text argss sc \<longleftrightarrow> ha_ok (c_keys sc) \<and> list_all2 (sub_kp t text) (ha_list (c_keys sc)) argss \<and>
     c_narg sc = length argss \<and> sc_clen sc = frag_clen t argss"

definition frag_name :: "cmd_type \<Rightarrow> bytes" where
  "frag_name t =
     (if t = CMD_REQ_REDIS_MGET then ''mget'' else if t = CMD_REQ_REDIS_DEL then ''del'' else ''mset'')"

abbreviation (input) frag_type :: "cmd_type \<Rightarrow> bool" where
  "frag_type t \<equiv> t \<in> {CMD_REQ_REDIS_MGET, CMD_REQ_REDIS_DEL, CMD_REQ_REDIS_MSET}"

lemma dec_34: "dec (Suc (Suc (Suc (Suc 0)))) = ''4''" "dec (Suc (Suc (Suc 0))) = ''3''"
  by code_simp+

lemma frag_shape_eq:
  assumes "frag_type t"
  shows "frag_shape t = Some (if t = CMD_REQ_REDIS_MSET then 3 else 5, if t = CMD_REQ_REDIS_MSET then 2 else 1,
    CRLF @ bulk (frag_name t))"
  using assms by (auto simp: frag_shape_def frag_name_def bulk_def dec_34)

lemma length_bulks_frag:
  assumes "list_all2 (kp_args t text) kps argss"
  shows "length (bulks (concat argss)) = frag_clen t argss + (if t = CMD_REQ_REDIS_MSET then 3 else 5) * length argss \<and>
    length (concat argss) = length argss * (if t = CMD_REQ_REDIS_MSET then 2 else 1)"
  using assms
proof (induction rule: list_all2_induct)
  case (Cons kp kps args argss)
  from Cons(1) show ?case using Cons(3) bulks_key_tail [OF Cons(1)]
    by (cases rule: kp_args_cases) (simp_all add: frag_clen_def)
qed (simp add: frag_clen_def)

text \<open>A finished sub command: the protocol text of the arguments of its slot, in the order of the command.\<close>

definition sub_done :: "cmd_type \<Rightarrow> bytes list list \<Rightarrow> nat \<Rightarrow> sub_cmd \<Rightarrow> bool" where
  "sub_done t argss s sc \<longleftrightarrow> c_cmd sc = resp_cmd (frag_name t # concat argss) \<and> sc_clen sc = length (c_cmd sc) \<and>
     c_narg sc = length (frag_name t # concat argss) \<and> c_type sc = t \<and> c_slot_num sc = int s"

lemma emit_cmd_ok:
  assumes "sub_rel t text argss sc" "frag_type t" "length text < 2 ^ 31" "\<forall>args \<in> set argss. hd args \<noteq> []"
    "length ns = 12" "\<forall>n. mem_ok M n" "length (bulks (concat argss)) < 2 ^ 31" "c_slot_num sc = int s"
  shows "\<exists>ns' sc'. emit_cmd M t text ns sc = Inr (ns', Some sc') \<and> length ns' = 12 \<and> sub_done t argss s sc'"
proof -
  let ?k = "if t = CMD_REQ_REDIS_MSET then 2 else 1 :: nat" and ?per = "if t = CMD_REQ_REDIS_MSET then 3 else 5 :: nat"
  let ?name = "frag_name t" let ?n = "Suc (length (concat argss))" let ?text = "resp_cmd (?name # concat argss)"
  let ?m = "length ?text"
  have r: "ha_ok (c_keys sc)" "list_all2 (sub_kp t text) (ha_list (c_keys sc)) argss" "c_narg sc = length argss"
    "sc_clen sc = frag_clen t argss" using assms(1) by (simp_all add: sub_rel_def)
  have "list_all2 (kp_args t text) (ha_list (c_keys sc)) argss"
    using r(2) by (rule list_all2_mono) (simp add: sub_kp_def)
  note lens = length_bulks_frag [OF this]
  have nl: "?n < 2 ^ 31"
    using lens assms(7) by (cases "t = CMD_REQ_REDIS_MSET") auto
  have d10: "length (dec ?n) \<le> 10" using nl by (intro length_dec_le) simp_all
  have name: "length (bulk ?name) \<le> 10" by (simp add: length_bulk frag_name_def dec_small)
  have m: "?m = 1 + length (dec ?n) + length (CRLF @ bulk ?name) + length (bulks (concat argss))"
    by (simp add: resp_cmd_def)
  have u: "uint32 (int x) = x" if "x < 2 ^ 32" for x using that by (simp add: uint32_id)
  have narg: "uint32 (int (uint32 (int (c_narg sc * ?k)) + 1)) = ?n"
    using nl lens r(3) u [of "length (concat argss)"] u [of ?n] by (simp only: of_nat_Suc) simp
  have clen1: "uint32 (int (sc_clen sc + ?per * c_narg sc)) = length (bulks (concat argss))"
  proof -
    have "sc_clen sc + ?per * c_narg sc = length (bulks (concat argss))" using lens r(3,4) by simp
    then show ?thesis using u [of "length (bulks (concat argss))"] assms(7) by simp
  qed
  have clen2: "uint32 (int (length (bulks (concat argss)) + (1 + length (CRLF @ bulk ?name)) + length (dec ?n))) = ?m"
    using d10 name assms(7) unfolding m by (subst u) auto
  obtain ns1 where ns1: "emit_num ns (int32 (int ?n)) = Inr (ns1, dec ?n)" "length ns1 = 12"
    using emit_num_ok [OF _ nl assms(5)] by auto
  have head: "put (replicate ?m NUL, 0) ''*'' = Inr (filled ?m ''*'')"
    using put_filled [of "[]" "''*''" ?m] m by (simp add: filled_def)
  have idx: "map (\<lambda>j. ha_list (c_keys sc) ! j) [0..<ha_nelem (c_keys sc)] = ha_list (c_keys sc)"
    using map_nth [of "ha_list (c_keys sc)"] length_ha_list [OF r(1)] by simp
  let ?h = "''*'' @ dec ?n @ CRLF @ bulk ?name"
  obtain ns2 where ns2: "emit_keys t text (c_keys sc) ns1 (filled ?m ?h) [0..<ha_nelem (c_keys sc)] =
      Inr (ns2, filled ?m (?h @ bulks (concat argss)))" "length ns2 = 12"
    using emit_keys_ok [of t "text" "c_keys sc" "[0..<ha_nelem (c_keys sc)]" argss ns1 ?h ?m, unfolded idx, OF r(2,1) _ assms(3,4) ns1(2)] m
    by auto
  have full: "filled ?m (?h @ bulks (concat argss)) = (?text, ?m)"
    unfolding filled_def by (simp add: resp_cmd_def)
  have "emit_cmd M t text ns sc = Inr (ns2, Some (sc\<lparr>c_cmd := ?text, sc_clen := ?m, c_narg := ?n, c_type := t\<rparr>))"
    unfolding emit_cmd_def frag_shape_eq [OF assms(2)] option.case prod.case Let_def narg clen1 ns1 bind_c_simps clen2
    using assms(6) head ns2 full m by (simp add: put_filled del: concat_append map_append)
  then show ?thesis using ns2(2) assms(8) by (simp add: sub_done_def)
qed

section \<open>Both loops\<close>

definition on_slot :: "nat \<Rightarrow> bytes list list \<Rightarrow> bytes list list" where
  "on_slot s argss = filter (\<lambda>args. slot_of (hd args) = s) argss"

definition frag_inv :: "cmd_type \<Rightarrow> bytes \<Rightarrow> bytes list list \<Rightarrow> frag \<Rightarrow> bool" where
  "frag_inv t text argss F \<longleftrightarrow> fr_seq F = map (\<lambda>args. slot_of (hd args)) argss \<and>
     fr_slot F = (if argss = [] then -1 else int (slot_of (hd (last argss)))) \<and>
     (\<forall>s. fr_subs F s = None \<longrightarrow> on_slot s argss = []) \<and>
     (\<forall>s sc. fr_subs F s = Some sc \<longrightarrow>
        on_slot s argss \<noteq> [] \<and> sub_rel t text (on_slot s argss) sc \<and> c_slot_num sc = int s)"

lemma frag_clen_filter: "frag_clen t (filter P argss) \<le> frag_clen t argss"
  by (induction argss) (auto simp: frag_clen_def)

lemma frag_clen_append: "frag_clen t (as @ bs) = frag_clen t as + frag_clen t bs"
  by (simp add: frag_clen_def)

lemma push_write_append:
  assumes "ha_append M a x = Inr (Some b)"
  obtains a' i where "hiarray_push M a = Some (a', i)" "ha_write a' i x = Inr b"
  using assms by (auto simp: ha_append_def split: option.splits prod.splits)

lemma mset_remain_args:
  assumes "kp_args t text kp args" "t = CMD_REQ_REDIS_MSET" "length text < 2 ^ 31"
  shows "mset_remain text (kp_end kp) = Inr (length (key_tail t args))"
  using assms(1)
proof (cases rule: kp_args_cases)
  case (mset k v)
  obtain post where p: "drop (kp_start kp) text = k @ (CRLF @ bulk v) @ post" "kp_start kp \<le> length text" "kp_end kp = kp_start kp + length k"
    using assms(1) mset by (auto simp: kp_args_def)
  have "text = (take (kp_start kp) text @ k) @ CRLF @ bulk v @ post"
    using p(1) append_take_drop_id [of "kp_start kp" "text"] by simp
  moreover have "length v + 32 < 2 ^ 32"
    using kp_args_slice(3) [OF assms(1)] assms(3) mset by (simp add: length_bulk)
  ultimately have "mset_remain text (length (take (kp_start kp) text @ k)) = Inr (length (CRLF @ bulk v))"
    by (rule mset_remain_at)
  then show ?thesis using p(2,3) mset(3) by (simp add: min_absorb2)
qed (use assms in simp)

lemma frag_add_ok:
  assumes "sub_rel t text argss sc" "kp_args t text kp args" "length text < 2 ^ 31" "\<forall>n. mem_ok M n"
    "frag_clen t (argss @ [args]) < 2 ^ 31" "length argss < 2 ^ 31"
  shows "\<exists>sc'. frag_add M t text F s sc kp =
      Inr (None, F\<lparr>fr_seq := fr_seq F @ [s], fr_subs := (fr_subs F)(s := Some sc')\<rparr>) \<and>
    sub_rel t text (argss @ [args]) sc' \<and> c_slot_num sc' = int s"
proof -
  have r: "ha_ok (c_keys sc)" "list_all2 (sub_kp t text) (ha_list (c_keys sc)) argss" "c_narg sc = length argss"
    "sc_clen sc = frag_clen t argss" using assms(1) by (simp_all add: sub_rel_def)
  have ne: "ha_nelem (c_keys sc) < 2 ^ 31"
    using length_ha_list [OF r(1)] list_all2_lengthD [OF r(2)] assms(6) by simp
  let ?rem = "if t = CMD_REQ_REDIS_MSET then Some (length (key_tail t args)) else None"
  let ?kp = "\<lparr>kp_start = kp_start kp, kp_end = kp_end kp, kp_remain_len = ?rem\<rparr>"
  obtain keys where keys: "ha_append M (c_keys sc) ?kp = Inr (Some keys)" "ha_ok keys"
      "ha_list keys = ha_list (c_keys sc) @ [?kp]"
    using ha_append_law [OF r(1) ne, of M ?kp] assms(4) by blast
  from keys(1) obtain a i where a: "hiarray_push M (c_keys sc) = Some (a, i)" "ha_write a i ?kp = Inr keys"
    by (rule push_write_append)
  have rem: "(if t = CMD_REQ_REDIS_MSET then bind_c (mset_remain text (kp_end kp)) (\<lambda>n. Inr (Some n)) else Inr None) = Inr ?rem"
    using mset_remain_args [OF assms(2) _ assms(3)] by simp
  have u: "uint32 (int x) = x" if "x < 2 ^ 32" for x using that by (simp add: uint32_id)
  have kt: "t \<noteq> CMD_REQ_REDIS_MSET \<Longrightarrow> key_tail t args = []" by (simp add: key_tail_def)
  let ?c = "sc_clen sc + length (hd args) + uint_len (length (hd args))"
  have c: "frag_clen t (argss @ [args]) = ?c + length (key_tail t args)"
    by (simp add: frag_clen_def r(4) uint_len_dec)
  have clen: "(case ?rem of None \<Rightarrow> uint32 (int ?c) | Some n \<Rightarrow> uint32 (int (uint32 (int ?c) + n))) = frag_clen t (argss @ [args])"
    using u [of ?c] u [of "?c + length (key_tail t args)"] assms(5) c kt by (auto simp del: of_nat_add)
  have narg: "uint32 (int (c_narg sc + 1)) = length (argss @ [args])" using u [of "length argss + 1"] r(3) assms(6) by simp
  have kp': "sub_kp t text ?kp args" using assms(2) by (simp add: sub_kp_def kp_args_def)
  have "frag_add M t text F s sc kp = Inr (None, F\<lparr>fr_seq := fr_seq F @ [s], fr_subs := (fr_subs F)(s :=
      Some (sc\<lparr>c_narg := length (argss @ [args]), c_keys := keys, sc_clen := frag_clen t (argss @ [args]), c_slot_num := int s\<rparr>))\<rparr>)"
    using a(2) clen by (simp add: frag_add_def Let_def a(1) rem [simplified] narg [simplified] kp_len_args [OF assms(2,3)] del: of_nat_add)
  then show ?thesis
    by (intro exI conjI) (assumption, use keys r(2) kp' in \<open>simp_all add: sub_rel_def list_all2_append list_all2_lengthD\<close>)
qed
lemma sub_get_ok:
  assumes "frag_inv t text argss F" "\<forall>n. mem_ok M n"
  shows "\<exists>i sc. sub_get M (F\<lparr>fr_slot := x\<rparr>) s = (F\<lparr>fr_slot := x, fr_id := i\<rparr>, Some sc) \<and> sub_rel t text (on_slot s argss) sc"
proof (cases "fr_subs F s")
  case None
  then have e: "on_slot s argss = []" using assms(1) by (auto simp: frag_inv_def)
  obtain keys where k: "hiarray_create M 1 sizeof_keypos = Some (keys :: keypos hiarray)"
    using assms(2) by (simp add: hiarray_create_def hiarray_init_def)
  have ok: "ha_ok keys" "ha_list keys = []" using hiarray_create_ok [OF k] by auto
  show ?thesis
    using None k ok e assms(2)
    by (intro exI [of _ "fr_id F + 1"]) (simp add: sub_get_def command_get_def sub_rel_def frag_clen_def cmd.extend_def sub_cmd.fields_def)
next
  case (Some sc)
  then have "sub_rel t text (on_slot s argss) sc" using assms(1) by (auto simp: frag_inv_def)
  then show ?thesis using Some by (intro exI [of _ "fr_id F"] exI [of _ sc]) (simp add: sub_get_def)
qed

lemma frag_key_ok:
  assumes "frag_inv t text argss F" "kp_args t text kp args" "length text < 2 ^ 31" "\<forall>n. mem_ok M n"
    "frag_clen t (argss @ [args]) < 2 ^ 31" "length argss < 2 ^ 31"
  shows "\<exists>F'. frag_key M t text F kp = Inr (None, F') \<and> frag_inv t text (argss @ [args]) F'"
proof -
  let ?s = "slot_of (hd args)" let ?F = "F\<lparr>fr_slot := int ?s\<rparr>"
  have "kp_end kp - kp_start kp = length (hd args)" using assms(2) by (simp add: kp_args_def)
  then have key: "slice text (kp_start kp) (kp_end kp - kp_start kp) = Inr (hd args)"
    using kp_args_slice(1) [OF assms(2)] by simp
  obtain i sc where g: "sub_get M ?F ?s = (?F\<lparr>fr_id := i\<rparr>, Some sc)" "sub_rel t text (on_slot ?s argss) sc"
    using sub_get_ok [OF assms(1,4)] by blast
  have b: "frag_clen t (on_slot ?s argss @ [args]) < 2 ^ 31" "length (on_slot ?s argss) < 2 ^ 31"
    using assms(5,6) frag_clen_filter [of t "\<lambda>args. slot_of (hd args) = ?s" argss]
      length_filter_le [of "\<lambda>args. slot_of (hd args) = ?s" argss]
    unfolding on_slot_def frag_clen_append by linarith+
  obtain sc' where sc': "frag_add M t text (?F\<lparr>fr_id := i\<rparr>) ?s sc kp =
      Inr (None, ?F\<lparr>fr_id := i, fr_seq := fr_seq F @ [?s], fr_subs := (fr_subs F)(?s := Some sc')\<rparr>)"
      "sub_rel t text (on_slot ?s argss @ [args]) sc'" "c_slot_num sc' = int ?s"
    using frag_add_ok [OF g(2) assms(2-4) b, of "?F\<lparr>fr_id := i\<rparr>" ?s] by auto
  have "frag_key M t text F kp = Inr (None, ?F\<lparr>fr_id := i, fr_seq := fr_seq F @ [?s], fr_subs := (fr_subs F)(?s := Some sc')\<rparr>)"
    using g(1) sc'(1) slot_of_less [of "hd args"] by (simp add: frag_key_def key Let_def slot_of_def)
  moreover have "frag_inv t text (argss @ [args]) (?F\<lparr>fr_id := i, fr_seq := fr_seq F @ [?s], fr_subs := (fr_subs F)(?s := Some sc')\<rparr>)"
    using assms(1) sc'(2,3) unfolding frag_inv_def by (auto simp: on_slot_def)
  ultimately show ?thesis by blast
qed

lemma frag_keys_ok:
  assumes "list_all2 (kp_args t text) (map (\<lambda>j. ha_list keys ! j) js) argss" "ha_ok keys" "\<forall>j \<in> set js. j < ha_nelem keys"
    "length text < 2 ^ 31" "\<forall>n. mem_ok M n" "frag_inv t text done F"
    "frag_clen t (done @ argss) < 2 ^ 31" "length (done @ argss) < 2 ^ 31"
  shows "\<exists>F'. frag_keys M t text keys F js = Inr (None, F') \<and> frag_inv t text (done @ argss) F'"
  using assms(1,3,6-)
proof (induction js arbitrary: argss F "done")
  case (Cons j js)
  then obtain args rest where a: "argss = args # rest" "kp_args t text (ha_list keys ! j) args"
    "list_all2 (kp_args t text) (map (\<lambda>j. ha_list keys ! j) js) rest"
    by (cases argss) auto
  obtain F1 where F1: "frag_key M t text F (ha_list keys ! j) = Inr (None, F1)" "frag_inv t text (done @ [args]) F1"
    using frag_key_ok [OF Cons.prems(3) a(2) assms(4,5)] Cons.prems a(1) by (auto simp: frag_clen_append frag_clen_def)
  obtain F2 where "frag_keys M t text keys F1 js = Inr (None, F2)" "frag_inv t text ((done @ [args]) @ rest) F2"
    using Cons.IH [OF a(3) _ F1(2)] Cons.prems a(1) by auto
  then show ?case using F1 ha_read_list [OF assms(2), of j] Cons.prems(2) a(1) by simp
qed simp

lemma emit_cmds_ok:
  assumes "frag_inv t text argss F" "frag_type t" "length text < 2 ^ 31" "\<forall>args \<in> set argss. hd args \<noteq> []" "\<forall>n. mem_ok M n"
    "length (bulks (concat argss)) < 2 ^ 31" "length ns = 12"
  shows "\<exists>cs'. emit_cmds M t text (fr_subs F) ns cs ss = Inr (None, cs @ cs') \<and>
    list_all2 (\<lambda>s. sub_done t (on_slot s argss) s) (filter (\<lambda>s. on_slot s argss \<noteq> []) ss) cs'"
  using assms(7)
proof (induction ss arbitrary: ns cs)
  case (Cons s ss)
  show ?case
  proof (cases "fr_subs F s")
    case None
    then have "on_slot s argss = []" using assms(1) by (auto simp: frag_inv_def)
    then show ?thesis using None Cons by simp
  next
    case (Some sc)
    then have sc: "on_slot s argss \<noteq> []" "sub_rel t text (on_slot s argss) sc" "c_slot_num sc = int s"
      using assms(1) by (auto simp: frag_inv_def)
    have "length (bulks (concat (on_slot s argss))) \<le> length (bulks (concat argss))"
      unfolding on_slot_def by (induction argss) auto
    then obtain ns' sc' where e: "emit_cmd M t text ns sc = Inr (ns', Some sc')" "length ns' = 12" "sub_done t (on_slot s argss) s sc'"
      using emit_cmd_ok [OF sc(2) assms(2,3) _ Cons.prems assms(5) _ sc(3)] assms(4,6) by (auto simp: on_slot_def)
    obtain cs' where "emit_cmds M t text (fr_subs F) ns' (cs @ [sc']) ss = Inr (None, (cs @ [sc']) @ cs')"
      "list_all2 (\<lambda>s. sub_done t (on_slot s argss) s) (filter (\<lambda>s. on_slot s argss \<noteq> []) ss) cs'"
      using Cons.IH [OF e(2), of "cs @ [sc']"] by blast
    then show ?thesis using Some e(1,3) sc(1) assms(5) by auto
  qed
qed simp
section \<open>The whole split\<close>

definition used_slots :: "bytes list list \<Rightarrow> nat list" where
  "used_slots argss = filter (\<lambda>s. on_slot s argss \<noteq> []) [0..<REDIS_CLUSTER_SLOTS]"

text \<open>
  The contract of the split: with all keys in one slot the command stays whole and gets its slot;
  otherwise there is one finished sub command per slot, in the order of the slots, and \<^verbatim>\<open>frag_seq\<close> names
  the sub command of every key.
\<close>

definition split_ok :: "cmd \<Rightarrow> bytes list list \<Rightarrow> frag_result \<Rightarrow> bool" where
  "split_ok r argss R \<longleftrightarrow> fp_err R = None \<and> fp_ret R = int (slot_of (hd (last argss))) \<and>
     (if length (used_slots argss) = 1
      then fp_commands R = [] \<and> fp_seq R = None \<and> fp_command R = r\<lparr>c_slot_num := fp_ret R\<rparr>
      else list_all2 (\<lambda>s. sub_done (c_type r) (on_slot s argss) s) (used_slots argss) (fp_commands R) \<and>
        fp_seq R = Some (map (\<lambda>args. slot_of (hd args)) argss) \<and> fp_command R = r)"

lemma command_pre_fragment_ok:
  assumes "ha_ok (c_keys r)" "list_all2 (kp_args (c_type r) (c_cmd r)) (ha_list (c_keys r)) argss" "frag_type (c_type r)"
    "length (c_cmd r) < 2 ^ 31" "\<forall>args \<in> set argss. hd args \<noteq> []" "argss \<noteq> []" "\<forall>n. mem_ok M n"
    "length (bulks (concat argss)) < 2 ^ 31"
  shows "\<exists>R. command_pre_fragment M i r = Inr R \<and> split_ok r argss R"
proof -
  let ?t = "c_type r" and ?n = "ha_nelem (c_keys r)"
  let ?F0 = "\<lparr>fr_id = i, fr_subs = (\<lambda>_. None), fr_seq = [], fr_slot = -1\<rparr>"
  have idx: "map (\<lambda>j. ha_list (c_keys r) ! j) [0..<?n] = ha_list (c_keys r)"
    using map_nth [of "ha_list (c_keys r)"] length_ha_list [OF assms(1)] by simp
  have b: "frag_clen ?t argss < 2 ^ 31" "length argss < 2 ^ 31"
    using length_bulks_frag [OF assms(2)] assms(8) by (auto split: if_splits)
  obtain F where F: "frag_keys M ?t (c_cmd r) (c_keys r) ?F0 [0..<?n] = Inr (None, F)" "frag_inv ?t (c_cmd r) argss F"
    using frag_keys_ok [of ?t "c_cmd r" "c_keys r" "[0..<?n]" argss M "[]" ?F0, unfolded idx] assms(1,2,4,7) b
    by (auto simp: frag_inv_def on_slot_def)
  obtain cs where cs: "emit_cmds M ?t (c_cmd r) (fr_subs F) (map (mem_junk M) [0..<12]) [] [0..<REDIS_CLUSTER_SLOTS] = Inr (None, cs)"
      "list_all2 (\<lambda>s. sub_done ?t (on_slot s argss) s) (used_slots argss) cs"
    using emit_cmds_ok [OF F(2) assms(3,4,5,7,8), of "map (mem_junk M) [0..<12]" "[]" "[0..<REDIS_CLUSTER_SLOTS]"]
    unfolding used_slots_def by auto
  have ret: "fr_slot F = int (slot_of (hd (last argss)))" "fr_seq F = map (\<lambda>args. slot_of (hd args)) argss"
    using F(2) assms(6) by (simp_all add: frag_inv_def)
  have "command_pre_fragment M i r = Inr (frag_done \<lparr>fp_ret = fr_slot F, fp_id = fr_id F, fp_command = r, fp_seq = Some (fr_seq F),
      fp_commands = cs, fp_err = None\<rparr>)"
    using F(1) cs(1) assms(7) by (simp add: command_pre_fragment_def Let_def)
  then show ?thesis
    using cs(2) ret list_all2_lengthD [OF cs(2)] by (auto simp: split_ok_def frag_done_def)
qed

lemma filter_upt_single: "x < n \<Longrightarrow> filter (\<lambda>s. s = x) [0..<n] = [x]"
proof (induction n)
  case (Suc n)
  then show ?case by (cases "x < n") (auto simp: less_Suc_eq filter_empty_conv)
qed simp

lemma one_key_split:
  assumes "argss = [args]"
  shows "length (used_slots argss) = 1"
proof -
  have "used_slots argss = filter (\<lambda>s. s = slot_of (hd args)) [0..<REDIS_CLUSTER_SLOTS]"
    unfolding used_slots_def using assms by (intro filter_cong) (auto simp: on_slot_def)
  then show ?thesis unfolding filter_upt_single [OF slot_of_less] by simp
qed

text \<open>The arguments of a formatted command, grouped by key.\<close>

definition groups_ok :: "cmd_type \<Rightarrow> bytes list list \<Rightarrow> bool" where
  "groups_ok t argss \<longleftrightarrow> argss \<noteq> [] \<and>
     (\<forall>args \<in> set argss. length args = (if t = CMD_REQ_REDIS_MSET then 2 else 1))"

lemma groups_pairs:
  assumes "\<forall>args \<in> set argss. length args = 2"
  shows "concat argss = flat_pairs (map (\<lambda>args. (hd args, args ! 1)) argss)"
  using assms
proof (induction argss)
  case (Cons args argss)
  then obtain k v where "args = [k, v]" by (auto simp: length_Suc_conv numeral_2_eq_2)
  then show ?case using Cons by simp
qed simp

lemma groups_single: "\<forall>args \<in> set argss. length args = 1 \<Longrightarrow> map hd argss = concat argss"
proof (induction argss)
  case (Cons args argss)
  then show ?case by (cases args) auto
qed simp

lemma parsed_groups:
  assumes "c_cmd r = resp_cmd (name # concat argss)" "length (c_cmd r) < 2 ^ 31" "frag_type (name_type name)"
    "groups_ok (name_type name) argss" "ha_ok (c_keys r)" "ha_nelem (c_keys r) = 0" "\<forall>n. mem_ok M n"
  shows "\<exists>r'. redis_parse_cmd M r = Inr r' \<and> c_result r' = CMD_PARSE_OK \<and> c_type r' = name_type name \<and> c_cmd r' = c_cmd r \<and>
    ha_ok (c_keys r') \<and> list_all2 (kp_args (name_type name) (c_cmd r)) (ha_list (c_keys r')) argss"
proof (cases "name_type name = CMD_REQ_REDIS_MSET")
  case True
  have two: "\<forall>args \<in> set argss. length args = 2" using assms(4) True by (simp add: groups_ok_def)
  let ?kvs = "map (\<lambda>args. (hd args, args ! 1)) argss"
  obtain r' where r': "redis_parse_cmd M r = Inr r'" "c_result r' = CMD_PARSE_OK" "c_type r' = name_type name" "c_cmd r' = c_cmd r"
      "ha_ok (c_keys r')" "list_all2 (pair_at (c_cmd r)) (ha_list (c_keys r')) ?kvs"
    using redis_parse_cmd_pairs [of r name ?kvs M] assms True groups_pairs [OF two] by (auto simp: redis_argkvx_def groups_ok_def)
  have "list_all2 (kp_args (name_type name) (c_cmd r)) (ha_list (c_keys r')) argss"
    using r'(6) unfolding list_all2_map2
  proof (rule list.rel_mono_strong)
    fix kp args assume a: "args \<in> set argss" "pair_at (c_cmd r) kp (hd args, args ! 1)"
    then obtain k v where "args = [k, v]" using two by (auto simp: length_Suc_conv numeral_2_eq_2)
    then show "kp_args (name_type name) (c_cmd r) kp args"
      using a(2) True by (auto simp: kp_args_def key_tail_def pair_at_def key_at_def)
  qed
  then show ?thesis using r' by blast
next
  case False
  have one: "\<forall>args \<in> set argss. length args = 1" using assms(4) False by (simp add: groups_ok_def)
  have ne: "concat argss \<noteq> []" using one assms(4) by (cases argss) (auto simp: groups_ok_def)
  have t: "redis_argx (name_type name)" "name_type name \<noteq> CMD_UNKNOWN" using assms(3) False by (auto simp: redis_argx_def)
  have "cmd_keys (name_type name) (concat argss) = Some (map hd argss)"
    using class_exclusive(7) [OF name_type_class [OF t(2)] t(1)] t(1) ne
    by (auto simp: cmd_keys_def fixed_arity_def groups_single [OF one] split: list.splits)
  then obtain r' where r': "redis_parse_cmd M r = Inr r'" "c_result r' = CMD_PARSE_OK" "c_type r' = name_type name" "c_cmd r' = c_cmd r"
      "cmd_key_texts r' = map hd argss"
    using redis_parse_cmd_resp [OF assms(1,2) t(2) _ assms(5-7)] by auto
  have k: "ha_ok (c_keys r')" "list_all (key_ok (c_cmd r)) (ha_list (c_keys r'))"
    using redis_parse_cmd_ok [OF assms(5,6,2), of M] r'(1) by auto
  have "list_all2 (=) (map (key_text (c_cmd r)) (ha_list (c_keys r'))) (map hd argss)"
    using r'(4,5) by (simp add: cmd_key_texts_def list.rel_eq)
  then have "list_all2 (\<lambda>kp args. key_text (c_cmd r) kp = hd args) (ha_list (c_keys r')) argss"
    by (simp only: list.rel_map)
  then have "list_all2 (kp_args (name_type name) (c_cmd r)) (ha_list (c_keys r')) argss"
  proof (rule list.rel_mono_strong)
    fix kp args assume a: "kp \<in> set (ha_list (c_keys r'))" "args \<in> set argss" "key_text (c_cmd r) kp = hd args"
    have b: "kp_start kp \<le> kp_end kp" "kp_end kp < length (c_cmd r)" using k(2) a(1) by (auto simp: list_all_iff key_ok_def)
    then have "length (hd args) = kp_end kp - kp_start kp" unfolding a(3) [symmetric] key_text_def by simp
    moreover have "drop (kp_start kp) (c_cmd r) = hd args @ drop (kp_end kp - kp_start kp) (drop (kp_start kp) (c_cmd r))"
      using a(3) unfolding key_text_def by (metis append_take_drop_id)
    ultimately show "kp_args (name_type name) (c_cmd r) kp args"
      using a(2) b one False unfolding kp_args_def key_tail_def by auto
  qed
  then show ?thesis using r' k(1) by blast
qed

lemma length_bulks_resp: "length (bulks args) \<le> length (resp_cmd (name # args))"
  by (simp add: resp_cmd_def)

lemma set_used_slots: "set (used_slots argss) = (\<lambda>args. slot_of (hd args)) ` set argss"
  unfolding used_slots_def set_filter set_upt using slot_of_less by (auto simp: on_slot_def filter_empty_conv)

lemma used_slots_eqI:
  assumes "sorted ss" "distinct ss" "set ss = (\<lambda>args. slot_of (hd args)) ` set argss"
  shows "used_slots argss = ss"
proof (rule sorted_distinct_set_unique)
  show "sorted (used_slots argss)" "distinct (used_slots argss)"
    unfolding used_slots_def by (rule sorted_wrt_filter, rule sorted_upt, rule distinct_filter, rule distinct_upt)
qed (use assms set_used_slots in auto)

section \<open>Empty keys\<close>

lemma put_overflow: "length w \<le> n \<Longrightarrow> n < length w + length t \<Longrightarrow> put (filled n w) t = Inl OutOfBounds"
  by (simp add: put_def filled_def memcpy_def)

lemma cstr_Cons: "c \<noteq> NUL \<Longrightarrow> cstr (c # s) = c # cstr s"
  by (simp add: cstr_def)

text \<open>The number 0 is printed over the first digit of the number before it.\<close>

lemma emit_num_zero:
  assumes "NUL \<in> set ns" "cstr ns \<noteq> []"
  shows "\<exists>ns' d. emit_num ns 0 = Inr (ns', d) \<and> length d = length (cstr ns) \<and> NUL \<in> set ns' \<and> length (cstr ns') = length (cstr ns)"
proof -
  obtain c ns0 where ns: "ns = c # ns0" "c \<noteq> NUL" using assms by (cases ns) (auto simp: cstr_def split: if_splits)
  have "length (cstr ns0) \<le> length ns0" unfolding cstr_def by (rule length_takeWhile_le)
  then show ?thesis using assms(1) ns by (auto simp: emit_num_def hi_itoa_def memcpy_def c_strlen_def cstr_Cons)
qed

lemma emit_key_empty:
  assumes "t \<noteq> CMD_REQ_REDIS_MSET" "kp_args t text kp [[]]" "length text < 2 ^ 31" "NUL \<in> set ns" "cstr ns \<noteq> []" "length w \<le> n"
  shows "\<exists>ns' w'. NUL \<in> set ns' \<and> length (cstr ns') = length (cstr ns) \<and> length w' = length w + 5 + length (cstr ns) \<and>
    emit_key t text ns (filled n w) kp = (if length w' \<le> n then Inr (ns', filled n w') else Inl OutOfBounds)"
proof -
  obtain ns' d where d: "emit_num ns 0 = Inr (ns', d)" "length d = length (cstr ns)" "NUL \<in> set ns'" "length (cstr ns') = length (cstr ns)"
    using emit_num_zero [OF assms(4,5)] by blast
  have k: "kp_len kp = 0" "slice text (kp_start kp) 0 = Inr []" using kp_len_args [OF assms(2,3)] kp_args_slice(1) [OF assms(2)] by simp_all
  have step: "bind_c (put (filled n u) x) f = (if length u + length x \<le> n then f (filled n (u @ x)) else Inl OutOfBounds)"
    if "length u \<le> n" for u x and f :: "bytes \<times> nat \<Rightarrow> (bytes \<times> bytes \<times> nat) c_res"
    using that put_filled [of u x n] put_overflow [of u n x] by simp
  have "emit_key t text ns (filled n w) kp =
      (if length w + 5 + length d \<le> n then Inr (ns', filled n (w @ ''$'' @ d @ CRLF @ CRLF)) else Inl OutOfBounds)"
    using assms(1,6) d(1) k by (simp add: emit_key_def int32_id step)
  then show ?thesis using d by (intro exI [of _ ns'] exI [of _ "w @ ''$'' @ d @ CRLF @ CRLF"]) simp
qed

lemma emit_keys_empty:
  assumes "t \<noteq> CMD_REQ_REDIS_MSET" "\<forall>j \<in> set js. j < ha_nelem keys \<and> kp_args t text (ha_list keys ! j) [[]]" "ha_ok keys"
    "length text < 2 ^ 31" "NUL \<in> set ns" "cstr ns \<noteq> []" "length w \<le> n" "n < length w + length js * (5 + length (cstr ns))"
  shows "emit_keys t text keys ns (filled n w) js = Inl OutOfBounds"
  using assms(2,5-)
proof (induction js arbitrary: ns w)
  case (Cons j js)
  have j: "j < ha_nelem keys" "kp_args t text (ha_list keys ! j) [[]]" using Cons.prems(1) by auto
  obtain ns' w' where e: "NUL \<in> set ns'" "length (cstr ns') = length (cstr ns)" "length w' = length w + 5 + length (cstr ns)"
    "emit_key t text ns (filled n w) (ha_list keys ! j) = (if length w' \<le> n then Inr (ns', filled n w') else Inl OutOfBounds)"
    using emit_key_empty [OF assms(1) j(2) assms(4) Cons.prems(2-4)] by blast
  have "cstr ns' \<noteq> []" using e(2) Cons.prems(3) by (metis length_0_conv)
  then have "length w' \<le> n \<Longrightarrow> emit_keys t text keys ns' (filled n w') js = Inl OutOfBounds"
    using Cons.IH [of ns' w'] Cons.prems(1,5) e(1-3) by (simp add: algebra_simps)
  then show ?case using e(4) ha_read_list [OF assms(3) j(1)] by simp
qed simp

lemma length_dec_ge2: "10 \<le> n \<Longrightarrow> 2 \<le> length (dec n)"
  using length_dec_pos [of "n div 10"] by (simp add: dec_big Suc_le_eq)

lemma emit_cmd_empty:
  assumes "sub_rel t text (replicate n [[]]) sc" "t = CMD_REQ_REDIS_MGET" "9 \<le> n" "length text < 2 ^ 31" "6 * n < 2 ^ 31"
    "length ns = 12" "\<forall>n. mem_ok M n"
  shows "emit_cmd M t text ns sc = Inl OutOfBounds"
proof -
  have r: "ha_ok (c_keys sc)" "list_all2 (sub_kp t text) (ha_list (c_keys sc)) (replicate n [[]])" "c_narg sc = n"
    "sc_clen sc = n" using assms(1,2) by (simp_all add: sub_rel_def frag_clen_def key_tail_def dec_small sum_list_replicate)
  have ne: "ha_nelem (c_keys sc) = n" using length_ha_list [OF r(1)] list_all2_lengthD [OF r(2)] by simp
  have u: "uint32 (int x) = x" if "x < 2 ^ 32" for x using that by (simp add: uint32_id)
  let ?L = "length (dec (Suc n))" let ?m = "6 * n + 13 + ?L" and ?h = "CRLF @ bulk ''mget''"
  have L: "2 \<le> ?L" "?L \<le> 10" using assms(3,5) by (auto intro: length_dec_ge2 length_dec_le)
  have h: "length ?h = 12" by (simp add: length_bulk dec_small)
  obtain ns1 where ns1: "emit_num ns (int32 (int (Suc n))) = Inr (ns1, dec (Suc n))" "NUL \<in> set ns1" "cstr ns1 = dec (Suc n)"
    using emit_num_ok [of "Suc n" ns] assms(5,6) by auto
  let ?w = "''*'' @ dec (Suc n) @ ?h"
  have keys: "\<forall>j \<in> set [0..<n]. j < ha_nelem (c_keys sc) \<and> kp_args t text (ha_list (c_keys sc) ! j) [[]]"
    using r(2) ne length_ha_list [OF r(1)] by (auto simp: list_all2_conv_all_nth sub_kp_def)
  have "n * 7 \<le> n * (5 + ?L)" using L by (intro mult_le_mono) auto
  then have "emit_keys t text (c_keys sc) ns1 (filled ?m ?w) [0..<n] = Inl OutOfBounds"
    using keys r(1) assms(2-4) ns1(2,3) h by (intro emit_keys_empty) auto
  moreover have "put (replicate ?m NUL, 0) ''*'' = Inr (filled ?m ''*'')"
    using put_filled [of "[]" "''*''" ?m] by (simp add: filled_def)
  moreover have narg: "uint32 (int (uint32 (int (n * 1)) + 1)) = Suc n" using u [of n] u [of "Suc n"] assms(5) by simp
  moreover have clen: "uint32 (int (uint32 (int (n + 5 * n)) + (1 + length ?h) + ?L)) = ?m"
    using u [of "6 * n"] u [of ?m] assms(5) L unfolding h by (simp add: algebra_simps)
  moreover have shape: "frag_shape t = Some (5, 1, ?h)" using frag_shape_eq [of t] assms(2) by (simp add: frag_name_def)
  ultimately show ?thesis
    unfolding emit_cmd_def r(3,4) Let_def shape option.case prod.case narg ns1(1) bind_c_simps clen
    using assms(7) h ne by (simp add: put_filled)
qed

lemma format_by_slot_ok:
  assumes "c_cmd r = resp_cmd (name # concat argss)" "length (c_cmd r) < 2 ^ 31"
    "name_type name \<in> {CMD_REQ_REDIS_MGET, CMD_REQ_REDIS_DEL, CMD_REQ_REDIS_MSET}"
    "groups_ok (name_type name) argss" "ha_ok (c_keys r)" "ha_nelem (c_keys r) = 0" "\<forall>n. mem_ok M n"
    "\<forall>args \<in> set argss. hd args \<noteq> []"
  shows "\<exists>r' R. redis_parse_cmd M r = Inr r' \<and> c_type r' = name_type name \<and>
    command_format_by_slot M i r = Inr R \<and> split_ok r' argss R"
proof -
  obtain r' where r': "redis_parse_cmd M r = Inr r'" "c_result r' = CMD_PARSE_OK" "c_type r' = name_type name" "c_cmd r' = c_cmd r"
      "ha_ok (c_keys r')" "list_all2 (kp_args (name_type name) (c_cmd r)) (ha_list (c_keys r')) argss"
    using parsed_groups [OF assms(1-7)] by blast
  have ne: "argss \<noteq> []" "\<forall>args \<in> set argss. hd args \<noteq> []" using assms(4,8) by (simp_all add: groups_ok_def)
  have n: "ha_nelem (c_keys r') = length argss"
    using length_ha_list [OF r'(5)] list_all2_lengthD [OF r'(6)] by simp
  have c: "c_cmd r \<noteq> []" using assms(1) by (simp add: resp_cmd_def)
  have "\<exists>R. command_format_by_slot M i r = Inr R \<and> split_ok r' argss R"
  proof (cases "length argss = 1")
    case True
    then obtain args where a: "argss = [args]" by (auto simp: length_Suc_conv)
    obtain kp where kp: "ha_list (c_keys r') = [kp]" "kp_args (name_type name) (c_cmd r) kp args"
      using r'(6) a by (auto simp: list_all2_Cons2)
    have rd: "ha_read (c_keys r') (hiarray_get (c_keys r') 0) = Inr kp" using ha_read_list [OF r'(5), of 0] n a kp(1) by simp
    have "kp_end kp - kp_start kp = length (hd args)" using kp(2) by (simp add: kp_args_def)
    then have sl: "slice (c_cmd r) (kp_start kp) (kp_end kp - kp_start kp) = Inr (hd args)"
      using kp_args_slice(1) [OF kp(2)] by simp
    show ?thesis
      using r' c n True rd sl a one_key_split [OF a] by (simp add: command_format_by_slot_def Let_def split_ok_def slot_of_def)
  next
    case False
    then have "command_format_by_slot M i r = command_pre_fragment M i r'"
      using r' c n ne(1) by (simp add: command_format_by_slot_def Let_def)
    moreover have "length (bulks (concat argss)) < 2 ^ 31"
      using length_bulks_resp [of "concat argss" name] assms(1,2) by simp
    ultimately show ?thesis
      using command_pre_fragment_ok [of r' argss M i] r' assms(2,3,7) ne by simp
  qed
  then show ?thesis using r' by blast
qed

section \<open>Properties\<close>

text \<open>
  C10: \<^verbatim>\<open>command_format_by_slot\<close> splits a formatted MGET, DEL or MSET exactly along the hash slots. For
  every list of non-empty keys (and any values), with a fresh command and memory for the request: when
  all keys share a slot the command stays whole and is addressed to that slot; otherwise there is one
  sub command per slot in use, in the order of the slots, whose text is the protocol text of the lower
  case command name and exactly the arguments of the keys of that slot, in their original order, whose
  recorded length is the length of the text, and \<^verbatim>\<open>frag_seq\<close> maps every key to the sub command of its
  slot. No buffer is over- or underfilled.
\<close>

theorem command_format_by_slot_splits:
  assumes "c_cmd r = resp_cmd (name # concat argss)" "length (c_cmd r) < 2 ^ 31"
    "name_type name \<in> {CMD_REQ_REDIS_MGET, CMD_REQ_REDIS_DEL, CMD_REQ_REDIS_MSET}"
    "groups_ok (name_type name) argss" "ha_ok (c_keys r)" "ha_nelem (c_keys r) = 0" "\<forall>n. mem_ok M n"
    "\<forall>args \<in> set argss. hd args \<noteq> []"
  shows "\<exists>r' R. redis_parse_cmd M r = Inr r' \<and> c_type r' = name_type name \<and>
    command_format_by_slot M i r = Inr R \<and> split_ok r' argss R"
  using assms by (rule format_by_slot_ok)

lemma slots_foo_bar: "slot_of ''foo'' = 12182" "slot_of ''bar'' = 5061"
  unfolding slot_of_def by code_simp+

theorem command_format_by_slot_splits_witness:
  "\<exists>r R. c_cmd r = resp_cmd [''MGET'', ''foo'', ''bar'', ''foo''] \<and> command_format_by_slot granting 0 r = Inr R \<and>
    map c_cmd (fp_commands R) = [resp_cmd [''mget'', ''bar''], resp_cmd [''mget'', ''foo'', ''foo'']] \<and>
    fp_seq R = Some [12182, 5061, 12182]"
proof -
  have t: "name_type ''MGET'' = CMD_REQ_REDIS_MGET"
    using entries4 [of "[]"] unfolding name_type_def by (simp add: names4_def entry_ok_def)
  obtain i' r0 where g: "command_get granting 0 = (i', Some r0)" "ha_ok (c_keys r0)" "ha_nelem (c_keys r0) = 0"
    by (auto simp: command_get_def hiarray_create_def hiarray_init_def ha_ok_def size64_id)
  let ?a = "[[''foo''], [''bar''], [''foo'']]" let ?r = "r0\<lparr>c_cmd := resp_cmd (''MGET'' # concat ?a)\<rparr>"
  have "length (c_cmd ?r) < 2 ^ 31" by (simp add: length_resp_cmd length_bulk dec_small)
  then obtain r' R where R: "c_type r' = CMD_REQ_REDIS_MGET" "command_format_by_slot granting 0 ?r = Inr R" "split_ok r' ?a R"
    using command_format_by_slot_splits [of ?r "''MGET''" ?a granting 0] t g by (auto simp: groups_ok_def)
  have "used_slots ?a = [5061, 12182]"
    by (rule used_slots_eqI) (auto simp: slots_foo_bar)
  then show ?thesis using R
    by (intro exI [of _ ?r] exI [of _ R])
      (auto simp: split_ok_def sub_done_def on_slot_def slots_foo_bar frag_name_def list_all2_Cons1)
qed
text \<open>
  C39: a split command with empty keys overflows its buffer. For an MGET of nine or more empty keys (all
  of slot 0, whose argument count has two digits), \<^verbatim>\<open>hi_itoa\<close> leaves the second digit of the count behind
  the 0 of each key length, so every key is written with at least one byte more than was counted, and
  writing leaves the buffer.
\<close>

theorem command_format_by_slot_overflow:
  assumes "c_cmd r = resp_cmd (name # replicate n [])" "length (c_cmd r) < 2 ^ 31" "name_type name = CMD_REQ_REDIS_MGET" "9 \<le> n"
    "ha_ok (c_keys r)" "ha_nelem (c_keys r) = 0" "\<forall>n. mem_ok M n"
  shows "command_format_by_slot M i r = Inl OutOfBounds"
proof -
  let ?a = "replicate n [[]] :: bytes list list" let ?t = "name_type name"
  have con: "concat ?a = replicate n []" by (induction n) auto
  obtain r' where r': "redis_parse_cmd M r = Inr r'" "c_result r' = CMD_PARSE_OK" "c_type r' = ?t" "c_cmd r' = c_cmd r"
      "ha_ok (c_keys r')" "list_all2 (kp_args ?t (c_cmd r)) (ha_list (c_keys r')) ?a"
    using parsed_groups [of r name ?a M] assms con by (auto simp: groups_ok_def)
  let ?n = "ha_nelem (c_keys r')"
  have n: "?n = n" using length_ha_list [OF r'(5)] list_all2_lengthD [OF r'(6)] by simp
  have idx: "map (\<lambda>j. ha_list (c_keys r') ! j) [0..<?n] = ha_list (c_keys r')"
    using map_nth [of "ha_list (c_keys r')"] length_ha_list [OF r'(5)] by simp
  have "length (bulks (concat ?a)) < 2 ^ 31" using length_bulks_resp [of "concat ?a" name] assms(1,2) con by simp
  then have b: "6 * n < 2 ^ 31" "frag_clen ?t ?a < 2 ^ 31" "length ?a < 2 ^ 31"
    using length_bulks_frag [OF r'(6)] assms(3)
    by (auto simp: frag_clen_def key_tail_def dec_small sum_list_replicate)
  let ?F0 = "\<lparr>fr_id = i, fr_subs = (\<lambda>_. None), fr_seq = [], fr_slot = -1\<rparr>"
  obtain F where F: "frag_keys M ?t (c_cmd r) (c_keys r') ?F0 [0..<?n] = Inr (None, F)" "frag_inv ?t (c_cmd r) ?a F"
    using frag_keys_ok [of ?t "c_cmd r" "c_keys r'" "[0..<?n]" ?a M "[]" ?F0, unfolded idx] r'(5,6) assms(2,7) b(2,3)
    by (auto simp: frag_inv_def on_slot_def)
  have "slot_of [] = 0" unfolding slot_of_def by code_simp
  then have "on_slot 0 ?a = ?a" using assms(4) by (simp add: on_slot_def)
  then obtain sc where sc: "fr_subs F 0 = Some sc" "sub_rel ?t (c_cmd r) ?a sc"
    using F(2) assms(4) unfolding frag_inv_def by (cases "fr_subs F 0") (fastforce+)
  have "[0..<REDIS_CLUSTER_SLOTS] = 0 # [Suc 0..<REDIS_CLUSTER_SLOTS]" by (rule upt_conv_Cons) simp
  then have "emit_cmds M ?t (c_cmd r) (fr_subs F) (map (mem_junk M) [0..<12]) [] [0..<REDIS_CLUSTER_SLOTS] = Inl OutOfBounds"
    using emit_cmd_empty [OF sc(2) assms(3,4,2) b(1) _ assms(7), of "map (mem_junk M) [0..<12]"] sc(1) by simp
  then have "command_pre_fragment M i r' = Inl OutOfBounds"
    using F(1) assms(7) r'(3,4) by (simp add: command_pre_fragment_def Let_def)
  moreover have "c_cmd r \<noteq> []" using assms(1) by (simp add: resp_cmd_def)
  ultimately show ?thesis using r' n assms(4) by (simp add: command_format_by_slot_def Let_def)
qed

theorem command_format_by_slot_overflow_witness:
  "\<exists>r. c_cmd r = resp_cmd (''MGET'' # replicate 9 []) \<and> command_format_by_slot granting 0 r = Inl OutOfBounds"
proof -
  have t: "name_type ''MGET'' = CMD_REQ_REDIS_MGET"
    using entries4 [of "[]"] unfolding name_type_def by (simp add: names4_def entry_ok_def)
  obtain i' r0 where g: "command_get granting 0 = (i', Some r0)" "ha_ok (c_keys r0)" "ha_nelem (c_keys r0) = 0"
    by (auto simp: command_get_def hiarray_create_def hiarray_init_def ha_ok_def size64_id)
  let ?r = "r0\<lparr>c_cmd := resp_cmd (''MGET'' # replicate 9 [])\<rparr>"
  have "length (c_cmd ?r) < 2 ^ 31" by (simp add: length_resp_cmd length_bulk dec_simps map_replicate sum_list_replicate length_concat)
  then show ?thesis
    using command_format_by_slot_overflow [of ?r "''MGET''" 9 granting 0] t g by (intro exI [of _ ?r]) simp
qed
end
