(* ===== verification/Cluster_Nodes.thy ===== *)
theory Cluster_Nodes
  imports Adlist Dict Sds_Text Hiarray Hiutil Fragment
begin

text \<open>
  How the cluster client of \<^verbatim>\<open>src/hircluster.c\<close> reads the reply to CLUSTER NODES: the node objects, the
  line parser \<^verbatim>\<open>parse_cluster_nodes\<close> with masters, slaves, slot ranges and open slots. Nodes live on a
  heap (they are shared between the table of nodes, the lists of slaves and the slot ranges); a pointer
  is the 1-based index of a node and 0 is \<^verbatim>\<open>NULL\<close>. The strings a node keeps are the contents of its sds
  strings. A step that ends with \<^verbatim>\<open>goto error\<close> gives the error it set, \<open>None\<close> when it set none.
\<close>

section \<open>Nodes\<close>

abbreviation (input) REDIS_ROLE_NULL :: nat where "REDIS_ROLE_NULL \<equiv> 0"
abbreviation (input) REDIS_ROLE_MASTER :: nat where "REDIS_ROLE_MASTER \<equiv> 1"
abbreviation (input) REDIS_ROLE_SLAVE :: nat where "REDIS_ROLE_SLAVE \<equiv> 2"

type_synonym nptr = nat

record cluster_slot =
  sl_start :: nat
  sl_end :: nat
  sl_node :: nptr

record copen_slot =
  os_slot_num :: nat
  os_migrate :: bool
  os_remote_name :: "bytes option"
  os_node :: nptr

text \<open>\<^verbatim>\<open>con\<close> and \<^verbatim>\<open>acon\<close> are handles of connections.\<close>

record cluster_node =
  cn_name :: "bytes option"
  cn_addr :: "bytes option"
  cn_host :: "bytes option"
  cn_port :: int
  cn_role :: nat
  cn_myself :: bool
  cn_con :: "nat option"
  cn_acon :: "nat option"
  cn_slots :: "cluster_slot list option"
  cn_slaves :: "nptr list option"
  cn_failure_count :: int
  cn_migrating :: "copen_slot hiarray option"
  cn_importing :: "copen_slot hiarray option"

type_synonym nheap = "cluster_node list"

definition cluster_node_init :: cluster_node where
  "cluster_node_init = \<lparr>cn_name = None, cn_addr = None, cn_host = None, cn_port = 0, cn_role = REDIS_ROLE_NULL,
     cn_myself = False, cn_con = None, cn_acon = None, cn_slots = None, cn_slaves = None, cn_failure_count = 0,
     cn_migrating = None, cn_importing = None\<rparr>"

definition node_at :: "nheap \<Rightarrow> nptr \<Rightarrow> cluster_node c_res" where
  "node_at H p = (if p = 0 then Inl NullDeref else rd H (p - 1))"

definition node_set :: "nheap \<Rightarrow> nptr \<Rightarrow> cluster_node \<Rightarrow> nheap" where
  "node_set H p n = H[p - 1 := n]"

text \<open>Results with an error that ends the parse.\<close>

type_synonym 'a p_res = "(cluster_error option + 'a) c_res"

abbreviation (input) p_ok :: "'a \<Rightarrow> 'a p_res" where "p_ok x \<equiv> Inr (Inr x)"
abbreviation (input) p_err :: "int \<Rightarrow> bytes \<Rightarrow> 'a p_res" where "p_err ty msg \<equiv> Inr (Inl (Some (ty, msg)))"

definition bind_p :: "'a p_res \<Rightarrow> ('a \<Rightarrow> 'b p_res) \<Rightarrow> 'b p_res" where
  "bind_p m f = bind_c m (\<lambda>r. case r of Inl e \<Rightarrow> Inr (Inl e) | Inr x \<Rightarrow> f x)"

text \<open>\<^verbatim>\<open>sdssplitlen\<close> with a separator of one character.\<close>

definition split_at :: "mem \<Rightarrow> char \<Rightarrow> bytes \<Rightarrow> sdshdr list option c_res" where
  "split_at M sep s = bind_c (sdssplitlen M s (int (length s)) [sep] 1) (\<lambda>(t, _). Inr t)"

definition node_get_with_nodes :: "mem \<Rightarrow> bytes list \<Rightarrow> nat \<Rightarrow> nheap \<Rightarrow> (nptr \<times> nheap) p_res" where
  "node_get_with_nodes M infos role H =
     (if length infos < 8 then Inr (Inl None)
      else if \<not> mem_ok M 96 then p_err 5 ''Out of memory''
      else if role = REDIS_ROLE_MASTER \<and> \<not> mem_ok M 48 then p_err 2 ''slots for node listCreate error''
      else
        bind_c (split_at M CHR '':'' (infos ! 1)) (\<lambda>ip_port.
          case map_option (map content) ip_port of
            Some [ip, port] \<Rightarrow>
              p_ok (length H + 1,
                    H @ [cluster_node_init\<lparr>cn_name := Some (infos ! 0), cn_addr := Some (infos ! 1), cn_host := Some ip,
                           cn_port := hi_atoi port, cn_role := role,
                           cn_slots := (if role = REDIS_ROLE_MASTER then Some [] else None)\<rparr>])
          | _ \<Rightarrow> p_err 2 ''split ip port error''))"

section \<open>Masters and slaves by name\<close>

text \<open>The state of the parser: the nodes made so far, the table by address, the table by name.\<close>

record parse_state =
  ps_heap :: nheap
  ps_nodes :: "(bytes, nptr) dict"
  ps_names :: "(bytes, nptr) dict option"

definition add_list :: "mem \<Rightarrow> 'a list option \<Rightarrow> 'a list p_res" where
  "add_list M l = (case l of Some xs \<Rightarrow> p_ok xs | None \<Rightarrow> if mem_ok M 48 then p_ok [] else p_err 5 ''Out of memory'')"

text \<open>\<^verbatim>\<open>sdsnewlen\<close> for a key of a table, which hashes it at once.\<close>

definition sds_key :: "mem \<Rightarrow> bytes \<Rightarrow> bytes c_res" where
  "sds_key M s =
     bind_c (sdsnewlen M (Some s) (length s)) (\<lambda>k. case k of None \<Rightarrow> Inl NullDeref | Some k \<Rightarrow> Inr (content k))"

definition name_new :: "mem \<Rightarrow> nptr \<Rightarrow> bytes \<Rightarrow> (bytes, nptr) dict \<Rightarrow> (bytes, nptr) dict p_res" where
  "name_new M p name names =
     bind_c (sds_key M name) (\<lambda>key.
       bind_c (dictAdd M clusterNodesRefDictType names key p) (\<lambda>(ret, names).
         if ret \<noteq> DICT_OK then p_err 2 ''the address already exists in the nodes'' else p_ok names))"

text \<open>A master takes over the slave that was filed under its name, and the slaves of that slave.\<close>

definition name_master :: "mem \<Rightarrow> nptr \<Rightarrow> cluster_node \<Rightarrow> nptr \<Rightarrow> cluster_node \<Rightarrow> nheap \<Rightarrow> nheap p_res" where
  "name_master M p node old_p old H =
     bind_p (add_list M (cn_slaves node)) (\<lambda>slaves.
       let slaves = foldl (\<lambda>s q. list_push M q s) slaves (case cn_slaves old of None \<Rightarrow> [] | Some qs \<Rightarrow> qs);
           H = node_set H old_p (old\<lparr>cn_slaves := None\<rparr>)
       in p_ok (node_set H p (node\<lparr>cn_slaves := Some (list_push M old_p slaves)\<rparr>)))"

definition name_slave :: "mem \<Rightarrow> nptr \<Rightarrow> nptr \<Rightarrow> cluster_node \<Rightarrow> nheap \<Rightarrow> nheap p_res" where
  "name_slave M p old_p old H =
     bind_p (add_list M (cn_slaves old)) (\<lambda>slaves.
       p_ok (node_set H old_p (old\<lparr>cn_slaves := Some (list_append M p slaves)\<rparr>)))"

definition cluster_master_slave_mapping_with_name :: "mem \<Rightarrow> nptr \<Rightarrow> bytes \<Rightarrow> parse_state \<Rightarrow> parse_state p_res" where
  "cluster_master_slave_mapping_with_name M p name S =
     bind_c (case ps_names S of Some d \<Rightarrow> Inr d | None \<Rightarrow> dictCreate M) (\<lambda>names.
       bind_c (dictFind clusterNodesRefDictType names name) (\<lambda>e.
         case e of
           None \<Rightarrow> bind_p (name_new M p name names) (\<lambda>names. p_ok (S\<lparr>ps_names := Some names\<rparr>))
         | Some (_, old_p) \<Rightarrow>
             if old_p = 0 then p_err 2 ''dict get value null''
             else
               bind_c (node_at (ps_heap S) p) (\<lambda>node.
                 bind_c (node_at (ps_heap S) old_p) (\<lambda>old.
                   if cn_role node = REDIS_ROLE_MASTER \<and> cn_role old = REDIS_ROLE_MASTER then
                     p_err 2 ''two masters have the same name''
                   else if cn_role node = REDIS_ROLE_MASTER \<and> cn_role old = REDIS_ROLE_SLAVE then
                     bind_p (name_master M p node old_p old (ps_heap S)) (\<lambda>H.
                       bind_c (dictSetVal clusterNodesRefDictType names name p) (\<lambda>names.
                         p_ok (S\<lparr>ps_heap := H, ps_names := Some names\<rparr>)))
                   else if cn_role node = REDIS_ROLE_SLAVE then
                     bind_p (name_slave M p old_p old (ps_heap S)) (\<lambda>H. p_ok (S\<lparr>ps_heap := H, ps_names := Some names\<rparr>))
                   else p_ok (S\<lparr>ps_names := Some names\<rparr>)))))"

section \<open>Slots of a master\<close>

definition cluster_open_slot_create :: "mem \<Rightarrow> nat \<Rightarrow> bool \<Rightarrow> sdshdr \<Rightarrow> nptr \<Rightarrow> copen_slot option c_res" where
  "cluster_open_slot_create M num migrate remote p =
     (if \<not> mem_ok M 24 then Inr None
      else bind_c (sdsdup M remote) (\<lambda>name.
        Inr (Some \<lparr>os_slot_num = num, os_migrate = migrate, os_remote_name = map_option content name, os_node = p\<rparr>)))"

definition push_open_slot :: "mem \<Rightarrow> bytes \<Rightarrow> copen_slot \<Rightarrow> copen_slot hiarray option \<Rightarrow> copen_slot hiarray p_res" where
  "push_open_slot M msg oslot arr =
     bind_p (case arr of
        Some a \<Rightarrow> p_ok a
      | None \<Rightarrow> (case hiarray_create M 1 8 of None \<Rightarrow> p_err 2 ''create migrating array error'' | Some a \<Rightarrow> p_ok a))
       (\<lambda>a. bind_c (ha_append M a oslot) (\<lambda>r. case r of None \<Rightarrow> p_err 2 msg | Some a \<Rightarrow> p_ok a))"

text \<open>A part \<^verbatim>\<open>[slot->-node]\<close> or \<^verbatim>\<open>[slot-<-node]\<close>.\<close>

definition add_open_slot :: "mem \<Rightarrow> sdshdr \<Rightarrow> char \<Rightarrow> sdshdr \<Rightarrow> nptr \<Rightarrow> nheap \<Rightarrow> nheap p_res" where
  "add_open_slot M s0 dir s2 p H =
     bind_c (sdsrange s0 1 (-1)) (\<lambda>s0.
       bind_c (sdsrange s2 0 (-2)) (\<lambda>s2.
         bind_c (node_at H p) (\<lambda>master.
           if dir = CHR ''>'' then
             bind_c (cluster_open_slot_create M (uint32 (hi_atoi (content s0))) True s2 p) (\<lambda>os.
               case os of
                 None \<Rightarrow> p_err 2 ''create open slot error''
               | Some os \<Rightarrow>
                   bind_p (push_open_slot M ''Push migrating array error: out of memory'' os (cn_migrating master)) (\<lambda>a.
                     p_ok (node_set H p (master\<lparr>cn_migrating := Some a\<rparr>))))
           else if dir = CHR ''<'' then
             bind_c (cluster_open_slot_create M (uint32 (hi_atoi (content s0))) False s2 p) (\<lambda>os.
               case os of
                 None \<Rightarrow> p_err 2 ''create open slot error''
               | Some os \<Rightarrow>
                   bind_p (push_open_slot M ''push migrating array error: out of memory'' os (cn_importing master)) (\<lambda>a.
                     p_ok (node_set H p (master\<lparr>cn_importing := Some a\<rparr>))))
           else p_ok H)))"

definition cluster_slot_create :: "mem \<Rightarrow> nat \<Rightarrow> nat \<Rightarrow> nptr \<Rightarrow> nheap \<Rightarrow> nheap p_res" where
  "cluster_slot_create M start end' p H =
     (if \<not> mem_ok M 16 then p_err 5 ''Out of memory''
      else
        bind_c (node_at H p) (\<lambda>master.
          case cn_slots master of
            None \<Rightarrow> if mem_ok M 48 then p_ok (node_set H p (master\<lparr>cn_slots := Some (list_append M
                      \<lparr>sl_start = start, sl_end = end', sl_node = p\<rparr> [])\<rparr>)) else p_err 5 ''Out of memory''
          | Some ss \<Rightarrow> p_ok (node_set H p (master\<lparr>cn_slots := Some (list_append M
                      \<lparr>sl_start = start, sl_end = end', sl_node = p\<rparr> ss)\<rparr>))))"

abbreviation (input) HIRCLUSTER_FLAG_ADD_SLAVE :: int where "HIRCLUSTER_FLAG_ADD_SLAVE \<equiv> 0x1000"
abbreviation (input) HIRCLUSTER_FLAG_ADD_OPENSLOT :: int where "HIRCLUSTER_FLAG_ADD_OPENSLOT \<equiv> 0x2000"

definition is_open_slot :: "sdshdr list \<Rightarrow> bool" where
  "is_open_slot ts =
     (case map content ts of
        [a, b, c] \<Rightarrow> length a > 1 \<and> length b = 1 \<and> length c > 1 \<and> hd a = CHR ''['' \<and> last c = CHR '']''
      | _ \<Rightarrow> False)"

text \<open>One part behind the eighth; the range is \<open>(-1, -1)\<close> for a part that is none.\<close>

definition slot_part :: "mem \<Rightarrow> int \<Rightarrow> nptr \<Rightarrow> bytes \<Rightarrow> nheap \<Rightarrow> nheap p_res" where
  "slot_part M flags p part H =
     bind_c (split_at M CHR ''-'' part) (\<lambda>ts.
       case ts of
         None \<Rightarrow> p_err 2 ''split slot start end error(NULL)''
       | Some ts \<Rightarrow>
           bind_p
             (case ts of
                [a] \<Rightarrow> p_ok (hi_atoi (content a), hi_atoi (content a), H)
              | [a, b] \<Rightarrow> p_ok (hi_atoi (content a), hi_atoi (content b), H)
              | _ \<Rightarrow>
                  bind_p
                    (if and flags HIRCLUSTER_FLAG_ADD_OPENSLOT \<noteq> 0 \<and> is_open_slot ts
                     then add_open_slot M (ts ! 0) (hd (content (ts ! 1))) (ts ! 2) p H else p_ok H)
                    (\<lambda>H. p_ok (-1, -1, H)))
             (\<lambda>(slot_start, slot_end, H).
                if slot_start < 0 \<or> slot_end < 0 \<or> slot_start > slot_end \<or> slot_end \<ge> int REDIS_CLUSTER_SLOTS then p_ok H
                else cluster_slot_create M (nat slot_start) (nat slot_end) p H))"

fun slot_parts :: "mem \<Rightarrow> int \<Rightarrow> nptr \<Rightarrow> bytes list \<Rightarrow> nheap \<Rightarrow> nheap p_res" where
  "slot_parts M flags p [] H = p_ok H"
| "slot_parts M flags p (part # parts) H = bind_p (slot_part M flags p part H) (slot_parts M flags p parts)"

section \<open>Lines\<close>

definition starts :: "bytes \<Rightarrow> bytes \<Rightarrow> bool" where
  "starts pre s \<longleftrightarrow> length pre \<le> length s \<and> take (length pre) s = pre"

definition set_myself :: "bool \<Rightarrow> nptr \<Rightarrow> nheap \<Rightarrow> nheap c_res" where
  "set_myself myself p H =
     (if myself then bind_c (node_at H p) (\<lambda>n. Inr (node_set H p (n\<lparr>cn_myself := True\<rparr>))) else Inr H)"

text \<open>
  When the mapping by name fails, the master is released although the table of nodes holds it; the
  release of that table at the label \<^verbatim>\<open>error\<close> then uses the released master.
\<close>

definition add_master :: "mem \<Rightarrow> int \<Rightarrow> bool \<Rightarrow> bytes list \<Rightarrow> parse_state \<Rightarrow> parse_state p_res" where
  "add_master M flags myself part S =
     bind_p (node_get_with_nodes M part REDIS_ROLE_MASTER (ps_heap S)) (\<lambda>(p, H).
       bind_c (bind_c (sds_key M (part ! 1)) (\<lambda>key. dictAdd M clusterNodesDictType (ps_nodes S) key p)) (\<lambda>(ret, nodes).
         if ret \<noteq> DICT_OK then p_err 2 ''The address already exists in the nodes''
         else
           bind_c
             (if and flags HIRCLUSTER_FLAG_ADD_SLAVE \<noteq> 0
              then cluster_master_slave_mapping_with_name M p (part ! 0) (S\<lparr>ps_heap := H, ps_nodes := nodes\<rparr>)
              else p_ok (S\<lparr>ps_heap := H, ps_nodes := nodes\<rparr>)) (\<lambda>r.
             case r of
               Inl _ \<Rightarrow> Inl UseAfterFree
             | Inr S \<Rightarrow>
                 bind_c (set_myself myself p (ps_heap S)) (\<lambda>H.
                   bind_p (slot_parts M flags p (drop 8 part) H) (\<lambda>H. p_ok (S\<lparr>ps_heap := H\<rparr>))))))"

definition add_slave :: "mem \<Rightarrow> bool \<Rightarrow> bytes list \<Rightarrow> parse_state \<Rightarrow> parse_state p_res" where
  "add_slave M myself part S =
     bind_p (node_get_with_nodes M part REDIS_ROLE_SLAVE (ps_heap S)) (\<lambda>(p, H).
       bind_p (cluster_master_slave_mapping_with_name M p (part ! 3) (S\<lparr>ps_heap := H\<rparr>)) (\<lambda>S.
         bind_c (set_myself myself p (ps_heap S)) (\<lambda>H. p_ok (S\<lparr>ps_heap := H\<rparr>))))"

definition parse_line :: "mem \<Rightarrow> int \<Rightarrow> bytes \<Rightarrow> parse_state \<Rightarrow> parse_state p_res" where
  "parse_line M flags line S =
     bind_c (split_at M CHR '' '' line) (\<lambda>ts.
       case ts of
         None \<Rightarrow> p_err 2 ''split cluster nodes error''
       | Some ts \<Rightarrow>
           (let part = map content ts in
            if length part < 8 then p_err 2 ''split cluster nodes error''
            else if part ! 1 = '':0'' then p_ok S
            else
              (let myself = starts ''myself,'' (part ! 2);
                   role = (if myself then drop 7 (part ! 2) else part ! 2) in
               if starts ''master'' role then add_master M flags myself part S
               else if and flags HIRCLUSTER_FLAG_ADD_SLAVE \<noteq> 0 \<and> starts ''slave'' role then add_slave M myself part S
               else p_ok S)))"

text \<open>
  The scan over the text. After a line, \<^verbatim>\<open>pos\<close> is set to the first character of the next line and then
  incremented by the loop: that character is never looked at.
\<close>

function scan_lines :: "mem \<Rightarrow> int \<Rightarrow> bytes \<Rightarrow> nat \<Rightarrow> nat \<Rightarrow> parse_state \<Rightarrow> parse_state p_res" where
  "scan_lines M flags str line_start pos S =
     (if length str \<le> pos then p_ok S
      else if str ! pos = LF then
        bind_c (parse_line M flags (take (pos - line_start) (drop line_start str)) S) (\<lambda>r.
          case r of
            Inl e \<Rightarrow> Inr (Inl e)
          | Inr S \<Rightarrow> scan_lines M flags str (pos + 1) (pos + 2) S)
      else scan_lines M flags str line_start (pos + 1) S)"
  by pat_completeness auto
termination by (relation "measure (\<lambda>(M, flags, str, ls, pos, S). length str - pos)") auto

declare scan_lines.simps [simp del]

definition parse_cluster_nodes :: "mem \<Rightarrow> int \<Rightarrow> bytes \<Rightarrow> nheap \<Rightarrow> (nheap \<times> (bytes, nptr) dict) p_res" where
  "parse_cluster_nodes M flags str H =
     bind_c (dictCreate M) (\<lambda>nodes.
       bind_p (scan_lines M flags str 0 0 \<lparr>ps_heap = H, ps_nodes = nodes, ps_names = None\<rparr>) (\<lambda>S.
         p_ok (ps_heap S, ps_nodes S)))"

end
