(* ===== verification/Cluster_Topology.thy ===== *)
theory Cluster_Topology
  imports Cluster_Nodes
begin

text \<open>
  What \<^verbatim>\<open>parse_cluster_nodes\<close> makes of the text a cluster node prints. \<open>topo_line\<close> is one line of the reply:
  a master with its address and slot ranges, or a line the client passes over (a slave, a failed node without
  a role it knows). The theorem says that the table of nodes has exactly the announced masters, with host,
  port and slot ranges as announced.
\<close>

section \<open>Splitting\<close>

lemma join_spec_Cons: "as \<noteq> [] \<Longrightarrow> join_spec sep (a # as) = a @ sep @ join_spec sep as"
  by (cases as) simp_all

lemma join_unique:
  assumes "join_spec [c] as = join_spec [c] bs" "\<forall>a \<in> set as. c \<notin> set a" "\<forall>b \<in> set bs. c \<notin> set b" "as \<noteq> []" "bs \<noteq> []"
  shows "as = bs"
  using assms
proof (induction as arbitrary: bs)
  case (Cons a as)
  then obtain b bs' where bs: "bs = b # bs'" by (cases bs) auto
  have first: "takeWhile (\<lambda>x. x \<noteq> c) (join_spec [c] (x # xs)) = x" if "c \<notin> set x" for x xs
    using that by (cases xs) (auto simp: takeWhile_append takeWhile_eq_all_conv)
  have ab: "a = b" using first [of a as] first [of b bs'] Cons.prems(1-3) bs by simp
  show ?case
  proof (cases "as = [] \<or> bs' = []")
    case True
    then show ?thesis using Cons.prems(1) ab bs by (cases as; cases bs') auto
  next
    case False
    then have "join_spec [c] as = join_spec [c] bs'" using Cons.prems(1) ab bs by (simp add: join_spec_Cons)
    then show ?thesis using Cons.IH [of bs'] Cons.prems(2,3) False ab bs by simp
  qed
qed simp

lemma no_occ_single: "no_occ [c] t \<longleftrightarrow> c \<notin> set t"
proof
  assume n: "no_occ [c] t"
  show "c \<notin> set t"
  proof
    assume "c \<in> set t"
    then obtain i where "i < length t" "t ! i = c" by (auto simp: in_set_conv_nth)
    then have "take (length [c]) (drop i t) = [c]" by (simp add: Cons_nth_drop_Suc [symmetric])
    then show False using n \<open>i < length t\<close> unfolding no_occ_def by (metis less_imp_le)
  qed
next
  assume c: "c \<notin> set t"
  show "no_occ [c] t"
    unfolding no_occ_def
  proof (intro allI impI notI)
    fix i assume "take (length [c]) (drop i t) = [c]"
    then have "c \<in> set (take (length [c]) (drop i t))" by simp
    then show False using c by (auto dest: in_set_takeD in_set_dropD)
  qed
qed

lemma split_at_join:
  assumes "parts \<noteq> []" "\<forall>p \<in> set parts. c \<notin> set p" "join_spec [c] parts \<noteq> []" "length (join_spec [c] parts) < 2 ^ 31" "\<forall>n. mem_ok M n"
  shows "\<exists>ts. split_at M c (join_spec [c] parts) = Inr (Some ts) \<and> map content ts = parts \<and> (\<forall>t \<in> set ts. sds_ok t)"
proof -
  obtain ts where ts: "sdssplitlen M (join_spec [c] parts) (int (length (join_spec [c] parts))) [c] (int (length [c])) = Inr (Some ts, Some (length ts))"
      "join_spec [c] (map content ts) = join_spec [c] parts" "\<forall>t \<in> set ts. sds_ok t \<and> no_occ [c] (content t)" "ts \<noteq> []"
    using sdssplitlen_tokens [of "[c]" "join_spec [c] parts" M] assms(3-5) by auto
  have "map content ts = parts"
    using join_unique [OF ts(2)] ts(3,4) assms(1,2) by (auto simp: no_occ_single)
  then show ?thesis using ts(1,3) by (auto simp: split_at_def)
qed

lemma length_join_mem: "p \<in> set parts \<Longrightarrow> length p \<le> length (join_spec sep parts)"
  by (induction sep parts rule: join_spec.induct) auto

section \<open>What a line says\<close>

record master_info =
  mi_name :: bytes
  mi_host :: bytes
  mi_port :: nat
  mi_flags :: bytes
  mi_misc :: "bytes list"
  mi_ranges :: "(nat \<times> nat) list"

datatype topo_line = Master master_info | Passed "bytes list"

definition range_text :: "nat \<times> nat \<Rightarrow> bytes" where
  "range_text r = (if fst r = snd r then dec (fst r) else dec (fst r) @ ''-'' @ dec (snd r))"

definition mi_addr :: "master_info \<Rightarrow> bytes" where
  "mi_addr m = mi_host m @ '':'' @ dec (mi_port m)"

definition line_parts :: "topo_line \<Rightarrow> bytes list" where
  "line_parts l =
     (case l of
        Master m \<Rightarrow> [mi_name m, mi_addr m, mi_flags m] @ mi_misc m @ map range_text (mi_ranges m)
      | Passed parts \<Rightarrow> parts)"

definition line_text :: "topo_line \<Rightarrow> bytes" where
  "line_text l = join_spec '' '' (line_parts l)"

definition role_of :: "bytes \<Rightarrow> bytes" where
  "role_of flags = (if starts ''myself,'' flags then drop 7 flags else flags)"

definition line_ok :: "topo_line \<Rightarrow> bool" where
  "line_ok l \<longleftrightarrow> (\<forall>p \<in> set (line_parts l). CHR '' '' \<notin> set p \<and> LF \<notin> set p) \<and> length (line_text l) < 2 ^ 31 \<and>
     (case l of
        Master m \<Rightarrow> CHR '':'' \<notin> set (mi_host m) \<and> mi_host m \<noteq> [] \<and> 0 < mi_port m \<and> mi_port m < 2 ^ 31 \<and> length (mi_misc m) = 5 \<and>
          starts ''master'' (role_of (mi_flags m)) \<and> (\<forall>(a, b) \<in> set (mi_ranges m). a \<le> b \<and> b < REDIS_CLUSTER_SLOTS)
      | Passed parts \<Rightarrow> 8 \<le> length parts \<and> (parts ! 1 = '':0'' \<or> \<not> starts ''master'' (role_of (parts ! 2))))"

text \<open>The node of a master, at the pointer \<open>p\<close>.\<close>

definition node_of :: "nptr \<Rightarrow> master_info \<Rightarrow> cluster_node" where
  "node_of p m = cluster_node_init\<lparr>cn_name := Some (mi_name m), cn_addr := Some (mi_addr m), cn_host := Some (mi_host m),
     cn_port := int (mi_port m), cn_role := REDIS_ROLE_MASTER, cn_myself := starts ''myself,'' (mi_flags m),
     cn_slots := Some (map (\<lambda>(a, b). \<lparr>sl_start = a, sl_end = b, sl_node = p\<rparr>) (mi_ranges m))\<rparr>"

section \<open>Slot ranges\<close>

lemma dash_notin_dec: "CHR ''-'' \<notin> set (dec n)"
  by (rule minus_notin_dec)

lemma hi_atoi_dec: "n < 2 ^ 31 \<Longrightarrow> hi_atoi (dec n) = int n"
  by (simp add: hi_atoi_undec)

lemma split_range:
  assumes "fst r < 2 ^ 31" "snd r < 2 ^ 31" "\<forall>n. mem_ok M n"
  shows "\<exists>ts. split_at M CHR ''-'' (range_text r) = Inr (Some ts) \<and>
    map content ts = (if fst r = snd r then [dec (fst r)] else [dec (fst r), dec (snd r)])"
proof -
  let ?ps = "if fst r = snd r then [dec (fst r)] else [dec (fst r), dec (snd r)]"
  have l: "length (dec (fst r)) \<le> 10" "length (dec (snd r)) \<le> 10" using assms(1,2) by (auto intro: length_dec_le)
  have j: "range_text r = join_spec ''-'' ?ps" by (simp add: range_text_def)
  show ?thesis
    unfolding j using split_at_join [of ?ps "CHR ''-''" M] assms(3) l by (auto simp: dash_notin_dec)
qed

lemma slot_part_range:
  assumes "a \<le> b" "b < REDIS_CLUSTER_SLOTS" "node_at H p = Inr n" "cn_slots n = Some ss" "\<forall>n. mem_ok M n"
  shows "slot_part M flags p (range_text (a, b)) H =
    p_ok (node_set H p (n\<lparr>cn_slots := Some (ss @ [\<lparr>sl_start = a, sl_end = b, sl_node = p\<rparr>])\<rparr>))"
proof -
  obtain ts where ts: "split_at M CHR ''-'' (range_text (a, b)) = Inr (Some ts)"
      "map content ts = (if a = b then [dec a] else [dec a, dec b])"
    using split_range [of "(a, b)" M] assms(1,2,5) by auto
  have n: "hi_atoi (dec a) = int a" "hi_atoi (dec b) = int b" using assms(1,2) by (auto intro: hi_atoi_dec)
  have create: "cluster_slot_create M a b p H = p_ok (node_set H p (n\<lparr>cn_slots := Some (ss @ [\<lparr>sl_start = a, sl_end = b, sl_node = p\<rparr>])\<rparr>))"
    using assms(3-5) by (simp add: cluster_slot_create_def list_append_def)
  show ?thesis
  proof (cases "a = b")
    case True
    then obtain t where "ts = [t]" "content t = dec a" using ts(2) by (auto simp: map_eq_Cons_conv)
    then show ?thesis using ts(1) n create assms(1,2) True by (simp add: slot_part_def bind_p_def)
  next
    case False
    then obtain t u where "ts = [t, u]" "content t = dec a" "content u = dec b" using ts(2) by (auto simp: map_eq_Cons_conv)
    then show ?thesis using ts(1) n create assms(1,2) by (simp add: slot_part_def bind_p_def)
  qed
qed

lemma node_at_set: "node_at H p = Inr n \<Longrightarrow> node_at (node_set H p m) p = Inr m" "node_set (node_set H p m) p k = node_set H p k"
  by (auto simp: node_at_def node_set_def rd_def split: if_splits)

lemma slot_parts_ranges:
  assumes "\<forall>(a, b) \<in> set rs. a \<le> b \<and> b < REDIS_CLUSTER_SLOTS" "node_at H p = Inr n" "cn_slots n = Some ss" "\<forall>n. mem_ok M n"
  shows "slot_parts M flags p (map range_text rs) H =
    p_ok (node_set H p (n\<lparr>cn_slots := Some (ss @ map (\<lambda>(a, b). \<lparr>sl_start = a, sl_end = b, sl_node = p\<rparr>) rs)\<rparr>))"
  using assms(1-3)
proof (induction rs arbitrary: H n ss)
  case Nil
  then have "node_set H p n = H" "n\<lparr>cn_slots := Some ss\<rparr> = n"
    by (auto simp: node_at_def node_set_def rd_def split: if_splits)
  then show ?case by (simp only: list.map append_Nil2 slot_parts.simps)
next
  case (Cons r rs)
  obtain a b where r: "r = (a, b)" by fastforce
  let ?n = "n\<lparr>cn_slots := Some (ss @ [\<lparr>sl_start = a, sl_end = b, sl_node = p\<rparr>])\<rparr>"
  have "slot_part M flags p (range_text r) H = p_ok (node_set H p ?n)"
    unfolding r using Cons.prems r assms(4) by (intro slot_part_range) auto
  moreover have "slot_parts M flags p (map range_text rs) (node_set H p ?n) =
      p_ok (node_set (node_set H p ?n) p (?n\<lparr>cn_slots := Some ((ss @ [\<lparr>sl_start = a, sl_end = b, sl_node = p\<rparr>]) @
        map (\<lambda>(a, b). \<lparr>sl_start = a, sl_end = b, sl_node = p\<rparr>) rs)\<rparr>))"
    using Cons.prems by (intro Cons.IH node_at_set(1) [OF Cons.prems(2)]) auto
  ultimately show ?case using r by (simp add: bind_p_def node_at_set(2))
qed

section \<open>One line\<close>

lemma join_not_Nil: "2 \<le> length parts \<Longrightarrow> join_spec [c] parts \<noteq> []"
  by (cases parts; cases "tl parts") (auto simp: join_spec_Cons)

lemma line_parts_length: "line_ok l \<Longrightarrow> 8 \<le> length (line_parts l)"
  by (auto simp: line_ok_def line_parts_def split: topo_line.splits)

lemma split_topo_line:
  assumes "line_ok l" "\<forall>n. mem_ok M n"
  shows "\<exists>ts. split_at M CHR '' '' (line_text l) = Inr (Some ts) \<and> map content ts = line_parts l"
proof -
  have "line_parts l \<noteq> []" "join_spec '' '' (line_parts l) \<noteq> []"
    using line_parts_length [OF assms(1)] join_not_Nil [of "line_parts l"] by auto
  then show ?thesis
    using split_at_join [of "line_parts l" "CHR '' ''" M] assms unfolding line_text_def line_ok_def by auto
qed

lemma line_text_no_LF: "line_ok l \<Longrightarrow> LF \<notin> set (line_text l)"
proof -
  have "\<forall>p \<in> set ps. LF \<notin> set p \<Longrightarrow> LF \<notin> set (join_spec '' '' ps)" for ps
    by (induction "'' ''" ps rule: join_spec.induct) auto
  then show "line_ok l \<Longrightarrow> LF \<notin> set (line_text l)" by (simp add: line_ok_def line_text_def)
qed

text \<open>The masters of the lines read so far, as they stand in the parser.\<close>

definition numbered :: "nat \<Rightarrow> master_info list \<Rightarrow> (master_info \<times> nptr) list" where
  "numbered k ms = map (\<lambda>i. (ms ! i, k + 1 + i)) [0..<length ms]"

definition parsed_masters :: "nheap \<Rightarrow> master_info list \<Rightarrow> parse_state \<Rightarrow> bool" where
  "parsed_masters H ms S \<longleftrightarrow> ps_heap S = H @ map (\<lambda>(m, p). node_of p m) (numbered (length H) ms) \<and> ps_names S = None \<and>
     dict_ok clusterNodesDictType (ps_nodes S) \<and> d_used (ps_nodes S) = length ms \<and> d_size (ps_nodes S) \<le> max 4 (2 * length ms) \<and>
     dict_map (ps_nodes S) = map_of (map (\<lambda>(m, p). (mi_addr m, p)) (numbered (length H) ms))"

lemma numbered_snoc: "numbered k (ms @ [m]) = numbered k ms @ [(m, k + 1 + length ms)]"
  by (auto simp: numbered_def nth_append)

lemma numbered_props: "map fst (numbered k ms) = ms" "length (numbered k ms) = length ms"
  by (simp_all add: numbered_def comp_def map_nth)

lemma addr_dom: "dom (map_of (map (\<lambda>(m, p). (mi_addr m, p)) (numbered k ms))) = mi_addr ` set ms"
proof -
  have "fst ` set (map (\<lambda>(m, p). (mi_addr m, p)) (numbered k ms)) = mi_addr ` set (map fst (numbered k ms))" by force
  then show ?thesis unfolding dom_map_of_conv_image_fst numbered_props .
qed

lemma sds_key_ok: "length s < 2 ^ 31 \<Longrightarrow> \<forall>n. mem_ok M n \<Longrightarrow> sds_key M s = Inr s"
  by (simp add: sds_key_def sdsnewlen_of)

lemma split_addr:
  assumes "line_ok (Master m)" "\<forall>n. mem_ok M n"
  shows "\<exists>ts. split_at M CHR '':'' (mi_addr m) = Inr (Some ts) \<and> map content ts = [mi_host m, dec (mi_port m)]"
proof -
  have j: "mi_addr m = join_spec '':'' [mi_host m, dec (mi_port m)]" by (simp add: mi_addr_def)
  have "CHR '':'' \<notin> set (dec (mi_port m))" using dec_isdigit [of "CHR '':''" "mi_port m"] by (auto simp: isdigit_def char_code_def)
  moreover have "length (mi_addr m) \<le> length (line_text (Master m))"
    unfolding line_text_def by (rule length_join_mem) (simp add: line_parts_def)
  ultimately show ?thesis
    using split_at_join [of "[mi_host m, dec (mi_port m)]" "CHR '':''" M] assms unfolding line_ok_def j by auto
qed

lemma parse_line_master:
  assumes "parsed_masters H ms S" "line_ok (Master m)" "mi_addr m \<notin> mi_addr ` set ms" "length ms < 2 ^ 28" "\<forall>n. mem_ok M n"
    "and flags HIRCLUSTER_FLAG_ADD_SLAVE = 0"
  shows "\<exists>S'. parse_line M flags (line_text (Master m)) S = p_ok S' \<and> parsed_masters H (ms @ [m]) S'"
proof -
  let ?part = "line_parts (Master m)"
  have ok: "length (mi_misc m) = 5" "starts ''master'' (role_of (mi_flags m))" "mi_port m < 2 ^ 31"
    "\<forall>(a, b) \<in> set (mi_ranges m). a \<le> b \<and> b < REDIS_CLUSTER_SLOTS" "length (line_text (Master m)) < 2 ^ 31" "mi_host m \<noteq> []"
    using assms(2) by (simp_all add: line_ok_def)
  have part: "?part ! 0 = mi_name m" "?part ! 1 = mi_addr m" "?part ! 2 = mi_flags m" "drop 8 ?part = map range_text (mi_ranges m)"
    "\<not> length ?part < 8" using ok(1) by (simp_all add: line_parts_def)
  obtain ts where ts: "split_at M CHR '' '' (line_text (Master m)) = Inr (Some ts)" "map content ts = ?part"
    using split_topo_line [OF assms(2,5)] by blast
  have "length (mi_addr m) \<le> length (line_text (Master m))"
    unfolding line_text_def by (rule length_join_mem) (simp add: line_parts_def)
  then have key: "sds_key M (mi_addr m) = Inr (mi_addr m)" using ok(5) assms(5) by (intro sds_key_ok) auto
  have "CHR '':'' \<notin> set (mi_host m)" using assms(2) by (simp add: line_ok_def)
  then obtain a l where "mi_host m = a # l" "a \<noteq> CHR '':''" using ok(6) by (cases "mi_host m") auto
  then have addr: "mi_addr m \<noteq> '':0''" by (simp add: mi_addr_def)
  obtain us where us: "split_at M CHR '':'' (mi_addr m) = Inr (Some us)" "map content us = [mi_host m, dec (mi_port m)]"
    using split_addr [OF assms(2,5)] by (elim exE conjE)
  have S: "ps_heap S = H @ map (\<lambda>(m, p). node_of p m) (numbered (length H) ms)" "dict_ok clusterNodesDictType (ps_nodes S)"
    "d_used (ps_nodes S) = length ms" "d_size (ps_nodes S) \<le> max 4 (2 * length ms)" "ps_names S = None"
    "dict_map (ps_nodes S) = map_of (map (\<lambda>(m, p). (mi_addr m, p)) (numbered (length H) ms))"
    using assms(1) by (simp_all add: parsed_masters_def)
  let ?p = "length H + 1 + length ms"
  let ?n = "cluster_node_init\<lparr>cn_name := Some (mi_name m), cn_addr := Some (mi_addr m), cn_host := Some (mi_host m),
    cn_port := int (mi_port m), cn_role := REDIS_ROLE_MASTER, cn_slots := Some []\<rparr>"
  have len: "length (ps_heap S) + 1 = ?p" using S(1) by (simp add: numbered_props)
  have new: "node_get_with_nodes M ?part REDIS_ROLE_MASTER (ps_heap S) = p_ok (?p, ps_heap S @ [?n])"
    using part(1,2,5) assms(5) us len hi_atoi_dec [OF ok(3)] by (simp add: node_get_with_nodes_def)
  have fresh: "mi_addr m \<notin> dom (dict_map (ps_nodes S))" using S(6) addr_dom assms(3) by simp
  have "d_size (ps_nodes S) < 2 ^ 30" "d_used (ps_nodes S) < 2 ^ 63" using S(3,4) assms(4) by (auto simp: max_def split: if_splits)
  from nodes.dictAdd_law [OF S(2) this assms(5), of "mi_addr m" ?p] fresh obtain d where
    d: "dictAdd M clusterNodesDictType (ps_nodes S) (mi_addr m) ?p = Inr (DICT_OK, d)" "dict_ok clusterNodesDictType d"
      "dict_map d = (dict_map (ps_nodes S))(mi_addr m \<mapsto> ?p)" "d_used d = Suc (length ms)"
      "d_size d \<le> max 4 (max (d_size (ps_nodes S)) (2 * length ms))"
    using S(3) by (auto simp: dup_val_def clusterNodesDictType_def)
  let ?my = "starts ''myself,'' (mi_flags m)"
  let ?H = "ps_heap S @ [?n]" let ?n1 = "?n\<lparr>cn_myself := ?my\<rparr>"
  have at: "node_at ?H ?p = Inr ?n" using len by (simp add: node_at_def rd_def nth_append)
  have my: "set_myself ?my ?p ?H = Inr (ps_heap S @ [?n1])"
    using at len by (simp add: set_myself_def node_set_def cluster_node_init_def list_update_append)
  have at1: "node_at (ps_heap S @ [?n1]) ?p = Inr ?n1" using len by (simp add: node_at_def rd_def nth_append)
  have sl: "slot_parts M flags ?p (map range_text (mi_ranges m)) (ps_heap S @ [?n1]) =
      p_ok (ps_heap S @ [node_of ?p m])"
    using slot_parts_ranges [OF ok(4) at1 _ assms(5), of "[]" flags] len
    by (simp add: node_set_def node_of_def list_update_append)
  let ?S = "S\<lparr>ps_heap := ps_heap S @ [node_of ?p m], ps_nodes := d\<rparr>"
  have "add_master M flags ?my ?part S = p_ok ?S"
    using new d(1) key part assms(6) my sl by (simp add: add_master_def bind_p_def)
  then have "parse_line M flags (line_text (Master m)) S = p_ok ?S"
    using ts part addr ok(2) by (cases ?my) (simp_all add: parse_line_def Let_def role_of_def)
  moreover have "parsed_masters H (ms @ [m]) ?S"
    using S d(2-5) fresh unfolding parsed_masters_def numbered_snoc
    by (auto simp: map_of_append [symmetric] fun_eq_iff map_add_def split: option.splits)
  ultimately show ?thesis by blast
qed

lemma parse_line_passed:
  assumes "line_ok (Passed parts)" "\<forall>n. mem_ok M n" "and flags HIRCLUSTER_FLAG_ADD_SLAVE = 0"
  shows "parse_line M flags (line_text (Passed parts)) S = p_ok S"
proof -
  obtain ts where "split_at M CHR '' '' (line_text (Passed parts)) = Inr (Some ts)" "map content ts = parts"
    using split_topo_line [OF assms(1,2)] by (auto simp: line_parts_def)
  then show ?thesis using assms by (auto simp: parse_line_def Let_def line_ok_def role_of_def)
qed
section \<open>All lines\<close>

lemma scan_line:
  assumes "str = pre @ line @ LF # rest" "LF \<notin> set line" "length pre \<le> pos" "pos \<le> length pre + length line"
  shows "scan_lines M flags str (length pre) pos S =
    bind_p (parse_line M flags line S) (scan_lines M flags str (length pre + length line + 1) (length pre + length line + 2))"
  using assms(3,4)
proof (induction "length pre + length line - pos" arbitrary: pos)
  case 0
  then have p: "pos = length pre + length line" by simp
  have "str ! pos = LF" "pos < length str" "take (pos - length pre) (drop (length pre) str) = line"
    using assms(1) p by (simp_all add: nth_append)
  then show ?case by (subst scan_lines.simps) (simp add: bind_p_def p)
next
  case (Suc n)
  have lt: "pos < length pre + length line" using Suc.hyps(2) by simp
  then have "pos - length pre < length line" using Suc.prems by simp
  then have "str ! pos = line ! (pos - length pre)" "pos < length str" using assms(1) Suc.prems by (simp_all add: nth_append)
  then have "str ! pos \<noteq> LF" using assms(2) lt Suc.prems by (metis add_diff_inverse_nat nat_add_left_cancel_less not_less nth_mem)
  then have "scan_lines M flags str (length pre) pos S = scan_lines M flags str (length pre) (pos + 1) S"
    using \<open>pos < length str\<close> by (simp add: scan_lines.simps [of _ _ _ _ pos])
  also have "\<dots> = bind_p (parse_line M flags line S) (scan_lines M flags str (length pre + length line + 1) (length pre + length line + 2))"
    using Suc.hyps(2) Suc.prems lt by (intro Suc.hyps(1)) auto
  finally show ?case .
qed

definition topo_text :: "topo_line list \<Rightarrow> bytes" where
  "topo_text ls = concat (map (\<lambda>l. line_text l @ [LF]) ls)"

definition masters :: "topo_line list \<Rightarrow> master_info list" where
  "masters ls = concat (map (\<lambda>l. case l of Master m \<Rightarrow> [m] | Passed _ \<Rightarrow> []) ls)"

lemma line_text_long: "line_ok l \<Longrightarrow> 1 \<le> length (line_text l)"
  using join_not_Nil [of "line_parts l" "CHR '' ''"] line_parts_length [of l] by (simp add: line_text_def Suc_le_eq)

lemma scan_topo:
  assumes "str = pre @ topo_text ls" "\<forall>l \<in> set ls. line_ok l" "parsed_masters H ms S" "distinct (map mi_addr (ms @ masters ls))"
    "length (ms @ masters ls) < 2 ^ 28" "\<forall>n. mem_ok M n" "and flags HIRCLUSTER_FLAG_ADD_SLAVE = 0"
    "pos = length pre \<or> pos = length pre + 1"
  shows "\<exists>S'. scan_lines M flags str (length pre) pos S = p_ok S' \<and> parsed_masters H (ms @ masters ls) S'"
  using assms(1-5,8)
proof (induction ls arbitrary: pre ms S pos)
  case Nil
  then show ?case by (auto simp: topo_text_def masters_def scan_lines.simps [of _ _ _ _ pos])
next
  case (Cons l ls)
  have l: "line_ok l" using Cons.prems(2) by simp
  let ?pre = "pre @ line_text l @ [LF]"
  have str: "str = pre @ line_text l @ LF # topo_text ls" "str = ?pre @ topo_text ls"
    using Cons.prems(1) by (simp_all add: topo_text_def)
  have "pos \<le> length pre + length (line_text l)" "length pre \<le> pos" using Cons.prems(6) line_text_long [OF l] by auto
  from scan_line [OF str(1) line_text_no_LF [OF l] this(2,1)]
  have scan: "scan_lines M flags str (length pre) pos S = bind_p (parse_line M flags (line_text l) S)
      (scan_lines M flags str (length ?pre) (length ?pre + 1))" by simp
  obtain S1 where S1: "parse_line M flags (line_text l) S = p_ok S1" "parsed_masters H (ms @ masters [l]) S1"
  proof (cases l)
    case (Master m)
    then have "mi_addr m \<notin> mi_addr ` set ms" "length ms < 2 ^ 28" using Cons.prems(4,5) by (auto simp: masters_def)
    from parse_line_master [OF Cons.prems(3) l [unfolded Master] this assms(6,7)] show thesis
      using that Master by (auto simp: masters_def)
  next
    case (Passed parts)
    then show thesis using that Cons.prems(3) parse_line_passed [OF l [unfolded Passed] assms(6,7)] by (simp add: masters_def)
  qed
  have m: "ms @ masters (l # ls) = (ms @ masters [l]) @ masters ls" by (simp add: masters_def)
  from Cons.IH [OF str(2) _ S1(2), of "length ?pre + 1"] Cons.prems(2,4,5)
  show ?case unfolding scan m S1(1) bind_p_def by simp
qed

lemma parse_topo:
  assumes "\<forall>l \<in> set ls. line_ok l" "distinct (map mi_addr (masters ls))" "length (masters ls) < 2 ^ 28" "\<forall>n. mem_ok M n"
    "and flags HIRCLUSTER_FLAG_ADD_SLAVE = 0"
  obtains S where "parse_cluster_nodes M flags (topo_text ls) H = p_ok (ps_heap S, ps_nodes S)" "parsed_masters H (masters ls) S"
proof -
  let ?S0 = "\<lparr>ps_heap = H, ps_nodes = dictReset, ps_names = None\<rparr>"
  have "parsed_masters H [] ?S0" by (simp add: parsed_masters_def numbered_def dict_ok_def dictReset_def dict_map_def chains_def)
  from scan_topo [of "topo_text ls" "[]" ls, OF _ assms(1) this _ _ assms(4,5)] assms(2,3)
  obtain S where S: "scan_lines M flags (topo_text ls) 0 0 ?S0 = p_ok S" "parsed_masters H (masters ls) S" by auto
  have "parse_cluster_nodes M flags (topo_text ls) H = p_ok (ps_heap S, ps_nodes S)"
    using S(1) assms(4) by (simp add: parse_cluster_nodes_def dictCreate_def bind_p_def)
  then show thesis using S(2) that by blast
qed

lemma parsed_master_at:
  assumes "parsed_masters H ms S" "distinct (map mi_addr ms)" "m \<in> set ms"
  obtains p where "dict_map (ps_nodes S) (mi_addr m) = Some p" "length H < p" "node_at (ps_heap S) p = Inr (node_of p m)"
proof -
  obtain i where i: "i < length ms" "m = ms ! i" using assms(3) by (auto simp: in_set_conv_nth)
  let ?p = "length H + 1 + i"
  have "(m, ?p) \<in> set (numbered (length H) ms)" using i by (auto simp: numbered_def)
  then have "(mi_addr m, ?p) \<in> set (map (\<lambda>(m, p). (mi_addr m, p)) (numbered (length H) ms))" by force
  moreover have "distinct (map fst (map (\<lambda>(m, p). (mi_addr m, p)) (numbered (length H) ms)))"
  proof -
    have "map fst (map (\<lambda>(m, p). (mi_addr m, p)) (numbered (length H) ms)) = map mi_addr (map fst (numbered (length H) ms))"
      by (simp add: case_prod_unfold)
    then show ?thesis using assms(2) by (simp only: numbered_props)
  qed
  ultimately have "dict_map (ps_nodes S) (mi_addr m) = Some ?p" using assms(1) by (simp add: parsed_masters_def)
  moreover have "node_at (ps_heap S) ?p = Inr (node_of ?p m)"
    using assms(1) i by (simp add: parsed_masters_def node_at_def rd_def numbered_def nth_append)
  ultimately show thesis using that by auto
qed

section \<open>What a table of nodes announces\<close>

text \<open>
  \<open>announces H d rng\<close>: the table \<open>d\<close> holds one master under each address that \<open>rng\<close> knows, made for that
  address, and its slot ranges are those of \<open>rng\<close>. \<open>new_nodes\<close> says in addition that these masters were made
  behind the nodes of \<open>H\<^sub>0\<close>, which are as they were, and have no connection yet.
\<close>

type_synonym ranges = "(nat \<times> nat) list"

definition owned :: "nptr \<Rightarrow> ranges \<Rightarrow> cluster_slot list" where
  "owned p rs = map (\<lambda>(a, b). \<lparr>sl_start = a, sl_end = b, sl_node = p\<rparr>) rs"

definition announced_as :: "bytes \<Rightarrow> ranges \<Rightarrow> nptr \<Rightarrow> cluster_node \<Rightarrow> bool" where
  "announced_as ad rs p n \<longleftrightarrow> cn_role n = REDIS_ROLE_MASTER \<and> cn_addr n = Some ad \<and> cn_slots n = Some (owned p rs) \<and>
     (\<exists>host port. cn_host n = Some host \<and> cn_port n = int port \<and> 0 < port \<and> ad = host @ '':'' @ dec port)"

definition announces :: "nheap \<Rightarrow> (bytes, nptr) dict \<Rightarrow> (bytes \<rightharpoonup> ranges) \<Rightarrow> bool" where
  "announces H d rng \<longleftrightarrow> dict_ok clusterNodesDictType d \<and> d_size d < 2 ^ 31 \<and> dom (dict_map d) = dom rng \<and>
     (\<forall>ad p. dict_map d ad = Some p \<longrightarrow> (\<exists>n. node_at H p = Inr n \<and> announced_as ad (the (rng ad)) p n))"

definition new_nodes :: "nheap \<Rightarrow> nheap \<Rightarrow> (bytes, nptr) dict \<Rightarrow> (bytes \<rightharpoonup> ranges) \<Rightarrow> bool" where
  "new_nodes H\<^sub>0 H d rng \<longleftrightarrow> announces H d rng \<and> take (length H\<^sub>0) H = H\<^sub>0 \<and> d_size d \<le> max 4 (2 * d_used d) \<and>
     (\<forall>p \<in> ran (dict_map d). length H\<^sub>0 < p \<and> (\<exists>n. node_at H p = Inr n \<and> cn_con n = None \<and> cn_acon n = None))"

lemma announced_as_node_of:
  "0 < mi_port m \<Longrightarrow> announced_as (mi_addr m) (mi_ranges m) p (node_of p m)" "cn_con (node_of p m) = None" "cn_acon (node_of p m) = None"
  by (auto simp: announced_as_def node_of_def owned_def cluster_node_init_def mi_addr_def)

definition topo_ranges :: "topo_line list \<Rightarrow> bytes \<rightharpoonup> ranges" where
  "topo_ranges ls = map_of (map (\<lambda>m. (mi_addr m, mi_ranges m)) (masters ls))"

lemma topo_ranges_master:
  "distinct (map mi_addr (masters ls)) \<Longrightarrow> m \<in> set (masters ls) \<Longrightarrow> topo_ranges ls (mi_addr m) = Some (mi_ranges m)"
  "dom (topo_ranges ls) = mi_addr ` set (masters ls)"
  by (auto simp: topo_ranges_def dom_map_of_conv_image_fst image_image comp_def intro!: map_of_is_SomeI)

lemma masters_ok: "\<forall>l \<in> set ls. line_ok l \<Longrightarrow> m \<in> set (masters ls) \<Longrightarrow> line_ok (Master m)"
  by (induction ls) (auto simp: masters_def split: topo_line.splits)

lemma parsed_masters_new_nodes:
  assumes "\<forall>l \<in> set ls. line_ok l" "parsed_masters H (masters ls) S" "distinct (map mi_addr (masters ls))" "length (masters ls) < 2 ^ 28"
  shows "new_nodes H (ps_heap S) (ps_nodes S) (topo_ranges ls)"
proof -
  let ?d = "ps_nodes S"
  have ok: "dict_ok clusterNodesDictType ?d" "d_used ?d = length (masters ls)" "d_size ?d \<le> max 4 (2 * length (masters ls))"
    "take (length H) (ps_heap S) = H"
    using assms(2) by (simp_all add: parsed_masters_def)
  have dom: "dom (dict_map ?d) = mi_addr ` set (masters ls)" using assms(2) addr_dom by (simp add: parsed_masters_def)
  have at: "length H < p \<and> (\<exists>n. node_at (ps_heap S) p = Inr n \<and> announced_as ad (the (topo_ranges ls ad)) p n \<and> cn_con n = None \<and> cn_acon n = None)"
    if mp: "dict_map ?d ad = Some p" for ad p
  proof -
    obtain m where m: "m \<in> set (masters ls)" "ad = mi_addr m" using domI [of "dict_map ?d" ad, OF mp] unfolding dom by blast
    have "0 < mi_port m" using masters_ok [OF assms(1) m(1)] by (simp add: line_ok_def)
    then have as: "announced_as ad (the (topo_ranges ls ad)) p (node_of p m)"
      using announced_as_node_of(1) [of m p] m(2) topo_ranges_master(1) [OF assms(3) m(1)] by simp
    obtain q where q: "dict_map ?d (mi_addr m) = Some q" "length H < q" "node_at (ps_heap S) q = Inr (node_of q m)"
      by (rule parsed_master_at [OF assms(2,3) m(1)])
    have "q = p" using q(1) mp m(2) by simp
    show ?thesis using q(2,3) as announced_as_node_of(2,3) unfolding \<open>q = p\<close> by blast
  qed
  have "d_size ?d < 2 ^ 31" using ok(3) assms(4) by (auto simp: max_def split: if_splits)
  then have "announces (ps_heap S) ?d (topo_ranges ls)"
    unfolding announces_def topo_ranges_master(2) using ok(1) dom at by blast
  moreover have "\<forall>p \<in> ran (dict_map ?d). length H < p \<and> (\<exists>n. node_at (ps_heap S) p = Inr n \<and> cn_con n = None \<and> cn_acon n = None)"
    using at unfolding ran_def by blast
  ultimately show ?thesis using ok(2-4) by (simp add: new_nodes_def)
qed

section \<open>Properties\<close>

text \<open>
  C13: parsing the reply to CLUSTER NODES recovers the announced topology. For every list of lines (masters
  with any names, hosts, ports and slot ranges, and lines the client passes over), the text of these lines
  is parsed without an error; the table of nodes is well-formed and maps exactly the addresses of the
  masters, and the node under an address has the name, host, port and exactly the slot ranges of its line,
  in order, each owned by that node. Nodes that were there before are untouched.
\<close>

theorem parse_cluster_nodes_correct:
  assumes "\<forall>l \<in> set ls. line_ok l" "distinct (map mi_addr (masters ls))" "length (masters ls) < 2 ^ 28" "\<forall>n. mem_ok M n"
    "and flags HIRCLUSTER_FLAG_ADD_SLAVE = 0"
  shows "\<exists>H' d. parse_cluster_nodes M flags (topo_text ls) H = Inr (Inr (H', d)) \<and> dict_ok clusterNodesDictType d \<and>
    take (length H) H' = H \<and> dom (dict_map d) = mi_addr ` set (masters ls) \<and>
    (\<forall>m \<in> set (masters ls). \<exists>p. dict_map d (mi_addr m) = Some p \<and> length H < p \<and> node_at H' p = Inr (node_of p m))"
proof -
  obtain S where S: "parse_cluster_nodes M flags (topo_text ls) H = p_ok (ps_heap S, ps_nodes S)" "parsed_masters H (masters ls) S"
    using parse_topo [OF assms] .
  have "\<exists>p. dict_map (ps_nodes S) (mi_addr m) = Some p \<and> length H < p \<and> node_at (ps_heap S) p = Inr (node_of p m)"
    if "m \<in> set (masters ls)" for m
    using parsed_master_at [OF S(2) assms(2) that] by metis
  then show ?thesis using S addr_dom by (auto simp: parsed_masters_def)
qed

theorem parse_cluster_nodes_correct_witness:
  "\<exists>H' d. parse_cluster_nodes granting 0 (topo_text
      [Master \<lparr>mi_name = ''a1'', mi_host = ''10.0.0.1'', mi_port = 7, mi_flags = ''myself,master'', mi_misc = [''-'', ''0'', ''0'', ''1'', ''connected''],
         mi_ranges = [(0, 5), (9, 9)]\<rparr>,
       Passed [''b2'', ''10.0.0.2:7'', ''slave'', ''a1'', ''0'', ''0'', ''1'', ''connected'']]) [] = Inr (Inr (H', d)) \<and>
    dom (dict_map d) = {''10.0.0.1:7''}"
proof -
  let ?m = "\<lparr>mi_name = ''a1'', mi_host = ''10.0.0.1'', mi_port = 7, mi_flags = ''myself,master'', mi_misc = [''-'', ''0'', ''0'', ''1'', ''connected''],
    mi_ranges = [(0, 5), (9, 9)]\<rparr>"
  let ?ls = "[Master ?m, Passed [''b2'', ''10.0.0.2:7'', ''slave'', ''a1'', ''0'', ''0'', ''1'', ''connected'']]"
  have dec: "dec 7 = ''7''" "dec 0 = ''0''" "dec 5 = ''5''" "dec 9 = ''9''" by code_simp+
  have addr: "mi_addr ?m = ''10.0.0.1:7''" by (simp add: mi_addr_def dec)
  have "\<forall>l \<in> set ?ls. line_ok l"
    by (simp add: line_ok_def line_parts_def line_text_def addr range_text_def dec role_of_def starts_def)
  moreover have "masters ?ls = [?m]" by (simp add: masters_def)
  ultimately show ?thesis
    using parse_cluster_nodes_correct [of ?ls granting 0 "[]"] addr by auto
qed

end
