(* ===== verification/Cluster_Slots.thy ===== *)
theory Cluster_Slots
  imports Cluster_Topology Reply
begin

text \<open>
  How the cluster client of \<^verbatim>\<open>src/hircluster.c\<close> reads the reply to CLUSTER SLOTS: \<^verbatim>\<open>parse_cluster_slots\<close>, which
  walks over a tree of replies and makes one node per master address, with one slot range per region. The
  reply is the tree of theory \<open>Reply\<close>, where \<open>Absent\<close> stands for an element that is \<^verbatim>\<open>NULL\<close>.
\<close>

section \<open>Nodes from a region\<close>

text \<open>
  The address of a node. The code passes a 64-bit integer where \<^verbatim>\<open>%i\<close> reads an \<^verbatim>\<open>int\<close>: its low half is
  what the calling convention hands over.
\<close>

definition slots_addr :: "mem \<Rightarrow> bytes \<Rightarrow> int \<Rightarrow> bytes c_res" where
  "slots_addr M host port =
     bind_c (sdsnewlen M (Some (host @ [NUL])) (size64 (int32 (int (length host))))) (\<lambda>a.
       case a of
         None \<Rightarrow> Inl NullDeref
       | Some a \<Rightarrow> bind_c (sdscatfmt M a '':%i'' [ArgInt (int32 port)]) (\<lambda>a. Inr (content a)))"

definition node_get_with_slots :: "mem \<Rightarrow> reply \<Rightarrow> reply \<Rightarrow> nat \<Rightarrow> nheap \<Rightarrow> (nptr \<times> nheap) p_res" where
  "node_get_with_slots M host_elem port_elem role H =
     (if host_elem = Absent \<or> port_elem = Absent then Inr (Inl None)
      else
        (case host_elem of
           RStr host \<Rightarrow>
             if int32 (int (length host)) \<le> 0 then p_err 2 ''Command(cluster slots) reply error: node ip is not string.''
             else
               (case port_elem of
                  RInt port \<Rightarrow>
                    if port \<le> 0 then p_err 2 ''Command(cluster slots) reply error: node port is not integer.''
                    else if \<not> hi_valid_port (int32 port) then p_err 2 ''Command(cluster slots) reply error: node port is not valid.''
                    else if \<not> mem_ok M 96 then p_err 5 ''Out of memory''
                    else if role = REDIS_ROLE_MASTER \<and> \<not> mem_ok M 48 then p_err 2 ''slots for node listCreate error''
                    else
                      bind_c (slots_addr M host port) (\<lambda>addr.
                        bind_c (sdsnewlen M (Some (host @ [NUL])) (size64 (int32 (int (length host))))) (\<lambda>h.
                          p_ok (length H + 1,
                                H @ [cluster_node_init\<lparr>cn_addr := Some addr, cn_host := map_option content h,
                                       cn_port := int32 port, cn_role := role,
                                       cn_slots := (if role = REDIS_ROLE_MASTER then Some [] else None)\<rparr>])))
                | _ \<Rightarrow> p_err 2 ''Command(cluster slots) reply error: node port is not integer.'')
         | _ \<Rightarrow> p_err 2 ''Command(cluster slots) reply error: node ip is not string.''))"

text \<open>A failure of the reference is reported with the same text whatever its reason.\<close>

definition cluster_slot_ref_node :: "mem \<Rightarrow> nat \<Rightarrow> nat \<Rightarrow> nptr \<Rightarrow> nheap \<Rightarrow> nheap p_res" where
  "cluster_slot_ref_node M start end' p H =
     bind_c (node_at H p) (\<lambda>node.
       if cn_role node \<noteq> REDIS_ROLE_MASTER \<or> (cn_slots node = None \<and> \<not> mem_ok M 48) then
         p_err 5 ''Slot ref node failed: out of memory.''
       else
         p_ok (node_set H p (node\<lparr>cn_slots := Some (list_append M \<lparr>sl_start = start, sl_end = end', sl_node = p\<rparr>
           (case cn_slots node of None \<Rightarrow> [] | Some ss \<Rightarrow> ss))\<rparr>)))"

section \<open>One region\<close>

definition node_elem :: "reply \<Rightarrow> (bytes \<times> int) p_res" where
  "node_elem r =
     (case r of
        Absent \<Rightarrow> Inl NullDeref
      | RArr [elem_ip, elem_port, _] \<Rightarrow>
          (case elem_ip of
             RStr ip \<Rightarrow>
               (case elem_port of
                  RInt port \<Rightarrow> p_ok (ip, port)
                | _ \<Rightarrow> p_err 2 ''Command(cluster slots) reply error: master ip or port is not correct.'')
           | _ \<Rightarrow> p_err 2 ''Command(cluster slots) reply error: master ip or port is not correct.'')
      | _ \<Rightarrow> p_err 2 ''Command(cluster slots) reply error: nodes sub_reply is not an correct array.'')"

definition int_elem :: "bytes \<Rightarrow> reply \<Rightarrow> int p_res" where
  "int_elem msg r = (case r of Absent \<Rightarrow> Inl NullDeref | RInt i \<Rightarrow> p_ok i | _ \<Rightarrow> p_err 2 msg)"

text \<open>The elements behind the master of a region, checked in every case, kept under a flag.\<close>

fun region_slaves :: "mem \<Rightarrow> int \<Rightarrow> nptr \<Rightarrow> reply list \<Rightarrow> nheap \<Rightarrow> nheap p_res" where
  "region_slaves M flags p [] H = p_ok H"
| "region_slaves M flags p (r # rs) H =
     bind_p (node_elem r) (\<lambda>(ip, port).
       if and flags HIRCLUSTER_FLAG_ADD_SLAVE = 0 then region_slaves M flags p rs H
       else
         bind_p (node_get_with_slots M (RStr ip) (RInt port) REDIS_ROLE_SLAVE H) (\<lambda>(q, H).
           bind_c (node_at H p) (\<lambda>master.
             bind_p (add_list M (cn_slaves master)) (\<lambda>slaves.
               region_slaves M flags p rs (node_set H p (master\<lparr>cn_slaves := Some (list_append M q slaves)\<rparr>))))))"

text \<open>A known master ends the region at once; a new one is followed by its slaves.\<close>

definition region_nodes :: "mem \<Rightarrow> int \<Rightarrow> nat \<Rightarrow> nat \<Rightarrow> reply \<Rightarrow> reply list \<Rightarrow> nheap \<times> (bytes, nptr) dict \<Rightarrow>
    (nheap \<times> (bytes, nptr) dict) p_res" where
  "region_nodes M flags start end' r rs = (\<lambda>(H, nds).
     bind_p (node_elem r) (\<lambda>(ip, port).
       bind_c (bind_c (slots_addr M ip port) (dictFind clusterNodesDictType nds)) (\<lambda>den.
         case den of
           Some (_, p) \<Rightarrow> bind_p (cluster_slot_ref_node M start end' p H) (\<lambda>H. p_ok (H, nds))
         | None \<Rightarrow>
             bind_p (node_get_with_slots M (RStr ip) (RInt port) REDIS_ROLE_MASTER H) (\<lambda>(p, H).
               bind_c (node_at H p) (\<lambda>master.
                 case cn_addr master of
                   None \<Rightarrow> Inl NullDeref
                 | Some addr \<Rightarrow>
                     bind_c (bind_c (sds_key M addr) (\<lambda>key. dictAdd M clusterNodesDictType nds key p)) (\<lambda>(ret, nds).
                       if ret \<noteq> DICT_OK then p_err 2 ''The address already exists in the nodes''
                       else
                         bind_p (cluster_slot_ref_node M start end' p H) (\<lambda>H.
                           bind_p (region_slaves M flags p rs H) (\<lambda>H. p_ok (H, nds)))))))))"

definition slot_region :: "mem \<Rightarrow> int \<Rightarrow> reply \<Rightarrow> nheap \<times> (bytes, nptr) dict \<Rightarrow> (nheap \<times> (bytes, nptr) dict) p_res" where
  "slot_region M flags elem_slots st =
     (case elem_slots of
        Absent \<Rightarrow> Inl NullDeref
      | RArr (b # e # r # rs) \<Rightarrow>
          if \<not> mem_ok M 16 then p_err 5 ''Slot create failed: out of memory.''
          else
            bind_p (int_elem ''Command(cluster slots) reply error: slot begin is not an integer.'' b) (\<lambda>i.
              bind_p (int_elem ''Command(cluster slots) reply error: slot end is not an integer.'' e) (\<lambda>j.
                if uint32 i > uint32 j then p_err 2 ''Command(cluster slots) reply error: slot begin is bigger than slot end.''
                else region_nodes M flags (uint32 i) (uint32 j) r rs st))
      | _ \<Rightarrow> p_err 2 ''Command(cluster slots) reply error: first sub_reply is not an array.'')"

fun slot_regions :: "mem \<Rightarrow> int \<Rightarrow> reply list \<Rightarrow> nheap \<times> (bytes, nptr) dict \<Rightarrow> (nheap \<times> (bytes, nptr) dict) p_res" where
  "slot_regions M flags [] st = p_ok st"
| "slot_regions M flags (r # rs) st = bind_p (slot_region M flags r st) (slot_regions M flags rs)"

definition parse_cluster_slots :: "mem \<Rightarrow> int \<Rightarrow> reply \<Rightarrow> nheap \<Rightarrow> (nheap \<times> (bytes, nptr) dict) p_res" where
  "parse_cluster_slots M flags r H =
     (case r of
        Absent \<Rightarrow> Inr (Inl None)
      | _ \<Rightarrow>
          bind_c (dictCreate M) (\<lambda>nds.
            case r of
              RArr (e # es) \<Rightarrow> slot_regions M flags (e # es) (H, nds)
            | _ \<Rightarrow> p_err 2 ''Command(cluster slots) reply error: reply is not an array.''))"

section \<open>What a reply says\<close>

text \<open>
  One element of the reply: a range of slots, the host and port of its master, what else the server
  says of the master, and the elements of the replicas.
\<close>

record slot_reg =
  rg_start :: nat
  rg_end :: nat
  rg_host :: bytes
  rg_port :: nat
  rg_id :: reply
  rg_replicas :: "reply list"

definition rg_addr :: "slot_reg \<Rightarrow> bytes" where
  "rg_addr g = rg_host g @ '':'' @ dec (rg_port g)"

definition reg_reply :: "slot_reg \<Rightarrow> reply" where
  "reg_reply g = RArr (RInt (int (rg_start g)) # RInt (int (rg_end g)) #
     RArr [RStr (rg_host g), RInt (int (rg_port g)), rg_id g] # rg_replicas g)"

definition reg_ok :: "slot_reg \<Rightarrow> bool" where
  "reg_ok g \<longleftrightarrow> rg_start g \<le> rg_end g \<and> rg_end g < REDIS_CLUSTER_SLOTS \<and> rg_host g \<noteq> [] \<and> length (rg_host g) < 2 ^ 20 \<and>
     0 < rg_port g \<and> rg_port g < 2 ^ 16 \<and> list_all (\<lambda>r. case node_elem r of Inr (Inr _) \<Rightarrow> True | _ \<Rightarrow> False) (rg_replicas g)"

definition slots_ranges :: "slot_reg list \<Rightarrow> bytes \<rightharpoonup> ranges" where
  "slots_ranges gs ad =
     (if ad \<in> rg_addr ` set gs then Some (map (\<lambda>g. (rg_start g, rg_end g)) (filter (\<lambda>g. rg_addr g = ad) gs)) else None)"

definition add_range :: "(bytes \<rightharpoonup> ranges) \<Rightarrow> bytes \<Rightarrow> nat \<times> nat \<Rightarrow> bytes \<rightharpoonup> ranges" where
  "add_range rng ad r = rng(ad \<mapsto> (case rng ad of None \<Rightarrow> [] | Some rs \<Rightarrow> rs) @ [r])"

lemma slots_ranges_snoc: "slots_ranges (gs @ [g]) = add_range (slots_ranges gs) (rg_addr g) (rg_start g, rg_end g)"
  proof
  fix ad
  have "filter (\<lambda>h. rg_addr h = ad) gs = []" if "ad \<notin> rg_addr ` set gs" using that by (auto simp: filter_empty_conv)
  then show "slots_ranges (gs @ [g]) ad = add_range (slots_ranges gs) (rg_addr g) (rg_start g, rg_end g) ad"
    by (auto simp: slots_ranges_def add_range_def)
qed

lemma slots_addr_text:
  assumes "length host < 2 ^ 20" "port < 2 ^ 16" "\<forall>n. mem_ok M n"
  shows "slots_addr M host (int port) = Inr (host @ '':'' @ dec port)"
proof -
  have "size64 (int32 (int (length host))) = length host" using assms(1) by (simp add: int32_id)
  then have new: "sdsnewlen M (Some (host @ [NUL])) (size64 (int32 (int (length host)))) = Inr (Some (sds_of host []))"
    using assms by (simp add: sdsnewlen_of)
  have i: "int32 (int port) = int port" using assms(2) by (simp add: int32_id)
  have "length (dec port) \<le> 10" using assms(2) by (auto intro: length_dec_le)
  then have "length (content (sds_of host [])) + length ('':'' @ dec port) + 1 < sds_cap" using assms(1) by simp
  moreover have "fmt_spec (cstr '':%i'') [ArgInt (int port)] = Some ('':'' @ dec port)" by (simp add: cstr_def dec_int_def)
  moreover have "sds_ok (sds_of host [])" using assms(1) by simp
  ultimately obtain s where "sdscatfmt M (sds_of host []) '':%i'' [ArgInt (int port)] = Inr s" "content s = host @ '':'' @ dec port"
    using sdscatfmt_text [of "sds_of host []" "'':%i''" "[ArgInt (int port)]" "'':'' @ dec port" M] assms by auto
  then show ?thesis using new i by (simp add: slots_addr_def)
qed

lemma node_elem_ok: "node_elem (RArr [RStr ip, RInt port, x]) = p_ok (ip, port)"
  by (simp add: node_elem_def)

lemma region_slaves_none:
  assumes "and flags HIRCLUSTER_FLAG_ADD_SLAVE = 0" "list_all (\<lambda>r. case node_elem r of Inr (Inr _) \<Rightarrow> True | _ \<Rightarrow> False) rs"
  shows "region_slaves M flags p rs H = p_ok H"
  using assms(2)
  by (induction rs) (auto simp: assms(1) bind_p_def split: sum.splits prod.splits)

lemma ref_node:
  assumes "node_at H p = Inr n" "cn_role n = REDIS_ROLE_MASTER" "cn_slots n = Some (owned p rs)" "\<forall>n. mem_ok M n"
  shows "cluster_slot_ref_node M a b p H = p_ok (node_set H p (n\<lparr>cn_slots := Some (owned p (rs @ [(a, b)]))\<rparr>))"
  using assms by (simp add: cluster_slot_ref_node_def list_append_def owned_def)

lemma node_at_set_other: "0 < p \<Longrightarrow> p \<noteq> q \<Longrightarrow> node_at (node_set H p n) q = node_at H q"
  by (auto simp: node_at_def node_set_def rd_def)

lemma node_at_snoc: "node_at H p = Inr n \<Longrightarrow> node_at (H @ [m]) p = Inr n" "node_at (H @ [m]) (length H + 1) = Inr m"
    "node_set (H @ [m]) (length H + 1) k = H @ [k]"
  by (auto simp: node_at_def rd_def nth_append node_set_def list_update_append split: if_splits)

section \<open>One region read\<close>

text \<open>A region of a master that is known, and one of a new master.\<close>

lemma new_nodes_extend:
  assumes "new_nodes H\<^sub>0 H d rng" "dict_map d ad = Some p" "node_at H p = Inr n"
  shows "new_nodes H\<^sub>0 (node_set H p (n\<lparr>cn_slots := Some (owned p (the (rng ad) @ [r]))\<rparr>)) d (add_range rng ad r)"
proof -
  let ?n = "n\<lparr>cn_slots := Some (owned p (the (rng ad) @ [r]))\<rparr>" and ?rng = "add_range rng ad r"
  have nn: "dict_ok clusterNodesDictType d" "d_size d < 2 ^ 31" "dom (dict_map d) = dom rng" "take (length H\<^sub>0) H = H\<^sub>0"
    "d_size d \<le> max 4 (2 * d_used d)"
    and at: "\<And>k q. dict_map d k = Some q \<Longrightarrow> length H\<^sub>0 < q \<and> (\<exists>n. node_at H q = Inr n \<and> announced_as k (the (rng k)) q n \<and> cn_con n = None \<and> cn_acon n = None)"
    using assms(1) unfolding new_nodes_def announces_def ran_def by fastforce+
  have p: "length H\<^sub>0 < p" "announced_as ad (the (rng ad)) p n" "cn_con n = None" "cn_acon n = None"
    using at [OF assms(2)] assms(3) by auto
  have rng: "the (?rng ad) = the (rng ad) @ [r]" "k \<noteq> ad \<Longrightarrow> ?rng k = rng k" for k
    using domI [of "dict_map d" ad, OF assms(2)] nn(3) by (auto simp: add_range_def split: option.splits)
  have new: "length H\<^sub>0 < q \<and> (\<exists>n. node_at (node_set H p ?n) q = Inr n \<and> announced_as k (the (?rng k)) q n \<and> cn_con n = None \<and> cn_acon n = None)"
    if k: "dict_map d k = Some q" for k q
  proof (cases "k = ad")
    case True
    then have "q = p" using k assms(2) by simp
    have "announced_as ad (the (?rng ad)) p ?n" using p(2) rng(1) by (simp add: announced_as_def)
    then show ?thesis using p node_at_set(1) [OF assms(3)] True \<open>q = p\<close> by auto
  next
    case False
    obtain m where m: "node_at H q = Inr m" "announced_as k (the (rng k)) q m" "cn_con m = None" "cn_acon m = None" "length H\<^sub>0 < q"
      using at [OF k] by auto
    have "p \<noteq> q" using m(1,2) p(2) assms(3) False by (auto simp: announced_as_def)
    then show ?thesis using m p(1) rng(2) [OF False] node_at_set_other [of p q H] by auto
  qed
  have "dom ?rng = dom rng" using domI [of "dict_map d" ad, OF assms(2)] nn(3) by (auto simp: add_range_def)
  then have "announces (node_set H p ?n) d ?rng" unfolding announces_def using nn(1-3) new by blast
  moreover have "take (length H\<^sub>0) (node_set H p ?n) = H\<^sub>0" using nn(4) p(1) by (simp add: node_set_def take_update_cancel)
  moreover have "\<forall>q \<in> ran (dict_map d). length H\<^sub>0 < q \<and> (\<exists>n. node_at (node_set H p ?n) q = Inr n \<and> cn_con n = None \<and> cn_acon n = None)"
    using new unfolding ran_def by blast
  ultimately show ?thesis using nn(5) unfolding new_nodes_def by blast
qed

lemma new_nodes_add:
  assumes "new_nodes H\<^sub>0 H d rng" "dict_map d ad = None" "announced_as ad [r] (length H + 1) n" "cn_con n = None" "cn_acon n = None"
    "dict_ok clusterNodesDictType d'" "d_size d' < 2 ^ 31" "d_size d' \<le> max 4 (max (d_size d) (2 * d_used d))"
    "dict_map d' = (dict_map d)(ad \<mapsto> length H + 1)" "d_used d' = Suc (d_used d)"
  shows "new_nodes H\<^sub>0 (H @ [n]) d' (add_range rng ad r)"
proof -
  let ?rng = "add_range rng ad r"
  have nn: "dom (dict_map d) = dom rng" "take (length H\<^sub>0) H = H\<^sub>0" "d_size d \<le> max 4 (2 * d_used d)"
    and at: "\<And>k q. dict_map d k = Some q \<Longrightarrow> length H\<^sub>0 < q \<and> (\<exists>n. node_at H q = Inr n \<and> announced_as k (the (rng k)) q n \<and> cn_con n = None \<and> cn_acon n = None)"
    using assms(1) unfolding new_nodes_def announces_def ran_def by fastforce+
  have len: "length H\<^sub>0 \<le> length H" using arg_cong [OF nn(2), of length] by simp
  have "rng ad = None" using assms(2) nn(1) by (metis domIff)
  then have rng: "?rng ad = Some [r]" "k \<noteq> ad \<Longrightarrow> ?rng k = rng k" "dom ?rng = insert ad (dom rng)" for k
    by (auto simp: add_range_def)
  have new: "length H\<^sub>0 < q \<and> (\<exists>n'. node_at (H @ [n]) q = Inr n' \<and> announced_as k (the (?rng k)) q n' \<and> cn_con n' = None \<and> cn_acon n' = None)"
    if k: "dict_map d' k = Some q" for k q
  proof (cases "k = ad")
    case True
    then have q: "q = length H + 1" using k assms(9) by simp
    then have "announced_as k (the (?rng k)) q n" using assms(3) rng(1) True by simp
    then show ?thesis using len assms(4,5) node_at_snoc(2) [of H n] unfolding q by auto
  next
    case False
    then have "dict_map d k = Some q" using k assms(9) by simp
    from at [OF this] show ?thesis using node_at_snoc(1) rng(2) [OF False] by metis
  qed
  have "dom (dict_map d') = dom ?rng" using assms(9) nn(1) rng(3) by simp
  then have "announces (H @ [n]) d' ?rng" unfolding announces_def using assms(6,7) new by blast
  moreover have "\<forall>q \<in> ran (dict_map d'). length H\<^sub>0 < q \<and> (\<exists>n'. node_at (H @ [n]) q = Inr n' \<and> cn_con n' = None \<and> cn_acon n' = None)"
    using new unfolding ran_def by blast
  moreover have "take (length H\<^sub>0) (H @ [n]) = H\<^sub>0" using nn(2) len by simp
  moreover have "d_size d' \<le> max 4 (2 * d_used d')" using assms(8,10) nn(3) by (auto simp: max_def split: if_splits)
  ultimately show ?thesis unfolding new_nodes_def by blast
qed
lemma slot_region_step:
  assumes "new_nodes H\<^sub>0 H d rng" "reg_ok g" "d_used d < 2 ^ 28" "\<forall>n. mem_ok M n" "and flags HIRCLUSTER_FLAG_ADD_SLAVE = 0"
  shows "\<exists>H' d'. slot_region M flags (reg_reply g) (H, d) = p_ok (H', d') \<and>
    new_nodes H\<^sub>0 H' d' (add_range rng (rg_addr g) (rg_start g, rg_end g)) \<and> d_used d' \<le> Suc (d_used d)"
proof -
  let ?ad = "rg_addr g" and ?r = "(rg_start g, rg_end g)"
  have g: "rg_start g \<le> rg_end g" "rg_end g < REDIS_CLUSTER_SLOTS" "rg_host g \<noteq> []" "length (rg_host g) < 2 ^ 20" "0 < rg_port g" "rg_port g < 2 ^ 16"
    "list_all (\<lambda>r. case node_elem r of Inr (Inr _) \<Rightarrow> True | _ \<Rightarrow> False) (rg_replicas g)"
    using assms(2) unfolding reg_ok_def by blast+
  have ok: "dict_ok clusterNodesDictType d" "d_size d \<le> max 4 (2 * d_used d)" using assms(1) by (simp_all add: new_nodes_def announces_def)
  have addr: "slots_addr M (rg_host g) (int (rg_port g)) = Inr ?ad"
    using slots_addr_text [OF g(4,6) assms(4)] by (simp add: rg_addr_def)
  have u: "uint32 (int (rg_start g)) = rg_start g" "uint32 (int (rg_end g)) = rg_end g" using g(1,2) by (simp_all add: uint32_id)
  have reg: "slot_region M flags (reg_reply g) (H, d) =
      region_nodes M flags (rg_start g) (rg_end g) (RArr [RStr (rg_host g), RInt (int (rg_port g)), rg_id g]) (rg_replicas g) (H, d)"
    using assms(4) g(1) u by (simp add: slot_region_def reg_reply_def int_elem_def bind_p_def)
  have find: "dictFind clusterNodesDictType d ?ad = Inr (map_option (Pair ?ad) (dict_map d ?ad))" using nodes.dictFind_law [OF ok(1)] .
  show ?thesis
  proof (cases "dict_map d ?ad")
    case (Some p)
    then obtain n where n: "node_at H p = Inr n" "announced_as ?ad (the (rng ?ad)) p n"
      using assms(1) unfolding new_nodes_def announces_def by blast
    have "cluster_slot_ref_node M (rg_start g) (rg_end g) p H = p_ok (node_set H p (n\<lparr>cn_slots := Some (owned p (the (rng ?ad) @ [?r]))\<rparr>))"
      using ref_node [OF n(1)] n(2) assms(4) by (simp add: announced_as_def)
    then have "slot_region M flags (reg_reply g) (H, d) = p_ok (node_set H p (n\<lparr>cn_slots := Some (owned p (the (rng ?ad) @ [?r]))\<rparr>), d)"
      unfolding reg using addr find Some by (simp add: region_nodes_def node_elem_ok bind_p_def)
    then show ?thesis using new_nodes_extend [OF assms(1) Some n(1)] by auto
  next
    case None
    let ?p = "length H + 1"
    let ?n = "cluster_node_init\<lparr>cn_addr := Some ?ad, cn_host := Some (rg_host g), cn_port := int (rg_port g), cn_role := REDIS_ROLE_MASTER, cn_slots := Some []\<rparr>"
    let ?n' = "?n\<lparr>cn_slots := Some (owned ?p [?r])\<rparr>"
    have sz: "size64 (int32 (int (length (rg_host g)))) = length (rg_host g)" "int32 (int (length (rg_host g))) > 0"
      "int32 (int (rg_port g)) = int (rg_port g)" using g(3-6) by (auto simp: int32_id)
    have new: "node_get_with_slots M (RStr (rg_host g)) (RInt (int (rg_port g))) REDIS_ROLE_MASTER H = p_ok (?p, H @ [?n])"
      using sz addr assms(4) g(3-6) by (simp add: node_get_with_slots_def hi_valid_port_def sdsnewlen_of)
    have "length ?ad < 2 ^ 31" using g(4,6) length_dec_le [of "rg_port g" 10] by (simp add: rg_addr_def)
    then have key: "sds_key M ?ad = Inr ?ad" using assms(4) by (intro sds_key_ok) auto
    have "d_size d < 2 ^ 30" "d_used d < 2 ^ 63" using ok(2) assms(3) by (auto simp: max_def split: if_splits)
    from nodes.dictAdd_law [OF ok(1) this assms(4), of ?ad ?p] None obtain d' where
      d': "dictAdd M clusterNodesDictType d ?ad ?p = Inr (DICT_OK, d')" "dict_ok clusterNodesDictType d'"
        "dict_map d' = (dict_map d)(?ad \<mapsto> ?p)" "d_used d' = Suc (d_used d)" "d_size d' < 2 ^ 31" "d_size d' \<le> max 4 (max (d_size d) (2 * d_used d))"
      by (auto simp: dup_val_def clusterNodesDictType_def domIff)
    have at: "node_at (H @ [?n]) ?p = Inr ?n" by (rule node_at_snoc(2))
    have "cluster_slot_ref_node M (rg_start g) (rg_end g) ?p (H @ [?n]) = p_ok (H @ [?n'])"
      using ref_node [OF at, of "[]" M "rg_start g" "rg_end g"] assms(4) node_at_snoc(3) [of H ?n] by (simp add: owned_def)
    then have "slot_region M flags (reg_reply g) (H, d) = p_ok (H @ [?n'], d')"
      unfolding reg using addr find None new at key d'(1) region_slaves_none [OF assms(5) g(7)]
      by (simp add: region_nodes_def node_elem_ok bind_p_def)
    moreover have "announced_as ?ad [?r] ?p ?n'" using g(5) by (auto simp: announced_as_def rg_addr_def)
    then have "new_nodes H\<^sub>0 (H @ [?n']) d' (add_range rng ?ad ?r)"
      using new_nodes_add [OF assms(1) None _ _ _ d'(2,5,6,3,4)] by (simp add: cluster_node_init_def)
    ultimately show ?thesis using d'(4) by (intro exI [of _ "H @ [?n']"] exI [of _ d']) simp
  qed
qed

lemma slot_regions_all:
  assumes "new_nodes H\<^sub>0 H d (slots_ranges gs0)" "\<forall>g \<in> set gs. reg_ok g" "d_used d + length gs < 2 ^ 28" "\<forall>n. mem_ok M n"
    "and flags HIRCLUSTER_FLAG_ADD_SLAVE = 0"
  shows "\<exists>H' d'. slot_regions M flags (map reg_reply gs) (H, d) = p_ok (H', d') \<and> new_nodes H\<^sub>0 H' d' (slots_ranges (gs0 @ gs))"
  using assms(1-3)
proof (induction gs arbitrary: H d gs0)
  case (Cons g gs)
  have "d_used d < 2 ^ 28" "reg_ok g" using Cons.prems(2,3) by simp_all
  from slot_region_step [OF Cons.prems(1) this(2,1) assms(4,5)] obtain H1 d1 where
    1: "slot_region M flags (reg_reply g) (H, d) = p_ok (H1, d1)" "new_nodes H\<^sub>0 H1 d1 (slots_ranges (gs0 @ [g]))" "d_used d1 \<le> Suc (d_used d)"
    unfolding slots_ranges_snoc by blast
  from Cons.IH [OF 1(2)] Cons.prems(2,3) 1(3) show ?case using 1(1) by (auto simp: bind_p_def)
qed auto

lemma parse_slots_new_nodes:
  assumes "\<forall>g \<in> set gs. reg_ok g" "gs \<noteq> []" "length gs < 2 ^ 28" "\<forall>n. mem_ok M n" "and flags HIRCLUSTER_FLAG_ADD_SLAVE = 0"
  obtains H' d where "parse_cluster_slots M flags (RArr (map reg_reply gs)) H = p_ok (H', d)" "new_nodes H H' d (slots_ranges gs)"
proof -
  have "new_nodes H H dictReset (slots_ranges [])"
    by (simp add: new_nodes_def announces_def dict_ok_def dict_map_def chains_def dictReset_def slots_ranges_def dom_def)
  from slot_regions_all [OF this, of gs M flags] assms obtain H' d where
    "slot_regions M flags (map reg_reply gs) (H, dictReset) = p_ok (H', d)" "new_nodes H H' d (slots_ranges gs)"
    by (auto simp: dictReset_def)
  moreover from this(1) have "parse_cluster_slots M flags (RArr (map reg_reply gs)) H = p_ok (H', d)"
    using assms(2,4) by (cases gs) (simp_all add: parse_cluster_slots_def dictCreate_def)
  ultimately show thesis using that by blast
qed

section \<open>Properties\<close>

text \<open>
  C14: parsing the reply to CLUSTER SLOTS recovers the announced topology. For every non-empty list of
  regions (any ranges, hosts, ports and replicas), the parse ends without an error; the table of nodes holds
  exactly the masters' addresses, each with a master made for that host and port, which owns exactly the
  ranges of its regions, in the order of the reply, however they are spread over it. Nodes that were there
  before are untouched.
\<close>

theorem parse_cluster_slots_correct:
  assumes "\<forall>g \<in> set gs. reg_ok g" "gs \<noteq> []" "length gs < 2 ^ 28" "\<forall>n. mem_ok M n" "and flags HIRCLUSTER_FLAG_ADD_SLAVE = 0"
  shows "\<exists>H' d. parse_cluster_slots M flags (RArr (map reg_reply gs)) H = Inr (Inr (H', d)) \<and> take (length H) H' = H \<and>
    dict_ok clusterNodesDictType d \<and> dom (dict_map d) = rg_addr ` set gs \<and>
    (\<forall>ad p. dict_map d ad = Some p \<longrightarrow> (\<exists>n. node_at H' p = Inr n \<and> cn_role n = REDIS_ROLE_MASTER \<and> cn_addr n = Some ad \<and>
      cn_slots n = Some (map (\<lambda>g. \<lparr>sl_start = rg_start g, sl_end = rg_end g, sl_node = p\<rparr>) (filter (\<lambda>g. rg_addr g = ad) gs))))"
proof -
  obtain H' d where d: "parse_cluster_slots M flags (RArr (map reg_reply gs)) H = p_ok (H', d)" "new_nodes H H' d (slots_ranges gs)"
    using parse_slots_new_nodes [OF assms] .
  have ok: "dict_ok clusterNodesDictType d" "dom (dict_map d) = dom (slots_ranges gs)" "take (length H) H' = H"
    and at: "\<And>ad p. dict_map d ad = Some p \<Longrightarrow> \<exists>n. node_at H' p = Inr n \<and> announced_as ad (the (slots_ranges gs ad)) p n"
    using d(2) unfolding new_nodes_def announces_def by blast+
  have dom: "dom (slots_ranges gs) = rg_addr ` set gs" by (auto simp: slots_ranges_def split: if_splits)
  have "\<exists>n. node_at H' p = Inr n \<and> cn_role n = REDIS_ROLE_MASTER \<and> cn_addr n = Some ad \<and>
      cn_slots n = Some (map (\<lambda>g. \<lparr>sl_start = rg_start g, sl_end = rg_end g, sl_node = p\<rparr>) (filter (\<lambda>g. rg_addr g = ad) gs))"
    if mp: "dict_map d ad = Some p" for ad p
  proof -
    have "ad \<in> rg_addr ` set gs" using domI [of "dict_map d" ad, OF mp] ok(2) dom by simp
    then have "the (slots_ranges gs ad) = map (\<lambda>g. (rg_start g, rg_end g)) (filter (\<lambda>g. rg_addr g = ad) gs)"
      by (simp add: slots_ranges_def)
    then show ?thesis using at [OF mp] by (auto simp: announced_as_def owned_def comp_def)
  qed
  then show ?thesis using d(1) ok dom by auto
qed

theorem parse_cluster_slots_correct_witness:
  "\<exists>H' d. parse_cluster_slots granting 0 (RArr (map reg_reply
      [\<lparr>rg_start = 0, rg_end = 5, rg_host = ''h'', rg_port = 7, rg_id = RNil, rg_replicas = []\<rparr>,
       \<lparr>rg_start = 9, rg_end = 9, rg_host = ''h'', rg_port = 7, rg_id = RNil, rg_replicas = []\<rparr>])) [] = Inr (Inr (H', d)) \<and>
    dom (dict_map d) = {''h:7''}"
proof -
  let ?gs = "[\<lparr>rg_start = 0, rg_end = 5, rg_host = ''h'', rg_port = 7, rg_id = RNil, rg_replicas = []\<rparr>,
       \<lparr>rg_start = 9, rg_end = 9, rg_host = ''h'', rg_port = 7, rg_id = RNil, rg_replicas = []\<rparr>]"
  have "dec 7 = ''7''" by code_simp
  then have "rg_addr ` set ?gs = {''h:7''}" by (simp add: rg_addr_def)
  moreover have "\<forall>g \<in> set ?gs. reg_ok g" by (simp add: reg_ok_def)
  ultimately show ?thesis using parse_cluster_slots_correct [of ?gs granting 0 "[]"] by auto
qed
end
