(* ===== verification/Cluster_Route.thy ===== *)
theory Cluster_Route
  imports Cluster_Slots "HOL-Library.Multiset"
begin

text \<open>
  The routing table of the cluster client (\<^verbatim>\<open>src/hircluster.c\<close>): building the table of slots from the nodes of
  a reply, handing the connections of nodes that stay to their new objects, and \<^verbatim>\<open>cluster_update_route\<close>, which
  asks one node after the other. What the network answers to a command at an address is a parameter. Released nodes
  keep their cell of the heap: nothing here reads them again.
\<close>

section \<open>State\<close>

record redisClusterContext =
  cc_err :: int
  cc_errstr :: bytes
  cc_ip :: "bytes option"
  cc_port :: int
  cc_flags :: int
  cc_slots :: "cluster_slot hiarray option"
  cc_nodes :: "(bytes, nptr) dict option"
  cc_table :: "nat \<Rightarrow> nptr"
  cc_route_version :: u64
  cc_max_redirect_count :: int
  cc_retry_count :: int
  cc_heap :: nheap

definition redisClusterSetError :: "redisClusterContext \<Rightarrow> int \<Rightarrow> bytes \<Rightarrow> redisClusterContext" where
  "redisClusterSetError cc ty str = cc\<lparr>cc_err := ty, cc_errstr := take 127 str\<rparr>"

section \<open>Slots of all masters\<close>

text \<open>
  \<open>lit\<close> says that the variable \<^verbatim>\<open>lit\<close> still holds the list iterator of an earlier master, which was released:
  the label \<^verbatim>\<open>error\<close> releases it again.
\<close>

fun push_slots :: "mem \<Rightarrow> cluster_slot hiarray \<Rightarrow> cluster_slot list \<Rightarrow> cluster_slot hiarray p_res" where
  "push_slots M a [] = p_ok a"
| "push_slots M a (s # ss) =
     (if sl_start s > sl_end s \<or> sl_end s \<ge> REDIS_CLUSTER_SLOTS then p_err 2 ''Slot region for node is error''
      else
        bind_c (ha_append M a s) (\<lambda>r. case r of None \<Rightarrow> Inl NullDeref | Some a \<Rightarrow> push_slots M a ss))"

definition master_slots :: "mem \<Rightarrow> nheap \<Rightarrow> bool \<Rightarrow> cluster_slot hiarray \<Rightarrow> nptr \<Rightarrow> (bool \<times> cluster_slot hiarray) p_res" where
  "master_slots M H lit a p =
     bind_c (node_at H p) (\<lambda>master.
       if cn_role master \<noteq> REDIS_ROLE_MASTER then
         (if lit then Inl UseAfterFree else p_err 5 ''Node role must be master'')
       else
         (case cn_slots master of
            None \<Rightarrow> p_ok (lit, a)
          | Some ss \<Rightarrow>
              if \<not> mem_ok M 16 then p_err 5 ''List get iterator failed: out of memory''
              else bind_p (push_slots M a ss) (\<lambda>a. p_ok (True, a))))"

fun all_slots :: "mem \<Rightarrow> nheap \<Rightarrow> bool \<Rightarrow> cluster_slot hiarray \<Rightarrow> (bytes \<times> nptr) list \<Rightarrow> cluster_slot hiarray p_res" where
  "all_slots M H lit a [] = p_ok a"
| "all_slots M H lit a ((k, p) # es) = bind_p (master_slots M H lit a p) (\<lambda>(lit, a). all_slots M H lit a es)"

definition cluster_slot_start_cmp :: "cluster_slot \<Rightarrow> cluster_slot \<Rightarrow> int" where
  "cluster_slot_start_cmp s1 s2 = (if sl_start s1 > sl_start s2 then 1 else -1)"

section \<open>The table\<close>

text \<open>The inner loop, \<open>n\<close> slots from \<open>k\<close> on.\<close>

fun fill_range :: "nptr \<Rightarrow> nat \<Rightarrow> nat \<Rightarrow> (nat \<Rightarrow> nptr) \<Rightarrow> (nat \<Rightarrow> nptr) p_res" where
  "fill_range p k 0 table = p_ok table"
| "fill_range p k (Suc n) table =
     (if table k \<noteq> 0 then p_err 2 ''Diffent node hold a same slot'' else fill_range p (k + 1) n (table(k := p)))"

fun fill_table :: "cluster_slot hiarray \<Rightarrow> nat list \<Rightarrow> (nat \<Rightarrow> nptr) \<Rightarrow> (nat \<Rightarrow> nptr) p_res" where
  "fill_table a [] table = p_ok table"
| "fill_table a (j # js) table =
     bind_c (ha_read a (hiarray_get a j)) (\<lambda>s.
       bind_p (fill_range (sl_node s) (sl_start s) (sl_end s + 1 - sl_start s) table) (fill_table a js))"

text \<open>
  The iterator over the nodes is released before the table is filled, and \<^verbatim>\<open>dit\<close> still points to it: an
  overlap found then leads to the label \<^verbatim>\<open>error\<close>, which releases the iterator a second time.
\<close>

definition build_route :: "mem \<Rightarrow> nheap \<Rightarrow> (bytes, nptr) dict \<Rightarrow> (cluster_slot hiarray \<times> (nat \<Rightarrow> nptr)) p_res" where
  "build_route M H nds =
     (case hiarray_create M (d_used nds) 8 of
        None \<Rightarrow> p_err 2 ''Slots array create failed: out of memory''
      | Some a \<Rightarrow>
          bind_c (dictGetIterator M) (\<lambda>it.
            bind_c (dict_walk (d_used nds + 1) nds it) (\<lambda>es.
              bind_p (all_slots M H False a es) (\<lambda>a.
                bind_c (hiarray_sort a cluster_slot_start_cmp) (\<lambda>a.
                  bind_c (fill_table a [0..<ha_nelem a] (\<lambda>_. 0)) (\<lambda>r.
                    case r of Inl _ \<Rightarrow> Inl UseAfterFree | Inr table \<Rightarrow> p_ok (a, table)))))))"

section \<open>Connections of nodes that stay\<close>

definition swap_node :: "(bytes, nptr) dict \<Rightarrow> nheap \<Rightarrow> nptr \<Rightarrow> nheap c_res" where
  "swap_node nodes_f H p =
     (if p = 0 then Inr H
      else
        bind_c (node_at H p) (\<lambda>node_t.
          case cn_addr node_t of
            None \<Rightarrow> Inl NullDeref
          | Some addr \<Rightarrow>
              bind_c (dictFind clusterNodesDictType nodes_f addr) (\<lambda>e.
                case e of
                  None \<Rightarrow> Inr H
                | Some (_, q) \<Rightarrow>
                    bind_c (node_at H q) (\<lambda>node_f.
                      let (f, t) = (if cn_con node_f \<noteq> None
                                    then (node_f\<lparr>cn_con := cn_con node_t\<rparr>, node_t\<lparr>cn_con := cn_con node_f\<rparr>)
                                    else (node_f, node_t));
                          (f, t) = (if cn_acon f \<noteq> None then (f\<lparr>cn_acon := cn_acon t\<rparr>, t\<lparr>cn_acon := cn_acon f\<rparr>) else (f, t))
                      in Inr (node_set (node_set H q f) p t)))))"

fun swap_nodes :: "(bytes, nptr) dict \<Rightarrow> nheap \<Rightarrow> (bytes \<times> nptr) list \<Rightarrow> nheap c_res" where
  "swap_nodes nodes_f H [] = Inr H"
| "swap_nodes nodes_f H ((k, p) # es) = bind_c (swap_node nodes_f H p) (\<lambda>H. swap_nodes nodes_f H es)"

definition cluster_nodes_swap_ctx :: "mem \<Rightarrow> (bytes, nptr) dict option \<Rightarrow> (bytes, nptr) dict \<Rightarrow> nheap \<Rightarrow> nheap c_res" where
  "cluster_nodes_swap_ctx M nodes_f nodes_t H =
     (case nodes_f of
        None \<Rightarrow> Inr H
      | Some f \<Rightarrow>
          bind_c (dictGetIterator M) (\<lambda>it.
            bind_c (dict_walk (d_used nodes_t + 1) nodes_t it) (\<lambda>es. swap_nodes f H es)))"

section \<open>Updating the route\<close>

text \<open>
  What happens at an address with a command: no context, a context with an error, or an answer, which is the
  error of the context and the reply, \<open>Absent\<close> when there is none.
\<close>

datatype answer = NoContext | NotConnected int bytes | Answered int reply

type_synonym net = "bytes \<Rightarrow> int \<Rightarrow> bytes \<Rightarrow> answer"

abbreviation (input) REDIS_ERR_TIMEOUT :: int where "REDIS_ERR_TIMEOUT \<equiv> 7"
abbreviation (input) HIRCLUSTER_FLAG_ROUTE_USE_SLOTS :: int where "HIRCLUSTER_FLAG_ROUTE_USE_SLOTS \<equiv> 0x4000"

definition no_reply :: "bytes \<Rightarrow> int \<Rightarrow> 'a p_res" where
  "no_reply name e =
     (if e = REDIS_ERR_TIMEOUT then p_err e (''Command('' @ name @ '') reply error(socket timeout)'')
      else p_err 2 (''Command('' @ name @ '') reply error(NULL).''))"

definition fetch_nodes :: "mem \<Rightarrow> net \<Rightarrow> redisClusterContext \<Rightarrow> bytes \<Rightarrow> int \<Rightarrow> (nheap \<times> (bytes, nptr) dict) p_res" where
  "fetch_nodes M net cc ip port =
     (if port \<le> 0 then p_err 2 ''Ip or port error!''
      else
        (let use_slots = and (cc_flags cc) HIRCLUSTER_FLAG_ROUTE_USE_SLOTS \<noteq> 0 in
         case net ip port (if use_slots then ''CLUSTER SLOTS'' else ''CLUSTER NODES'') of
           NoContext \<Rightarrow> p_err 2 ''Init redis context error(return NULL)''
         | NotConnected e msg \<Rightarrow> p_err e msg
         | Answered e r \<Rightarrow>
             if use_slots then
               (case r of
                  Absent \<Rightarrow> no_reply ''cluster slots'' e
                | RArr rs \<Rightarrow> parse_cluster_slots M (cc_flags cc) r (cc_heap cc)
                | RErr s \<Rightarrow> p_err 2 (cstr s)
                | _ \<Rightarrow> p_err 2 ''Command(cluster slots) reply error: type is not array.'')
             else
               (case r of
                  Absent \<Rightarrow> no_reply ''cluster nodes'' e
                | RStr s \<Rightarrow> parse_cluster_nodes M (cc_flags cc) (take (nat (int32 (int (length s)))) s) (cc_heap cc)
                | RErr s \<Rightarrow> p_err 2 (cstr s)
                | _ \<Rightarrow> p_err 2 ''Command(cluster nodes) reply error: type is not string.'')))"

definition set_p_error :: "redisClusterContext \<Rightarrow> cluster_error option \<Rightarrow> redisClusterContext" where
  "set_p_error cc e = (case e of None \<Rightarrow> cc | Some (ty, msg) \<Rightarrow> redisClusterSetError cc ty msg)"

definition cluster_update_route_by_addr :: "mem \<Rightarrow> net \<Rightarrow> redisClusterContext \<Rightarrow> bytes \<Rightarrow> int \<Rightarrow>
    (int \<times> redisClusterContext) c_res" where
  "cluster_update_route_by_addr M net cc ip port =
     bind_c
       (bind_p (fetch_nodes M net cc ip port) (\<lambda>(H, nds).
          bind_p (build_route M H nds) (\<lambda>(a, table).
            bind_c (cluster_nodes_swap_ctx M (cc_nodes cc) nds H) (\<lambda>H. p_ok (H, nds, a, table))))) (\<lambda>r.
       case r of
         Inl e \<Rightarrow> Inr (-1, set_p_error cc e)
       | Inr (H, nds, a, table) \<Rightarrow>
           Inr (0, cc\<lparr>cc_heap := H, cc_nodes := Some nds, cc_slots := Some a, cc_table := table,
                    cc_route_version := cc_route_version cc + 1\<rparr>))"

text \<open>The loop over the known nodes: the first one that answers with a route ends it.\<close>

fun try_nodes :: "mem \<Rightarrow> net \<Rightarrow> redisClusterContext \<Rightarrow> bool \<Rightarrow> (bytes \<times> nptr) list \<Rightarrow>
    (int \<times> bool \<times> redisClusterContext) c_res" where
  "try_nodes M net cc not_set [] = Inr (-1, not_set, cc)"
| "try_nodes M net cc not_set ((k, p) # es) =
     (if p = 0 then try_nodes M net cc not_set es
      else
        bind_c (node_at (cc_heap cc) p) (\<lambda>node.
          case cn_host node of
            None \<Rightarrow> try_nodes M net cc not_set es
          | Some host \<Rightarrow>
              if cn_port node < 0 then try_nodes M net cc not_set es
              else
                bind_c (cluster_update_route_by_addr M net cc host (cn_port node)) (\<lambda>(ret, cc).
                  if ret = 0 then Inr (0, False, if cc_err cc \<noteq> 0 then cc\<lparr>cc_err := 0, cc_errstr := []\<rparr> else cc)
                  else try_nodes M net cc False es)))"

definition cluster_update_route :: "mem \<Rightarrow> net \<Rightarrow> redisClusterContext \<Rightarrow> (int \<times> redisClusterContext) c_res" where
  "cluster_update_route M net cc =
     bind_c
       (case cc_ip cc of
          Some ip \<Rightarrow>
            if cc_port cc > 0
            then bind_c (cluster_update_route_by_addr M net cc ip (cc_port cc)) (\<lambda>(ret, cc). Inr (ret, False, cc))
            else Inr (-1, True, cc)
        | None \<Rightarrow> Inr (-1, True, cc)) (\<lambda>(ret, not_set, cc).
       if ret = 0 then Inr (0, cc)
       else
         (case cc_nodes cc of
            None \<Rightarrow> Inr (-1, if not_set then redisClusterSetError cc 2 ''no server address'' else cc)
          | Some nds \<Rightarrow>
              bind_c (dictGetIterator M) (\<lambda>it.
                bind_c (dict_walk (d_used nds + 1) nds it) (\<lambda>es.
                  bind_c (try_nodes M net cc not_set es) (\<lambda>(ret, not_set, cc).
                    if ret = 0 then Inr (0, cc)
                    else Inr (-1, if not_set then redisClusterSetError cc 2 ''no valid server address'' else cc))))))"

section \<open>Filling the table\<close>

definition cov :: "ranges \<Rightarrow> nat list" where
  "cov rs = concat (map (\<lambda>(a, b). [a..<Suc b]) rs)"

definition cover :: "cluster_slot list \<Rightarrow> nat list" where
  "cover ss = concat (map (\<lambda>s. [sl_start s..<Suc (sl_end s)]) ss)"

lemma cover_owned: "cover (owned p rs) = cov rs"
  by (induction rs) (simp_all add: cover_def cov_def owned_def case_prod_unfold del: upt_Suc)

lemma cover_append: "cover (ss @ ts) = cover ss @ cover ts"
  by (simp add: cover_def)

lemma cover_concat: "cover (concat sss) = concat (map cover sss)"
  by (induction sss) (simp_all add: cover_append, simp add: cover_def)

fun fill_slots :: "cluster_slot list \<Rightarrow> (nat \<Rightarrow> nptr) \<Rightarrow> (nat \<Rightarrow> nptr) p_res" where
  "fill_slots [] table = p_ok table"
| "fill_slots (s # ss) table = bind_p (fill_range (sl_node s) (sl_start s) (sl_end s + 1 - sl_start s) table) (fill_slots ss)"

lemma fill_table_list:
  assumes "ha_ok a" "\<forall>j \<in> set js. j < ha_nelem a"
  shows "fill_table a js table = fill_slots (map ((!) (ha_list a)) js) table"
  using assms(2)
proof (induction js arbitrary: table)
  case (Cons j js)
  then have "ha_read a (hiarray_get a j) = Inr (ha_list a ! j)" "fill_table a js = fill_slots (map ((!) (ha_list a)) js)"
    using ha_read_list [OF assms(1)] by auto
  then show ?case by simp
qed simp

lemma fill_range_eq:
  assumes "p \<noteq> 0"
  shows "fill_range p k n table = (if \<forall>i \<in> {k..<k + n}. table i = 0 then p_ok (\<lambda>i. if i \<in> {k..<k + n} then p else table i)
    else p_err 2 ''Diffent node hold a same slot'')"
proof (induction n arbitrary: k table)
  case (Suc n)
  have iv: "{k..<k + Suc n} = insert k {k + 1..<k + 1 + n}" by auto
  show ?case
  proof (cases "table k = 0")
    case True
    have "(\<forall>i \<in> {k + 1..<k + 1 + n}. (table(k := p)) i = 0) \<longleftrightarrow> (\<forall>i \<in> {k..<k + Suc n}. table i = 0)"
      unfolding iv using True by auto
    moreover have "(\<lambda>i. if i \<in> {k + 1..<k + 1 + n} then p else (table(k := p)) i) = (\<lambda>i. if i \<in> {k..<k + Suc n} then p else table i)"
      unfolding iv by auto
    ultimately show ?thesis using True Suc [of "k + 1" "table(k := p)"] by (simp only: fill_range.simps simp_thms if_False)
  next
    case False
    then show ?thesis by auto
  qed
qed simp

definition fits_in :: "cluster_slot list \<Rightarrow> (nat \<Rightarrow> nptr) \<Rightarrow> bool" where
  "fits_in ss table \<longleftrightarrow> distinct (cover ss) \<and> (\<forall>i \<in> set (cover ss). table i = 0)"

definition filled_with :: "cluster_slot list \<Rightarrow> (nat \<Rightarrow> nptr) \<Rightarrow> (nat \<Rightarrow> nptr) \<Rightarrow> bool" where
  "filled_with ss table t \<longleftrightarrow> (\<forall>s \<in> set ss. \<forall>i \<in> {sl_start s..sl_end s}. t i = sl_node s) \<and> (\<forall>i. i \<notin> set (cover ss) \<longrightarrow> t i = table i)"

lemma fill_slots_spec:
  assumes "\<forall>s \<in> set ss. sl_node s \<noteq> 0"
  shows "if fits_in ss table then \<exists>t. fill_slots ss table = p_ok t \<and> filled_with ss table t else \<exists>e. fill_slots ss table = Inr (Inl e)"
  using assms
proof (induction ss arbitrary: table)
  case (Cons s ss)
  define n where "n = sl_end s + 1 - sl_start s"
  define R where "R = {sl_start s..<sl_start s + n}"
  define t0 where "t0 = (\<lambda>i. if i \<in> R then sl_node s else table i)"
  have R: "R = set [sl_start s..<Suc (sl_end s)]" "R = {sl_start s..sl_end s}" by (auto simp: R_def n_def)
  have node: "sl_node s \<noteq> 0" using Cons.prems by simp
  have fr: "fill_range (sl_node s) (sl_start s) n table = (if \<forall>i \<in> R. table i = 0 then p_ok t0 else p_err 2 ''Diffent node hold a same slot'')"
    unfolding R_def t0_def by (rule fill_range_eq [OF node])
  have "fill_slots (s # ss) table = bind_p (fill_range (sl_node s) (sl_start s) n table) (fill_slots ss)"
    by (simp only: fill_slots.simps n_def)
  then have step: "fill_slots (s # ss) table = (if \<forall>i \<in> R. table i = 0 then fill_slots ss t0 else p_err 2 ''Diffent node hold a same slot'')"
    unfolding fr by (simp add: bind_p_def)
  have cov: "cover (s # ss) = [sl_start s..<Suc (sl_end s)] @ cover ss" by (simp add: cover_def)
  have iff: "fits_in (s # ss) table \<longleftrightarrow> (\<forall>i \<in> R. table i = 0) \<and> fits_in ss t0"
    unfolding fits_in_def cov t0_def R(1) using node by (auto simp del: upt_Suc split: if_splits)
  have "filled_with (s # ss) table t" if t: "filled_with ss t0 t" and fit: "fits_in ss t0" for t
  proof -
    have "i \<notin> set (cover ss)" if "i \<in> R" for i
      using fit that node unfolding fits_in_def t0_def by (metis (mono_tags, lifting))
    then have "\<forall>i \<in> R. t i = sl_node s" using t unfolding filled_with_def t0_def by auto
    moreover have "t i = table i" if "i \<notin> set (cover (s # ss))" for i
    proof -
      have "i \<notin> R" "i \<notin> set (cover ss)" using that unfolding cov R(1) by (auto simp del: upt_Suc)
      then show ?thesis using t unfolding filled_with_def t0_def by auto
    qed
    ultimately show ?thesis using t R(2) unfolding filled_with_def by (metis set_ConsD)
  qed
  then show ?case using Cons.IH [of t0] Cons.prems iff unfolding step by auto
qed (simp add: fits_in_def filled_with_def cover_def)

lemma mset_qsort: "mset (qsort_cmp cmp xs) = mset xs"
proof (induction xs)
  case (Cons x xs)
  have "mset (insert_cmp cmp x ys) = add_mset x (mset ys)" for ys by (induction ys) auto
  then show ?case using Cons by (simp add: qsort_cmp_def)
qed (simp add: qsort_cmp_def)

lemma mset_cover: "mset ss = mset ts \<Longrightarrow> mset (cover ss) = mset (cover ts)"
proof -
  have "mset (cover us) = (\<Sum>s\<in>#mset us. mset [sl_start s..<Suc (sl_end s)])" for us
    by (induction us) (simp_all add: cover_def del: upt_Suc)
  then show "mset ss = mset ts \<Longrightarrow> mset (cover ss) = mset (cover ts)" by simp
qed

lemma start_cmp_order:
  "cluster_slot_start_cmp x y \<le> 0 \<or> cluster_slot_start_cmp y x \<le> 0"
  "cluster_slot_start_cmp x y \<le> 0 \<Longrightarrow> cluster_slot_start_cmp y z \<le> 0 \<Longrightarrow> cluster_slot_start_cmp x z \<le> 0"
  by (auto simp: cluster_slot_start_cmp_def split: if_splits)
section \<open>Slots of the announced masters\<close>

definition ranges_ok :: "ranges \<Rightarrow> bool" where
  "ranges_ok rs \<longleftrightarrow> (\<forall>(a, b) \<in> set rs. a \<le> b \<and> b < REDIS_CLUSTER_SLOTS)"

definition slots_of :: "(bytes \<rightharpoonup> ranges) \<Rightarrow> bytes \<times> nptr \<Rightarrow> cluster_slot list" where
  "slots_of rng e = owned (snd e) (the (rng (fst e)))"

lemma push_slots_ok:
  assumes "ha_ok a" "\<forall>s \<in> set ss. sl_start s \<le> sl_end s \<and> sl_end s < REDIS_CLUSTER_SLOTS" "ha_nelem a + length ss \<le> 2 ^ 31" "\<forall>n. mem_ok M n"
  shows "\<exists>a'. push_slots M a ss = p_ok a' \<and> ha_ok a' \<and> ha_list a' = ha_list a @ ss \<and> ha_nelem a' = ha_nelem a + length ss"
  using assms(1-3)
proof (induction ss arbitrary: a)
  case (Cons s ss)
  then have "ha_nelem a < 2 ^ 31" by simp
  from ha_append_law [OF Cons.prems(1) this, of M s] assms(4) obtain b where
    b: "ha_append M a s = Inr (Some b)" "ha_ok b" "ha_list b = ha_list a @ [s]" "ha_nelem b = ha_nelem a + 1" by auto
  from Cons.IH [OF b(2)] Cons.prems(2,3) b show ?case by (auto simp: not_less not_le)
qed simp

lemma all_slots_ok:
  assumes "ha_ok a" "\<forall>(k, p) \<in> set es. ranges_ok (the (rng k)) \<and> (\<exists>n. node_at H p = Inr n \<and> announced_as k (the (rng k)) p n)"
    "ha_nelem a + length (concat (map (slots_of rng) es)) \<le> 2 ^ 31" "\<forall>n. mem_ok M n"
  shows "\<exists>a'. all_slots M H lit a es = p_ok a' \<and> ha_ok a' \<and> ha_list a' = ha_list a @ concat (map (slots_of rng) es)"
  using assms(1-3)
proof (induction es arbitrary: a lit)
  case (Cons e es)
  obtain k p where e: "e = (k, p)" by fastforce
  let ?ss = "slots_of rng e"
  obtain n where n: "node_at H p = Inr n" "announced_as k (the (rng k)) p n" "ranges_ok (the (rng k))" using Cons.prems(2) e by auto
  have "\<forall>s \<in> set ?ss. sl_start s \<le> sl_end s \<and> sl_end s < REDIS_CLUSTER_SLOTS"
    using n(3) e by (auto simp: slots_of_def owned_def ranges_ok_def)
  from push_slots_ok [OF Cons.prems(1) this _ assms(4)] Cons.prems(3) obtain b where
    b: "push_slots M a ?ss = p_ok b" "ha_ok b" "ha_list b = ha_list a @ ?ss" "ha_nelem b = ha_nelem a + length ?ss"
    by auto
  have "master_slots M H lit a p = p_ok (True, b)"
    using n(1,2) b(1) assms(4) e by (simp add: master_slots_def announced_as_def slots_of_def bind_p_def)
  moreover from Cons.IH [OF b(2), of True] Cons.prems(2,3) b(3,4)
  obtain c where "all_slots M H True b es = p_ok c" "ha_ok c" "ha_list c = ha_list a @ ?ss @ concat (map (slots_of rng) es)" by auto
  ultimately show ?case using e by (simp add: bind_p_def)
qed simp

section \<open>Disjoint and overlapping ranges\<close>

definition disjoint_ranges :: "(bytes \<rightharpoonup> ranges) \<Rightarrow> bool" where
  "disjoint_ranges rng \<longleftrightarrow> (\<forall>k \<in> dom rng. distinct (cov (the (rng k)))) \<and>
     (\<forall>k \<in> dom rng. \<forall>l \<in> dom rng. k \<noteq> l \<longrightarrow> set (cov (the (rng k))) \<inter> set (cov (the (rng l))) = {})"

lemma pairs_insert:
  assumes "\<And>k l. D k l \<Longrightarrow> D l k" "a \<notin> S"
  shows "(\<forall>k \<in> insert a S. \<forall>l \<in> insert a S. k \<noteq> l \<longrightarrow> D k l) \<longleftrightarrow> (\<forall>l \<in> S. D a l) \<and> (\<forall>k \<in> S. \<forall>l \<in> S. k \<noteq> l \<longrightarrow> D k l)"
  using assms(2) by (auto intro: assms(1))

lemma distinct_concat_keys:
  "distinct ks \<Longrightarrow> distinct (concat (map f ks)) \<longleftrightarrow>
    (\<forall>k \<in> set ks. distinct (f k)) \<and> (\<forall>k \<in> set ks. \<forall>l \<in> set ks. k \<noteq> l \<longrightarrow> set (f k) \<inter> set (f l) = {})"
proof (induction ks)
  case (Cons a ks)
  have "set (f a) \<inter> set (concat (map f ks)) = {} \<longleftrightarrow> (\<forall>l \<in> set ks. set (f a) \<inter> set (f l) = {})" by auto
  then have "distinct (concat (map f (a # ks))) \<longleftrightarrow> distinct (f a) \<and> distinct (concat (map f ks)) \<and> (\<forall>l \<in> set ks. set (f a) \<inter> set (f l) = {})"
    by simp
  moreover have "a \<notin> set ks" "distinct ks" using Cons.prems by auto
  ultimately show ?case using Cons.IH pairs_insert [of "\<lambda>k l. set (f k) \<inter> set (f l) = {}" a "set ks"]
    by (simp only: list.set(2) ball_simps(7) Int_commute simp_thms) argo
qed simp

lemma disjoint_entries:
  assumes "distinct (map fst es)" "set (map fst es) = dom rng"
  shows "distinct (cover (concat (map (slots_of rng) es))) \<longleftrightarrow> disjoint_ranges rng"
proof -
  have "cover (concat (map (slots_of rng) es)) = concat (map (\<lambda>k. cov (the (rng k))) (map fst es))"
    by (simp add: cover_concat comp_def slots_of_def cover_owned)
  then show ?thesis
    using distinct_concat_keys [OF assms(1), of "\<lambda>k. cov (the (rng k))"] unfolding assms(2) disjoint_ranges_def by simp
qed

lemma table_entries:
  assumes "dict_ok clusterNodesDictType d" "d_size d < 2 ^ 31" "dictGetIterator M = Inr it"
  obtains es where "dict_walk (d_used d + 1) d it = Inr es" "map_of es = dict_map d" "distinct (map fst es)" "length es = d_used d"
    "\<forall>k p. (k, p) \<in> set es \<longleftrightarrow> dict_map d k = Some p"
proof -
  note sm = dict_ok_small [OF assms(1,2)]
  have it: "it_index it = -1" "it_rest d it = concat (chains d)"
    using assms(3) by (auto simp: dictGetIterator_def it_rest_def split: if_splits)
  have 1: "dict_walk (d_used d + 1) d it = Inr (concat (chains d))"
    using dict_walk_rest [OF sm(1), of it "d_used d + 1"] it sm(2) by (simp del: length_concat)
  have 2: "distinct (map fst (concat (chains d)))"
    using assms(1) table_distinct by (auto simp: dict_ok_def chains_def dictReset_def)
  show thesis
    by (rule that [OF 1 _ 2]) (use sm(2) 2 in \<open>simp_all add: dict_map_def del: length_concat set_concat\<close>)
qed
section \<open>The route of the announced masters\<close>

definition routed :: "(bytes, nptr) dict \<Rightarrow> (bytes \<rightharpoonup> ranges) \<Rightarrow> (nat \<Rightarrow> nptr) \<Rightarrow> bool" where
  "routed d rng t \<longleftrightarrow> (\<forall>ad p. dict_map d ad = Some p \<longrightarrow> (\<forall>s \<in> set (cov (the (rng ad))). t s = p)) \<and>
     (\<forall>s. (\<forall>rs \<in> ran rng. s \<notin> set (cov rs)) \<longrightarrow> t s = 0)"

lemma node_at_pos: "node_at H p = Inr n \<Longrightarrow> 0 < p"
  by (simp add: node_at_def split: if_splits)

lemma hiarray_empty_sort:
  "hiarray_create M 0 8 = Some a \<Longrightarrow> hiarray_sort a cmp = Inr a \<and> ha_nelem a = 0"
  by (auto simp: hiarray_create_def hiarray_init_def hiarray_sort_def Let_def qsort_cmp_def split: if_splits)

lemma set_cov: "s \<in> set (cov rs) \<longleftrightarrow> (\<exists>(a, b) \<in> set rs. s \<in> {a..b})"
  by (auto simp: cov_def less_Suc_eq_le simp del: upt_Suc)

lemma routed_filled:
  assumes "\<forall>k p. (k, p) \<in> set es \<longleftrightarrow> dict_map d k = Some p" "dom (dict_map d) = dom rng" "set ss = set (concat (map (slots_of rng) es))"
    "filled_with ss (\<lambda>_. 0) t"
  shows "routed d rng t"
  unfolding routed_def
proof (intro conjI allI impI ballI)
  fix ad p s assume a: "dict_map d ad = Some p" "s \<in> set (cov (the (rng ad)))"
  then obtain x y where "(x, y) \<in> set (the (rng ad))" "s \<in> {x..y}" by (auto simp: set_cov)
  then have "\<lparr>sl_start = x, sl_end = y, sl_node = p\<rparr> \<in> set (slots_of rng (ad, p))" by (force simp: slots_of_def owned_def)
  moreover have "(ad, p) \<in> set es" using assms(1) a(1) by blast
  ultimately have "\<lparr>sl_start = x, sl_end = y, sl_node = p\<rparr> \<in> set ss" unfolding assms(3) by auto
  then show "t s = p" using assms(4) \<open>s \<in> {x..y}\<close> unfolding filled_with_def by fastforce
next
  fix s assume n: "\<forall>rs \<in> ran rng. s \<notin> set (cov rs)"
  have "s \<notin> set (cover ss)"
  proof
    assume "s \<in> set (cover ss)"
    then obtain sl where sl: "sl \<in> set ss" "s \<in> {sl_start sl..sl_end sl}" by (auto simp: cover_def less_Suc_eq_le simp del: upt_Suc)
    then obtain k p where e: "(k, p) \<in> set es" "sl \<in> set (slots_of rng (k, p))" unfolding assms(3) by auto
    then have "k \<in> dom rng" using assms(1,2) by blast
    then obtain rs where "rng k = Some rs" by blast
    moreover have "s \<in> set (cov (the (rng k)))" using e(2) sl(2) by (force simp: set_cov slots_of_def owned_def)
    ultimately show False using n by (auto simp: ran_def)
  qed
  then show "t s = 0" using assms(4) unfolding filled_with_def by blast
qed

lemma build_route_ok:
  assumes "announces H d rng" "\<forall>rs \<in> ran rng. ranges_ok rs" "(\<Sum>ad \<in> dom rng. length (the (rng ad))) \<le> 2 ^ 31" "\<forall>n. mem_ok M n"
    "d_used d < 2 ^ 32"
  shows "if disjoint_ranges rng then \<exists>a t. build_route M H d = p_ok (a, t) \<and> routed d rng t else build_route M H d = Inl UseAfterFree"
proof -
  have ok: "dict_ok clusterNodesDictType d" "d_size d < 2 ^ 31" "dom (dict_map d) = dom rng"
    and at: "\<And>ad p. dict_map d ad = Some p \<Longrightarrow> \<exists>n. node_at H p = Inr n \<and> announced_as ad (the (rng ad)) p n"
    using assms(1) unfolding announces_def by blast+
  obtain it :: "(bytes, nptr) dictIterator" where it: "dictGetIterator M = Inr it" using assms(4) by (simp add: dictGetIterator_def)
  obtain es where es: "dict_walk (d_used d + 1) d it = Inr es" "map_of es = dict_map d" "distinct (map fst es)" "length es = d_used d"
    "\<forall>k p. (k, p) \<in> set es \<longleftrightarrow> dict_map d k = Some p"
    by (rule table_entries [OF ok(1,2) it])
  have keys: "set (map fst es) = dom rng" using es(2) ok(3) by (metis dom_map_of_conv_image_fst set_map)
  let ?ss = "concat (map (slots_of rng) es)"
  have "length ?ss = sum_list (map (\<lambda>k. length (the (rng k))) (map fst es))"
    by (simp add: length_concat comp_def slots_of_def owned_def)
  also have "\<dots> = (\<Sum>ad \<in> dom rng. length (the (rng ad)))"
    using sum.distinct_set_conv_list [OF es(3), of "\<lambda>k. length (the (rng k))"] keys by simp
  finally have len: "length ?ss \<le> 2 ^ 31" using assms(3) by simp
  have good: "\<forall>(k, p) \<in> set es. ranges_ok (the (rng k)) \<and> (\<exists>n. node_at H p = Inr n \<and> announced_as k (the (rng k)) p n)"
  proof (clarify, rule conjI)
    fix k p assume e: "(k, p) \<in> set es"
    then have "k \<in> dom rng" "dict_map d k = Some p" using es(5) ok(3) by blast+
    then show "ranges_ok (the (rng k))" "\<exists>n. node_at H p = Inr n \<and> announced_as k (the (rng k)) p n"
      using assms(2) at by (auto simp: ran_def)
  qed
  have node: "\<forall>s \<in> set ?ss. sl_node s \<noteq> 0"
  proof
    fix s assume "s \<in> set ?ss"
    then obtain k p where "(k, p) \<in> set es" "s \<in> set (slots_of rng (k, p))" by auto
    moreover from this(1) good have "p \<noteq> 0" by (auto dest: node_at_pos)
    ultimately show "sl_node s \<noteq> 0" by (auto simp: slots_of_def owned_def)
  qed
  obtain a0 :: "cluster_slot hiarray" where a0: "hiarray_create M (d_used d) 8 = Some a0"
    using assms(4) by (simp add: hiarray_create_def hiarray_init_def Let_def)
  obtain a1 a2 where a: "all_slots M H False a0 es = p_ok a1" "hiarray_sort a1 cluster_slot_start_cmp = Inr a2"
    "fill_table a2 [0..<ha_nelem a2] (\<lambda>_. 0) = fill_slots (qsort_cmp cluster_slot_start_cmp ?ss) (\<lambda>_. 0)"
  proof (cases "d_used d = 0")
    case True
    then have "es = []" using es(4) by simp
    then show thesis using that [of a0 a0] hiarray_empty_sort [of M a0 cluster_slot_start_cmp] a0 True by (simp add: qsort_cmp_def)
  next
    case False
    then have a0ok: "ha_ok a0" "ha_list a0 = []" using hiarray_create_ok [OF a0] assms(5) by simp_all
    then have "ha_nelem a0 = 0" using length_ha_list by fastforce
    from all_slots_ok [OF a0ok(1) good _ assms(4), of False] this len a0ok(2) obtain a1 where
      a1: "all_slots M H False a0 es = p_ok a1" "ha_ok a1" "ha_list a1 = ?ss" by auto
    have "\<exists>a2. hiarray_sort a1 cluster_slot_start_cmp = Inr a2 \<and> ha_ok a2 \<and> ha_list a2 = qsort_cmp cluster_slot_start_cmp (ha_list a1)"
      by (rule hiarray_sort_list [OF a1(2) start_cmp_order(1)]) (rule start_cmp_order(2))
    then obtain a2 where
      a2: "hiarray_sort a1 cluster_slot_start_cmp = Inr a2" "ha_ok a2" "ha_list a2 = qsort_cmp cluster_slot_start_cmp ?ss"
      unfolding a1(3) by blast
    have "fill_table a2 [0..<ha_nelem a2] (\<lambda>_. 0) = fill_slots (map ((!) (ha_list a2)) [0..<ha_nelem a2]) (\<lambda>_. 0)"
      by (rule fill_table_list [OF a2(2)]) simp
    also have "map ((!) (ha_list a2)) [0..<ha_nelem a2] = ha_list a2" using length_ha_list [OF a2(2)] map_nth by metis
    finally show thesis using that a1(1) a2(1,3) by simp
  qed
  let ?qs = "qsort_cmp cluster_slot_start_cmp ?ss"
  have m: "mset ?qs = mset ?ss" by (rule mset_qsort)
  have "fits_in ?qs (\<lambda>_. 0) \<longleftrightarrow> disjoint_ranges rng"
    using disjoint_entries [OF es(3) keys] mset_eq_imp_distinct_iff [OF mset_cover [OF m]] by (simp add: fits_in_def)
  moreover have "set ?qs = set ?ss" using m by (rule mset_eq_setD)
  moreover from this have "\<forall>s \<in> set ?qs. sl_node s \<noteq> 0" using node by (simp only:)
  moreover have "build_route M H d = bind_c (fill_slots ?qs (\<lambda>_. 0)) (\<lambda>r. case r of Inl _ \<Rightarrow> Inl UseAfterFree | Inr table \<Rightarrow> p_ok (a2, table))"
    using a0 it es(1) a by (simp add: build_route_def bind_p_def)
  ultimately show ?thesis
    using fill_slots_spec [of ?qs "\<lambda>_. 0"] routed_filled [OF es(5) ok(3), of ?qs] by (auto split: if_splits)
qed
section \<open>Connections\<close>

text \<open>The connections filed under an address.\<close>

definition conns :: "(bytes, nptr) dict \<Rightarrow> nheap \<Rightarrow> bytes \<Rightarrow> nat option \<times> nat option" where
  "conns d H ad =
     (case dict_map d ad of
        None \<Rightarrow> (None, None)
      | Some q \<Rightarrow> (case node_at H q of Inl _ \<Rightarrow> (None, None) | Inr n \<Rightarrow> (cn_con n, cn_acon n)))"

definition with_conns :: "nat option \<times> nat option \<Rightarrow> cluster_node \<Rightarrow> cluster_node" where
  "with_conns c n = n\<lparr>cn_con := fst c, cn_acon := snd c\<rparr>"

lemma swap_node_law:
  assumes "dict_ok clusterNodesDictType f" "node_at H p = Inr n" "cn_addr n = Some k" "cn_con n = None" "cn_acon n = None"
    "\<forall>q. dict_map f k = Some q \<longrightarrow> q \<noteq> p \<and> (\<exists>m. node_at H q = Inr m)"
  shows "\<exists>H'. swap_node f H p = Inr H' \<and> node_at H' p = Inr (with_conns (conns f H k) n) \<and>
    (\<forall>r. r \<noteq> p \<longrightarrow> dict_map f k \<noteq> Some r \<longrightarrow> node_at H' r = node_at H r)"
proof -
  note p = node_at_pos [OF assms(2)]
  note find = nodes.dictFind_law [OF assms(1), of k]
  show ?thesis
  proof (cases "dict_map f k")
    case None
    then have "conns f H k = (None, None)" by (simp add: conns_def)
    moreover have "with_conns (None, None) n = n" using assms(4,5) by (simp add: with_conns_def)
    ultimately show ?thesis using None find assms(2,3) p by (simp add: swap_node_def)
  next
    case (Some q)
    then obtain m where m: "node_at H q = Inr m" "q \<noteq> p" using assms(6) by blast
    let ?H = "node_set (node_set H q (with_conns (None, None) m)) p (with_conns (conns f H k) n)"
    note q = node_at_pos [OF m(1)]
    have c: "conns f H k = (cn_con m, cn_acon m)" using m Some by (simp add: conns_def)
    have "swap_node f H p = Inr ?H"
      using find m Some p assms(2-5) c by (cases m; cases n; cases "cn_con m"; cases "cn_acon m") (simp_all add: swap_node_def with_conns_def Let_def)
    moreover have "node_at ?H p = Inr (with_conns (conns f H k) n)"
      using node_at_set(1) [of "node_set H q (with_conns (None, None) m)" p n] node_at_set_other [OF q m(2)] assms(2) by simp
    moreover have "\<forall>r. r \<noteq> p \<longrightarrow> dict_map f k \<noteq> Some r \<longrightarrow> node_at ?H r = node_at H r"
      using Some p q by (auto simp: node_at_set_other)
    ultimately show ?thesis by blast
  qed
qed

lemma swap_nodes_law:
  assumes "dict_ok clusterNodesDictType f" "\<forall>(k, p) \<in> set es. L < p \<and> (\<exists>n. node_at H p = Inr n \<and> cn_addr n = Some k \<and> cn_con n = None \<and> cn_acon n = None)"
    "\<forall>(k, p) \<in> set es. \<forall>q. dict_map f k = Some q \<longrightarrow> q \<le> L \<and> (\<exists>m. node_at H q = Inr m)" "inj_on (dict_map f) (dom (dict_map f))" "distinct (map fst es)"
  shows "\<exists>H'. swap_nodes f H es = Inr H' \<and> (\<forall>(k, p) \<in> set es. \<forall>n. node_at H p = Inr n \<longrightarrow> node_at H' p = Inr (with_conns (conns f H k) n)) \<and>
    (\<forall>r > L. r \<notin> snd ` set es \<longrightarrow> node_at H' r = node_at H r)"
  using assms(2,3,5)
proof (induction es arbitrary: H)
  case (Cons e es)
  obtain k p where e: "e = (k, p)" by fastforce
  obtain n where n: "node_at H p = Inr n" "cn_addr n = Some k" "cn_con n = None" "cn_acon n = None" and p: "L < p"
    using Cons.prems(1) e by auto
  have old: "\<forall>q. dict_map f k = Some q \<longrightarrow> q \<noteq> p \<and> (\<exists>m. node_at H q = Inr m)" using Cons.prems(2) p e by auto
  from swap_node_law [OF assms(1) n old] obtain H1 where H1: "swap_node f H p = Inr H1" "node_at H1 p = Inr (with_conns (conns f H k) n)"
    "\<forall>r. r \<noteq> p \<longrightarrow> dict_map f k \<noteq> Some r \<longrightarrow> node_at H1 r = node_at H r" by blast
  have other: "node_at H1 r = node_at H r" if "r \<noteq> p" "L < r" for r
    using H1(3) that Cons.prems(2) e by auto
  have diff: "k' \<noteq> k \<and> p' \<noteq> p" if mem: "(k', p') \<in> set es" for k' p'
  proof -
    have "k' \<noteq> k" using mem Cons.prems(3) e by force
    moreover obtain n' where "node_at H p' = Inr n'" "cn_addr n' = Some k'" using Cons.prems(1) mem by auto
    ultimately show ?thesis using n(1,2) by auto
  qed
  have same: "node_at H1 q = node_at H q" if "(k', p') \<in> set es" "dict_map f k' = Some q" for k' p' q
  proof -
    have "q \<le> L" using Cons.prems(2) that by auto
    moreover have "dict_map f k \<noteq> Some q" using diff [OF that(1)] assms(4) that(2) unfolding inj_on_def by (metis domI)
    ultimately show ?thesis using H1(3) p by auto
  qed
  then have conns: "conns f H1 k' = conns f H k'" if "(k', p') \<in> set es" for k' p'
    using that by (simp add: conns_def split: option.splits)
  have 1: "\<forall>(k, p) \<in> set es. L < p \<and> (\<exists>n. node_at H1 p = Inr n \<and> cn_addr n = Some k \<and> cn_con n = None \<and> cn_acon n = None)"
    using Cons.prems(1) other diff by fastforce
  have 2: "\<forall>(k, p) \<in> set es. \<forall>q. dict_map f k = Some q \<longrightarrow> q \<le> L \<and> (\<exists>m. node_at H1 q = Inr m)"
    using Cons.prems(2) same by fastforce
  from Cons.IH [OF 1 2] Cons.prems(3) obtain H' where H': "swap_nodes f H1 es = Inr H'"
    "\<forall>(k, p) \<in> set es. \<forall>n. node_at H1 p = Inr n \<longrightarrow> node_at H' p = Inr (with_conns (conns f H1 k) n)"
    "\<forall>r > L. r \<notin> snd ` set es \<longrightarrow> node_at H' r = node_at H1 r" by auto
  have "p \<notin> snd ` set es" using diff by force
  then have "node_at H' p = Inr (with_conns (conns f H k) n)" using H'(3) H1(2) p by simp
  moreover have "\<forall>(k, p) \<in> set es. \<forall>n. node_at H p = Inr n \<longrightarrow> node_at H' p = Inr (with_conns (conns f H k) n)"
    using H'(2) 1 diff conns other Cons.prems(1) e by fastforce
  ultimately show ?case using H1(1) H'(1,3) other e n(1) by auto
qed simp

text \<open>A table of nodes: every entry is a node that has its key as address.\<close>

definition nodes_ok :: "nheap \<Rightarrow> (bytes, nptr) dict \<Rightarrow> bool" where
  "nodes_ok H d \<longleftrightarrow> dict_ok clusterNodesDictType d \<and> (\<forall>ad p. dict_map d ad = Some p \<longrightarrow> (\<exists>n. node_at H p = Inr n \<and> cn_addr n = Some ad))"

lemma announces_nodes_ok: "announces H d rng \<Longrightarrow> nodes_ok H d"
  unfolding announces_def nodes_ok_def announced_as_def by blast

lemma nodes_ok_inj: "nodes_ok H d \<Longrightarrow> inj_on (dict_map d) (dom (dict_map d))"
  unfolding nodes_ok_def by (rule inj_onI) (metis domD option.inject sum.inject(2))

lemma announced_with_conns: "announced_as k rs p (with_conns c n) \<longleftrightarrow> announced_as k rs p n"
  by (simp add: announced_as_def with_conns_def)

lemma node_at_old:
  assumes "take (length H\<^sub>0) H = H\<^sub>0" "node_at H\<^sub>0 q = Inr m"
  shows "node_at H q = Inr m \<and> q \<le> length H\<^sub>0"
proof -
  obtain K where "H = H\<^sub>0 @ K" using assms(1) by (metis append_take_drop_id)
  then show ?thesis using assms(2) by (auto simp: node_at_def rd_def nth_append split: if_splits)
qed

definition old_conns :: "redisClusterContext \<Rightarrow> bytes \<Rightarrow> nat option \<times> nat option" where
  "old_conns cc ad = (case cc_nodes cc of None \<Rightarrow> (None, None) | Some d \<Rightarrow> conns d (cc_heap cc) ad)"

definition cc_ok :: "redisClusterContext \<Rightarrow> bool" where
  "cc_ok cc \<longleftrightarrow> (case cc_nodes cc of None \<Rightarrow> True | Some d \<Rightarrow> nodes_ok (cc_heap cc) d)"

lemma swap_ctx_ok:
  assumes "cc_ok cc" "new_nodes (cc_heap cc) H d rng" "\<forall>n. mem_ok M n"
  shows "\<exists>H'. cluster_nodes_swap_ctx M (cc_nodes cc) d H = Inr H' \<and> announces H' d rng \<and>
    (\<forall>ad p. dict_map d ad = Some p \<longrightarrow> (\<exists>n. node_at H' p = Inr n \<and> (cn_con n, cn_acon n) = old_conns cc ad))"
proof -
  have an: "announces H d rng" and old: "take (length (cc_heap cc)) H = cc_heap cc"
    and fresh: "\<And>ad p. dict_map d ad = Some p \<Longrightarrow> length (cc_heap cc) < p \<and> (\<exists>n. node_at H p = Inr n \<and> announced_as ad (the (rng ad)) p n \<and> cn_con n = None \<and> cn_acon n = None)"
    using assms(2) unfolding new_nodes_def announces_def ran_def by fastforce+
  have ok: "dict_ok clusterNodesDictType d" "d_size d < 2 ^ 31" "dom (dict_map d) = dom rng" using an unfolding announces_def by blast+
  have "\<exists>H'. cluster_nodes_swap_ctx M (cc_nodes cc) d H = Inr H' \<and>
      (\<forall>ad p. dict_map d ad = Some p \<longrightarrow> (\<forall>n. node_at H p = Inr n \<longrightarrow> node_at H' p = Inr (with_conns (old_conns cc ad) n)))"
  proof (cases "cc_nodes cc")
    case None
    have "with_conns (None, None) n = n" if "node_at H p = Inr n" "dict_map d ad = Some p" for n p ad
    proof -
      have "cn_con n = None" "cn_acon n = None" using fresh [OF that(2)] that(1) by auto
      then show ?thesis by (simp add: with_conns_def)
    qed
    then show ?thesis using None by (simp add: cluster_nodes_swap_ctx_def old_conns_def)
  next
    case (Some f)
    then have f: "nodes_ok (cc_heap cc) f" using assms(1) by (simp add: cc_ok_def)
    then have fok: "dict_ok clusterNodesDictType f"
      and fat: "\<And>k q. dict_map f k = Some q \<Longrightarrow> \<exists>m. node_at (cc_heap cc) q = Inr m" unfolding nodes_ok_def by blast+
    obtain it :: "(bytes, nptr) dictIterator" where it: "dictGetIterator M = Inr it" using assms(3) by (simp add: dictGetIterator_def)
    obtain es where es: "dict_walk (d_used d + 1) d it = Inr es" "distinct (map fst es)" "\<forall>k p. (k, p) \<in> set es \<longleftrightarrow> dict_map d k = Some p"
      by (rule table_entries [OF ok(1,2) it])
    have 1: "\<forall>(k, p) \<in> set es. length (cc_heap cc) < p \<and> (\<exists>n. node_at H p = Inr n \<and> cn_addr n = Some k \<and> cn_con n = None \<and> cn_acon n = None)"
      using fresh es(3) by (fastforce simp: announced_as_def)
    have 2: "\<forall>(k, p) \<in> set es. \<forall>q. dict_map f k = Some q \<longrightarrow> q \<le> length (cc_heap cc) \<and> (\<exists>m. node_at H q = Inr m)"
      using fat node_at_old [OF old] by blast
    have c: "conns f H k = old_conns cc k" for k
    proof (cases "dict_map f k")
      case (Some q)
      then obtain m where "node_at (cc_heap cc) q = Inr m" using fat by blast
      then show ?thesis using Some node_at_old [OF old] \<open>cc_nodes cc = Some f\<close> by (auto simp: conns_def old_conns_def)
    qed (use \<open>cc_nodes cc = Some f\<close> in \<open>simp add: conns_def old_conns_def\<close>)
    from swap_nodes_law [OF fok 1 2 nodes_ok_inj [OF f] es(2)] show ?thesis
      using Some it es(1,3) unfolding c by (fastforce simp: cluster_nodes_swap_ctx_def)
  qed
  then obtain H' where H': "cluster_nodes_swap_ctx M (cc_nodes cc) d H = Inr H'"
    "\<And>ad p n. dict_map d ad = Some p \<Longrightarrow> node_at H p = Inr n \<Longrightarrow> node_at H' p = Inr (with_conns (old_conns cc ad) n)" by blast
  have at: "\<exists>n. node_at H' p = Inr n \<and> announced_as ad (the (rng ad)) p n \<and> (cn_con n, cn_acon n) = old_conns cc ad"
    if mp: "dict_map d ad = Some p" for ad p
  proof -
    obtain n where n: "node_at H p = Inr n" "announced_as ad (the (rng ad)) p n" using fresh [OF mp] by blast
    then show ?thesis using H'(2) [OF mp n(1)] announced_with_conns by (auto simp: with_conns_def)
  qed
  then have "announces H' d rng" using ok unfolding announces_def by blast
  then show ?thesis using H'(1) at by blast
qed
section \<open>From the answer to the route\<close>

definition net_announces :: "net \<Rightarrow> redisClusterContext \<Rightarrow> bytes \<Rightarrow> int \<Rightarrow> (bytes \<rightharpoonup> ranges) \<Rightarrow> bool" where
  "net_announces net cc ip port rng \<longleftrightarrow>
     (if and (cc_flags cc) HIRCLUSTER_FLAG_ROUTE_USE_SLOTS \<noteq> 0 then
        \<exists>e gs. net ip port ''CLUSTER SLOTS'' = Answered e (RArr (map reg_reply gs)) \<and> (\<forall>g \<in> set gs. reg_ok g) \<and> gs \<noteq> [] \<and>
          length gs < 2 ^ 28 \<and> rng = slots_ranges gs
      else
        \<exists>e ls. net ip port ''CLUSTER NODES'' = Answered e (RStr (topo_text ls)) \<and> (\<forall>l \<in> set ls. line_ok l) \<and>
          distinct (map mi_addr (masters ls)) \<and> length (masters ls) < 2 ^ 28 \<and> length (topo_text ls) < 2 ^ 31 \<and> rng = topo_ranges ls)"

lemma topo_ranges_ok:
  assumes "\<forall>l \<in> set ls. line_ok l" "rs \<in> ran (topo_ranges ls)"
  shows "ranges_ok rs"
proof -
  obtain m where "m \<in> set (masters ls)" "rs = mi_ranges m"
    using assms(2) by (auto simp: topo_ranges_def ran_def dest!: map_of_SomeD)
  then show ?thesis using masters_ok [OF assms(1)] by (auto simp: line_ok_def ranges_ok_def)
qed

lemma slots_ranges_ok: "\<forall>g \<in> set gs. reg_ok g \<Longrightarrow> rs \<in> ran (slots_ranges gs) \<Longrightarrow> ranges_ok rs"
  by (auto simp: slots_ranges_def ran_def ranges_ok_def reg_ok_def split: if_splits)

lemma card_dom_ranges:
  "card (dom (topo_ranges ls)) \<le> length (masters ls)" "card (dom (slots_ranges gs)) \<le> length gs"
proof -
  show "card (dom (topo_ranges ls)) \<le> length (masters ls)"
    unfolding topo_ranges_master(2) using card_image_le [of "set (masters ls)" mi_addr] card_length [of "masters ls"] by simp
  have "dom (slots_ranges gs) = rg_addr ` set gs" by (auto simp: slots_ranges_def split: if_splits)
  then show "card (dom (slots_ranges gs)) \<le> length gs" using card_image_le [of "set gs" rg_addr] card_length [of gs] by simp
qed

lemma fetch_announced:
  assumes "net_announces net cc ip port rng" "0 < port" "\<forall>n. mem_ok M n" "and (cc_flags cc) HIRCLUSTER_FLAG_ADD_SLAVE = 0"
  obtains H d where "fetch_nodes M net cc ip port = p_ok (H, d)" "new_nodes (cc_heap cc) H d rng" "\<forall>rs \<in> ran rng. ranges_ok rs"
    "card (dom rng) < 2 ^ 28"
proof (cases "and (cc_flags cc) HIRCLUSTER_FLAG_ROUTE_USE_SLOTS \<noteq> 0")
  case True
  then obtain e gs where gs: "net ip port ''CLUSTER SLOTS'' = Answered e (RArr (map reg_reply gs))" "\<forall>g \<in> set gs. reg_ok g" "gs \<noteq> []"
      "length gs < 2 ^ 28" "rng = slots_ranges gs" using assms(1) unfolding net_announces_def by auto
  obtain H d where "parse_cluster_slots M (cc_flags cc) (RArr (map reg_reply gs)) (cc_heap cc) = p_ok (H, d)" "new_nodes (cc_heap cc) H d rng"
    using parse_slots_new_nodes [OF gs(2-4) assms(3,4), of "cc_heap cc"] gs(5) by blast
  moreover from this(1) have "fetch_nodes M net cc ip port = p_ok (H, d)" using True assms(2) gs(1) by (simp add: fetch_nodes_def)
  moreover have "card (dom rng) < 2 ^ 28" using card_dom_ranges(2) [of gs] gs(4,5) by simp
  ultimately show thesis using that slots_ranges_ok [OF gs(2)] gs(5) by blast
next
  case False
  then obtain e ls where ls: "net ip port ''CLUSTER NODES'' = Answered e (RStr (topo_text ls))" "\<forall>l \<in> set ls. line_ok l"
      "distinct (map mi_addr (masters ls))" "length (masters ls) < 2 ^ 28" "length (topo_text ls) < 2 ^ 31" "rng = topo_ranges ls"
    using assms(1) unfolding net_announces_def by auto
  obtain S where S: "parse_cluster_nodes M (cc_flags cc) (topo_text ls) (cc_heap cc) = p_ok (ps_heap S, ps_nodes S)" "parsed_masters (cc_heap cc) (masters ls) S"
    using parse_topo [OF ls(2-4) assms(3,4), of "cc_heap cc"] by blast
  have "take (nat (int32 (int (length (topo_text ls))))) (topo_text ls) = topo_text ls" using ls(5) by (simp add: int32_id)
  then have "fetch_nodes M net cc ip port = p_ok (ps_heap S, ps_nodes S)" using False assms(2) ls(1) S(1) by (simp add: fetch_nodes_def)
  moreover have "card (dom rng) < 2 ^ 28" using card_dom_ranges(1) [of ls] ls(4,6) by simp
  moreover have "new_nodes (cc_heap cc) (ps_heap S) (ps_nodes S) rng" using parsed_masters_new_nodes [OF ls(2) S(2) ls(3,4)] ls(6) by simp
  ultimately show thesis using that topo_ranges_ok [OF ls(2)] ls(6) by blast
qed

lemma announces_used:
  assumes "announces H d rng"
  shows "d_used d = card (dom rng)" "finite (dom rng)"
proof -
  have ok: "dict_ok clusterNodesDictType d" "d_size d < 2 ^ 31" "dom (dict_map d) = dom rng" using assms unfolding announces_def by blast+
  show "finite (dom rng)" unfolding ok(3) [symmetric] by (simp add: dict_map_def finite_dom_map_of)
  have "\<exists>it :: (bytes, nptr) dictIterator. dictGetIterator granting = Inr it" by (simp add: dictGetIterator_def)
  then obtain it :: "(bytes, nptr) dictIterator" where it: "dictGetIterator granting = Inr it" ..
  obtain es where es: "map_of es = dict_map d" "distinct (map fst es)" "length es = d_used d"
    by (rule table_entries [OF ok(1,2) it])
  have "card (dom rng) = card (set (map fst es))" using es(1) ok(3) by (metis dom_map_of_conv_image_fst set_map)
  then show "d_used d = card (dom rng)" using es(2,3) by (metis distinct_card length_map)
qed

lemma disjoint_count:
  assumes "disjoint_ranges rng" "\<forall>rs \<in> ran rng. ranges_ok rs" "finite (dom rng)"
  shows "(\<Sum>ad \<in> dom rng. length (the (rng ad))) \<le> REDIS_CLUSTER_SLOTS"
proof -
  have len: "length rs \<le> length (cov rs)" if "ranges_ok rs" for rs
    using that by (induction rs) (auto simp: cov_def ranges_ok_def simp del: upt_Suc)
  have sub: "set (cov rs) \<subseteq> {..<REDIS_CLUSTER_SLOTS}" if "ranges_ok rs" for rs
    using that by (force simp: set_cov ranges_ok_def)
  have ok: "ranges_ok (the (rng ad))" if "ad \<in> dom rng" for ad using assms(2) that by (auto simp: ran_def)
  have "(\<Sum>ad \<in> dom rng. length (the (rng ad))) \<le> (\<Sum>ad \<in> dom rng. card (set (cov (the (rng ad)))))"
    using len ok assms(1) by (intro sum_mono) (simp add: disjoint_ranges_def distinct_card)
  also have "\<dots> = card (\<Union>ad \<in> dom rng. set (cov (the (rng ad))))"
    using assms(1,3) by (intro card_UN_disjoint [symmetric]) (auto simp: disjoint_ranges_def)
  also have "\<dots> \<le> card {..<REDIS_CLUSTER_SLOTS}" using sub ok by (intro card_mono) auto
  finally show ?thesis by simp
qed
section \<open>A failed update leaves the route\<close>

definition same_route :: "redisClusterContext \<Rightarrow> redisClusterContext \<Rightarrow> bool" where
  "same_route cc cc' \<longleftrightarrow> cc'\<lparr>cc_err := cc_err cc, cc_errstr := cc_errstr cc\<rparr> = cc"

lemma same_route_refl: "same_route cc cc" "same_route cc (redisClusterSetError cc ty msg)" "same_route cc (set_p_error cc e)"
  by (simp_all add: same_route_def redisClusterSetError_def set_p_error_def split: option.split)

lemma same_route_trans: "same_route cc cc' \<Longrightarrow> same_route cc' cc'' \<Longrightarrow> same_route cc cc''"
  by (cases cc; cases cc'; cases cc'') (simp add: same_route_def)

lemma same_route_version:
  "same_route cc cc' \<Longrightarrow> cc_route_version cc' = cc_route_version cc"
  "same_route cc cc' \<Longrightarrow> cc_retry_count cc' = cc_retry_count cc \<and> cc_max_redirect_count cc' = cc_max_redirect_count cc"
  by (cases cc; cases cc'; simp add: same_route_def)+

text \<open>The two ends of an update: nothing but the error changed, or a new route with the next version.\<close>

definition update_ends :: "redisClusterContext \<Rightarrow> int \<Rightarrow> redisClusterContext \<Rightarrow> bool" where
  "update_ends cc ret cc' \<longleftrightarrow> ret = -1 \<and> same_route cc cc' \<or> ret = 0 \<and> cc_route_version cc' = cc_route_version cc + 1 \<and> cc_nodes cc' \<noteq> None \<and>
     cc_retry_count cc' = cc_retry_count cc \<and> cc_max_redirect_count cc' = cc_max_redirect_count cc"

lemma update_ends_trans: "same_route cc cc1 \<Longrightarrow> update_ends cc1 ret cc' \<Longrightarrow> update_ends cc ret cc'"
  by (auto simp: update_ends_def dest: same_route_trans same_route_version)

lemma update_by_addr_ends:
  "cluster_update_route_by_addr M net cc ip port = Inr (ret, cc') \<Longrightarrow> update_ends cc ret cc'"
  unfolding cluster_update_route_by_addr_def
  by (auto simp: update_ends_def bind_c_def same_route_refl split: sum.splits prod.splits)

lemma try_nodes_ends:
  "try_nodes M net cc ns es = Inr (ret, ns', cc') \<Longrightarrow> update_ends cc ret cc'"
proof (induction es arbitrary: cc ns)
  case Nil
  then show ?case by (auto simp: update_ends_def same_route_refl)
next
  case (Cons e es)
  obtain k p where e: "e = (k, p)" by fastforce
  show ?case
  proof (cases "p = 0")
    case True
    then show ?thesis using Cons e by simp
  next
    case False
    then obtain n where n: "node_at (cc_heap cc) p = Inr n" using Cons.prems e by (auto simp: bind_c_def split: sum.splits)
    show ?thesis
    proof (cases "cn_host n = None \<or> cn_port n < 0")
      case True
      then show ?thesis using Cons False n e by (auto split: option.splits)
    next
      case hp: False
      then obtain host where h: "cn_host n = Some host" "\<not> cn_port n < 0" by auto
      then obtain r1 cc1 where r1: "cluster_update_route_by_addr M net cc host (cn_port n) = Inr (r1, cc1)"
        using Cons.prems False n e by (auto simp: bind_c_def split: sum.splits)
      note e1 = update_by_addr_ends [OF r1]
      show ?thesis
      proof (cases "r1 = 0")
        case True
        then show ?thesis using Cons.prems False n h r1 e1 e by (auto simp: update_ends_def split: if_splits)
      next
        case r: False
        then have "try_nodes M net cc1 False es = Inr (ret, ns', cc')" using Cons.prems False n h r1 e by simp
        then have "update_ends cc1 ret cc'" by (rule Cons.IH)
        moreover have "same_route cc cc1" using e1 r by (simp add: update_ends_def)
        ultimately show ?thesis using update_ends_trans by blast
      qed
    qed
  qed
qed

lemma update_route_ends:
  assumes "cluster_update_route M net cc = Inr (ret, cc')"
  shows "update_ends cc ret cc'"
proof -
  obtain r1 ns cc1 where 1: "(case cc_ip cc of
        Some ip \<Rightarrow> if cc_port cc > 0 then bind_c (cluster_update_route_by_addr M net cc ip (cc_port cc)) (\<lambda>(ret, cc). Inr (ret, False, cc))
          else Inr (-1, True, cc)
      | None \<Rightarrow> Inr (-1, True, cc)) = Inr (r1, ns, cc1)"
    using assms unfolding cluster_update_route_def bind_c_def [of "case cc_ip cc of None \<Rightarrow> _ | Some x \<Rightarrow> _ x"] by (auto split: sum.splits)
  have e1: "update_ends cc r1 cc1"
    using 1 update_by_addr_ends by (auto simp: update_ends_def same_route_refl bind_c_def split: option.splits if_splits sum.splits prod.splits)
  show ?thesis
  proof (cases "r1 = 0")
    case True
    then show ?thesis using assms e1 unfolding cluster_update_route_def 1 by simp
  next
    case False
    then have same: "same_route cc cc1" using e1 by (simp add: update_ends_def)
    have "update_ends cc1 ret cc'"
    proof (cases "cc_nodes cc1")
      case None
      then show ?thesis using assms False unfolding cluster_update_route_def 1 by (auto simp: update_ends_def same_route_refl)
    next
      case (Some nds)
      then obtain es r2 ns2 cc2 where t: "try_nodes M net cc1 ns es = Inr (r2, ns2, cc2)"
          "(if r2 = 0 then Inr (0, cc2) :: (int \<times> redisClusterContext) c_res else Inr (-1, if ns2 then redisClusterSetError cc2 2 ''no valid server address'' else cc2)) = Inr (ret, cc')"
        using assms False unfolding cluster_update_route_def 1 by (auto simp: bind_c_def split: sum.splits prod.splits)
      then show ?thesis using try_nodes_ends [OF t(1)] same_route_refl(1,2) same_route_trans by (auto simp: update_ends_def split: if_splits)
    qed
    then show ?thesis using same update_ends_trans by blast
  qed
qed

lemma update_by_addr_ok:
  assumes "cc_ok cc" "net_announces net cc ip port rng" "disjoint_ranges rng" "0 < port" "\<forall>n. mem_ok M n"
    "and (cc_flags cc) HIRCLUSTER_FLAG_ADD_SLAVE = 0"
  shows "\<exists>cc' d. cluster_update_route_by_addr M net cc ip port = Inr (0, cc') \<and> cc_nodes cc' = Some d \<and> announces (cc_heap cc') d rng \<and>
    cc_route_version cc' = cc_route_version cc + 1 \<and>
    (\<forall>ad p. dict_map d ad = Some p \<longrightarrow> (\<forall>s \<in> set (cov (the (rng ad))). cc_table cc' s = p) \<and>
      (\<exists>n. node_at (cc_heap cc') p = Inr n \<and> (cn_con n, cn_acon n) = old_conns cc ad)) \<and>
    (\<forall>s. (\<forall>rs \<in> ran rng. s \<notin> set (cov rs)) \<longrightarrow> cc_table cc' s = 0)"
proof -
  obtain H d where H: "fetch_nodes M net cc ip port = p_ok (H, d)" "new_nodes (cc_heap cc) H d rng" "\<forall>rs \<in> ran rng. ranges_ok rs"
      "card (dom rng) < 2 ^ 28"
    by (rule fetch_announced [OF assms(2,4-6)])
  have an: "announces H d rng" using H(2) by (simp add: new_nodes_def)
  note used = announces_used [OF an]
  have "(\<Sum>ad \<in> dom rng. length (the (rng ad))) \<le> 2 ^ 31" using disjoint_count [OF assms(3) H(3) used(2)] by simp
  from build_route_ok [OF an H(3) this assms(5)] used(1) H(4) assms(3) obtain a t where
    t: "build_route M H d = p_ok (a, t)" "routed d rng t" by auto
  obtain H' where H': "cluster_nodes_swap_ctx M (cc_nodes cc) d H = Inr H'" "announces H' d rng"
      "\<forall>ad p. dict_map d ad = Some p \<longrightarrow> (\<exists>n. node_at H' p = Inr n \<and> (cn_con n, cn_acon n) = old_conns cc ad)"
    using swap_ctx_ok [OF assms(1) H(2) assms(5)] by blast
  let ?cc = "cc\<lparr>cc_heap := H', cc_nodes := Some d, cc_slots := Some a, cc_table := t, cc_route_version := cc_route_version cc + 1\<rparr>"
  have "cluster_update_route_by_addr M net cc ip port = Inr (0, ?cc)"
    using H(1) t(1) H'(1) by (simp add: cluster_update_route_by_addr_def bind_p_def)
  then show ?thesis using H'(2,3) t(2) by (intro exI [of _ ?cc] exI [of _ d]) (simp add: routed_def)
qed

section \<open>Properties\<close>

text \<open>
  C12: the routing table a client builds is the announced one. When the node at an address answers CLUSTER
  NODES (or CLUSTER SLOTS, by the flag) with a topology in which no slot is announced twice, the update
  succeeds: the table of nodes holds exactly the announced masters, every announced slot is routed to the node
  of the address that announced it, every other slot to no node, the version grows by one, and each node that
  was known before keeps its connections.
\<close>

theorem cluster_update_route_by_addr_correct:
  assumes "cc_ok cc" "net_announces net cc ip port rng" "disjoint_ranges rng" "0 < port" "\<forall>n. mem_ok M n"
    "and (cc_flags cc) HIRCLUSTER_FLAG_ADD_SLAVE = 0"
  shows "\<exists>cc' d. cluster_update_route_by_addr M net cc ip port = Inr (0, cc') \<and> cc_nodes cc' = Some d \<and> announces (cc_heap cc') d rng \<and>
    cc_route_version cc' = cc_route_version cc + 1 \<and>
    (\<forall>ad p. dict_map d ad = Some p \<longrightarrow> (\<forall>s \<in> set (cov (the (rng ad))). cc_table cc' s = p) \<and>
      (\<exists>n. node_at (cc_heap cc') p = Inr n \<and> (cn_con n, cn_acon n) = old_conns cc ad)) \<and>
    (\<forall>s. (\<forall>rs \<in> ran rng. s \<notin> set (cov rs)) \<longrightarrow> cc_table cc' s = 0)"
  by (rule update_by_addr_ok [OF assms])

theorem cluster_update_route_by_addr_correct_witness:
  "\<exists>cc' d. cluster_update_route_by_addr granting
      (\<lambda>ip port command. Answered 0 (RArr (map reg_reply [\<lparr>rg_start = 0, rg_end = 1, rg_host = ''h'', rg_port = 7, rg_id = RNil, rg_replicas = []\<rparr>])))
      \<lparr>cc_err = 0, cc_errstr = [], cc_ip = None, cc_port = 0, cc_flags = 0x4000, cc_slots = None, cc_nodes = None, cc_table = (\<lambda>_. 0),
        cc_route_version = 0, cc_max_redirect_count = 5, cc_retry_count = 0, cc_heap = []\<rparr> ''h'' 7 = Inr (0, cc') \<and>
    cc_nodes cc' = Some d \<and> dict_map d ''h:7'' = Some (cc_table cc' 1) \<and> cc_table cc' 2 = 0"
proof -
  let ?g = "\<lparr>rg_start = 0, rg_end = 1, rg_host = ''h'', rg_port = 7, rg_id = RNil, rg_replicas = []\<rparr>"
  let ?net = "\<lambda>ip port command. Answered 0 (RArr (map reg_reply [?g]))"
  let ?cc = "\<lparr>cc_err = 0, cc_errstr = [], cc_ip = None, cc_port = 0, cc_flags = 0x4000, cc_slots = None, cc_nodes = None, cc_table = (\<lambda>_. 0),
        cc_route_version = 0, cc_max_redirect_count = 5, cc_retry_count = 0, cc_heap = []\<rparr> :: redisClusterContext"
  have "dec 7 = ''7''" by code_simp
  then have rng: "slots_ranges [?g] = [''h:7'' \<mapsto> [(0, 1)]]" by (intro ext) (simp add: slots_ranges_def rg_addr_def)
  have "cc_ok ?cc" by (simp add: cc_ok_def)
  moreover have "net_announces ?net ?cc ''h'' 7 [''h:7'' \<mapsto> [(0, 1)]]"
    unfolding net_announces_def using rng by (auto simp: reg_ok_def intro!: exI [of _ 0] exI [of _ "[?g]"])
  moreover have "disjoint_ranges [''h:7'' \<mapsto> [(0, 1)]]" by (simp add: disjoint_ranges_def cov_def)
  moreover have "and (cc_flags ?cc) HIRCLUSTER_FLAG_ADD_SLAVE = 0" by simp
  ultimately obtain cc' d where r: "cluster_update_route_by_addr granting ?net ?cc ''h'' 7 = Inr (0, cc')" "cc_nodes cc' = Some d"
      "announces (cc_heap cc') d [''h:7'' \<mapsto> [(0, 1)]]"
      "\<forall>ad p. dict_map d ad = Some p \<longrightarrow> (\<forall>s \<in> set (cov (the ([''h:7'' \<mapsto> [(0, 1)]] ad))). cc_table cc' s = p)"
      "\<forall>s. (\<forall>rs \<in> ran [''h:7'' \<mapsto> [(0, 1)]]. s \<notin> set (cov rs)) \<longrightarrow> cc_table cc' s = 0"
    using cluster_update_route_by_addr_correct [of ?cc ?net "''h''" 7 "[''h:7'' \<mapsto> [(0, 1)]]" granting] by auto
  have "dom (dict_map d) = {''h:7''}" using r(3) by (simp add: announces_def)
  then obtain p where p: "dict_map d ''h:7'' = Some p" by blast
  then have "cc_table cc' 1 = p" using r(4) by (simp add: cov_def)
  moreover have "cc_table cc' 2 = 0" using r(5) by (simp add: cov_def)
  ultimately show ?thesis using r(1,2) p by blast
qed

text \<open>
  C37: a topology that announces a slot twice is detected, but the error path is wrong: the iterator over the
  nodes was already released when the overlap is found, and the label \<^verbatim>\<open>error\<close> releases it again. Whatever
  overlapping ranges a server announces, the client runs into this double release.
\<close>

theorem cluster_update_route_overlap_double_free:
  assumes "net_announces net cc ip port rng" "\<not> disjoint_ranges rng" "0 < port" "\<forall>n. mem_ok M n"
    "and (cc_flags cc) HIRCLUSTER_FLAG_ADD_SLAVE = 0" "(\<Sum>ad \<in> dom rng. length (the (rng ad))) \<le> 2 ^ 31"
  shows "cluster_update_route_by_addr M net cc ip port = Inl UseAfterFree"
proof -
  obtain H d where H: "fetch_nodes M net cc ip port = p_ok (H, d)" "new_nodes (cc_heap cc) H d rng" "\<forall>rs \<in> ran rng. ranges_ok rs"
      "card (dom rng) < 2 ^ 28"
    by (rule fetch_announced [OF assms(1,3-5)])
  have an: "announces H d rng" using H(2) by (simp add: new_nodes_def)
  have "build_route M H d = Inl UseAfterFree"
    using build_route_ok [OF an H(3) assms(6,4)] announces_used(1) [OF an] H(4) assms(2) by simp
  then show ?thesis using H(1) by (simp add: cluster_update_route_by_addr_def bind_p_def)
qed

theorem cluster_update_route_overlap_double_free_witness:
  "cluster_update_route_by_addr granting
      (\<lambda>ip port command. Answered 0 (RArr (map reg_reply
        [\<lparr>rg_start = 0, rg_end = 1, rg_host = ''h'', rg_port = 7, rg_id = RNil, rg_replicas = []\<rparr>,
         \<lparr>rg_start = 1, rg_end = 2, rg_host = ''h'', rg_port = 7, rg_id = RNil, rg_replicas = []\<rparr>])))
      \<lparr>cc_err = 0, cc_errstr = [], cc_ip = None, cc_port = 0, cc_flags = 0x4000, cc_slots = None, cc_nodes = None, cc_table = (\<lambda>_. 0),
        cc_route_version = 0, cc_max_redirect_count = 5, cc_retry_count = 0, cc_heap = []\<rparr> ''h'' 7 = Inl UseAfterFree"
proof -
  let ?gs = "[\<lparr>rg_start = 0, rg_end = 1, rg_host = ''h'', rg_port = 7, rg_id = RNil, rg_replicas = []\<rparr>,
         \<lparr>rg_start = 1, rg_end = 2, rg_host = ''h'', rg_port = 7, rg_id = RNil, rg_replicas = []\<rparr>]"
  let ?net = "\<lambda>ip port command. Answered 0 (RArr (map reg_reply ?gs))"
  let ?cc = "\<lparr>cc_err = 0, cc_errstr = [], cc_ip = None, cc_port = 0, cc_flags = 0x4000, cc_slots = None, cc_nodes = None, cc_table = (\<lambda>_. 0),
        cc_route_version = 0, cc_max_redirect_count = 5, cc_retry_count = 0, cc_heap = []\<rparr> :: redisClusterContext"
  let ?rng = "[''h:7'' \<mapsto> [(0, 1), (1, 2)]]"
  have "dec 7 = ''7''" by code_simp
  then have rng: "slots_ranges ?gs = ?rng" by (intro ext) (simp add: slots_ranges_def rg_addr_def)
  have "net_announces ?net ?cc ''h'' 7 ?rng"
    unfolding net_announces_def using rng by (auto simp: reg_ok_def intro!: exI [of _ 0] exI [of _ ?gs])
  moreover have "\<not> disjoint_ranges ?rng" by (simp add: disjoint_ranges_def cov_def)
  moreover have "and (cc_flags ?cc) HIRCLUSTER_FLAG_ADD_SLAVE = 0" "(\<Sum>ad \<in> dom ?rng. length (the (?rng ad))) \<le> 2 ^ 31" by simp_all
  ultimately show ?thesis
    using cluster_update_route_overlap_double_free [of ?net ?cc "''h''" 7 ?rng granting] by auto
qed


end
