(* ===== verification/Cluster_Exec.thy ===== *)
theory Cluster_Exec
  imports Cluster_Route
begin

text \<open>
  How the cluster client executes one command (\<^verbatim>\<open>redis_cluster_command_execute\<close> of \<^verbatim>\<open>src/hircluster.c\<close>): the node
  of the slot, its connection, and the redirections MOVED, ASK, TRYAGAIN, CROSSSLOT and CLUSTERDOWN, each of which
  counts against the maximum of redirections.

  Connections belong to the network, a parameter with a state of its own: \<open>conn_ops\<close> are the operations the code
  uses on them, and \<open>Absent\<close> is no reply. A connection is known by a handle, which is what \<^verbatim>\<open>node->con\<close> holds;
  the timeouts of the context are part of connecting.
\<close>

section \<open>Connections\<close>

record 'w conn_ops =
  op_connect :: "bytes \<Rightarrow> int \<Rightarrow> 'w \<Rightarrow> nat option \<times> 'w"
  op_reconnect :: "nat \<Rightarrow> 'w \<Rightarrow> 'w"
  op_err :: "nat \<Rightarrow> 'w \<Rightarrow> int \<times> bytes"
  op_command :: "nat \<Rightarrow> bytes \<Rightarrow> 'w \<Rightarrow> reply \<times> 'w"
  op_net :: "'w \<Rightarrow> net"
  op_asked :: "'w \<Rightarrow> 'w"

definition ctx_get_by_node :: "'w conn_ops \<Rightarrow> nptr \<Rightarrow> nheap \<Rightarrow> 'w \<Rightarrow> (nat option \<times> nheap \<times> 'w) c_res" where
  "ctx_get_by_node Op p H w =
     (if p = 0 then Inr (None, H, w)
      else
        bind_c (node_at H p) (\<lambda>node.
          case cn_con node of
            Some c \<Rightarrow> Inr (Some c, H, if fst (op_err Op c w) \<noteq> 0 then op_reconnect Op c w else w)
          | None \<Rightarrow>
              (case cn_host node of
                 None \<Rightarrow> Inr (None, H, w)
               | Some host \<Rightarrow>
                   if cn_port node \<le> 0 then Inr (None, H, w)
                   else (case op_connect Op host (cn_port node) w of (c, w) \<Rightarrow> Inr (c, node_set H p (node\<lparr>cn_con := c\<rparr>), w)))))"

definition node_get_by_table :: "redisClusterContext \<Rightarrow> nat \<Rightarrow> nptr" where
  "node_get_by_table cc slot_num = (if slot_num \<ge> REDIS_CLUSTER_SLOTS then 0 else cc_table cc slot_num)"

definition is_pong :: "reply \<Rightarrow> bool" where
  "is_pong r = (case r of RStatus s \<Rightarrow> cstr s = ''PONG'' | _ \<Rightarrow> False)"

fun ping_nodes :: "'w conn_ops \<Rightarrow> (bytes \<times> nptr) list \<Rightarrow> nheap \<Rightarrow> 'w \<Rightarrow> (nptr \<times> nheap \<times> 'w) c_res" where
  "ping_nodes Op [] H w = Inr (0, H, w)"
| "ping_nodes Op ((k, p) # es) H w =
     (if p = 0 then ping_nodes Op es H w
      else
        bind_c (ctx_get_by_node Op p H w) (\<lambda>(c, H, w).
          case c of
            None \<Rightarrow> ping_nodes Op es H w
          | Some c \<Rightarrow>
              if fst (op_err Op c w) \<noteq> 0 then ping_nodes Op es H w
              else (case op_command Op c ''PING'' w of (r, w) \<Rightarrow> if is_pong r then Inr (p, H, w) else ping_nodes Op es H w)))"

definition node_get_witch_connected :: "mem \<Rightarrow> 'w conn_ops \<Rightarrow> redisClusterContext \<Rightarrow> 'w \<Rightarrow> (nptr \<times> redisClusterContext \<times> 'w) c_res" where
  "node_get_witch_connected M Op cc w =
     (case cc_nodes cc of
        None \<Rightarrow> Inr (0, cc, w)
      | Some nds \<Rightarrow>
          bind_c (dictGetIterator M) (\<lambda>it.
            bind_c (dict_walk (d_used nds + 1) nds it) (\<lambda>es.
              bind_c (ping_nodes Op es (cc_heap cc) w) (\<lambda>(p, H, w). Inr (p, cc\<lparr>cc_heap := H\<rparr>, w)))))"

section \<open>Error replies\<close>

abbreviation (input) CLUSTER_NOT_ERR :: int where "CLUSTER_NOT_ERR \<equiv> 0"
abbreviation (input) CLUSTER_ERR_MOVED :: int where "CLUSTER_ERR_MOVED \<equiv> 1"
abbreviation (input) CLUSTER_ERR_ASK :: int where "CLUSTER_ERR_ASK \<equiv> 2"
abbreviation (input) CLUSTER_ERR_TRYAGAIN :: int where "CLUSTER_ERR_TRYAGAIN \<equiv> 3"
abbreviation (input) CLUSTER_ERR_CROSSSLOT :: int where "CLUSTER_ERR_CROSSSLOT \<equiv> 4"
abbreviation (input) CLUSTER_ERR_CLUSTERDOWN :: int where "CLUSTER_ERR_CLUSTERDOWN \<equiv> 5"
abbreviation (input) CLUSTER_ERR_SENTINEL :: int where "CLUSTER_ERR_SENTINEL \<equiv> 6"

definition says :: "bytes \<Rightarrow> bytes \<Rightarrow> bool" where
  "says s pre \<longleftrightarrow> int (length pre) < int32 (int (length s)) \<and> take (length pre) s = pre"

definition cluster_reply_error_type :: "reply \<Rightarrow> int" where
  "cluster_reply_error_type r =
     (case r of
        Absent \<Rightarrow> -1
      | RErr s \<Rightarrow>
          if says s ''MOVED'' then CLUSTER_ERR_MOVED
          else if says s ''ASK'' then CLUSTER_ERR_ASK
          else if says s ''TRYAGAIN'' then CLUSTER_ERR_TRYAGAIN
          else if says s ''CROSSSLOT'' then CLUSTER_ERR_CROSSSLOT
          else if says s ''CLUSTERDOWN'' then CLUSTER_ERR_CLUSTERDOWN
          else CLUSTER_ERR_SENTINEL
      | _ \<Rightarrow> CLUSTER_NOT_ERR)"

text \<open>
  A node for the address of an ASK reply. The node that is made for an unknown address is filed under the second
  word of the reply, which is the slot, and not under the address it was looked up with.
\<close>

definition ask_node :: "mem \<Rightarrow> bytes \<Rightarrow> bytes \<Rightarrow> bytes \<Rightarrow> redisClusterContext \<Rightarrow> (nptr \<times> redisClusterContext) c_res" where
  "ask_node M slot ip port cc =
     (if \<not> mem_ok M 96 then Inr (0, redisClusterSetError cc 5 ''Out of memory'')
      else
        (let node = cluster_node_init\<lparr>cn_addr := Some slot, cn_host := Some ip, cn_port := hi_atoi port, cn_role := REDIS_ROLE_MASTER\<rparr>;
             p = length (cc_heap cc) + 1
         in case cc_nodes cc of
              None \<Rightarrow> Inl NullDeref
            | Some nds \<Rightarrow>
                bind_c (bind_c (sds_key M slot) (\<lambda>key. dictAdd M clusterNodesDictType nds key p)) (\<lambda>(_, nds).
                  Inr (p, cc\<lparr>cc_heap := cc_heap cc @ [node], cc_nodes := Some nds\<rparr>))))"

definition node_get_by_ask_error_reply :: "mem \<Rightarrow> redisClusterContext \<Rightarrow> reply \<Rightarrow> (nptr \<times> redisClusterContext) c_res" where
  "node_get_by_ask_error_reply M cc r =
     (if r = Absent then Inr (0, cc)
      else if cluster_reply_error_type r \<noteq> CLUSTER_ERR_ASK then Inr (0, redisClusterSetError cc 2 ''reply is not ask error!'')
      else
        (case r of
           RErr s \<Rightarrow>
             bind_c (split_at M CHR '' '' (take (nat (int32 (int (length s)))) s)) (\<lambda>ts.
               case map_option (map content) ts of
                 Some [_, slot, addr] \<Rightarrow>
                   bind_c (split_at M CHR '':'' addr) (\<lambda>us.
                     case map_option (map content) us of
                       Some [ip, port] \<Rightarrow>
                         (case cc_nodes cc of
                            None \<Rightarrow> Inl NullDeref
                          | Some nds \<Rightarrow>
                              bind_c (dictFind clusterNodesDictType nds addr) (\<lambda>de.
                                case de of Some (_, p) \<Rightarrow> Inr (p, cc) | None \<Rightarrow> ask_node M slot ip port cc))
                     | _ \<Rightarrow> Inr (0, redisClusterSetError cc 2 ''ask error reply address part parse error!''))
               | _ \<Rightarrow> Inr (0, redisClusterSetError cc 2 ''ask error reply parse error!''))
         | _ \<Rightarrow> Inl NullDeref))"

section \<open>The loop of redirections\<close>

text \<open>Where the loop continues: at the label \<^verbatim>\<open>retry\<close>, or at \<^verbatim>\<open>ask_retry\<close> with a connection.\<close>

datatype exec_at = Retry | AskRetry nat

datatype exec_next = Finished reply | Again exec_at

definition ctx_error :: "'w conn_ops \<Rightarrow> nat \<Rightarrow> 'w \<Rightarrow> redisClusterContext \<Rightarrow> redisClusterContext" where
  "ctx_error Op c w cc = redisClusterSetError cc (fst (op_err Op c w)) (snd (op_err Op c w))"

definition count_redirect :: "redisClusterContext \<Rightarrow> bool \<times> redisClusterContext" where
  "count_redirect cc =
     (let cc = cc\<lparr>cc_retry_count := int32 (cc_retry_count cc + 1)\<rparr> in
      if cc_retry_count cc > cc_max_redirect_count cc
      then (False, redisClusterSetError cc 6 ''too many cluster redirect'') else (True, cc))"

text \<open>From \<^verbatim>\<open>retry\<close> to \<^verbatim>\<open>ask_retry\<close>: a connection that has no error, or the end.\<close>

definition usable_conn :: "'w conn_ops \<Rightarrow> bytes \<Rightarrow> nptr \<Rightarrow> redisClusterContext \<Rightarrow> 'w \<Rightarrow> (nat option \<times> redisClusterContext \<times> 'w) c_res" where
  "usable_conn Op msg p cc w =
     bind_c (ctx_get_by_node Op p (cc_heap cc) w) (\<lambda>(c, H, w).
       let cc = cc\<lparr>cc_heap := H\<rparr> in
       case c of
         None \<Rightarrow> Inr (None, redisClusterSetError cc 2 msg, w)
       | Some c \<Rightarrow> if fst (op_err Op c w) \<noteq> 0 then Inr (None, ctx_error Op c w cc, w) else Inr (Some c, cc, w))"

definition slot_conn :: "mem \<Rightarrow> 'w conn_ops \<Rightarrow> nat \<Rightarrow> redisClusterContext \<Rightarrow> 'w \<Rightarrow> (nat option \<times> redisClusterContext \<times> 'w) c_res" where
  "slot_conn M Op slot_num cc w =
     (let p = node_get_by_table cc slot_num in
      if p = 0 then Inr (None, redisClusterSetError cc 2 ''node get by table error'', w)
      else
        bind_c (ctx_get_by_node Op p (cc_heap cc) w) (\<lambda>(c, H, w).
          let cc = cc\<lparr>cc_heap := H\<rparr> in
          case c of
            None \<Rightarrow> Inr (None, redisClusterSetError cc 2 ''ctx get by node is null'', w)
          | Some c \<Rightarrow>
              if fst (op_err Op c w) = 0 then Inr (Some c, cc, w)
              else
                bind_c (node_get_witch_connected M Op cc w) (\<lambda>(q, cc, w).
                  if q = 0 then Inr (None, redisClusterSetError cc 2 ''no reachable node in cluster'', w)
                  else
                    (case count_redirect cc of (go, cc) \<Rightarrow>
                       if go then usable_conn Op ''ctx get by node error'' q cc w else Inr (None, cc, w)))))"

definition redirect_moved :: "mem \<Rightarrow> 'w conn_ops \<Rightarrow> redisClusterContext \<Rightarrow> 'w \<Rightarrow> (exec_next \<times> redisClusterContext \<times> 'w) c_res" where
  "redirect_moved M Op cc w =
     bind_c (cluster_update_route M (op_net Op w) cc) (\<lambda>(ret, cc).
       if ret \<noteq> 0 then
         Inr (Finished Absent, redisClusterSetError cc 2 ''route update error, please recreate redisClusterContext!'', op_asked Op w)
       else Inr (Again Retry, cc, op_asked Op w))"

definition redirect_ask :: "mem \<Rightarrow> 'w conn_ops \<Rightarrow> reply \<Rightarrow> redisClusterContext \<Rightarrow> 'w \<Rightarrow> (exec_next \<times> redisClusterContext \<times> 'w) c_res" where
  "redirect_ask M Op r cc w =
     bind_c (node_get_by_ask_error_reply M cc r) (\<lambda>(p, cc).
       if p = 0 then Inr (Finished Absent, cc, w)
       else
         bind_c (usable_conn Op ''ctx get by node error'' p cc w) (\<lambda>(c, cc, w).
           case c of
             None \<Rightarrow> Inr (Finished Absent, cc, w)
           | Some c \<Rightarrow>
               (case op_command Op c ''ASKING'' w of (a, w) \<Rightarrow>
                  if a = Absent then Inr (Finished Absent, ctx_error Op c w cc, w) else Inr (Again (AskRetry c), cc, w))))"

definition exec_step :: "mem \<Rightarrow> 'w conn_ops \<Rightarrow> nat \<Rightarrow> bytes \<Rightarrow> exec_at \<Rightarrow> redisClusterContext \<Rightarrow> 'w \<Rightarrow>
    (exec_next \<times> redisClusterContext \<times> 'w) c_res" where
  "exec_step M Op slot_num cmd at cc w =
     bind_c (case at of Retry \<Rightarrow> slot_conn M Op slot_num cc w | AskRetry c \<Rightarrow> Inr (Some c, cc, w)) (\<lambda>(c, cc, w).
       case c of
         None \<Rightarrow> Inr (Finished Absent, cc, w)
       | Some c \<Rightarrow>
           (case op_command Op c cmd w of (r, w) \<Rightarrow>
              if r = Absent then Inr (Finished Absent, ctx_error Op c w cc, w)
              else
                (let error_type = cluster_reply_error_type r in
                 if error_type > CLUSTER_NOT_ERR \<and> error_type < CLUSTER_ERR_SENTINEL then
                   (case count_redirect cc of (go, cc) \<Rightarrow>
                      if \<not> go then Inr (Finished Absent, cc, w)
                      else if error_type = CLUSTER_ERR_MOVED then redirect_moved M Op cc w
                      else if error_type = CLUSTER_ERR_ASK then redirect_ask M Op r cc w
                      else Inr (Again Retry, cc, w))
                 else Inr (Finished r, cc, w))))"

text \<open>The loop; \<open>None\<close> is a loop that is still running when the fuel is used up.\<close>

fun exec_loop :: "nat \<Rightarrow> mem \<Rightarrow> 'w conn_ops \<Rightarrow> nat \<Rightarrow> bytes \<Rightarrow> exec_at \<Rightarrow> redisClusterContext \<Rightarrow> 'w \<Rightarrow>
    (reply \<times> redisClusterContext \<times> 'w) c_res option" where
  "exec_loop 0 M Op slot_num cmd at cc w = None"
| "exec_loop (Suc n) M Op slot_num cmd at cc w =
     (case exec_step M Op slot_num cmd at cc w of
        Inl e \<Rightarrow> Some (Inl e)
      | Inr (Finished r, cc, w) \<Rightarrow> Some (Inr (r, cc, w))
      | Inr (Again at, cc, w) \<Rightarrow> exec_loop n M Op slot_num cmd at cc w)"

text \<open>Each round but the last counts a redirection.\<close>

definition exec_rounds :: "redisClusterContext \<Rightarrow> nat" where
  "exec_rounds cc = Suc (nat (cc_max_redirect_count cc - cc_retry_count cc))"

definition redis_cluster_command_execute :: "mem \<Rightarrow> 'w conn_ops \<Rightarrow> int \<Rightarrow> bytes \<Rightarrow> redisClusterContext \<Rightarrow> 'w \<Rightarrow>
    (reply \<times> redisClusterContext \<times> 'w) c_res option" where
  "redis_cluster_command_execute M Op slot_num cmd cc w = exec_loop (exec_rounds cc) M Op (uint32 slot_num) cmd Retry cc w"

section \<open>The budget of redirections\<close>

definition budget :: "redisClusterContext \<Rightarrow> int \<times> int" where
  "budget cc = (cc_retry_count cc, cc_max_redirect_count cc)"

lemma budget_simps [simp]:
  "budget (cc\<lparr>cc_heap := H\<rparr>) = budget cc" "budget (cc\<lparr>cc_nodes := nds\<rparr>) = budget cc" "budget (redisClusterSetError cc ty msg) = budget cc"
  "budget (ctx_error Op c w cc) = budget cc"
  by (simp_all add: budget_def redisClusterSetError_def ctx_error_def)

lemma usable_conn_budget: "usable_conn Op msg p cc w = Inr (c, cc', w') \<Longrightarrow> budget cc' = budget cc"
  by (auto simp: usable_conn_def bind_c_def Let_def split: sum.splits prod.splits option.splits if_splits)

lemma connected_budget: "node_get_witch_connected M Op cc w = Inr (p, cc', w') \<Longrightarrow> budget cc' = budget cc"
  by (auto simp: node_get_witch_connected_def bind_c_def split: sum.splits prod.splits option.splits)

lemma ask_budget: "node_get_by_ask_error_reply M cc r = Inr (p, cc') \<Longrightarrow> budget cc' = budget cc"
  by (auto simp: node_get_by_ask_error_reply_def ask_node_def bind_c_def Let_def
      split: if_splits reply.splits sum.splits option.splits list.splits prod.splits)

lemma update_route_budget: "cluster_update_route M net cc = Inr (ret, cc') \<Longrightarrow> budget cc' = budget cc"
  using update_route_ends [of M net cc ret cc'] same_route_version(2) [of cc cc'] by (auto simp: update_ends_def budget_def)

lemma count_redirect_budget:
  assumes "count_redirect cc = (True, cc')" "- (2 ^ 31) \<le> cc_retry_count cc" "cc_retry_count cc \<le> cc_max_redirect_count cc"
    "cc_max_redirect_count cc < 2 ^ 31 - 1"
  shows "cc_retry_count cc' = cc_retry_count cc + 1 \<and> cc_retry_count cc' \<le> cc_max_redirect_count cc' \<and>
    cc_max_redirect_count cc' = cc_max_redirect_count cc"
proof -
  have "int32 (cc_retry_count cc + 1) = cc_retry_count cc + 1" using assms(2-4) by (simp add: int32_id)
  then show ?thesis using assms(1) by (auto simp: count_redirect_def Let_def split: if_splits)
qed

definition within :: "redisClusterContext \<Rightarrow> bool" where
  "within cc \<longleftrightarrow> - (2 ^ 31) \<le> cc_retry_count cc \<and> cc_retry_count cc \<le> cc_max_redirect_count cc \<and> cc_max_redirect_count cc < 2 ^ 31 - 1"

lemma within_budget: "budget cc' = budget cc \<Longrightarrow> within cc' \<longleftrightarrow> within cc" "budget cc' = budget cc \<Longrightarrow> exec_rounds cc' = exec_rounds cc"
  by (simp_all add: within_def budget_def exec_rounds_def)

lemma count_redirect_less: "count_redirect cc = (True, cc') \<Longrightarrow> within cc \<Longrightarrow> within cc' \<and> exec_rounds cc' < exec_rounds cc"
  using count_redirect_budget [of cc cc'] by (auto simp: within_def exec_rounds_def)

lemma slot_conn_within:
  assumes "slot_conn M Op slot_num cc w = Inr (Some c, cc', w')" "within cc"
  shows "within cc' \<and> exec_rounds cc' \<le> exec_rounds cc"
proof -
  let ?p = "node_get_by_table cc slot_num"
  have "?p \<noteq> 0" using assms(1) by (auto simp: slot_conn_def Let_def split: if_splits)
  then obtain c1 H w1 where ctx: "ctx_get_by_node Op ?p (cc_heap cc) w = Inr (Some c1, H, w1)"
    using assms(1) by (auto simp: slot_conn_def bind_c_def Let_def split: sum.splits prod.splits option.splits)
  let ?cc = "cc\<lparr>cc_heap := H\<rparr>"
  show ?thesis
  proof (cases "fst (op_err Op c1 w1) = 0")
    case True
    then have "cc' = ?cc" using assms(1) \<open>?p \<noteq> 0\<close> ctx by (simp add: slot_conn_def)
    then show ?thesis using within_budget [of ?cc cc] assms(2) by simp
  next
    case False
    then obtain q cc1 w2 where q: "node_get_witch_connected M Op ?cc w1 = Inr (q, cc1, w2)" "q \<noteq> 0"
      using assms(1) \<open>?p \<noteq> 0\<close> ctx by (auto simp: slot_conn_def bind_c_def split: sum.splits prod.splits if_splits)
    then obtain cc2 where cc2: "count_redirect cc1 = (True, cc2)" "usable_conn Op ''ctx get by node error'' q cc2 w2 = Inr (Some c, cc', w')"
      using assms(1) \<open>?p \<noteq> 0\<close> ctx False by (auto simp: slot_conn_def split: prod.splits if_splits)
    have "budget cc1 = budget cc" using connected_budget [OF q(1)] by simp
    then have "within cc2 \<and> exec_rounds cc2 < exec_rounds cc"
      using count_redirect_less [OF cc2(1)] within_budget [of cc1 cc] assms(2) by simp
    then show ?thesis using usable_conn_budget [OF cc2(2)] within_budget [of cc' cc2] by simp
  qed
qed

lemma redirect_moved_budget: "redirect_moved M Op cc w = Inr (x, cc', w') \<Longrightarrow> budget cc' = budget cc"
  using update_route_budget by (fastforce simp: redirect_moved_def bind_c_def split: sum.splits prod.splits if_splits)

lemma redirect_ask_budget: "redirect_ask M Op r cc w = Inr (x, cc', w') \<Longrightarrow> budget cc' = budget cc"
  using ask_budget usable_conn_budget
  by (fastforce simp: redirect_ask_def bind_c_def split: sum.splits prod.splits if_splits option.splits)

lemma exec_step_less:
  assumes "exec_step M Op slot_num cmd at cc w = Inr (Again at', cc', w')" "within cc"
  shows "within cc' \<and> exec_rounds cc' < exec_rounds cc"
proof -
  obtain c cc1 w1 where c: "(case at of Retry \<Rightarrow> slot_conn M Op slot_num cc w | AskRetry c \<Rightarrow> Inr (Some c, cc, w)) = Inr (Some c, cc1, w1)"
    using assms(1) unfolding exec_step_def bind_c_def [of "case at of Retry \<Rightarrow> _ | AskRetry x \<Rightarrow> _ x"]
    by (auto split: sum.splits prod.splits option.splits)
  have 1: "within cc1 \<and> exec_rounds cc1 \<le> exec_rounds cc"
    using c slot_conn_within [of M Op slot_num cc w c cc1 w1] assms(2) by (auto split: exec_at.splits)
  obtain r w2 where r: "op_command Op c cmd w1 = (r, w2)" by fastforce
  obtain cc2 where cc2: "count_redirect cc1 = (True, cc2)"
      "redirect_moved M Op cc2 w2 = Inr (Again at', cc', w') \<or> redirect_ask M Op r cc2 w2 = Inr (Again at', cc', w') \<or> cc' = cc2"
    using assms(1) unfolding exec_step_def c by (auto simp: r Let_def split: if_splits prod.splits)
  have "budget cc' = budget cc2" using cc2(2) redirect_moved_budget [of M Op cc2 w2 "Again at'" cc' w']
      redirect_ask_budget [of M Op r cc2 w2 "Again at'" cc' w'] by auto
  then show ?thesis using count_redirect_less [OF cc2(1)] 1 within_budget [of cc' cc2] by auto
qed

lemma exec_loop_ends:
  assumes "within cc" "exec_rounds cc \<le> n"
  shows "\<exists>r. exec_loop n M Op slot_num cmd at cc w = Some r \<and> (\<forall>k. exec_loop (n + k) M Op slot_num cmd at cc w = Some r)"
  using assms
proof (induction n arbitrary: cc w at)
  case 0
  then show ?case by (simp add: exec_rounds_def)
next
  case (Suc n)
  show ?case
  proof (cases "exec_step M Op slot_num cmd at cc w")
    case (Inr s)
    obtain x cc1 w1 where s: "s = (x, cc1, w1)" using prod_cases3 by blast
    show ?thesis
    proof (cases x)
      case (Again at1)
      then have "within cc1 \<and> exec_rounds cc1 < exec_rounds cc" using exec_step_less [of M Op slot_num cmd at cc w at1 cc1 w1] Inr s Suc.prems(1) by simp
      then show ?thesis using Suc.IH [of cc1 at1 w1] Suc.prems(2) Inr s Again by simp
    qed (use Inr s in simp)
  qed simp
qed

section \<open>Following a redirection\<close>

text \<open>A node can be talked to: its connection has no error, or it has none and connecting gives one.\<close>

definition conn_ready :: "'w conn_ops \<Rightarrow> nat option \<Rightarrow> bytes \<Rightarrow> int \<Rightarrow> 'w \<Rightarrow> nat \<Rightarrow> 'w \<Rightarrow> bool" where
  "conn_ready Op con host port w c w' \<longleftrightarrow> fst (op_err Op c w') = 0 \<and>
     (case con of Some c0 \<Rightarrow> c = c0 \<and> w' = w | None \<Rightarrow> op_connect Op host port w = (Some c, w'))"

lemma ctx_ready:
  assumes "node_at H p = Inr n" "cn_host n = Some host" "0 < cn_port n" "conn_ready Op (cn_con n) host (cn_port n) w c w'"
  shows "\<exists>H'. ctx_get_by_node Op p H w = Inr (Some c, H', w')"
  using assms node_at_pos [OF assms(1)]
  by (cases "cn_con n") (auto simp: ctx_get_by_node_def conn_ready_def)

lemma exec_step_ready:
  assumes "node_get_by_table cc slot_num = p" "node_at (cc_heap cc) p = Inr n" "cn_host n = Some host" "0 < cn_port n"
    "conn_ready Op (cn_con n) host (cn_port n) w c w1" "op_command Op c cmd w1 = (r, w2)" "r \<noteq> Absent"
    "\<not> (0 < cluster_reply_error_type r \<and> cluster_reply_error_type r < CLUSTER_ERR_SENTINEL)"
  shows "\<exists>H. exec_step M Op slot_num cmd Retry cc w = Inr (Finished r, cc\<lparr>cc_heap := H\<rparr>, w2)"
proof -
  obtain H where "ctx_get_by_node Op p (cc_heap cc) w = Inr (Some c, H, w1)" using ctx_ready [OF assms(2-5)] ..
  moreover have "fst (op_err Op c w1) = 0" using assms(5) by (simp add: conn_ready_def)
  ultimately have "slot_conn M Op slot_num cc w = Inr (Some c, cc\<lparr>cc_heap := H\<rparr>, w1)"
    using assms(1) node_at_pos [OF assms(2)] by (simp add: slot_conn_def)
  then show ?thesis using assms(6-8) by (auto simp: exec_step_def Let_def)
qed

lemma moved_type: "says s ''MOVED'' \<Longrightarrow> cluster_reply_error_type (RErr s) = CLUSTER_ERR_MOVED"
  by (simp add: cluster_reply_error_type_def)

lemma exec_step_moved:
  assumes "node_get_by_table cc slot_num = p" "node_at (cc_heap cc) p = Inr n" "cn_con n = Some c" "fst (op_err Op c w) = 0"
    "op_command Op c cmd w = (RErr s, w1)" "says s ''MOVED''" "count_redirect cc = (True, cc1)"
    "cluster_update_route M (op_net Op w1) cc1 = Inr (0, cc')"
  shows "exec_step M Op slot_num cmd Retry cc w = Inr (Again Retry, cc', op_asked Op w1)"
proof -
  have "ctx_get_by_node Op p (cc_heap cc) w = Inr (Some c, cc_heap cc, w)"
    using assms(2-4) node_at_pos [OF assms(2)] by (simp add: ctx_get_by_node_def)
  then have "slot_conn M Op slot_num cc w = Inr (Some c, cc, w)"
    using assms(1,4) node_at_pos [OF assms(2)] by (simp add: slot_conn_def)
  then show ?thesis using assms(5-8) by (simp add: exec_step_def Let_def moved_type redirect_moved_def)
qed

section \<open>Properties\<close>

text \<open>
  C8: executing a command ends, whatever the network does. However the nodes answer and however often a command
  is redirected, the loop of \<^verbatim>\<open>redis_cluster_command_execute\<close> needs at most one round more than redirections are
  left, and more fuel does not change its result.
\<close>

theorem redis_cluster_command_execute_ends:
  assumes "- (2 ^ 31) \<le> cc_retry_count cc" "cc_retry_count cc \<le> cc_max_redirect_count cc" "cc_max_redirect_count cc < 2 ^ 31 - 1"
  shows "\<exists>r. redis_cluster_command_execute M Op slot_num cmd cc w = Some r \<and>
    (\<forall>k. exec_loop (exec_rounds cc + k) M Op (uint32 slot_num) cmd Retry cc w = Some r)"
  unfolding redis_cluster_command_execute_def using assms by (intro exec_loop_ends) (simp_all add: within_def)

theorem redis_cluster_command_execute_ends_witness:
  "\<exists>r. redis_cluster_command_execute granting
      \<lparr>op_connect = (\<lambda>host port w. (Some 1, w)), op_reconnect = (\<lambda>c w. w), op_err = (\<lambda>c w. (0, [])),
       op_command = (\<lambda>c cmd w. (RErr ''TRYAGAIN x'', w + 1)), op_net = (\<lambda>w ip port cmd. NoContext), op_asked = (\<lambda>w. w)\<rparr> 5 ''x''
      \<lparr>cc_err = 0, cc_errstr = [], cc_ip = None, cc_port = 0, cc_flags = 0, cc_slots = None, cc_nodes = None, cc_table = (\<lambda>_. 1),
        cc_route_version = 0, cc_max_redirect_count = 5, cc_retry_count = 0, cc_heap = [cluster_node_init\<lparr>cn_con := Some 3\<rparr>]\<rparr> (0::nat) = Some r"
  using redis_cluster_command_execute_ends [of "\<lparr>cc_err = 0, cc_errstr = [], cc_ip = None, cc_port = 0, cc_flags = 0, cc_slots = None,
      cc_nodes = None, cc_table = (\<lambda>_. 1), cc_route_version = 0, cc_max_redirect_count = 5, cc_retry_count = 0,
      cc_heap = [cluster_node_init\<lparr>cn_con := Some 3\<rparr>]\<rparr>" granting "\<lparr>op_connect = (\<lambda>host port w. (Some 1, w)), op_reconnect = (\<lambda>c w. w),
      op_err = (\<lambda>c w. (0, [])), op_command = (\<lambda>c cmd w. (RErr ''TRYAGAIN x'', w + 1)), op_net = (\<lambda>w ip port cmd. NoContext),
      op_asked = (\<lambda>w. w)\<rparr>" 5 "''x''" "0::nat"] by auto


end
