(* ===== verification/Fragment_Merge.thy ===== *)
theory Fragment_Merge
  imports Fragment Reply
begin

text \<open>
  How the cluster client of \<^verbatim>\<open>src/hircluster.c\<close> puts the replies of the sub commands together again
  (\<^verbatim>\<open>command_post_fragment\<close>). The sub commands are given as the list of their slots and reply pointers, in
  the order of the list \<^verbatim>\<open>commands\<close>; \<^verbatim>\<open>frag_seq\<close> names the slot of every key. Replies are cells on the heap
  of theory \<open>Reply\<close>: elements are moved by pointer, the sub replies shrink from their end.
\<close>

section \<open>The function\<close>

text \<open>What the check of the sub replies says: return at once with this reply and error, or go on.\<close>

datatype post_check = Return ptr "cluster_error option" | Sum int

definition check_reply :: "cmd_type \<Rightarrow> redisReply \<Rightarrow> int \<Rightarrow> post_check c_res" where
  "check_reply t r count =
     (if t = CMD_REQ_REDIS_MGET then
        Inr (if rr_type r \<noteq> REDIS_REPLY_ARRAY then Return 0 (Some (2, ''reply type is error(here only can be array)''))
             else Sum count)
      else if t = CMD_REQ_REDIS_DEL then
        Inr (if rr_type r \<noteq> REDIS_REPLY_INTEGER then Return 0 (Some (2, ''reply type is error(here only can be integer)''))
             else Sum (int64 (count + rr_integer r)))
      else if t = CMD_REQ_REDIS_MSET then
        (if rr_type r \<noteq> REDIS_REPLY_STATUS \<or> rr_len r \<noteq> 2
         then Inr (Return 0 (Some (2, ''reply type is error(here only can be status and ok)'')))
         else case rr_str r of
             None \<Rightarrow> Inl NullDeref
           | Some s \<Rightarrow>
               Inr (if cstr s \<noteq> ''OK'' then Return 0 (Some (2, ''reply type is error(here only can be status and ok)''))
                    else Sum count))
      else Inr (Sum count))"

fun check_replies :: "cmd_type \<Rightarrow> rheap \<Rightarrow> (nat \<times> ptr) list \<Rightarrow> int \<Rightarrow> post_check c_res" where
  "check_replies t h [] count = Inr (Sum count)"
| "check_replies t h ((s, p) # cmds) count =
     (if p = 0 then Inr (Return 0 None)
      else
        bind_c (obj_at h p) (\<lambda>r.
          if rr_type r = REDIS_REPLY_ERROR then Inr (Return p None)
          else
            bind_c (check_reply t r count) (\<lambda>c.
              case c of Return q e \<Rightarrow> Inr c | Sum count \<Rightarrow> check_replies t h cmds count)))"

definition sub_reply :: "(nat \<times> ptr) list \<Rightarrow> nat \<Rightarrow> ptr" where
  "sub_reply cmds s = (case map_of cmds s of None \<Rightarrow> 0 | Some p \<Rightarrow> p)"

definition set_element :: "rheap \<Rightarrow> ptr \<Rightarrow> nat \<Rightarrow> ptr \<Rightarrow> rheap c_res" where
  "set_element h p i q =
     bind_c (obj_at h p) (\<lambda>r.
       case rr_element r of
         None \<Rightarrow> Inl NullDeref
       | Some es \<Rightarrow> bind_c (memcpy es i [q]) (\<lambda>es. Inr (obj_set h p (Some (r\<lparr>rr_element := Some es\<rparr>)))))"

definition give_up :: "ptr \<Rightarrow> bytes \<Rightarrow> rheap \<Rightarrow> (ptr \<times> rheap \<times> cluster_error option) c_res" where
  "give_up p msg h = bind_c (freeReplyObject p h) (\<lambda>h. Inr (0, h, Some (2, msg)))"

text \<open>The loop over the keys, from the last to the first.\<close>

fun merge_loop :: "(nat \<times> ptr) list \<Rightarrow> nat list \<Rightarrow> ptr \<Rightarrow> nat \<Rightarrow> rheap \<Rightarrow> (ptr \<times> rheap \<times> cluster_error option) c_res" where
  "merge_loop cmds seq p 0 h = Inr (p, h, None)"
| "merge_loop cmds seq p (Suc i) h =
     bind_c (rd seq i) (\<lambda>s.
       let q = sub_reply cmds s in
       if q = 0 then give_up p ''sub reply is null'' h
       else
         bind_c (obj_at h q) (\<lambda>sub.
           if rr_type sub = REDIS_REPLY_STRING then bind_c (set_element h p i q) (merge_loop cmds seq p i)
           else if rr_type sub = REDIS_REPLY_ARRAY then
             (if rr_elements sub = 0 then give_up p ''sub reply elements error'' h
              else
                (case rr_element sub of
                   None \<Rightarrow> Inl NullDeref
                 | Some es \<Rightarrow>
                     bind_c (rd es (rr_elements sub - 1)) (\<lambda>e.
                       bind_c (set_element h p i e) (\<lambda>h.
                         merge_loop cmds seq p i
                           (obj_set h q (Some (sub\<lparr>rr_elements := rr_elements sub - 1\<rparr>)))))))
           else merge_loop cmds seq p i h))"

text \<open>
  \<open>n\<close> is the number of keys. \<^verbatim>\<open>hi_calloc(key_count, sizeof(*reply))\<close> gives room for whole reply
  objects where only pointers are stored: six times the room needed.
\<close>

definition post_build :: "mem \<Rightarrow> cmd_type \<Rightarrow> nat \<Rightarrow> nat list \<Rightarrow> (nat \<times> ptr) list \<Rightarrow> int \<Rightarrow> rheap \<Rightarrow> (ptr \<times> rheap \<times> cluster_error option) c_res" where
  "post_build M t n seq cmds count h =
     (case createReplyObject M 0 h of (p, h) \<Rightarrow>
        if p = 0 then Inr (0, h, Some err_oom)
        else
          bind_c (obj_at h p) (\<lambda>r.
            if t = CMD_REQ_REDIS_MGET then
              (let r = r\<lparr>rr_type := REDIS_REPLY_ARRAY, rr_elements := n\<rparr> in
               if \<not> mem_ok M (n * sizeof_redisReply) then
                 bind_c (freeReplyObject p (obj_set h p (Some r))) (\<lambda>h. Inr (0, h, Some err_oom))
               else merge_loop cmds seq p n (obj_set h p (Some (r\<lparr>rr_element := Some (replicate (n * 6) 0)\<rparr>))))
            else if t = CMD_REQ_REDIS_DEL then
              Inr (p, obj_set h p (Some (r\<lparr>rr_type := REDIS_REPLY_INTEGER, rr_integer := count\<rparr>)), None)
            else if t = CMD_REQ_REDIS_MSET then
              (let r = r\<lparr>rr_type := REDIS_REPLY_STATUS\<rparr> in
               if \<not> mem_ok M 24 then
                 bind_c (freeReplyObject p (obj_set h p (Some r))) (\<lambda>h. Inr (0, h, Some err_oom))
               else Inr (p, obj_set h p (Some (r\<lparr>rr_str := Some (''OK'' @ [NUL]), rr_len := 2\<rparr>)), None))
            else Inr (p, h, None)))"

definition command_post_fragment :: "mem \<Rightarrow> cmd \<Rightarrow> nat list \<Rightarrow> (nat \<times> ptr) list \<Rightarrow> rheap \<Rightarrow> (ptr \<times> rheap \<times> cluster_error option) c_res" where
  "command_post_fragment M command seq cmds h =
     bind_c (check_replies (c_type command) h cmds 0) (\<lambda>c.
       case c of
         Return p e \<Rightarrow> Inr (p, h, e)
       | Sum count \<Rightarrow> post_build M (c_type command) (ha_nelem (c_keys command)) seq cmds count h)"

section \<open>Lemmas\<close>

lemma obj_at_Inr: "obj_at h q = Inr r \<longleftrightarrow> 0 < q \<and> q \<le> length h \<and> h ! (q - 1) = Some r"
  by (auto simp: obj_at_def split: option.splits)

lemma obj_at_set: "0 < p \<Longrightarrow> p \<le> length h \<Longrightarrow> obj_at (obj_set h p (Some r)) p = Inr r"
  by (auto simp: obj_at_Inr obj_set_def)

lemma obj_at_set_other: "0 < p \<Longrightarrow> 0 < q \<Longrightarrow> q \<noteq> p \<Longrightarrow> obj_at (obj_set h p r) q = obj_at h q"
  by (auto simp: obj_at_def obj_set_def nth_list_update)

lemma length_obj_set [simp]: "length (obj_set h p r) = length h"
  by (simp add: obj_set_def)

lemma createReply_ok:
  "mem_ok M 48 \<Longrightarrow> createReplyObject M ty h = (Suc (length h), h @ [Some \<lparr>rr_type = ty, rr_integer = 0, rr_len = 0, rr_str = None,
     rr_elements = 0, rr_element = None\<rparr>])"
  by (simp add: createReplyObject_def)

lemma obj_at_pos: "obj_at h q = Inr r \<Longrightarrow> 0 < q"
  by (simp add: obj_at_Inr)

lemma check_mget:
  assumes "\<forall>(s, q) \<in> set cmds. \<exists>r. obj_at h q = Inr r \<and> rr_type r = REDIS_REPLY_ARRAY"
  shows "check_replies CMD_REQ_REDIS_MGET h cmds c = Inr (Sum c)"
  using assms
proof (induction cmds)
  case (Cons a cmds)
  then show ?case by (cases a) (auto simp: check_reply_def dest: obj_at_pos)
qed simp

text \<open>The keys of a slot, by their positions in the command.\<close>

definition slot_keys :: "nat list \<Rightarrow> nat \<Rightarrow> nat \<Rightarrow> nat list" where
  "slot_keys seq s i = filter (\<lambda>j. seq ! j = s) [0..<i]"

lemma slot_keys_Suc: "slot_keys seq s (Suc i) = slot_keys seq s i @ (if seq ! i = s then [i] else [])"
  by (simp add: slot_keys_def)

lemma slot_keys_at:
  assumes "i < n" "seq ! i = s"
  shows "\<exists>post. slot_keys seq s n = slot_keys seq s i @ i # post"
  using assms(1)
proof (induction n)
  case (Suc n)
  then show ?case using assms(2) by (cases "i = n") (auto simp: slot_keys_Suc)
qed simp

text \<open>
  The heap while the keys from \<open>i\<close> on have been moved: the merged reply at \<open>p\<close> and every sub reply, of
  which the elements for the keys below \<open>i\<close> are left. \<open>f j\<close> is the reply to key \<open>j\<close>.
\<close>

definition sub_cell :: "nat list \<Rightarrow> (nat \<Rightarrow> ptr) \<Rightarrow> nat \<Rightarrow> rheap \<Rightarrow> nat \<times> ptr \<Rightarrow> bool" where
  "sub_cell seq f i h = (\<lambda>(s, q). \<exists>r. obj_at h q = Inr r \<and> rr_type r = REDIS_REPLY_ARRAY \<and>
     rr_element r = Some (map f (slot_keys seq s (length seq))) \<and> rr_elements r = length (slot_keys seq s i))"

definition merging :: "(nat \<times> ptr) list \<Rightarrow> nat list \<Rightarrow> (nat \<Rightarrow> ptr) \<Rightarrow> ptr \<Rightarrow> nat \<Rightarrow> rheap \<Rightarrow> bool" where
  "merging cmds seq f p i h \<longleftrightarrow> (\<forall>c \<in> set cmds. sub_cell seq f i h c \<and> snd c \<noteq> p) \<and>
     (\<exists>r es. obj_at h p = Inr r \<and> rr_type r = REDIS_REPLY_ARRAY \<and> rr_elements r = length seq \<and>
        rr_element r = Some es \<and> length es = 6 * length seq \<and> (\<forall>j. i \<le> j \<longrightarrow> j < length seq \<longrightarrow> es ! j = f j))"

definition same_else :: "(nat \<times> ptr) list \<Rightarrow> ptr \<Rightarrow> rheap \<Rightarrow> rheap \<Rightarrow> bool" where
  "same_else cmds p h h' \<longleftrightarrow> length h' = length h \<and> (\<forall>x. x \<noteq> p \<longrightarrow> x \<notin> snd ` set cmds \<longrightarrow> obj_at h' x = obj_at h x)"

lemma merge_step:
  assumes "merging cmds seq f p (Suc i) h" "i < length seq" "seq ! i \<in> fst ` set cmds" "distinct (map fst cmds)"
    "distinct (map snd cmds)"
  shows "\<exists>h'. merge_loop cmds seq p (Suc i) h = merge_loop cmds seq p i h' \<and> merging cmds seq f p i h' \<and> same_else cmds p h h'"
proof -
  let ?s = "seq ! i"
  obtain q where q: "(?s, q) \<in> set cmds" using assms(3) by auto
  then have sq: "sub_reply cmds ?s = q" using assms(4) by (simp add: sub_reply_def)
  have qp: "q \<noteq> p" using assms(1) q by (auto simp: merging_def)
  obtain sub where sub: "obj_at h q = Inr sub" "rr_type sub = REDIS_REPLY_ARRAY"
      "rr_element sub = Some (map f (slot_keys seq ?s (length seq)))" "rr_elements sub = length (slot_keys seq ?s (Suc i))"
    using assms(1) q by (auto simp: merging_def sub_cell_def)
  let ?k = "length (slot_keys seq ?s i)"
  have k: "rr_elements sub = Suc ?k" using sub(4) by (simp add: slot_keys_Suc)
  have e: "rd (map f (slot_keys seq ?s (length seq))) (rr_elements sub - 1) = Inr (f i)"
    using k slot_keys_at [OF assms(2), of seq ?s] by (auto simp: nth_append)
  obtain r es where r: "obj_at h p = Inr r" "rr_type r = REDIS_REPLY_ARRAY" "rr_elements r = length seq" "rr_element r = Some es"
      "length es = 6 * length seq" "\<forall>j. Suc i \<le> j \<longrightarrow> j < length seq \<longrightarrow> es ! j = f j"
    using assms(1) by (auto simp: merging_def)
  have pos: "0 < p" "p \<le> length h" "0 < q" "q \<le> length h" using r(1) sub(1) by (auto simp: obj_at_Inr)
  let ?es = "es[i := f i]"
  let ?h1 = "obj_set h p (Some (r\<lparr>rr_element := Some ?es\<rparr>))"
  let ?h2 = "obj_set ?h1 q (Some (sub\<lparr>rr_elements := ?k\<rparr>))"
  have se: "set_element h p i (f i) = Inr ?h1"
    using r(1,4,5) assms(2) by (simp add: set_element_def memcpy_def upd_conv_take_nth_drop)
  have "merge_loop cmds seq p (Suc i) h = merge_loop cmds seq p i ?h2"
    using assms(2) sq pos(3) sub(1-3) k e se by (simp add: Let_def)
  moreover have "sub_cell seq f i ?h2 c \<and> snd c \<noteq> p" if c: "c \<in> set cmds" for c
  proof (cases "snd c = q")
    case True
    then have "c = (?s, q)" using c q assms(5) by (metis distinct_map inj_onD snd_conv)
    then show ?thesis using sub(2,3) qp pos by (simp add: sub_cell_def obj_at_set)
  next
    case False
    obtain s q' where c': "c = (s, q')" "s \<noteq> ?s" "q' \<noteq> q"
      using False c q assms(4) by (cases c) (metis distinct_map fst_conv inj_onD snd_conv)
    have "sub_cell seq f (Suc i) h c" "q' \<noteq> p" using assms(1) c c'(1) by (auto simp: merging_def)
    moreover from this have "0 < q'" using c'(1) by (auto simp: sub_cell_def dest: obj_at_pos)
    then have "obj_at ?h2 q' = obj_at h q'" using c'(3) \<open>q' \<noteq> p\<close> pos by (simp add: obj_at_set_other)
    ultimately show ?thesis using c' by (simp add: sub_cell_def slot_keys_Suc)
  qed
  moreover have "obj_at ?h2 p = Inr (r\<lparr>rr_element := Some ?es\<rparr>)"
    using qp pos by (simp add: obj_at_set_other obj_at_set)
  moreover have "\<forall>j. i \<le> j \<longrightarrow> j < length seq \<longrightarrow> ?es ! j = f j"
  proof (intro allI impI)
    fix j assume "i \<le> j" "j < length seq"
    then show "?es ! j = f j" using r(5,6) by (cases "j = i") auto
  qed
  ultimately have "merging cmds seq f p i ?h2" using r(2,3,5) unfolding merging_def by auto
  moreover have "same_else cmds p h ?h2"
    unfolding same_else_def using pos q by (auto simp: obj_at_def obj_set_def nth_list_update image_iff)
  ultimately show ?thesis using \<open>merge_loop cmds seq p (Suc i) h = merge_loop cmds seq p i ?h2\<close> by (intro exI [of _ ?h2]) simp
qed

lemma merge_loop_ok:
  assumes "merging cmds seq f p i h" "i \<le> length seq" "set seq \<subseteq> fst ` set cmds" "distinct (map fst cmds)" "distinct (map snd cmds)"
  shows "\<exists>h'. merge_loop cmds seq p i h = Inr (p, h', None) \<and> merging cmds seq f p 0 h' \<and> same_else cmds p h h'"
  using assms(1,2)
proof (induction i arbitrary: h)
  case (Suc i)
  then have i: "i < length seq" "seq ! i \<in> fst ` set cmds" using assms(3) by (auto simp: subset_iff)
  obtain h' where "merge_loop cmds seq p (Suc i) h = merge_loop cmds seq p i h'" "merging cmds seq f p i h'" "same_else cmds p h h'"
    using merge_step [OF Suc.prems(1) i assms(4,5)] by blast
  then show ?case using Suc.IH [of h'] Suc.prems(2) unfolding same_else_def by auto
qed (simp add: same_else_def)

lemma check_append:
  "check_replies t h as c = Inr (Sum c') \<Longrightarrow> check_replies t h (as @ bs) c = check_replies t h bs c'"
proof (induction as arbitrary: c)
  case (Cons a as)
  obtain s p where a: "a = (s, p)" by fastforce
  from Cons.prems a obtain r x where r: "p \<noteq> 0" "obj_at h p = Inr r" "rr_type r \<noteq> REDIS_REPLY_ERROR" "check_reply t r c = Inr x"
      "(case x of Return q e \<Rightarrow> Inr x | Sum c \<Rightarrow> check_replies t h as c) = Inr (Sum c')"
    by (auto simp: bind_c_Inr_iff split: if_splits)
  then obtain c1 where "x = Sum c1" by (cases x) auto
  then show ?case using r Cons.IH [of c1] a by simp
qed simp

lemma check_del:
  assumes "\<forall>(s, q) \<in> set cmds. \<exists>r. obj_at h q = Inr r \<and> rr_type r = REDIS_REPLY_INTEGER \<and> rr_integer r = v s \<and> 0 \<le> v s"
    "0 \<le> c" "c + sum_list (map (\<lambda>(s, q). v s) cmds) < 2 ^ 63"
  shows "check_replies CMD_REQ_REDIS_DEL h cmds c = Inr (Sum (c + sum_list (map (\<lambda>(s, q). v s) cmds)))"
  using assms
proof (induction cmds arbitrary: c)
  case (Cons a cmds)
  obtain s q where a: "a = (s, q)" by fastforce
  have "0 \<le> sum_list (map (\<lambda>(s, q). v s) cmds)" using Cons.prems(1) by (intro sum_list_nonneg) auto
  moreover have "0 \<le> v s" using Cons.prems(1) a by auto
  ultimately have "int64 (c + v s) = c + v s" "0 \<le> c + v s" using Cons.prems(2,3) a by (auto intro!: int64_id)
  then show ?case using Cons.prems Cons.IH [of "c + v s"] a by (auto simp: check_reply_def dest: obj_at_pos)
qed simp

lemma post_fragment_mget_ok:
  assumes "c_type command = CMD_REQ_REDIS_MGET" "ha_nelem (c_keys command) = length seq" "set seq \<subseteq> fst ` set cmds"
    "distinct (map fst cmds)" "distinct (map snd cmds)" "\<forall>n. mem_ok M n"
    "\<forall>c \<in> set cmds. sub_cell seq f (length seq) h c"
  shows "\<exists>p h' r es. command_post_fragment M command seq cmds h = Inr (p, h', None) \<and> obj_at h' p = Inr r \<and>
    rr_type r = REDIS_REPLY_ARRAY \<and> rr_elements r = length seq \<and> rr_element r = Some es \<and>
    length seq \<le> length es \<and> (\<forall>j < length seq. es ! j = f j) \<and>
    (\<forall>(s, q) \<in> set cmds. \<exists>r. obj_at h' q = Inr r \<and> rr_type r = REDIS_REPLY_ARRAY \<and> rr_elements r = 0) \<and>
    p = Suc (length h) \<and> length h' = p \<and> (\<forall>x. x \<le> length h \<longrightarrow> x \<notin> snd ` set cmds \<longrightarrow> obj_at h' x = obj_at h x)"
proof -
  let ?p = "Suc (length h)" let ?n = "length seq"
  let ?r0 = "\<lparr>rr_type = 0, rr_integer = 0, rr_len = 0, rr_str = None, rr_elements = 0, rr_element = None\<rparr>"
  let ?r = "?r0\<lparr>rr_type := REDIS_REPLY_ARRAY, rr_elements := ?n, rr_element := Some (replicate (?n * 6) 0)\<rparr>"
  let ?h = "obj_set (h @ [Some ?r0]) ?p (Some ?r)"
  have sub: "sub_cell seq f ?n ?h c \<and> snd c \<noteq> ?p" if "c \<in> set cmds" for c
  proof -
    obtain s q where c: "c = (s, q)" by fastforce
    have "sub_cell seq f ?n h (s, q)" using assms(7) that c by blast
    then have "0 < q" "q \<le> length h" by (auto simp: sub_cell_def obj_at_Inr)
    moreover have "obj_at ?h q = obj_at h q"
      using \<open>0 < q\<close> \<open>q \<le> length h\<close> by (auto simp: obj_at_def obj_set_def nth_append)
    ultimately show ?thesis using \<open>sub_cell seq f ?n h (s, q)\<close> c by (simp add: sub_cell_def)
  qed
  have "obj_at ?h ?p = Inr ?r" by (rule obj_at_set) simp_all
  then have "merging cmds seq f ?p ?n ?h" using sub unfolding merging_def by auto
  from merge_loop_ok [OF this _ assms(3-5)] obtain h' where h': "merge_loop cmds seq ?p ?n ?h = Inr (?p, h', None)"
      "merging cmds seq f ?p 0 h'" "same_else cmds ?p ?h h'" by auto
  have "check_replies CMD_REQ_REDIS_MGET h cmds 0 = Inr (Sum 0)"
    using assms(7) by (intro check_mget) (auto simp: sub_cell_def)
  moreover have "obj_at (h @ [Some ?r0]) ?p = Inr ?r0" by (simp add: obj_at_Inr)
  ultimately have "command_post_fragment M command seq cmds h = Inr (?p, h', None)"
    using h'(1) assms(1,2,6) by (simp add: command_post_fragment_def post_build_def createReply_ok Let_def)
  moreover have "\<forall>(s, q) \<in> set cmds. \<exists>r. obj_at h' q = Inr r \<and> rr_type r = REDIS_REPLY_ARRAY \<and> rr_elements r = 0"
    using h'(2) by (fastforce simp: merging_def sub_cell_def slot_keys_def)
  moreover have "obj_at ?h x = obj_at h x" if "x \<le> length h" for x
    using that by (cases x) (auto simp: obj_at_def obj_set_def nth_append)
  moreover have "length ?h = ?p" by simp
  ultimately show ?thesis using h'(2,3) unfolding merging_def same_else_def by auto
qed

section \<open>Properties\<close>

text \<open>
  C11: \<^verbatim>\<open>command_post_fragment\<close> puts the values of a split MGET back in the order of the keys. Whenever
  every sub command has an array reply whose elements are the replies to the keys of its slot, in order
  (\<open>f j\<close> is the reply to key \<open>j\<close>), the function returns a new array with exactly one element per key,
  element \<open>j\<close> being \<open>f j\<close>, and leaves every sub reply without elements, so that no reply is owned twice.
\<close>

theorem command_post_fragment_mget:
  assumes "c_type command = CMD_REQ_REDIS_MGET" "ha_nelem (c_keys command) = length seq" "set seq \<subseteq> fst ` set cmds"
    "distinct (map fst cmds)" "distinct (map snd cmds)" "\<forall>n. mem_ok M n"
    "\<forall>c \<in> set cmds. sub_cell seq f (length seq) h c"
  shows "\<exists>p h' r es. command_post_fragment M command seq cmds h = Inr (p, h', None) \<and> obj_at h' p = Inr r \<and>
    rr_type r = REDIS_REPLY_ARRAY \<and> rr_elements r = length seq \<and> rr_element r = Some es \<and>
    length seq \<le> length es \<and> (\<forall>j < length seq. es ! j = f j) \<and>
    (\<forall>(s, q) \<in> set cmds. \<exists>r. obj_at h' q = Inr r \<and> rr_type r = REDIS_REPLY_ARRAY \<and> rr_elements r = 0)"
  using post_fragment_mget_ok [OF assms] by blast

theorem command_post_fragment_mget_witness:
  "\<exists>command h p h' r es. length h = 5 \<and> command_post_fragment granting command [5, 3, 5] [(3, 4), (5, 5)] h = Inr (p, h', None) \<and>
    obj_at h' p = Inr r \<and> rr_element r = Some es \<and> es ! 0 = 1 \<and> es ! 1 = 2 \<and> es ! 2 = 3"
proof -
  obtain i' r0 where g: "command_get granting 0 = (i', Some r0)"
    by (auto simp: command_get_def hiarray_create_def hiarray_init_def ha_ok_def size64_id)
  let ?c = "r0\<lparr>c_type := CMD_REQ_REDIS_MGET, c_keys := (c_keys r0)\<lparr>ha_nelem := 3\<rparr>\<rparr>"
  let ?nil = "Some \<lparr>rr_type = REDIS_REPLY_NIL, rr_integer = 0, rr_len = 0, rr_str = None, rr_elements = 0, rr_element = None\<rparr>"
  let ?arr = "\<lambda>es. Some \<lparr>rr_type = REDIS_REPLY_ARRAY, rr_integer = 0, rr_len = 0, rr_str = None, rr_elements = length es, rr_element = Some es\<rparr>"
  let ?h = "[?nil, ?nil, ?nil, ?arr [2], ?arr [1, 3]]" let ?q = "[5, 3, 5] :: nat list"
  have "slot_keys ?q 3 (length ?q) = [1]" "slot_keys ?q 5 (length ?q) = [0, 2]" by (simp_all add: slot_keys_def upt_rec)
  then have "\<forall>c \<in> set [(3, 4), (5, 5)]. sub_cell ?q Suc (length ?q) ?h c" by (simp add: sub_cell_def obj_at_Inr)
  then show ?thesis
    using command_post_fragment_mget [of ?c ?q "[(3, 4), (5, 5)]" granting Suc ?h] by (intro exI [of _ ?c] exI [of _ ?h]) auto
qed

text \<open>
  for a split DEL the merged reply is the sum of the numbers the sub commands returned; and as soon
  as a sub command returned an error, whatever comes after it, that error reply is the result.
\<close>

theorem command_post_fragment_del:
  assumes "c_type command = CMD_REQ_REDIS_DEL" "\<forall>n. mem_ok M n" "sum_list (map (\<lambda>(s, q). v s) cmds) < 2 ^ 63"
    "\<forall>(s, q) \<in> set cmds. \<exists>r. obj_at h q = Inr r \<and> rr_type r = REDIS_REPLY_INTEGER \<and> rr_integer r = v s \<and> 0 \<le> v s"
    "obj_at h e = Inr err" "rr_type err = REDIS_REPLY_ERROR"
  shows "(\<exists>p h' r. command_post_fragment M command seq cmds h = Inr (p, h', None) \<and> obj_at h' p = Inr r \<and>
      rr_type r = REDIS_REPLY_INTEGER \<and> rr_integer r = sum_list (map (\<lambda>(s, q). v s) cmds)) \<and>
    command_post_fragment M command seq (cmds @ (s, e) # rest) h = Inr (e, h, None)"
proof -
  have c: "check_replies CMD_REQ_REDIS_DEL h cmds 0 = Inr (Sum (sum_list (map (\<lambda>(s, q). v s) cmds)))"
    using check_del [OF assms(4), of 0] assms(3) by simp
  have "check_replies CMD_REQ_REDIS_DEL h (cmds @ (s, e) # rest) 0 = Inr (Return e None)"
    using check_append [OF c] assms(5,6) obj_at_pos [OF assms(5)] by simp
  then show ?thesis using c assms(1,2)
    by (simp add: command_post_fragment_def post_build_def createReply_ok obj_at_Inr obj_set_def)
qed
theorem command_post_fragment_del_witness:
  "\<exists>command h p h' r. command_post_fragment granting command [] [(3, 1), (5, 2)] h = Inr (p, h', None) \<and>
    obj_at h' p = Inr r \<and> rr_integer r = 7 \<and>
    command_post_fragment granting command [] ([(3, 1), (5, 2)] @ [(9, 3)]) h = Inr (3, h, None)"
proof -
  obtain i' r0 where g: "command_get granting 0 = (i', Some r0)"
    by (auto simp: command_get_def hiarray_create_def hiarray_init_def ha_ok_def size64_id)
  let ?c = "r0\<lparr>c_type := CMD_REQ_REDIS_DEL\<rparr>"
  let ?cell = "\<lambda>t i. Some \<lparr>rr_type = t, rr_integer = i, rr_len = 0, rr_str = None, rr_elements = 0, rr_element = None\<rparr>"
  let ?h = "[?cell REDIS_REPLY_INTEGER 3, ?cell REDIS_REPLY_INTEGER 4, ?cell REDIS_REPLY_ERROR 0]"
  show ?thesis
    using command_post_fragment_del [of ?c granting "\<lambda>s. if s = 3 then 3 else 4" "[(3, 1), (5, 2)]" ?h 3 "the (?cell REDIS_REPLY_ERROR 0)" "[]" 9 "[]"]
    by (intro exI [of _ ?c] exI [of _ ?h]) (auto simp: obj_at_Inr)
qed
end
