(* ===== verification/Cluster_Command.thy ===== *)
theory Cluster_Command
  imports Cluster_Exec Fragment_Merge
begin

text \<open>
  A command from its text to its reply (\<^verbatim>\<open>src/hircluster.c\<close>): \<^verbatim>\<open>redisClusterFormattedCommand\<close>, which splits the
  command by slots, executes the parts one after the other and merges their replies. Replies are
  cells on the heap of theory \<open>Reply\<close>; the reply to a request takes the next free cells.
\<close>

section \<open>Executing at once\<close>

definition place :: "reply \<Rightarrow> rheap \<Rightarrow> ptr \<times> rheap" where
  "place r h = (root (length h + 1) r, h @ map Some (layout (length h + 1) r))"

definition is_err :: "reply \<Rightarrow> bool" where
  "is_err r = (case r of RErr _ \<Rightarrow> True | _ \<Rightarrow> False)"

text \<open>
  The loop over the sub commands. The first component of the result is the reply to return at once, if there
  is one; the list has the slot and the reply of each sub command that has one.
\<close>

fun exec_subs :: "mem \<Rightarrow> 'w conn_ops \<Rightarrow> sub_cmd list \<Rightarrow> (nat \<times> ptr) list \<Rightarrow> rheap \<Rightarrow> redisClusterContext \<Rightarrow> 'w \<Rightarrow>
    (ptr option \<times> (nat \<times> ptr) list \<times> rheap \<times> redisClusterContext \<times> 'w) c_res option" where
  "exec_subs M Op [] cmds h cc w = Some (Inr (None, cmds, h, cc, w))"
| "exec_subs M Op (sc # scs) cmds h cc w =
     (case redis_cluster_command_execute M Op (c_slot_num sc) (c_cmd sc) cc w of
        None \<Rightarrow> None
      | Some (Inl e) \<Rightarrow> Some (Inl e)
      | Some (Inr (r, cc, w)) \<Rightarrow>
          (case place r h of (p, h) \<Rightarrow>
             if r = Absent then Some (Inr (Some 0, cmds, h, cc, w))
             else if is_err r then Some (Inr (Some p, cmds, h, cc, w))
             else exec_subs M Op scs (cmds @ [(nat (c_slot_num sc), p)]) h cc w))"

text \<open>Releasing the sub commands releases the replies they hold.\<close>

fun free_replies :: "(nat \<times> ptr) list \<Rightarrow> rheap \<Rightarrow> rheap c_res" where
  "free_replies [] h = Inr h"
| "free_replies ((s, p) # cmds) h = bind_c (freeReplyObject p h) (free_replies cmds)"

definition clear_error :: "redisClusterContext \<Rightarrow> redisClusterContext" where
  "clear_error cc = (if cc_err cc \<noteq> 0 then cc\<lparr>cc_err := 0, cc_errstr := []\<rparr> else cc)"

type_synonym 'w cluster_result = "(ptr \<times> u64 \<times> rheap \<times> redisClusterContext \<times> 'w) c_res"

definition finish :: "ptr \<Rightarrow> u64 \<Rightarrow> rheap \<Rightarrow> redisClusterContext \<Rightarrow> 'w \<Rightarrow> 'w cluster_result" where
  "finish p i h cc w = Inr (p, i, h, cc\<lparr>cc_retry_count := 0\<rparr>, w)"

definition run_split :: "mem \<Rightarrow> 'w conn_ops \<Rightarrow> frag_result \<Rightarrow> rheap \<Rightarrow> redisClusterContext \<Rightarrow> 'w \<Rightarrow> 'w cluster_result option" where
  "run_split M Op R h cc w =
     (if \<not> mem_ok M 16 then Some (Inl NullDeref)
      else
        (case exec_subs M Op (fp_commands R) [] h cc w of
           None \<Rightarrow> None
         | Some (Inl e) \<Rightarrow> Some (Inl e)
         | Some (Inr (Some p, cmds, h, cc, w)) \<Rightarrow> Some (bind_c (free_replies cmds h) (\<lambda>h. finish p (fp_id R) h cc w))
         | Some (Inr (None, cmds, h, cc, w)) \<Rightarrow>
             Some
               (case fp_seq R of
                  None \<Rightarrow> Inl NullDeref
                | Some seq \<Rightarrow>
                    bind_c (command_post_fragment M (fp_command R) seq cmds h) (\<lambda>(p, h, e).
                      bind_c (free_replies cmds h) (\<lambda>h. finish p (fp_id R) h (set_p_error cc e) w)))))"

definition run_whole :: "mem \<Rightarrow> 'w conn_ops \<Rightarrow> frag_result \<Rightarrow> rheap \<Rightarrow> redisClusterContext \<Rightarrow> 'w \<Rightarrow> 'w cluster_result option" where
  "run_whole M Op R h cc w =
     (case redis_cluster_command_execute M Op (c_slot_num (fp_command R)) (c_cmd (fp_command R)) cc w of
        None \<Rightarrow> None
      | Some (Inl e) \<Rightarrow> Some (Inl e)
      | Some (Inr (r, cc, w)) \<Rightarrow> (case place r h of (p, h) \<Rightarrow> Some (finish p (fp_id R) h cc w)))"

definition redisClusterFormattedCommand :: "mem \<Rightarrow> 'w conn_ops \<Rightarrow> u64 \<Rightarrow> bytes \<Rightarrow> rheap \<Rightarrow> redisClusterContext \<Rightarrow> 'w \<Rightarrow>
    'w cluster_result option" where
  "redisClusterFormattedCommand M Op i cmd h cc w =
     (let cc = clear_error cc in
      case command_get M i of
        (i, None) \<Rightarrow> Some (Inr (0, i, h, redisClusterSetError cc 5 ''Out of memory'', w))
      | (i, Some command) \<Rightarrow>
          if \<not> mem_ok M 48 then Some (finish 0 i h (redisClusterSetError cc 5 ''Out of memory'') w)
          else
            (case command_format_by_slot M i (command\<lparr>c_cmd := cmd\<rparr>) of
               Inl e \<Rightarrow> Some (Inl e)
             | Inr R \<Rightarrow>
                 (let cc = set_p_error cc (fp_err R) in
                  if fp_ret R < 0 then Some (finish 0 (fp_id R) h cc w)
                  else if fp_ret R \<ge> int REDIS_CLUSTER_SLOTS then
                    Some (finish 0 (fp_id R) h (redisClusterSetError cc 2 ''slot_num is out of range'') w)
                  else if fp_commands R = [] then run_whole M Op R h cc w
                  else run_split M Op R h cc w)))"

text \<open>The formatted text is the first \<^verbatim>\<open>len\<close> bytes of the buffer.\<close>

definition redisClustervCommand :: "mem \<Rightarrow> (bytes \<Rightarrow> 'd va_item list \<Rightarrow> bytes) \<Rightarrow> 'w conn_ops \<Rightarrow> u64 \<Rightarrow> bytes \<Rightarrow> 'd va_item list \<Rightarrow> rheap \<Rightarrow>
    redisClusterContext \<Rightarrow> 'w \<Rightarrow> 'w cluster_result option" where
  "redisClustervCommand M vtext Op i format args h cc w =
     (case redisvFormatCommand M vtext True format args of
        Inl e \<Rightarrow> Some (Inl e)
      | Inr (len, cmd) \<Rightarrow>
          if len = -1 then Some (Inr (0, i, h, redisClusterSetError cc 5 ''Out of memory'', w))
          else if len = -2 then Some (Inr (0, i, h, redisClusterSetError cc 2 ''Invalid format string'', w))
          else
            (case cmd of
               None \<Rightarrow> Some (Inl NullDeref)
             | Some cmd \<Rightarrow> redisClusterFormattedCommand M Op i (take (nat len) cmd) h cc w))"

definition redisClusterCommandArgv :: "mem \<Rightarrow> 'w conn_ops \<Rightarrow> u64 \<Rightarrow> int \<Rightarrow> bytes list \<Rightarrow> nat list option \<Rightarrow> rheap \<Rightarrow> redisClusterContext \<Rightarrow> 'w \<Rightarrow>
    'w cluster_result option" where
  "redisClusterCommandArgv M Op i argc argv argvlen h cc w =
     (case redisFormatCommandArgv M True argc argv argvlen of
        Inl e \<Rightarrow> Some (Inl e)
      | Inr (len, cmd) \<Rightarrow>
          if len = -1 then Some (Inr (0, i, h, redisClusterSetError cc 5 ''Out of memory'', w))
          else
            (case cmd of
               None \<Rightarrow> Some (Inl NullDeref)
             | Some cmd \<Rightarrow> redisClusterFormattedCommand M Op i (take (nat len) cmd) h cc w))"

section \<open>A command answered at once\<close>

text \<open>The node of the slot is connected, and answers the command with a reply that is not a redirection.\<close>

definition answers :: "'w conn_ops \<Rightarrow> redisClusterContext \<Rightarrow> nat \<Rightarrow> bytes \<Rightarrow> reply \<Rightarrow> 'w \<Rightarrow> 'w \<Rightarrow> bool" where
  "answers Op cc s cmd r w w' \<longleftrightarrow> (\<exists>n c. node_at (cc_heap cc) (cc_table cc s) = Inr n \<and> cn_con n = Some c \<and>
     fst (op_err Op c w) = 0 \<and> op_command Op c cmd w = (r, w'))"

lemma execute_answered:
  assumes "answers Op cc s cmd r w w'" "s < REDIS_CLUSTER_SLOTS" "r \<noteq> Absent" "cluster_reply_error_type r = CLUSTER_NOT_ERR"
  shows "redis_cluster_command_execute M Op (int s) cmd cc w = Some (Inr (r, cc, w'))"
proof -
  obtain n c where n: "node_at (cc_heap cc) (cc_table cc s) = Inr n" "cn_con n = Some c" "fst (op_err Op c w) = 0" "op_command Op c cmd w = (r, w')"
    using assms(1) by (auto simp: answers_def)
  have "slot_conn M Op s cc w = Inr (Some c, cc, w)"
    using n(1-3) node_at_pos [OF n(1)] assms(2) by (simp add: slot_conn_def node_get_by_table_def ctx_get_by_node_def)
  then have "exec_step M Op s cmd Retry cc w = Inr (Finished r, cc, w')" using n(4) assms(3,4) by (simp add: exec_step_def Let_def)
  moreover have "uint32 (int s) = s" using assms(2) by (simp add: uint32_id)
  ultimately show ?thesis by (simp add: redis_cluster_command_execute_def exec_rounds_def)
qed

section \<open>Arrays of values on the heap\<close>

text \<open>A value of a key: a reply of one cell.\<close>

definition is_value :: "reply \<Rightarrow> bool" where
  "is_value v = (case v of RStr s \<Rightarrow> True | RNil \<Rightarrow> True | _ \<Rightarrow> False)"

definition value_cell :: "reply \<Rightarrow> redisReply" where
  "value_cell v = hd (layout 1 v)"

lemma is_value_simps: "is_value v \<Longrightarrow> nodes v = 1 \<and> v \<noteq> Absent \<and> layout a v = [value_cell v]"
  by (auto simp: is_value_def value_cell_def split: reply.splits)

lemma values_placed:
  assumes "list_all is_value vs"
  shows "roots a vs = [a..<a + length vs] \<and> layouts a vs = map value_cell vs"
  using assms
proof (induction vs arbitrary: a)
  case (Cons v vs)
  then show ?case using is_value_simps [of v a] by (simp add: root_def upt_conv_Cons del: upt_Suc)
qed simp

text \<open>The array reply of a server to a command with these values, placed at the end of the heap.\<close>

definition values_cell :: "ptr \<Rightarrow> nat \<Rightarrow> redisReply" where
  "values_cell q n = \<lparr>rr_type = REDIS_REPLY_ARRAY, rr_integer = 0, rr_len = 0, rr_str = None, rr_elements = n, rr_element = Some [q + 1..<q + 1 + n]\<rparr>"

lemma place_values:
  assumes "list_all is_value vs" "vs \<noteq> []"
  shows "place (RArr vs) h = (length h + 1, h @ Some (values_cell (length h + 1) (length vs)) # map (Some \<circ> value_cell) vs)"
  using values_placed [OF assms(1), of "length h + 2"] assms(2)
  by (simp add: place_def root_def arr_cell_def values_cell_def upt_conv_Cons del: upt_Suc)

definition holds_values :: "rheap \<Rightarrow> ptr \<Rightarrow> reply list \<Rightarrow> bool" where
  "holds_values h q vs \<longleftrightarrow> obj_at h q = Inr (values_cell q (length vs)) \<and> (\<forall>j < length vs. obj_at h (q + 1 + j) = Inr (value_cell (vs ! j)))"

lemma place_holds:
  assumes "list_all is_value vs" "vs \<noteq> []"
  shows "\<exists>h'. place (RArr vs) h = (length h + 1, h') \<and> holds_values h' (length h + 1) vs \<and> length h' = length h + 1 + length vs \<and>
    (\<forall>x. x \<le> length h \<longrightarrow> obj_at h' x = obj_at h x)"
  unfolding place_values [OF assms] by (auto simp: holds_values_def obj_at_def nth_append)

text \<open>The loop over the sub commands when every node answers with an array of values; \<open>I\<close> is kept by the servers.\<close>

definition answering :: "('w \<Rightarrow> bool) \<Rightarrow> 'w conn_ops \<Rightarrow> redisClusterContext \<Rightarrow> nat \<Rightarrow> bytes \<Rightarrow> reply list \<Rightarrow> bool" where
  "answering I Op cc s cmd vs \<longleftrightarrow> s < REDIS_CLUSTER_SLOTS \<and> list_all is_value vs \<and> vs \<noteq> [] \<and>
     (\<forall>w. I w \<longrightarrow> (\<exists>w'. answers Op cc s cmd (RArr vs) w w' \<and> I w'))"

lemma execute_answering:
  assumes "answering I Op cc s cmd vs" "I w"
  shows "\<exists>w'. redis_cluster_command_execute M Op (int s) cmd cc w = Some (Inr (RArr vs, cc, w')) \<and> I w'"
proof -
  obtain w' where "answers Op cc s cmd (RArr vs) w w'" "I w'" using assms by (auto simp: answering_def)
  then show ?thesis using execute_answered [of Op cc s cmd "RArr vs" w w' M] assms(1) by (auto simp: answering_def cluster_reply_error_type_def)
qed

lemma exec_subs_values:
  assumes "list_all2 (\<lambda>s sc. c_slot_num sc = int s \<and> answering I Op cc s (c_cmd sc) (vs s)) ss scs" "I w"
  shows "\<exists>qs h' w'. exec_subs M Op scs cmds h cc w = Some (Inr (None, cmds @ zip ss qs, h', cc, w')) \<and> I w' \<and>
    list_all2 (\<lambda>s q. holds_values h' q (vs s)) ss qs \<and> distinct qs \<and> (\<forall>q \<in> set qs. length h < q) \<and> (\<forall>x. x \<le> length h \<longrightarrow> obj_at h' x = obj_at h x)"
  using assms
proof (induction arbitrary: cmds h w rule: list_all2_induct)
  case (Cons s ss sc scs)
  let ?q = "length h + 1"
  have sc: "c_slot_num sc = int s" "answering I Op cc s (c_cmd sc) (vs s)" using Cons.hyps by simp_all
  obtain w1 where w1: "redis_cluster_command_execute M Op (int s) (c_cmd sc) cc w = Some (Inr (RArr (vs s), cc, w1))" "I w1"
    using execute_answering [OF sc(2) Cons.prems] by blast
  obtain h1 where h1: "place (RArr (vs s)) h = (?q, h1)" "holds_values h1 ?q (vs s)" "length h1 = ?q + length (vs s)" "\<forall>x. x \<le> length h \<longrightarrow> obj_at h1 x = obj_at h x"
    using place_holds [of "vs s" h] sc(2) by (auto simp: answering_def)
  obtain qs h' w' where ih: "exec_subs M Op scs (cmds @ [(s, ?q)]) h1 cc w1 = Some (Inr (None, (cmds @ [(s, ?q)]) @ zip ss qs, h', cc, w'))" "I w'"
      "list_all2 (\<lambda>s q. holds_values h' q (vs s)) ss qs" "distinct qs" "\<forall>q \<in> set qs. length h1 < q" "\<forall>x. x \<le> length h1 \<longrightarrow> obj_at h' x = obj_at h1 x"
    using Cons.IH [OF w1(2), of "cmds @ [(s, ?q)]" h1] by blast
  have "holds_values h' ?q (vs s)" using h1(2,3) ih(6) by (simp add: holds_values_def)
  then show ?case using sc(1) w1(1) h1 ih
    by (intro exI [of _ "?q # qs"] exI [of _ h'] exI [of _ w']) (auto simp: is_err_def)
qed simp

lemma free_emptied:
  assumes "\<forall>(s, q) \<in> set cmds. \<exists>r. obj_at h q = Inr r \<and> rr_type r = REDIS_REPLY_ARRAY \<and> rr_elements r = 0" "distinct (map snd cmds)"
  shows "\<exists>h'. free_replies cmds h = Inr h' \<and> (\<forall>x. x \<notin> snd ` set cmds \<longrightarrow> obj_at h' x = obj_at h x)"
  using assms
proof (induction cmds arbitrary: h)
  case (Cons c cmds)
  obtain s q where c: "c = (s, q)" by fastforce
  then obtain r where r: "obj_at h q = Inr r" "rr_type r = REDIS_REPLY_ARRAY" "rr_elements r = 0" using Cons.prems(1) by auto
  let ?h = "obj_set h q None"
  have pos: "0 < q" "q \<le> length h" using r(1) by (simp_all add: obj_at_Inr)
  have free: "freeReplyObject q h = Inr ?h" using r pos by (simp add: freeReplyObject_def split: option.split)
  have other: "obj_at ?h x = obj_at h x" if "x \<noteq> q" for x
    using that pos by (cases x) (auto simp: obj_at_def obj_set_def nth_list_update)
  have "\<forall>(s, q) \<in> set cmds. \<exists>r. obj_at ?h q = Inr r \<and> rr_type r = REDIS_REPLY_ARRAY \<and> rr_elements r = 0"
    using Cons.prems c other by fastforce
  then obtain h' where "free_replies cmds ?h = Inr h'" "\<forall>x. x \<notin> snd ` set cmds \<longrightarrow> obj_at h' x = obj_at ?h x"
    using Cons.IH [of ?h] Cons.prems(2) by auto
  then show ?case using c free other by auto
qed simp
section \<open>The merged reply\<close>

text \<open>What the caller of an MGET sees: an array with the values, in the order of the keys.\<close>

definition mget_reply :: "rheap \<Rightarrow> ptr \<Rightarrow> reply list \<Rightarrow> bool" where
  "mget_reply h p vs \<longleftrightarrow> (\<exists>r es. obj_at h p = Inr r \<and> rr_type r = REDIS_REPLY_ARRAY \<and> rr_elements r = length vs \<and> rr_element r = Some es \<and>
     length vs \<le> length es \<and> (\<forall>j < length vs. obj_at h (es ! j) = Inr (value_cell (vs ! j))))"

abbreviation (input) on_slot_keys :: "nat \<Rightarrow> bytes list \<Rightarrow> bytes list" where
  "on_slot_keys s keys \<equiv> filter (\<lambda>k. slot_of k = s) keys"

lemma slot_keys_enum: "map (\<lambda>j. a + length (slot_keys seq s j)) (slot_keys seq s n) = [a..<a + length (slot_keys seq s n)]"
  by (induction n) (simp_all add: slot_keys_Suc slot_keys_def)

lemma on_slot_keys_nth: "on_slot_keys s keys = map ((!) keys) (slot_keys (map slot_of keys) s (length keys))"
proof -
  have "on_slot_keys s keys = on_slot_keys s (map ((!) keys) [0..<length keys])" by (simp add: map_nth)
  also have "\<dots> = map ((!) keys) (filter (\<lambda>j. slot_of (keys ! j) = s) [0..<length keys])" by (simp add: filter_map o_def)
  also have "filter (\<lambda>j. slot_of (keys ! j) = s) [0..<length keys] = slot_keys (map slot_of keys) s (length keys)"
    unfolding slot_keys_def by (intro filter_cong) auto
  finally show ?thesis .
qed

lemma value_cell_type: "is_value v \<Longrightarrow> rr_type (value_cell v) \<noteq> REDIS_REPLY_ARRAY"
  by (auto simp: is_value_def value_cell_def str_cell_def split: reply.splits)

lemma holds_values_type:
  assumes "holds_values h q vs" "list_all is_value vs" "holds_values h q' us" "j < length vs"
  shows "q' \<noteq> q + 1 + j"
proof
  assume "q' = q + 1 + j"
  then have "Inr (value_cell (vs ! j)) = (Inr (values_cell q' (length us)) :: redisReply c_res)"
    using assms(1,3,4) unfolding holds_values_def by metis
  then have "rr_type (value_cell (vs ! j)) = REDIS_REPLY_ARRAY" by (simp add: values_cell_def)
  then show False using value_cell_type assms(2,4) by (auto simp: list_all_length)
qed

lemma merged_mget:
  assumes "list_all2 (\<lambda>s q. holds_values h q (map val (on_slot_keys s keys))) ss qs" "distinct ss" "distinct qs" "slot_of ` set keys \<subseteq> set ss"
    "\<forall>k \<in> set keys. is_value (val k)" "c_type command = CMD_REQ_REDIS_MGET" "ha_nelem (c_keys command) = length keys" "\<forall>n. mem_ok M n"
  shows "\<exists>p h1 h'. command_post_fragment M command (map slot_of keys) (zip ss qs) h = Inr (p, h1, None) \<and> free_replies (zip ss qs) h1 = Inr h' \<and>
    mget_reply h' p (map val keys)"
proof -
  let ?seq = "map slot_of keys" and ?cmds = "zip ss qs"
  let ?f = "\<lambda>j. sub_reply ?cmds (?seq ! j) + 1 + length (slot_keys ?seq (?seq ! j) j)"
  have len: "length ss = length qs" using assms(1) by (rule list_all2_lengthD)
  have hold: "holds_values h q (map val (on_slot_keys s keys))" if "(s, q) \<in> set ?cmds" for s q
    using assms(1) that by (auto simp: list_all2_iff)
  have sub: "sub_reply ?cmds s = q" if "(s, q) \<in> set ?cmds" for s q
    using that assms(2) len by (simp add: sub_reply_def)
  have cell: "sub_cell ?seq ?f (length ?seq) h c" if "c \<in> set ?cmds" for c
  proof -
    obtain s q where c: "c = (s, q)" by fastforce
    have "map ?f (slot_keys ?seq s (length keys)) = map (\<lambda>j. (q + 1) + length (slot_keys ?seq s j)) (slot_keys ?seq s (length keys))"
      using sub that c by (intro map_cong) (auto simp: slot_keys_def)
    then have m: "map ?f (slot_keys ?seq s (length keys)) = [q + 1..<q + 1 + length (slot_keys ?seq s (length keys))]" by (simp only: slot_keys_enum)
    have "obj_at h q = Inr (values_cell q (length (slot_keys ?seq s (length keys))))"
      using hold that c by (simp add: holds_values_def on_slot_keys_nth)
    then show ?thesis unfolding sub_cell_def c using m by (simp add: values_cell_def del: upt_Suc map_eq_conv)
  qed
  have snd: "snd ` set ?cmds = set qs" using len by (metis map_snd_zip set_map)
  have fst: "fst ` set ?cmds = set ss" using len by (metis map_fst_zip set_map)
  obtain p h1 r es where post: "command_post_fragment M command ?seq ?cmds h = Inr (p, h1, None)" "obj_at h1 p = Inr r" "rr_type r = REDIS_REPLY_ARRAY"
      "rr_elements r = length ?seq" "rr_element r = Some es" "length ?seq \<le> length es" "\<forall>j < length ?seq. es ! j = ?f j"
      "\<forall>(s, q) \<in> set ?cmds. \<exists>r. obj_at h1 q = Inr r \<and> rr_type r = REDIS_REPLY_ARRAY \<and> rr_elements r = 0"
      "p = Suc (length h)" "\<forall>x. x \<le> length h \<longrightarrow> x \<notin> snd ` set ?cmds \<longrightarrow> obj_at h1 x = obj_at h x"
    using post_fragment_mget_ok [of command ?seq ?cmds M ?f h] assms(2-4,6-8) fst len cell by auto
  have "distinct (map snd ?cmds)" using len assms(3) by simp
  from free_emptied [OF post(8) this] obtain h' where h': "free_replies ?cmds h1 = Inr h'" "\<forall>x. x \<notin> set qs \<longrightarrow> obj_at h' x = obj_at h1 x"
    unfolding snd by blast
  have "obj_at h' (?f j) = Inr (value_cell (val (keys ! j)))" if j: "j < length keys" for j
  proof -
    let ?s = "?seq ! j" let ?i = "length (slot_keys ?seq ?s j)"
    have "?s \<in> fst ` set ?cmds" unfolding fst using assms(4) j by auto
    then obtain q where q: "(?s, q) \<in> set ?cmds" by auto
    obtain post where sk: "slot_keys ?seq ?s (length keys) = slot_keys ?seq ?s j @ j # post" using slot_keys_at [OF j, of ?seq ?s] by auto
    then have i: "?i < length (on_slot_keys ?s keys)" "on_slot_keys ?s keys ! ?i = keys ! j" unfolding on_slot_keys_nth by (simp_all add: nth_append)
    then have o: "obj_at h (q + 1 + ?i) = Inr (value_cell (val (keys ! j)))" using hold [OF q] by (simp add: holds_values_def)
    have "list_all is_value (map val (on_slot_keys ?s keys))" using assms(5) by (auto simp: list_all_iff)
    then have "q + 1 + ?i \<notin> set qs" using holds_values_type [OF hold [OF q]] hold i(1) len
      by (metis in_set_impl_in_set_zip2 length_map)
    then show ?thesis using post(10) h'(2) o sub [OF q] snd by (simp add: obj_at_Inr)
  qed
  then have cells: "\<forall>j < length (map val keys). obj_at h' (es ! j) = Inr (value_cell (map val keys ! j))" using post(7) by simp
  have "p \<notin> set qs"
  proof
    assume "p \<in> set qs"
    then obtain s where "(s, p) \<in> set ?cmds" using snd by force
    then show False using hold post(9) by (force simp: holds_values_def obj_at_Inr)
  qed
  then have "obj_at h' p = Inr r" using h'(2) post(2) by simp
  then have "mget_reply h' p (map val keys)"
    unfolding mget_reply_def using post(3-6) cells by (intro exI [of _ r] exI [of _ es]) simp
  then show ?thesis using post(1) h'(1) by blast
qed
section \<open>The whole command\<close>

text \<open>
  Every slot of the keys has a connected node that answers an MGET of the keys of its slot with their values,
  under the name the caller used and under the name the sub commands have.
\<close>

definition serves_mget :: "('w \<Rightarrow> bool) \<Rightarrow> 'w conn_ops \<Rightarrow> redisClusterContext \<Rightarrow> (bytes \<Rightarrow> reply) \<Rightarrow> bytes \<Rightarrow> bytes list \<Rightarrow> bool" where
  "serves_mget I Op cc val name keys \<longleftrightarrow> (\<forall>k \<in> set keys. \<forall>nm \<in> {name, ''mget''}.
     answering I Op cc (slot_of k) (resp_cmd (nm # on_slot_keys (slot_of k) keys)) (map val (on_slot_keys (slot_of k) keys)))"

lemma serves_clear_error: "serves_mget I Op (clear_error cc) val name keys = serves_mget I Op cc val name keys"
  by (simp add: serves_mget_def answering_def answers_def clear_error_def)

lemma concat_singles: "concat (map (\<lambda>k. [k]) ks) = ks"
  by (induction ks) auto

lemma on_slot_singles: "on_slot s (map (\<lambda>k. [k]) keys) = map (\<lambda>k. [k]) (on_slot_keys s keys)"
  by (simp add: on_slot_def filter_map o_def)

lemma used_slots_singles:
  "set (used_slots (map (\<lambda>k. [k]) keys)) = slot_of ` set keys" "distinct (used_slots (map (\<lambda>k. [k]) keys))"
  by (auto simp: set_used_slots image_iff) (simp add: used_slots_def)

lemma run_split_mget:
  assumes "list_all2 (\<lambda>s. sub_done CMD_REQ_REDIS_MGET (on_slot s (map (\<lambda>k. [k]) keys)) s) (used_slots (map (\<lambda>k. [k]) keys)) (fp_commands R)"
    "fp_seq R = Some (map slot_of keys)" "c_type (fp_command R) = CMD_REQ_REDIS_MGET" "ha_nelem (c_keys (fp_command R)) = length keys"
    "serves_mget I Op cc val name keys" "I w" "\<forall>n. mem_ok M n"
  shows "\<exists>p h' w'. run_split M Op R h cc w = Some (finish p (fp_id R) h' cc w') \<and> I w' \<and> mget_reply h' p (map val keys)"
proof -
  let ?ss = "used_slots (map (\<lambda>k. [k]) keys)" and ?vs = "\<lambda>s. map val (on_slot_keys s keys)"
  have ans: "answering I Op cc s (resp_cmd (''mget'' # on_slot_keys s keys)) (?vs s)" if "s \<in> set ?ss" for s
    using that assms(5) unfolding used_slots_singles serves_mget_def by auto
  have "list_all2 (\<lambda>s sc. c_slot_num sc = int s \<and> answering I Op cc s (c_cmd sc) (?vs s)) ?ss (fp_commands R)"
    using assms(1) ans unfolding list_all2_conv_all_nth
    by (auto simp: sub_done_def on_slot_singles concat_singles frag_name_def)
  from exec_subs_values [OF this assms(6), of M "[]" h] obtain qs h1 w' where
    sub: "exec_subs M Op (fp_commands R) [] h cc w = Some (Inr (None, zip ?ss qs, h1, cc, w'))" "I w'"
      "list_all2 (\<lambda>s q. holds_values h1 q (?vs s)) ?ss qs" "distinct qs" by auto
  have val: "\<forall>k \<in> set keys. is_value (val k)"
    using assms(5) by (fastforce simp: serves_mget_def answering_def list_all_iff)
  obtain p h2 h' where "command_post_fragment M (fp_command R) (map slot_of keys) (zip ?ss qs) h1 = Inr (p, h2, None)"
      "free_replies (zip ?ss qs) h2 = Inr h'" "mget_reply h' p (map val keys)"
    using merged_mget [OF sub(3) used_slots_singles(2) sub(4) _ val assms(3,4,7)] used_slots_singles(1) by blast
  then show ?thesis using sub(1,2) assms(2,7)
    by (intro exI [of _ p] exI [of _ h'] exI [of _ w']) (simp add: run_split_def set_p_error_def)
qed
lemma holds_mget_reply: "holds_values h q vs \<Longrightarrow> mget_reply h q vs"
  by (auto simp: holds_values_def mget_reply_def values_cell_def simp del: upt_Suc)

lemma run_whole_mget:
  assumes "answering I Op cc s (c_cmd (fp_command R)) vs" "c_slot_num (fp_command R) = int s" "I w"
  shows "\<exists>p h' w'. run_whole M Op R h cc w = Some (finish p (fp_id R) h' cc w') \<and> I w' \<and> mget_reply h' p vs"
proof -
  obtain w' where w': "redis_cluster_command_execute M Op (int s) (c_cmd (fp_command R)) cc w = Some (Inr (RArr vs, cc, w'))" "I w'"
    using execute_answering [OF assms(1,3)] by blast
  obtain h' where "place (RArr vs) h = (length h + 1, h')" "holds_values h' (length h + 1) vs"
    using place_holds [of vs h] assms(1) by (auto simp: answering_def)
  then show ?thesis using w' assms(2) holds_mget_reply
    by (intro exI [of _ "length h + 1"] exI [of _ h'] exI [of _ w']) (simp add: run_whole_def)
qed

lemma command_get_granted:
  assumes "\<forall>n. mem_ok M n"
  shows "\<exists>command. command_get M i = (i + 1, Some command) \<and> ha_ok (c_keys command) \<and> ha_nelem (c_keys command) = 0"
  using assms by (simp add: command_get_def hiarray_create_def hiarray_init_def ha_ok_def size64_id)

lemma formatted_mget:
  assumes "name_type name = CMD_REQ_REDIS_MGET" "keys \<noteq> []" "\<forall>k \<in> set keys. k \<noteq> []" "length (resp_cmd (name # keys)) < 2 ^ 31"
    "\<forall>n. mem_ok M n" "serves_mget I Op (clear_error cc) val name keys" "I w"
  shows "\<exists>p i' h' w'. redisClusterFormattedCommand M Op i (resp_cmd (name # keys)) h cc w = Some (finish p i' h' (clear_error cc) w') \<and>
    I w' \<and> mget_reply h' p (map val keys)"
proof -
  let ?argss = "map (\<lambda>k. [k]) keys" and ?cc = "clear_error cc"
  obtain command where g: "command_get M i = (i + 1, Some command)" "ha_ok (c_keys command)" "ha_nelem (c_keys command) = 0"
    using command_get_granted [OF assms(5)] by blast
  let ?r = "command\<lparr>c_cmd := resp_cmd (name # keys)\<rparr>"
  have r: "c_cmd ?r = resp_cmd (name # concat ?argss)" "length (c_cmd ?r) < 2 ^ 31" "ha_ok (c_keys ?r)" "ha_nelem (c_keys ?r) = 0"
    "groups_ok (name_type name) ?argss" "name_type name \<in> {CMD_REQ_REDIS_MGET, CMD_REQ_REDIS_DEL, CMD_REQ_REDIS_MSET}" "\<forall>args \<in> set ?argss. hd args \<noteq> []"
    using g assms(1-4) by (simp_all add: concat_singles groups_ok_def)
  obtain r' R where R: "redis_parse_cmd M ?r = Inr r'" "c_type r' = CMD_REQ_REDIS_MGET" "command_format_by_slot M (i + 1) ?r = Inr R" "split_ok r' ?argss R"
    using format_by_slot_ok [OF r(1,2,6,5,3,4) assms(5) r(7), of "i + 1"] assms(1) by metis
  have r': "c_cmd r' = resp_cmd (name # keys)" "ha_nelem (c_keys r') = length keys"
    using parsed_groups [OF r(1,2,6,5,3,4) assms(5)] R(1) by (auto simp: list_all2_iff length_ha_list)
  let ?s = "slot_of (hd (last ?argss))"
  have ret: "fp_err R = None" "fp_ret R = int ?s" using R(4) by (simp_all add: split_ok_def)
  have "\<exists>p h' w'. (if fp_commands R = [] then run_whole M Op R h ?cc w else run_split M Op R h ?cc w) = Some (finish p (fp_id R) h' ?cc w') \<and>
      I w' \<and> mget_reply h' p (map val keys)"
  proof (cases "length (used_slots ?argss) = 1")
    case True
    then obtain s where s: "slot_of ` set keys = {s}" unfolding used_slots_singles(1) [symmetric] by (auto simp: length_Suc_conv)
    have "last ?argss = [last keys]" using assms(2) by (simp add: last_map)
    then have "?s = s" using s assms(2) by (metis image_eqI last_in_set list.sel(1) singletonD)
    moreover have "answering I Op ?cc s (resp_cmd (name # keys)) (map val keys)"
    proof -
      have "on_slot_keys s keys = keys" using s by (intro filter_True) auto
      then show ?thesis using assms(2,6) s unfolding serves_mget_def by (metis (no_types) image_eqI insertI1 last_in_set singletonD)
    qed
    moreover have "fp_commands R = []" "fp_command R = r'\<lparr>c_slot_num := fp_ret R\<rparr>" using R(4) True by (simp_all add: split_ok_def)
    ultimately show ?thesis using run_whole_mget [of I Op ?cc s R "map val keys" w M h] r'(1) ret(2) assms(7) by simp
  next
    case False
    then have split: "list_all2 (\<lambda>s. sub_done CMD_REQ_REDIS_MGET (on_slot s ?argss) s) (used_slots ?argss) (fp_commands R)"
        "fp_seq R = Some (map slot_of keys)" "fp_command R = r'" using R(2,4) by (simp_all add: split_ok_def o_def)
    moreover have "used_slots ?argss \<noteq> []" using used_slots_singles(1) [of keys] assms(2) by auto
    ultimately have "fp_commands R \<noteq> []" by auto
    then show ?thesis using run_split_mget [OF split(1,2) _ _ assms(6,7,5), of h] split(3) R(2) r'(2) by simp
  qed
  moreover have "redisClusterFormattedCommand M Op i (resp_cmd (name # keys)) h cc w =
      (if fp_commands R = [] then run_whole M Op R h ?cc w else run_split M Op R h ?cc w)"
    using g(1) R(3) ret slot_of_less [of "hd (last ?argss)"] assms(5) by (simp add: redisClusterFormattedCommand_def Let_def set_p_error_def)
  ultimately show ?thesis by metis
qed
section \<open>Properties\<close>

text \<open>
  C1: an MGET through the cluster client returns the values of its keys in their order. For any list of non-empty
  keys, wherever their slots are, and servers that answer the MGET of the keys of one slot with their values:
  \<^verbatim>\<open>redisClusterCommandArgv\<close> formats the command, splits it by slots, has every part executed by the node of its
  slot, and returns an array with one element per key, element \<open>j\<close> being the value of key \<open>j\<close>; the replies of the
  parts are released, and none of what the caller gets is released with them.
\<close>

theorem redisClusterCommandArgv_mget:
  assumes "argv_texts argv lens = Inr (name # keys)" "name_type name = CMD_REQ_REDIS_MGET" "keys \<noteq> []" "\<forall>k \<in> set keys. k \<noteq> []"
    "length (resp_cmd (name # keys)) < 2 ^ 31 - 1" "\<forall>n. mem_ok M n" "serves_mget I Op cc val name keys" "I w"
  shows "\<exists>p i' h' cc' w'. redisClusterCommandArgv M Op i (int (length argv)) argv lens h cc w = Some (Inr (p, i', h', cc', w')) \<and>
    cc_err cc' = 0 \<and> I w' \<and> mget_reply h' p (map val keys)"
proof -
  obtain p i' h' w' where "redisClusterFormattedCommand M Op i (resp_cmd (name # keys)) h cc w = Some (finish p i' h' (clear_error cc) w')"
      "I w'" "mget_reply h' p (map val keys)"
    using formatted_mget [of name keys M I Op cc val w i h] assms(2-8) serves_clear_error [of I Op cc val name keys] by auto
  moreover have "redisFormatCommandArgv M True (int (length argv)) argv lens = Inr (int (length (resp_cmd (name # keys))), Some (resp_cmd (name # keys) @ [NUL]))"
    using redisFormatCommandArgv_resp [OF assms(1,5), of M] assms(6) by simp
  ultimately show ?thesis by (auto simp: redisClusterCommandArgv_def finish_def clear_error_def)
qed

theorem redisClusterCommandArgv_mget_witness:
  "\<exists>p i' h' cc' w'. redisClusterCommandArgv granting
      \<lparr>op_connect = (\<lambda>host port w. (None, w)), op_reconnect = (\<lambda>c w. w), op_err = (\<lambda>c w. (0, [])),
       op_command = (\<lambda>c cmd w. (if cmd \<in> {resp_cmd [''MGET'', ''bar''], resp_cmd [''mget'', ''bar'']} then RArr [RNil] else RArr [RStr ''1'', RStr ''1''], w + 1)),
       op_net = (\<lambda>w ip port cmd. NoContext), op_asked = (\<lambda>w. w)\<rparr> 0 (int (length [''MGET'', ''foo'', ''bar'', ''foo'']))
      [''MGET'', ''foo'', ''bar'', ''foo''] (Some [4, 3, 3, 3]) []
      \<lparr>cc_err = 0, cc_errstr = [], cc_ip = None, cc_port = 0, cc_flags = 0, cc_slots = None, cc_nodes = None, cc_table = (\<lambda>_. 1),
        cc_route_version = 0, cc_max_redirect_count = 5, cc_retry_count = 0, cc_heap = [cluster_node_init\<lparr>cn_con := Some 3\<rparr>]\<rparr> (0::nat) =
      Some (Inr (p, i', h', cc', w')) \<and> cc_err cc' = 0 \<and> mget_reply h' p [RStr ''1'', RNil, RStr ''1'']"
proof -
  let ?Op = "\<lparr>op_connect = (\<lambda>host port w. (None, w)), op_reconnect = (\<lambda>c w. w), op_err = (\<lambda>c w. (0, [])),
       op_command = (\<lambda>c cmd w. (if cmd \<in> {resp_cmd [''MGET'', ''bar''], resp_cmd [''mget'', ''bar'']} then RArr [RNil] else RArr [RStr ''1'', RStr ''1''], w + 1)),
       op_net = (\<lambda>w ip port cmd. NoContext), op_asked = (\<lambda>w. w)\<rparr> :: nat conn_ops"
  let ?cc = "\<lparr>cc_err = 0, cc_errstr = [], cc_ip = None, cc_port = 0, cc_flags = 0, cc_slots = None, cc_nodes = None, cc_table = (\<lambda>_. 1),
        cc_route_version = 0, cc_max_redirect_count = 5, cc_retry_count = 0, cc_heap = [cluster_node_init\<lparr>cn_con := Some 3\<rparr>]\<rparr> :: redisClusterContext"
  let ?val = "\<lambda>k. if k = ''bar'' then RNil else RStr ''1''"
  let ?keys = "[''foo'', ''bar'', ''foo'']"
  have t: "name_type ''MGET'' = CMD_REQ_REDIS_MGET"
    using entries4 [of "[]"] unfolding name_type_def by (simp add: names4_def entry_ok_def)
  have ne: "resp_cmd [nm, ''foo'', ''foo''] \<notin> {resp_cmd [''MGET'', ''bar''], resp_cmd [''mget'', ''bar'']}" for nm
    by (simp add: resp_cmd_def dec_small digit_char_def)
  have serves: "serves_mget (\<lambda>_. True) ?Op ?cc ?val ''MGET'' ?keys"
    using ne by (auto simp: serves_mget_def answering_def answers_def slots_foo_bar is_value_def node_at_def rd_def)
  have "length (resp_cmd (''MGET'' # ?keys)) < 2 ^ 31 - 1" by (simp add: length_resp_cmd length_bulk dec_small)
  then show ?thesis
    using redisClusterCommandArgv_mget [OF _ t _ _ _ _ serves, where argv = "[''MGET'', ''foo'', ''bar'', ''foo'']" and lens = "Some [4, 3, 3, 3]" and M = granting
        and w = 0 and i = 0 and h = "[]"] by auto
qed
end
