(* ===== verification/Cluster_Pipeline.thy ===== *)
theory Cluster_Pipeline
  imports Cluster_Command Connection
begin

text \<open>
  Pipelining through the cluster client (\<^verbatim>\<open>src/hircluster.c\<close>): \<^verbatim>\<open>redisClusterAppendFormattedCommand\<close> puts a command, or the
  parts of a split command, into the output buffers of the nodes and remembers the request; \<^verbatim>\<open>redisClusterGetReply\<close>
  fetches the reply of the oldest request from the same nodes; \<^verbatim>\<open>redisClusterReset\<close> gives up what is left.

  The network is the one of theory \<open>Cluster_Exec\<close> with the operations of a pipeline added. The interface \<open>reply_queues\<close>
  says what such a network owes the client, and the connections of theory \<open>Connection\<close> are shown to implement it.
\<close>

section \<open>State\<close>

text \<open>What is kept of a command until its reply is fetched; \<open>rq_subs\<close> is \<^verbatim>\<open>sub_commands\<close>.\<close>

record request =
  rq_command :: cmd
  rq_subs :: "sub_cmd list option"
  rq_seq :: "nat list option"

record pipe_context =
  pc_cc :: redisClusterContext
  pc_requests :: "request list option"
  pc_need_update_route :: bool

text \<open>
  \<open>po_append\<close> is \<^verbatim>\<open>__redisAppendCommand\<close>, \<open>po_get_reply\<close> is \<^verbatim>\<open>redisGetReply\<close>, which puts the reply on the heap, \<open>po_flush\<close>
  writes until the output buffer of a blocking connection is empty and \<open>po_free\<close> is \<^verbatim>\<open>redisFree\<close>. A call that never
  returns is \<open>None\<close>.
\<close>

record 'w pipe_ops =
  po_ops :: "'w conn_ops"
  po_append :: "nat \<Rightarrow> bytes \<Rightarrow> 'w \<Rightarrow> (int \<times> 'w) c_res"
  po_get_reply :: "nat \<Rightarrow> 'w \<Rightarrow> rheap \<Rightarrow> (int \<times> ptr \<times> 'w \<times> rheap) c_res option"
  po_flush :: "nat \<Rightarrow> 'w \<Rightarrow> (int \<times> 'w) c_res option"
  po_free :: "nat \<Rightarrow> 'w \<Rightarrow> 'w"

abbreviation in_cc :: "(redisClusterContext \<Rightarrow> redisClusterContext) \<Rightarrow> pipe_context \<Rightarrow> pipe_context" where
  "in_cc f pc \<equiv> pc\<lparr>pc_cc := f (pc_cc pc)\<rparr>"

definition pc_error :: "int \<Rightarrow> bytes \<Rightarrow> pipe_context \<Rightarrow> pipe_context" where
  "pc_error ty msg pc = in_cc (\<lambda>cc. redisClusterSetError cc ty msg) pc"

definition pc_conn_error :: "'w pipe_ops \<Rightarrow> nat \<Rightarrow> 'w \<Rightarrow> pipe_context \<Rightarrow> pipe_context" where
  "pc_conn_error Op c w pc = in_cc (ctx_error (po_ops Op) c w) pc"

section \<open>One node\<close>

definition redisClusterAppendCommand_raw :: "'w pipe_ops \<Rightarrow> int \<Rightarrow> bytes \<Rightarrow> pipe_context \<Rightarrow> 'w \<Rightarrow> (int \<times> pipe_context \<times> 'w) c_res" where
  "redisClusterAppendCommand_raw Op slot_num cmd pc w =
     (let p = node_get_by_table (pc_cc pc) (uint32 slot_num) in
      if p = 0 then Inr (REDIS_ERR, pc_error 2 ''node get by slot error'' pc, w)
      else
        bind_c (ctx_get_by_node (po_ops Op) p (cc_heap (pc_cc pc)) w) (\<lambda>(c, H, w).
          let pc = in_cc (\<lambda>cc. cc\<lparr>cc_heap := H\<rparr>) pc in
          case c of
            None \<Rightarrow> Inr (REDIS_ERR, pc_error 2 ''ctx get by node is null'' pc, w)
          | Some c \<Rightarrow>
              if fst (op_err (po_ops Op) c w) \<noteq> 0 then Inr (REDIS_ERR, pc_conn_error Op c w pc, w)
              else
                bind_c (po_append Op c cmd w) (\<lambda>(ok, w).
                  Inr (if ok \<noteq> REDIS_OK then (REDIS_ERR, pc_conn_error Op c w pc, w) else (REDIS_OK, pc, w)))))"

text \<open>\<^verbatim>\<open>cluster_reply_error_type\<close> on a reply object.\<close>

definition said :: "redisReply \<Rightarrow> bytes \<Rightarrow> bytes \<Rightarrow> bool" where
  "said r s pre \<longleftrightarrow> int (length pre) < rr_len r \<and> take (length pre) s = pre"

definition reply_error_type :: "rheap \<Rightarrow> ptr \<Rightarrow> int c_res" where
  "reply_error_type h p =
     (if p = 0 then Inr (-1)
      else
        bind_c (obj_at h p) (\<lambda>r.
          if rr_type r = REDIS_REPLY_ERROR then
            (case rr_str r of
               None \<Rightarrow> Inl NullDeref
             | Some s \<Rightarrow>
                 Inr (if said r s ''MOVED'' then CLUSTER_ERR_MOVED
                      else if said r s ''ASK'' then CLUSTER_ERR_ASK
                      else if said r s ''TRYAGAIN'' then CLUSTER_ERR_TRYAGAIN
                      else if said r s ''CROSSSLOT'' then CLUSTER_ERR_CROSSSLOT
                      else if said r s ''CLUSTERDOWN'' then CLUSTER_ERR_CLUSTERDOWN
                      else CLUSTER_ERR_SENTINEL))
          else Inr CLUSTER_NOT_ERR))"

definition count_conn_error :: "pipe_context \<Rightarrow> pipe_context" where
  "count_conn_error pc =
     (if pc_need_update_route pc then pc
      else
        (let n = int32 (cc_retry_count (pc_cc pc) + 1) in
         if n > cc_max_redirect_count (pc_cc pc) then (in_cc (\<lambda>cc. cc\<lparr>cc_retry_count := 0\<rparr>) pc)\<lparr>pc_need_update_route := True\<rparr>
         else in_cc (\<lambda>cc. cc\<lparr>cc_retry_count := n\<rparr>) pc))"

type_synonym 'w pipe_result = "(int \<times> ptr \<times> pipe_context \<times> 'w \<times> rheap) c_res option"

definition redisClusterGetReply_raw :: "'w pipe_ops \<Rightarrow> int \<Rightarrow> pipe_context \<Rightarrow> 'w \<Rightarrow> rheap \<Rightarrow> 'w pipe_result" where
  "redisClusterGetReply_raw Op slot_num pc w h =
     (let p = node_get_by_table (pc_cc pc) (uint32 slot_num) in
      if slot_num < 0 then Some (Inr (REDIS_ERR, 0, pc, w, h))
      else if p = 0 then Some (Inr (REDIS_ERR, 0, pc_error 2 ''node get by table is null'' pc, w, h))
      else
        (case ctx_get_by_node (po_ops Op) p (cc_heap (pc_cc pc)) w of
           Inl e \<Rightarrow> Some (Inl e)
         | Inr (c, H, w) \<Rightarrow>
             (let pc = in_cc (\<lambda>cc. cc\<lparr>cc_heap := H\<rparr>) pc in
              case c of
                None \<Rightarrow> Some (Inr (REDIS_ERR, 0, pc_error 5 ''Out of memory'' pc, w, h))
              | Some c \<Rightarrow>
                  if fst (op_err (po_ops Op) c w) \<noteq> 0
                  then Some (Inr (REDIS_ERR, 0, pc_conn_error Op c w (count_conn_error pc), w, h))
                  else
                    (case po_get_reply Op c w h of
                       None \<Rightarrow> None
                     | Some (Inl e) \<Rightarrow> Some (Inl e)
                     | Some (Inr (ok, r, w, h)) \<Rightarrow>
                         if ok \<noteq> REDIS_OK then Some (Inr (REDIS_ERR, 0, pc_conn_error Op c w pc, w, h))
                         else
                           Some (bind_c (reply_error_type h r) (\<lambda>ty.
                             Inr (REDIS_OK, r, if ty = CLUSTER_ERR_MOVED then pc\<lparr>pc_need_update_route := True\<rparr> else pc, w, h)))))))"

section \<open>Appending\<close>

fun append_subs :: "'w pipe_ops \<Rightarrow> sub_cmd list \<Rightarrow> pipe_context \<Rightarrow> 'w \<Rightarrow> (int \<times> pipe_context \<times> 'w) c_res" where
  "append_subs Op [] pc w = Inr (REDIS_OK, pc, w)"
| "append_subs Op (sc # scs) pc w =
     bind_c (redisClusterAppendCommand_raw Op (c_slot_num sc) (c_cmd sc) pc w) (\<lambda>(ok, pc, w).
       if ok = REDIS_OK then append_subs Op scs pc w else Inr (REDIS_ERR, pc, w))"

definition request_of :: "frag_result \<Rightarrow> request" where
  "request_of R = \<lparr>rq_command = fp_command R, rq_subs = (if fp_commands R = [] then None else Some (fp_commands R)), rq_seq = fp_seq R\<rparr>"

text \<open>
  What the label \<^verbatim>\<open>done\<close> or the label \<^verbatim>\<open>error\<close> does with the request; commands that were put into the buffers of some nodes
  before one failed stay there.
\<close>

definition note_request :: "mem \<Rightarrow> frag_result \<Rightarrow> request list \<Rightarrow> int \<times> pipe_context \<times> 'w \<Rightarrow> int \<times> u64 \<times> pipe_context \<times> 'w" where
  "note_request M R reqs = (\<lambda>(ok, pc, w).
     if ok = REDIS_OK then (REDIS_OK, fp_id R, pc\<lparr>pc_requests := Some (list_append M (request_of R) reqs)\<rparr>, w) else (REDIS_ERR, fp_id R, pc, w))"

definition redisClusterAppendFormattedCommand :: "mem \<Rightarrow> 'w pipe_ops \<Rightarrow> u64 \<Rightarrow> bytes \<Rightarrow> pipe_context \<Rightarrow> 'w \<Rightarrow>
    (int \<times> u64 \<times> pipe_context \<times> 'w) c_res" where
  "redisClusterAppendFormattedCommand M Op i cmd pc w =
     (case (case pc_requests pc of Some rs \<Rightarrow> Some rs | None \<Rightarrow> if mem_ok M 48 then Some [] else None) of
        None \<Rightarrow> Inr (REDIS_ERR, i, pc_error 5 ''Out of memory'' pc, w)
      | Some reqs \<Rightarrow>
          (let pc = pc\<lparr>pc_requests := Some reqs\<rparr> in
           case command_get M i of
             (i, None) \<Rightarrow> Inr (REDIS_ERR, i, pc_error 5 ''Out of memory'' pc, w)
           | (i, Some command) \<Rightarrow>
               if \<not> mem_ok M 48 then Inr (REDIS_ERR, i, pc_error 5 ''Out of memory'' pc, w)
               else
                 bind_c (command_format_by_slot M i (command\<lparr>c_cmd := cmd\<rparr>)) (\<lambda>R.
                   let pc = in_cc (\<lambda>cc. set_p_error cc (fp_err R)) pc in
                   if fp_ret R < 0 then Inr (REDIS_ERR, fp_id R, pc, w)
                   else if fp_ret R \<ge> int REDIS_CLUSTER_SLOTS then Inr (REDIS_ERR, fp_id R, pc_error 2 ''slot_num is out of range'' pc, w)
                   else if fp_commands R = [] then
                     bind_c (redisClusterAppendCommand_raw Op (c_slot_num (fp_command R)) (c_cmd (fp_command R)) pc w) (\<lambda>r. Inr (note_request M R reqs r))
                   else
                     bind_c (assert_c (length (fp_commands R) \<noteq> 1)) (\<lambda>_.
                       if \<not> mem_ok M 16 then Inl NullDeref
                       else bind_c (append_subs Op (fp_commands R) pc w) (\<lambda>r. Inr (note_request M R reqs r))))))"

definition redisClustervAppendCommand :: "mem \<Rightarrow> (bytes \<Rightarrow> 'd va_item list \<Rightarrow> bytes) \<Rightarrow> 'w pipe_ops \<Rightarrow> u64 \<Rightarrow> bytes \<Rightarrow> 'd va_item list \<Rightarrow>
    pipe_context \<Rightarrow> 'w \<Rightarrow> (int \<times> u64 \<times> pipe_context \<times> 'w) c_res" where
  "redisClustervAppendCommand M vtext Op i format args pc w =
     bind_c (redisvFormatCommand M vtext True format args) (\<lambda>(len, cmd).
       if len = -1 then Inr (REDIS_ERR, i, pc_error 5 ''Out of memory'' pc, w)
       else if len = -2 then Inr (REDIS_ERR, i, pc_error 2 ''Invalid format string'' pc, w)
       else (case cmd of None \<Rightarrow> Inl NullDeref | Some cmd \<Rightarrow> redisClusterAppendFormattedCommand M Op i (take (nat len) cmd) pc w))"

definition redisClusterAppendCommandArgv :: "mem \<Rightarrow> 'w pipe_ops \<Rightarrow> u64 \<Rightarrow> int \<Rightarrow> bytes list \<Rightarrow> nat list option \<Rightarrow>
    pipe_context \<Rightarrow> 'w \<Rightarrow> (int \<times> u64 \<times> pipe_context \<times> 'w) c_res" where
  "redisClusterAppendCommandArgv M Op i argc argv argvlen pc w =
     bind_c (redisFormatCommandArgv M True argc argv argvlen) (\<lambda>(len, cmd).
       if len = -1 then Inr (REDIS_ERR, i, pc_error 5 ''Out of memory'' pc, w)
       else (case cmd of None \<Rightarrow> Inl NullDeref | Some cmd \<Rightarrow> redisClusterAppendFormattedCommand M Op i (take (nat len) cmd) pc w))"

section \<open>Fetching\<close>

text \<open>The loop over the sub commands: whether all of them have a reply, and the replies.\<close>

fun get_subs :: "'w pipe_ops \<Rightarrow> sub_cmd list \<Rightarrow> (nat \<times> ptr) list \<Rightarrow> pipe_context \<Rightarrow> 'w \<Rightarrow> rheap \<Rightarrow>
    (bool \<times> (nat \<times> ptr) list \<times> pipe_context \<times> 'w \<times> rheap) c_res option" where
  "get_subs Op [] cmds pc w h = Some (Inr (True, cmds, pc, w, h))"
| "get_subs Op (sc # scs) cmds pc w h =
     (if c_slot_num sc < 0 then Some (Inr (False, cmds, pc_error 2 ''sub_command slot_num is less then zero'' pc, w, h))
      else
        (case redisClusterGetReply_raw Op (c_slot_num sc) pc w h of
           None \<Rightarrow> None
         | Some (Inl e) \<Rightarrow> Some (Inl e)
         | Some (Inr (ok, r, pc, w, h)) \<Rightarrow>
             if ok \<noteq> REDIS_OK then Some (Inr (False, cmds, pc, w, h))
             else get_subs Op scs (cmds @ [(nat (c_slot_num sc), r)]) pc w h))"

text \<open>Removing the request from the list releases the replies its sub commands hold.\<close>

definition get_split :: "mem \<Rightarrow> 'w pipe_ops \<Rightarrow> request \<Rightarrow> sub_cmd list \<Rightarrow> pipe_context \<Rightarrow> 'w \<Rightarrow> rheap \<Rightarrow> 'w pipe_result" where
  "get_split M Op rq scs pc w h =
     (if length scs = 1 then Some (Inl AssertFailed)
      else if \<not> mem_ok M 16 then Some (Inl NullDeref)
      else
        (case get_subs Op scs [] pc w h of
           None \<Rightarrow> None
         | Some (Inl e) \<Rightarrow> Some (Inl e)
         | Some (Inr (False, cmds, pc, w, h)) \<Rightarrow> Some (bind_c (free_replies cmds h) (\<lambda>h. Inr (REDIS_ERR, 0, pc, w, h)))
         | Some (Inr (True, cmds, pc, w, h)) \<Rightarrow>
             Some
               (case rq_seq rq of
                  None \<Rightarrow> Inl NullDeref
                | Some seq \<Rightarrow>
                    bind_c (command_post_fragment M (rq_command rq) seq cmds h) (\<lambda>(p, h, e).
                      bind_c (free_replies cmds h) (\<lambda>h.
                        Inr (if p = 0 then REDIS_ERR else REDIS_OK, p, in_cc (\<lambda>cc. set_p_error cc e) pc, w, h))))))"

definition redisClusterGetReply :: "mem \<Rightarrow> 'w pipe_ops \<Rightarrow> pipe_context \<Rightarrow> 'w \<Rightarrow> rheap \<Rightarrow> 'w pipe_result" where
  "redisClusterGetReply M Op pc w h =
     (let pc = in_cc (\<lambda>cc. cc\<lparr>cc_err := 0, cc_errstr := []\<rparr>) pc in
      case pc_requests pc of
        None \<Rightarrow> Some (Inr (REDIS_ERR, 0, pc, w, h))
      | Some [] \<Rightarrow> Some (Inr (REDIS_OK, 0, pc, w, h))
      | Some (rq # rqs) \<Rightarrow>
          (let pc = pc\<lparr>pc_requests := Some rqs\<rparr>; slot_num = c_slot_num (rq_command rq) in
           if slot_num \<ge> 0 then redisClusterGetReply_raw Op slot_num pc w h
           else
             (case rq_subs rq of
                None \<Rightarrow> Some (Inr (REDIS_ERR, 0, pc_error 2 ''sub_commands in command is null'' pc, w, h))
              | Some scs \<Rightarrow> get_split M Op rq scs pc w h)))"

section \<open>Giving up\<close>

fun send_nodes :: "'w pipe_ops \<Rightarrow> (bytes \<times> nptr) list \<Rightarrow> nheap \<Rightarrow> 'w \<Rightarrow> (int \<times> nheap \<times> 'w) c_res option" where
  "send_nodes Op [] H w = Some (Inr (REDIS_OK, H, w))"
| "send_nodes Op ((k, p) # es) H w =
     (if p = 0 then send_nodes Op es H w
      else
        (case ctx_get_by_node (po_ops Op) p H w of
           Inl e \<Rightarrow> Some (Inl e)
         | Inr (None, H, w) \<Rightarrow> send_nodes Op es H w
         | Inr (Some c, H, w) \<Rightarrow>
             (case po_flush Op c w of
                None \<Rightarrow> None
              | Some (Inl e) \<Rightarrow> Some (Inl e)
              | Some (Inr (ok, w)) \<Rightarrow> if ok = REDIS_ERR then Some (Inr (REDIS_ERR, H, w)) else send_nodes Op es H w)))"

definition redisCLusterSendAll :: "mem \<Rightarrow> 'w pipe_ops \<Rightarrow> pipe_context \<Rightarrow> 'w \<Rightarrow> (int \<times> pipe_context \<times> 'w) c_res option" where
  "redisCLusterSendAll M Op pc w =
     (case cc_nodes (pc_cc pc) of
        None \<Rightarrow> Some (Inr (REDIS_ERR, pc, w))
      | Some nds \<Rightarrow>
          (case bind_c (dictGetIterator M) (dict_walk (d_used nds + 1) nds) of
             Inl e \<Rightarrow> Some (Inl e)
           | Inr es \<Rightarrow>
               (case send_nodes Op es (cc_heap (pc_cc pc)) w of
                  None \<Rightarrow> None
                | Some (Inl e) \<Rightarrow> Some (Inl e)
                | Some (Inr (ok, H, w)) \<Rightarrow> Some (Inr (ok, in_cc (\<lambda>cc. cc\<lparr>cc_heap := H\<rparr>) pc, w)))))"

fun clear_nodes :: "'w pipe_ops \<Rightarrow> (bytes \<times> nptr) list \<Rightarrow> nheap \<Rightarrow> 'w \<Rightarrow> (nheap \<times> 'w) c_res" where
  "clear_nodes Op [] H w = Inr (H, w)"
| "clear_nodes Op ((k, p) # es) H w =
     (if p = 0 then clear_nodes Op es H w
      else
        bind_c (node_at H p) (\<lambda>n.
          case cn_con n of
            None \<Rightarrow> clear_nodes Op es H w
          | Some c \<Rightarrow> clear_nodes Op es (node_set H p (n\<lparr>cn_con := None\<rparr>)) (po_free Op c w)))"

definition redisCLusterClearAll :: "mem \<Rightarrow> 'w pipe_ops \<Rightarrow> pipe_context \<Rightarrow> 'w \<Rightarrow> (int \<times> pipe_context \<times> 'w) c_res" where
  "redisCLusterClearAll M Op pc w =
     (let pc = in_cc clear_error pc in
      case cc_nodes (pc_cc pc) of
        None \<Rightarrow> Inr (REDIS_ERR, pc, w)
      | Some nds \<Rightarrow>
          bind_c (bind_c (dictGetIterator M) (dict_walk (d_used nds + 1) nds)) (\<lambda>es.
            bind_c (clear_nodes Op es (cc_heap (pc_cc pc)) w) (\<lambda>(H, w). Inr (REDIS_OK, in_cc (\<lambda>cc. cc\<lparr>cc_heap := H\<rparr>) pc, w))))"

partial_function (option) reset_loop :: "mem \<Rightarrow> 'w pipe_ops \<Rightarrow> pipe_context \<Rightarrow> 'w \<Rightarrow> rheap \<Rightarrow> (pipe_context \<times> 'w \<times> rheap) c_res option" where
  "reset_loop M Op pc w h =
     (case redisClusterGetReply M Op pc w h of
        None \<Rightarrow> None
      | Some (Inl e) \<Rightarrow> Some (Inl e)
      | Some (Inr (status, r, pc, w, h)) \<Rightarrow>
          if status \<noteq> REDIS_OK then Some (bind_c (redisCLusterClearAll M Op pc w) (\<lambda>(_, pc, w). Inr (pc, w, h)))
          else
            (case freeReplyObject r h of
               Inl e \<Rightarrow> Some (Inl e)
             | Inr h \<Rightarrow> if r = 0 then Some (Inr (pc, w, h)) else reset_loop M Op pc w h))"

definition reset_route :: "mem \<Rightarrow> 'w pipe_ops \<Rightarrow> pipe_context \<Rightarrow> 'w \<Rightarrow> (pipe_context \<times> 'w) c_res" where
  "reset_route M Op pc w =
     (if \<not> pc_need_update_route pc then Inr (pc, w)
      else
        bind_c (cluster_update_route M (op_net (po_ops Op) w) (pc_cc pc)) (\<lambda>(status, cc).
          let pc = pc\<lparr>pc_cc := cc\<rparr>; w = op_asked (po_ops Op) w in
          Inr (if status \<noteq> REDIS_OK then (pc_error 2 ''route update error, please recreate redisClusterContext!'' pc, w)
               else (pc\<lparr>pc_need_update_route := False\<rparr>, w))))"

definition reset_replies :: "mem \<Rightarrow> 'w pipe_ops \<Rightarrow> pipe_context \<Rightarrow> 'w \<Rightarrow> rheap \<Rightarrow> (pipe_context \<times> 'w \<times> rheap) c_res option" where
  "reset_replies M Op pc w h =
     (if cc_err (pc_cc pc) \<noteq> 0 then Some (bind_c (redisCLusterClearAll M Op pc w) (\<lambda>(_, pc, w). Inr (pc, w, h)))
      else
        (case redisCLusterSendAll M Op pc w of
           None \<Rightarrow> None
         | Some (Inl e) \<Rightarrow> Some (Inl e)
         | Some (Inr (_, pc, w)) \<Rightarrow> reset_loop M Op pc w h))"

definition redisClusterReset :: "mem \<Rightarrow> 'w pipe_ops \<Rightarrow> pipe_context \<Rightarrow> 'w \<Rightarrow> rheap \<Rightarrow> (pipe_context \<times> 'w \<times> rheap) c_res option" where
  "redisClusterReset M Op pc w h =
     (if cc_nodes (pc_cc pc) = None then Some (Inr (pc, w, h))
      else
        (case reset_replies M Op pc w h of
           None \<Rightarrow> None
         | Some (Inl e) \<Rightarrow> Some (Inl e)
         | Some (Inr (pc, w, h)) \<Rightarrow>
             Some (bind_c (reset_route M Op (pc\<lparr>pc_requests := None\<rparr>) w) (\<lambda>(pc, w). Inr (pc, w, h)))))"

section \<open>What the client relies on\<close>

text \<open>
  The connections \<open>C\<close> are in use: connection \<open>c\<close> has the replies \<open>q c\<close> to come, in this order, and takes \<open>a c\<close> more bytes of
  commands before its next reply is fetched; \<open>out w c\<close> is what it was given so far.
\<close>

locale reply_queues =
  fixes Op :: "'w pipe_ops" and ok :: "'w \<Rightarrow> (nat \<Rightarrow> reply list) \<Rightarrow> (nat \<Rightarrow> nat) \<Rightarrow> bool" and out :: "'w \<Rightarrow> nat \<Rightarrow> bytes" and C :: "nat set"
  assumes no_error: "ok w q a \<Longrightarrow> c \<in> C \<Longrightarrow> fst (op_err (po_ops Op) c w) = 0"
    and append_law: "ok w q a \<Longrightarrow> c \<in> C \<Longrightarrow> length cmd \<le> a c \<Longrightarrow> cmd \<noteq> [] \<Longrightarrow>
      \<exists>w'. po_append Op c cmd w = Inr (REDIS_OK, w') \<and> ok w' q (a(c := a c - length cmd)) \<and> out w' = (out w)(c := out w c @ cmd)"
    and get_law: "ok w q a \<Longrightarrow> c \<in> C \<Longrightarrow> q c = r # rs \<Longrightarrow> r \<noteq> Absent \<and>
      (\<exists>w'. po_get_reply Op c w h = Some (Inr (REDIS_OK, length h + 1, w', h @ map Some (layout (length h + 1) r))) \<and>
         ok w' (q(c := rs)) (a(c := 0)) \<and> out w' = out w)"

text \<open>The node of the slot has the connection \<open>c\<close>.\<close>

definition slot_has :: "redisClusterContext \<Rightarrow> nat \<Rightarrow> nat \<Rightarrow> bool" where
  "slot_has cc s c \<longleftrightarrow> s < REDIS_CLUSTER_SLOTS \<and> (\<exists>n. node_at (cc_heap cc) (cc_table cc s) = Inr n \<and> cn_con n = Some c)"

definition same_nodes :: "pipe_context \<Rightarrow> pipe_context \<Rightarrow> bool" where
  "same_nodes pc pc' \<longleftrightarrow> cc_heap (pc_cc pc') = cc_heap (pc_cc pc) \<and> cc_table (pc_cc pc') = cc_table (pc_cc pc)"

lemma same_nodes_refl [simp]: "same_nodes pc pc"
  by (simp add: same_nodes_def)

lemma same_nodes_trans: "same_nodes pc pc1 \<Longrightarrow> same_nodes pc1 pc2 \<Longrightarrow> same_nodes pc pc2"
  by (simp add: same_nodes_def)

lemma same_nodes_slot: "same_nodes pc pc' \<Longrightarrow> slot_has (pc_cc pc') = slot_has (pc_cc pc)"
  by (simp add: same_nodes_def slot_has_def fun_eq_iff)

lemma slot_has_conn:
  assumes "slot_has cc s c" "fst (op_err Op c w) = 0"
  shows "node_get_by_table cc (uint32 (int s)) \<noteq> 0" "ctx_get_by_node Op (node_get_by_table cc (uint32 (int s))) (cc_heap cc) w = Inr (Some c, cc_heap cc, w)"
proof -
  obtain n where n: "node_at (cc_heap cc) (cc_table cc s) = Inr n" "cn_con n = Some c" "s < REDIS_CLUSTER_SLOTS" using assms(1) by (auto simp: slot_has_def)
  then have t: "node_get_by_table cc (uint32 (int s)) = cc_table cc s" by (simp add: node_get_by_table_def uint32_id)
  show "node_get_by_table cc (uint32 (int s)) \<noteq> 0" "ctx_get_by_node Op (node_get_by_table cc (uint32 (int s))) (cc_heap cc) w = Inr (Some c, cc_heap cc, w)"
    using node_at_pos [OF n(1)] n assms(2) unfolding t by (simp_all add: ctx_get_by_node_def)
qed

lemma reply_error_type_layout:
  assumes "r \<noteq> Absent"
  shows "reply_error_type (h @ map Some (layout (length h + 1) r)) (length h + 1) = Inr (cluster_reply_error_type r)"
proof -
  have "layout (length h + 1) r \<noteq> []" using assms by (cases r) auto
  then have "obj_at (h @ map Some (layout (length h + 1) r)) (length h + 1) = Inr (hd (layout (length h + 1) r))"
    by (cases "layout (length h + 1) r") (auto simp: obj_at_def nth_append)
  moreover have "said (str_cell REDIS_REPLY_ERROR s) (s @ [NUL]) pre = says s pre" for s pre :: bytes
  proof (cases "int (length pre) < int32 (int (length s))")
    case True
    then have "length pre \<le> length s" using int32_id [of "int (length s)"] int32_bounds(2) [of "int (length s)"] by (cases "int (length s) < 2 ^ 31") auto
    then show ?thesis by (simp add: said_def says_def str_cell_def)
  qed (simp add: said_def says_def str_cell_def)
  ultimately show ?thesis
  proof (cases r)
    case (RErr s)
    then show ?thesis using \<open>obj_at _ _ = _\<close> \<open>\<And>s pre. said _ _ pre = says s pre\<close>
      by (simp add: reply_error_type_def cluster_reply_error_type_def str_cell_def)
  qed (use assms \<open>obj_at _ _ = _\<close> in \<open>simp_all add: reply_error_type_def cluster_reply_error_type_def str_cell_def arr_cell_def\<close>)
qed

section \<open>Commands with one key\<close>

text \<open>The formatted commands with exactly one key, and this key.\<close>

definition one_key :: "bytes list \<Rightarrow> bytes \<Rightarrow> bool" where
  "one_key args k \<longleftrightarrow> (\<exists>name rest. args = name # rest \<and> name_type name \<noteq> CMD_UNKNOWN \<and> cmd_keys (name_type name) rest = Some [k]) \<and>
     length (resp_cmd args) < 2 ^ 31"

lemma format_one_key:
  assumes "one_key args k" "\<forall>n. mem_ok M n" "ha_ok (c_keys r)" "ha_nelem (c_keys r) = 0"
  shows "\<exists>R. command_format_by_slot M i (r\<lparr>c_cmd := resp_cmd args\<rparr>) = Inr R \<and> fp_ret R = int (slot_of k) \<and> fp_commands R = [] \<and> fp_err R = None \<and>
    c_cmd (fp_command R) = resp_cmd args \<and> c_slot_num (fp_command R) = int (slot_of k)"
proof -
  obtain name rest where a: "args = name # rest" "name_type name \<noteq> CMD_UNKNOWN" "cmd_keys (name_type name) rest = Some [k]" "length (resp_cmd args) < 2 ^ 31"
    using assms(1) by (auto simp: one_key_def)
  let ?r = "r\<lparr>c_cmd := resp_cmd args\<rparr>"
  obtain r' where r': "redis_parse_cmd M ?r = Inr r'" "c_result r' = CMD_PARSE_OK" "c_cmd r' = resp_cmd args" "cmd_key_texts r' = [k]"
    using redis_parse_cmd_resp [of ?r name rest "[k]" M] a assms(2-4) by auto
  have ok: "ha_ok (c_keys r')" "list_all (key_ok (resp_cmd args)) (ha_list (c_keys r'))"
    using redis_parse_cmd_ok [of ?r M] a(4) assms(3,4) r'(1) by auto
  then obtain kp where kp: "ha_list (c_keys r') = [kp]" "key_text (resp_cmd args) kp = k" "key_ok (resp_cmd args) kp"
    using r'(3,4) by (auto simp: cmd_key_texts_def)
  then have n: "ha_nelem (c_keys r') = 1" using length_ha_list [OF ok(1)] by simp
  then have "ha_read (c_keys r') (hiarray_get (c_keys r') 0) = Inr kp" using ha_read_list [OF ok(1), of 0] kp(1) by simp
  moreover have "slice (resp_cmd args) (kp_start kp) (kp_end kp - kp_start kp) = Inr k" using kp(2,3) by (simp add: slice_def key_text_def key_ok_def)
  moreover have "resp_cmd args \<noteq> []" by (simp add: resp_cmd_def)
  ultimately show ?thesis using r'(1-3) n by (simp add: command_format_by_slot_def slot_of_def Let_def)
qed

section \<open>Requests in order\<close>

text \<open>The replies taken from the queues, one from the queue of each connection of \<open>cs\<close>, and what is left of the queues.\<close>

fun deal :: "(nat \<Rightarrow> reply list) \<Rightarrow> nat list \<Rightarrow> reply list" where
  "deal q [] = []"
| "deal q (c # cs) = hd (q c) # deal (q(c := tl (q c))) cs"

fun dealt :: "(nat \<Rightarrow> reply list) \<Rightarrow> nat list \<Rightarrow> nat \<Rightarrow> reply list" where
  "dealt q [] = q"
| "dealt q (c # cs) = dealt (q(c := tl (q c))) cs"

lemma length_deal [simp]: "length (deal q cs) = length cs"
  by (induction cs arbitrary: q) auto

lemma deal_nth:
  "i < length cs \<Longrightarrow> count_list cs (cs ! i) \<le> length (q (cs ! i)) \<Longrightarrow> deal q cs ! i = q (cs ! i) ! count_list (take i cs) (cs ! i)"
proof (induction cs arbitrary: i q)
  case (Cons c cs)
  show ?case
  proof (cases i)
    case 0
    then show ?thesis using Cons.prems by (cases "q c") auto
  next
    case (Suc j)
    let ?q = "q(c := tl (q c))" and ?n = "count_list (take j cs) (cs ! j)"
    have j: "j < length cs" using Suc Cons.prems(1) by simp
    then have "cs = take j cs @ cs ! j # drop (Suc j) cs" by (rule id_take_nth_drop)
    then have "count_list cs (cs ! j) = ?n + Suc (count_list (drop (Suc j) cs) (cs ! j))"
      using count_list_append [of "take j cs" "cs ! j # drop (Suc j) cs" "cs ! j"] by simp
    then have n: "?n < count_list cs (cs ! j)" by simp
    have "count_list cs (cs ! j) \<le> length (?q (cs ! j))" using Cons.prems(2) Suc by (auto split: if_splits)
    from Cons.IH [of j ?q, OF j this] have ih: "deal ?q cs ! j = ?q (cs ! j) ! ?n" .
    have "?n < length (tl (q c))" if "cs ! j = c" using n Cons.prems(2) Suc that by simp
    then show ?thesis using ih Suc by (cases "cs ! j = c") (simp_all add: nth_tl)
  qed
qed simp

text \<open>The calls of the application: the commands one after the other, and then one call for every reply.\<close>

fun append_cmds :: "mem \<Rightarrow> 'w pipe_ops \<Rightarrow> u64 \<Rightarrow> bytes list \<Rightarrow> pipe_context \<Rightarrow> 'w \<Rightarrow> (int \<times> u64 \<times> pipe_context \<times> 'w) c_res" where
  "append_cmds M Op i [] pc w = Inr (REDIS_OK, i, pc, w)"
| "append_cmds M Op i (cmd # cmds) pc w =
     bind_c (redisClusterAppendFormattedCommand M Op i cmd pc w) (\<lambda>(ok, i, pc, w).
       if ok \<noteq> REDIS_OK then Inr (ok, i, pc, w) else append_cmds M Op i cmds pc w)"

fun fetch :: "nat \<Rightarrow> mem \<Rightarrow> 'w pipe_ops \<Rightarrow> pipe_context \<Rightarrow> 'w \<Rightarrow> rheap \<Rightarrow> (ptr list \<times> pipe_context \<times> 'w \<times> rheap) c_res option" where
  "fetch 0 M Op pc w h = Some (Inr ([], pc, w, h))"
| "fetch (Suc n) M Op pc w h =
     (case redisClusterGetReply M Op pc w h of
        None \<Rightarrow> None
      | Some (Inl e) \<Rightarrow> Some (Inl e)
      | Some (Inr (ok, r, pc, w, h)) \<Rightarrow>
          if ok \<noteq> REDIS_OK then Some (Inr ([], pc, w, h))
          else (case fetch n M Op pc w h of Some (Inr (rs, pc, w, h)) \<Rightarrow> Some (Inr (r # rs, pc, w, h)) | x \<Rightarrow> x))"

definition pending :: "nat list \<Rightarrow> request list \<Rightarrow> bool" where
  "pending ss rqs \<longleftrightarrow> list_all2 (\<lambda>s rq. c_slot_num (rq_command rq) = int s) ss rqs"

definition bytes_for :: "(bytes list \<times> nat) list \<Rightarrow> nat \<Rightarrow> bytes" where
  "bytes_for cmds c = concat (map (\<lambda>(args, d). if d = c then resp_cmd args else []) cmds)"

context reply_queues
begin

lemma append_one:
  assumes "ok w q a" "slot_has (pc_cc pc) s c" "c \<in> C" "length cmd \<le> a c" "cmd \<noteq> []"
  shows "\<exists>w'. redisClusterAppendCommand_raw Op (int s) cmd pc w = Inr (REDIS_OK, pc, w') \<and> ok w' q (a(c := a c - length cmd)) \<and> out w' = (out w)(c := out w c @ cmd)"
  using append_law [OF assms(1,3,4,5)] slot_has_conn [OF assms(2) no_error [OF assms(1,3)]] no_error [OF assms(1,3)]
  by (auto simp: redisClusterAppendCommand_raw_def Let_def)

lemma append_request:
  assumes "ok w q a" "slot_has (pc_cc pc) (slot_of k) c" "c \<in> C" "one_key args k" "length (resp_cmd args) \<le> a c" "\<forall>n. mem_ok M n"
    "pc_requests pc = Some rqs \<or> pc_requests pc = None \<and> rqs = []"
  shows "\<exists>i' rq w'. redisClusterAppendFormattedCommand M Op i (resp_cmd args) pc w = Inr (REDIS_OK, i', pc\<lparr>pc_requests := Some (rqs @ [rq])\<rparr>, w') \<and>
    c_slot_num (rq_command rq) = int (slot_of k) \<and> ok w' q (a(c := a c - length (resp_cmd args))) \<and> out w' = (out w)(c := out w c @ resp_cmd args)"
proof -
  let ?pc = "pc\<lparr>pc_requests := Some rqs\<rparr>"
  obtain command where g: "command_get M i = (i + 1, Some command)" "ha_ok (c_keys command)" "ha_nelem (c_keys command) = 0"
    using command_get_granted [OF assms(6)] by blast
  obtain R where R: "command_format_by_slot M (i + 1) (command\<lparr>c_cmd := resp_cmd args\<rparr>) = Inr R" "fp_ret R = int (slot_of k)" "fp_commands R = []" "fp_err R = None"
      "c_cmd (fp_command R) = resp_cmd args" "c_slot_num (fp_command R) = int (slot_of k)" using format_one_key [OF assms(4,6) g(2,3)] by blast
  have "slot_has (pc_cc ?pc) (slot_of k) c" using assms(2) by simp
  moreover have "resp_cmd args \<noteq> []" by (simp add: resp_cmd_def)
  ultimately obtain w' where w': "redisClusterAppendCommand_raw Op (int (slot_of k)) (resp_cmd args) ?pc w = Inr (REDIS_OK, ?pc, w')"
      "ok w' q (a(c := a c - length (resp_cmd args)))" "out w' = (out w)(c := out w c @ resp_cmd args)" using append_one [OF assms(1) _ assms(3,5)] by blast
  have "redisClusterAppendFormattedCommand M Op i (resp_cmd args) pc w = Inr (REDIS_OK, fp_id R, pc\<lparr>pc_requests := Some (rqs @ [request_of R])\<rparr>, w')"
    using g(1) R w'(1) slot_of_less [of k] assms(6,7)
    by (auto simp: redisClusterAppendFormattedCommand_def Let_def set_p_error_def note_request_def list_append_def)
  then show ?thesis using w' R(6) by (auto simp: request_of_def)
qed

lemma append_requests:
  assumes "ok w q a" "list_all2 (\<lambda>(args, c) k. one_key args k \<and> slot_has (pc_cc pc) (slot_of k) c \<and> c \<in> C) cmds ks" "\<forall>c. length (bytes_for cmds c) \<le> a c"
    "\<forall>n. mem_ok M n" "pc_requests pc = Some rqs \<or> pc_requests pc = None \<and> rqs = []" "cmds \<noteq> []"
  shows "\<exists>i' rqs' w' a'. append_cmds M Op i (map (resp_cmd \<circ> fst) cmds) pc w = Inr (REDIS_OK, i', pc\<lparr>pc_requests := Some (rqs @ rqs')\<rparr>, w') \<and>
    pending (map slot_of ks) rqs' \<and> ok w' q a' \<and> out w' = (\<lambda>c. out w c @ bytes_for cmds c)"
  using assms
proof (induction cmds arbitrary: i pc w a ks rqs)
  case (Cons x cmds)
  obtain args c where x: "x = (args, c)" by (cases x)
  then obtain k ks' where k: "ks = k # ks'" "one_key args k" "slot_has (pc_cc pc) (slot_of k) c" "c \<in> C"
      "list_all2 (\<lambda>(args, c) k. one_key args k \<and> slot_has (pc_cc pc) (slot_of k) c \<and> c \<in> C) cmds ks'" using Cons.prems(2) by (auto simp: list_all2_Cons1)
  have b: "length (resp_cmd args) + length (bytes_for cmds c) \<le> a c" using Cons.prems(3) [rule_format, of c] x by (simp add: bytes_for_def)
  have b': "length (bytes_for cmds d) \<le> a d" if "d \<noteq> c" for d using Cons.prems(3) [rule_format, of d] x that by (simp add: bytes_for_def)
  obtain i1 rq w1 where 1: "redisClusterAppendFormattedCommand M Op i (resp_cmd args) pc w = Inr (REDIS_OK, i1, pc\<lparr>pc_requests := Some (rqs @ [rq])\<rparr>, w1)"
      "c_slot_num (rq_command rq) = int (slot_of k)" "ok w1 q (a(c := a c - length (resp_cmd args)))" "out w1 = (out w)(c := out w c @ resp_cmd args)"
    using append_request [OF Cons.prems(1) k(3,4,2) _ Cons.prems(4,5), of i] b by auto
  let ?pc = "pc\<lparr>pc_requests := Some (rqs @ [rq])\<rparr>" and ?a = "a(c := a c - length (resp_cmd args))"
  show ?case
  proof (cases "cmds = []")
    case True
    then show ?thesis using 1 x k by (auto simp: pending_def bytes_for_def fun_eq_iff)
  next
    case False
    have "\<forall>d. length (bytes_for cmds d) \<le> ?a d" using b b' by auto
    from Cons.IH [OF 1(3) _ this Cons.prems(4), of ?pc ks' "rqs @ [rq]"] k(5) False obtain i' rqs' w' a' where
      "append_cmds M Op i1 (map (resp_cmd \<circ> fst) cmds) ?pc w1 = Inr (REDIS_OK, i', ?pc\<lparr>pc_requests := Some ((rqs @ [rq]) @ rqs')\<rparr>, w')"
      "pending (map slot_of ks') rqs'" "ok w' q a'" "out w' = (\<lambda>c. out w1 c @ bytes_for cmds c)" by fastforce
    then show ?thesis using 1 x k(1)
      by (intro exI [of _ i'] exI [of _ "rq # rqs'"] exI [of _ w'] exI [of _ a']) (auto simp: pending_def bytes_for_def fun_eq_iff comp_def)
  qed
qed simp

lemma get_one:
  assumes "ok w q a" "slot_has (pc_cc pc) s c" "c \<in> C" "q c = r # rs"
  shows "\<exists>pc' w'. redisClusterGetReply_raw Op (int s) pc w h = Some (Inr (REDIS_OK, length h + 1, pc', w', h @ map Some (layout (length h + 1) r))) \<and>
    ok w' (q(c := rs)) (a(c := 0)) \<and> out w' = out w \<and> same_nodes pc pc' \<and> pc_requests pc' = pc_requests pc \<and> cc_err (pc_cc pc') = cc_err (pc_cc pc) \<and> r \<noteq> Absent"
  using get_law [OF assms(1,3,4), of h] slot_has_conn [OF assms(2) no_error [OF assms(1,3)]] no_error [OF assms(1,3)] reply_error_type_layout [of r h]
  by (auto simp: redisClusterGetReply_raw_def Let_def same_nodes_def)

lemma fetch_requests:
  assumes "ok w q a" "pc_requests pc = Some (rqs @ rest)" "pending ss rqs" "list_all2 (slot_has (pc_cc pc)) ss cs" "set cs \<subseteq> C" "\<forall>c. count_list cs c \<le> length (q c)"
  shows "\<exists>pc' w' a'. fetch (length rqs) M Op pc w h = Some (Inr (roots (length h + 1) (deal q cs), pc', w', h @ map Some (layouts (length h + 1) (deal q cs)))) \<and>
    ok w' (dealt q cs) a' \<and> out w' = out w \<and> pc_requests pc' = Some rest \<and> same_nodes pc pc'"
  using assms
proof (induction rqs arbitrary: w q a pc ss cs h)
  case Nil
  then have "cs = []" by (auto simp: pending_def)
  then show ?case using Nil by auto
next
  case (Cons rq rqs)
  obtain s ss' c cs' where s: "ss = s # ss'" "cs = c # cs'" "c_slot_num (rq_command rq) = int s" "slot_has (pc_cc pc) s c" "pending ss' rqs"
      "list_all2 (slot_has (pc_cc pc)) ss' cs'" using Cons.prems(3,4) by (auto simp: pending_def list_all2_Cons1 list_all2_Cons2)
  obtain r rs where q: "q c = r # rs" using Cons.prems(6) [rule_format, of c] s(2) by (cases "q c") auto
  let ?pc = "(in_cc (\<lambda>cc. cc\<lparr>cc_err := 0, cc_errstr := []\<rparr>) pc)\<lparr>pc_requests := Some (rqs @ rest)\<rparr>" and ?h = "h @ map Some (layout (length h + 1) r)"
  have sh: "slot_has (pc_cc ?pc) s c" using s(4) by (simp add: slot_has_def)
  have c: "c \<in> C" using Cons.prems(5) s(2) by simp
  obtain pc1 w1 where 1: "redisClusterGetReply_raw Op (int s) ?pc w h = Some (Inr (REDIS_OK, length h + 1, pc1, w1, ?h))"
      "ok w1 (q(c := rs)) (a(c := 0))" "out w1 = out w" "same_nodes ?pc pc1" "pc_requests pc1 = Some (rqs @ rest)" "r \<noteq> Absent" using get_one [OF Cons.prems(1) sh c q] by fastforce
  have g: "redisClusterGetReply M Op pc w h = Some (Inr (REDIS_OK, length h + 1, pc1, w1, ?h))"
    using 1(1) Cons.prems(2) s(3) by (simp add: redisClusterGetReply_def)
  have n: "same_nodes pc pc1" using 1(4) by (simp add: same_nodes_def)
  have l2: "list_all2 (slot_has (pc_cc pc1)) ss' cs'" using s(6) same_nodes_slot [OF n] by simp
  have cl: "\<forall>d. count_list cs' d \<le> length ((q(c := rs)) d)"
  proof
    fix d show "count_list cs' d \<le> length ((q(c := rs)) d)" using Cons.prems(6) [rule_format, of d] s(2) q by (auto split: if_splits)
  qed
  have "set cs' \<subseteq> C" using Cons.prems(5) s(2) by simp
  from Cons.IH [OF 1(2,5) s(5) l2 this cl, of ?h] obtain pc2 w2 a2 where 2: "fetch (length rqs) M Op pc1 w1 ?h = Some (Inr (roots (length ?h + 1) (deal (q(c := rs)) cs'), pc2, w2,
        ?h @ map Some (layouts (length ?h + 1) (deal (q(c := rs)) cs'))))" "ok w2 (dealt (q(c := rs)) cs') a2" "out w2 = out w1" "pc_requests pc2 = Some rest" "same_nodes pc1 pc2"
    by blast
  then show ?case using g 1(3,6) s(2) q same_nodes_trans [OF n 2(5)]
    by (intro exI [of _ pc2] exI [of _ w2] exI [of _ a2]) (simp add: root_def add.commute)
qed

lemma get_subs_all:
  assumes "ok w q a" "list_all2 (\<lambda>sc s. c_slot_num sc = int s) scs ss" "list_all2 (slot_has (pc_cc pc)) ss cs" "set cs \<subseteq> C" "\<forall>c. count_list cs c \<le> length (q c)"
  shows "\<exists>pc' w'. get_subs Op scs cmds pc w h = Some (Inr (True, cmds @ zip ss (roots (length h + 1) (deal q cs)), pc', w',
      h @ map Some (layouts (length h + 1) (deal q cs)))) \<and> list_all (\<lambda>t. t \<noteq> Absent) (deal q cs) \<and> cc_err (pc_cc pc') = cc_err (pc_cc pc)"
  using assms
proof (induction scs arbitrary: w q a pc ss cs h cmds)
  case Nil
  then show ?case by auto
next
  case (Cons sc scs)
  obtain s ss' c cs' where s: "ss = s # ss'" "cs = c # cs'" "c_slot_num sc = int s" "slot_has (pc_cc pc) s c" "list_all2 (\<lambda>sc s. c_slot_num sc = int s) scs ss'"
      "list_all2 (slot_has (pc_cc pc)) ss' cs'" using Cons.prems(2,3) by (auto simp: list_all2_Cons1)
  obtain r rs where q: "q c = r # rs" using Cons.prems(5) [rule_format, of c] s(2) by (cases "q c") auto
  let ?h = "h @ map Some (layout (length h + 1) r)"
  have c: "c \<in> C" "set cs' \<subseteq> C" using Cons.prems(4) s(2) by simp_all
  obtain pc1 w1 where 1: "redisClusterGetReply_raw Op (int s) pc w h = Some (Inr (REDIS_OK, length h + 1, pc1, w1, ?h))"
      "ok w1 (q(c := rs)) (a(c := 0))" "same_nodes pc pc1" "cc_err (pc_cc pc1) = cc_err (pc_cc pc)" "r \<noteq> Absent" using get_one [OF Cons.prems(1) s(4) c(1) q] by blast
  have l2: "list_all2 (slot_has (pc_cc pc1)) ss' cs'" using s(6) same_nodes_slot [OF 1(3)] by simp
  have cl: "\<forall>d. count_list cs' d \<le> length ((q(c := rs)) d)"
  proof
    fix d show "count_list cs' d \<le> length ((q(c := rs)) d)" using Cons.prems(5) [rule_format, of d] s(2) q by (auto split: if_splits)
  qed
  from Cons.IH [OF 1(2) s(5) l2 c(2) cl, of "cmds @ [(s, length h + 1)]" ?h] obtain pc2 w2 where
    2: "get_subs Op scs (cmds @ [(s, length h + 1)]) pc1 w1 ?h = Some (Inr (True, (cmds @ [(s, length h + 1)]) @ zip ss' (roots (length ?h + 1) (deal (q(c := rs)) cs')), pc2, w2,
        ?h @ map Some (layouts (length ?h + 1) (deal (q(c := rs)) cs'))))" "list_all (\<lambda>t. t \<noteq> Absent) (deal (q(c := rs)) cs')" "cc_err (pc_cc pc2) = cc_err (pc_cc pc1)" by blast
  then show ?case using 1(1,4,5) s(1-3) q by (simp add: root_def add.commute)
qed

end

section \<open>The connections of the library\<close>

text \<open>A network of blocking connections, each with its context and its socket. Opening connections is left to \<open>Net\<close>.\<close>

type_synonym world = "nat \<Rightarrow> redisContext \<times> sock"

definition conn_pipe :: "mem \<Rightarrow> (errno \<Rightarrow> bytes) \<Rightarrow> world conn_ops \<Rightarrow> world pipe_ops" where
  "conn_pipe M st Net = \<lparr>po_ops = Net\<lparr>op_err := (\<lambda>c w. (rc_err (fst (w c)), rc_errstr (fst (w c))))\<rparr>,
     po_append = (\<lambda>c cmd w. bind_c (redisAppendCommand_raw M (fst (w c)) cmd) (\<lambda>(ok, x). Inr (ok, w(c := (x, snd (w c)))))),
     po_get_reply = (\<lambda>c w h. case redisGetReply M st (fst (w c)) (snd (w c)) h of
         None \<Rightarrow> None | Some (Inl e) \<Rightarrow> Some (Inl e) | Some (Inr (ok, p, x, s, h)) \<Rightarrow> Some (Inr (ok, p, w(c := (x, s)), h))),
     po_flush = (\<lambda>c w.
       if REDIS_BLOCK \<in> rc_flags (fst (w c)) then
         (case write_until_done M st (fst (w c)) (snd (w c)) of
            None \<Rightarrow> None | Some (Inl e) \<Rightarrow> Some (Inl e) | Some (Inr (ok, x, s)) \<Rightarrow> Some (Inr (ok, w(c := (x, s)))))
       else Some (Inr (REDIS_OK, w))),
     po_free = (\<lambda>c w. w)\<rparr>"

definition conn_serves :: "mem \<Rightarrow> redisContext \<Rightarrow> sock \<Rightarrow> reply list \<Rightarrow> nat \<Rightarrow> bool" where
  "conn_serves M x s ts n \<longleftrightarrow> coming M [] x s ts \<and> obuf_ok x \<and> REDIS_BLOCK \<in> rc_flags x \<and> accepts (sk_writes s) (length (unsent x) + n) \<and>
     (0 < n \<longrightarrow> length (unsent x) + n < sds_cap) \<and> list_all (\<lambda>t. t \<noteq> Absent) ts"

definition conns_ok :: "mem \<Rightarrow> nat set \<Rightarrow> world \<Rightarrow> (nat \<Rightarrow> reply list) \<Rightarrow> (nat \<Rightarrow> nat) \<Rightarrow> bool" where
  "conns_ok M C w q a \<longleftrightarrow> (\<forall>n. mem_ok M n) \<and> (\<forall>c \<in> C. conn_serves M (fst (w c)) (snd (w c)) (q c) (a c))"

definition conn_out :: "world \<Rightarrow> nat \<Rightarrow> bytes" where
  "conn_out w c = out_bytes (fst (w c)) (snd (w c))"

lemma accepts_less: "accepts ws n \<Longrightarrow> m \<le> n \<Longrightarrow> accepts ws m"
proof (induction ws n arbitrary: m rule: accepts.induct)
  case (3 k ws n)
  then show ?case by (cases m) auto
next
  case (4 e ws n)
  then show ?case by (cases m) auto
qed auto

lemma accepts_once: "accepts [Wrote k] n \<longleftrightarrow> n \<le> k"
  by (cases n) (auto split: nat.splits, metis accepts.elims(2) diff_is_0_eq list.distinct(1) not_less_eq_eq accepts.simps(1))

lemma coming_rebase: "coming M h c s ts \<Longrightarrow> coming M h' c s ts"
  using conn_at_rebase by (force simp: coming_def)

interpretation conns: reply_queues "conn_pipe M st Net" "conns_ok M C" conn_out C
proof
  fix w q a c
  assume ok: "conns_ok M C w q a" and c: "c \<in> C"
  obtain x s where w: "w c = (x, s)" by fastforce
  have sv: "conn_serves M x s (q c) (a c)" and m: "\<forall>n. mem_ok M n" using ok c w by (force simp: conns_ok_def)+
  have err: "rc_err x = 0" using sv by (auto simp: conn_serves_def coming_def conn_at_def)
  then show "fst (op_err (po_ops (conn_pipe M st Net)) c w) = 0" using w by (simp add: conn_pipe_def)
  show "\<exists>w'. po_append (conn_pipe M st Net) c cmd w = Inr (REDIS_OK, w') \<and> conns_ok M C w' q (a(c := a c - length cmd)) \<and>
      conn_out w' = (conn_out w)(c := conn_out w c @ cmd)" if l: "length cmd \<le> a c" "cmd \<noteq> []" for cmd
  proof -
    have "length (unsent x) + length cmd < sds_cap" using sv l by (auto simp: conn_serves_def)
    from redisAppendCommand_raw_ok [OF _ this m] obtain ob where ob: "redisAppendCommand_raw M x cmd = Inr (REDIS_OK, x\<lparr>rc_obuf := Some ob\<rparr>)" "sds_ok ob" "content ob = unsent x @ cmd"
      using sv by (auto simp: conn_serves_def)
    let ?x = "x\<lparr>rc_obuf := Some ob\<rparr>"
    have "coming M [] ?x s (q c)" using sv by (auto simp: conn_serves_def coming_def conn_at_def)
    then have "conn_serves M ?x s (q c) (a c - length cmd)" using sv ob(2,3) l by (auto simp: conn_serves_def obuf_ok_def unsent_def)
    moreover have "out_bytes ?x s = out_bytes x s @ cmd" using ob(3) by (simp add: out_bytes_def unsent_def)
    ultimately show ?thesis using ob(1) w ok
      by (intro exI [of _ "w(c := (?x, s))"]) (auto simp: conn_pipe_def conns_ok_def conn_out_def fun_eq_iff)
  qed
  show "r \<noteq> Absent \<and> (\<exists>w'. po_get_reply (conn_pipe M st Net) c w h = Some (Inr (REDIS_OK, length h + 1, w', h @ map Some (layout (length h + 1) r))) \<and>
      conns_ok M C w' (q(c := rs)) (a(c := 0)) \<and> conn_out w' = conn_out w)" if q: "q c = r # rs" for r rs h
  proof -
    let ?h = "h @ map Some (layout (length h + 1) r)"
    have "serving M h x s (r # rs)" using sv q coming_rebase accepts_less by (auto simp: serving_def conn_serves_def)
    from redisGetReply_ok [OF this m, of st] obtain x' s' where g: "redisGetReply M st x s h = Some (Inr (REDIS_OK, length h + 1, x', s', ?h))" "serving M ?h x' s' rs"
        "out_bytes x' s' = out_bytes x s" by blast
    then have "conn_serves M x' s' rs 0" using sv q coming_rebase by (auto simp: serving_def conn_serves_def)
    moreover have "r \<noteq> Absent" using sv q by (simp add: conn_serves_def)
    ultimately show ?thesis using g(1,3) w ok
      by (intro conjI exI [of _ "w(c := (x', s'))"]) (auto simp: conn_pipe_def conns_ok_def conn_out_def fun_eq_iff)
  qed
qed

lemma fresh_serves:
  assumes "redisConnectFd M fd = Inr (Some x)" "list_all (reply_ok 0) ts" "delivers (sk_reads s) (concat (map enc ts))" "1024 + length (concat (map enc ts)) < sds_cap"
    "accepts (sk_writes s) n" "n < sds_cap"
  shows "conn_serves M x s ts n"
proof -
  note x = redisConnectFd_ok [OF assms(1)]
  have "coming M [] x s ts" unfolding coming_def
    using x(1) expects_start [OF assms(2)] assms(3,4) by (intro exI [of _ "[]"] exI [of _ "concat (map enc ts)"]) simp
  moreover have "list_all (\<lambda>t. t \<noteq> Absent) ts" using assms(2) reply_ok_not_Absent by (auto simp: list_all_iff)
  ultimately show ?thesis using x assms(5,6) by (simp add: conn_serves_def)
qed

lemma free_layouts:
  "list_all (\<lambda>t. t \<noteq> Absent) ts \<Longrightarrow> length ss = length ts \<Longrightarrow>
    free_replies (zip ss (roots (length h + 1) ts)) (h @ map Some (layouts (length h + 1) ts) @ K) = Inr (h @ replicate (sum_list (map nodes ts)) None @ K)"
proof (induction ts arbitrary: ss h)
  case (Cons t ts)
  obtain s ss' where ss: "ss = s # ss'" using Cons.prems(2) by (cases ss) auto
  let ?h = "h @ replicate (nodes t) None" and ?K = "map Some (layouts (length h + 1 + nodes t) ts) @ K"
  have "freeReplyObject (length h + 1) (h @ map Some (layout (length h + 1) t) @ ?K) = Inr (h @ replicate (nodes t) None @ ?K)"
    using free_layout(1) [of "length h + 1" h t "length (h @ map Some (layout (length h + 1) t) @ ?K)" ?K] Cons.prems(1)
    by (simp add: freeReplyObject_def root_def del: free_obj.simps)
  moreover have "free_replies (zip ss' (roots (length ?h + 1) ts)) (?h @ map Some (layouts (length ?h + 1) ts) @ K) = Inr (?h @ replicate (sum_list (map nodes ts)) None @ K)"
    using Cons.IH [of ss' ?h] Cons.prems ss by simp
  ultimately show ?case using ss Cons.prems(1) by (simp add: root_def add.commute replicate_add)
qed simp

section \<open>Properties\<close>



text \<open>
  C34: an error reply to a part of a pipelined command reaches the caller released. When the node of the first part of a split
  command answers with an error, \<^verbatim>\<open>redisClusterGetReply\<close> returns \<^verbatim>\<open>REDIS_OK\<close> with that reply; the sub command it belongs to, and
  the reply with it, was released when the request was taken off the list.
\<close>

theorem cluster_pipeline_error_dangles:
  assumes "conns_ok M C w q a" "pc_requests pc = Some (rq # rqs)" "c_slot_num (rq_command rq) < 0" "rq_subs rq = Some scs" "rq_seq rq = Some sq" "length scs \<noteq> 1"
    "list_all2 (\<lambda>sc s. c_slot_num sc = int s) scs ss" "list_all2 (slot_has (pc_cc pc)) ss cs" "set cs \<subseteq> C" "\<forall>c. count_list cs c \<le> length (q c)"
    "deal q cs = RErr e # ts"
  shows "\<exists>pc' w' h'. redisClusterGetReply M (conn_pipe M st Net) pc w h = Some (Inr (REDIS_OK, length h + 1, pc', w', h')) \<and>
    obj_at h' (length h + 1) = Inl UseAfterFree"
proof -
  let ?pc = "(in_cc (\<lambda>cc. cc\<lparr>cc_err := 0, cc_errstr := []\<rparr>) pc)\<lparr>pc_requests := Some rqs\<rparr>" and ?h = "h @ map Some (layouts (length h + 1) (deal q cs))"
  have "same_nodes pc ?pc" by (simp add: same_nodes_def)
  from same_nodes_slot [OF this] have sh: "list_all2 (slot_has (pc_cc ?pc)) ss cs" using assms(8) by metis
  obtain pc1 w1 where g: "get_subs (conn_pipe M st Net) scs [] ?pc w h = Some (Inr (True, zip ss (roots (length h + 1) (deal q cs)), pc1, w1, ?h))"
      "list_all (\<lambda>t. t \<noteq> Absent) (deal q cs)" using conns.get_subs_all [OF assms(1,7) sh assms(9,10), where cmds = "[]" and h = h] by (simp only: append_Nil) blast
  have len: "length ss = length (deal q cs)" using list_all2_lengthD [OF assms(8)] by simp
  then obtain s ss' where ss: "ss = s # ss'" using assms(11) by (cases ss) auto
  have "obj_at ?h (length h + 1) = Inr (str_cell REDIS_REPLY_ERROR e)" using assms(11) by (simp add: obj_at_def nth_append)
  then have p: "command_post_fragment M (rq_command rq) sq (zip ss (roots (length h + 1) (deal q cs))) ?h = Inr (length h + 1, ?h, None)"
    using ss assms(11) by (simp add: command_post_fragment_def root_def str_cell_def)
  have f: "free_replies (zip ss (roots (length h + 1) (deal q cs))) ?h = Inr (h @ replicate (sum_list (map nodes (deal q cs))) None)"
    using free_layouts [OF g(2) len, of h "[]"] by simp
  have m: "mem_ok M 16" using assms(1) by (simp add: conns_ok_def)
  have "redisClusterGetReply M (conn_pipe M st Net) pc w h = get_split M (conn_pipe M st Net) rq scs ?pc w h"
    using assms(2-4) by (simp add: redisClusterGetReply_def Let_def)
  also have "\<dots> = Some (Inr (REDIS_OK, length h + 1, in_cc (\<lambda>cc. set_p_error cc None) pc1, w1, h @ replicate (sum_list (map nodes (deal q cs))) None))"
    using assms(5,6) m g(1) p f by (simp add: get_split_def)
  finally show ?thesis using assms(11) by (auto simp: obj_at_def nth_append)
qed

theorem cluster_pipeline_error_dangles_witness:
  "\<exists>rq sc1 sc2 pc w pc' w' h'. rq_subs rq = Some [sc1, sc2] \<and> pc_requests pc = Some [rq] \<and>
    redisClusterGetReply granting (conn_pipe granting (\<lambda>e. []) \<lparr>op_connect = (\<lambda>host port w. (None, w)), op_reconnect = (\<lambda>c w. w), op_err = (\<lambda>c w. (0, [])),
      op_command = (\<lambda>c cmd w. (Absent, w)), op_net = (\<lambda>w ip port cmd. NoContext), op_asked = (\<lambda>w. w)\<rparr>) pc w [] = Some (Inr (REDIS_OK, 1, pc', w', h')) \<and>
    obj_at h' 1 = Inl UseAfterFree"
proof -
  let ?Net = "\<lparr>op_connect = (\<lambda>host port w. (None, w)), op_reconnect = (\<lambda>c w. w), op_err = (\<lambda>c w. (0, [])),
      op_command = (\<lambda>c cmd w. (Absent, w)), op_net = (\<lambda>w ip port cmd. NoContext), op_asked = (\<lambda>w. w)\<rparr> :: world conn_ops"
  obtain command where g: "command_get granting 0 = (1, Some command)" using command_get_granted [of granting 0] by auto
  obtain sc :: sub_cmd where "c_slot_num sc = 0" by (meson cmd.select_convs)
  let ?rq = "\<lparr>rq_command = command\<lparr>c_slot_num := -1\<rparr>, rq_subs = Some [sc\<lparr>c_slot_num := 1\<rparr>, sc\<lparr>c_slot_num := 2\<rparr>], rq_seq = Some [1, 2]\<rparr>"
  let ?cc = "\<lparr>cc_err = 0, cc_errstr = [], cc_ip = None, cc_port = 0, cc_flags = 0, cc_slots = None, cc_nodes = None, cc_table = (\<lambda>s. s),
      cc_route_version = 0, cc_max_redirect_count = 5, cc_retry_count = 0,
      cc_heap = [cluster_node_init\<lparr>cn_con := Some 3\<rparr>, cluster_node_init\<lparr>cn_con := Some 4\<rparr>]\<rparr> :: redisClusterContext"
  let ?pc = "\<lparr>pc_cc = ?cc, pc_requests = Some [?rq], pc_need_update_route = False\<rparr>"
  let ?q = "\<lambda>c::nat. if c = 3 then [RErr ''LOADING''] else [RNil]"
  obtain x where x: "redisConnectFd granting 3 = Inr (Some x)"
    by (auto simp: redisConnectFd_def redisContextInit_def redisReaderCreate_def redisReaderCreateWithFunctions_def sdsempty_of)
  let ?w = "\<lambda>c::nat. (x, \<lparr>sk_reads = [Read (if c = 3 then enc (RErr ''LOADING'') else enc RNil)], sk_writes = [Wrote 1000], sk_sent = []\<rparr>)"
  have "conn_serves granting x (snd (?w c)) (?q c) 100" for c
    by (rule fresh_serves [OF x]) (simp_all add: delivers_def dec_small dec_int_def accepts_once)
  then have ok: "conns_ok granting {3, 4} ?w ?q (\<lambda>_. 100)" by (simp add: conns_ok_def)
  have "\<exists>pc' w' h'. redisClusterGetReply granting (conn_pipe granting (\<lambda>e. []) ?Net) ?pc ?w [] = Some (Inr (REDIS_OK, length ([] :: rheap) + 1, pc', w', h')) \<and>
      obj_at h' (length ([] :: rheap) + 1) = Inl UseAfterFree"
    by (rule cluster_pipeline_error_dangles [OF ok, where rq = ?rq and rqs = "[]" and scs = "[sc\<lparr>c_slot_num := 1\<rparr>, sc\<lparr>c_slot_num := 2\<rparr>]" and sq = "[1, 2]"
        and ss = "[1, 2]" and cs = "[3, 4]"]) (simp_all add: slot_has_def node_at_def rd_def)
  moreover have "length ([] :: rheap) + 1 = 1" "rq_subs ?rq = Some [sc\<lparr>c_slot_num := 1\<rparr>, sc\<lparr>c_slot_num := 2\<rparr>]" "pc_requests ?pc = Some [?rq]" by simp_all
  ultimately show ?thesis by metis
qed
end
