(* ===== verification/Cluster_Setup.thy ===== *)
theory Cluster_Setup
  imports Cluster_Route Net
begin

text \<open>
  Setting up a cluster client (\<^verbatim>\<open>src/hircluster.c\<close>): the fresh context, its options, the addresses of the servers to ask
  first, and the functions that connect, which turn a text of addresses into a table of nodes and then ask these nodes
  for the route. \<^verbatim>\<open>redisClusterFree\<close> only releases what the context holds.
\<close>

section \<open>State\<close>

text \<open>The context with its two timeouts, which \<open>redisClusterContext\<close> leaves out.\<close>

record setup_context =
  sc_cc :: redisClusterContext
  sc_connect_timeout :: "timeval option"
  sc_timeout :: "timeval option"

abbreviation (input) sizeof_redisClusterContext :: nat where "sizeof_redisClusterContext \<equiv> 131304"
abbreviation (input) CLUSTER_DEFAULT_MAX_REDIRECT_COUNT :: int where "CLUSTER_DEFAULT_MAX_REDIRECT_COUNT \<equiv> 5"
abbreviation (input) BLOCK_BIT :: int where "BLOCK_BIT \<equiv> 1"

definition or_flags :: "int \<Rightarrow> redisClusterContext \<Rightarrow> redisClusterContext" where
  "or_flags f cc = cc\<lparr>cc_flags := or (cc_flags cc) f\<rparr>"

definition clear_flags :: "int \<Rightarrow> redisClusterContext \<Rightarrow> redisClusterContext" where
  "clear_flags f cc = cc\<lparr>cc_flags := and (cc_flags cc) (not f)\<rparr>"

definition redisClusterContextInit :: "mem \<Rightarrow> setup_context option" where
  "redisClusterContextInit M =
     (if \<not> mem_ok M sizeof_redisClusterContext then None
      else
        Some \<lparr>sc_cc = or_flags BLOCK_BIT
                \<lparr>cc_err = 0, cc_errstr = [], cc_ip = None, cc_port = 0, cc_flags = 0, cc_slots = None, cc_nodes = None, cc_table = (\<lambda>_. 0),
                 cc_route_version = 0, cc_max_redirect_count = CLUSTER_DEFAULT_MAX_REDIRECT_COUNT, cc_retry_count = 0, cc_heap = []\<rparr>,
              sc_connect_timeout = None, sc_timeout = None\<rparr>)"

section \<open>Addresses\<close>

text \<open>The node for an address that is not in the table yet. \<open>addr\<close> is a string without its terminator.\<close>

definition add_node :: "mem \<Rightarrow> bytes \<Rightarrow> (bytes, nptr) dict \<Rightarrow> redisClusterContext \<Rightarrow> (int \<times> redisClusterContext) c_res" where
  "add_node M addr nds cc =
     bind_c (split_at M CHR '':'' addr) (\<lambda>ts.
       case map_option (map content) ts of
         Some [ip, ps] \<Rightarrow>
           if ip = [] \<or> ps = [] then Inr (REDIS_ERR, redisClusterSetError cc 2 ''server address is error(correct is like: 127.0.0.1:1234)'')
           else
             (let port = hi_atoi ps in
              if port \<le> 0 then Inr (REDIS_ERR, redisClusterSetError cc 2 ''server port is error'')
              else if \<not> mem_ok M 96 then Inr (REDIS_ERR, redisClusterSetError cc 2 ''alloc cluster node error'')
              else
                bind_c (sdsnew M (Some addr)) (\<lambda>a.
                  case a of
                    None \<Rightarrow> Inr (REDIS_ERR, redisClusterSetError cc 2 ''new node address error'')
                  | Some a \<Rightarrow>
                      (let p = length (cc_heap cc) + 1;
                           node = cluster_node_init\<lparr>cn_addr := Some (content a), cn_host := Some ip, cn_port := port\<rparr> in
                       bind_c (bind_c (sds_key M (content a)) (\<lambda>key. dictAdd M clusterNodesDictType nds key p)) (\<lambda>(_, nds).
                         Inr (REDIS_OK, cc\<lparr>cc_heap := cc_heap cc @ [node], cc_nodes := Some nds\<rparr>)))))
       | _ \<Rightarrow> Inr (REDIS_ERR, redisClusterSetError cc 2 ''server address is error(correct is like: 127.0.0.1:1234)''))"

definition redisClusterSetOptionAddNode :: "mem \<Rightarrow> bytes \<Rightarrow> redisClusterContext \<Rightarrow> (int \<times> redisClusterContext) c_res" where
  "redisClusterSetOptionAddNode M addr cc =
     (let addr = cstr addr in
      bind_c (case cc_nodes cc of Some nds \<Rightarrow> Inr nds | None \<Rightarrow> dictCreate M) (\<lambda>nds.
        let cc = cc\<lparr>cc_nodes := Some nds\<rparr> in
        bind_c (bind_c (sds_key M addr) (dictFind clusterNodesDictType nds)) (\<lambda>e.
          if e \<noteq> None then Inr (REDIS_OK, cc) else add_node M addr nds cc)))"

fun add_nodes :: "mem \<Rightarrow> bytes list \<Rightarrow> redisClusterContext \<Rightarrow> (int \<times> redisClusterContext) c_res" where
  "add_nodes M [] cc = Inr (REDIS_OK, cc)"
| "add_nodes M (a # as) cc =
     bind_c (redisClusterSetOptionAddNode M a cc) (\<lambda>(ret, cc). if ret \<noteq> REDIS_OK then Inr (REDIS_ERR, cc) else add_nodes M as cc)"

definition redisClusterSetOptionAddNodes :: "mem \<Rightarrow> bytes \<Rightarrow> redisClusterContext \<Rightarrow> (int \<times> redisClusterContext) c_res" where
  "redisClusterSetOptionAddNodes M addrs cc =
     bind_c (split_at M CHR '','' (cstr addrs)) (\<lambda>ts.
       case ts of
         Some (t # ts) \<Rightarrow> add_nodes M (map content (t # ts)) cc
       | _ \<Rightarrow> Inr (REDIS_ERR, redisClusterSetError cc 2 ''servers address is error(correct is like: 127.0.0.1:1234,127.0.0.2:5678)''))"

section \<open>Options\<close>

definition redisClusterSetOptionConnectBlock :: "redisClusterContext \<Rightarrow> int \<times> redisClusterContext" where
  "redisClusterSetOptionConnectBlock cc = (REDIS_OK, or_flags BLOCK_BIT cc)"

definition redisClusterSetOptionConnectNonBlock :: "redisClusterContext \<Rightarrow> int \<times> redisClusterContext" where
  "redisClusterSetOptionConnectNonBlock cc = (REDIS_OK, clear_flags BLOCK_BIT cc)"

definition redisClusterSetOptionParseSlaves :: "redisClusterContext \<Rightarrow> int \<times> redisClusterContext" where
  "redisClusterSetOptionParseSlaves cc = (REDIS_OK, or_flags HIRCLUSTER_FLAG_ADD_SLAVE cc)"

definition redisClusterSetOptionParseOpenSlots :: "redisClusterContext \<Rightarrow> int \<times> redisClusterContext" where
  "redisClusterSetOptionParseOpenSlots cc = (REDIS_OK, or_flags HIRCLUSTER_FLAG_ADD_OPENSLOT cc)"

definition redisClusterSetOptionRouteUseSlots :: "redisClusterContext \<Rightarrow> int \<times> redisClusterContext" where
  "redisClusterSetOptionRouteUseSlots cc = (REDIS_OK, or_flags HIRCLUSTER_FLAG_ROUTE_USE_SLOTS cc)"

definition redisClusterSetOptionMaxRedirect :: "int \<Rightarrow> redisClusterContext \<Rightarrow> int \<times> redisClusterContext" where
  "redisClusterSetOptionMaxRedirect max_redirect_count cc =
     (if max_redirect_count \<le> 0 then (REDIS_ERR, cc) else (REDIS_OK, cc\<lparr>cc_max_redirect_count := max_redirect_count\<rparr>))"

definition redisClusterSetOptionConnectTimeout :: "mem \<Rightarrow> timeval \<Rightarrow> setup_context \<Rightarrow> (int \<times> setup_context) c_res" where
  "redisClusterSetOptionConnectTimeout M tv sc =
     (if sc_connect_timeout sc = None \<and> \<not> mem_ok M 16 then Inl NullDeref else Inr (REDIS_OK, sc\<lparr>sc_connect_timeout := Some tv\<rparr>))"

text \<open>A new timeout is handed to the connections that are up; \<open>W\<close> are the contexts behind the handles of the nodes.\<close>

definition time_conn :: "kernel \<Rightarrow> timeval \<Rightarrow> nat option \<Rightarrow> (nat \<Rightarrow> net_context) \<times> sys \<Rightarrow> (nat \<Rightarrow> net_context) \<times> sys" where
  "time_conn K tv con ws =
     (case con of
        None \<Rightarrow> ws
      | Some c \<Rightarrow>
          (case ws of (W, s) \<Rightarrow>
             if REDIS_CONNECTED \<in> nc_flags (W c) \<and> nc_err (W c) = 0
             then (case redisSetTimeout K tv (W c) s of (_, n, s) \<Rightarrow> (W(c := n), s)) else (W, s)))"

fun time_slaves :: "kernel \<Rightarrow> timeval \<Rightarrow> nheap \<Rightarrow> nptr list \<Rightarrow> (nat \<Rightarrow> net_context) \<times> sys \<Rightarrow> ((nat \<Rightarrow> net_context) \<times> sys) c_res" where
  "time_slaves K tv H [] ws = Inr ws"
| "time_slaves K tv H (p # ps) ws = bind_c (node_at H p) (\<lambda>slave. time_slaves K tv H ps (time_conn K tv (cn_con slave) ws))"

fun time_nodes :: "mem \<Rightarrow> kernel \<Rightarrow> timeval \<Rightarrow> nheap \<Rightarrow> (bytes \<times> nptr) list \<Rightarrow> (nat \<Rightarrow> net_context) \<times> sys \<Rightarrow> ((nat \<Rightarrow> net_context) \<times> sys) c_res" where
  "time_nodes M K tv H [] ws = Inr ws"
| "time_nodes M K tv H ((_, p) # es) ws =
     bind_c (node_at H p) (\<lambda>node.
       let ws = time_conn K tv (cn_con node) ws in
       bind_c (case cn_slaves node of
                 Some (q # qs) \<Rightarrow> if \<not> mem_ok M 16 then Inl NullDeref else time_slaves K tv H (q # qs) ws
               | _ \<Rightarrow> Inr ws) (time_nodes M K tv H es))"

definition redisClusterSetOptionTimeout :: "mem \<Rightarrow> kernel \<Rightarrow> timeval \<Rightarrow> setup_context \<Rightarrow> (nat \<Rightarrow> net_context) \<times> sys \<Rightarrow>
    (int \<times> setup_context \<times> (nat \<Rightarrow> net_context) \<times> sys) c_res" where
  "redisClusterSetOptionTimeout M K tv sc ws =
     (case sc_timeout sc of
        None \<Rightarrow> if \<not> mem_ok M 16 then Inl NullDeref else Inr (REDIS_OK, sc\<lparr>sc_timeout := Some tv\<rparr>, ws)
      | Some tv0 \<Rightarrow>
          if tv0 = tv then Inr (REDIS_OK, sc, ws)
          else
            (let sc = sc\<lparr>sc_timeout := Some tv\<rparr> in
             case cc_nodes (sc_cc sc) of
               None \<Rightarrow> Inr (REDIS_OK, sc, ws)
             | Some nds \<Rightarrow>
                 if d_used nds = 0 then Inr (REDIS_OK, sc, ws)
                 else
                   bind_c (dictGetIterator M) (\<lambda>it.
                     bind_c (dict_walk (d_used nds + 1) nds it) (\<lambda>es.
                       bind_c (time_nodes M K tv (cc_heap (sc_cc sc)) es ws) (\<lambda>ws. Inr (REDIS_OK, sc, ws))))))"

section \<open>Connecting\<close>

definition cluster_connect :: "mem \<Rightarrow> net \<Rightarrow> bytes \<Rightarrow> setup_context \<Rightarrow> setup_context c_res" where
  "cluster_connect M net addrs sc =
     bind_c (redisClusterSetOptionAddNodes M addrs (sc_cc sc)) (\<lambda>(ret, cc).
       if ret \<noteq> REDIS_OK then Inr (sc\<lparr>sc_cc := cc\<rparr>)
       else bind_c (cluster_update_route M net cc) (\<lambda>(_, cc). Inr (sc\<lparr>sc_cc := cc\<rparr>)))"

definition redisClusterConnect :: "mem \<Rightarrow> net \<Rightarrow> bytes \<Rightarrow> int \<Rightarrow> setup_context option c_res" where
  "redisClusterConnect M net addrs flags =
     (case redisClusterContextInit M of
        None \<Rightarrow> Inr None
      | Some sc \<Rightarrow> bind_c (cluster_connect M net addrs (sc\<lparr>sc_cc := or_flags flags (or_flags BLOCK_BIT (sc_cc sc))\<rparr>)) (\<lambda>sc. Inr (Some sc)))"

definition redisClusterConnectWithTimeout :: "mem \<Rightarrow> net \<Rightarrow> bytes \<Rightarrow> timeval \<Rightarrow> int \<Rightarrow> setup_context option c_res" where
  "redisClusterConnectWithTimeout M net addrs tv flags =
     (case redisClusterContextInit M of
        None \<Rightarrow> Inr None
      | Some sc \<Rightarrow>
          if \<not> mem_ok M 16 then Inl NullDeref
          else
            bind_c (cluster_connect M net addrs (sc\<lparr>sc_cc := or_flags flags (or_flags BLOCK_BIT (sc_cc sc)), sc_connect_timeout := Some tv\<rparr>)) (\<lambda>sc.
              Inr (Some sc)))"

definition redisClusterConnectNonBlock :: "mem \<Rightarrow> net \<Rightarrow> bytes \<Rightarrow> int \<Rightarrow> setup_context option c_res" where
  "redisClusterConnectNonBlock M net addrs flags =
     (case redisClusterContextInit M of
        None \<Rightarrow> Inr None
      | Some sc \<Rightarrow> bind_c (cluster_connect M net addrs (sc\<lparr>sc_cc := or_flags flags (clear_flags BLOCK_BIT (sc_cc sc))\<rparr>)) (\<lambda>sc. Inr (Some sc)))"

definition redisClusterConnect2 :: "mem \<Rightarrow> net \<Rightarrow> redisClusterContext \<Rightarrow> (int \<times> redisClusterContext) c_res" where
  "redisClusterConnect2 M net cc =
     (case cc_nodes cc of
        None \<Rightarrow> Inr (REDIS_ERR, redisClusterSetError cc 2 ''servers address does not set up'')
      | Some nds \<Rightarrow>
          if d_used nds = 0 then Inr (REDIS_ERR, redisClusterSetError cc 2 ''servers address does not set up'')
          else cluster_update_route M net cc)"

section \<open>The table of the first servers\<close>

type_synonym server = "bytes \<times> nat"

definition addr_text :: "server \<Rightarrow> bytes" where
  "addr_text a = fst a @ '':'' @ dec (snd a)"

definition server_ok :: "server \<Rightarrow> bool" where
  "server_ok a \<longleftrightarrow> fst a \<noteq> [] \<and> set (fst a) \<inter> {CHR '':'', CHR '','', NUL} = {} \<and> 0 < snd a \<and> snd a < 2 ^ 31 \<and> length (addr_text a) < 2 ^ 31"

lemma addr_text_inj:
  assumes "server_ok a" "server_ok b" "addr_text a = addr_text b"
  shows "a = b"
proof -
  have "takeWhile (\<lambda>x. x \<noteq> CHR '':'') (addr_text c) = fst c" "dropWhile (\<lambda>x. x \<noteq> CHR '':'') (addr_text c) = '':'' @ dec (snd c)" if "server_ok c" for c
    using that by (auto simp: addr_text_def server_ok_def takeWhile_append dropWhile_append takeWhile_eq_all_conv)
  then have "fst a = fst b" "dec (snd a) = dec (snd b)" using assms by (metis, metis append_same_eq same_append_eq)
  then show ?thesis using dec_inj by (metis prod_eqI)
qed

lemma dec_plain: "CHR '':'' \<notin> set (dec n)" "CHR '','' \<notin> set (dec n)" "NUL \<notin> set (dec n)"
  using dec_isdigit [of "CHR '':''" n] dec_isdigit [of "CHR '',''" n] dec_isdigit [of NUL n] by (auto simp: isdigit_def char_code_def)

lemma addr_text_plain: "server_ok a \<Longrightarrow> CHR '','' \<notin> set (addr_text a) \<and> NUL \<notin> set (addr_text a)"
  using dec_plain by (auto simp: addr_text_def server_ok_def)

lemma split_addr_text:
  assumes "server_ok a" "\<forall>n. mem_ok M n"
  shows "\<exists>ts. split_at M CHR '':'' (addr_text a) = Inr (Some ts) \<and> map content ts = [fst a, dec (snd a)]"
proof -
  have j: "addr_text a = join_spec '':'' [fst a, dec (snd a)]" by (simp add: addr_text_def)
  show ?thesis using split_at_join [of "[fst a, dec (snd a)]" "CHR '':''" M] assms dec_plain(1) unfolding server_ok_def j by auto
qed

text \<open>The table after the servers \<open>as\<close> were added: one node for each, and nothing else.\<close>

definition seeded :: "server list \<Rightarrow> redisClusterContext \<Rightarrow> bool" where
  "seeded as cc \<longleftrightarrow>
     (case cc_nodes cc of
        None \<Rightarrow> as = []
      | Some d \<Rightarrow>
          dict_ok clusterNodesDictType d \<and> d_size d \<le> max 4 (2 * d_used d) \<and> d_used d \<le> length as \<and> dom (dict_map d) = addr_text ` set as \<and>
          (\<forall>a \<in> set as. \<exists>p n. dict_map d (addr_text a) = Some p \<and> node_at (cc_heap cc) p = Inr n \<and> cn_addr n = Some (addr_text a) \<and>
             cn_host n = Some (fst a) \<and> cn_port n = int (snd a)))"

lemma seeded_Some:
  "seeded as (cc\<lparr>cc_nodes := Some d\<rparr>) \<longleftrightarrow> dict_ok clusterNodesDictType d \<and> d_size d \<le> max 4 (2 * d_used d) \<and> d_used d \<le> length as \<and> dom (dict_map d) = addr_text ` set as \<and>
     (\<forall>a \<in> set as. \<exists>p n. dict_map d (addr_text a) = Some p \<and> node_at (cc_heap cc) p = Inr n \<and> cn_addr n = Some (addr_text a) \<and>
        cn_host n = Some (fst a) \<and> cn_port n = int (snd a))"
  by (simp add: seeded_def)

lemma node_at_append: "node_at H p = Inr n \<Longrightarrow> node_at (H @ K) p = Inr n" "node_at (H @ [n]) (Suc (length H)) = Inr n"
  by (auto simp: node_at_def rd_def nth_append split: if_splits)

lemma add_node_seeded:
  assumes "seeded as (cc\<lparr>cc_nodes := Some d\<rparr>)" "server_ok a" "\<forall>b \<in> set as. server_ok b" "addr_text a \<notin> dom (dict_map d)" "\<forall>n. mem_ok M n" "length as < 2 ^ 28"
  shows "\<exists>d' H'. add_node M (addr_text a) d (cc\<lparr>cc_nodes := Some d\<rparr>) = Inr (REDIS_OK, cc\<lparr>cc_nodes := Some d', cc_heap := H'\<rparr>) \<and>
    seeded (as @ [a]) (cc\<lparr>cc_nodes := Some d', cc_heap := H'\<rparr>)"
proof -
  note s = assms(1) [unfolded seeded_Some]
  obtain ts where ts: "split_at M CHR '':'' (addr_text a) = Inr (Some ts)" "map content ts = [fst a, dec (snd a)]"
    using split_addr_text [OF assms(2,5)] by (elim exE conjE)
  have len: "length (addr_text a) < 2 ^ 31" and port: "hi_atoi (dec (snd a)) = int (snd a)" and pos: "0 < snd a" "fst a \<noteq> []"
    using assms(2) by (simp_all add: server_ok_def hi_atoi_dec)
  have cs: "cstr (addr_text a) = addr_text a" using addr_text_plain [OF assms(2)] cstr_id by blast
  let ?p = "length (cc_heap cc) + 1" and ?n = "cluster_node_init\<lparr>cn_addr := Some (addr_text a), cn_host := Some (fst a), cn_port := int (snd a)\<rparr>"
  have "d_size d \<le> max 4 (2 * d_used d)" "d_used d \<le> length as" using s by blast+
  then have "d_size d < 2 ^ 30" "d_used d < 2 ^ 63" using assms(6) by simp_all
  from nodes.dictAdd_law [OF conjunct1 [OF s] this assms(5), of "addr_text a" ?p] assms(4) obtain d' where
    d': "dictAdd M clusterNodesDictType d (addr_text a) ?p = Inr (DICT_OK, d')" "dict_ok clusterNodesDictType d'" "dict_map d' = (dict_map d)(addr_text a \<mapsto> dup_val clusterNodesDictType ?p)"
      "d_used d' = Suc (d_used d)" "d_size d' \<le> max 4 (max (d_size d) (2 * d_used d))" by auto
  have dv: "dup_val clusterNodesDictType ?p = ?p" by (simp add: clusterNodesDictType_def dup_val_def)
  let ?cc = "cc\<lparr>cc_nodes := Some d', cc_heap := cc_heap cc @ [?n]\<rparr>"
  have r: "add_node M (addr_text a) d (cc\<lparr>cc_nodes := Some d\<rparr>) = Inr (REDIS_OK, ?cc)"
    using ts port pos assms(5) len d'(1) dec_not_Nil cs by (simp add: add_node_def sdsnew_def sdsnewlen_of sds_key_ok)
  have new: "node_at (cc_heap ?cc) ?p = Inr ?n" using node_at_append(2) [of "cc_heap cc" ?n] by simp
  have "\<exists>p n. dict_map d' (addr_text b) = Some p \<and> node_at (cc_heap ?cc) p = Inr n \<and> cn_addr n = Some (addr_text b) \<and> cn_host n = Some (fst b) \<and> cn_port n = int (snd b)"
    if b: "b \<in> set (as @ [a])" for b
  proof (cases "b \<in> set as")
    case True
    then obtain p n where o: "dict_map d (addr_text b) = Some p" "node_at (cc_heap cc) p = Inr n" "cn_addr n = Some (addr_text b)" "cn_host n = Some (fst b)" "cn_port n = int (snd b)"
      using s by blast
    then have "dict_map d' (addr_text b) = Some p" using assms(4) d'(3) by (metis domI fun_upd_other)
    then show ?thesis using o node_at_append(1) [OF o(2), of "[?n]"] by auto
  next
    case False
    then have "b = a" using b by simp
    then show ?thesis using d'(3) dv new by (intro exI [of _ ?p] exI [of _ ?n]) simp
  qed
  moreover have "dom (dict_map d') = addr_text ` set (as @ [a])" "d_used d' \<le> length (as @ [a])" using s d'(3,4) by auto
  moreover have "d_size d' \<le> max 4 (2 * d_used d')" using conjunct1 [OF conjunct2 [OF s]] d'(4,5) by linarith
  ultimately have "seeded (as @ [a]) ?cc" using d'(2) by (simp only: seeded_def) simp
  then show ?thesis using r by blast
qed

lemma AddNode_seeded:
  assumes "seeded as cc" "server_ok a" "\<forall>b \<in> set as. server_ok b" "\<forall>n. mem_ok M n" "length as < 2 ^ 28"
  shows "\<exists>d H. redisClusterSetOptionAddNode M (addr_text a) cc = Inr (REDIS_OK, cc\<lparr>cc_nodes := Some d, cc_heap := H\<rparr>) \<and>
    seeded (as @ [a]) (cc\<lparr>cc_nodes := Some d, cc_heap := H\<rparr>)"
proof -
  have cs: "cstr (addr_text a) = addr_text a" using addr_text_plain [OF assms(2)] cstr_id by blast
  have key: "sds_key M (addr_text a) = Inr (addr_text a)" using assms(2,4) by (simp add: server_ok_def sds_key_ok)
  obtain d where d: "(case cc_nodes cc of Some nds \<Rightarrow> Inr nds | None \<Rightarrow> dictCreate M) = Inr d" "seeded as (cc\<lparr>cc_nodes := Some d\<rparr>)"
  proof (cases "cc_nodes cc")
    case None
    then have "as = []" using assms(1) by (simp add: seeded_def)
    moreover have "dict_ok clusterNodesDictType (dictReset :: (bytes, nptr) dict)" "dict_map (dictReset :: (bytes, nptr) dict) = Map.empty"
      by (simp_all add: dict_ok_def)
    ultimately show thesis using that [of dictReset] None assms(4) by (simp add: dictCreate_def seeded_Some dictReset_def)
  next
    case (Some d)
    then have eq: "cc\<lparr>cc_nodes := Some d\<rparr> = cc" by (cases cc) simp
    show thesis by (rule that [of d]) (use Some in simp, subst eq, rule assms(1))
  qed
  have "dict_ok clusterNodesDictType d" using d(2) by (simp add: seeded_Some)
  note find = nodes.dictFind_law [OF this, of "addr_text a"]
  show ?thesis
  proof (cases "dict_map d (addr_text a)")
    case None
    from add_node_seeded [OF d(2) assms(2,3) _ assms(4,5)] None show ?thesis
      using d(1) cs key find by (auto simp: redisClusterSetOptionAddNode_def)
  next
    case (Some p)
    have "addr_text a \<in> addr_text ` set as" using Some d(2) by (auto simp: seeded_Some)
    then have "a \<in> set as" using addr_text_inj [OF assms(2)] assms(3) by auto
    then have "seeded (as @ [a]) (cc\<lparr>cc_nodes := Some d\<rparr>)" using d(2) by (auto simp: seeded_Some)
    moreover have "cc\<lparr>cc_nodes := Some d\<rparr> = cc\<lparr>cc_nodes := Some d, cc_heap := cc_heap cc\<rparr>" by (cases cc) simp
    ultimately show ?thesis using d(1) cs key find Some by (auto simp: redisClusterSetOptionAddNode_def intro!: exI [of _ d] exI [of _ "cc_heap cc"])
  qed
qed

lemma add_nodes_seeded:
  assumes "seeded as cc" "\<forall>b \<in> set (as @ bs). server_ok b" "\<forall>n. mem_ok M n" "length (as @ bs) < 2 ^ 28" "bs \<noteq> []"
  shows "\<exists>d H. add_nodes M (map addr_text bs) cc = Inr (REDIS_OK, cc\<lparr>cc_nodes := Some d, cc_heap := H\<rparr>) \<and> seeded (as @ bs) (cc\<lparr>cc_nodes := Some d, cc_heap := H\<rparr>)"
  using assms
proof (induction bs arbitrary: as cc)
  case (Cons b bs)
  from AddNode_seeded [OF Cons.prems(1), of b M] Cons.prems(2-4) obtain d H where
    1: "redisClusterSetOptionAddNode M (addr_text b) cc = Inr (REDIS_OK, cc\<lparr>cc_nodes := Some d, cc_heap := H\<rparr>)" "seeded (as @ [b]) (cc\<lparr>cc_nodes := Some d, cc_heap := H\<rparr>)" by auto
  show ?case
  proof (cases "bs = []")
    case False
    from Cons.IH [OF 1(2)] Cons.prems(2-4) False show ?thesis using 1(1) by auto
  qed (use 1 in auto)
qed simp

lemma AddNodes_seeded:
  assumes "bs \<noteq> []" "\<forall>b \<in> set bs. server_ok b" "\<forall>n. mem_ok M n" "length (join_spec '','' (map addr_text bs)) < 2 ^ 31" "length bs < 2 ^ 28" "cc_nodes cc = None"
  shows "\<exists>d H. redisClusterSetOptionAddNodes M (join_spec '','' (map addr_text bs)) cc = Inr (REDIS_OK, cc\<lparr>cc_nodes := Some d, cc_heap := H\<rparr>) \<and>
    seeded bs (cc\<lparr>cc_nodes := Some d, cc_heap := H\<rparr>)"
proof -
  let ?t = "join_spec '','' (map addr_text bs)"
  have "NUL \<notin> set (join_spec '','' (map addr_text cs))" if "\<forall>b \<in> set cs. server_ok b" for cs
    using that addr_text_plain by (induction cs rule: induct_list012) auto
  then have cs: "cstr ?t = ?t" using assms(2) cstr_id by blast
  have "?t \<noteq> []" using assms(1) by (cases bs rule: list.exhaust; cases "tl bs") (auto simp: addr_text_def)
  then obtain ts where ts: "split_at M CHR '','' ?t = Inr (Some ts)" "map content ts = map addr_text bs"
    using split_at_join [of "map addr_text bs" "CHR '',''" M] addr_text_plain assms by auto
  obtain t ts' where "ts = t # ts'" using ts(2) assms(1) by (cases ts) auto
  then have "redisClusterSetOptionAddNodes M ?t cc = add_nodes M (map addr_text bs) cc"
    using ts by (simp add: redisClusterSetOptionAddNodes_def cs del: add_nodes.simps list.map)
  moreover have "seeded [] cc" using assms(6) by (simp add: seeded_def)
  ultimately show ?thesis using add_nodes_seeded [of "[]" cc bs M] assms by simp
qed

section \<open>Asking the first servers\<close>

text \<open>
  What the servers do when they are asked for the route: the same topology from each of those that answer; the others
  cannot be reached.
\<close>

definition answers_or_down :: "net \<Rightarrow> redisClusterContext \<Rightarrow> (bytes \<rightharpoonup> ranges) \<Rightarrow> server \<Rightarrow> bool" where
  "answers_or_down net cc rng a \<longleftrightarrow> net_announces net cc (fst a) (int (snd a)) rng \<or>
     (\<forall>cmd. net (fst a) (int (snd a)) cmd = NoContext \<or> (\<exists>e msg. net (fst a) (int (snd a)) cmd = NotConnected e msg))"

text \<open>The context after a successful update: exactly the announced masters and slots.\<close>

definition has_route :: "(bytes \<rightharpoonup> ranges) \<Rightarrow> redisClusterContext \<Rightarrow> bool" where
  "has_route rng cc \<longleftrightarrow> (\<exists>d. cc_nodes cc = Some d \<and> announces (cc_heap cc) d rng \<and>
     (\<forall>ad p. dict_map d ad = Some p \<longrightarrow> (\<forall>s \<in> set (cov (the (rng ad))). cc_table cc s = p)) \<and>
     (\<forall>s. (\<forall>rs \<in> ran rng. s \<notin> set (cov rs)) \<longrightarrow> cc_table cc s = 0))"

lemma net_announces_flags: "cc_flags cc' = cc_flags cc \<Longrightarrow> net_announces net cc' ip port rng = net_announces net cc ip port rng"
  by (simp add: net_announces_def)

lemma same_route_fields:
  "same_route cc cc' \<Longrightarrow> cc_flags cc' = cc_flags cc \<and> cc_heap cc' = cc_heap cc \<and> cc_nodes cc' = cc_nodes cc"
  by (cases cc; cases cc') (simp add: same_route_def)

lemma down_fails:
  assumes "\<forall>cmd. net ip port cmd = NoContext \<or> (\<exists>e msg. net ip port cmd = NotConnected e msg)"
  shows "\<exists>cc'. cluster_update_route_by_addr M net cc ip port = Inr (-1, cc') \<and> same_route cc cc'"
proof -
  let ?cmd = "if and (cc_flags cc) HIRCLUSTER_FLAG_ROUTE_USE_SLOTS \<noteq> 0 then ''CLUSTER SLOTS'' else ''CLUSTER NODES''"
  have "net ip port ?cmd = NoContext \<or> (\<exists>e msg. net ip port ?cmd = NotConnected e msg)" using assms by blast
  then have "\<exists>e. fetch_nodes M net cc ip port = Inr (Inl e)" unfolding fetch_nodes_def Let_def by (elim disjE exE) simp_all
  then show ?thesis by (auto simp: cluster_update_route_by_addr_def bind_p_def same_route_refl)
qed

lemma try_nodes_first:
  assumes "cc_ok cc" "disjoint_ranges rng" "\<forall>n. mem_ok M n" "and (cc_flags cc) HIRCLUSTER_FLAG_ADD_SLAVE = 0"
    "\<forall>e \<in> set es. \<exists>a n. a \<in> set as \<and> node_at (cc_heap cc) (snd e) = Inr n \<and> cn_host n = Some (fst a) \<and> cn_port n = int (snd a) \<and> 0 < snd a \<and> f e = a"
    "\<forall>a \<in> set as. answers_or_down net cc rng a" "\<exists>e \<in> set es. net_announces net cc (fst (f e)) (int (snd (f e))) rng"
  shows "\<exists>ns cc'. try_nodes M net cc b es = Inr (0, ns, cc') \<and> cc_err cc' = 0 \<and> has_route rng cc' \<and> cc_route_version cc' = cc_route_version cc + 1"
  using assms
proof (induction es arbitrary: cc b)
  case (Cons e es)
  obtain k p where e: "e = (k, p)" by fastforce
  from Cons.prems(5) e obtain a n where a: "a \<in> set as" "node_at (cc_heap cc) p = Inr n" "cn_host n = Some (fst a)" "cn_port n = int (snd a)" "0 < snd a" "f e = a"
    by auto
  have p: "p \<noteq> 0" using node_at_pos [OF a(2)] by simp
  show ?case
  proof (cases "net_announces net cc (fst a) (int (snd a)) rng")
    case True
    from update_by_addr_ok [OF Cons.prems(1) True Cons.prems(2) _ Cons.prems(3,4)] a(5) obtain cc' d where
      u: "cluster_update_route_by_addr M net cc (fst a) (int (snd a)) = Inr (0, cc')" "cc_nodes cc' = Some d" "announces (cc_heap cc') d rng"
        "cc_route_version cc' = cc_route_version cc + 1" "\<forall>ad p. dict_map d ad = Some p \<longrightarrow> (\<forall>s \<in> set (cov (the (rng ad))). cc_table cc' s = p)"
        "\<forall>s. (\<forall>rs \<in> ran rng. s \<notin> set (cov rs)) \<longrightarrow> cc_table cc' s = 0" by auto
    then have "has_route rng cc'" "has_route rng (cc'\<lparr>cc_err := 0, cc_errstr := []\<rparr>)" by (auto simp: has_route_def)
    then show ?thesis using u(1,4) a(2-4) p e by auto
  next
    case False
    then have "\<forall>cmd. net (fst a) (int (snd a)) cmd = NoContext \<or> (\<exists>e msg. net (fst a) (int (snd a)) cmd = NotConnected e msg)"
      using Cons.prems(6) a(1) by (auto simp: answers_or_down_def)
    from down_fails [of net "fst a" "int (snd a)" M cc, OF this] obtain cc1 where u: "cluster_update_route_by_addr M net cc (fst a) (int (snd a)) = Inr (-1, cc1)" "same_route cc cc1" by blast
    note f = same_route_fields [OF u(2)]
    have na: "net_announces net cc1 ip port rng = net_announces net cc ip port rng" for ip port by (rule net_announces_flags [OF conjunct1 [OF f]])
    have ok: "cc_ok cc1" using Cons.prems(1) f by (simp add: cc_ok_def split: option.splits)
    have ex: "\<exists>e \<in> set es. net_announces net cc1 (fst (f e)) (int (snd (f e))) rng" unfolding na using Cons.prems(7) False a(6) by auto
    have "\<exists>ns cc'. try_nodes M net cc1 False es = Inr (0, ns, cc') \<and> cc_err cc' = 0 \<and> has_route rng cc' \<and> cc_route_version cc' = cc_route_version cc1 + 1"
      by (rule Cons.IH [OF ok Cons.prems(2,3) _ _ _ ex]) (use Cons.prems(4-6) f in \<open>simp_all add: answers_or_down_def na\<close>)
    then show ?thesis using u a(2-4) p e same_route_version(1) [OF u(2)] by auto
  qed
qed simp

lemma seeded_cc_ok:
  assumes "seeded as cc"
  shows "cc_ok cc"
proof (cases "cc_nodes cc")
  case (Some d)
  have s: "dict_ok clusterNodesDictType d" "dom (dict_map d) = addr_text ` set as"
    and at: "\<And>a. a \<in> set as \<Longrightarrow> \<exists>p n. dict_map d (addr_text a) = Some p \<and> node_at (cc_heap cc) p = Inr n \<and> cn_addr n = Some (addr_text a)"
    using assms Some by (auto simp: seeded_def)
  have "\<exists>n. node_at (cc_heap cc) p = Inr n \<and> cn_addr n = Some ad" if m: "dict_map d ad = Some p" for ad p
  proof -
    obtain b where "b \<in> set as" "ad = addr_text b" using m s(2) by blast
    then show ?thesis using at [of b] m by auto
  qed
  then show ?thesis using Some s(1) by (simp add: cc_ok_def nodes_ok_def)
qed (simp add: cc_ok_def)

lemma update_route_seeded:
  assumes "seeded as cc" "cc_nodes cc = Some d" "cc_ip cc = None" "\<forall>a \<in> set as. server_ok a" "length as < 2 ^ 28" "disjoint_ranges rng" "\<forall>n. mem_ok M n"
    "and (cc_flags cc) HIRCLUSTER_FLAG_ADD_SLAVE = 0" "\<forall>a \<in> set as. answers_or_down net cc rng a" "a \<in> set as" "net_announces net cc (fst a) (int (snd a)) rng"
  shows "\<exists>cc'. cluster_update_route M net cc = Inr (0, cc') \<and> cc_err cc' = 0 \<and> has_route rng cc' \<and> cc_route_version cc' = cc_route_version cc + 1"
proof -
  have s: "dict_ok clusterNodesDictType d" "d_size d \<le> max 4 (2 * d_used d)" "d_used d \<le> length as" "dom (dict_map d) = addr_text ` set as"
    and at: "\<And>a. a \<in> set as \<Longrightarrow> \<exists>p n. dict_map d (addr_text a) = Some p \<and> node_at (cc_heap cc) p = Inr n \<and> cn_host n = Some (fst a) \<and> cn_port n = int (snd a)"
    using assms(1,2) by (auto simp: seeded_def)
  obtain it :: "(bytes, nptr) dictIterator" where it: "dictGetIterator M = Inr it" using assms(7) by (simp add: dictGetIterator_def)
  have sz: "d_size d < 2 ^ 31" using s(2,3) assms(5) by simp
  obtain es where es: "dict_walk (d_used d + 1) d it = Inr es" "\<forall>k p. (k, p) \<in> set es \<longleftrightarrow> dict_map d k = Some p"
    by (rule table_entries [OF s(1) sz it])
  define f where "f e = (SOME a. a \<in> set as \<and> addr_text a = fst e)" for e :: "bytes \<times> nptr"
  have f: "f (k, p) = a" if "a \<in> set as" "addr_text a = k" for a k p
    unfolding f_def using that assms(4) addr_text_inj by (intro some_equality) auto
  have ent: "\<forall>e \<in> set es. \<exists>a n. a \<in> set as \<and> node_at (cc_heap cc) (snd e) = Inr n \<and> cn_host n = Some (fst a) \<and> cn_port n = int (snd a) \<and> 0 < snd a \<and> f e = a"
  proof
    fix e assume e: "e \<in> set es"
    obtain k p where kp: "e = (k, p)" by fastforce
    then have m: "dict_map d k = Some p" using es(2) e by simp
    then obtain b where b: "b \<in> set as" "k = addr_text b" using s(4) by blast
    from at [OF b(1)] m b(2) obtain n where "node_at (cc_heap cc) p = Inr n" "cn_host n = Some (fst b)" "cn_port n = int (snd b)" by auto
    moreover have "0 < snd b" using assms(4) b(1) by (auto simp: server_ok_def)
    ultimately show "\<exists>a n. a \<in> set as \<and> node_at (cc_heap cc) (snd e) = Inr n \<and> cn_host n = Some (fst a) \<and> cn_port n = int (snd a) \<and> 0 < snd a \<and> f e = a"
      using b f kp by (intro exI [of _ b] exI [of _ n]) simp
  qed
  obtain p where "dict_map d (addr_text a) = Some p" using at [OF assms(10)] by auto
  then have "(addr_text a, p) \<in> set es" "f (addr_text a, p) = a" using es(2) f [OF assms(10)] by auto
  then have "\<exists>e \<in> set es. net_announces net cc (fst (f e)) (int (snd (f e))) rng" using assms(11) by force
  from try_nodes_first [OF seeded_cc_ok [OF assms(1)] assms(6-8) ent assms(9) this, of True] show ?thesis
    using assms(2,3) it es(1) by (auto simp: cluster_update_route_def)
qed

section \<open>Properties\<close>

text \<open>
  C7: connecting to a cluster. Given a text of addresses \<open>host:port,host:port,\<dots>\<close> of which at least one server
  answers, and all that answer announce the same topology without overlaps, \<^verbatim>\<open>redisClusterConnect\<close> returns a
  context without an error whose table of nodes holds exactly the announced masters and whose routing table sends every announced
  slot to its node and no other slot anywhere. It does not matter which of the servers are down or listed twice.
\<close>

theorem redisClusterConnect_routes:
  assumes "as \<noteq> []" "\<forall>a \<in> set as. server_ok a" "length as < 2 ^ 28" "length (join_spec '','' (map addr_text as)) < 2 ^ 31" "\<forall>n. mem_ok M n"
    "and flags HIRCLUSTER_FLAG_ADD_SLAVE = 0" "disjoint_ranges rng"
    "\<forall>cc. cc_flags cc = or flags 1 \<longrightarrow> (\<forall>b \<in> set as. answers_or_down net cc rng b) \<and> net_announces net cc (fst a) (int (snd a)) rng" "a \<in> set as"
  shows "\<exists>sc. redisClusterConnect M net (join_spec '','' (map addr_text as)) flags = Inr (Some sc) \<and> cc_err (sc_cc sc) = 0 \<and> has_route rng (sc_cc sc) \<and>
    cc_route_version (sc_cc sc) = 1"
proof -
  obtain sc where sc: "redisClusterContextInit M = Some sc" using assms(5) by (simp add: redisClusterContextInit_def)
  let ?cc = "or_flags flags (or_flags BLOCK_BIT (sc_cc sc))"
  have c: "cc_flags ?cc = or flags 1" "cc_nodes ?cc = None" "cc_ip ?cc = None" "cc_route_version ?cc = 0"
    using sc assms(5) by (auto simp: redisClusterContextInit_def or_flags_def or.commute)
  obtain d H where 1: "redisClusterSetOptionAddNodes M (join_spec '','' (map addr_text as)) ?cc = Inr (REDIS_OK, ?cc\<lparr>cc_nodes := Some d, cc_heap := H\<rparr>)"
      "seeded as (?cc\<lparr>cc_nodes := Some d, cc_heap := H\<rparr>)" using AddNodes_seeded [of as M ?cc] assms(1-5) c(2) by auto
  let ?cc1 = "?cc\<lparr>cc_nodes := Some d, cc_heap := H\<rparr>"
  have f1: "cc_nodes ?cc1 = Some d" "cc_ip ?cc1 = None" "cc_flags ?cc1 = or flags 1" using c by simp_all
  have net: "\<forall>a \<in> set as. answers_or_down net ?cc1 rng a" "net_announces net ?cc1 (fst a) (int (snd a)) rng"
    using assms(8) f1(3) by blast+
  have fl: "and (cc_flags ?cc1) HIRCLUSTER_FLAG_ADD_SLAVE = 0" unfolding f1(3) using assms(6) by (simp add: bit.conj_disj_distrib2)
  from update_route_seeded [OF 1(2) f1(1,2) assms(2,3,7,5) fl net(1) assms(9) net(2)] obtain cc' where
    "cluster_update_route M net ?cc1 = Inr (0, cc')" "cc_err cc' = 0" "has_route rng cc'" "cc_route_version cc' = cc_route_version ?cc1 + 1" by blast
  then show ?thesis using sc 1(1) c(4) by (simp add: redisClusterConnect_def cluster_connect_def)
qed

theorem redisClusterConnect_routes_witness:
  "\<exists>sc d. redisClusterConnect granting
      (\<lambda>ip port command. if ip = ''g'' then Answered 0 (RArr (map reg_reply [\<lparr>rg_start = 0, rg_end = 1, rg_host = ''g'', rg_port = 8, rg_id = RNil, rg_replicas = []\<rparr>])) else NoContext)
      ''h:7,g:8'' 0x4000 = Inr (Some sc) \<and> cc_err (sc_cc sc) = 0 \<and> cc_nodes (sc_cc sc) = Some d \<and> dict_map d ''g:8'' = Some (cc_table (sc_cc sc) 1) \<and> cc_table (sc_cc sc) 2 = 0"
proof -
  let ?g = "\<lparr>rg_start = 0, rg_end = 1, rg_host = ''g'', rg_port = 8, rg_id = RNil, rg_replicas = []\<rparr>"
  let ?net = "\<lambda>ip port command. if ip = ''g'' then Answered 0 (RArr (map reg_reply [?g])) else NoContext" and ?rng = "[''g:8'' \<mapsto> [(0::nat, 1)]]"
  have dec: "dec 7 = ''7''" "dec 8 = ''8''" by code_simp+
  then have rng: "slots_ranges [?g] = ?rng" by (intro ext) (simp add: slots_ranges_def rg_addr_def)
  have t: "map addr_text [(''h'', 7), (''g'', 8)] = [''h:7'', ''g:8'']" by (simp add: addr_text_def dec)
  have na: "net_announces ?net cc ''g'' 8 ?rng" if "cc_flags cc = or 0x4000 1" for cc :: redisClusterContext
  proof -
    have "and (cc_flags cc) HIRCLUSTER_FLAG_ROUTE_USE_SLOTS \<noteq> 0" using that by simp
    then show ?thesis unfolding net_announces_def using rng by (auto simp: reg_ok_def intro!: exI [of _ 0] exI [of _ "[?g]"])
  qed
  have "\<exists>sc. redisClusterConnect granting ?net (join_spec '','' (map addr_text [(''h'', 7), (''g'', 8)])) 0x4000 = Inr (Some sc) \<and> cc_err (sc_cc sc) = 0 \<and>
      has_route ?rng (sc_cc sc) \<and> cc_route_version (sc_cc sc) = 1"
  proof (rule redisClusterConnect_routes [where a = "(''g'', 8)"])
    show "\<forall>cc. cc_flags cc = or 0x4000 1 \<longrightarrow> (\<forall>b \<in> set [(''h'', 7), (''g'', 8)]. answers_or_down ?net cc ?rng b) \<and> net_announces ?net cc (fst (''g'', 8)) (int (snd (''g'', 8))) ?rng"
      using na by (auto simp: answers_or_down_def)
  qed (simp_all add: server_ok_def addr_text_def dec disjoint_ranges_def cov_def)
  then obtain sc where r: "redisClusterConnect granting ?net ''h:7,g:8'' 0x4000 = Inr (Some sc)" "cc_err (sc_cc sc) = 0" "has_route ?rng (sc_cc sc)"
    unfolding t by auto
  then obtain d where d: "cc_nodes (sc_cc sc) = Some d" "announces (cc_heap (sc_cc sc)) d ?rng"
      "\<forall>ad p. dict_map d ad = Some p \<longrightarrow> (\<forall>s \<in> set (cov (the (?rng ad))). cc_table (sc_cc sc) s = p)"
      "\<forall>s. (\<forall>rs \<in> ran ?rng. s \<notin> set (cov rs)) \<longrightarrow> cc_table (sc_cc sc) s = 0" unfolding has_route_def by blast
  have "dom (dict_map d) = {''g:8''}" using d(2) by (simp add: announces_def)
  then obtain p where p: "dict_map d ''g:8'' = Some p" by blast
  then have "cc_table (sc_cc sc) 1 = p" using d(3) by (simp add: cov_def)
  moreover have "cc_table (sc_cc sc) 2 = 0" using d(4) by (simp add: cov_def)
  ultimately show ?thesis using r(1,2) d(1) p by blast
qed

end
