(* ===== verification/Spec2Isabelle.thy ===== *)
theory Spec2Isabelle
  imports Async Cluster_Pipeline Cluster_Setup
begin

text \<open>
  Verification of hiredis-vip.
\<close>

end
